(* ===== verification/Prelude.thy ===== *)
theory Prelude
  imports Main "HOL-Library.Word"
begin

text \<open>
  Shared vocabulary of the development: machine-integer types, the error values that stand for
  a failed assertion, a panic or undefined behaviour, the error-propagating bind, and the generic
  facts on lists, words and fuel-free loops that the component theories use.
\<close>

unbundle bit_operations_syntax

section \<open>Machine types\<close>

type_synonym u8 = "8 word"
type_synonym u16 = "16 word"
type_synonym u32 = "32 word"
type_synonym u64 = "64 word"

text \<open>Bounds of the C type \<open>int\<close>, for the places where the source computes on signed values.\<close>

abbreviation (input) INT_MAX :: int where "INT_MAX \<equiv> 2147483647"
abbreviation (input) INT_MIN :: int where "INT_MIN \<equiv> -2147483648"

section \<open>Failures as values\<close>

text \<open>
  \<open>Assert_fail\<close> is a failed \<open>assert\<close>, \<open>Panic\<close> a call of \<open>panic\<close>; neither returns in the source.
  The other constructors name undefined behaviour of C++: signed overflow, a shift by the width
  of the type or more, an access outside an array, a variadic argument that is absent or has
  another type than the one \<open>va_arg\<close> asks for, a store to a \<open>const\<close> object, and a division by zero.
\<close>

datatype fault =
    Assert_fail
  | Panic
  | Signed_overflow
  | Shift_overflow
  | Out_of_bounds
  | Bad_vararg
  | Const_write
  | Div_zero

primrec bindE :: "'e + 'a \<Rightarrow> ('a \<Rightarrow> 'e + 'b) \<Rightarrow> 'e + 'b" where
  "bindE (Inl e) f = Inl e"
| "bindE (Inr x) f = f x"

lemma bindE_Inr_iff: "bindE r f = Inr y \<longleftrightarrow> (\<exists>x. r = Inr x \<and> f x = Inr y)"
  by (cases r) auto

lemma bindE_Inl_iff: "bindE r f = Inl e \<longleftrightarrow> r = Inl e \<or> (\<exists>x. r = Inr x \<and> f x = Inl e)"
  by (cases r) auto

lemma bindE_split:
  "P (bindE r f) \<longleftrightarrow> (\<forall>e. r = Inl e \<longrightarrow> P (Inl e)) \<and> (\<forall>x. r = Inr x \<longrightarrow> P (f x))"
  by (cases r) auto

lemma bindE_cong [fundef_cong]:
  "r = r' \<Longrightarrow> (\<And>x. r' = Inr x \<Longrightarrow> f x = g x) \<Longrightarrow> bindE r f = bindE r' g"
  by (cases r') auto

definition guardE :: "bool \<Rightarrow> 'e \<Rightarrow> 'e + unit" where
  "guardE b e = (if b then Inr () else Inl e)"

lemma guardE_True [simp]: "guardE True e = Inr ()"
  by (simp add: guardE_def)

lemma guardE_False [simp]: "guardE False e = Inl e"
  by (simp add: guardE_def)

lemma guardE_Inr_iff [simp]: "guardE b e = Inr x \<longleftrightarrow> b"
  by (simp add: guardE_def)

lemma guardE_Inl_iff [simp]: "guardE b e = Inl e' \<longleftrightarrow> \<not> b \<and> e' = e"
  by (auto simp: guardE_def)

section \<open>Computations that may fail or not end\<close>

text \<open>\<open>None\<close> is a computation that does not end; otherwise the value is a fault or a result.\<close>

type_synonym 'a comp = "(fault + 'a) option"

definition bindIO :: "('e + 'a) option \<Rightarrow> ('a \<Rightarrow> ('e + 'b) option) \<Rightarrow> ('e + 'b) option" where
  "bindIO m k = Option.bind m (\<lambda>r. case r of Inl e \<Rightarrow> Some (Inl e) | Inr x \<Rightarrow> k x)"

abbreviation (input) retIO :: "'a \<Rightarrow> ('e + 'a) option" where "retIO x \<equiv> Some (Inr x)"

lemma bindIO_simps [simp]:
  "bindIO (Some (Inr x)) k = k x" "bindIO (Some (Inl e)) k = Some (Inl e)" "bindIO None k = None"
  by (simp_all add: bindIO_def)

lemma bindIO_cong [fundef_cong]:
  "m = m' \<Longrightarrow> (\<And>x. m' = Some (Inr x) \<Longrightarrow> f x = g x) \<Longrightarrow> bindIO m f = bindIO m' g"
  by (cases m') (auto simp: bindIO_def split: sum.splits)

lemma bindIO_mono [partial_function_mono]:
  assumes "mono_option B" "\<And>y. mono_option (\<lambda>f. C y f)"
  shows "mono_option (\<lambda>f. bindIO (B f) (\<lambda>y. C y f))"
proof -
  have "mono_option (\<lambda>f. case y of Inl e \<Rightarrow> Some (Inl e) | Inr x \<Rightarrow> C x f)" for y
  proof (cases y)
    case (Inl e)
    then show ?thesis by (simp add: option.const_mono)
  next
    case (Inr x)
    then show ?thesis using assms(2) by simp
  qed
  then show ?thesis unfolding bindIO_def by (intro bind_mono assms(1))
qed

section \<open>Words\<close>

lemma word_eq_uint_iff: "(a :: 'a::len word) = b \<longleftrightarrow> uint a = uint b"
  by (simp add: word_uint_eq_iff)

lemma uint_add_small:
  "uint (a :: 'a::len word) + uint b < 2 ^ LENGTH('a) \<Longrightarrow> uint (a + b) = uint a + uint b"
  by (simp add: uint_word_ariths)

lemma unat_add_small:
  "unat (a :: 'a::len word) + unat b < 2 ^ LENGTH('a) \<Longrightarrow> unat (a + b) = unat a + unat b"
  by (simp add: unat_word_ariths)

lemma unat_mult_small:
  "unat (a :: 'a::len word) * unat b < 2 ^ LENGTH('a) \<Longrightarrow> unat (a * b) = unat a * unat b"
  by (simp add: unat_word_ariths)

lemma unat_sub_le:
  "(b :: 'a::len word) \<le> a \<Longrightarrow> unat (a - b) = unat a - unat b"
  by (rule unat_sub)

lemma unat_of_nat_small:
  "n < 2 ^ LENGTH('a) \<Longrightarrow> unat (of_nat n :: 'a::len word) = n"
  by (simp add: unat_of_nat take_bit_eq_mod)

lemma unat_lt2p: "unat (w :: 'a::len word) < 2 ^ LENGTH('a)"
  by (rule unsigned_less)

lemma unat_ucast_up:
  assumes "LENGTH('a) \<le> LENGTH('b)"
  shows "unat (ucast (w :: 'a::len word) :: 'b::len word) = unat w"
proof -
  have "unat w < 2 ^ LENGTH('a)" by (rule unat_lt2p)
  also have "(2 :: nat) ^ LENGTH('a) \<le> 2 ^ LENGTH('b)"
    using assms by (simp add: power_increasing)
  finally show ?thesis
    by (simp add: unsigned_ucast_eq take_bit_nat_eq_self)
qed

lemma sint_small:
  assumes "uint (w :: 'a::len word) < 2 ^ (LENGTH('a) - 1)"
  shows "sint w = uint w"
proof -
  have "- (2 ^ (LENGTH('a) - 1)) \<le> uint w"
    by (rule order_trans [of _ 0]) simp_all
  with assms have "signed_take_bit (LENGTH('a) - 1) (uint w) = uint w"
    by (simp only: signed_take_bit_int_eq_self_iff)
  then show ?thesis by (simp add: sint_uint)
qed

lemma sint_scast_up:
  assumes "LENGTH('a) \<le> LENGTH('b)"
  shows "sint (scast (w :: 'a::len word) :: 'b::len word) = sint w"
proof -
  have le: "(2::int) ^ (LENGTH('a) - 1) \<le> 2 ^ (LENGTH('b) - 1)"
    using assms by (intro power_increasing) auto
  have "- (2 ^ (LENGTH('a) - 1)) \<le> sint w" "sint w < 2 ^ (LENGTH('a) - 1)"
    by (simp_all add: sint_greater_eq sint_less)
  with le have "- (2 ^ (LENGTH('b) - 1)) \<le> sint w" "sint w < 2 ^ (LENGTH('b) - 1)"
    by linarith+
  then have "signed_take_bit (LENGTH('b) - 1) (sint w) = sint w"
    by (simp only: signed_take_bit_int_eq_self_iff)
  then show ?thesis by (simp add: signed_scast_eq)
qed

lemma take_bit_eq_bits:
  "take_bit k (x :: 'a::len word) = take_bit k y \<longleftrightarrow> (\<forall>n < k. bit x n = bit y n)"
proof
  assume eq: "take_bit k x = take_bit k y"
  show "\<forall>n < k. bit x n = bit y n"
    using eq by (metis bit_take_bit_iff)
next
  assume "\<forall>n < k. bit x n = bit y n"
  then show "take_bit k x = take_bit k y"
    by (intro bit_word_eqI) (auto simp: bit_take_bit_iff)
qed

lemma and_exp_word: "(w :: 'a::len word) AND 2 ^ n = (if bit w n then 2 ^ n else 0)"
  by (rule bit_word_eqI) (auto simp: bit_and_iff bit_exp_iff)

lemma or_eq_0_word: "(a :: 'a::len word) OR b = 0 \<longleftrightarrow> a = 0 \<and> b = 0"
proof
  assume eq: "a OR b = 0"
  have "bit a n = False \<and> bit b n = False" for n
    using arg_cong [OF eq, of "\<lambda>w. bit w n"] by (simp add: bit_or_iff)
  then show "a = 0 \<and> b = 0" by (auto intro: bit_word_eqI)
qed simp

lemma and_not_zero: "(x :: 'a::len word) AND NOT y = 0 \<Longrightarrow> x AND y = x"
proof -
  assume z: "x AND NOT y = 0"
  have "x = (x AND y) OR (x AND NOT y)" by (rule bit_word_eqI) (auto simp: bit_simps)
  with z show ?thesis by simp
qed

section \<open>Integer division\<close>

lemma div_less_iff_less_mult_int: "0 < (b :: int) \<Longrightarrow> a div b < c \<longleftrightarrow> a < c * b"
proof
  assume b: "0 < b" and "a div b < c"
  then have "b * (a div b) + b \<le> b * c"
    using mult_left_mono [of "a div b + 1" c b] by (simp add: algebra_simps)
  moreover have "a < b * (a div b) + b"
    using b mult_div_mod_eq [of b a] pos_mod_bound [of b a] by linarith
  ultimately show "a < c * b" by (simp add: mult.commute)
next
  assume b: "0 < b" and "a < c * b"
  moreover have "b * (a div b) \<le> a"
    using b mult_div_mod_eq [of b a] pos_mod_sign [of b a] by linarith
  ultimately have "b * (a div b) < b * c" by (simp only: mult.commute)
  with b show "a div b < c" by (simp only: mult_less_cancel_left_pos)
qed

end
