(* ===== verification/Lib_Num.thy ===== *)
theory Lib_Num
  imports Prelude
begin

text \<open>
  The arithmetic of \<open>lib.hh\<close> and the random numbers of \<open>lib.cc\<close>: minimum and maximum, rounding
  to a multiple and to a power of two, the most and least significant one bit, the character
  classes, and \<open>rand\<close>/\<open>srand\<close>. The bit tricks of the source are kept and related to their plain
  meaning by the lemmas.
\<close>

section \<open>Minimum, maximum, rounding to a multiple\<close>

definition lib_min :: "'a::linorder \<Rightarrow> 'a \<Rightarrow> 'a" where
  "lib_min a b = (if a < b then a else b)"

definition lib_min3 :: "'a::linorder \<Rightarrow> 'a \<Rightarrow> 'a \<Rightarrow> 'a" where
  "lib_min3 a b c = lib_min (lib_min a b) c"

definition lib_max :: "'a::linorder \<Rightarrow> 'a \<Rightarrow> 'a" where
  "lib_max a b = (if b < a then a else b)"

definition lib_max3 :: "'a::linorder \<Rightarrow> 'a \<Rightarrow> 'a \<Rightarrow> 'a" where
  "lib_max3 a b c = lib_max (lib_max a b) c"

lemma lib_min_eq: "lib_min a b = min a b"
  by (auto simp: lib_min_def min_def)

lemma lib_max_eq: "lib_max a b = max a b"
  by (auto simp: lib_max_def max_def)

definition round_down :: "u64 \<Rightarrow> u32 \<Rightarrow> u64" where
  "round_down x multiple = x - (x mod ucast multiple)"

definition round_up :: "u64 \<Rightarrow> u32 \<Rightarrow> u64" where
  "round_up x multiple = round_down (x + ucast multiple - 1) multiple"

lemma unat_round_down:
  "unat (round_down x m) = unat x - unat x mod unat m"
proof -
  have m: "unat (ucast m :: u64) = unat m"
    by (simp add: unat_ucast_up)
  have "x mod ucast m \<le> x"
    by (simp add: word_le_nat_alt unat_mod_distrib)
  then have "unat (x - x mod ucast m) = unat x - unat (x mod ucast m)"
    by (rule unat_sub)
  then show ?thesis
    by (simp add: round_down_def unat_mod_distrib m)
qed

lemma round_down_dvd: "unat m dvd unat (round_down x m)"
  by (simp add: unat_round_down minus_mod_eq_mult_div)

lemma unat_round_up:
  assumes "m \<noteq> 0" and "unat x + unat m \<le> 2 ^ 64"
  shows "unat (round_up x m) = (unat x + unat m - 1) - (unat x + unat m - 1) mod unat m"
proof -
  have m: "unat (ucast m :: u64) = unat m"
    by (simp add: unat_ucast_up)
  from assms(1) have pos: "0 < unat m" by (simp add: unat_gt_0)
  have one: "unat (ucast m - 1 :: u64) = unat m - 1"
  proof -
    have "(1 :: u64) \<le> ucast m"
      using pos m by (simp add: word_le_nat_alt)
    then show ?thesis by (simp add: unat_sub m)
  qed
  have "unat (x + (ucast m - 1)) = unat x + (unat m - 1)"
    using assms(2) pos one unat_lt2p [of x] by (subst unat_add_small) auto
  then have "unat (x + ucast m - 1) = unat x + unat m - 1"
    using pos by (simp add: add_diff_eq)
  then show ?thesis
    by (simp add: round_up_def unat_round_down)
qed

section \<open>Most and least significant bit, powers of two\<close>

text \<open>
  \<open>clz_upto n w\<close> counts the clear bits of \<open>w\<close> downwards from bit \<open>n - 1\<close> to the first set bit, so
  \<open>clz_upto LENGTH('a) w\<close> is the compiler's \<open>__builtin_clz\<close>; \<open>builtin_ffs\<close> is \<open>__builtin_ffs\<close>.
\<close>

primrec clz_upto :: "nat \<Rightarrow> 'a::len word \<Rightarrow> nat" where
  "clz_upto 0 w = 0"
| "clz_upto (Suc n) w = (if bit w n then 0 else Suc (clz_upto n w))"

definition builtin_ffs :: "'a::len word \<Rightarrow> nat" where
  "builtin_ffs w = (case List.find (\<lambda>i. bit w i) [0..<LENGTH('a)] of None \<Rightarrow> 0 | Some i \<Rightarrow> Suc i)"

definition msb_idx :: "'a::len word \<Rightarrow> nat" where
  "msb_idx x = (if x \<noteq> 0 then LENGTH('a) - clz_upto LENGTH('a) x else 0)"

definition lsb_idx :: "'a::len word \<Rightarrow> nat" where
  "lsb_idx x = builtin_ffs x"

definition round_down_pow2 :: "'a::len word \<Rightarrow> 'a word" where
  "round_down_pow2 x = (if x \<noteq> 0 then push_bit (msb_idx x - 1) 1 else 0)"

definition round_up_pow2 :: "'a::len word \<Rightarrow> fault + 'a word" where
  "round_up_pow2 x =
     (if x \<noteq> 0
      then if msb_idx (x - 1) < LENGTH('a) then Inr (push_bit (msb_idx (x - 1)) 1)
           else Inl Shift_overflow
      else Inr 0)"

lemma clz_upto_le: "clz_upto n w \<le> n"
  by (induction n) auto

lemma clz_upto_clear: "n - clz_upto n w \<le> i \<Longrightarrow> i < n \<Longrightarrow> \<not> bit w i"
proof (induction n)
  case 0
  then show ?case by simp
next
  case (Suc n)
  then show ?case by (cases "i = n") (auto split: if_splits)
qed

lemma clz_upto_set: "0 < n - clz_upto n w \<Longrightarrow> bit w (n - clz_upto n w - 1)"
  by (induction n) auto

lemma unat_ge_bit: "bit w n \<Longrightarrow> 2 ^ n \<le> unat (w :: 'a::len word)"
proof -
  assume "bit w n"
  then have "odd (unat w div 2 ^ n)"
    using bit_unsigned_iff [where 'a = nat, of w n] by (simp add: bit_iff_odd)
  then have "0 < unat w div 2 ^ n" by (rule odd_pos)
  then show ?thesis
    by (simp add: div_greater_zero_iff)
qed

lemma unat_lt_no_bits:
  assumes "\<And>i. k \<le> i \<Longrightarrow> i < LENGTH('a) \<Longrightarrow> \<not> bit w i"
  shows "unat (w :: 'a::len word) < 2 ^ k"
proof -
  have "take_bit k w = w"
    by (rule bit_word_eqI) (use assms in \<open>auto simp: bit_take_bit_iff intro: leI\<close>)
  then have "take_bit k (unat w) = unat w"
    by (metis unsigned_take_bit_eq)
  then show ?thesis
    by (metis take_bit_nat_less_exp)
qed

lemma msb_idx_bounds:
  assumes "x \<noteq> 0"
  shows "0 < msb_idx x" and "2 ^ (msb_idx x - 1) \<le> unat x" and "unat x < 2 ^ msb_idx x"
    and "msb_idx (x :: 'a::len word) \<le> LENGTH('a)"
proof -
  let ?k = "LENGTH('a) - clz_upto LENGTH('a) x"
  have k: "msb_idx x = ?k" using assms by (simp add: msb_idx_def)
  have up: "unat x < 2 ^ ?k"
    by (rule unat_lt_no_bits) (rule clz_upto_clear)
  have "0 < unat x" using assms by (simp add: unat_gt_0)
  with up show pos: "0 < msb_idx x" unfolding k by (cases ?k) auto
  then show "2 ^ (msb_idx x - 1) \<le> unat x"
    unfolding k by (intro unat_ge_bit clz_upto_set)
  show "unat x < 2 ^ msb_idx x" unfolding k by (rule up)
  show "msb_idx x \<le> LENGTH('a)" by (simp add: msb_idx_def)
qed

lemma unat_push_bit_one:
  assumes "k < LENGTH('a)"
  shows "unat (push_bit k 1 :: 'a::len word) = 2 ^ k"
proof -
  have "unat (push_bit k 1 :: 'a word) = take_bit LENGTH('a) (push_bit k (unat (1 :: 'a word)))"
    by (rule unsigned_push_bit_eq)
  also have "\<dots> = 2 ^ k"
    using assms by (simp add: take_bit_nat_eq_self)
  finally show ?thesis .
qed

lemma round_down_pow2_bounds:
  assumes "x \<noteq> 0"
  shows "\<exists>k. unat (round_down_pow2 x) = 2 ^ k \<and> 2 ^ k \<le> unat x \<and> unat x < 2 ^ Suc k"
proof -
  note b = msb_idx_bounds [OF assms]
  have "msb_idx x - 1 < LENGTH('a)" using b by linarith
  then have "unat (round_down_pow2 x) = 2 ^ (msb_idx x - 1)"
    using assms by (simp add: round_down_pow2_def unat_push_bit_one del: push_bit_of_1)
  with b show ?thesis by (intro exI [of _ "msb_idx x - 1"]) simp
qed

lemma unat_pred: "x \<noteq> 0 \<Longrightarrow> unat (x - 1 :: 'a::len word) = unat x - 1"
  by (simp add: unat_minus_one)

lemma round_up_pow2_cases:
  fixes x :: "'a::len word"
  assumes "x \<noteq> 0"
  shows "unat x \<le> 2 ^ (LENGTH('a) - 1) \<Longrightarrow>
      \<exists>r k. round_up_pow2 x = Inr r \<and> unat r = 2 ^ k \<and> unat x \<le> 2 ^ k \<and> 2 ^ k < 2 * unat x"
    and "2 ^ (LENGTH('a) - 1) < unat x \<Longrightarrow> round_up_pow2 x = Inl Shift_overflow"
proof -
  have pos: "0 < unat x" using assms by (simp add: unat_gt_0)
  have prd: "unat (x - 1) = unat x - 1" using assms by (rule unat_pred)
  let ?k = "msb_idx (x - 1)"
  have up: "unat x \<le> 2 ^ ?k"
  proof (cases "x - 1 = 0")
    case True
    with prd pos show ?thesis by (simp add: msb_idx_def)
  next
    case False
    with msb_idx_bounds(3) [OF False] prd show ?thesis by linarith
  qed
  have low: "2 ^ ?k < 2 * unat x"
  proof (cases "x - 1 = 0")
    case True
    with pos show ?thesis by (simp add: msb_idx_def)
  next
    case False
    note b = msb_idx_bounds [OF False]
    from b(1) have "(2 :: nat) ^ ?k = 2 * 2 ^ (?k - 1)" by (cases ?k) auto
    with b(2) prd pos show ?thesis by linarith
  qed
  have len: "0 < LENGTH('a)" by simp
  show "\<exists>r k. round_up_pow2 x = Inr r \<and> unat r = 2 ^ k \<and> unat x \<le> 2 ^ k \<and> 2 ^ k < 2 * unat x"
    if le: "unat x \<le> 2 ^ (LENGTH('a) - 1)"
  proof -
    have "(2 :: nat) ^ ?k < 2 * 2 ^ (LENGTH('a) - 1)" using low le by linarith
    also have "\<dots> = 2 ^ LENGTH('a)" using len by (cases "LENGTH('a)") auto
    finally have k: "?k < LENGTH('a)" by simp
    with up low assms show ?thesis
      by (intro exI [of _ "push_bit ?k 1"] exI [of _ ?k])
        (simp add: round_up_pow2_def unat_push_bit_one del: push_bit_of_1)
  qed
  show "round_up_pow2 x = Inl Shift_overflow" if gt: "2 ^ (LENGTH('a) - 1) < unat x"
  proof -
    have "(2 :: nat) ^ (LENGTH('a) - 1) < 2 ^ ?k" using up gt by linarith
    then have "LENGTH('a) - 1 < ?k" by simp
    then have "\<not> ?k < LENGTH('a)" by linarith
    with assms show ?thesis by (simp add: round_up_pow2_def)
  qed
qed

lemma lsb_idx_zero: "lsb_idx (0 :: 'a::len word) = 0"
  by (simp add: lsb_idx_def builtin_ffs_def find_None_iff split: option.split)

lemma lsb_idx_least:
  assumes "x \<noteq> (0 :: 'a::len word)"
  shows "\<exists>i. lsb_idx x = Suc i \<and> bit x i \<and> (\<forall>j < i. \<not> bit x j)"
proof -
  obtain n where n: "n < LENGTH('a)" "bit x n"
    using assms by (metis bit_imp_le_length bit_word_eqI bit_0_eq bot_apply bot_bool_def)
  then obtain i where i: "List.find (\<lambda>i. bit x i) [0..<LENGTH('a)] = Some i"
    by (cases "List.find (\<lambda>i. bit x i) [0..<LENGTH('a)]") (auto simp: find_None_iff)
  then have "bit x i \<and> (\<forall>j < i. \<not> bit x j)"
    by (auto simp: find_Some_iff)
  with i show ?thesis
    by (simp add: lsb_idx_def builtin_ffs_def)
qed

section \<open>Character classes\<close>

text \<open>
  The argument is a C \<open>int\<close>, kept as its 32-bit pattern: \<open>isspace\<close> compares it as a signed value,
  the other classes subtract and compare as \<open>unsigned\<close>.
\<close>

definition isspace :: "u32 \<Rightarrow> bool" where
  "isspace c = ((9 \<le> sint c \<and> sint c \<le> 13) \<or> sint c = 32)"

definition isdigit :: "u32 \<Rightarrow> bool" where
  "isdigit c = (c - 48 < 10)"

definition islower :: "u32 \<Rightarrow> bool" where
  "islower c = (c - 97 < 26)"

definition isupper :: "u32 \<Rightarrow> bool" where
  "isupper c = (c - 65 < 26)"

definition isalpha :: "u32 \<Rightarrow> bool" where
  "isalpha c = ((c OR 0x20) - 97 < 26)"

definition isalnum :: "u32 \<Rightarrow> bool" where
  "isalnum c = (isalpha c \<or> isdigit c)"

definition tolower :: "u32 \<Rightarrow> u32" where
  "tolower c = (if isupper c then c + 97 - 65 else c)"

definition toupper :: "u32 \<Rightarrow> u32" where
  "toupper c = (if islower c then c + 65 - 97 else c)"

lemma isdigit_iff: "isdigit c \<longleftrightarrow> 48 \<le> uint c \<and> uint c \<le> 57"
  unfolding isdigit_def by (uint_arith; simp; arith)

lemma islower_iff: "islower c \<longleftrightarrow> 97 \<le> uint c \<and> uint c \<le> 122"
  unfolding islower_def by (uint_arith; simp; arith)

lemma isupper_iff: "isupper c \<longleftrightarrow> 65 \<le> uint c \<and> uint c \<le> 90"
  unfolding isupper_def by (uint_arith; simp; arith)

lemma bit_32_int: "bit (32 :: int) n \<longleftrightarrow> n = 5"
proof -
  have "bit (push_bit 5 (1 :: int)) n \<longleftrightarrow> n = 5"
    by (simp only: bit_push_bit_iff bit_1_iff) auto
  then show ?thesis by simp
qed

lemma or_32_eq: "(c :: u32) OR 32 = (if bit c 5 then c else c + 32)"
proof (cases "bit c 5")
  case True
  have "c OR 32 = c"
    by (rule bit_word_eqI) (use True in \<open>auto simp: bit_or_iff bit_32_int\<close>)
  with True show ?thesis by simp
next
  case False
  have "c AND 32 = 0"
    by (rule bit_word_eqI) (use False in \<open>auto simp: bit_and_iff bit_32_int\<close>)
  then have "c + 32 = c OR 32" by (rule disjunctive_add_eq_or)
  with False show ?thesis by simp
qed

lemma bit5_iff: "bit (c :: u32) 5 \<longleftrightarrow> odd (uint c div 32)"
proof -
  have "bit c 5 = bit (uint c) 5" by (simp add: bit_uint_iff)
  then show ?thesis by (simp add: bit_iff_odd)
qed

lemma isalpha_iff:
  "isalpha c \<longleftrightarrow> (65 \<le> uint c \<and> uint c \<le> 90) \<or> (97 \<le> uint c \<and> uint c \<le> 122)"
proof -
  have a: "isalpha c \<longleftrightarrow> 97 \<le> uint (c OR 32) \<and> uint (c OR 32) \<le> 122"
    unfolding isalpha_def by (uint_arith; simp; arith)
  show ?thesis
  proof (cases "bit c 5")
    case True
    then have "odd (uint c div 32)" by (simp add: bit5_iff)
    then have "\<not> (65 \<le> uint c \<and> uint c \<le> 90)" by presburger
    with True show ?thesis by (auto simp add: a or_32_eq)
  next
    case False
    then have "even (uint c div 32)" by (simp add: bit5_iff)
    then have n: "\<not> (97 \<le> uint c \<and> uint c \<le> 122)" by presburger
    have "97 \<le> uint (c + 32) \<and> uint (c + 32) \<le> 122 \<longleftrightarrow> 65 \<le> uint c \<and> uint c \<le> 90"
      by (uint_arith; simp; arith)
    with False n show ?thesis by (auto simp add: a or_32_eq)
  qed
qed

lemmas char_class_iffs = isdigit_iff islower_iff isupper_iff isalpha_iff

lemma toupper_tolower: "isupper c \<Longrightarrow> islower (tolower c) \<and> toupper (tolower c) = c"
proof -
  assume u: "isupper c"
  then have r: "65 \<le> uint c" "uint c \<le> 90" by (simp_all add: isupper_iff)
  have t: "tolower c = c + 32" using u by (simp add: tolower_def)
  have "uint (c + 32) = uint c + 32" using r by (simp add: uint_add_small)
  then have "islower (c + 32)" using r by (simp add: islower_iff)
  then show ?thesis by (simp add: t toupper_def)
qed

section \<open>Random numbers\<close>

record rand_state =
  rand_seed_set :: int
  rand_seed :: u64

abbreviation RAND_MAX :: int where "RAND_MAX \<equiv> 0x7FFFFFFF"

definition srand :: "u32 \<Rightarrow> rand_state \<Rightarrow> rand_state" where
  "srand seed s = s\<lparr>rand_seed := push_bit 32 (ucast seed) OR ucast seed, rand_seed_set := 1\<rparr>"

definition rand :: "rand_state \<Rightarrow> int \<times> rand_state" where
  "rand s =
     (let s1 = (if rand_seed_set s = 0 then srand 819234718 s else s);
          s2 = s1\<lparr>rand_seed := rand_seed s1 * 6364136223846793005 + 1\<rparr>
      in (uint (drop_bit 32 (rand_seed s2) AND 0x7FFFFFFF), s2))"

text \<open>
  \<open>rand(min, max)\<close>: the differences are computed in \<open>int\<close>, so a value above \<open>INT_MAX\<close> is signed
  overflow; the product and the quotient are computed in \<open>unsigned long\<close>, and the result is
  converted back to \<open>int\<close>.
\<close>

definition rand_range :: "int \<Rightarrow> int \<Rightarrow> rand_state \<Rightarrow> fault + int \<times> rand_state" where
  "rand_range mn mx s =
     bindE (guardE (mn \<le> mx) Assert_fail) (\<lambda>_.
     bindE (guardE (mx - mn \<le> INT_MAX) Signed_overflow) (\<lambda>_.
     bindE (guardE (mx - mn \<le> RAND_MAX) Assert_fail) (\<lambda>_.
     let (r, s') = rand s in
     bindE (guardE (mx - mn + 1 \<le> INT_MAX) Signed_overflow) (\<lambda>_.
     let q = (of_int r * of_int (mx - mn + 1)) div (of_int RAND_MAX + 1) :: u64
     in Inr (sint (ucast (of_int mn + q :: u64) :: u32), s')))))"

lemma rand_bounds: "rand s = (r, s') \<Longrightarrow> 0 \<le> r \<and> r \<le> RAND_MAX"
proof -
  assume "rand s = (r, s')"
  then obtain w :: u64 where r: "r = uint (w AND 0x7FFFFFFF)"
    by (auto simp: rand_def Let_def)
  have "w AND 0x7FFFFFFF \<le> 0x7FFFFFFF" by (rule word_and_le1)
  then have "uint (w AND 0x7FFFFFFF) \<le> uint (0x7FFFFFFF :: u64)"
    by (simp only: word_le_def)
  then show ?thesis by (simp add: r)
qed

lemma rand_quot_bounds:
  assumes "0 \<le> r" "r \<le> RAND_MAX" "0 < d" "d \<le> INT_MAX"
  shows "0 \<le> r * d div 2 ^ 31" and "r * d div 2 ^ 31 < d" and "r * d < 2 ^ 62"
proof -
  have "0 \<le> r * d" using assms by simp
  then show "0 \<le> r * d div 2 ^ 31" by (simp add: pos_imp_zdiv_nonneg_iff)
  have "r * d < 2 ^ 31 * d" using assms by (intro mult_strict_right_mono) auto
  moreover have "2 ^ 31 * (r * d div 2 ^ 31) + r * d mod 2 ^ 31 = r * d"
    by (rule mult_div_mod_eq)
  moreover have "0 \<le> r * d mod 2 ^ 31" by simp
  ultimately have "2 ^ 31 * (r * d div 2 ^ 31) < 2 ^ 31 * d" by linarith
  then show "r * d div 2 ^ 31 < d" by simp
  have "r * d \<le> 2147483647 * 2147483647" using assms by (intro mult_mono) auto
  then show "r * d < 2 ^ 62" by simp
qed

lemma uint_of_int_quot:
  assumes "0 \<le> r" "r \<le> RAND_MAX" "0 < d" "d \<le> INT_MAX"
  shows "uint ((of_int r * of_int d) div (of_int RAND_MAX + 1) :: u64) = r * d div 2 ^ 31"
proof -
  note q = rand_quot_bounds [OF assms]
  have p: "0 \<le> r * d" using assms by simp
  then have "take_bit 64 (r * d) = r * d"
    using q(3) by (intro take_bit_int_eq_self) auto
  with p have "uint (of_int (r * d) :: u64) = r * d"
    by (simp only: unsigned_of_int) simp
  then show ?thesis
    by (simp add: uint_div_distrib)
qed

lemma sint_of_int_u32:
  assumes "INT_MIN \<le> v" "v \<le> INT_MAX"
  shows "sint (ucast (of_int v :: u64) :: u32) = v"
proof -
  have "(ucast (of_int v :: u64) :: u32) = of_int v"
    by (rule bit_word_eqI) (simp add: bit_ucast_iff bit_of_int_iff bit_word_of_int_iff)
  then show ?thesis
    using assms by (simp add: signed_of_int signed_take_bit_int_eq_self)
qed

lemma rand_range_bounds:
  assumes "INT_MIN \<le> mn" "mn \<le> mx" "mx \<le> INT_MAX" "mx - mn < RAND_MAX"
  shows "\<exists>v s'. rand_range mn mx s = Inr (v, s') \<and> mn \<le> v \<and> v \<le> mx"
proof -
  obtain r s' where rs: "rand s = (r, s')" by (cases "rand s")
  define d where "d = mx - mn + 1"
  define q where "q = r * d div 2 ^ 31"
  have r: "0 \<le> r" "r \<le> RAND_MAX" using rand_bounds [OF rs] by auto
  have d: "0 < d" "d \<le> INT_MAX" using assms by (auto simp: d_def)
  note qb = rand_quot_bounds [OF r d]
  have "((of_int r * of_int d) div (of_int RAND_MAX + 1) :: u64) = of_int q"
    unfolding q_def uint_of_int_quot [OF r d, symmetric] by (rule word_of_int_uint [symmetric])
  then have "rand_range mn mx s = Inr (sint (ucast (of_int (mn + q) :: u64) :: u32), s')"
    using assms rs by (simp add: rand_range_def d_def)
  moreover have "mn \<le> mn + q" "mn + q \<le> mx"
    using qb(1,2) by (auto simp: q_def d_def)
  ultimately show ?thesis
    using sint_of_int_u32 [of "mn + q"] assms by auto
qed

lemma rand_range_full_span:
  assumes "mx - mn = RAND_MAX"
  shows "rand_range mn mx s = Inl Signed_overflow"
  using assms by (simp add: rand_range_def split: prod.split)

end
