(* ===== verification/Lib_Mem.thy ===== *)
theory Lib_Mem
  imports Lib_Num "HOL-Library.List_Lexorder"
begin

text \<open>
  The memory and string functions of \<open>lib.cc\<close> over a byte-addressed 64-bit memory. Each loop of
  the source is a recursive function: the loops that count \<open>n\<close> down recurse on the count, the
  loops that stop only at a NUL byte are partial functions whose value \<open>None\<close> means that the
  loop never ends. Pointer arithmetic wraps, as on the machine; \<open>unat (a - p) < n\<close> says that the
  address \<open>a\<close> lies in the \<open>n\<close> bytes that start at \<open>p\<close>.
\<close>

type_synonym addr = u64
type_synonym mem = "addr \<Rightarrow> u8"

section \<open>Copying, filling, comparing\<close>

primrec memcpy_loop :: "nat \<Rightarrow> mem \<Rightarrow> addr \<Rightarrow> addr \<Rightarrow> mem" where
  "memcpy_loop 0 m d s = m"
| "memcpy_loop (Suc n) m d s = memcpy_loop n (m(d := m s)) (d + 1) (s + 1)"

definition memcpy :: "mem \<Rightarrow> addr \<Rightarrow> addr \<Rightarrow> u64 \<Rightarrow> mem" where
  "memcpy m dst src n = memcpy_loop (unat n) m dst src"

primrec memmove_back :: "nat \<Rightarrow> mem \<Rightarrow> addr \<Rightarrow> addr \<Rightarrow> mem" where
  "memmove_back 0 m d s = m"
| "memmove_back (Suc n) m d s = memmove_back n (m(d - 1 := m (s - 1))) (d - 1) (s - 1)"

definition memmove :: "mem \<Rightarrow> addr \<Rightarrow> addr \<Rightarrow> u64 \<Rightarrow> mem" where
  "memmove m dst src n =
     (if src < dst \<and> src + n > dst then memmove_back (unat n) m (dst + n) (src + n)
      else memcpy_loop (unat n) m dst src)"

primrec memset_loop :: "nat \<Rightarrow> mem \<Rightarrow> addr \<Rightarrow> u8 \<Rightarrow> mem" where
  "memset_loop 0 m p c = m"
| "memset_loop (Suc n) m p c = memset_loop n (m(p := c)) (p + 1) c"

definition memset :: "mem \<Rightarrow> addr \<Rightarrow> u32 \<Rightarrow> u64 \<Rightarrow> mem" where
  "memset m v c n = memset_loop (unat n) m v (ucast c)"

text \<open>\<open>(x > y) - (x < y)\<close> on bytes, the result of the comparison functions.\<close>

definition byte_cmp :: "u8 \<Rightarrow> u8 \<Rightarrow> int" where
  "byte_cmp x y = of_bool (x > y) - of_bool (x < y)"

primrec memcmp_loop :: "nat \<Rightarrow> mem \<Rightarrow> addr \<Rightarrow> addr \<Rightarrow> int" where
  "memcmp_loop 0 m sa sb = 0"
| "memcmp_loop (Suc n) m sa sb =
     (if m sa \<noteq> m sb then byte_cmp (m sa) (m sb) else memcmp_loop n m (sa + 1) (sb + 1))"

definition memcmp :: "mem \<Rightarrow> addr \<Rightarrow> addr \<Rightarrow> u64 \<Rightarrow> int" where
  "memcmp m a b n = memcmp_loop (unat n) m a b"

primrec memchr_loop :: "nat \<Rightarrow> mem \<Rightarrow> addr \<Rightarrow> u8 \<Rightarrow> addr option" where
  "memchr_loop 0 m ss c = None"
| "memchr_loop (Suc n) m ss c = (if m ss = c then Some ss else memchr_loop n m (ss + 1) c)"

text \<open>\<open>None\<close> is the null pointer here.\<close>

definition memchr :: "mem \<Rightarrow> addr \<Rightarrow> u32 \<Rightarrow> u64 \<Rightarrow> addr option" where
  "memchr m s c n = memchr_loop (unat n) m s (ucast c)"

section \<open>Strings\<close>

partial_function (option) strlen_loop :: "mem \<Rightarrow> addr \<Rightarrow> u64 \<Rightarrow> u64 option" where
  "strlen_loop m s n = (if m s \<noteq> 0 then strlen_loop m (s + 1) (n + 1) else Some n)"

definition strlen :: "mem \<Rightarrow> addr \<Rightarrow> u64 option" where
  "strlen m s = strlen_loop m s 0"

primrec strnlen_loop :: "nat \<Rightarrow> mem \<Rightarrow> addr \<Rightarrow> u64 \<Rightarrow> u64" where
  "strnlen_loop 0 m s n = n"
| "strnlen_loop (Suc left) m s n = (if m s \<noteq> 0 then strnlen_loop left m (s + 1) (n + 1) else n)"

definition strnlen :: "mem \<Rightarrow> addr \<Rightarrow> u64 \<Rightarrow> u64" where
  "strnlen m s maxlen = strnlen_loop (unat maxlen) m s 0"

partial_function (option) strcpy_loop :: "mem \<Rightarrow> addr \<Rightarrow> addr \<Rightarrow> mem option" where
  "strcpy_loop m d src =
     (let m' = m(d := m src) in if m' d \<noteq> 0 then strcpy_loop m' (d + 1) (src + 1) else Some m')"

definition strcpy :: "mem \<Rightarrow> addr \<Rightarrow> addr \<Rightarrow> mem option" where
  "strcpy m dst src = strcpy_loop m dst src"

partial_function (option) strcmp :: "mem \<Rightarrow> addr \<Rightarrow> addr \<Rightarrow> int option" where
  "strcmp m a b =
     (let ac = m a; bc = m b in
      if ac = 0 \<or> bc = 0 \<or> ac \<noteq> bc then Some (byte_cmp ac bc) else strcmp m (a + 1) (b + 1))"

primrec strncmp_loop :: "nat \<Rightarrow> mem \<Rightarrow> addr \<Rightarrow> addr \<Rightarrow> int" where
  "strncmp_loop 0 m a b = byte_cmp 0 0"
| "strncmp_loop (Suc n) m a b =
     (let ac = m a; bc = m b in
      if ac = 0 \<or> bc = 0 \<or> ac \<noteq> bc then byte_cmp ac bc else strncmp_loop n m (a + 1) (b + 1))"

definition strncmp :: "mem \<Rightarrow> addr \<Rightarrow> addr \<Rightarrow> u64 \<Rightarrow> int" where
  "strncmp m a b n = strncmp_loop (unat n) m a b"

definition tolower_byte :: "u8 \<Rightarrow> u8" where
  "tolower_byte c = ucast (tolower (ucast c))"

partial_function (option) strcasecmp :: "mem \<Rightarrow> addr \<Rightarrow> addr \<Rightarrow> int option" where
  "strcasecmp m a b =
     (let ac = tolower_byte (m a); bc = tolower_byte (m b) in
      if ac = 0 \<or> bc = 0 \<or> ac \<noteq> bc then Some (byte_cmp ac bc) else strcasecmp m (a + 1) (b + 1))"

primrec strncasecmp_loop :: "nat \<Rightarrow> mem \<Rightarrow> addr \<Rightarrow> addr \<Rightarrow> int" where
  "strncasecmp_loop 0 m a b = byte_cmp 0 0"
| "strncasecmp_loop (Suc n) m a b =
     (let ac = tolower_byte (m a); bc = tolower_byte (m b) in
      if ac = 0 \<or> bc = 0 \<or> ac \<noteq> bc then byte_cmp ac bc else strncasecmp_loop n m (a + 1) (b + 1))"

definition strncasecmp :: "mem \<Rightarrow> addr \<Rightarrow> addr \<Rightarrow> u64 \<Rightarrow> int" where
  "strncasecmp m a b n = strncasecmp_loop (unat n) m a b"

partial_function (option) strchr_loop :: "mem \<Rightarrow> addr \<Rightarrow> u8 \<Rightarrow> addr option" where
  "strchr_loop m s c = (if m s \<noteq> 0 \<and> m s \<noteq> c then strchr_loop m (s + 1) c else Some s)"

text \<open>The outer \<open>option\<close> is the loop's; \<open>Some None\<close> is a returned null pointer.\<close>

definition strchr :: "mem \<Rightarrow> addr \<Rightarrow> u32 \<Rightarrow> addr option option" where
  "strchr m s c =
     (case strchr_loop m s (ucast c) of
        None \<Rightarrow> None
      | Some p \<Rightarrow> Some (if m p = ucast c then Some p else None))"

section \<open>Correctness of the memory functions\<close>

lemma unat_diff_step:
  assumes "a \<noteq> (d :: u64)"
  shows "unat (a - (d + 1)) = unat (a - d) - 1" and "0 < unat (a - d)"
proof -
  have nz: "a - d \<noteq> 0" using assms by simp
  have "a - (d + 1) = (a - d) - 1" by (simp add: diff_diff_eq)
  then show "unat (a - (d + 1)) = unat (a - d) - 1"
    using unat_pred [OF nz] by (simp only:)
  show "0 < unat (a - d)" using nz by (simp add: unat_gt_0)
qed

text \<open>\<open>in_range\<close> membership, one byte further on.\<close>

lemma range_step:
  assumes "n < 2 ^ 64"
  shows "unat (a - (d + 1 :: u64)) < n \<longleftrightarrow> a \<noteq> d \<and> unat (a - d) < Suc n"
proof (cases "a = d")
  case True
  have "unat (- 1 :: u64) = 2 ^ 64 - 1"
    by (simp add: unsigned_minus_1_eq_mask mask_eq_exp_minus_1)
  with True assms show ?thesis by simp
next
  case False
  with unat_diff_step [OF False] show ?thesis by auto
qed

lemma memcpy_loop_apply:
  assumes "n \<le> 2 ^ 64"
    and "\<And>j. 0 < j \<Longrightarrow> j < n \<Longrightarrow> d \<noteq> s + of_nat j"
  shows "memcpy_loop n m d s a = (if unat (a - d) < n then m (s + (a - d)) else m a)"
  using assms
proof (induction n arbitrary: m d s)
  case 0
  then show ?case by simp
next
  case (Suc n)
  have n: "n < 2 ^ 64" using Suc.prems(1) by simp
  have sep: "d + 1 \<noteq> s + 1 + of_nat j" if "0 < j" "j < n" for j
    using Suc.prems(2) [of j] that by (simp add: add.commute add.left_commute)
  have ih: "memcpy_loop n (m(d := m s)) (d + 1) (s + 1) a =
      (if unat (a - (d + 1)) < n then (m(d := m s)) (s + 1 + (a - (d + 1))) else (m(d := m s)) a)"
    by (rule Suc.IH) (use n sep in auto)
  have far: "s + (a - d) \<noteq> d" if "a \<noteq> d" "unat (a - d) < Suc n"
  proof -
    have "d \<noteq> s + of_nat (unat (a - d))"
      using Suc.prems(2) [of "unat (a - d)"] unat_diff_step(2) [OF that(1)] that(2) by simp
    then show ?thesis by (simp add: eq_commute)
  qed
  show ?case
    using far by (auto simp: ih range_step [OF n])
qed

lemma memmove_back_apply:
  assumes "n \<le> 2 ^ 64"
    and "\<And>i j. i < j \<Longrightarrow> j < n \<Longrightarrow> d + of_nat j \<noteq> s + of_nat i"
  shows "memmove_back n m (d + of_nat n) (s + of_nat n) a =
    (if unat (a - d) < n then m (s + (a - d)) else m a)"
  using assms
proof (induction n arbitrary: m)
  case 0
  then show ?case by simp
next
  case (Suc n)
  let ?m = "m(d + of_nat n := m (s + of_nat n))"
  have step: "memmove_back (Suc n) m (d + of_nat (Suc n)) (s + of_nat (Suc n)) a =
      memmove_back n ?m (d + of_nat n) (s + of_nat n) a"
    by (simp add: algebra_simps)
  have ih: "memmove_back n ?m (d + of_nat n) (s + of_nat n) a =
      (if unat (a - d) < n then ?m (s + (a - d)) else ?m a)"
    by (rule Suc.IH) (use Suc.prems in auto)
  have n: "n < 2 ^ 64" using Suc.prems(1) by simp
  have un: "unat (of_nat n :: u64) = n" using n by (simp add: unat_of_nat_small)
  have at: "a = d + of_nat n \<longleftrightarrow> unat (a - d) = n"
  proof
    assume "unat (a - d) = n"
    then have "a - d = of_nat n" by (simp add: word_unat_eq_iff un)
    then show "a = d + of_nat n" by (simp add: diff_eq_eq add.commute)
  qed (simp add: un)
  have keep: "s + (a - d) \<noteq> d + of_nat n" if "unat (a - d) < n"
  proof -
    have "d + of_nat n \<noteq> s + of_nat (unat (a - d))"
      using Suc.prems(2) [of "unat (a - d)" n] that by simp
    then show ?thesis by (simp add: eq_commute)
  qed
  consider "unat (a - d) < n" | "unat (a - d) = n" | "n < unat (a - d)" by linarith
  then show ?case
  proof cases
    case 1
    with keep at show ?thesis unfolding step ih by auto
  next
    case 2
    then have "a = d + of_nat n" by (simp add: at)
    with 2 show ?thesis unfolding step ih by simp
  next
    case 3
    with at show ?thesis unfolding step ih by auto
  qed
qed

lemma memset_loop_apply:
  "n \<le> 2 ^ 64 \<Longrightarrow> memset_loop n m p c a = (if unat (a - p) < n then c else m a)"
proof (induction n arbitrary: m p)
  case 0
  then show ?case by simp
next
  case (Suc n)
  then have n: "n < 2 ^ 64" by simp
  then show ?case
    by (simp add: Suc.IH range_step [OF n])
qed

lemma memset_apply:
  "memset m v c n a = (if unat (a - v) < unat n then ucast c else m a)"
  unfolding memset_def using unat_lt2p [of n]
  by (intro memset_loop_apply) simp

lemma unat_add_of_nat:
  "unat p + j < 2 ^ 64 \<Longrightarrow> unat (p + of_nat j :: u64) = unat p + j"
  by (simp add: unat_add_small unat_of_nat_small)

lemma memmove_apply:
  assumes "unat src + unat n < 2 ^ 64" and "unat dst + unat n \<le> 2 ^ 64"
  shows "memmove m dst src n a = (if unat (a - dst) < unat n then m (src + (a - dst)) else m a)"
proof -
  have n: "unat n \<le> 2 ^ 64" using unat_lt2p [of n] by simp
  have sn: "unat (src + n) = unat src + unat n"
    using assms(1) by (simp add: unat_add_small)
  have us: "unat (src + of_nat j) = unat src + j" if "j < unat n" for j
    using that assms(1) by (simp add: unat_add_of_nat)
  have ud: "unat (dst + of_nat j) = unat dst + j" if "j < unat n" for j
    using that assms(2) by (simp add: unat_add_of_nat)
  show ?thesis
  proof (cases "src < dst \<and> src + n > dst")
    case True
    then have lt: "unat src < unat dst" by (simp add: word_less_nat_alt)
    have "dst + of_nat j \<noteq> src + of_nat i" if "i < j" "j < unat n" for i j
    proof
      assume "dst + of_nat j = src + of_nat i"
      then have "unat dst + j = unat src + i" using that us [of i] ud [of j] by simp
      with lt that show False by simp
    qed
    from memmove_back_apply [OF n this, of m a] True show ?thesis
      by (simp add: memmove_def)
  next
    case False
    have "dst \<noteq> src + of_nat j" if "0 < j" "j < unat n" for j
    proof
      assume "dst = src + of_nat j"
      then have e: "unat dst = unat src + j" using that us [of j] by simp
      with that have "src < dst" by (simp add: word_less_nat_alt)
      with False have "\<not> src + n > dst" by simp
      then show False using e sn that by (simp add: word_less_nat_alt)
    qed
    from memcpy_loop_apply [OF n this, of m a] False show ?thesis
      by (auto simp: memmove_def)
  qed
qed

text \<open>Two blocks of \<open>n\<close> bytes that do not overlap.\<close>

definition disjoint_blocks :: "addr \<Rightarrow> addr \<Rightarrow> u64 \<Rightarrow> bool" where
  "disjoint_blocks p q n \<longleftrightarrow> unat n \<le> unat (p - q) \<and> unat n \<le> unat (q - p)"

lemma memcpy_apply:
  assumes "disjoint_blocks dst src n"
  shows "memcpy m dst src n a = (if unat (a - dst) < unat n then m (src + (a - dst)) else m a)"
  unfolding memcpy_def
proof (rule memcpy_loop_apply)
  show "unat n \<le> 2 ^ 64" using unat_lt2p [of n] by simp
next
  fix j assume j: "0 < j" "j < unat n"
  show "dst \<noteq> src + of_nat j"
  proof
    assume "dst = src + of_nat j"
    then have "unat (dst - src) = j"
      using j unat_lt2p [of n] by (simp add: unat_of_nat_small)
    with assms j show False by (simp add: disjoint_blocks_def)
  qed
qed

lemma memcmp_loop_zero:
  "memcmp_loop n m a b = 0 \<longleftrightarrow> (\<forall>i < n. m (a + of_nat i) = m (b + of_nat i))"
proof (induction n arbitrary: a b)
  case 0
  then show ?case by simp
next
  case (Suc n)
  have "byte_cmp x y \<noteq> 0" if "x \<noteq> y" for x y
    using that by (auto simp: byte_cmp_def)
  then show ?case
    by (auto simp: Suc.IH less_Suc_eq_0_disj add.assoc)
qed

section \<open>Correctness of the string functions\<close>

text \<open>\<open>cstr m a bs\<close>: the NUL-terminated string at \<open>a\<close> has the bytes \<open>bs\<close>.\<close>

primrec cstr :: "mem \<Rightarrow> addr \<Rightarrow> u8 list \<Rightarrow> bool" where
  "cstr m a [] \<longleftrightarrow> m a = 0"
| "cstr m a (b # bs) \<longleftrightarrow> b \<noteq> 0 \<and> m a = b \<and> cstr m (a + 1) bs"

lemma strlen_loop_cstr:
  "cstr m a bs \<Longrightarrow> strlen_loop m a n = Some (n + of_nat (length bs))"
  by (induction bs arbitrary: a n) (simp_all add: strlen_loop.simps [of m] add.assoc)

lemma strlen_cstr: "cstr m a bs \<Longrightarrow> strlen m a = Some (of_nat (length bs))"
  by (simp add: strlen_def strlen_loop_cstr)

lemma strnlen_loop_cstr:
  "cstr m a bs \<Longrightarrow> strnlen_loop k m a n = n + of_nat (min (length bs) k)"
proof (induction bs arbitrary: a n k)
  case Nil
  then show ?case by (cases k) simp_all
next
  case (Cons b bs)
  then show ?case by (cases k) (simp_all add: add.assoc)
qed

lemma strnlen_cstr: "cstr m a bs \<Longrightarrow> strnlen m a k = of_nat (min (length bs) (unat k))"
  by (simp add: strnlen_def strnlen_loop_cstr)

lemma byte_cmp_simps [simp]:
  "byte_cmp x x = 0" "x < y \<Longrightarrow> byte_cmp x y = -1" "y < x \<Longrightarrow> byte_cmp x y = 1"
  by (auto simp: byte_cmp_def)

lemma zero_less_byte: "(x :: u8) \<noteq> 0 \<longleftrightarrow> 0 < x"
  by (simp add: word_neq_0_conv)

text \<open>The comparison of two byte strings in lexicographic order, as a sign.\<close>

definition list_cmp :: "u8 list \<Rightarrow> u8 list \<Rightarrow> int" where
  "list_cmp xs ys = (if xs = ys then 0 else if xs < ys then -1 else 1)"

lemma list_cmp_Nil: "list_cmp [] [] = 0" "list_cmp [] (y # ys) = -1" "list_cmp (x # xs) [] = 1"
  by (simp_all add: list_cmp_def)

lemma list_cmp_Cons:
  "list_cmp (x # xs) (y # ys) = (if x = y then list_cmp xs ys else byte_cmp x y)"
  by (auto simp: list_cmp_def)

lemma strcmp_cstr:
  "cstr m a xs \<Longrightarrow> cstr m b ys \<Longrightarrow> strcmp m a b = Some (list_cmp xs ys)"
proof (induction xs arbitrary: a b ys)
  case Nil
  then show ?case
    by (cases ys) (simp_all add: strcmp.simps [of m a b] list_cmp_Nil zero_less_byte)
next
  case (Cons x xs)
  show ?case
  proof (cases ys)
    case Nil
    with Cons.prems show ?thesis
      by (simp add: strcmp.simps [of m a b] list_cmp_Nil zero_less_byte)
  next
    case (Cons y ys')
    with Cons.prems Cons.IH [of "a + 1" "b + 1" ys'] show ?thesis
      by (auto simp: strcmp.simps [of m a b] list_cmp_Cons)
  qed
qed

lemma strncmp_loop_cstr:
  "cstr m a xs \<Longrightarrow> cstr m b ys \<Longrightarrow> strncmp_loop n m a b = list_cmp (take n xs) (take n ys)"
proof (induction n arbitrary: a b xs ys)
  case 0
  then show ?case by (simp add: list_cmp_def)
next
  case (Suc n)
  show ?case
  proof (cases xs)
    case Nil
    with Suc.prems show ?thesis by (cases ys) (simp_all add: list_cmp_Nil zero_less_byte)
  next
    case (Cons x xs')
    show ?thesis
    proof (cases ys)
      case Nil
      with Cons Suc.prems show ?thesis by (simp add: list_cmp_Nil zero_less_byte)
    next
      case (Cons y ys')
      with \<open>xs = x # xs'\<close> Suc.prems Suc.IH [of "a + 1" xs' "b + 1" ys'] show ?thesis
        by (auto simp: list_cmp_Cons)
    qed
  qed
qed

lemma strncmp_cstr:
  "cstr m a xs \<Longrightarrow> cstr m b ys \<Longrightarrow>
   strncmp m a b n = list_cmp (take (unat n) xs) (take (unat n) ys)"
  by (simp add: strncmp_def strncmp_loop_cstr)

lemma strchr_loop_cstr:
  "cstr m a bs \<Longrightarrow>
   strchr_loop m a c = Some (a + of_nat (length (takeWhile (\<lambda>b. b \<noteq> c) bs)))"
  by (induction bs arbitrary: a) (simp_all add: strchr_loop.simps [of m] add.assoc)

lemma cstr_iff:
  "cstr m a bs \<longleftrightarrow>
   (\<forall>i < length bs. m (a + of_nat i) = bs ! i \<and> bs ! i \<noteq> 0) \<and> m (a + of_nat (length bs)) = 0"
  by (induction bs arbitrary: a) (auto simp: less_Suc_eq_0_disj add.assoc)

lemma cstr_upd:
  "(\<And>i. i \<le> length bs \<Longrightarrow> a + of_nat i \<noteq> d) \<Longrightarrow> cstr (m(d := x)) a bs = cstr m a bs"
  by (simp add: cstr_iff)

text \<open>
  Copying a string: if no byte written is read later, the loop of \<open>strcpy\<close> ends, and it is the
  copy of the string's bytes with its NUL.
\<close>

lemma strcpy_loop_memcpy:
  assumes "cstr m src bs" and "\<And>i j. i < j \<Longrightarrow> j \<le> length bs \<Longrightarrow> d + of_nat i \<noteq> src + of_nat j"
  shows "strcpy_loop m d src = Some (memcpy_loop (Suc (length bs)) m d src)"
  using assms
proof (induction bs arbitrary: m d src)
  case Nil
  then show ?case by (simp add: strcpy_loop.simps [of m] fun_upd_def)
next
  case (Cons b bs)
  have "src + 1 + of_nat i \<noteq> d" if "i \<le> length bs" for i
    using Cons.prems(2) [of 0 "Suc i"] that by (auto simp: add.assoc)
  then have c: "cstr (m(d := m src)) (src + 1) bs"
    using Cons.prems(1) by (simp add: cstr_upd)
  have sep: "d + 1 + of_nat i \<noteq> src + 1 + of_nat j" if "i < j" "j \<le> length bs" for i j
    using Cons.prems(2) [of i j] that by (simp add: add.commute add.left_commute)
  have "strcpy_loop m d src = strcpy_loop (m(d := m src)) (d + 1) (src + 1)"
    using Cons.prems(1) by (simp add: strcpy_loop.simps [of m])
  also have "\<dots> = Some (memcpy_loop (Suc (length bs)) (m(d := m src)) (d + 1) (src + 1))"
    by (rule Cons.IH [OF c sep])
  finally show ?case by simp
qed

lemma strcpy_cstr:
  assumes "cstr m src bs" and "length bs < 2 ^ 64 - 1"
    and "\<And>i j. i < j \<Longrightarrow> j \<le> length bs \<Longrightarrow> dst + of_nat i \<noteq> src + of_nat j"
  shows "\<exists>m'. strcpy m dst src = Some m' \<and> cstr m' dst bs \<and>
    (\<forall>a. length bs < unat (a - dst) \<longrightarrow> m' a = m a)"
proof -
  let ?m = "memcpy_loop (Suc (length bs)) m dst src"
  have cp: "?m a = (if unat (a - dst) < Suc (length bs) then m (src + (a - dst)) else m a)" for a
  proof (rule memcpy_loop_apply)
    show "Suc (length bs) \<le> 2 ^ 64" using assms(2) by simp
    show "dst \<noteq> src + of_nat j" if "0 < j" "j < Suc (length bs)" for j
      using assms(3) [of 0 j] that by simp
  qed
  have u: "unat (of_nat i :: u64) = i" if "i \<le> length bs" for i
    using that assms(2) by (simp add: unat_of_nat_small)
  have "?m (dst + of_nat i) = m (src + of_nat i)" if "i \<le> length bs" for i
    using that by (simp only: cp) (simp add: u)
  then have "cstr ?m dst bs"
    using assms(1) by (simp add: cstr_iff del: memcpy_loop.simps)
  moreover have "\<forall>a. length bs < unat (a - dst) \<longrightarrow> ?m a = m a"
    by (simp only: cp) simp
  ultimately show ?thesis
    using strcpy_loop_memcpy [OF assms(1,3)] by (auto simp: strcpy_def simp del: memcpy_loop.simps)
qed

end
