(* ===== verification/X86.thy ===== *)
theory X86
  imports Lib_Mem
begin

text \<open>
  The machine interface of \<open>x86-64.h\<close>: paging constants and index arithmetic, page-fault and
  interrupt numbers, the register frame, and 64-bit little-endian loads and stores on the byte
  memory, with the facts on page indices, page offsets and entries that the page-table proofs use.
\<close>

section \<open>Constants\<close>

abbreviation (input) PAGEOFFBITS :: nat where "PAGEOFFBITS \<equiv> 12"
abbreviation (input) PAGEINDEXBITS :: nat where "PAGEINDEXBITS \<equiv> 9"
abbreviation (input) PAGESIZE :: u64 where "PAGESIZE \<equiv> 4096"
abbreviation (input) PAGEOFFMASK :: u64 where "PAGEOFFMASK \<equiv> 0xFFF"

abbreviation (input) PTE_P :: u64 where "PTE_P \<equiv> 0x1"
abbreviation (input) PTE_W :: u64 where "PTE_W \<equiv> 0x2"
abbreviation (input) PTE_U :: u64 where "PTE_U \<equiv> 0x4"
abbreviation (input) PTE_PWU :: u64 where "PTE_PWU \<equiv> 0x7"
abbreviation (input) PTE_A :: u64 where "PTE_A \<equiv> 0x20"
abbreviation (input) PTE_D :: u64 where "PTE_D \<equiv> 0x40"
abbreviation (input) PTE_PS :: u64 where "PTE_PS \<equiv> 0x80"
abbreviation (input) PTE_XD :: u64 where "PTE_XD \<equiv> 0x8000000000000000"
abbreviation (input) PTE_PAMASK :: u64 where "PTE_PAMASK \<equiv> 0x000FFFFFFFFFF000"

abbreviation (input) VA_LOWMIN :: u64 where "VA_LOWMIN \<equiv> 0"
abbreviation (input) VA_LOWMAX :: u64 where "VA_LOWMAX \<equiv> 0x00007FFFFFFFFFFF"
abbreviation (input) VA_LOWEND :: u64 where "VA_LOWEND \<equiv> 0x0000800000000000"
abbreviation (input) VA_HIGHMIN :: u64 where "VA_HIGHMIN \<equiv> 0xFFFF800000000000"
abbreviation (input) VA_HIGHMAX :: u64 where "VA_HIGHMAX \<equiv> 0xFFFFFFFFFFFFFFFF"
abbreviation (input) VA_NONCANONMAX :: u64 where "VA_NONCANONMAX \<equiv> 0x0000FFFFFFFFFFFF"
abbreviation (input) VA_NONCANONEND :: u64 where "VA_NONCANONEND \<equiv> 0x0001000000000000"

abbreviation (input) PA_IOLOWMIN :: u64 where "PA_IOLOWMIN \<equiv> 0xA0000"
abbreviation (input) PA_IOLOWEND :: u64 where "PA_IOLOWEND \<equiv> 0x100000"

abbreviation (input) PFERR_PRESENT :: u64 where "PFERR_PRESENT \<equiv> 0x1"
abbreviation (input) PFERR_WRITE :: u64 where "PFERR_WRITE \<equiv> 0x2"
abbreviation (input) PFERR_USER :: u64 where "PFERR_USER \<equiv> 0x4"

abbreviation (input) INT_PF :: u32 where "INT_PF \<equiv> 14"

section \<open>Page index arithmetic\<close>

definition pageindex :: "u64 \<Rightarrow> nat \<Rightarrow> nat" where
  "pageindex addr level =
     unat ((ucast (drop_bit (PAGEOFFBITS + level * PAGEINDEXBITS) addr) :: u32) AND 0x1FF)"

definition pageoffmask :: "nat \<Rightarrow> u64" where
  "pageoffmask level = push_bit (PAGEOFFBITS + level * PAGEINDEXBITS) 1 - 1"

definition pageoffset :: "u64 \<Rightarrow> nat \<Rightarrow> u64" where
  "pageoffset addr level = addr AND pageoffmask level"

definition va_is_canonical :: "u64 \<Rightarrow> bool" where
  "va_is_canonical va \<longleftrightarrow> va \<le> VA_LOWMAX \<or> va \<ge> VA_HIGHMIN"

section \<open>Registers\<close>

record regstate =
  reg_rax :: u64
  reg_rcx :: u64
  reg_rdx :: u64
  reg_rbx :: u64
  reg_rbp :: u64
  reg_rsi :: u64
  reg_rdi :: u64
  reg_r8 :: u64
  reg_r9 :: u64
  reg_r10 :: u64
  reg_r11 :: u64
  reg_r12 :: u64
  reg_r13 :: u64
  reg_r14 :: u64
  reg_r15 :: u64
  reg_fs :: u64
  reg_gs :: u64
  reg_intno :: u32
  reg_swapgs :: u32
  reg_errcode :: u64
  reg_rip :: u64
  reg_cs :: u64
  reg_rflags :: u64
  reg_rsp :: u64
  reg_ss :: u64

section \<open>64-bit memory accesses\<close>

definition ld64 :: "mem \<Rightarrow> addr \<Rightarrow> u64" where
  "ld64 m a =
     ucast (m a) OR push_bit 8 (ucast (m (a + 1))) OR push_bit 16 (ucast (m (a + 2)))
     OR push_bit 24 (ucast (m (a + 3))) OR push_bit 32 (ucast (m (a + 4)))
     OR push_bit 40 (ucast (m (a + 5))) OR push_bit 48 (ucast (m (a + 6)))
     OR push_bit 56 (ucast (m (a + 7)))"

definition st64 :: "mem \<Rightarrow> addr \<Rightarrow> u64 \<Rightarrow> mem" where
  "st64 m a v =
     m(a := ucast v, a + 1 := ucast (drop_bit 8 v), a + 2 := ucast (drop_bit 16 v),
       a + 3 := ucast (drop_bit 24 v), a + 4 := ucast (drop_bit 32 v),
       a + 5 := ucast (drop_bit 40 v), a + 6 := ucast (drop_bit 48 v),
       a + 7 := ucast (drop_bit 56 v))"

lemma take_bit_chunk:
  "take_bit k v OR push_bit k (take_bit 8 (drop_bit k v)) = take_bit (k + 8) (v :: u64)"
  by (rule bit_word_eqI) (auto simp: bit_simps dest: bit_imp_le_length)

lemma take_bit_first_chunk: "ucast (ucast v :: u8) = take_bit 8 (v :: u64)"
  by (rule bit_word_eqI) (auto simp: bit_simps dest: bit_imp_le_length)

lemma word_of_bytes:
  "ucast (ucast v :: u8) OR push_bit 8 (ucast (ucast (drop_bit 8 v) :: u8))
     OR push_bit 16 (ucast (ucast (drop_bit 16 v) :: u8))
     OR push_bit 24 (ucast (ucast (drop_bit 24 v) :: u8))
     OR push_bit 32 (ucast (ucast (drop_bit 32 v) :: u8))
     OR push_bit 40 (ucast (ucast (drop_bit 40 v) :: u8))
     OR push_bit 48 (ucast (ucast (drop_bit 48 v) :: u8))
     OR push_bit 56 (ucast (ucast (drop_bit 56 v) :: u8)) = (v :: u64)"
proof -
  have "take_bit 64 v = v" by (rule bit_word_eqI) (auto simp: bit_simps)
  then show ?thesis
    unfolding take_bit_first_chunk or.assoc [symmetric]
    using take_bit_chunk [of 8 v] take_bit_chunk [of 16 v] take_bit_chunk [of 24 v]
      take_bit_chunk [of 32 v] take_bit_chunk [of 40 v] take_bit_chunk [of 48 v]
      take_bit_chunk [of 56 v]
    by simp
qed

lemma ld64_st64_same [simp]: "ld64 (st64 m a v) a = v"
proof -
  have "ld64 (st64 m a v) a =
     ucast (ucast v :: u8) OR push_bit 8 (ucast (ucast (drop_bit 8 v) :: u8))
     OR push_bit 16 (ucast (ucast (drop_bit 16 v) :: u8))
     OR push_bit 24 (ucast (ucast (drop_bit 24 v) :: u8))
     OR push_bit 32 (ucast (ucast (drop_bit 32 v) :: u8))
     OR push_bit 40 (ucast (ucast (drop_bit 40 v) :: u8))
     OR push_bit 48 (ucast (ucast (drop_bit 48 v) :: u8))
     OR push_bit 56 (ucast (ucast (drop_bit 56 v) :: u8))"
    unfolding ld64_def st64_def by simp
  then show ?thesis by (simp only: word_of_bytes)
qed

lemma st64_other: "unat (b - a) \<ge> 8 \<Longrightarrow> st64 m a v b = m b"
  by (auto simp: st64_def)

text \<open>A load depends only on its eight bytes.\<close>

lemma ld64_cong:
  assumes "\<And>i. i < 8 \<Longrightarrow> m (a + of_nat i) = m' (a + of_nat i)"
  shows "ld64 m a = ld64 m' a"
  using assms [of 0] assms [of 1] assms [of 2] assms [of 3] assms [of 4] assms [of 5]
    assms [of 6] assms [of 7]
  by (simp add: ld64_def)

section \<open>Pages and entries\<close>

definition page_aligned :: "u64 \<Rightarrow> bool" where
  "page_aligned t \<longleftrightarrow> t AND PAGEOFFMASK = 0"

definition page_base :: "u64 \<Rightarrow> u64" where
  "page_base a = a AND NOT PAGEOFFMASK"

text \<open>The address of entry \<open>i\<close> of the page table at \<open>t\<close>: \<open>&pt->entry[i]\<close>.\<close>

definition entry_addr :: "addr \<Rightarrow> nat \<Rightarrow> addr" where
  "entry_addr t i = t + 8 * of_nat i"

lemma and_pageoffmask: "a AND PAGEOFFMASK = take_bit 12 (a :: u64)"
  by (simp add: take_bit_eq_mask mask_eq_exp_minus_1)

lemma unat_and_pageoffmask: "unat (a AND PAGEOFFMASK) = unat a mod 4096"
  unfolding and_pageoffmask by (simp add: take_bit_eq_mod unat_mod_distrib)

lemma page_aligned_iff: "page_aligned t \<longleftrightarrow> 4096 dvd unat t"
  by (simp add: page_aligned_def dvd_eq_mod_eq_0 flip: unat_and_pageoffmask unat_eq_0)

lemma page_base_plus: "page_base a + (a AND PAGEOFFMASK) = a"
proof -
  have "page_base a + (a AND PAGEOFFMASK) = (a AND NOT PAGEOFFMASK) OR (a AND PAGEOFFMASK)"
    unfolding page_base_def
    by (rule disjunctive_add_eq_or) (rule bit_word_eqI, auto simp: bit_simps)
  also have "\<dots> = a" by (rule bit_word_eqI) (auto simp: bit_simps)
  finally show ?thesis .
qed

lemma page_aligned_page_base: "page_aligned (page_base a)"
  unfolding page_aligned_def page_base_def by (rule bit_word_eqI) (auto simp: bit_simps)

lemma unat_page_base: "unat (page_base a) = 4096 * (unat a div 4096)"
proof -
  have "page_base a = a - (a AND PAGEOFFMASK)"
    using page_base_plus [of a] by (simp only: eq_diff_eq)
  moreover have "a AND PAGEOFFMASK \<le> a"
    unfolding word_le_nat_alt unat_and_pageoffmask by simp
  ultimately have "unat (page_base a) = unat a - unat a mod 4096"
    by (simp only: unat_sub unat_and_pageoffmask)
  then show ?thesis by (simp add: minus_mod_eq_mult_div)
qed

lemma page_base_aligned: "page_aligned t \<Longrightarrow> page_base t = t"
  using page_base_plus [of t] by (simp add: page_aligned_def)

lemma page_aligned_room: "page_aligned t \<Longrightarrow> unat t + 4096 \<le> 2 ^ 64"
proof -
  assume "page_aligned t"
  then obtain k where k: "unat t = 4096 * k" by (auto simp: page_aligned_iff)
  have "unat t < 2 ^ 64" using unat_lt2p [of t] by simp
  with k have "k < 2 ^ 52" by simp
  with k show ?thesis by simp
qed

text \<open>Membership in an aligned page, as the range test of the memory functions and as a base.\<close>

lemma in_page_iff: "page_aligned t \<Longrightarrow> unat (a - t) < 4096 \<longleftrightarrow> page_base a = t"
proof -
  assume al: "page_aligned t"
  then obtain k where k: "unat t = 4096 * k" by (auto simp: page_aligned_iff)
  have base: "page_base a = t \<longleftrightarrow> unat a div 4096 = k"
    using k by (auto simp: unat_page_base word_unat_eq_iff)
  show ?thesis
  proof (cases "t \<le> a")
    case True
    then have "unat (a - t) = unat a - 4096 * k" and "4096 * k \<le> unat a"
      using k by (simp_all add: unat_sub word_le_nat_alt)
    then show ?thesis unfolding base by auto
  next
    case False
    then have lt: "unat a < 4096 * k" using k by (simp add: word_le_nat_alt)
    then have "unat a div 4096 \<noteq> k" by auto
    moreover have "unat (a - t) \<ge> 4096"
    proof -
      have "unat (a - t) = 2 ^ 64 + unat a - unat t"
        using False by (simp add: unat_sub_if' word_le_nat_alt)
      then show ?thesis using page_aligned_room [OF al] by linarith
    qed
    ultimately show ?thesis unfolding base by simp
  qed
qed

lemma unat_entry_addr:
  "page_aligned t \<Longrightarrow> i < 512 \<Longrightarrow> unat (entry_addr t i) = unat t + 8 * i"
proof -
  assume "page_aligned t" "i < 512"
  moreover from this have "unat (8 * of_nat i :: u64) = 8 * i"
    by (simp add: unat_word_ariths unat_of_nat_small)
  ultimately show ?thesis
    using page_aligned_room [of t] unfolding entry_addr_def
    by (subst unat_add_small) auto
qed

lemma page_base_entry: "page_aligned t \<Longrightarrow> i < 512 \<Longrightarrow> page_base (entry_addr t i) = t"
  by (auto simp: unat_page_base unat_entry_addr page_aligned_iff word_unat_eq_iff elim!: dvdE)

lemma entry_addr_eq_iff:
  "page_aligned t \<Longrightarrow> page_aligned t' \<Longrightarrow> i < 512 \<Longrightarrow> j < 512 \<Longrightarrow>
   entry_addr t i = entry_addr t' j \<longleftrightarrow> t = t' \<and> i = j"
  using page_base_entry [of t i] page_base_entry [of t' j] unat_entry_addr [of t i]
    unat_entry_addr [of t' j]
  by fastforce

lemma entry_addr_dvd: "page_aligned t \<Longrightarrow> i < 512 \<Longrightarrow> 8 dvd unat (entry_addr t i)"
  by (auto simp: unat_entry_addr page_aligned_iff intro: dvd_trans [of 8 4096])

lemma aligned8_apart:
  fixes a b :: u64
  assumes "8 dvd unat a" "8 dvd unat b" "a \<noteq> b" "i < 8"
  shows "unat (b + of_nat i - a) \<ge> 8"
proof -
  have d: "8 dvd unat (b - a)"
    using assms(1,2) by (auto simp: unat_sub_if' dvd_diff_nat dvd_add)
  moreover have "unat (b - a) \<noteq> 0" using assms(3) by (simp add: unat_eq_0)
  ultimately have ge: "8 \<le> unat (b - a)" by (auto dest: dvd_imp_le)
  from d obtain k where "unat (b - a) = 8 * k" ..
  moreover have "unat (b - a) < 2 ^ 64" using unat_lt2p [of "b - a"] by simp
  ultimately have "unat (b - a) + i < 2 ^ 64" using assms(4) by simp
  then have "unat (b - a + of_nat i) = unat (b - a) + i"
    using assms(4) by (subst unat_add_small) (simp_all add: unat_of_nat_small)
  then show ?thesis using ge by (simp add: algebra_simps)
qed

lemma ld64_st64_other:
  "8 dvd unat a \<Longrightarrow> 8 dvd unat b \<Longrightarrow> a \<noteq> b \<Longrightarrow> ld64 (st64 m a v) b = ld64 m b"
  by (rule ld64_cong) (simp add: st64_other aligned8_apart)

lemma ld64_st64_entry:
  "page_aligned t \<Longrightarrow> page_aligned t' \<Longrightarrow> i < 512 \<Longrightarrow> j < 512 \<Longrightarrow>
   ld64 (st64 m (entry_addr t i) v) (entry_addr t' j) =
     (if t = t' \<and> i = j then v else ld64 m (entry_addr t' j))"
  by (auto simp: ld64_st64_other entry_addr_dvd entry_addr_eq_iff)

text \<open>The bytes of an entry lie in the entry's page.\<close>

lemma entry_byte_in_page:
  assumes "page_aligned t" "i < 512" "k < 8"
  shows "page_base (entry_addr t i + of_nat k) = t"
proof -
  have "unat (entry_addr t i) + k < 2 ^ 64"
    using assms page_aligned_room [of t] by (simp add: unat_entry_addr)
  then have "unat (entry_addr t i + of_nat k) = unat t + 8 * i + k"
    using assms by (subst unat_add_small) (simp_all add: unat_of_nat_small unat_entry_addr)
  then show ?thesis
    using assms by (auto simp: unat_page_base page_aligned_iff word_unat_eq_iff elim!: dvdE)
qed

lemma ld64_page_cong:
  assumes "\<And>a. page_base a = t \<Longrightarrow> m a = m' a" "page_aligned t" "i < 512"
  shows "ld64 m (entry_addr t i) = ld64 m' (entry_addr t i)"
  using assms by (intro ld64_cong) (simp add: entry_byte_in_page)

lemma st64_entry_outside:
  assumes "page_aligned t" "i < 512" "page_base a \<noteq> t"
  shows "st64 m (entry_addr t i) v a = m a"
proof (rule st64_other, rule ccontr)
  let ?e = "entry_addr t i"
  assume "\<not> 8 \<le> unat (a - ?e)"
  then have "page_base (?e + of_nat (unat (a - ?e))) = t"
    using assms by (intro entry_byte_in_page) auto
  with assms(3) show False by simp
qed

lemma ld64_zero_page:
  assumes "\<And>a. page_base a = t \<Longrightarrow> m a = 0" "page_aligned t" "i < 512"
  shows "ld64 m (entry_addr t i) = 0"
proof -
  have "ld64 m (entry_addr t i) = ld64 (\<lambda>_. 0) (entry_addr t i)"
    using assms by (intro ld64_page_cong) auto
  then show ?thesis by (simp add: ld64_def)
qed

section \<open>Indices and offsets\<close>

lemma pageindex_take_bit: "pageindex va l = unat (take_bit 9 (drop_bit (12 + l * 9) va))"
proof -
  let ?d = "drop_bit (12 + l * 9) va"
  have "(ucast ?d :: u32) AND 0x1FF = take_bit 9 (ucast ?d)"
    by (simp add: take_bit_eq_mask mask_eq_exp_minus_1)
  also have "\<dots> = ucast (take_bit 9 ?d)"
    by (rule bit_word_eqI) (auto simp: bit_simps)
  finally show ?thesis
    unfolding pageindex_def
    by (simp add: unsigned_ucast_eq unsigned_take_bit_eq take_bit_take_bit)
qed

lemma pageindex_less [simp]: "pageindex va l < 512"
  using take_bit_nat_less_exp [of 9]
  by (simp add: pageindex_take_bit unsigned_take_bit_eq)

lemma pageindex_eq_iff:
  "pageindex va l = pageindex va' l \<longleftrightarrow>
   (\<forall>n < 9. bit va (12 + l * 9 + n) = bit va' (12 + l * 9 + n))"
  unfolding pageindex_take_bit word_unat_eq_iff [symmetric] take_bit_eq_bits
  by (simp add: bit_drop_bit_eq)

lemma pageoffmask_mask: "pageoffmask l = mask (12 + l * 9)"
  by (simp add: pageoffmask_def mask_eq_exp_minus_1 push_bit_eq_mult)

lemma bit_pageoffmask [simp]: "bit (pageoffmask l) n \<longleftrightarrow> n < 64 \<and> n < 12 + l * 9"
  by (auto simp: pageoffmask_mask bit_simps)

text \<open>Two addresses agree above level \<open>l\<close>: every bit from the level's index upward is the same.\<close>

definition same_above :: "nat \<Rightarrow> u64 \<Rightarrow> u64 \<Rightarrow> bool" where
  "same_above l va va' \<longleftrightarrow> (\<forall>n. 12 + l * 9 \<le> n \<longrightarrow> bit va n = bit va' n)"

lemma xor_outside_mask: "((va XOR va') AND NOT (pageoffmask l) = 0) \<longleftrightarrow> same_above l va va'"
proof -
  have "((va XOR va') AND NOT (pageoffmask l) = 0) \<longleftrightarrow>
      (\<forall>n. bit ((va XOR va') AND NOT (pageoffmask l)) n = bit (0 :: u64) n)"
    by (metis bit_word_eqI)
  also have "\<dots> \<longleftrightarrow> (\<forall>n. n < 64 \<longrightarrow> 12 + l * 9 \<le> n \<longrightarrow> bit va n = bit va' n)"
    by (auto simp: bit_and_iff bit_not_iff bit_xor_iff not_less dest: bit_imp_le_length)
  also have "\<dots> \<longleftrightarrow> same_above l va va'"
    unfolding same_above_def using bit_imp_le_length [of va] bit_imp_le_length [of va'] by auto
  finally show ?thesis .
qed

lemma same_above_mono: "same_above l va va' \<Longrightarrow> l \<le> k \<Longrightarrow> same_above k va va'"
  by (auto simp: same_above_def)

lemma same_above_pageindex: "same_above l va va' \<Longrightarrow> l \<le> k \<Longrightarrow> pageindex va k = pageindex va' k"
  by (auto simp: same_above_def pageindex_eq_iff)

lemma same_above_step:
  "same_above (Suc l) va va' \<Longrightarrow> pageindex va l = pageindex va' l \<Longrightarrow> same_above l va va'"
  unfolding same_above_def pageindex_eq_iff
proof (intro allI impI)
  fix n
  assume above: "\<forall>n. 12 + Suc l * 9 \<le> n \<longrightarrow> bit va n = bit va' n"
    and idx: "\<forall>n < 9. bit va (12 + l * 9 + n) = bit va' (12 + l * 9 + n)" and n: "12 + l * 9 \<le> n"
  show "bit va n = bit va' n"
  proof (cases "n < 12 + l * 9 + 9")
    case True
    with n idx [rule_format, of "n - (12 + l * 9)"] show ?thesis by simp
  next
    case False
    with above show ?thesis by simp
  qed
qed

lemma page_aligned_pamask [simp]: "page_aligned (e AND PTE_PAMASK)"
  by (simp add: page_aligned_def and.assoc)

lemma canonical_iff: "va_is_canonical va \<longleftrightarrow> unat va div 2 ^ 47 = 0 \<or> 2 ^ 17 - 1 \<le> unat va div 2 ^ 47"
proof -
  have "va \<le> VA_LOWMAX \<longleftrightarrow> unat va div 2 ^ 47 = 0"
    by (auto simp: word_le_nat_alt div_eq_0_iff)
  moreover have "va \<ge> VA_HIGHMIN \<longleftrightarrow> 2 ^ 17 - 1 \<le> unat va div 2 ^ 47"
    by (auto simp: word_le_nat_alt less_eq_div_iff_mult_less_eq)
  ultimately show ?thesis by (simp add: va_is_canonical_def)
qed

lemma same_above_canonical:
  assumes "same_above l va va'" "l \<le> 3"
  shows "va_is_canonical va \<longleftrightarrow> va_is_canonical va'"
proof -
  have "drop_bit 47 va = drop_bit 47 va'"
    using assms by (intro bit_word_eqI) (simp add: same_above_def bit_drop_bit_eq)
  then have "unat (drop_bit 47 va) = unat (drop_bit 47 va')" by simp
  then have "unat va div 2 ^ 47 = unat va' div 2 ^ 47"
    by (simp add: drop_bit_eq_div unat_div_distrib)
  then show ?thesis by (simp only: canonical_iff)
qed

text \<open>Canonical addresses with the same four indices lie in the same page.\<close>

lemma canonical_bits:
  assumes "va_is_canonical va" "47 \<le> n" "n < 64"
  shows "bit va n = bit va 47"
proof -
  let ?d = "drop_bit 47 va"
  have u: "unat ?d = unat va div 2 ^ 47" by (simp add: drop_bit_eq_div unat_div_distrib)
  have "unat va div 2 ^ 47 < 2 ^ 17" using unat_lt2p [of va] by (simp add: div_less_iff_less_mult)
  with assms(1) u have "unat ?d = 0 \<or> unat ?d = 2 ^ 17 - 1" by (auto simp: canonical_iff)
  then have "?d = 0 \<or> ?d = mask 17"
    by (auto simp: word_unat_eq_iff mask_eq_exp_minus_1)
  then have "bit ?d (n - 47) = bit ?d 0" using assms(2,3) by (auto simp: bit_mask_iff)
  then show ?thesis using assms(2) by (simp add: bit_drop_bit_eq)
qed

lemma same_page_indices:
  assumes "va_is_canonical va" "va_is_canonical va'"
    "\<forall>l \<le> 3. pageindex va l = pageindex va' l"
  shows "same_above 0 va va'"
proof -
  have "\<forall>n < 9. bit va (12 + 3 * 9 + n) = bit va' (12 + 3 * 9 + n)"
    using assms(3) unfolding pageindex_eq_iff by blast
  then have b: "bit va 47 = bit va' 47" by (elim allE [of _ 8]) simp
  have "bit va n = bit va' n" if "12 + 4 * 9 \<le> n" for n
  proof (cases "n < 64")
    case True
    with that have "bit va n = bit va 47" "bit va' n = bit va' 47"
      by (intro canonical_bits assms(1,2); simp)+
    with b show ?thesis by simp
  next
    case False
    then show ?thesis by (auto dest: bit_imp_le_length)
  qed
  then have "same_above 4 va va'" by (simp add: same_above_def)
  then have "same_above 3 va va'"
    using same_above_step [of 3] assms(3) by (simp add: eval_nat_numeral)
  then have "same_above 2 va va'"
    using same_above_step [of 2] assms(3) by (simp add: eval_nat_numeral)
  then have "same_above 1 va va'"
    using same_above_step [of 1] assms(3) by (simp add: eval_nat_numeral)
  then show ?thesis using same_above_step [of 0] assms(3) by simp
qed

end
