(* ===== verification/Kalloc.thy ===== *)
theory Kalloc
  imports X86
begin

text \<open>
  The physical page allocator: \<open>kalloc\<close> and \<open>kfree\<close> of \<open>kernel.cc\<close>, the page table \<open>pages\<close> of
  reference counts, and the address classification of \<open>k-hardware.cc\<close>. The address of the linker
  symbol \<open>_kernel_end\<close> is the argument \<open>kernel_end\<close>. The contract that clients of an allocator rely
  on is the locale \<open>page_allocator\<close>, interpreted here on \<open>kalloc\<close>.
\<close>

section \<open>Memory layout\<close>

abbreviation (input) KERNEL_START_ADDR :: u64 where "KERNEL_START_ADDR \<equiv> 0x40000"
abbreviation (input) KERNEL_STACK_TOP :: u64 where "KERNEL_STACK_TOP \<equiv> 0x80000"
abbreviation (input) PROC_START_ADDR :: u64 where "PROC_START_ADDR \<equiv> 0x100000"
abbreviation (input) MEMSIZE_PHYSICAL :: u64 where "MEMSIZE_PHYSICAL \<equiv> 0x200000"
abbreviation (input) NPAGES :: nat where "NPAGES \<equiv> 512"
abbreviation (input) MEMSIZE_VIRTUAL :: u64 where "MEMSIZE_VIRTUAL \<equiv> 0x300000"
abbreviation (input) IOPHYSMEM :: u64 where "IOPHYSMEM \<equiv> 0xA0000"
abbreviation (input) EXTPHYSMEM :: u64 where "EXTPHYSMEM \<equiv> 0x100000"

section \<open>State\<close>

record pageinfo =
  refcount :: u8

definition used :: "pageinfo \<Rightarrow> bool" where
  "used p \<longleftrightarrow> refcount p \<noteq> 0"

text \<open>
  Physical memory and the array \<open>pages\<close>. The kernel runs with physical memory mapped one to one,
  so a kernel pointer is a physical address. An index of \<open>pages\<close> outside \<open>NPAGES\<close> is a fault of the
  operation that uses it.
\<close>

record kmem =
  bytes :: mem
  pages :: "nat \<Rightarrow> pageinfo"

abbreviation page_number :: "addr \<Rightarrow> nat" where
  "page_number pa \<equiv> unat (pa div PAGESIZE)"

section \<open>Operations\<close>

definition reserved_physical_address :: "addr \<Rightarrow> bool" where
  "reserved_physical_address pa \<longleftrightarrow> pa < PAGESIZE \<or> (pa \<ge> IOPHYSMEM \<and> pa < EXTPHYSMEM)"

definition allocatable_physical_address :: "addr \<Rightarrow> addr \<Rightarrow> bool" where
  "allocatable_physical_address kernel_end pa \<longleftrightarrow>
     \<not> reserved_physical_address pa
     \<and> (pa < KERNEL_START_ADDR \<or> pa \<ge> round_up kernel_end (ucast PAGESIZE))
     \<and> (pa < KERNEL_STACK_TOP - PAGESIZE \<or> pa \<ge> KERNEL_STACK_TOP)
     \<and> pa < MEMSIZE_PHYSICAL"

function kalloc_loop :: "addr \<Rightarrow> addr \<Rightarrow> kmem \<Rightarrow> addr \<times> kmem" where
  "kalloc_loop kernel_end pa s =
     (if pa < MEMSIZE_PHYSICAL then
        if allocatable_physical_address kernel_end pa \<and> \<not> used (pages s (page_number pa))
        then (pa, s\<lparr>pages := (pages s)(page_number pa := \<lparr>refcount = 1\<rparr>),
                    bytes := memset (bytes s) pa 0xCC PAGESIZE\<rparr>)
        else kalloc_loop kernel_end (pa + PAGESIZE) s
      else (0, s))"
  by pat_completeness auto
termination
proof (relation "measure (\<lambda>(ke, pa, s). 2 ^ 21 - unat pa)", goal_cases)
  case 1
  then show ?case by simp
next
  case (2 kernel_end pa s)
  then have "unat pa < 2 ^ 21" by (simp add: word_less_nat_alt)
  moreover from this have "unat (pa + PAGESIZE) = unat pa + 4096"
    by (subst unat_add_small) simp_all
  ultimately show ?case by simp
qed

declare kalloc_loop.simps [simp del]

definition kalloc :: "addr \<Rightarrow> u64 \<Rightarrow> kmem \<Rightarrow> addr \<times> kmem" where
  "kalloc kernel_end sz s = (if sz > PAGESIZE then (0, s) else kalloc_loop kernel_end 0 s)"

definition kfree :: "addr \<Rightarrow> kmem \<Rightarrow> fault + kmem" where
  "kfree kptr s =
     (if kptr = 0 then Inr s
      else let i = page_number kptr in
        if i \<ge> NPAGES then Inl Out_of_bounds
        else if refcount (pages s i) > 0
        then Inr (s\<lparr>pages := (pages s)(i := (pages s i)\<lparr>refcount := refcount (pages s i) - 1\<rparr>)\<rparr>)
        else Inr s)"

section \<open>Correctness\<close>

text \<open>The pages that \<open>kalloc\<close> can hand out, and the state after it has handed out \<open>p\<close>.\<close>

definition avail :: "addr \<Rightarrow> kmem \<Rightarrow> addr set" where
  "avail kernel_end s =
     {p. page_aligned p \<and> allocatable_physical_address kernel_end p
         \<and> \<not> used (pages s (page_number p))}"

definition claim_page :: "addr \<Rightarrow> kmem \<Rightarrow> kmem" where
  "claim_page p s = s\<lparr>pages := (pages s)(page_number p := \<lparr>refcount = 1\<rparr>),
                       bytes := memset (bytes s) p 0xCC PAGESIZE\<rparr>"

lemma allocatable_bounds:
  "allocatable_physical_address ke p \<Longrightarrow> PAGESIZE \<le> p \<and> p < MEMSIZE_PHYSICAL"
  by (auto simp: allocatable_physical_address_def reserved_physical_address_def)

lemma zero_not_avail: "0 \<notin> avail ke s"
  using allocatable_bounds by (fastforce simp: avail_def)

lemma page_number_less: "p < MEMSIZE_PHYSICAL \<Longrightarrow> page_number p < NPAGES"
  by (simp add: unat_div word_less_nat_alt) 

lemma page_number_inj:
  "page_aligned p \<Longrightarrow> page_aligned q \<Longrightarrow> page_number p = page_number q \<longleftrightarrow> p = q"
  by (auto simp: unat_div page_aligned_iff word_unat_eq_iff elim!: dvdE)

lemma page_aligned_next:
  assumes "page_aligned pa" "pa < MEMSIZE_PHYSICAL"
  shows "page_aligned (pa + PAGESIZE)" and "q < pa + PAGESIZE \<Longrightarrow> page_aligned q \<Longrightarrow> q \<le> pa"
proof -
  have u: "unat (pa + PAGESIZE) = unat pa + 4096"
    using assms(2) by (subst unat_add_small) (simp_all add: word_less_nat_alt)
  then show "page_aligned (pa + PAGESIZE)" using assms(1) by (simp add: page_aligned_iff)
  assume "q < pa + PAGESIZE" "page_aligned q"
  with assms(1) u show "q \<le> pa"
    by (auto simp: page_aligned_iff word_le_nat_alt word_less_nat_alt elim!: dvdE)
qed

lemma kalloc_loop_cases:
  assumes "page_aligned pa" "\<forall>q \<in> avail ke s. pa \<le> q"
  shows "avail ke s = {} \<and> kalloc_loop ke pa s = (0, s)
    \<or> (\<exists>p \<in> avail ke s. (\<forall>q \<in> avail ke s. p \<le> q) \<and> kalloc_loop ke pa s = (p, claim_page p s))"
  using assms
proof (induction ke pa s rule: kalloc_loop.induct)
  case (1 ke pa s)
  show ?case
  proof (cases "pa < MEMSIZE_PHYSICAL")
    case False
    have "q \<notin> avail ke s" for q
      using False 1(3) allocatable_bounds [of ke q] by (force simp: avail_def)
    with False show ?thesis by (auto simp: kalloc_loop.simps [of ke pa])
  next
    case True
    show ?thesis
    proof (cases "pa \<in> avail ke s")
      case True
      with \<open>pa < MEMSIZE_PHYSICAL\<close> 1(3) show ?thesis
        by (auto simp: kalloc_loop.simps [of ke pa] avail_def claim_page_def)
    next
      case False
      then have skip: "\<not> (allocatable_physical_address ke pa \<and> \<not> used (pages s (page_number pa)))"
        using 1(2) by (simp add: avail_def)
      have "\<forall>q \<in> avail ke s. pa + PAGESIZE \<le> q"
      proof
        fix q
        assume q: "q \<in> avail ke s"
        then have "page_aligned q" "q \<noteq> pa" using False by (auto simp: avail_def)
        with q 1(3) page_aligned_next(2) [OF 1(2) \<open>pa < MEMSIZE_PHYSICAL\<close>, of q]
        show "pa + PAGESIZE \<le> q" by fastforce
      qed
      moreover have "kalloc_loop ke pa s = kalloc_loop ke (pa + PAGESIZE) s"
        using True skip by (subst kalloc_loop.simps) auto
      ultimately show ?thesis
        using 1(1) [OF True skip page_aligned_next(1) [OF 1(2) True]] by (simp only:)
    qed
  qed
qed

lemma kalloc_cases:
  assumes "sz \<le> PAGESIZE"
  obtains (none) "avail ke s = {}" "kalloc ke sz s = (0, s)"
  | (page) p where "p \<in> avail ke s" "\<forall>q \<in> avail ke s. p \<le> q" "kalloc ke sz s = (p, claim_page p s)"
proof -
  have "page_aligned 0" by (simp add: page_aligned_def)
  moreover have "kalloc ke sz s = kalloc_loop ke 0 s" using assms by (auto simp: kalloc_def)
  ultimately show thesis using kalloc_loop_cases [of 0 ke s] that by auto
qed

lemma claim_page_bytes:
  "page_aligned p \<Longrightarrow> bytes (claim_page p s) a = (if page_base a = p then 0xCC else bytes s a)"
  by (simp add: claim_page_def memset_apply in_page_iff)

lemma avail_claim_page:
  "p \<in> avail ke s \<Longrightarrow> avail ke (claim_page p s) = avail ke s - {p}"
  by (auto simp: avail_def claim_page_def used_def page_number_inj)

lemma avail_aligned: "p \<in> avail ke s \<Longrightarrow> page_aligned p"
  by (simp add: avail_def)

lemma avail_below: "p \<in> avail ke s \<Longrightarrow> p < MEMSIZE_PHYSICAL"
  using allocatable_bounds by (auto simp: avail_def)

section \<open>The allocator contract\<close>

text \<open>
  What a client of a page allocator relies on: \<open>alloc\<close> either reports the null pointer, changes
  nothing and no page is free, or it returns a free page, which is not free afterwards; it
  writes that page only. \<open>free_pages\<close> reads the reference counts alone.
\<close>

locale page_allocator =
  fixes alloc :: "kmem \<Rightarrow> addr \<times> kmem"
    and free_pages :: "kmem \<Rightarrow> addr set"
  assumes alloc_none: "alloc s = (0, s') \<Longrightarrow> s' = s \<and> free_pages s = {}"
    and alloc_some: "alloc s = (p, s') \<Longrightarrow> p \<noteq> 0 \<Longrightarrow>
      p \<in> free_pages s \<and> free_pages s' = free_pages s - {p}
      \<and> pages s' = (pages s)(page_number p := \<lparr>refcount = 1\<rparr>)
      \<and> (\<forall>a. page_base a \<noteq> p \<longrightarrow> bytes s' a = bytes s a)"
    and free_aligned: "p \<in> free_pages s \<Longrightarrow> page_aligned p"
    and free_small: "p \<in> free_pages s \<Longrightarrow> p < 0x100000000"
    and free_nonzero: "0 \<notin> free_pages s"
    and free_bytes: "free_pages (s\<lparr>bytes := m\<rparr>) = free_pages s"

lemma kalloc_page_allocator:
  assumes "sz \<le> PAGESIZE"
  shows "page_allocator (kalloc ke sz) (avail ke)"
proof
  fix s s' :: kmem
  fix p
  show "kalloc ke sz s = (0, s') \<Longrightarrow> s' = s \<and> avail ke s = {}"
    using zero_not_avail by (cases rule: kalloc_cases [OF assms, of ke s]) auto
  show "p \<in> avail ke s \<and> avail ke s' = avail ke s - {p}
      \<and> pages s' = (pages s)(page_number p := \<lparr>refcount = 1\<rparr>)
      \<and> (\<forall>a. page_base a \<noteq> p \<longrightarrow> bytes s' a = bytes s a)"
    if "kalloc ke sz s = (p, s')" "p \<noteq> 0"
    using that by (cases rule: kalloc_cases [OF assms, of ke s])
      (auto simp: avail_claim_page claim_page_bytes avail_aligned, auto simp: claim_page_def)
  show "p < 0x100000000" if "p \<in> avail ke s"
    using avail_below [OF that] by (rule order_less_le_trans) simp
qed (auto simp: avail_aligned zero_not_avail, auto simp: avail_def)

interpretation ka: page_allocator "kalloc kernel_end PAGESIZE" "avail kernel_end" for kernel_end
  by (rule kalloc_page_allocator) simp

lemma kfree_counts:
  assumes "kptr \<noteq> 0" "page_number kptr < NPAGES"
  shows "kfree kptr s = Inr (s\<lparr>pages := (pages s)(page_number kptr :=
           \<lparr>refcount = of_nat (unat (refcount (pages s (page_number kptr))) - 1)\<rparr>)\<rparr>)"
proof (cases "refcount (pages s (page_number kptr)) = 0")
  case True
  then have "(pages s)(page_number kptr := \<lparr>refcount = 0\<rparr>) = pages s"
    by (simp add: fun_upd_idem_iff)
  with True show ?thesis using assms by (simp add: kfree_def Let_def)
next
  case False
  define p where "p = pages s (page_number kptr)"
  have pos: "refcount p > 0" using False by (simp add: word_neq_0_conv p_def)
  have "unat (refcount p) - 1 = unat (refcount p - 1)"
    using False by (simp add: unat_minus_one p_def)
  then have "p\<lparr>refcount := refcount p - 1\<rparr> = \<lparr>refcount = of_nat (unat (refcount p) - 1)\<rparr>"
    by (cases p) simp
  with pos assms show ?thesis by (simp add: kfree_def Let_def p_def)
qed

section \<open>Properties\<close>

text \<open>C21: \<open>kalloc\<close> fails exactly for requests above a page or when no allocatable page is free, and
  then changes nothing; otherwise it returns the lowest free allocatable page, with reference count
  1 and every byte 0xCC, and changes no other page and no other count.\<close>

theorem kalloc_first_fit:
  "case kalloc kernel_end sz s of (p, s') \<Rightarrow>
     if sz > PAGESIZE \<or> avail kernel_end s = {} then p = 0 \<and> s' = s
     else p \<in> avail kernel_end s \<and> p = Min (avail kernel_end s)
       \<and> pages s' = (pages s)(page_number p := \<lparr>refcount = 1\<rparr>)
       \<and> bytes s' = (\<lambda>a. if page_base a = p then 0xCC else bytes s a)"
proof (cases "sz \<le> PAGESIZE")
  case False
  then show ?thesis by (simp add: kalloc_def not_le)
next
  case sz: True
  show ?thesis
  proof (cases rule: kalloc_cases [OF sz, of kernel_end s])
    case 1
    then show ?thesis by simp
  next
    case (2 p)
    then have "Min (avail kernel_end s) = p" by (intro Min_eqI) auto
    with 2 sz avail_aligned [OF 2(1)] show ?thesis
      by (auto simp: claim_page_bytes fun_eq_iff) (simp_all add: claim_page_def)
  qed
qed

text \<open>C22: freeing a page that \<open>kalloc\<close> has just returned is defined behaviour and restores every
  reference count, so the page can be allocated again.\<close>

theorem kfree_kalloc:
  assumes "kalloc kernel_end sz s = (p, s')" "p \<noteq> 0"
  shows "\<exists>s''. kfree p s' = Inr s'' \<and> pages s'' = pages s \<and> bytes s'' = bytes s'
    \<and> p \<in> avail kernel_end s''"
proof -
  have sz: "sz \<le> PAGESIZE" using assms by (auto simp: kalloc_def split: if_splits)
  have p: "p \<in> avail kernel_end s" "s' = claim_page p s"
    using assms by (cases rule: kalloc_cases [OF sz, of kernel_end s]; simp)+
  have i: "page_number p < NPAGES" by (rule page_number_less [OF avail_below [OF p(1)]])
  have "pages s (page_number p) = \<lparr>refcount = 0\<rparr>" using p by (simp add: avail_def used_def)
  then have "kfree p s' = Inr (s'\<lparr>pages := pages s\<rparr>)"
    using kfree_counts [OF assms(2) i, of s'] by (auto simp: p claim_page_def fun_upd_idem)
  with p show ?thesis by (auto simp: avail_def)
qed

theorem kfree_kalloc_witness:
  "\<exists>p s' s''. kalloc 0x50000 PAGESIZE \<lparr>bytes = \<lambda>_. 0, pages = \<lambda>_. \<lparr>refcount = 0\<rparr>\<rparr> = (p, s') \<and> p \<noteq> 0
     \<and> kfree p s' = Inr s'' \<and> pages s'' = (\<lambda>_. \<lparr>refcount = 0\<rparr>)"
proof -
  let ?s = "\<lparr>bytes = \<lambda>_. 0, pages = \<lambda>_. \<lparr>refcount = 0\<rparr>\<rparr>"
  have a: "allocatable_physical_address 0x50000 0x1000" by code_simp
  have n: "\<not> allocatable_physical_address 0x50000 0" by code_simp
  have "kalloc_loop 0x50000 0x1000 ?s = (0x1000, claim_page 0x1000 ?s)"
    using a by (subst kalloc_loop.simps) (simp add: used_def claim_page_def)
  then have k: "kalloc 0x50000 PAGESIZE ?s = (0x1000, claim_page 0x1000 ?s)"
    using n unfolding kalloc_def by (subst kalloc_loop.simps) simp
  from kfree_kalloc [OF k] k show ?thesis by fastforce
qed

end
