(* ===== verification/Vmiter.thy ===== *)
theory Vmiter
  imports Kalloc
begin

text \<open>
  The page-table iterators of \<open>k-vmiter.hh\<close> and \<open>k-vmiter.cc\<close>. Page tables are bytes of physical
  memory. An iterator is a record of the class members; a method that changes members returns the
  updated iterator, and a method that can fail an assertion or panic returns a fault. The abstract
  view is \<open>translate\<close>, the four-level address translation of the processor.
\<close>

section \<open>vmiter\<close>

text \<open>
  \<open>pep_\<close> points into a page table, or at the constant \<open>zero_pe\<close>. \<open>level_\<close> is between 0 and 3.
  \<open>perm_\<close> is a 32-bit \<open>int\<close>, sign-extended where the source combines it with an entry.
\<close>

datatype pe_ptr = Zero_pe | Pe addr

record vmiter =
  vm_pt :: addr
  vm_pep :: pe_ptr
  vm_level :: nat
  vm_perm :: u32
  vm_va :: u64

fun deref :: "mem \<Rightarrow> pe_ptr \<Rightarrow> u64" where
  "deref m Zero_pe = 0"
| "deref m (Pe a) = ld64 m a"

abbreviation (input) initial_perm :: u32 where "initial_perm \<equiv> 0xFFF"

text \<open>The loop of \<open>vmiter::down\<close>: follow present, non-leaf entries.\<close>

primrec down_loop :: "mem \<Rightarrow> u64 \<Rightarrow> nat \<Rightarrow> pe_ptr \<Rightarrow> u32 \<Rightarrow> nat \<times> pe_ptr \<times> u32" where
  "down_loop m va 0 pep perm = (0, pep, perm)"
| "down_loop m va (Suc level) pep perm =
     (if deref m pep AND (PTE_P OR PTE_PS) = PTE_P
      then let perm' = ucast (scast perm AND deref m pep);
               pa = deref m pep AND PTE_PAMASK
           in down_loop m va level (Pe (entry_addr pa (pageindex va level))) perm'
      else (Suc level, pep, perm))"

definition vmiter_down :: "mem \<Rightarrow> vmiter \<Rightarrow> fault + vmiter" where
  "vmiter_down m it =
     (let (level, pep, perm) = down_loop m (vm_va it) (vm_level it) (vm_pep it) (vm_perm it)
      in if deref m pep AND PTE_PAMASK \<ge> 0x100000000 then Inl Panic
         else Inr (it\<lparr>vm_pep := pep, vm_level := level, vm_perm := perm\<rparr>))"

text \<open>
  \<open>real_find\<close>: start again from the top, or, when the new address lies in the same page-table page,
  move the entry pointer within that page. Moving a pointer to \<open>zero_pe\<close> would leave the object.
\<close>

definition real_find :: "mem \<Rightarrow> vmiter \<Rightarrow> u64 \<Rightarrow> fault + vmiter" where
  "real_find m it va =
     (if vm_level it = 3 \<or> (vm_va it XOR va) AND NOT (pageoffmask (vm_level it + 1)) \<noteq> 0
      then if va_is_canonical va
           then vmiter_down m (it\<lparr>vm_level := 3, vm_perm := initial_perm,
                  vm_pep := Pe (entry_addr (vm_pt it) (pageindex va 3)), vm_va := va\<rparr>)
           else vmiter_down m (it\<lparr>vm_level := 3, vm_perm := 0, vm_pep := Zero_pe, vm_va := va\<rparr>)
      else case vm_pep it of
             Zero_pe \<Rightarrow> Inl Out_of_bounds
           | Pe a \<Rightarrow>
               let curidx = int (unat (drop_bit 3 (a AND PAGEOFFMASK)));
                   a' = a + 8 * of_int (int (pageindex va (vm_level it)) - curidx)
               in vmiter_down m (it\<lparr>vm_pep := Pe a', vm_va := va\<rparr>))"

definition vmiter_init :: "mem \<Rightarrow> addr \<Rightarrow> u64 \<Rightarrow> fault + vmiter" where
  "vmiter_init m pt va =
     real_find m \<lparr>vm_pt = pt, vm_pep = Pe (entry_addr pt 0), vm_level = 3,
                  vm_perm = initial_perm, vm_va = 0\<rparr> va"

definition vm_last_va :: "vmiter \<Rightarrow> u64" where
  "vm_last_va it = (vm_va it OR pageoffmask (vm_level it)) + 1"

definition vm_low :: "vmiter \<Rightarrow> bool" where
  "vm_low it \<longleftrightarrow> vm_va it \<le> VA_LOWMAX"

definition vm_pa :: "mem \<Rightarrow> vmiter \<Rightarrow> u64" where
  "vm_pa m it =
     (if deref m (vm_pep it) AND PTE_P \<noteq> 0
      then let pa = deref m (vm_pep it) AND PTE_PAMASK;
               pa' = (if vm_level it > 0 then pa AND NOT 0x1000 else pa)
           in pa' + (vm_va it AND pageoffmask (vm_level it))
      else - 1)"

definition vm_perms :: "mem \<Rightarrow> vmiter \<Rightarrow> u64" where
  "vm_perms m it =
     (if deref m (vm_pep it) AND PTE_P \<noteq> 0 then deref m (vm_pep it) AND scast (vm_perm it) else 0)"

definition vm_has_perm :: "mem \<Rightarrow> vmiter \<Rightarrow> u64 \<Rightarrow> bool" where
  "vm_has_perm m it p \<longleftrightarrow> deref m (vm_pep it) AND scast (vm_perm it) AND p = p"

definition vm_present :: "mem \<Rightarrow> vmiter \<Rightarrow> bool" where
  "vm_present m it \<longleftrightarrow> deref m (vm_pep it) AND PTE_P \<noteq> 0"

definition vm_writable :: "mem \<Rightarrow> vmiter \<Rightarrow> bool" where
  "vm_writable m it \<longleftrightarrow> vm_has_perm m it (PTE_P OR PTE_W)"

definition vm_user :: "mem \<Rightarrow> vmiter \<Rightarrow> bool" where
  "vm_user m it \<longleftrightarrow> vm_has_perm m it (PTE_P OR PTE_U)"

definition vm_find :: "mem \<Rightarrow> vmiter \<Rightarrow> u64 \<Rightarrow> fault + vmiter" where
  "vm_find m it va = real_find m it va"

definition vm_plus :: "mem \<Rightarrow> vmiter \<Rightarrow> u64 \<Rightarrow> fault + vmiter" where
  "vm_plus m it delta = vm_find m it (vm_va it + delta)"

definition vm_minus :: "mem \<Rightarrow> vmiter \<Rightarrow> u64 \<Rightarrow> fault + vmiter" where
  "vm_minus m it delta = vm_find m it (vm_va it - delta)"

definition vm_next :: "mem \<Rightarrow> vmiter \<Rightarrow> fault + vmiter" where
  "vm_next m it =
     (let level = (if vm_level it > 0 \<and> vm_perms m it = 0 then vm_level it else 0)
      in real_find m it ((vm_va it OR pageoffmask level) + 1))"

definition vm_next_range :: "mem \<Rightarrow> vmiter \<Rightarrow> fault + vmiter" where
  "vm_next_range m it = real_find m it (vm_last_va it)"

section \<open>Installing mappings\<close>

text \<open>Storing through \<open>pep_\<close>; \<open>zero_pe\<close> is a constant object.\<close>

fun store_pe :: "mem \<Rightarrow> pe_ptr \<Rightarrow> u64 \<Rightarrow> fault + mem" where
  "store_pe m Zero_pe v = Inl Const_write"
| "store_pe m (Pe a) v = Inr (st64 m a v)"

lemma down_loop_level:
  "down_loop m va l pep perm = (l', pep', perm') \<Longrightarrow> l' \<le> l \<and> (l' = l \<longrightarrow> pep' = pep)"
proof (induction l arbitrary: pep perm)
  case 0
  then show ?case by simp
next
  case (Suc l)
  then show ?case by (fastforce simp: Let_def split: if_splits)
qed

lemma vmiter_down_level:
  "vmiter_down m it = Inr it' \<Longrightarrow>
   vm_level it' \<le> vm_level it \<and> (vm_level it' = vm_level it \<longrightarrow> vm_pep it' = vm_pep it)"
  by (auto simp: vmiter_down_def dest: down_loop_level split: prod.splits if_splits)

text \<open>
  The loop of \<open>try_map\<close> allocates the missing page-table pages with the page allocator \<open>alloc\<close>, which
  the kernel instantiates with \<open>kalloc\<close>. The first component of the result is 0 when the loop ends
  and -1 when the allocator fails.
\<close>

function try_map_loop ::
    "(kmem \<Rightarrow> addr \<times> kmem) \<Rightarrow> u32 \<Rightarrow> vmiter \<Rightarrow> kmem \<Rightarrow> fault + (int \<times> vmiter \<times> kmem)" where
  "try_map_loop alloc perm it s =
     (if vm_level it > 0 \<and> perm \<noteq> 0 then
        if deref (bytes s) (vm_pep it) AND PTE_P \<noteq> 0 then Inl Assert_fail
        else case alloc s of (pt, s1) \<Rightarrow>
          if pt = 0 then Inr (- 1, it, s1)
          else bindE (store_pe (memset (bytes s1) pt 0 PAGESIZE) (vm_pep it)
                        (pt OR PTE_P OR PTE_W OR PTE_U)) (\<lambda>m.
               bindE (vmiter_down m it) (\<lambda>it'.
               try_map_loop alloc perm it' (s1\<lparr>bytes := m\<rparr>)))
      else Inr (0, it, s))"
  by pat_completeness auto
termination
proof (relation "measure (\<lambda>(alloc, perm, it, s).
    2 * vm_level it + (if deref (bytes s) (vm_pep it) AND PTE_P = 0 then 1 else 0))", goal_cases)
  case 1
  then show ?case by simp
next
  case (2 alloc perm it s pt s1 m it')
  have v: "(pt OR PTE_P OR PTE_W OR PTE_U) AND PTE_P \<noteq> 0"
    by (simp only: bit.conj_disj_distrib2) (simp add: or_eq_0_word)
  from 2 obtain a where a: "vm_pep it = Pe a"
      "m = st64 (memset (bytes s1) pt 0 PAGESIZE) a (pt OR PTE_P OR PTE_W OR PTE_U)"
    by (cases "vm_pep it") auto
  then have "deref m (vm_pep it) AND PTE_P \<noteq> 0" using v by simp
  with 2 vmiter_down_level [of m it it'] show ?case by auto
qed

declare try_map_loop.simps [simp del]

definition try_map ::
    "(kmem \<Rightarrow> addr \<times> kmem) \<Rightarrow> vmiter \<Rightarrow> u64 \<Rightarrow> u32 \<Rightarrow> kmem \<Rightarrow> fault + (int \<times> vmiter \<times> kmem)" where
  "try_map alloc it pa0 perm s =
     (let pa = (if pa0 = - 1 \<and> perm = 0 then 0 else pa0) in
      bindE (guardE (vm_va it AND PAGEOFFMASK = 0) Assert_fail) (\<lambda>_.
      bindE (if scast perm AND PTE_P \<noteq> 0
             then guardE (pa \<noteq> - 1 \<and> pa AND PTE_PAMASK = pa) Assert_fail
             else guardE (pa AND PTE_P = 0) Assert_fail) (\<lambda>_.
      bindE (guardE (scast (perm AND NOT (vm_perm it)) AND (PTE_P OR PTE_W OR PTE_U) = 0)
               Assert_fail) (\<lambda>_.
      bindE (try_map_loop alloc perm it s) (\<lambda>(r, it', s').
        if r \<noteq> 0 then Inr (r, it', s')
        else if vm_level it' = 0
        then bindE (store_pe (bytes s') (vm_pep it') (pa OR scast perm))
               (\<lambda>m. Inr (0, it', s'\<lparr>bytes := m\<rparr>))
        else Inr (0, it', s'))))))"

definition vm_map ::
    "(kmem \<Rightarrow> addr \<times> kmem) \<Rightarrow> vmiter \<Rightarrow> u64 \<Rightarrow> u32 \<Rightarrow> kmem \<Rightarrow> fault + (vmiter \<times> kmem)" where
  "vm_map alloc it pa perm s =
     bindE (try_map alloc it pa perm s) (\<lambda>(r, it', s').
       bindE (guardE (r = 0) Assert_fail) (\<lambda>_. Inr (it', s')))"

section \<open>Address translation as the processor does it\<close>

text \<open>
  The four-level walk, written out: each level's entry is the one the address selects in the table
  that the level above names; an absent entry ends the walk with no translation, an entry with
  \<open>PTE_PS\<close> set above the last level is a large page. The permissions are those of every entry on
  the way. The result is the physical address and the low twelve permission bits.
\<close>

definition page_result :: "nat \<Rightarrow> u64 \<Rightarrow> u64 \<Rightarrow> u64 \<Rightarrow> u64 \<times> u64" where
  "page_result l e va perm =
     ((if l > 0 then e AND PTE_PAMASK AND NOT 0x1000 else e AND PTE_PAMASK) + pageoffset va l,
      0xFFF AND perm AND e)"

definition translate :: "mem \<Rightarrow> addr \<Rightarrow> u64 \<Rightarrow> (u64 \<times> u64) option" where
  "translate m root va =
     (let present = (\<lambda>e. e AND PTE_P \<noteq> 0);
          large = (\<lambda>e. e AND PTE_PS \<noteq> 0);
          entry = (\<lambda>t l. ld64 m (entry_addr t (pageindex va l)));
          e3 = entry root 3;
          e2 = entry (e3 AND PTE_PAMASK) 2;
          e1 = entry (e2 AND PTE_PAMASK) 1;
          e0 = entry (e1 AND PTE_PAMASK) 0
      in if \<not> va_is_canonical va then None
         else if \<not> present e3 then None
         else if large e3 then Some (page_result 3 e3 va (- 1))
         else if \<not> present e2 then None
         else if large e2 then Some (page_result 2 e2 va e3)
         else if \<not> present e1 then None
         else if large e1 then Some (page_result 1 e1 va (e3 AND e2))
         else if \<not> present e0 then None
         else Some (page_result 0 e0 va (e3 AND e2 AND e1)))"

text \<open>The same walk as a recursion over the levels, which the proofs use.\<close>

definition table_entry :: "u64 \<Rightarrow> bool" where
  "table_entry e \<longleftrightarrow> e AND (PTE_P OR PTE_PS) = PTE_P"

primrec walk :: "mem \<Rightarrow> u64 \<Rightarrow> nat \<Rightarrow> addr \<Rightarrow> u64 \<Rightarrow> nat \<times> addr \<times> u64" where
  "walk m va 0 t pm = (0, t, pm)"
| "walk m va (Suc l) t pm =
     (let e = ld64 m (entry_addr t (pageindex va (Suc l))) in
      if table_entry e then walk m va l (e AND PTE_PAMASK) (pm AND e) else (Suc l, t, pm))"

lemma table_entry_iff: "table_entry e \<longleftrightarrow> e AND PTE_P \<noteq> 0 \<and> e AND PTE_PS = 0"
proof -
  have p: "e AND PTE_P = (if bit e 0 then PTE_P else 0)" using and_exp_word [of e 0] by simp
  have ps: "e AND PTE_PS = (if bit e 7 then PTE_PS else 0)" using and_exp_word [of e 7] by simp
  have "e AND (PTE_P OR PTE_PS) = (e AND PTE_P) OR (e AND PTE_PS)"
    by (simp only: bit.conj_disj_distrib)
  then show ?thesis unfolding table_entry_def by (simp only: p ps) simp
qed

definition leaf_lookup :: "mem \<Rightarrow> u64 \<Rightarrow> nat \<times> addr \<times> u64 \<Rightarrow> (u64 \<times> u64) option" where
  "leaf_lookup m va w =
     (case w of (l, t, pm) \<Rightarrow>
        let e = ld64 m (entry_addr t (pageindex va l)) in
        if e AND PTE_P \<noteq> 0 then Some (page_result l e va pm) else None)"

lemma translate_walk:
  "translate m root va =
     (if va_is_canonical va then leaf_lookup m va (walk m va 3 root (- 1)) else None)"
  by (simp add: translate_def leaf_lookup_def table_entry_iff numeral_3_eq_3 numeral_2_eq_2 Let_def
      and.assoc)

section \<open>The iterator follows the walk\<close>

lemma perm_step:
  "ucast (scast (ucast (0xFFF AND pm) :: u32) AND (e :: u64)) = (ucast (0xFFF AND pm AND e) :: u32)"
  by (rule bit_word_eqI) (auto simp: bit_simps)

lemma scast_perm: "scast (ucast (0xFFF AND pm) :: u32) = 0xFFF AND (pm :: u64)"
proof -
  define x where "x = 0xFFF AND pm"
  have "x \<le> 0xFFF" unfolding x_def by (rule word_and_le2)
  then have x: "uint x \<le> 0xFFF" by (simp add: word_le_def)
  then have u: "uint (ucast x :: u32) = uint x"
    by (simp add: unsigned_ucast_eq take_bit_int_eq_self)
  then have "sint (ucast x :: u32) = uint x" using x by (subst sint_small) simp_all
  then have "(scast (ucast x :: u32) :: u64) = of_int (uint x)"
    by (metis scast_eq)
  then show ?thesis by (simp add: x_def)
qed

lemma down_loop_walk:
  "down_loop m va l (Pe (entry_addr t (pageindex va l))) (ucast (0xFFF AND pm)) =
     (case walk m va l t pm of
        (l', t', pm') \<Rightarrow> (l', Pe (entry_addr t' (pageindex va l')), ucast (0xFFF AND pm')))"
  by (induction l arbitrary: t pm) (simp_all add: Let_def table_entry_def perm_step)

lemma walk_level: "walk m va l t pm = (l', t', pm') \<Longrightarrow> l' \<le> l"
  by (induction l arbitrary: t pm) (auto simp: Let_def le_Suc_eq split: if_splits)

lemma walk_aligned: "walk m va l t pm = (l', t', pm') \<Longrightarrow> page_aligned t \<Longrightarrow> page_aligned t'"
  by (induction l arbitrary: t pm) (auto simp: Let_def split: if_splits)

text \<open>The iterator that a fresh walk produces, and the panic check of \<open>down\<close> on it.\<close>

definition fresh_iter :: "mem \<Rightarrow> addr \<Rightarrow> u64 \<Rightarrow> vmiter" where
  "fresh_iter m pt va =
     (if va_is_canonical va
      then case walk m va 3 pt (- 1) of (l, t, pm) \<Rightarrow>
        \<lparr>vm_pt = pt, vm_pep = Pe (entry_addr t (pageindex va l)), vm_level = l,
         vm_perm = ucast (0xFFF AND pm), vm_va = va\<rparr>
      else \<lparr>vm_pt = pt, vm_pep = Zero_pe, vm_level = 3, vm_perm = 0, vm_va = va\<rparr>)"

definition checked :: "mem \<Rightarrow> vmiter \<Rightarrow> fault + vmiter" where
  "checked m it =
     (if deref m (vm_pep it) AND PTE_PAMASK \<ge> 0x100000000 then Inl Panic else Inr it)"

lemma fresh_iter_sel [simp]:
  "vm_pt (fresh_iter m pt va) = pt" "vm_va (fresh_iter m pt va) = va"
  by (simp_all add: fresh_iter_def split: prod.split)

lemma real_find_top:
  assumes "vm_level it = 3 \<or> (vm_va it XOR va) AND NOT (pageoffmask (vm_level it + 1)) \<noteq> 0"
  shows "real_find m it va = checked m (fresh_iter m (vm_pt it) va)"
proof -
  have top: "down_loop m va 3 (Pe (entry_addr t (pageindex va 3))) 0xFFF =
      (case walk m va 3 t (- 1) of
         (l', t', pm') \<Rightarrow> (l', Pe (entry_addr t' (pageindex va l')), ucast (0xFFF AND pm')))" for t
    using down_loop_walk [of m va 3 t "- 1"] by simp
  have z: "down_loop m va 3 Zero_pe p = (3, Zero_pe, p)" for p by (simp add: numeral_3_eq_3)
  obtain l t pm where w: "walk m va 3 (vm_pt it) (- 1) = (l, t, pm)"
    by (cases "walk m va 3 (vm_pt it) (- 1)")
  show ?thesis
    using assms w
    by (cases it) (auto simp: real_find_def vmiter_down_def fresh_iter_def checked_def top z)
qed

lemma vmiter_init_fresh: "vmiter_init m pt va = checked m (fresh_iter m pt va)"
  by (simp add: vmiter_init_def real_find_top)

lemma walk_prefix:
  "walk m va k t0 pm0 = (l, t, pm) \<Longrightarrow> same_above (Suc l) va va' \<Longrightarrow>
   walk m va' k t0 pm0 = walk m va' l t pm"
proof (induction k arbitrary: t0 pm0)
  case 0
  then show ?case by simp
next
  case (Suc k)
  let ?e = "ld64 m (entry_addr t0 (pageindex va (Suc k)))"
  show ?case
  proof (cases "table_entry ?e")
    case True
    with Suc.prems(1) have w: "walk m va k (?e AND PTE_PAMASK) (pm0 AND ?e) = (l, t, pm)"
      by (simp add: Let_def)
    then have "l \<le> k" by (rule walk_level)
    then have "pageindex va (Suc k) = pageindex va' (Suc k)"
      using same_above_pageindex [OF Suc.prems(2)] by simp
    with True Suc.IH [OF w Suc.prems(2)] show ?thesis by (simp add: Let_def)
  next
    case False
    with Suc.prems show ?thesis by (auto simp: Let_def)
  qed
qed

lemma curidx_entry:
  assumes "page_aligned t" "i < 512"
  shows "entry_addr t i + 8 * of_int (int j - int (unat (drop_bit 3 (entry_addr t i AND PAGEOFFMASK))))
    = entry_addr t j"
proof -
  have "unat (drop_bit 3 (entry_addr t i AND PAGEOFFMASK)) = (unat t + 8 * i) mod 4096 div 8"
    using assms by (simp add: drop_bit_eq_div unat_div_distrib unat_and_pageoffmask unat_entry_addr)
  also have "\<dots> = i" using assms by (auto simp: page_aligned_iff elim!: dvdE)
  finally show ?thesis by (simp add: entry_addr_def algebra_simps)
qed

lemma real_find_fresh:
  assumes "page_aligned pt"
  shows "real_find m (fresh_iter m pt va) va' = checked m (fresh_iter m pt va')"
proof (cases "vm_level (fresh_iter m pt va) = 3 \<or>
    (va XOR va') AND NOT (pageoffmask (vm_level (fresh_iter m pt va) + 1)) \<noteq> 0")
  case True
  then show ?thesis by (simp add: real_find_top)
next
  case False
  then have can: "va_is_canonical va" by (auto simp: fresh_iter_def split: if_splits)
  obtain l t pm where w: "walk m va 3 pt (- 1) = (l, t, pm)" by (cases "walk m va 3 pt (- 1)")
  have it: "fresh_iter m pt va = \<lparr>vm_pt = pt, vm_pep = Pe (entry_addr t (pageindex va l)), vm_level = l,
         vm_perm = ucast (0xFFF AND pm), vm_va = va\<rparr>"
    using can w by (simp add: fresh_iter_def)
  from False have l: "l \<noteq> 3" and sa: "same_above (Suc l) va va'"
    using xor_outside_mask [of va va' "Suc l"] by (auto simp: it)
  have "l \<le> 3" using walk_level [OF w] .
  with l sa can have can': "va_is_canonical va'" using same_above_canonical [OF sa] by simp
  have "page_aligned t" using walk_aligned [OF w assms] .
  note idx = curidx_entry [OF this pageindex_less, of va l "pageindex va' l"]
  have "real_find m (fresh_iter m pt va) va' =
      vmiter_down m \<lparr>vm_pt = pt, vm_pep = Pe (entry_addr t (pageindex va' l)), vm_level = l,
         vm_perm = ucast (0xFFF AND pm), vm_va = va'\<rparr>"
    using False idx by (simp add: real_find_def it)
  also have "\<dots> = checked m (fresh_iter m pt va')"
    using walk_prefix [OF w sa] can'
    by (cases "walk m va' l t pm") (simp add: vmiter_down_def fresh_iter_def checked_def down_loop_walk split: prod.split)
  finally show ?thesis .
qed

section \<open>What the iterator reports\<close>

lemma leaf_fresh:
  assumes "va_is_canonical va" "walk m va 3 pt (- 1) = (l, t, pm)"
  shows "deref m (vm_pep (fresh_iter m pt va)) = ld64 m (entry_addr t (pageindex va l))"
    and "vm_level (fresh_iter m pt va) = l"
    and "scast (vm_perm (fresh_iter m pt va)) = 0xFFF AND pm"
  using assms by (simp_all add: fresh_iter_def scast_perm)

lemma fresh_noncanonical:
  "\<not> va_is_canonical va \<Longrightarrow>
   fresh_iter m pt va = \<lparr>vm_pt = pt, vm_pep = Zero_pe, vm_level = 3, vm_perm = 0, vm_va = va\<rparr>"
  by (simp add: fresh_iter_def)

lemma vm_pa_fresh:
  "vm_pa m (fresh_iter m pt va) = (case translate m pt va of None \<Rightarrow> - 1 | Some (pa, perm) \<Rightarrow> pa)"
proof (cases "va_is_canonical va")
  case True
  obtain l t pm where w: "walk m va 3 pt (- 1) = (l, t, pm)" by (cases "walk m va 3 pt (- 1)")
  from True w show ?thesis
    by (auto simp: vm_pa_def translate_walk leaf_lookup_def leaf_fresh page_result_def pageoffset_def
        Let_def and.assoc)
next
  case False
  then show ?thesis by (simp add: translate_walk fresh_noncanonical vm_pa_def)
qed

lemma vm_perms_fresh:
  "vm_perms m (fresh_iter m pt va) = (case translate m pt va of None \<Rightarrow> 0 | Some (pa, perm) \<Rightarrow> perm)"
proof (cases "va_is_canonical va")
  case True
  obtain l t pm where w: "walk m va 3 pt (- 1) = (l, t, pm)" by (cases "walk m va 3 pt (- 1)")
  from True w show ?thesis
    by (auto simp: vm_perms_def translate_walk leaf_lookup_def leaf_fresh page_result_def
        Let_def and.assoc and.commute and.left_commute)
next
  case False
  then show ?thesis by (simp add: translate_walk fresh_noncanonical vm_perms_def)
qed

lemma vm_present_fresh: "vm_present m (fresh_iter m pt va) \<longleftrightarrow> translate m pt va \<noteq> None"
proof (cases "va_is_canonical va")
  case True
  obtain l t pm where w: "walk m va 3 pt (- 1) = (l, t, pm)" by (cases "walk m va 3 pt (- 1)")
  from True w show ?thesis
    by (simp add: vm_present_def translate_walk leaf_lookup_def leaf_fresh Let_def)
next
  case False
  then show ?thesis by (simp add: translate_walk fresh_noncanonical vm_present_def)
qed

lemma and_subset_nonzero:
  fixes e x q :: "'a::len word"
  assumes "e AND x AND q = q" "q AND b = b"
  shows "e AND b = b"
proof -
  have "e AND b = (e AND q) AND b" using assms(2) by (simp add: and.assoc)
  also have "e AND q = q" using assms(1)
    by (metis and.assoc and.commute and.left_idem)
  finally show ?thesis using assms(2) by simp
qed

lemma vm_has_perm_fresh:
  assumes "q AND PTE_P = PTE_P" "q AND 0xFFF = q"
  shows "vm_has_perm m (fresh_iter m pt va) q \<longleftrightarrow>
    (\<exists>pa perm. translate m pt va = Some (pa, perm) \<and> perm AND q = q)"
proof (cases "va_is_canonical va")
  case True
  obtain l t pm where w: "walk m va 3 pt (- 1) = (l, t, pm)" by (cases "walk m va 3 pt (- 1)")
  let ?e = "ld64 m (entry_addr t (pageindex va l))"
  have "?e AND PTE_P \<noteq> 0" if "?e AND (0xFFF AND pm) AND q = q"
    using and_subset_nonzero [OF that assms(1)] by simp
  with True w show ?thesis
    by (auto simp: vm_has_perm_def translate_walk leaf_lookup_def leaf_fresh page_result_def Let_def
        and.assoc and.commute and.left_commute)
next
  case False
  then have "q \<noteq> 0" using assms(1) by auto
  with False show ?thesis by (simp add: translate_walk fresh_noncanonical vm_has_perm_def)
qed

end
