(* ===== verification/Page_Forest.thy ===== *)
theory Page_Forest
  imports Vmiter
begin

text \<open>
  Page tables as trees in physical memory. A node is a page-table page, named by its root and the
  indices that lead to it (deepest first). A set of roots is a \<open>forest\<close> when no page-table page is
  reached twice, within one tree or from two roots. The section shows what a store into one entry
  does to every tree of the forest: a store into a last-level entry changes one translation, and
  linking a new, zeroed page changes none.
\<close>

section \<open>Nodes\<close>

primrec pt_node :: "mem \<Rightarrow> addr \<Rightarrow> nat list \<Rightarrow> addr option" where
  "pt_node m r [] = Some r"
| "pt_node m r (i # p) =
     (case pt_node m r p of
        None \<Rightarrow> None
      | Some t \<Rightarrow> let e = ld64 m (entry_addr t i) in
                 if table_entry e then Some (e AND PTE_PAMASK) else None)"

definition valid_path :: "nat list \<Rightarrow> bool" where
  "valid_path p \<longleftrightarrow> length p \<le> 3 \<and> (\<forall>i \<in> set p. i < 512)"

text \<open>The path of the page-table page that \<open>va\<close> uses at level \<open>l\<close>.\<close>

definition vpath :: "u64 \<Rightarrow> nat \<Rightarrow> nat list" where
  "vpath va l = map (pageindex va) [Suc l..<4]"

definition forest :: "mem \<Rightarrow> addr set \<Rightarrow> bool" where
  "forest m R \<longleftrightarrow>
     (\<forall>r \<in> R. page_aligned r)
     \<and> (\<forall>r \<in> R. \<forall>r' \<in> R. \<forall>p p' t. valid_path p \<longrightarrow> valid_path p' \<longrightarrow>
          pt_node m r p = Some t \<longrightarrow> pt_node m r' p' = Some t \<longrightarrow> r = r' \<and> p = p')"

definition tables :: "mem \<Rightarrow> addr set \<Rightarrow> addr set" where
  "tables m R = {t. \<exists>r \<in> R. \<exists>p. valid_path p \<and> pt_node m r p = Some t}"

lemma valid_path_Cons [simp]: "valid_path (i # p) \<longleftrightarrow> i < 512 \<and> length p \<le> 2 \<and> valid_path p"
  by (auto simp: valid_path_def)

lemma valid_path_Nil [simp]: "valid_path []"
  by (simp add: valid_path_def)

lemma valid_vpath [simp]: "valid_path (vpath va l)"
  by (auto simp: valid_path_def vpath_def)

lemma length_vpath [simp]: "length (vpath va l) = 3 - l"
  by (simp add: vpath_def)

lemma vpath_3 [simp]: "vpath va 3 = []"
  by (simp add: vpath_def)

lemma vpath_step: "l < 3 \<Longrightarrow> vpath va l = pageindex va (Suc l) # vpath va (Suc l)"
  by (simp add: vpath_def upt_conv_Cons)

lemma vpath_eq_iff:
  "vpath va l = vpath va' l \<longleftrightarrow> (\<forall>k. l < k \<and> k \<le> 3 \<longrightarrow> pageindex va k = pageindex va' k)"
  by (auto simp: vpath_def)

lemma forest_aligned: "forest m R \<Longrightarrow> r \<in> R \<Longrightarrow> page_aligned r"
  by (simp add: forest_def)

lemma forest_inj:
  "forest m R \<Longrightarrow> r \<in> R \<Longrightarrow> r' \<in> R \<Longrightarrow> valid_path p \<Longrightarrow> valid_path p' \<Longrightarrow>
   pt_node m r p = Some t \<Longrightarrow> pt_node m r' p' = Some t \<Longrightarrow> r = r' \<and> p = p'"
  by (simp add: forest_def)

lemma pt_node_aligned: "page_aligned r \<Longrightarrow> pt_node m r p = Some t \<Longrightarrow> page_aligned t"
  by (cases p) (auto simp: Let_def split: option.splits if_splits)

lemma tablesI: "r \<in> R \<Longrightarrow> valid_path p \<Longrightarrow> pt_node m r p = Some t \<Longrightarrow> t \<in> tables m R"
  by (auto simp: tables_def)

lemma root_in_tables: "r \<in> R \<Longrightarrow> r \<in> tables m R"
  by (rule tablesI [of _ _ "[]"]) auto

lemma tables_aligned: "forest m R \<Longrightarrow> t \<in> tables m R \<Longrightarrow> page_aligned t"
  by (auto simp: tables_def intro: pt_node_aligned dest: forest_aligned)

section \<open>Walks along nodes\<close>

lemma walk_node:
  "pt_node m r (vpath va l) = Some t \<Longrightarrow> l \<le> 3 \<Longrightarrow> walk m va l t pm = (l', t', pm') \<Longrightarrow>
   pt_node m r (vpath va l') = Some t'
   \<and> (l' > 0 \<longrightarrow> \<not> table_entry (ld64 m (entry_addr t' (pageindex va l'))))"
proof (induction l arbitrary: t pm)
  case 0
  then show ?case by simp
next
  case (Suc l)
  let ?e = "ld64 m (entry_addr t (pageindex va (Suc l)))"
  show ?case
  proof (cases "table_entry ?e")
    case True
    then have "pt_node m r (vpath va l) = Some (?e AND PTE_PAMASK)"
      using Suc.prems by (simp add: vpath_step Let_def)
    then show ?thesis using True Suc.prems Suc.IH by (simp add: Let_def)
  next
    case False
    with Suc.prems show ?thesis by (auto simp: Let_def)
  qed
qed

text \<open>A walk in a second memory whose entries above level \<open>L\<close> agree takes the same way down to \<open>L\<close>.\<close>

lemma walk_agree:
  "walk m va k t0 pm0 = (L, t, pm) \<Longrightarrow> pt_node m r (vpath va k) = Some t0 \<Longrightarrow> k \<le> 3 \<Longrightarrow>
   (\<And>l t'. L < l \<Longrightarrow> l \<le> k \<Longrightarrow> pt_node m r (vpath va l) = Some t' \<Longrightarrow>
      ld64 m' (entry_addr t' (pageindex va l)) = ld64 m (entry_addr t' (pageindex va l))) \<Longrightarrow>
   walk m' va k t0 pm0 = walk m' va L t pm"
proof (induction k arbitrary: t0 pm0)
  case 0
  then show ?case by simp
next
  case (Suc k)
  let ?e = "ld64 m (entry_addr t0 (pageindex va (Suc k)))"
  show ?case
  proof (cases "table_entry ?e")
    case True
    with Suc.prems(1) have w: "walk m va k (?e AND PTE_PAMASK) (pm0 AND ?e) = (L, t, pm)"
      by (simp add: Let_def)
    have n: "pt_node m r (vpath va k) = Some (?e AND PTE_PAMASK)"
      using True Suc.prems(2,3) by (simp add: vpath_step Let_def)
    have "ld64 m' (entry_addr t0 (pageindex va (Suc k))) = ?e"
      using Suc.prems(2,4) walk_level [OF w] by simp
    then have "walk m' va (Suc k) t0 pm0 = walk m' va k (?e AND PTE_PAMASK) (pm0 AND ?e)"
      using True by (simp add: Let_def)
    also have "\<dots> = walk m' va L t pm"
      using Suc.prems(3,4) by (intro Suc.IH [OF w n]) auto
    finally show ?thesis .
  next
    case False
    with Suc.prems(1) show ?thesis by (auto simp: Let_def)
  qed
qed

lemma walk_stops:
  "L > 0 \<Longrightarrow> \<not> table_entry (ld64 m (entry_addr t (pageindex va L))) \<Longrightarrow> walk m va L t pm = (L, t, pm)"
  by (cases L) (auto simp: Let_def)

section \<open>A store into one entry\<close>

lemma entry_store:
  assumes "forest m R" "r \<in> R" "valid_path p" "pt_node m r p = Some t" "i < 512"
    "r' \<in> R" "valid_path p'" "pt_node m r' p' = Some t'" "i' < 512"
  shows "ld64 (st64 m (entry_addr t i) v) (entry_addr t' i') =
    (if r' = r \<and> p' = p \<and> i' = i then v else ld64 m (entry_addr t' i'))"
proof -
  have al: "page_aligned t" "page_aligned t'"
    using assms pt_node_aligned forest_aligned by blast+
  have "t = t' \<longleftrightarrow> r' = r \<and> p' = p"
    using assms forest_inj [OF assms(1)] by (metis option.inject)
  then show ?thesis using assms(5,9) al by (auto simp: ld64_st64_entry)
qed

text \<open>Stores into last-level tables leave every node in place.\<close>

lemma leaf_store_node:
  assumes "forest m R" "r \<in> R" "valid_path p" "length p = 3" "pt_node m r p = Some t" "i < 512"
  shows "r' \<in> R \<Longrightarrow> valid_path q \<Longrightarrow> pt_node (st64 m (entry_addr t i) v) r' q = pt_node m r' q"
proof (induction q)
  case Nil
  then show ?case by simp
next
  case (Cons j q)
  have "q \<noteq> p" using Cons.prems assms(4) by auto
  then have "ld64 (st64 m (entry_addr t i) v) (entry_addr t' j) = ld64 m (entry_addr t' j)"
    if "pt_node m r' q = Some t'" for t'
    using entry_store [OF assms(1,2,3,5,6), of r' q t' j] that Cons.prems by simp
  with Cons show ?case by (auto simp: Let_def split: option.split)
qed

lemma leaf_store_forest:
  assumes "forest m R" "r \<in> R" "valid_path p" "length p = 3" "pt_node m r p = Some t" "i < 512"
  shows "forest (st64 m (entry_addr t i) v) R" "tables (st64 m (entry_addr t i) v) R = tables m R"
proof -
  note n = leaf_store_node [OF assms, of _ _ v]
  show "forest (st64 m (entry_addr t i) v) R"
    using assms(1) n unfolding forest_def by simp
  show "tables (st64 m (entry_addr t i) v) R = tables m R"
    unfolding tables_def by (intro Collect_cong bex_cong ex_cong1 conj_cong refl) (simp add: n)
qed

lemma walk_top_node:
  "walk m va 3 r pm0 = (l, t, pm) \<Longrightarrow>
   pt_node m r (vpath va l) = Some t \<and> l \<le> 3
   \<and> (l > 0 \<longrightarrow> \<not> table_entry (ld64 m (entry_addr t (pageindex va l))))"
  using walk_node [of m r va 3 r] walk_level by auto

lemma indices_same_above:
  assumes "va_is_canonical va" "va_is_canonical va'"
  shows "vpath va 0 = vpath va' 0 \<and> pageindex va 0 = pageindex va' 0 \<longleftrightarrow> same_above 0 va va'"
proof
  assume eq: "vpath va 0 = vpath va' 0 \<and> pageindex va 0 = pageindex va' 0"
  have "\<forall>l \<le> 3. pageindex va l = pageindex va' l"
    using eq by (auto simp: vpath_eq_iff) (metis gr0I)
  then show "same_above 0 va va'" using same_page_indices assms by blast
next
  assume "same_above 0 va va'"
  then show "vpath va 0 = vpath va' 0 \<and> pageindex va 0 = pageindex va' 0"
    using same_above_pageindex [of 0 va va'] by (auto simp: vpath_eq_iff)
qed

lemma leaf_store_walk:
  assumes f: "forest m R" "r \<in> R" and n: "pt_node m r (vpath va 0) = Some t" and r': "r' \<in> R"
  shows "walk (st64 m (entry_addr t (pageindex va 0)) v) va' 3 r' pm0 = walk m va' 3 r' pm0"
proof -
  let ?m' = "st64 m (entry_addr t (pageindex va 0)) v"
  obtain l t' pm' where w': "walk m va' 3 r' pm0 = (l, t', pm')" by (cases "walk m va' 3 r' pm0")
  note n' = walk_top_node [OF w']
  have above: "ld64 ?m' (entry_addr t0 (pageindex va' k)) = ld64 m (entry_addr t0 (pageindex va' k))"
    if "0 < k" "k \<le> 3" "pt_node m r' (vpath va' k) = Some t0" for k t0
  proof -
    have "vpath va' k \<noteq> vpath va 0" using that(1,2) by (auto dest!: arg_cong [of _ _ length])
    then show ?thesis
      using entry_store [OF f valid_vpath n pageindex_less r' valid_vpath that(3) pageindex_less]
      by simp
  qed
  have "walk ?m' va' 3 r' pm0 = walk ?m' va' l t' pm'"
    using above by (intro walk_agree [OF w', of r']) auto
  also have "\<dots> = (l, t', pm')"
    using above [of l t'] n' by (cases "l = 0") (auto intro: walk_stops)
  finally show ?thesis using w' by simp
qed

lemma leaf_store_translate:
  assumes f: "forest m R" "r \<in> R" and va: "va_is_canonical va"
    and w: "walk m va 3 r (- 1) = (0, t, pm)" and r': "r' \<in> R"
  shows "translate (st64 m (entry_addr t (pageindex va 0)) v) r' va' =
    (if r' = r \<and> same_above 0 va va'
     then if v AND PTE_P \<noteq> 0 then Some (page_result 0 v va' pm) else None
     else translate m r' va')"
proof (cases "va_is_canonical va'")
  case False
  then have "\<not> same_above 0 va va'" using va same_above_canonical [of 0 va va'] by auto
  with False show ?thesis by (simp add: translate_walk)
next
  case can: True
  let ?m' = "st64 m (entry_addr t (pageindex va 0)) v"
  have n: "pt_node m r (vpath va 0) = Some t" using walk_top_node [OF w] by simp
  obtain l t' pm' where w': "walk m va' 3 r' (- 1) = (l, t', pm')" by (cases "walk m va' 3 r' (- 1)")
  note n' = walk_top_node [OF w']
  note w2 = leaf_store_walk [OF f n r', of v va' "- 1"]
  show ?thesis
  proof (cases "r' = r \<and> same_above 0 va va'")
    case True
    then have "vpath va 0 = vpath va' 0 \<and> pageindex va 0 = pageindex va' 0"
      using indices_same_above va can by blast
    moreover have "walk m va' 3 r (- 1) = (0, t, pm)"
      using walk_prefix [OF w, of va'] True same_above_mono [of 0 va va' "Suc 0"] by simp
    ultimately show ?thesis
      using True w2 w' can by (simp add: translate_walk leaf_lookup_def Let_def)
  next
    case False
    moreover have "l = 0" if "vpath va' l = vpath va 0"
      using arg_cong [OF that, of length] n' by simp
    ultimately have "\<not> (r' = r \<and> vpath va' l = vpath va 0 \<and> pageindex va' l = pageindex va 0)"
      using indices_same_above [OF va can] by metis
    moreover have "pt_node m r' (vpath va' l) = Some t'" using n' by simp
    ultimately have "ld64 ?m' (entry_addr t' (pageindex va' l)) = ld64 m (entry_addr t' (pageindex va' l))"
      using entry_store [OF f valid_vpath n pageindex_less r' valid_vpath _ pageindex_less,
          of va' l t' va 0 v va' l] by auto
    with False w2 w' can show ?thesis
      by (auto simp: translate_walk leaf_lookup_def Let_def)
  qed
qed

lemma walk_same_page: "same_above 0 va va' \<Longrightarrow> walk m va' k t pm = walk m va k t pm"
  by (induction k arbitrary: t pm) (simp_all add: Let_def same_above_pageindex [of 0 va va'])

lemma translate_same_page:
  assumes "same_above 0 va va'"
  shows "translate m r va' = None \<longleftrightarrow> translate m r va = None"
  using same_above_canonical [OF assms] same_above_pageindex [OF assms]
  by (simp add: translate_walk walk_same_page [OF assms] leaf_lookup_def Let_def split: prod.split)

section \<open>Linking a new page-table page\<close>

abbreviation link_entry :: "addr \<Rightarrow> u64" where
  "link_entry n \<equiv> n OR PTE_P OR PTE_W OR PTE_U"

lemma page_aligned_and: "page_aligned n \<Longrightarrow> x AND PAGEOFFMASK = x \<Longrightarrow> n AND x = 0"
proof -
  assume n: "page_aligned n" and x: "x AND PAGEOFFMASK = x"
  have "n AND x = n AND (x AND PAGEOFFMASK)" by (simp only: x)
  also have "\<dots> = (n AND PAGEOFFMASK) AND x" by (simp only: and.assoc and.commute [of x])
  finally show ?thesis using n by (simp add: page_aligned_def)
qed

lemma aligned_small_pamask:
  assumes "page_aligned n" "n < 0x100000000"
  shows "n AND PTE_PAMASK = n"
proof -
  have "unat n < 2 ^ 32" using assms(2) by (simp add: word_less_nat_alt)
  then have "take_bit 32 n = n"
    by (simp add: word_unat_eq_iff unsigned_take_bit_eq take_bit_nat_eq_self)
  then have n: "n = n AND 0xFFFFFFFF" by (simp add: take_bit_eq_mask mask_eq_exp_minus_1)
  have "n AND PTE_PAMASK = (n AND 0xFFFFFFFF) AND PTE_PAMASK" using n by simp
  also have "\<dots> = (n AND NOT PAGEOFFMASK) AND 0xFFFFFFFF" by (simp add: and.assoc)
  also have "n AND NOT PAGEOFFMASK = n" using page_base_aligned [OF assms(1)] by (simp add: page_base_def)
  also have "n AND 0xFFFFFFFF = n" using n by simp
  finally show ?thesis by simp
qed

lemma link_entry_facts:
  assumes "page_aligned n" "n < 0x100000000"
  shows "table_entry (link_entry n)" "link_entry n AND PTE_PAMASK = n" "link_entry n AND 7 = 7"
proof -
  have "n AND PTE_PS = 0" "n AND PTE_P = 0" "n AND 7 = 0"
    using page_aligned_and [OF assms(1)] by simp_all
  then show "table_entry (link_entry n)" "link_entry n AND 7 = 7"
    by (simp_all add: table_entry_iff bit.conj_disj_distrib2)
  show "link_entry n AND PTE_PAMASK = n"
    using aligned_small_pamask [OF assms] by (simp add: bit.conj_disj_distrib2)
qed

text \<open>
  \<open>linked m m' R r p i n\<close>: \<open>m'\<close> is \<open>m\<close> with the free page \<open>n\<close> zeroed and entry \<open>i\<close> of the node at
  \<open>p\<close>, which did not name a table, pointing at it.
\<close>

definition linked :: "mem \<Rightarrow> mem \<Rightarrow> addr set \<Rightarrow> addr \<Rightarrow> nat list \<Rightarrow> nat \<Rightarrow> addr \<Rightarrow> bool" where
  "linked m m' R r p i n \<longleftrightarrow>
     forest m R \<and> r \<in> R \<and> valid_path (i # p) \<and> page_aligned n \<and> n < 0x100000000 \<and> n \<notin> tables m R
     \<and> (\<exists>t m1. pt_node m r p = Some t \<and> ld64 m (entry_addr t i) AND PTE_P = 0
          \<and> (\<forall>a. m1 a = (if page_base a = n then 0 else m a))
          \<and> m' = st64 m1 (entry_addr t i) (link_entry n))"

lemma linked_entry:
  assumes "linked m m' R r p i n" "r' \<in> R" "valid_path q" "pt_node m r' q = Some t'" "j < 512"
  shows "ld64 m' (entry_addr t' j) =
    (if r' = r \<and> q = p \<and> j = i then link_entry n else ld64 m (entry_addr t' j))"
proof -
  from assms(1) obtain t m1 where t: "pt_node m r p = Some t"
      and m1: "\<forall>a. m1 a = (if page_base a = n then 0 else m a)"
      and m': "m' = st64 m1 (entry_addr t i) (link_entry n)"
      and f: "forest m R" "r \<in> R" "i < 512" "valid_path p" "n \<notin> tables m R"
    by (auto simp: linked_def)
  have al: "page_aligned t" "page_aligned t'"
    using assms t f pt_node_aligned forest_aligned by blast+
  have eq: "t = t' \<longleftrightarrow> r' = r \<and> q = p"
    using assms t f forest_inj [OF f(1)] by (metis option.inject)
  have "t' \<noteq> n" using f assms tablesI by blast
  then have "ld64 m1 (entry_addr t' j) = ld64 m (entry_addr t' j)"
    using m1 al assms(5) by (intro ld64_page_cong) auto
  then show ?thesis using al eq f assms(5) by (auto simp: m' ld64_st64_entry)
qed

lemma linked_new_zero:
  assumes "linked m m' R r p i n" "j < 512"
  shows "ld64 m' (entry_addr n j) = 0"
proof -
  from assms(1) obtain t m1 where t: "pt_node m r p = Some t"
      and m1: "\<forall>a. m1 a = (if page_base a = n then 0 else m a)"
      and m': "m' = st64 m1 (entry_addr t i) (link_entry n)"
      and f: "forest m R" "r \<in> R" "i < 512" "valid_path p" "n \<notin> tables m R" "page_aligned n"
    by (auto simp: linked_def)
  have "page_aligned t" "t \<noteq> n"
    using t f pt_node_aligned forest_aligned tablesI by blast+
  then show ?thesis
    using f m1 assms(2) ld64_zero_page [of n m1 j] by (simp add: m' ld64_st64_entry)
qed

lemma linked_node:
  assumes lk: "linked m m' R r p i n" and r': "r' \<in> R"
  shows "valid_path q \<Longrightarrow> pt_node m' r' q =
    (if r' = r \<and> (\<exists>z. q = z @ i # p) then if q = i # p then Some n else None else pt_node m r' q)"
proof (induction q)
  case Nil
  then show ?case by simp
next
  case (Cons j q)
  from lk obtain t where n: "pt_node m r p = Some t" "page_aligned n" "n < 0x100000000"
    by (auto simp: linked_def)
  note fs = link_entry_facts [OF n(2,3)]
  show ?case
  proof (cases "r' = r \<and> (\<exists>z. q = z @ i # p)")
    case True
    then obtain z where z: "q = z @ i # p" by auto
    then have "j # q \<noteq> i # p" "\<exists>z. j # q = z @ i # p"
      by (auto intro: exI [of _ "j # z"])
    moreover have "\<not> table_entry 0" by (simp add: table_entry_iff)
    ultimately show ?thesis
      using True Cons linked_new_zero [OF lk] by (auto simp: Let_def)
  next
    case False
    then have IH: "pt_node m' r' q = pt_node m r' q" using Cons by auto
    have ext: "r' = r \<and> (\<exists>z. j # q = z @ i # p) \<longleftrightarrow> r' = r \<and> j = i \<and> q = p"
      using False by (auto simp: Cons_eq_append_conv)
    show ?thesis
    proof (cases "pt_node m r' q")
      case None
      then show ?thesis using IH ext n(1) by auto
    next
      case (Some t')
      then show ?thesis
        using IH ext fs linked_entry [OF lk r' _ Some, of j] Cons.prems by (auto simp: Let_def)
    qed
  qed
qed

lemma pt_node_None_append: "pt_node m r q = None \<Longrightarrow> pt_node m r (z @ q) = None"
  by (induction z) auto

lemma linked_old_None:
  assumes "linked m m' R r p i n"
  shows "pt_node m r (z @ i # p) = None"
  using assms by (intro pt_node_None_append) (auto simp: linked_def table_entry_iff)

lemma linked_new_node:
  assumes "linked m m' R r p i n"
  shows "pt_node m' r (i # p) = Some n"
proof -
  have "r \<in> R" "valid_path (i # p)" using assms by (auto simp: linked_def)
  moreover have "\<exists>z. i # p = z @ i # p" by (rule exI [of _ "[]"]) simp
  ultimately show ?thesis using linked_node [OF assms, of r "i # p"] by (simp only:) simp
qed

lemma linked_forest:
  assumes lk: "linked m m' R r p i n"
  shows "forest m' R" and "tables m' R = insert n (tables m R)"
proof -
  have f: "forest m R" and nt: "n \<notin> tables m R" and v: "valid_path (i # p)" "r \<in> R"
    using lk by (auto simp: linked_def)
  note nd = linked_node [OF lk]
  have old: "r1 = r \<and> q = i # p \<and> t = n \<or> pt_node m r1 q = Some t \<and> t \<noteq> n"
    if "r1 \<in> R" "valid_path q" "pt_node m' r1 q = Some t" for r1 q t
    using that nd [OF that(1,2)] nt tablesI [OF that(1,2)] by (auto split: if_splits)
  show "forest m' R"
    unfolding forest_def
  proof (intro conjI ballI allI impI)
    fix r1 r2 q1 q2 t
    assume "r1 \<in> R" "r2 \<in> R" "valid_path q1" "valid_path q2"
      "pt_node m' r1 q1 = Some t" "pt_node m' r2 q2 = Some t"
    then show "r1 = r2" "q1 = q2"
      using old [of r1 q1 t] old [of r2 q2 t] forest_inj [OF f, of r1 r2 q1 q2 t] by auto
  qed (use f in \<open>auto simp: forest_def\<close>)
  show "tables m' R = insert n (tables m R)"
  proof
    show "tables m' R \<subseteq> insert n (tables m R)"
      unfolding tables_def using old by fastforce
    have "pt_node m' r1 q = Some t" if "r1 \<in> R" "valid_path q" "pt_node m r1 q = Some t" for r1 q t
    proof -
      have "\<not> (r1 = r \<and> (\<exists>z. q = z @ i # p))" using that(3) linked_old_None [OF lk] by auto
      then show ?thesis using that(3) nd [OF that(1,2)] by (simp only: if_False)
    qed
    moreover have "pt_node m' r (i # p) = Some n" by (rule linked_new_node [OF lk])
    ultimately show "insert n (tables m R) \<subseteq> tables m' R"
      using v unfolding tables_def by blast
  qed
qed

lemma pt_node_above:
  assumes "pt_node m r (vpath va a) = Some t" "a \<le> b" "b \<le> 3"
  obtains t' where "pt_node m r (vpath va b) = Some t'"
proof -
  have "[Suc a..<4] = [Suc a..<Suc b] @ [Suc b..<4]"
    using assms(2,3) upt_add_eq_append [of "Suc a" "Suc b" "3 - b"] by simp
  then have "vpath va a = map (pageindex va) [Suc a..<Suc b] @ vpath va b"
    by (simp add: vpath_def)
  then have "pt_node m r (vpath va b) \<noteq> None"
    using assms(1) pt_node_None_append by (metis option.discI)
  then show thesis using that by auto
qed

lemma pt_node_below:
  assumes "pt_node m r (vpath va l) = Some t" "\<not> table_entry (ld64 m (entry_addr t (pageindex va l)))"
    "k < l" "l \<le> 3"
  shows "pt_node m r (vpath va k) = None"
proof (rule ccontr)
  assume "pt_node m r (vpath va k) \<noteq> None"
  then obtain u where u: "pt_node m r (vpath va k) = Some u" by auto
  obtain t' where "pt_node m r (vpath va (l - 1)) = Some t'"
    by (rule pt_node_above [OF u, of "l - 1"]) (use assms(3,4) in auto)
  moreover have "vpath va (l - 1) = pageindex va l # vpath va l"
    using vpath_step [of "l - 1" va] assms(3,4) by simp
  ultimately show False using assms(1,2) by (simp add: Let_def)
qed

lemma walk_unique:
  assumes w: "walk m va 3 r pm0 = (l, t, pm)"
    and L: "pt_node m r (vpath va L) = Some t'" "L \<le> 3"
      "L > 0 \<longrightarrow> \<not> table_entry (ld64 m (entry_addr t' (pageindex va L)))"
  shows "l = L \<and> t = t'"
proof -
  note n = walk_top_node [OF w]
  have "\<not> L < l" using n L(1) pt_node_below [of m r va l t L] by auto
  moreover have "\<not> l < L" using n L pt_node_below [of m r va L t' l] by auto
  ultimately show ?thesis using n L(1) by auto
qed

text \<open>Linking an empty table below an absent entry changes no translation.\<close>

lemma linked_translate:
  assumes lk: "linked m m' R r (vpath va L) (pageindex va L) n" and L: "0 < L" "L \<le> 3"
    and r': "r' \<in> R"
  shows "translate m' r' va' = translate m r' va'"
proof -
  obtain l t' pm' where w: "walk m va' 3 r' (- 1) = (l, t', pm')" by (cases "walk m va' 3 r' (- 1)")
  note n' = walk_top_node [OF w]
  obtain t where t: "pt_node m r (vpath va L) = Some t" "ld64 m (entry_addr t (pageindex va L)) AND PTE_P = 0"
    using lk by (auto simp: linked_def)
  then have nt: "\<not> table_entry (ld64 m (entry_addr t (pageindex va L)))" by (simp add: table_entry_iff)
  show ?thesis
  proof (cases "r' = r \<and> vpath va' L = vpath va L \<and> pageindex va' L = pageindex va L")
    case True
    have "l = L \<and> t' = t" using True t nt L by (intro walk_unique [OF w]) auto
    then have old: "leaf_lookup m va' (walk m va' 3 r' (- 1)) = None"
      using w t True by (simp add: leaf_lookup_def)
    obtain l2 t2 pm2 where w2: "walk m' va' 3 r' (- 1) = (l2, t2, pm2)"
      by (cases "walk m' va' 3 r' (- 1)")
    have path: "vpath va' (L - 1) = pageindex va L # vpath va L"
      using vpath_step [of "L - 1" va'] L True by simp
    have "pt_node m' r' (vpath va' (L - 1)) = Some n"
      using linked_new_node [OF lk] True by (simp only: path)
    then have "l2 = L - 1 \<and> t2 = n"
      using L linked_new_zero [OF lk] by (intro walk_unique [OF w2]) (auto simp: table_entry_iff)
    then have "leaf_lookup m' va' (walk m' va' 3 r' (- 1)) = None"
      using w2 linked_new_zero [OF lk] by (simp add: leaf_lookup_def)
    with old show ?thesis by (simp add: translate_walk)
  next
    case False
    have same: "ld64 m' (entry_addr t0 (pageindex va' k)) = ld64 m (entry_addr t0 (pageindex va' k))"
      if "k \<le> 3" "pt_node m r' (vpath va' k) = Some t0" for k t0
    proof -
      have "k = L" if "vpath va' k = vpath va L"
        using arg_cong [OF that, of length] \<open>k \<le> 3\<close> L by simp
      then show ?thesis
        using False linked_entry [OF lk r' valid_vpath that(2) pageindex_less] by auto
    qed
    have "walk m' va' 3 r' (- 1) = walk m' va' l t' pm'"
      using same by (intro walk_agree [OF w, of r']) auto
    also have "\<dots> = (l, t', pm')"
      using n' same [of l t'] by (cases "l = 0") (auto intro: walk_stops)
    finally show ?thesis
      using w same [of l t'] n' by (auto simp: translate_walk leaf_lookup_def Let_def)
  qed
qed

lemma linked_walk:
  assumes lk: "linked m m' R r (vpath va L) (pageindex va L) n"
    and w: "walk m va 3 r (- 1) = (L, t, pm)" and L: "0 < L"
  shows "walk m' va 3 r (- 1) = walk m' va L t pm"
    and "walk m' va L t pm = (L - 1, n, pm AND link_entry n)"
proof -
  have n: "pt_node m r (vpath va L) = Some t" "L \<le> 3" using walk_top_node [OF w] by auto
  have r: "r \<in> R" and al: "page_aligned n" "n < 0x100000000" using lk by (auto simp: linked_def)
  note en = linked_entry [OF lk r valid_vpath _ pageindex_less]
  have "vpath va k \<noteq> vpath va L" if "L < k" "k \<le> 3" for k
    using that n(2) by (auto dest!: arg_cong [of _ _ length])
  then show "walk m' va 3 r (- 1) = walk m' va L t pm"
    using en by (intro walk_agree [OF w, of r]) auto
  have e: "ld64 m' (entry_addr t (pageindex va L)) = link_entry n" using en [OF n(1)] by simp
  obtain l where l: "L = Suc l" using L by (cases L) auto
  have "walk m' va L t pm = walk m' va l n (pm AND link_entry n)"
    using e link_entry_facts [OF al] by (simp add: l Let_def)
  also have "\<dots> = (l, n, pm AND link_entry n)"
    using linked_new_zero [OF lk] by (cases l) (simp_all add: table_entry_iff Let_def)
  finally show "walk m' va L t pm = (L - 1, n, pm AND link_entry n)" by (simp add: l)
qed

lemma linked_down:
  assumes lk: "linked m m' R r (vpath va L) (pageindex va L) n"
    and w: "walk m va 3 r (- 1) = (L, t, pm)" and L: "0 < L" and va: "va_is_canonical va"
  shows "vmiter_down m' (fresh_iter m r va) = Inr (fresh_iter m' r va)"
    and "scast (vm_perm (fresh_iter m' r va)) AND 7 = (scast (vm_perm (fresh_iter m r va)) AND 7 :: u64)"
    and "deref m' (vm_pep (fresh_iter m' r va)) = 0"
    and "vm_level (fresh_iter m' r va) = L - 1"
proof -
  note w' = linked_walk [OF lk w L]
  have it: "fresh_iter m' r va = \<lparr>vm_pt = r, vm_pep = Pe (entry_addr n (pageindex va (L - 1))),
      vm_level = L - 1, vm_perm = ucast (0xFFF AND pm AND link_entry n), vm_va = va\<rparr>"
    using va w' by (simp add: fresh_iter_def)
  have z: "ld64 m' (entry_addr n (pageindex va (L - 1))) = 0" using linked_new_zero [OF lk] by simp
  show "deref m' (vm_pep (fresh_iter m' r va)) = 0" "vm_level (fresh_iter m' r va) = L - 1"
    using z by (simp_all add: it)
  have it0: "fresh_iter m r va = \<lparr>vm_pt = r, vm_pep = Pe (entry_addr t (pageindex va L)),
      vm_level = L, vm_perm = ucast (0xFFF AND pm), vm_va = va\<rparr>"
    using va w by (simp add: fresh_iter_def)
  show "vmiter_down m' (fresh_iter m r va) = Inr (fresh_iter m' r va)"
    unfolding it it0 vmiter_down_def using z by (simp add: down_loop_walk w'(2))
  have "link_entry n AND 7 = 7" using lk by (intro link_entry_facts) (auto simp: linked_def)
  moreover have "(0xFFF AND pm AND x) AND 7 = (0xFFF AND pm) AND (x AND 7)" for x :: u64
    by (simp only: and.assoc)
  ultimately show "scast (vm_perm (fresh_iter m' r va)) AND 7 = (scast (vm_perm (fresh_iter m r va)) AND 7 :: u64)"
    unfolding it it0 by (simp only: vmiter.simps scast_perm)
qed

section \<open>Trees built by the kernel\<close>

text \<open>
  In a page table that is only ever changed by \<open>try_map\<close>, every address field is below 4 GB and every
  entry above the last level is absent or names a table with all of \<open>PTE_P\<close>, \<open>PTE_W\<close>, \<open>PTE_U\<close>.
\<close>

definition entry_ok :: "nat \<Rightarrow> u64 \<Rightarrow> bool" where
  "entry_ok depth e \<longleftrightarrow>
     e AND PTE_PAMASK < 0x100000000
     \<and> (depth \<le> 2 \<longrightarrow> e AND PTE_P = 0 \<or> table_entry e \<and> e AND 7 = 7)"

definition ptree_ok :: "mem \<Rightarrow> addr \<Rightarrow> bool" where
  "ptree_ok m r \<longleftrightarrow>
     (\<forall>p t i. valid_path p \<longrightarrow> pt_node m r p = Some t \<longrightarrow> i < 512 \<longrightarrow>
        entry_ok (length p) (ld64 m (entry_addr t i)))"

lemma entry_ok_link: "page_aligned n \<Longrightarrow> n < 0x100000000 \<Longrightarrow> entry_ok d (link_entry n)"
  using link_entry_facts [of n] by (simp add: entry_ok_def)

lemma entry_ok_0: "entry_ok d 0"
  by (simp add: entry_ok_def)

lemma linked_ptree_ok:
  assumes lk: "linked m m' R r p i n" and r': "r' \<in> R" and ok: "ptree_ok m r'"
  shows "ptree_ok m' r'"
  unfolding ptree_ok_def
proof (intro allI impI)
  fix q :: "nat list" and t :: addr and j :: nat
  assume q: "valid_path q" "pt_node m' r' q = Some t" "j < 512"
  have n: "page_aligned n" "n < 0x100000000" using lk by (auto simp: linked_def)
  show "entry_ok (length q) (ld64 m' (entry_addr t j))"
  proof (cases "r' = r \<and> (\<exists>z. q = z @ i # p)")
    case True
    then have "t = n" using q linked_node [OF lk r' q(1)] by (auto split: if_splits)
    then show ?thesis using linked_new_zero [OF lk q(3)] by (simp add: entry_ok_0)
  next
    case False
    then have "pt_node m r' q = Some t" using q(2) linked_node [OF lk r' q(1)] by (simp only: if_False)
    then show ?thesis
      using linked_entry [OF lk r' q(1) _ q(3)] ok q entry_ok_link [OF n]
      by (auto simp: ptree_ok_def)
  qed
qed

lemma leaf_store_ptree_ok:
  assumes f: "forest m R" "r \<in> R" and n: "pt_node m r (vpath va 0) = Some t" and r': "r' \<in> R"
    and ok: "ptree_ok m r'" and v: "v AND PTE_PAMASK < 0x100000000"
  shows "ptree_ok (st64 m (entry_addr t (pageindex va 0)) v) r'"
  unfolding ptree_ok_def
proof (intro allI impI)
  fix q :: "nat list" and t' :: addr and j :: nat
  let ?m' = "st64 m (entry_addr t (pageindex va 0)) v"
  assume q: "valid_path q" "pt_node ?m' r' q = Some t'" "j < 512"
  then have n': "pt_node m r' q = Some t'"
    using leaf_store_node [OF f valid_vpath _ n pageindex_less r' q(1)] by simp
  have "entry_ok (length q) v" if "q = vpath va 0" using v that by (simp add: entry_ok_def)
  then show "entry_ok (length q) (ld64 ?m' (entry_addr t' j))"
    using entry_store [OF f valid_vpath n pageindex_less r' q(1) n' q(3), of va 0 v] ok q n'
    by (auto simp: ptree_ok_def)
qed

lemma walk_perm7:
  assumes ok: "ptree_ok m r"
  shows "pt_node m r (vpath va l) = Some t \<Longrightarrow> l \<le> 3 \<Longrightarrow> walk m va l t pm = (l', t', pm') \<Longrightarrow>
    pm AND 7 = 7 \<Longrightarrow> pm' AND 7 = 7"
proof (induction l arbitrary: t pm)
  case 0
  then show ?case by simp
next
  case (Suc l)
  let ?e = "ld64 m (entry_addr t (pageindex va (Suc l)))"
  show ?case
  proof (cases "table_entry ?e")
    case True
    have "entry_ok (3 - Suc l) ?e"
      using ok Suc.prems(1) valid_vpath [of va "Suc l"] length_vpath [of va "Suc l"]
      unfolding ptree_ok_def by (metis pageindex_less)
    then have "?e AND 7 = 7" using True by (auto simp: entry_ok_def table_entry_iff)
    then have "(pm AND ?e) AND 7 = 7" using Suc.prems(4) by (simp add: and.assoc)
    moreover have "pt_node m r (vpath va l) = Some (?e AND PTE_PAMASK)"
      using True Suc.prems(1,2) by (simp add: vpath_step Let_def)
    ultimately show ?thesis using True Suc.prems(2,3) Suc.IH by (simp add: Let_def)
  next
    case False
    with Suc.prems show ?thesis by (auto simp: Let_def)
  qed
qed

text \<open>On such a tree the iterator never panics, finds every permission, and meets no large page.\<close>

lemma ptree_ok_iter:
  assumes ok: "ptree_ok m r" and va: "va_is_canonical va"
  shows "vmiter_init m r va = Inr (fresh_iter m r va)"
    and "scast (vm_perm (fresh_iter m r va)) AND (7 :: u64) = 7"
    and "vm_level (fresh_iter m r va) > 0 \<Longrightarrow> \<not> vm_present m (fresh_iter m r va)"
proof -
  obtain l t pm where w: "walk m va 3 r (- 1) = (l, t, pm)" by (cases "walk m va 3 r (- 1)")
  note n = walk_top_node [OF w]
  have e: "entry_ok (3 - l) (ld64 m (entry_addr t (pageindex va l)))"
    using ok n length_vpath [of va l] unfolding ptree_ok_def by (metis valid_vpath pageindex_less)
  note lf = leaf_fresh [OF va w]
  show "vmiter_init m r va = Inr (fresh_iter m r va)"
    using e by (simp add: vmiter_init_fresh checked_def lf(1) entry_ok_def not_le)
  have "pm AND 7 = 7" using walk_perm7 [OF ok, of va 3 r "- 1"] w by simp
  then show "scast (vm_perm (fresh_iter m r va)) AND (7 :: u64) = 7"
    unfolding lf(3) by (simp add: and.assoc and.left_commute [of _ pm])
  show "\<not> vm_present m (fresh_iter m r va)" if "vm_level (fresh_iter m r va) > 0"
    using that e n by (auto simp: vm_present_def lf entry_ok_def)
qed

section \<open>Writes outside the page tables\<close>

text \<open>Memories that agree on every page-table page have the same trees and translations.\<close>

definition agree_on :: "addr set \<Rightarrow> mem \<Rightarrow> mem \<Rightarrow> bool" where
  "agree_on T m m' \<longleftrightarrow> (\<forall>a. page_base a \<in> T \<longrightarrow> m' a = m a)"

lemma agree_entry:
  assumes "forest m R" "agree_on (tables m R) m m'" "r \<in> R" "valid_path p" "pt_node m r p = Some t" "i < 512"
  shows "ld64 m' (entry_addr t i) = ld64 m (entry_addr t i)"
proof (rule ld64_page_cong)
  show "page_aligned t" by (rule pt_node_aligned [OF forest_aligned [OF assms(1,3)] assms(5)])
  show "m' a = m a" if "page_base a = t" for a
    using assms(2) tablesI [OF assms(3-5)] that by (simp add: agree_on_def)
qed (rule assms(6))

lemma agree_node:
  assumes "forest m R" "agree_on (tables m R) m m'" "r \<in> R"
  shows "valid_path p \<Longrightarrow> pt_node m' r p = pt_node m r p"
proof (induction p)
  case Nil
  then show ?case by simp
next
  case (Cons i p)
  then show ?case
    using agree_entry [OF assms, of p _ i] by (auto simp: Let_def split: option.split)
qed

lemma agree_forest:
  assumes "forest m R" "agree_on (tables m R) m m'"
  shows "forest m' R" "tables m' R = tables m R"
proof -
  note n = agree_node [OF assms]
  show "forest m' R" using assms(1) n unfolding forest_def by simp
  show "tables m' R = tables m R"
    unfolding tables_def by (intro Collect_cong bex_cong ex_cong1 conj_cong refl) (simp add: n)
qed

lemma agree_walk:
  assumes "forest m R" "agree_on (tables m R) m m'" "r \<in> R"
  shows "walk m' va 3 r pm0 = walk m va 3 r pm0"
proof -
  obtain l t pm where w: "walk m va 3 r pm0 = (l, t, pm)" by (cases "walk m va 3 r pm0")
  note n = walk_top_node [OF w]
  note e = agree_entry [OF assms valid_vpath _ pageindex_less]
  have "walk m' va 3 r pm0 = walk m' va l t pm" using e by (intro walk_agree [OF w, of r]) auto
  also have "\<dots> = (l, t, pm)" using n e by (cases "l = 0") (auto intro: walk_stops)
  finally show ?thesis using w by simp
qed

lemma agree_translate:
  assumes "forest m R" "agree_on (tables m R) m m'" "r \<in> R"
  shows "translate m' r va = translate m r va"
proof -
  obtain l t pm where w: "walk m va 3 r (- 1) = (l, t, pm)" by (cases "walk m va 3 r (- 1)")
  have "ld64 m' (entry_addr t (pageindex va l)) = ld64 m (entry_addr t (pageindex va l))"
    using walk_top_node [OF w] agree_entry [OF assms valid_vpath _ pageindex_less] by blast
  then show ?thesis using w by (simp add: translate_walk leaf_lookup_def agree_walk [OF assms])
qed

lemma agree_ptree_ok:
  assumes "forest m R" "agree_on (tables m R) m m'" "r \<in> R" "ptree_ok m r"
  shows "ptree_ok m' r"
  using assms(4) agree_node [OF assms(1-3)] agree_entry [OF assms(1-3)]
  by (simp add: ptree_ok_def)

end
