(* ===== verification/Vmiter_Map.thy ===== *)
theory Vmiter_Map
  imports Page_Forest
begin

text \<open>
  Correctness of \<open>vmiter::try_map\<close> and \<open>vmiter::map\<close> for every allocator that keeps the contract
  \<open>page_allocator\<close>, and then for \<open>kalloc\<close>: what the mapping changes, in which page table, and when
  it fails.
\<close>

section \<open>Invariant and frame\<close>

text \<open>The page tables of the roots form a forest and none of their pages is free.\<close>

definition pt_good :: "(kmem \<Rightarrow> addr set) \<Rightarrow> kmem \<Rightarrow> addr set \<Rightarrow> bool" where
  "pt_good fp s R \<longleftrightarrow> forest (bytes s) R \<and> tables (bytes s) R \<inter> fp s = {}"

text \<open>
  From \<open>s\<close> to \<open>s'\<close> some free pages have become page-table pages, with a reference count of 1, and
  nothing outside the page-table pages has changed: no byte and no other reference count.
\<close>

definition pt_frame :: "(kmem \<Rightarrow> addr set) \<Rightarrow> addr set \<Rightarrow> kmem \<Rightarrow> kmem \<Rightarrow> bool" where
  "pt_frame fp R s s' \<longleftrightarrow>
     tables (bytes s) R \<subseteq> tables (bytes s') R
     \<and> tables (bytes s') R \<subseteq> tables (bytes s) R \<union> fp s
     \<and> fp s' = fp s - tables (bytes s') R
     \<and> (\<forall>a. page_base a \<notin> tables (bytes s') R \<longrightarrow> bytes s' a = bytes s a)
     \<and> (\<forall>q. page_aligned q \<longrightarrow> q \<notin> tables (bytes s') R - tables (bytes s) R \<longrightarrow>
          pages s' (page_number q) = pages s (page_number q))
     \<and> (\<forall>q \<in> tables (bytes s') R - tables (bytes s) R. pages s' (page_number q) = \<lparr>refcount = 1\<rparr>)"

lemma pt_frame_refl: "pt_good fp s R \<Longrightarrow> pt_frame fp R s s"
  by (auto simp: pt_frame_def pt_good_def)

lemma pt_frame_trans:
  assumes "pt_frame fp R s s1" "pt_frame fp R s1 s2"
    and al: "\<And>t. t \<in> tables (bytes s2) R \<Longrightarrow> page_aligned t"
  shows "pt_frame fp R s s2"
proof -
  let ?T = "\<lambda>s. tables (bytes s) R"
  from assms(1) have a: "?T s \<subseteq> ?T s1" "?T s1 \<subseteq> ?T s \<union> fp s" "fp s1 = fp s - ?T s1"
      "\<And>a. page_base a \<notin> ?T s1 \<Longrightarrow> bytes s1 a = bytes s a"
      "\<And>q. page_aligned q \<Longrightarrow> q \<notin> ?T s1 - ?T s \<Longrightarrow> pages s1 (page_number q) = pages s (page_number q)"
      "\<And>q. q \<in> ?T s1 - ?T s \<Longrightarrow> pages s1 (page_number q) = \<lparr>refcount = 1\<rparr>"
    unfolding pt_frame_def by simp_all
  from assms(2) have b: "?T s1 \<subseteq> ?T s2" "?T s2 \<subseteq> ?T s1 \<union> fp s1" "fp s2 = fp s1 - ?T s2"
      "\<And>a. page_base a \<notin> ?T s2 \<Longrightarrow> bytes s2 a = bytes s1 a"
      "\<And>q. page_aligned q \<Longrightarrow> q \<notin> ?T s2 - ?T s1 \<Longrightarrow> pages s2 (page_number q) = pages s1 (page_number q)"
      "\<And>q. q \<in> ?T s2 - ?T s1 \<Longrightarrow> pages s2 (page_number q) = \<lparr>refcount = 1\<rparr>"
    unfolding pt_frame_def by simp_all
  have new: "pages s2 (page_number q) = \<lparr>refcount = 1\<rparr>" if q: "q \<in> ?T s2 - ?T s" for q
  proof (cases "q \<in> ?T s1")
    case True
    then show ?thesis using q a(6) [of q] b(5) [of q] al [of q] by simp
  next
    case False
    then show ?thesis using q b(6) [of q] by simp
  qed
  have old: "pages s2 (page_number q) = pages s (page_number q)"
    if "page_aligned q" "q \<notin> ?T s2 - ?T s" for q
  proof -
    have "q \<notin> ?T s2 - ?T s1" "q \<notin> ?T s1 - ?T s" using that(2) a(1) b(1) by blast+
    then show ?thesis using a(5) [OF that(1)] b(5) [OF that(1)] by simp
  qed
  have same: "bytes s2 x = bytes s x" if "page_base x \<notin> ?T s2" for x
  proof -
    have "page_base x \<notin> ?T s1" using that b(1) by blast
    then show ?thesis using a(4) b(4) [OF that] by simp
  qed
  have "fp s2 = fp s - ?T s2" using a(3) b(1,3) by blast
  moreover have "?T s \<subseteq> ?T s2" "?T s2 \<subseteq> ?T s \<union> fp s"
    using a(1,2,3) b(1,2) by blast+
  ultimately show ?thesis
    unfolding pt_frame_def using new old same by simp
qed

section \<open>Arguments\<close>

text \<open>
  The arguments that the assertions of \<open>try_map\<close> accept, for a permission of at most twelve bits:
  an address field for a present mapping, and no permission above those of the enclosing tables.
\<close>

definition map_args_ok :: "vmiter \<Rightarrow> u64 \<Rightarrow> u32 \<Rightarrow> bool" where
  "map_args_ok it pa perm \<longleftrightarrow>
     perm AND 0xFFF = perm
     \<and> (if scast perm AND PTE_P \<noteq> 0 then pa \<noteq> - 1 \<and> pa AND PTE_PAMASK = pa
        else pa = - 1 \<and> perm = 0 \<or> pa AND PTE_P = 0)
     \<and> scast (perm AND NOT (vm_perm it)) AND (PTE_P OR PTE_W OR PTE_U) = 0"

lemma scast_low_perm: "perm AND 0xFFF = perm \<Longrightarrow> (scast (perm :: u32) :: u64) AND 0xFFF = scast perm"
proof -
  assume p: "perm AND 0xFFF = perm"
  have "(scast (perm AND 0xFFF) :: u64) = scast perm AND scast (0xFFF :: u32)"
    by (simp only: signed_and_eq)
  then show ?thesis using p by simp
qed

lemma pamask_low_perm: "x AND 0xFFF = x \<Longrightarrow> x AND PTE_PAMASK = 0"
proof -
  assume "x AND 0xFFF = x"
  then have "x AND PTE_PAMASK = (x AND 0xFFF) AND PTE_PAMASK" by simp
  then show ?thesis by (simp add: and.assoc)
qed

lemma scast_not: "(scast (NOT (w :: u32)) :: u64) = NOT (scast w)"
  by (rule bit_word_eqI) (auto simp: bit_signed_iff bit_not_iff min_def)

text \<open>The entry that \<open>try_map\<close> stores, as \<open>translate\<close> reads it.\<close>

lemma stored_entry:
  fixes vp perm :: u32 and pm pa :: u64
  assumes perm: "perm AND 0xFFF = perm" and P: "scast perm AND PTE_P \<noteq> 0"
    and pa: "pa AND PTE_PAMASK = pa"
    and sub: "scast (perm AND NOT vp) AND (PTE_P OR PTE_W OR PTE_U) = 0"
    and vp: "(0xFFF AND pm) AND 7 = scast vp AND 7"
  shows "page_result 0 (pa OR scast perm) va' pm =
      (pa + (va' AND PAGEOFFMASK), 0xFFF AND pm AND (pa OR scast perm))"
    and "(0xFFF AND pm AND (pa OR scast perm)) AND 7 = scast perm AND 7"
    and "(pa OR scast perm) AND PTE_P \<noteq> 0"
proof -
  let ?P = "scast perm :: u64"
  have low: "?P AND 0xFFF = ?P" by (rule scast_low_perm [OF perm])
  have al: "page_aligned pa" using page_aligned_pamask [of pa] pa by simp
  have "(pa OR ?P) AND PTE_PAMASK = pa"
    using pa pamask_low_perm [OF low] by (simp add: bit.conj_disj_distrib2)
  then show "page_result 0 (pa OR ?P) va' pm =
      (pa + (va' AND PAGEOFFMASK), 0xFFF AND pm AND (pa OR ?P))"
    by (simp add: page_result_def pageoffset_def pageoffmask_def push_bit_eq_mult)
  have "(?P AND 7) AND NOT (scast vp) = 0"
    using sub by (simp add: signed_and_eq scast_not and.assoc and.commute
        and.left_commute)
  then have s: "(?P AND 7) AND scast vp = ?P AND 7" by (rule and_not_zero)
  have p7: "pa AND 7 = 0" using page_aligned_and [OF al, of 7] by simp
  have "(0xFFF AND pm AND (pa OR ?P)) AND 7 = (0xFFF AND pm) AND ((pa OR ?P) AND 7)"
    by (simp only: and.assoc)
  also have "(pa OR ?P) AND 7 = ?P AND 7" using p7 by (simp only: bit.conj_disj_distrib2) simp
  also have "(0xFFF AND pm) AND (?P AND 7) = ((0xFFF AND pm) AND 7) AND ?P"
    by (simp only: and.assoc and.commute [of ?P])
  also have "\<dots> = (?P AND 7) AND scast vp"
    unfolding vp by (simp only: and.assoc and.commute and.left_commute)
  finally show "(0xFFF AND pm AND (pa OR ?P)) AND 7 = ?P AND 7" using s by simp
  show "(pa OR ?P) AND PTE_P \<noteq> 0"
    using P by (simp only: bit.conj_disj_distrib2 or_eq_0_word) simp
qed

section \<open>The allocation loop\<close>

context page_allocator
begin

lemma link_step:
  assumes good: "pt_good free_pages s R" and r: "r \<in> R" and va: "va_is_canonical va"
    and w: "walk (bytes s) va 3 r (- 1) = (L, t, pm)" and L: "0 < L"
    and absent: "ld64 (bytes s) (entry_addr t (pageindex va L)) AND PTE_P = 0"
    and al: "alloc s = (n, s1)" "n \<noteq> 0"
    and m: "m = st64 (memset (bytes s1) n 0 PAGESIZE) (entry_addr t (pageindex va L)) (link_entry n)"
  shows "linked (bytes s) m R r (vpath va L) (pageindex va L) n"
    and "pt_good free_pages (s1\<lparr>bytes := m\<rparr>) R"
    and "pt_frame free_pages R s (s1\<lparr>bytes := m\<rparr>)"
    and "\<And>r' va'. r' \<in> R \<Longrightarrow> translate m r' va' = translate (bytes s) r' va'"
    and "\<And>r'. r' \<in> R \<Longrightarrow> ptree_ok (bytes s) r' \<Longrightarrow> ptree_ok m r'"
proof -
  have n: "n \<in> free_pages s" "free_pages s1 = free_pages s - {n}"
      "pages s1 = (pages s)(page_number n := \<lparr>refcount = 1\<rparr>)"
      "\<forall>a. page_base a \<noteq> n \<longrightarrow> bytes s1 a = bytes s a"
    using alloc_some [OF al] by auto
  have nal: "page_aligned n" and small: "n < 0x100000000" using n(1) free_aligned free_small by auto
  have f: "forest (bytes s) R" "n \<notin> tables (bytes s) R" using good n(1) by (auto simp: pt_good_def)
  have nd: "pt_node (bytes s) r (vpath va L) = Some t" "L \<le> 3" using walk_top_node [OF w] by auto
  have zero: "\<forall>a. memset (bytes s1) n 0 PAGESIZE a = (if page_base a = n then 0 else bytes s a)"
    using n(4) nal by (simp add: memset_apply in_page_iff)
  have vp: "valid_path (pageindex va L # vpath va L)" using L by simp
  show lk: "linked (bytes s) m R r (vpath va L) (pageindex va L) n"
    unfolding linked_def
    using f r nal small nd absent zero m vp by blast
  note lf = linked_forest [OF lk]
  have fp: "free_pages (s1\<lparr>bytes := m\<rparr>) = free_pages s - {n}" by (simp add: free_bytes n(2))
  show "pt_good free_pages (s1\<lparr>bytes := m\<rparr>) R"
    using lf good fp by (auto simp: pt_good_def)
  have tal: "page_aligned t" "t \<in> tables (bytes s) R"
    using nd f(1) r pt_node_aligned forest_aligned tablesI valid_vpath by blast+
  have "m a = bytes s a" if "page_base a \<notin> insert n (tables (bytes s) R)" for a
  proof -
    have "page_base a \<noteq> t" using that tal(2) by auto
    then show ?thesis using that zero m st64_entry_outside [OF tal(1) pageindex_less] by simp
  qed
  moreover have "pages s1 (page_number q) = pages s (page_number q)"
    if "page_aligned q" "q \<noteq> n" for q
    using page_number_inj [OF that(1) nal] that(2) by (simp add: n(3))
  moreover have "pages s1 (page_number n) = \<lparr>refcount = 1\<rparr>" by (simp add: n(3))
  moreover have "q \<noteq> n" if "q \<notin> insert n (tables (bytes s) R) - tables (bytes s) R" for q
    using that f(2) by auto
  moreover have "free_pages s - {n} = free_pages s - insert n (tables (bytes s) R)"
    using good by (auto simp: pt_good_def)
  ultimately show "pt_frame free_pages R s (s1\<lparr>bytes := m\<rparr>)"
    unfolding pt_frame_def
    using n(1) f(2) by (auto simp: lf(2) fp)
  show "translate m r' va' = translate (bytes s) r' va'" if "r' \<in> R" for r' va'
    by (rule linked_translate [OF lk L nd(2) that])
  show "ptree_ok m r'" if "r' \<in> R" "ptree_ok (bytes s) r'" for r'
    by (rule linked_ptree_ok [OF lk that])
qed

lemma loop_correct:
  assumes "pt_good free_pages s R" "r \<in> R" "va_is_canonical va"
    "vm_level (fresh_iter (bytes s) r va) = L"
    "perm \<noteq> 0 \<Longrightarrow> L > 0 \<Longrightarrow> \<not> vm_present (bytes s) (fresh_iter (bytes s) r va)"
  shows "\<exists>rc s'. try_map_loop alloc perm (fresh_iter (bytes s) r va) s
        = Inr (rc, fresh_iter (bytes s') r va, s')
      \<and> pt_good free_pages s' R \<and> pt_frame free_pages R s s'
      \<and> (\<forall>r' \<in> R. \<forall>va'. translate (bytes s') r' va' = translate (bytes s) r' va')
      \<and> (\<forall>r' \<in> R. ptree_ok (bytes s) r' \<longrightarrow> ptree_ok (bytes s') r')
      \<and> scast (vm_perm (fresh_iter (bytes s') r va)) AND 7
          = (scast (vm_perm (fresh_iter (bytes s) r va)) AND 7 :: u64)
      \<and> (rc = 0 \<and> (perm = 0 \<and> s' = s \<or> vm_level (fresh_iter (bytes s') r va) = 0)
         \<or> rc = - 1 \<and> free_pages s' = {})"
  using assms
proof (induction L arbitrary: s)
  case 0
  then show ?case by (auto simp: try_map_loop.simps pt_frame_refl)
next
  case (Suc L)
  obtain l t pm where w: "walk (bytes s) va 3 r (- 1) = (l, t, pm)"
    by (cases "walk (bytes s) va 3 r (- 1)")
  have l: "l = Suc L" using Suc.prems(3,4) leaf_fresh(2) [OF Suc.prems(3) w] by simp
  show ?case
  proof (cases "perm = 0")
    case True
    then show ?thesis using Suc.prems(1) by (auto simp: try_map_loop.simps pt_frame_refl)
  next
    case False
    let ?it = "fresh_iter (bytes s) r va"
    have ab: "\<not> vm_present (bytes s) ?it" using Suc.prems(5) False by simp
    have abs: "ld64 (bytes s) (entry_addr t (pageindex va l)) AND PTE_P = 0"
      using ab leaf_fresh(1) [OF Suc.prems(3) w] by (simp add: vm_present_def)
    obtain n s1 where al: "alloc s = (n, s1)" by (cases "alloc s")
    have it: "vm_pep ?it = Pe (entry_addr t (pageindex va l))"
      using Suc.prems(3) w by (simp add: fresh_iter_def)
    show ?thesis
    proof (cases "n = 0")
      case True
      then have "s1 = s" "free_pages s = {}" using alloc_none al by auto
      then show ?thesis
        using ab True False al Suc.prems(1,4)
        by (auto simp: try_map_loop.simps [of alloc perm ?it] vm_present_def pt_frame_refl)
    next
      case n: False
      define m where "m = st64 (memset (bytes s1) n 0 PAGESIZE) (entry_addr t (pageindex va l)) (link_entry n)"
      let ?s2 = "s1\<lparr>bytes := m\<rparr>"
      have L: "0 < l" by (simp add: l)
      note ls = link_step [OF Suc.prems(1-3) w L abs al n m_def]
      note ld = linked_down [OF ls(1) w L Suc.prems(3)]
      have "try_map_loop alloc perm ?it s = try_map_loop alloc perm (fresh_iter (bytes ?s2) r va) ?s2"
        using ab False n al Suc.prems(4) ld(1)
        by (simp add: try_map_loop.simps [of alloc perm ?it] it vm_present_def m_def [symmetric, simplified])
      moreover have "pt_frame free_pages R s s'" if "pt_frame free_pages R ?s2 s'" "pt_good free_pages s' R" for s'
        using pt_frame_trans [OF ls(3) that(1)] that(2) tables_aligned by (auto simp: pt_good_def)
      ultimately show ?thesis
        using Suc.IH [OF ls(2) Suc.prems(2,3)] ld(2,3,4) ls(4,5) l False
        by (auto simp: vm_present_def)
    qed
  qed
qed

end

text \<open>What a mapping of \<open>va\<close> to \<open>pa\<close> in the page table \<open>r\<close> has done to all page tables.\<close>

definition mapped :: "addr set \<Rightarrow> addr \<Rightarrow> u64 \<Rightarrow> u64 \<Rightarrow> u64 \<Rightarrow> mem \<Rightarrow> mem \<Rightarrow> bool" where
  "mapped R r va pa perm m m' \<longleftrightarrow>
     (\<forall>r' \<in> R. \<forall>va'. \<not> (r' = r \<and> same_above 0 va va') \<longrightarrow> translate m' r' va' = translate m r' va')
     \<and> (\<forall>va'. same_above 0 va va' \<longrightarrow>
          (if perm AND PTE_P \<noteq> 0
           then \<exists>q. translate m' r va' = Some (pa + (va' AND PAGEOFFMASK), q) \<and> q AND 7 = perm AND 7
           else translate m' r va' = None))"

lemma stored_small:
  assumes "map_args_ok it pa perm" "pa AND PTE_PAMASK < 0x100000000 \<or> pa = - 1"
  shows "((if pa = - 1 \<and> perm = 0 then 0 else pa) OR scast perm) AND PTE_PAMASK < 0x100000000"
proof -
  have "scast perm AND PTE_PAMASK = 0"
    using assms(1) scast_low_perm pamask_low_perm by (simp add: map_args_ok_def)
  moreover have "\<not> (pa = - 1 \<and> perm \<noteq> 0)"
    using assms(1) by (auto simp: map_args_ok_def split: if_splits)
  ultimately show ?thesis using assms(2) by (auto simp: bit.conj_disj_distrib2)
qed

text \<open>The store of the last-level entry, with the argument \<open>pa\<close> as the source adjusts it.\<close>

lemma stored_mapped:
  assumes args: "map_args_ok it pa perm" and p7: "(0xFFF AND pm) AND 7 = scast (vm_perm it) AND 7"
    and tr: "\<And>r' va'. r' \<in> R \<Longrightarrow> translate m' r' va' =
      (let v = (if pa = - 1 \<and> perm = 0 then 0 else pa) OR scast perm in
       if r' = r \<and> same_above 0 va va'
       then if v AND PTE_P \<noteq> 0 then Some (page_result 0 v va' pm) else None
       else translate m r' va')"
    and r: "r \<in> R"
  shows "mapped R r va pa (scast perm) m m'"
proof (cases "scast perm AND PTE_P = (0 :: u64)")
  case True
  then have "((if pa = - 1 \<and> perm = 0 then 0 else pa) OR scast perm) AND PTE_P = 0"
    using args by (auto simp: map_args_ok_def bit.conj_disj_distrib2)
  with True show ?thesis using tr r by (auto simp: mapped_def)
next
  case False
  then have pa: "(if pa = - 1 \<and> perm = 0 then 0 else pa) = pa" by auto
  have "perm AND 0xFFF = perm" "pa AND PTE_PAMASK = pa"
    "scast (perm AND NOT (vm_perm it)) AND (PTE_P OR PTE_W OR PTE_U) = 0"
    using args False unfolding map_args_ok_def by auto
  note se = stored_entry [OF this(1) False this(2,3) p7]
  show ?thesis using tr r False unfolding pa by (auto simp: mapped_def se Let_def)
qed

context page_allocator
begin

lemma leaf_step:
  assumes good: "pt_good free_pages s R" and r: "r \<in> R" and va: "va_is_canonical va"
    and w: "walk (bytes s) va 3 r (- 1) = (0, t, pm)"
    and m: "m = st64 (bytes s) (entry_addr t (pageindex va 0)) v"
  shows "pt_good free_pages (s\<lparr>bytes := m\<rparr>) R"
    and "pt_frame free_pages R s (s\<lparr>bytes := m\<rparr>)"
    and "fresh_iter m r va = fresh_iter (bytes s) r va"
    and "forest m R"
    and "\<And>r' va'. r' \<in> R \<Longrightarrow> translate m r' va' =
      (let v = v in if r' = r \<and> same_above 0 va va'
       then if v AND PTE_P \<noteq> 0 then Some (page_result 0 v va' pm) else None
       else translate (bytes s) r' va')"
    and "\<And>r'. r' \<in> R \<Longrightarrow> ptree_ok (bytes s) r' \<Longrightarrow> v AND PTE_PAMASK < 0x100000000 \<Longrightarrow> ptree_ok m r'"
proof -
  have n: "pt_node (bytes s) r (vpath va 0) = Some t" using walk_top_node [OF w] by simp
  have f: "forest (bytes s) R" using good by (simp add: pt_good_def)
  show "fresh_iter m r va = fresh_iter (bytes s) r va"
    using leaf_store_walk [OF f r n r] by (simp add: fresh_iter_def m)
  show st1: "forest m R" and "pt_good free_pages (s\<lparr>bytes := m\<rparr>) R"
    using good n r unfolding m pt_good_def
    by (auto simp: free_bytes leaf_store_forest [where p = "vpath va 0"])
  have st2: "tables m R = tables (bytes s) R"
    unfolding m using n f r by (auto simp: leaf_store_forest(2) [where p = "vpath va 0"])
  have tt: "page_aligned t" "t \<in> tables (bytes s) R"
    using n f r pt_node_aligned forest_aligned tablesI valid_vpath by blast+
  have "m a = bytes s a" if "page_base a \<notin> tables (bytes s) R" for a
  proof -
    have "page_base a \<noteq> t" using that tt(2) by auto
    then show ?thesis unfolding m by (rule st64_entry_outside [OF tt(1) pageindex_less])
  qed
  then show "pt_frame free_pages R s (s\<lparr>bytes := m\<rparr>)"
    using st2 good unfolding pt_frame_def pt_good_def by (auto simp: free_bytes)
  show "translate m r' va' =
      (let v = v in if r' = r \<and> same_above 0 va va'
       then if v AND PTE_P \<noteq> 0 then Some (page_result 0 v va' pm) else None
       else translate (bytes s) r' va')" if "r' \<in> R" for r' va'
    unfolding m Let_def by (rule leaf_store_translate [OF f r va w that])
  show "ptree_ok m r'" if "r' \<in> R" "ptree_ok (bytes s) r'" "v AND PTE_PAMASK < 0x100000000" for r'
    unfolding m by (rule leaf_store_ptree_ok [OF f r n that])
qed

lemma try_map_correct:
  assumes good: "pt_good free_pages s R" and r: "r \<in> R" and va: "va_is_canonical va" "page_aligned va"
    and it: "it = fresh_iter (bytes s) r va"
    and args: "map_args_ok it pa perm"
    and leaf: "vm_level it > 0 \<Longrightarrow> \<not> vm_present (bytes s) it"
  shows "\<exists>rc s'. try_map alloc it pa perm s = Inr (rc, fresh_iter (bytes s') r va, s')
      \<and> pt_good free_pages s' R \<and> pt_frame free_pages R s s'
      \<and> (pa AND PTE_PAMASK < 0x100000000 \<or> pa = - 1 \<longrightarrow>
           (\<forall>r' \<in> R. ptree_ok (bytes s) r' \<longrightarrow> ptree_ok (bytes s') r'))
      \<and> (rc = 0 \<and> mapped R r va pa (scast perm) (bytes s) (bytes s')
         \<or> rc = - 1 \<and> free_pages s' = {}
           \<and> (\<forall>r' \<in> R. \<forall>va'. translate (bytes s') r' va' = translate (bytes s) r' va'))"
proof -
  define pa' where "pa' = (if pa = - 1 \<and> perm = 0 then 0 else pa)"
  obtain rc s1 where
      loop: "try_map_loop alloc perm it s = Inr (rc, fresh_iter (bytes s1) r va, s1)"
      and g1: "pt_good free_pages s1 R" and f1: "pt_frame free_pages R s s1"
      and tr: "\<forall>r' \<in> R. \<forall>va'. translate (bytes s1) r' va' = translate (bytes s) r' va'"
      and ok1: "\<forall>r' \<in> R. ptree_ok (bytes s) r' \<longrightarrow> ptree_ok (bytes s1) r'"
      and p7: "scast (vm_perm (fresh_iter (bytes s1) r va)) AND 7 = (scast (vm_perm it) AND 7 :: u64)"
      and rc: "rc = 0 \<and> (perm = 0 \<and> s1 = s \<or> vm_level (fresh_iter (bytes s1) r va) = 0)
         \<or> rc = - 1 \<and> free_pages s1 = {}"
    using loop_correct [OF good r va(1) refl, of perm] leaf unfolding it by auto
  let ?it1 = "fresh_iter (bytes s1) r va"
  have guards: "try_map alloc it pa perm s =
      (if rc \<noteq> 0 then Inr (rc, ?it1, s1)
       else if vm_level ?it1 = 0
       then bindE (store_pe (bytes s1) (vm_pep ?it1) (pa' OR scast perm))
              (\<lambda>m. Inr (0, ?it1, s1\<lparr>bytes := m\<rparr>))
       else Inr (0, ?it1, s1))"
    using args va(2) loop
    by (auto simp: try_map_def map_args_ok_def page_aligned_def it pa'_def Let_def)
  consider (fail) "rc = - 1" "free_pages s1 = {}"
    | (leaf) "rc = 0" "vm_level ?it1 = 0" | (none) "rc = 0" "perm = 0" "s1 = s" "vm_level ?it1 \<noteq> 0"
    using rc by fastforce
  then show ?thesis
  proof cases
    case fail
    then show ?thesis using guards g1 f1 tr ok1 by auto
  next
    case none
    have "translate (bytes s) r va = None"
      using none leaf unfolding it vm_present_fresh by (cases "translate (bytes s) r va") auto
    then have "mapped R r va pa (scast perm) (bytes s) (bytes s)"
      using none(2) translate_same_page by (simp add: mapped_def)
    then show ?thesis using none guards g1 f1 ok1 by auto
  next
    case lf: leaf
    then obtain t pm where w: "walk (bytes s1) va 3 r (- 1) = (0, t, pm)"
      using va(1) leaf_fresh(2) by (metis prod_cases3)
    define m where "m = st64 (bytes s1) (entry_addr t (pageindex va 0)) (pa' OR scast perm)"
    have "vm_pep ?it1 = Pe (entry_addr t (pageindex va 0))" using va(1) w by (simp add: fresh_iter_def)
    then have res: "try_map alloc it pa perm s = Inr (0, ?it1, s1\<lparr>bytes := m\<rparr>)"
      using guards lf by (simp add: m_def)
    note ls = leaf_step [OF g1 r va(1) w m_def]
    have f2: "pt_frame free_pages R s (s1\<lparr>bytes := m\<rparr>)"
      by (rule pt_frame_trans [OF f1 ls(2)]) (use ls(4) tables_aligned in simp)
    have "(0xFFF AND pm) AND 7 = scast (vm_perm it) AND 7"
      using leaf_fresh(3) [OF va(1) w] p7 by simp
    from stored_mapped [OF args this] have "mapped R r va pa (scast perm) (bytes s1) m"
      using ls(5) r unfolding pa'_def by blast
    then have "mapped R r va pa (scast perm) (bytes s) m"
      using tr r by (simp add: mapped_def)
    moreover have "(pa' OR scast perm) AND PTE_PAMASK < 0x100000000"
      if "pa AND PTE_PAMASK < 0x100000000 \<or> pa = - 1"
      using that stored_small [OF args] unfolding pa'_def by simp
    ultimately show ?thesis using res ls(1,3,6) f2 ok1 by auto
  qed
qed

end

section \<open>Properties\<close>

lemma checked_Inr: "checked m it = Inr it' \<longleftrightarrow>
    it' = it \<and> \<not> deref m (vm_pep it) AND PTE_PAMASK \<ge> 0x100000000"
  by (auto simp: checked_def)

text \<open>C18: a \<open>vmiter\<close> constructed at any address reports the processor's translation of that address:
  \<open>pa()\<close>, \<open>perm()\<close>, \<open>present()\<close>, \<open>user()\<close> and \<open>writable()\<close>. The constructor panics exactly when the
  entry where the walk ends names an address of 4 GB or more.\<close>

theorem vmiter_reports_translation:
  "case vmiter_init m pt va of
     Inl f \<Rightarrow> f = Panic \<and> va_is_canonical va
       \<and> (case walk m va 3 pt (- 1) of (l, t, pm) \<Rightarrow>
            ld64 m (entry_addr t (pageindex va l)) AND PTE_PAMASK \<ge> 0x100000000)
   | Inr it \<Rightarrow> vm_va it = va
       \<and> vm_pa m it = (case translate m pt va of None \<Rightarrow> - 1 | Some (pa, perm) \<Rightarrow> pa)
       \<and> vm_perms m it = (case translate m pt va of None \<Rightarrow> 0 | Some (pa, perm) \<Rightarrow> perm)
       \<and> (vm_present m it \<longleftrightarrow> translate m pt va \<noteq> None)
       \<and> (vm_user m it \<longleftrightarrow>
            (\<exists>pa perm. translate m pt va = Some (pa, perm) \<and> perm AND (PTE_P OR PTE_U) = PTE_P OR PTE_U))
       \<and> (vm_writable m it \<longleftrightarrow>
            (\<exists>pa perm. translate m pt va = Some (pa, perm) \<and> perm AND (PTE_P OR PTE_W) = PTE_P OR PTE_W))"
proof (cases "vmiter_init m pt va")
  case (Inl f)
  then have "deref m (vm_pep (fresh_iter m pt va)) AND PTE_PAMASK \<ge> 0x100000000" "f = Panic"
    by (auto simp: vmiter_init_fresh checked_def split: if_splits)
  then show ?thesis using Inl
    by (auto simp: fresh_iter_def split: if_splits prod.splits)
next
  case (Inr it)
  then have "it = fresh_iter m pt va" by (simp add: vmiter_init_fresh checked_Inr)
  then show ?thesis
    using Inr vm_has_perm_fresh [of "PTE_P OR PTE_U" m pt va] vm_has_perm_fresh [of "PTE_P OR PTE_W" m pt va]
    by (simp add: vm_pa_fresh vm_perms_fresh vm_present_fresh vm_user_def vm_writable_def)
qed

text \<open>C19: \<open>find\<close>, which reuses the page-table page the iterator already points into, gives the same
  iterator as a walk from the root, and the same panic.\<close>

theorem find_equals_fresh_walk:
  assumes "page_aligned pt" "vmiter_init m pt va = Inr it"
  shows "vm_find m it va' = vmiter_init m pt va'"
proof -
  have "it = fresh_iter m pt va" using assms(2) by (simp add: vmiter_init_fresh checked_Inr)
  then show ?thesis using real_find_fresh [OF assms(1)] by (simp add: vm_find_def vmiter_init_fresh)
qed

text \<open>A small memory with one mapped page: a four-level path at 0x1000, 0x2000, 0x3000, 0x4000.\<close>

definition sample_mem :: mem where
  "sample_mem = st64 (st64 (st64 (st64 (\<lambda>_. 0) 0x1000 0x2007) 0x2000 0x3007) 0x3000 0x4007) 0x4800 0x5007"

lemma sample_walk: "walk sample_mem 0x100000 3 0x1000 (- 1) = (0, 0x4000, 7)"
  by code_simp

theorem find_equals_fresh_walk_witness:
  "vm_find sample_mem (fresh_iter sample_mem 0x1000 0x100000) 0x101000
     = vmiter_init sample_mem 0x1000 0x101000
   \<and> vm_level (fresh_iter sample_mem 0x1000 0x100000) = 0"
proof -
  have c: "va_is_canonical 0x100000" by code_simp
  have a: "page_aligned 0x1000" by code_simp
  have "ld64 sample_mem (entry_addr 0x4000 (pageindex 0x100000 0)) AND PTE_PAMASK = 0x5000" by code_simp
  then have "vmiter_init sample_mem 0x1000 0x100000 = Inr (fresh_iter sample_mem 0x1000 0x100000)"
    using c sample_walk by (simp add: vmiter_init_fresh checked_def fresh_iter_def)
  from find_equals_fresh_walk [OF a this] show ?thesis
    using c sample_walk by (simp add: fresh_iter_def)
qed

text \<open>C17: \<open>try_map\<close> at a page-aligned canonical address, with arguments its assertions accept and no
  large page in the way, returns. If it returns 0, that page of that page table translates to the
  given physical page with the given permission bits, and every other translation, in this and in
  every other page table, is as before. If it returns -1, no page is free and no translation has
  changed. Either way only free pages have become page-table pages, no other byte and no other
  reference count has changed, and the page tables are still disjoint trees.\<close>

theorem try_map_installs:
  assumes "pt_good (avail kernel_end) s R" "r \<in> R" "va_is_canonical va" "page_aligned va"
    "vmiter_init (bytes s) r va = Inr it" "map_args_ok it pa perm"
    "vm_level it = 0 \<or> \<not> vm_present (bytes s) it"
  shows "\<exists>rc s'. try_map (kalloc kernel_end PAGESIZE) it pa perm s = Inr (rc, fresh_iter (bytes s') r va, s')
      \<and> pt_good (avail kernel_end) s' R \<and> pt_frame (avail kernel_end) R s s'
      \<and> (rc = 0 \<and> mapped R r va pa (scast perm) (bytes s) (bytes s')
         \<or> rc = - 1 \<and> avail kernel_end s' = {}
           \<and> (\<forall>r' \<in> R. \<forall>va'. translate (bytes s') r' va' = translate (bytes s) r' va'))"
proof -
  have "it = fresh_iter (bytes s) r va" using assms(5) by (simp add: vmiter_init_fresh checked_Inr)
  then show ?thesis
    using ka.try_map_correct [OF assms(1-4) _ assms(6)] assms(7) by auto
qed

lemma pt_node_zero: "i < 512 \<Longrightarrow> page_aligned r \<Longrightarrow> pt_node (\<lambda>_. 0) r (p @ [i]) = None"
proof (induction p)
  case Nil
  have "ld64 (\<lambda>_. 0) (entry_addr r i) = 0" using Nil by (intro ld64_zero_page) auto
  then show ?case by (simp add: table_entry_iff)
next
  case (Cons j p)
  then show ?case by simp
qed

lemma forest_zero:
  assumes "\<forall>r \<in> R. page_aligned r"
  shows "forest (\<lambda>_. 0) R" "tables (\<lambda>_. 0) R = R"
proof -
  have nil: "p = [] \<and> t = r" if "valid_path p" "pt_node (\<lambda>_. 0) r p = Some t" "r \<in> R" for p t r
  proof (cases p rule: rev_cases)
    case (snoc ys y)
    with that pt_node_zero [of y r ys] assms show ?thesis by (auto simp: valid_path_def)
  qed (use that in auto)
  then show "forest (\<lambda>_. 0) R" unfolding forest_def using assms by blast
  show "tables (\<lambda>_. 0) R = R"
  proof
    show "tables (\<lambda>_. 0) R \<subseteq> R" unfolding tables_def using nil by blast
    show "R \<subseteq> tables (\<lambda>_. 0) R" using root_in_tables by blast
  qed
qed

definition sample_kmem :: kmem where
  "sample_kmem = \<lparr>bytes = \<lambda>_. 0, pages = \<lambda>i. if i = 1 then \<lparr>refcount = 1\<rparr> else \<lparr>refcount = 0\<rparr>\<rparr>"

lemma sample_good: "pt_good (avail ke) sample_kmem {0x1000}"
proof -
  have "page_aligned 0x1000" by (simp add: page_aligned_def)
  moreover have "0x1000 \<notin> avail ke sample_kmem"
    by (simp add: avail_def sample_kmem_def used_def)
  ultimately show ?thesis using forest_zero [of "{0x1000}"] by (simp add: pt_good_def sample_kmem_def)
qed

lemma fresh_zero: "va_is_canonical va \<Longrightarrow> page_aligned r \<Longrightarrow>
    fresh_iter (\<lambda>_. 0) r va = \<lparr>vm_pt = r, vm_pep = Pe (entry_addr r (pageindex va 3)), vm_level = 3,
      vm_perm = 0xFFF, vm_va = va\<rparr>"
  by (simp add: fresh_iter_def numeral_3_eq_3 Let_def table_entry_iff ld64_def)

theorem try_map_installs_witness:
  "\<exists>it rc s'. vmiter_init (\<lambda>_. 0) 0x1000 0x100000 = Inr it
     \<and> try_map (kalloc 0x50000 PAGESIZE) it 0x5000 7 sample_kmem
       = Inr (rc, fresh_iter (bytes s') 0x1000 0x100000, s')
     \<and> pt_good (avail 0x50000) s' {0x1000} \<and> (rc = 0 \<or> rc = - 1)"
proof -
  have c: "va_is_canonical 0x100000" "page_aligned 0x100000" "page_aligned 0x1000"
    by (simp_all add: va_is_canonical_def page_aligned_def)
  let ?it = "fresh_iter (\<lambda>_. 0) 0x1000 0x100000"
  have z: "deref (\<lambda>_. 0) (vm_pep ?it) = 0" using c by (simp add: fresh_zero ld64_def)
  have i: "vmiter_init (bytes sample_kmem) 0x1000 0x100000 = Inr ?it"
    using z by (simp add: vmiter_init_fresh checked_def sample_kmem_def)
  have a: "map_args_ok ?it 0x5000 7"
    using c by (simp add: fresh_zero) code_simp
  have l: "vm_level ?it = 0 \<or> \<not> vm_present (bytes sample_kmem) ?it"
    using z by (simp add: vm_present_def sample_kmem_def)
  have "0x1000 \<in> {0x1000 :: addr}" by simp
  moreover have "vmiter_init (\<lambda>_. 0) 0x1000 0x100000 = Inr ?it" using i by (simp add: sample_kmem_def)
  ultimately show ?thesis
    using try_map_installs [OF sample_good [of "0x50000"] _ c(1,2) i a l] by blast
qed

end
