(* ===== verification/Addr_Space.thy ===== *)
theory Addr_Space
  imports Vmiter_Map
begin

text \<open>
  User address spaces over the page tables. \<open>user_load\<close> is what an unprivileged load at a virtual
  address reads; it is the abstract view of a process's memory. The console page is a device and not part
  of the byte memory: a load from it reads a place of the screen, whatever is shown there at the time. The invariant \<open>as_inv\<close> says that
  the page tables are disjoint trees, that no user mapping reaches a free page or a page-table page,
  and that a page which one process can write is mapped for users only once (the console page
  excepted, which every process may write).
\<close>

section \<open>Abstract view\<close>

abbreviation (input) CONSOLE_ADDR :: u64 where "CONSOLE_ADDR \<equiv> 0xB8000"

definition is_user :: "u64 \<Rightarrow> bool" where
  "is_user perm \<longleftrightarrow> perm AND (PTE_P OR PTE_U) = PTE_P OR PTE_U"

definition is_user_writable :: "u64 \<Rightarrow> bool" where
  "is_user_writable perm \<longleftrightarrow> perm AND (PTE_P OR PTE_W OR PTE_U) = PTE_P OR PTE_W OR PTE_U"

text \<open>What there is at a physical address: a byte of memory, or a place of the screen.\<close>

datatype content = Byte u8 | Screen addr

definition content_at :: "mem \<Rightarrow> addr \<Rightarrow> content" where
  "content_at m pa = (if page_base pa = CONSOLE_ADDR then Screen pa else Byte (m pa))"

definition user_load :: "mem \<Rightarrow> addr \<Rightarrow> u64 \<Rightarrow> content option" where
  "user_load m r va =
     (case translate m r va of
        Some (pa, perm) \<Rightarrow> if is_user perm then Some (content_at m pa) else None
      | None \<Rightarrow> None)"

text \<open>\<open>user_map m r va q w\<close>: users may access the page \<open>q\<close> at \<open>va\<close>, and write it if \<open>w\<close>.\<close>

definition user_map :: "mem \<Rightarrow> addr \<Rightarrow> u64 \<Rightarrow> addr \<Rightarrow> bool \<Rightarrow> bool" where
  "user_map m r va q w \<longleftrightarrow>
     (\<exists>pa perm. translate m r va = Some (pa, perm) \<and> is_user perm \<and> page_base pa = q
        \<and> (w \<longrightarrow> is_user_writable perm))"

section \<open>Invariant\<close>

definition frames_ok :: "(kmem \<Rightarrow> addr set) \<Rightarrow> kmem \<Rightarrow> addr set \<Rightarrow> addr set \<Rightarrow> bool" where
  "frames_ok fp s P R \<longleftrightarrow>
     (\<forall>r \<in> P. \<forall>va q. user_map (bytes s) r va q False \<longrightarrow> q \<notin> fp s \<and> q \<notin> tables (bytes s) R)"

definition exclusive :: "mem \<Rightarrow> addr set \<Rightarrow> bool" where
  "exclusive m P \<longleftrightarrow>
     (\<forall>r \<in> P. \<forall>r' \<in> P. \<forall>va va' q. q \<noteq> CONSOLE_ADDR \<longrightarrow> user_map m r va q True \<longrightarrow>
        user_map m r' va' q False \<longrightarrow> r = r' \<and> same_above 0 va va')"

definition as_inv :: "(kmem \<Rightarrow> addr set) \<Rightarrow> addr \<Rightarrow> addr set \<Rightarrow> kmem \<Rightarrow> bool" where
  "as_inv fp kpt P s \<longleftrightarrow>
     pt_good fp s (insert kpt P) \<and> kpt \<notin> P \<and> (\<forall>r \<in> P. ptree_ok (bytes s) r)
     \<and> frames_ok fp s P (insert kpt P) \<and> exclusive (bytes s) P"

lemma is_user_7: "is_user perm \<longleftrightarrow> is_user (perm AND 7)"
  by (simp add: is_user_def and.assoc)

lemma is_user_writable_7: "is_user_writable perm \<longleftrightarrow> is_user_writable (perm AND 7)"
  by (simp add: is_user_writable_def and.assoc)

lemma is_user_writable_user: "is_user_writable perm \<Longrightarrow> is_user perm"
proof -
  assume "is_user_writable perm"
  then have "perm AND 7 = 7" by (simp add: is_user_writable_def)
  then have "(perm AND 7) AND 5 = 5" by simp
  then show ?thesis by (simp add: is_user_def and.assoc)
qed

lemma user_map_mono: "user_map m r va q True \<Longrightarrow> user_map m r va q False"
  by (auto simp: user_map_def)

lemma page_base_offset: "page_aligned pa \<Longrightarrow> page_base (pa + (va AND PAGEOFFMASK)) = pa"
proof -
  assume al: "page_aligned pa"
  have off: "unat (va AND PAGEOFFMASK) < 4096" by (simp add: unat_and_pageoffmask)
  then have "unat (pa + (va AND PAGEOFFMASK) - pa) < 4096" by simp
  then show ?thesis using in_page_iff [OF al] by blast
qed

text \<open>A mapping installed by \<open>try_map\<close>, in terms of user mappings and loads.\<close>

lemma mapped_user_map:
  assumes "mapped R r va pa perm m m'" "page_aligned pa" "r' \<in> R"
  shows "user_map m' r' va' q w \<longleftrightarrow>
    (if r' = r \<and> same_above 0 va va'
     then q = pa \<and> is_user perm \<and> (w \<longrightarrow> is_user_writable perm) else user_map m r' va' q w)"
proof (cases "r' = r \<and> same_above 0 va va'")
  case True
  show ?thesis
  proof (cases "perm AND PTE_P = 0")
    case P: True
    then have "translate m' r va' = None" using assms True by (simp add: mapped_def)
    moreover have "\<not> is_user perm"
    proof
      assume "is_user perm"
      then have "perm AND 5 = 5" by (simp add: is_user_def)
      then have "(perm AND 5) AND PTE_P = PTE_P" by simp
      with P show False by (simp add: and.assoc)
    qed
    ultimately show ?thesis using True by (simp add: user_map_def)
  next
    case P: False
    then obtain x where x: "translate m' r va' = Some (pa + (va' AND PAGEOFFMASK), x)" "x AND 7 = perm AND 7"
      using assms(1) True unfolding mapped_def by metis
    then have "is_user x = is_user perm" "is_user_writable x = is_user_writable perm"
      using is_user_7 is_user_writable_7 by metis+
    with x True page_base_offset [OF assms(2)] show ?thesis by (auto simp: user_map_def)
  qed
next
  case False
  then show ?thesis using assms by (auto simp: mapped_def user_map_def)
qed

lemma user_load_cong:
  assumes "translate m' r va = translate m r va"
    "\<And>a. page_base a \<notin> T \<Longrightarrow> m' a = m a" "\<And>q. user_map m r va q False \<Longrightarrow> q \<notin> T"
  shows "user_load m' r va = user_load m r va"
  using assms(2,3) by (auto simp: user_load_def content_at_def user_map_def assms(1) split: option.split)

lemma mapped_user_load:
  assumes map: "mapped R r va pa perm m m'" "page_aligned pa" "r' \<in> R"
    and out: "\<And>a. page_base a \<notin> T \<Longrightarrow> m' a = m a" "\<And>q. user_map m r' va' q False \<Longrightarrow> q \<notin> T"
      "is_user perm \<Longrightarrow> pa \<notin> T"
  shows "user_load m' r' va' =
    (if r' = r \<and> same_above 0 va va'
     then if is_user perm then Some (content_at m (pa + (va' AND PAGEOFFMASK))) else None
     else user_load m r' va')"
proof (cases "r' = r \<and> same_above 0 va va'")
  case False
  then have "translate m' r' va' = translate m r' va'" using map unfolding mapped_def by blast
  from user_load_cong [OF this out(1,2)] False show ?thesis by auto
next
  case True
  note um = mapped_user_map [OF map, of va']
  show ?thesis
  proof (cases "is_user perm")
    case False
    with um True have "\<not> user_map m' r' va' q False" for q by simp
    then show ?thesis using True False by (auto simp: user_load_def user_map_def split: option.split)
  next
    case u: True
    with um True have "user_map m' r' va' pa False" by simp
    then obtain x where x: "translate m' r va' = Some x" "is_user (snd x)" using True
      by (auto simp: user_map_def)
    have "perm AND PTE_P \<noteq> 0"
    proof
      assume "perm AND PTE_P = 0"
      then have "translate m' r va' = None" using map(1) True by (simp add: mapped_def)
      with x show False by simp
    qed
    then have "fst x = pa + (va' AND PAGEOFFMASK)" using map(1) True x unfolding mapped_def by force
    moreover have "m' (pa + (va' AND PAGEOFFMASK)) = m (pa + (va' AND PAGEOFFMASK))"
      using out(1) out(3) [OF u] page_base_offset [OF map(2)] by simp
    ultimately show ?thesis using x True u by (cases x) (simp add: user_load_def content_at_def)
  qed
qed

lemma not_covered_zero: "(x :: u64) AND y = y \<Longrightarrow> NOT x AND y = 0"
proof -
  assume xy: "x AND y = y"
  have "NOT x AND y = NOT x AND (x AND y)" by (simp only: xy)
  also have "\<dots> = (NOT x AND x) AND y" by (simp only: and.assoc)
  finally show ?thesis by simp
qed

text \<open>Arguments that are in order on a tree the kernel has built.\<close>

definition frame_args :: "u64 \<Rightarrow> u32 \<Rightarrow> bool" where
  "frame_args pa perm \<longleftrightarrow>
     perm AND 0xFFF = perm
     \<and> (if scast perm AND PTE_P \<noteq> 0 then page_aligned pa \<and> pa < 0x100000000 else pa = - 1 \<and> perm = 0)"

lemma frame_args_ok:
  assumes fa: "frame_args pa perm" and ok: "ptree_ok m r" "va_is_canonical va"
  shows "map_args_ok (fresh_iter m r va) pa perm"
proof -
  let ?vp = "vm_perm (fresh_iter m r va)"
  have "NOT (scast ?vp) AND (7 :: u64) = 0" by (rule not_covered_zero [OF ptree_ok_iter(2) [OF ok]])
  then have "scast (perm AND NOT ?vp) AND (7 :: u64) = 0"
    by (simp add: signed_and_eq scast_not and.assoc)
  moreover have "pa \<noteq> - 1 \<and> pa AND PTE_PAMASK = pa" if "scast perm AND PTE_P \<noteq> (0 :: u64)"
    using fa that aligned_small_pamask [of pa] by (auto simp: frame_args_def)
  ultimately show ?thesis
    using fa by (auto simp: map_args_ok_def frame_args_def)
qed

section \<open>Mapping a frame keeps the invariant\<close>

text \<open>The frame \<open>pa\<close> may be mapped at \<open>va\<close> of \<open>r\<close> with \<open>perm\<close> without sharing a writable page.\<close>

definition may_map :: "(kmem \<Rightarrow> addr set) \<Rightarrow> addr \<Rightarrow> addr set \<Rightarrow> kmem \<Rightarrow> addr \<Rightarrow> u64 \<Rightarrow> u64 \<Rightarrow> u64 \<Rightarrow> bool" where
  "may_map fp kpt P s r va pa perm \<longleftrightarrow>
     (is_user perm \<longrightarrow> pa \<notin> fp s \<and> pa \<notin> tables (bytes s) (insert kpt P)
        \<and> (pa \<noteq> CONSOLE_ADDR \<longrightarrow>
             (\<forall>r' \<in> P. \<forall>va'. \<not> (r' = r \<and> same_above 0 va va') \<longrightarrow>
                \<not> user_map (bytes s) r' va' pa (\<not> is_user_writable perm))))"

lemma same_above_sym: "same_above l va va' \<longleftrightarrow> same_above l va' va"
  by (auto simp: same_above_def)

lemma same_above_trans: "same_above l a b \<Longrightarrow> same_above l b c \<Longrightarrow> same_above l a c"
  by (auto simp: same_above_def)

lemma mapped_exclusive:
  assumes ex: "exclusive (bytes s) P" and mm: "may_map fp kpt P s r va pa perm"
    and map: "mapped R r va pa perm (bytes s) m'" "page_aligned pa" and sub: "P \<subseteq> R"
  shows "exclusive m' P"
  unfolding exclusive_def
proof (intro ballI allI impI)
  fix r1 r2 va1 va2 q
  assume r: "r1 \<in> P" "r2 \<in> P" and q: "q \<noteq> CONSOLE_ADDR"
    and um: "user_map m' r1 va1 q True" "user_map m' r2 va2 q False"
  note u1 = mapped_user_map [OF map subsetD [OF sub r(1)], of va1 q True]
  note u2 = mapped_user_map [OF map subsetD [OF sub r(2)], of va2 q False]
  consider (both) "r1 = r \<and> same_above 0 va va1" "r2 = r \<and> same_above 0 va va2"
    | (one) "r1 = r \<and> same_above 0 va va1" "\<not> (r2 = r \<and> same_above 0 va va2)"
    | (two) "\<not> (r1 = r \<and> same_above 0 va va1)" "r2 = r \<and> same_above 0 va va2"
    | (none) "\<not> (r1 = r \<and> same_above 0 va va1)" "\<not> (r2 = r \<and> same_above 0 va va2)"
    by blast
  then show "r1 = r2 \<and> same_above 0 va1 va2"
  proof cases
    case both
    then show ?thesis using same_above_sym same_above_trans by blast
  next
    case one
    then have "q = pa" "is_user perm" "is_user_writable perm" "user_map (bytes s) r2 va2 pa False"
      using um u1 u2 by auto
    with mm one r q show ?thesis by (auto simp: may_map_def)
  next
    case two
    then have "q = pa" "is_user perm" "user_map (bytes s) r1 va1 pa True"
      using um u1 u2 by auto
    with mm two r q user_map_mono show ?thesis unfolding may_map_def by (metis (full_types))
  next
    case none
    then have "user_map (bytes s) r1 va1 q True" "user_map (bytes s) r2 va2 q False"
      using um u1 u2 by auto
    with ex r q show ?thesis unfolding exclusive_def by blast
  qed
qed

lemma user_map_cong: "translate m' r va = translate m r va \<Longrightarrow> user_map m' r va q w = user_map m r va q w"
  by (simp add: user_map_def)

lemma frame_keeps_out:
  assumes inv: "as_inv fp kpt P s" and fr: "pt_frame fp (insert kpt P) s s'"
    and r: "r \<in> P" and um: "user_map (bytes s) r va q False"
  shows "q \<notin> tables (bytes s') (insert kpt P)" "q \<notin> fp s'"
proof -
  have "q \<notin> fp s" "q \<notin> tables (bytes s) (insert kpt P)"
    using inv r um by (auto simp: as_inv_def frames_ok_def)
  then show "q \<notin> tables (bytes s') (insert kpt P)" "q \<notin> fp s'"
    using fr unfolding pt_frame_def by blast+
qed

text \<open>What the address spaces of \<open>P\<close> look like after a frame has been mapped.\<close>

definition loads_mapped :: "addr set \<Rightarrow> addr \<Rightarrow> u64 \<Rightarrow> u64 \<Rightarrow> u64 \<Rightarrow> mem \<Rightarrow> mem \<Rightarrow> bool" where
  "loads_mapped P r va pa perm m m' \<longleftrightarrow>
     (\<forall>r' \<in> P. \<forall>va'. user_load m' r' va' =
        (if r' = r \<and> same_above 0 va va'
         then if is_user perm then Some (content_at m (pa + (va' AND PAGEOFFMASK))) else None
         else user_load m r' va'))"

lemma mapped_inv:
  assumes inv: "as_inv fp kpt P s" and mm: "may_map fp kpt P s r va pa perm"
    and map: "mapped (insert kpt P) r va pa perm (bytes s) (bytes s')" and al: "page_aligned pa"
    and good: "pt_good fp s' (insert kpt P)" and fr: "pt_frame fp (insert kpt P) s s'"
    and ok: "\<forall>r' \<in> P. ptree_ok (bytes s') r'"
  shows "as_inv fp kpt P s'" and "loads_mapped P r va pa perm (bytes s) (bytes s')"
proof -
  let ?T = "tables (bytes s') (insert kpt P)"
  note um = mapped_user_map [OF map al]
  have pa: "pa \<notin> ?T \<and> pa \<notin> fp s'" if "is_user perm"
    using mm that fr unfolding may_map_def pt_frame_def by blast
  have "frames_ok fp s' P (insert kpt P)"
    unfolding frames_ok_def
  proof (intro ballI allI impI)
    fix r1 va1 q
    assume r1: "r1 \<in> P" and u: "user_map (bytes s') r1 va1 q False"
    show "q \<notin> fp s' \<and> q \<notin> ?T"
      using u pa frame_keeps_out [OF inv fr r1, of va1 q] r1
      by (auto simp: um split: if_splits)
  qed
  moreover have "exclusive (bytes s') P"
    using inv mm by (intro mapped_exclusive [OF _ mm map al]) (auto simp: as_inv_def)
  ultimately show "as_inv fp kpt P s'" using inv good ok by (simp add: as_inv_def)
  show "loads_mapped P r va pa perm (bytes s) (bytes s')"
    unfolding loads_mapped_def
  proof (intro ballI allI)
    fix r1 va1
    assume r1: "r1 \<in> P"
    show "user_load (bytes s') r1 va1 = (if r1 = r \<and> same_above 0 va va1
         then if is_user perm then Some (content_at (bytes s) (pa + (va1 AND PAGEOFFMASK))) else None
         else user_load (bytes s) r1 va1)"
    proof (rule mapped_user_load [OF map al, where T = ?T])
      show "bytes s' a = bytes s a" if "page_base a \<notin> ?T" for a
        using fr that by (simp add: pt_frame_def)
    qed (use r1 pa frame_keeps_out [OF inv fr r1] in auto)
  qed
qed

lemma unchanged_inv:
  assumes inv: "as_inv fp kpt P s" and good: "pt_good fp s' (insert kpt P)"
    and fr: "pt_frame fp (insert kpt P) s s'"
    and tr: "\<forall>r \<in> insert kpt P. \<forall>va. translate (bytes s') r va = translate (bytes s) r va"
    and ok: "\<forall>r' \<in> P. ptree_ok (bytes s') r'"
  shows "as_inv fp kpt P s'" and "\<forall>r \<in> P. \<forall>va. user_load (bytes s') r va = user_load (bytes s) r va"
proof -
  let ?T = "tables (bytes s') (insert kpt P)"
  have um: "user_map (bytes s') r va q w = user_map (bytes s) r va q w" if "r \<in> P" for r va q w
    using tr that by (intro user_map_cong) auto
  have "frames_ok fp s' P (insert kpt P)" "exclusive (bytes s') P"
    using frame_keeps_out [OF inv fr] inv by (auto simp: frames_ok_def exclusive_def um as_inv_def)
  then show "as_inv fp kpt P s'" using inv good ok by (simp add: as_inv_def)
  show "\<forall>r \<in> P. \<forall>va. user_load (bytes s') r va = user_load (bytes s) r va"
  proof (intro ballI allI)
    fix r va
    assume r: "r \<in> P"
    show "user_load (bytes s') r va = user_load (bytes s) r va"
      using tr r fr frame_keeps_out(1) [OF inv fr r]
      by (intro user_load_cong [where T = ?T]) (auto simp: pt_frame_def)
  qed
qed

context page_allocator
begin

lemma map_frame:
  assumes inv: "as_inv free_pages kpt P s" and r: "r \<in> P" and va: "va_is_canonical va" "page_aligned va"
    and fa: "frame_args pa perm" and mm: "may_map free_pages kpt P s r va pa (scast perm)"
  shows "\<exists>rc s'. try_map alloc (fresh_iter (bytes s) r va) pa perm s
        = Inr (rc, fresh_iter (bytes s') r va, s')
      \<and> as_inv free_pages kpt P s' \<and> pt_frame free_pages (insert kpt P) s s'
      \<and> (rc = 0 \<and> mapped (insert kpt P) r va pa (scast perm) (bytes s) (bytes s')
           \<and> loads_mapped P r va pa (scast perm) (bytes s) (bytes s')
         \<or> rc = - 1 \<and> free_pages s' = {}
           \<and> (\<forall>r \<in> insert kpt P. \<forall>va. translate (bytes s') r va = translate (bytes s) r va)
           \<and> (\<forall>r \<in> P. \<forall>va. user_load (bytes s') r va = user_load (bytes s) r va))"
proof -
  have good: "pt_good free_pages s (insert kpt P)" and ok: "\<forall>r \<in> P. ptree_ok (bytes s) r"
    using inv by (auto simp: as_inv_def)
  have okr: "ptree_ok (bytes s) r" using ok r by simp
  obtain rc s' where res: "try_map alloc (fresh_iter (bytes s) r va) pa perm s
        = Inr (rc, fresh_iter (bytes s') r va, s')"
      and g: "pt_good free_pages s' (insert kpt P)" and f: "pt_frame free_pages (insert kpt P) s s'"
      and o: "pa AND PTE_PAMASK < 0x100000000 \<or> pa = - 1 \<longrightarrow>
           (\<forall>r' \<in> insert kpt P. ptree_ok (bytes s) r' \<longrightarrow> ptree_ok (bytes s') r')"
      and c: "rc = 0 \<and> mapped (insert kpt P) r va pa (scast perm) (bytes s) (bytes s')
         \<or> rc = - 1 \<and> free_pages s' = {}
           \<and> (\<forall>r' \<in> insert kpt P. \<forall>va'. translate (bytes s') r' va' = translate (bytes s) r' va')"
    using try_map_correct [OF good _ va refl frame_args_ok [OF fa okr va(1)] ptree_ok_iter(3) [OF okr va(1)]] r
    by auto
  have small: "pa AND PTE_PAMASK < 0x100000000 \<or> pa = - 1"
    using fa aligned_small_pamask [of pa] by (auto simp: frame_args_def split: if_splits)
  then have ok': "\<forall>r' \<in> P. ptree_ok (bytes s') r'" using o ok by auto
  show ?thesis
  proof (cases "rc = 0")
    case True
    then have map: "mapped (insert kpt P) r va pa (scast perm) (bytes s) (bytes s')" using c by simp
    have "as_inv free_pages kpt P s' \<and> loads_mapped P r va pa (scast perm) (bytes s) (bytes s')"
    proof (cases "scast perm AND PTE_P = (0 :: u64)")
      case False
      then have "page_aligned pa" using fa by (simp add: frame_args_def)
      then show ?thesis using mapped_inv [OF inv mm map _ g f ok'] by blast
    next
      case True
      then have p0: "perm = 0" using fa by (simp add: frame_args_def)
      then have "\<not> is_user (scast perm)" by (simp add: is_user_def)
      then have "may_map free_pages kpt P s r va 0 (scast perm)" by (simp add: may_map_def)
      moreover have "mapped (insert kpt P) r va 0 (scast perm) (bytes s) (bytes s')"
        using map True by (simp add: mapped_def)
      moreover have "page_aligned 0" by (simp add: page_aligned_def)
      ultimately have "as_inv free_pages kpt P s' \<and> loads_mapped P r va 0 (scast perm) (bytes s) (bytes s')"
        using mapped_inv [OF inv _ _ _ g f ok'] by blast
      then show ?thesis using \<open>\<not> is_user (scast perm)\<close> by (simp add: loads_mapped_def)
    qed
    then show ?thesis using res f map True by blast
  next
    case False
    then show ?thesis using res f c unchanged_inv [OF inv g f _ ok'] by blast
  qed
qed

text \<open>Taking a free page and writing it disturbs no address space.\<close>

lemma claim_frame:
  assumes inv: "as_inv free_pages kpt P s" and al: "alloc s = (n, s1)" "n \<noteq> 0"
    and m: "\<And>a. page_base a \<noteq> n \<Longrightarrow> m a = bytes s a"
  shows "as_inv free_pages kpt P (s1\<lparr>bytes := m\<rparr>)"
    and "\<And>r va. r \<in> insert kpt P \<Longrightarrow> translate m r va = translate (bytes s) r va"
    and "\<And>r va. r \<in> P \<Longrightarrow> user_load m r va = user_load (bytes s) r va"
    and "n \<in> free_pages s" "free_pages (s1\<lparr>bytes := m\<rparr>) = free_pages s - {n}"
    and "n \<notin> tables m (insert kpt P)"
    and "\<And>r va w. r \<in> P \<Longrightarrow> \<not> user_map m r va n w"
    and "tables m (insert kpt P) = tables (bytes s) (insert kpt P)"
proof -
  let ?R = "insert kpt P" and ?s2 = "s1\<lparr>bytes := m\<rparr>"
  have n: "n \<in> free_pages s" "free_pages s1 = free_pages s - {n}"
    using alloc_some [OF al] by auto
  then show "n \<in> free_pages s" and fp: "free_pages ?s2 = free_pages s - {n}" by (simp_all add: free_bytes)
  have f: "forest (bytes s) ?R" and nt: "n \<notin> tables (bytes s) ?R"
    using inv n by (auto simp: as_inv_def pt_good_def)
  have ag: "agree_on (tables (bytes s) ?R) (bytes s) m"
    unfolding agree_on_def using m nt by (metis (no_types))
  note af = agree_forest [OF f ag]
  show "tables m ?R = tables (bytes s) ?R" by (rule af(2))
  show "n \<notin> tables m ?R" using af nt by simp
  show tr: "\<And>r va. r \<in> ?R \<Longrightarrow> translate m r va = translate (bytes s) r va"
    by (rule agree_translate [OF f ag])
  have um: "user_map m r va q w = user_map (bytes s) r va q w" if "r \<in> P" for r va q w
    using tr that by (intro user_map_cong) auto
  have nn: "\<not> user_map (bytes s) r va n w" if "r \<in> P" for r va w
  proof -
    have "\<not> user_map (bytes s) r va n False"
      using inv that n(1) by (auto simp: as_inv_def frames_ok_def)
    then show ?thesis using user_map_mono by (cases w) auto
  qed
  then show "\<And>r va w. r \<in> P \<Longrightarrow> \<not> user_map m r va n w" by (simp add: um)
  show "user_load m r va = user_load (bytes s) r va" if "r \<in> P" for r va
    using nn [OF that] that tr m by (intro user_load_cong [where T = "{n}"]) auto
  have "frames_ok free_pages ?s2 P ?R" "exclusive m P"
    using inv af by (auto simp: as_inv_def frames_ok_def exclusive_def um fp)
  then show "as_inv free_pages kpt P ?s2"
    using inv af fp agree_ptree_ok [OF f ag] by (auto simp: as_inv_def pt_good_def)
qed

end

text \<open>Giving a page back that nothing refers to.\<close>

lemma release_frame:
  assumes inv: "as_inv fp kpt P s" and "bytes s' = bytes s" and fp: "fp s' \<subseteq> insert n (fp s)"
    and n: "n \<notin> tables (bytes s) (insert kpt P)" "\<And>r va. r \<in> P \<Longrightarrow> \<not> user_map (bytes s) r va n False"
  shows "as_inv fp kpt P s'"
  using assms by (fastforce simp: as_inv_def pt_good_def frames_ok_def)

end
