(* ===== verification/Kernel.thy ===== *)
theory Kernel
  imports Addr_Space
begin

text \<open>
  Processes and system calls of \<open>kernel.cc\<close>: process descriptors, allocation of user pages, and the
  invariant on all page tables that the system calls keep.
\<close>

section \<open>State\<close>

abbreviation (input) P_FREE :: int where "P_FREE \<equiv> 0"
abbreviation (input) P_RUNNABLE :: int where "P_RUNNABLE \<equiv> 1"
abbreviation (input) P_BLOCKED :: int where "P_BLOCKED \<equiv> 2"
abbreviation (input) P_BROKEN :: int where "P_BROKEN \<equiv> 3"

record proc =
  pagetable :: addr
  pid :: int
  state :: int
  regs :: regstate

abbreviation (input) NPROC :: nat where "NPROC \<equiv> 16"

text \<open>\<open>current\<close> is the index in \<open>ptable\<close> of the process that the pointer of the source refers to.\<close>

record kernel =
  phys :: kmem
  ptable :: "nat \<Rightarrow> proc"
  current :: nat

section \<open>syscall_page_alloc\<close>

definition syscall_page_alloc :: "addr \<Rightarrow> u64 \<Rightarrow> kernel \<Rightarrow> fault + (int \<times> kernel)" where
  "syscall_page_alloc kernel_end addr k =
     (if addr mod PAGESIZE \<noteq> 0 \<or> addr < PROC_START_ADDR \<or> addr \<ge> MEMSIZE_VIRTUAL then Inr (- 1, k)
      else case kalloc kernel_end PAGESIZE (phys k) of (pa, s1) \<Rightarrow>
        if pa = 0 then Inr (- 1, k\<lparr>phys := s1\<rparr>)
        else let s2 = s1\<lparr>bytes := memset (bytes s1) pa 0 PAGESIZE\<rparr> in
          bindE (vmiter_init (bytes s2) (pagetable (ptable k (current k))) addr) (\<lambda>it.
          bindE (try_map (kalloc kernel_end PAGESIZE) it pa (ucast (PTE_P OR PTE_W OR PTE_U)) s2)
            (\<lambda>(r, it', s3).
            if r < 0 then bindE (kfree pa s3) (\<lambda>s4. Inr (- 1, k\<lparr>phys := s4\<rparr>))
            else Inr (0, k\<lparr>phys := s3\<rparr>))))"

section \<open>Invariant and address spaces\<close>

text \<open>
  The process page tables in use are those of the processes that are not free; the kernel's own page
  table is at the address \<open>kpt\<close>. The invariant is that of the address spaces, and that no two live
  processes share a page table. \<open>space k i\<close> is what process \<open>i\<close> can read: bytes of memory, and the places of the
  screen that its console page maps.
\<close>

definition live :: "kernel \<Rightarrow> nat set" where
  "live k = {i. i < NPROC \<and> state (ptable k i) \<noteq> P_FREE}"

definition proc_roots :: "kernel \<Rightarrow> addr set" where
  "proc_roots k = (\<lambda>i. pagetable (ptable k i)) ` live k"

definition kinv :: "addr \<Rightarrow> addr \<Rightarrow> kernel \<Rightarrow> bool" where
  "kinv kernel_end kpt k \<longleftrightarrow>
     as_inv (avail kernel_end) kpt (proc_roots k) (phys k)
     \<and> inj_on (\<lambda>i. pagetable (ptable k i)) (live k)"

definition space :: "kernel \<Rightarrow> nat \<Rightarrow> u64 \<Rightarrow> content option" where
  "space k i va = user_load (bytes (phys k)) (pagetable (ptable k i)) va"

definition valid_user_page :: "u64 \<Rightarrow> bool" where
  "valid_user_page addr \<longleftrightarrow> page_aligned addr \<and> PROC_START_ADDR \<le> addr \<and> addr < MEMSIZE_VIRTUAL"

lemma live_phys [simp]: "live (k\<lparr>phys := s\<rparr>) = live k" "proc_roots (k\<lparr>phys := s\<rparr>) = proc_roots k"
  by (simp_all add: live_def proc_roots_def)

lemma kinv_phys: "kinv ke kpt k \<Longrightarrow> as_inv (avail ke) kpt (proc_roots k) s \<Longrightarrow> kinv ke kpt (k\<lparr>phys := s\<rparr>)"
  by (simp add: kinv_def)

lemma page_aligned_mod: "page_aligned a \<longleftrightarrow> a mod PAGESIZE = 0"
  by (simp add: page_aligned_iff word_unat_eq_iff unat_mod_distrib dvd_eq_mod_eq_0)

lemma valid_guard:
  "valid_user_page addr \<Longrightarrow>
   \<not> (addr mod PAGESIZE \<noteq> 0 \<or> addr < PROC_START_ADDR \<or> addr \<ge> MEMSIZE_VIRTUAL)"
  by (auto simp: valid_user_page_def page_aligned_mod)

lemma user_page_canonical: "addr < MEMSIZE_VIRTUAL \<Longrightarrow> va_is_canonical addr"
  by (simp add: va_is_canonical_def word_less_nat_alt word_le_nat_alt)

section \<open>Correctness of syscall_page_alloc\<close>

text \<open>The three outcomes of the memory part, on the address spaces of the live processes.\<close>

lemma zeroed_page:
  assumes "as_inv (avail ke) kpt P s" "kalloc ke PAGESIZE s = (pa, s1)" "pa \<noteq> 0"
    and s2: "s2 = s1\<lparr>bytes := memset (bytes s1) pa 0 PAGESIZE\<rparr>"
  shows "as_inv (avail ke) kpt P s2" "pa \<in> avail ke s" "avail ke s2 = avail ke s - {pa}"
    and "\<And>r va. r \<in> insert kpt P \<Longrightarrow> translate (bytes s2) r va = translate (bytes s) r va"
    and "\<And>r va. r \<in> P \<Longrightarrow> user_load (bytes s2) r va = user_load (bytes s) r va"
    and "pa \<notin> tables (bytes s2) (insert kpt P)" "\<And>r va w. r \<in> P \<Longrightarrow> \<not> user_map (bytes s2) r va pa w"
    and "\<And>a. page_base a = pa \<Longrightarrow> bytes s2 a = 0"
    and "pages s2 = (pages s)(page_number pa := \<lparr>refcount = 1\<rparr>)"
    and "\<And>a. page_base a \<noteq> pa \<Longrightarrow> bytes s2 a = bytes s a"
proof -
  have pa: "pa \<in> avail ke s" using ka.alloc_some [OF assms(2,3)] by simp
  have al: "page_aligned pa" using pa by (rule avail_aligned)
  have out: "memset (bytes s1) pa 0 PAGESIZE a = bytes s a" if "page_base a \<noteq> pa" for a
    using that al ka.alloc_some [OF assms(2,3)] by (simp add: memset_apply in_page_iff)
  note cf = ka.claim_frame [OF assms(1,2,3), of "memset (bytes s1) pa 0 PAGESIZE", OF out, folded s2]
  show "as_inv (avail ke) kpt P s2" "pa \<in> avail ke s" "avail ke s2 = avail ke s - {pa}"
    "\<And>r va. r \<in> insert kpt P \<Longrightarrow> translate (bytes s2) r va = translate (bytes s) r va"
    "\<And>r va. r \<in> P \<Longrightarrow> user_load (bytes s2) r va = user_load (bytes s) r va"
    "pa \<notin> tables (bytes s2) (insert kpt P)" "\<And>r va w. r \<in> P \<Longrightarrow> \<not> user_map (bytes s2) r va pa w"
    using cf pa by (simp_all add: s2)
  show "\<And>a. page_base a = pa \<Longrightarrow> bytes s2 a = 0" using al by (simp add: s2 memset_apply in_page_iff)
  show "\<And>a. page_base a \<noteq> pa \<Longrightarrow> bytes s2 a = bytes s a" using out by (simp add: s2)
  show "pages s2 = (pages s)(page_number pa := \<lparr>refcount = 1\<rparr>)"
    using ka.alloc_some [OF assms(2,3)] by (simp add: s2)
qed

lemma fresh_frame_ok:
  assumes "as_inv (avail ke) kpt P s" "kalloc ke PAGESIZE s = (pa, s1)" "pa \<noteq> 0"
    and s2: "s2 = s1\<lparr>bytes := memset (bytes s1) pa 0 PAGESIZE\<rparr>"
    and perm: "perm AND 0xFFF = perm" "scast perm AND PTE_P \<noteq> (0 :: u64)"
  shows "frame_args pa perm" "may_map (avail ke) kpt P s2 r va pa (scast perm)"
proof -
  note z = zeroed_page [OF assms(1-4)]
  have "pa < MEMSIZE_PHYSICAL" by (rule avail_below [OF z(2)])
  then have "pa < 0x100000000" by (rule order_less_le_trans) simp
  then show "frame_args pa perm" using perm avail_aligned [OF z(2)] by (simp add: frame_args_def)
  show "may_map (avail ke) kpt P s2 r va pa (scast perm)" using z(3,6,7) by (simp add: may_map_def)
qed

lemma page_alloc_kfree:
  assumes inv: "as_inv (avail ke) kpt P s3" and pa: "pa \<noteq> 0" "page_aligned pa" "pa < MEMSIZE_PHYSICAL"
    and one: "pages s3 (page_number pa) = \<lparr>refcount = 1\<rparr>" and none: "avail ke s3 = {}"
    and free: "pa \<notin> tables (bytes s3) (insert kpt P)" "\<And>r va. r \<in> P \<Longrightarrow> \<not> user_map (bytes s3) r va pa False"
  obtains s4 where "kfree pa s3 = Inr s4" "as_inv (avail ke) kpt P s4" "bytes s4 = bytes s3"
    "avail ke s4 \<subseteq> {pa}"
proof -
  let ?s4 = "s3\<lparr>pages := (pages s3)(page_number pa := \<lparr>refcount = 0\<rparr>)\<rparr>"
  have "kfree pa s3 = Inr ?s4"
    using kfree_counts [OF pa(1) page_number_less [OF pa(3)], of s3] one by simp
  moreover have "avail ke ?s4 \<subseteq> {pa}"
    using none pa(2) by (auto simp: avail_def page_number_inj split: if_splits)
  moreover have "as_inv (avail ke) kpt P ?s4"
    using none \<open>avail ke ?s4 \<subseteq> {pa}\<close> free by (intro release_frame [OF inv]) auto
  ultimately show thesis using that by simp
qed

lemma allocatable_not_console: "allocatable_physical_address ke q \<Longrightarrow> q \<noteq> CONSOLE_ADDR"
  by (auto simp: allocatable_physical_address_def reserved_physical_address_def)

lemma page_alloc_memory:
  assumes inv: "as_inv (avail ke) kpt P s" and r: "r \<in> P" and va: "valid_user_page addr"
    and al: "kalloc ke PAGESIZE s = (pa, s1)" "pa \<noteq> 0"
    and s2: "s2 = s1\<lparr>bytes := memset (bytes s1) pa 0 PAGESIZE\<rparr>"
  obtains (ok) s3 where
      "try_map (kalloc ke PAGESIZE) (fresh_iter (bytes s2) r addr) pa 7 s2 = Inr (0, fresh_iter (bytes s3) r addr, s3)"
      "as_inv (avail ke) kpt P s3" "user_map (bytes s3) r addr pa True"
      "\<And>r' va. r' \<in> P \<Longrightarrow> user_load (bytes s3) r' va =
         (if r' = r \<and> same_above 0 addr va then Some (Byte 0) else user_load (bytes s) r' va)"
  | (oom) s3 s4 where
      "try_map (kalloc ke PAGESIZE) (fresh_iter (bytes s2) r addr) pa 7 s2 = Inr (- 1, fresh_iter (bytes s3) r addr, s3)"
      "kfree pa s3 = Inr s4" "as_inv (avail ke) kpt P s4" "card (avail ke s4) \<le> 1"
      "\<And>r' va. r' \<in> P \<Longrightarrow> user_load (bytes s4) r' va = user_load (bytes s) r' va"
proof -
  have c: "va_is_canonical addr" "page_aligned addr"
    using va user_page_canonical by (auto simp: valid_user_page_def)
  note z = zeroed_page [OF inv al s2]
  have fa: "frame_args pa 7" "may_map (avail ke) kpt P s2 r addr pa (scast (7 :: u32))"
    by (rule fresh_frame_ok [OF inv al s2]; simp)+
  obtain rc s3 where res: "try_map (kalloc ke PAGESIZE) (fresh_iter (bytes s2) r addr) pa 7 s2
        = Inr (rc, fresh_iter (bytes s3) r addr, s3)"
      and i3: "as_inv (avail ke) kpt P s3" and f3: "pt_frame (avail ke) (insert kpt P) s2 s3"
      and cases: "rc = 0 \<and> mapped (insert kpt P) r addr pa 7 (bytes s2) (bytes s3)
           \<and> loads_mapped P r addr pa 7 (bytes s2) (bytes s3)
         \<or> rc = - 1 \<and> avail ke s3 = {}
           \<and> (\<forall>r \<in> insert kpt P. \<forall>va. translate (bytes s3) r va = translate (bytes s2) r va)
           \<and> (\<forall>r \<in> P. \<forall>va. user_load (bytes s3) r va = user_load (bytes s2) r va)"
    using ka.map_frame [OF z(1) r c fa] by auto
  have al': "page_aligned pa" by (rule avail_aligned [OF z(2)])
  have nc: "pa \<noteq> CONSOLE_ADDR" using z(2) allocatable_not_console by (auto simp: avail_def)
  have u7: "is_user 7" "is_user_writable 7" by (simp_all add: is_user_def is_user_writable_def)
  show thesis
  proof (cases "rc = 0")
    case True
    with cases have map: "mapped (insert kpt P) r addr pa 7 (bytes s2) (bytes s3)"
      and ld: "loads_mapped P r addr pa 7 (bytes s2) (bytes s3)" by auto
    have "user_map (bytes s3) r addr pa True"
      using mapped_user_map [OF map al', of r addr pa True] r u7 by (simp add: same_above_def)
    moreover have "user_load (bytes s3) r' va =
         (if r' = r \<and> same_above 0 addr va then Some (Byte 0) else user_load (bytes s) r' va)"
      if "r' \<in> P" for r' va
      using ld that u7 z(5) z(8) [OF page_base_offset [OF al']] page_base_offset [OF al'] nc by (simp add: loads_mapped_def content_at_def)
    ultimately show thesis using ok res True i3 by blast
  next
    case False
    with cases have rc: "rc = - 1" and none: "avail ke s3 = {}"
      and tr: "\<forall>r \<in> insert kpt P. \<forall>va. translate (bytes s3) r va = translate (bytes s2) r va"
      and ld: "\<forall>r \<in> P. \<forall>va. user_load (bytes s3) r va = user_load (bytes s2) r va" by auto
    have nt: "pa \<notin> tables (bytes s3) (insert kpt P)"
      using f3 z(3,6) unfolding pt_frame_def by blast
    have "pages s3 (page_number pa) = pages s2 (page_number pa)"
      using f3 al' nt unfolding pt_frame_def by blast
    then have one: "pages s3 (page_number pa) = \<lparr>refcount = 1\<rparr>" by (simp add: z(9))
    have nu: "\<not> user_map (bytes s3) r' va pa False" if "r' \<in> P" for r' va
      using z(7) [OF that] user_map_cong [of "bytes s3" r' va "bytes s2"] tr that by auto
    obtain s4 where s4: "kfree pa s3 = Inr s4" "as_inv (avail ke) kpt P s4" "bytes s4 = bytes s3" "avail ke s4 \<subseteq> {pa}"
      using page_alloc_kfree [OF i3 al(2) al' avail_below [OF z(2)] one none nt nu] by blast
    have "card (avail ke s4) \<le> 1" using card_mono [OF _ s4(4)] by simp
    then show thesis using oom res rc s4 ld z(5) by simp
  qed
qed

section \<open>Properties\<close>

text \<open>C13: \<open>sys_page_alloc\<close> keeps the invariant on all address spaces and never faults. An address that is
  not page-aligned, below \<open>PROC_START_ADDR\<close> or at \<open>MEMSIZE_VIRTUAL\<close> and above is refused with no effect.
  On success the calling process, and no other, has a new writable page of zeroes at the address,
  and every other byte that any live process can read is unchanged. On failure no process sees any
  change, and at most one physical page is free.\<close>

theorem page_alloc_spec:
  assumes "kinv kernel_end kpt k" "current k \<in> live k"
  shows "\<exists>r k'. syscall_page_alloc kernel_end addr k = Inr (r, k')
    \<and> kinv kernel_end kpt k' \<and> ptable k' = ptable k \<and> current k' = current k
    \<and> (if \<not> valid_user_page addr then r = - 1 \<and> k' = k
       else r = 0
         \<and> (\<exists>q. user_map (bytes (phys k')) (pagetable (ptable k (current k))) addr q True)
         \<and> (\<forall>i \<in> live k. \<forall>va. space k' i va =
              (if i = current k \<and> same_above 0 addr va then Some (Byte 0) else space k i va))
       \<or> r = - 1 \<and> card (avail kernel_end (phys k')) \<le> 1
         \<and> (\<forall>i \<in> live k. \<forall>va. space k' i va = space k i va))"
proof -
  let ?P = "proc_roots k" and ?r = "pagetable (ptable k (current k))"
  have inv: "as_inv (avail kernel_end) kpt ?P (phys k)" and inj: "inj_on (\<lambda>i. pagetable (ptable k i)) (live k)"
    using assms(1) by (auto simp: kinv_def)
  have r: "?r \<in> ?P" using assms(2) by (auto simp: proc_roots_def)
  have root: "pagetable (ptable k i) \<in> ?P \<and> (pagetable (ptable k i) = ?r \<longleftrightarrow> i = current k)" if "i \<in> live k" for i
    using that inj assms(2) by (auto simp: proc_roots_def inj_on_def)
  obtain pa s1 where al: "kalloc kernel_end PAGESIZE (phys k) = (pa, s1)" by (cases "kalloc kernel_end PAGESIZE (phys k)")
  define s2 where "s2 = s1\<lparr>bytes := memset (bytes s1) pa 0 PAGESIZE\<rparr>"
  consider (bad) "\<not> valid_user_page addr" | (none) "valid_user_page addr" "pa = 0" | (page) "valid_user_page addr" "pa \<noteq> 0"
    by blast
  then show ?thesis
  proof cases
    case bad
    then have "addr mod PAGESIZE \<noteq> 0 \<or> addr < PROC_START_ADDR \<or> addr \<ge> MEMSIZE_VIRTUAL"
      unfolding valid_user_page_def page_aligned_mod by (meson linorder_not_le)
    then have "syscall_page_alloc kernel_end addr k = Inr (- 1, k)"
      by (simp only: syscall_page_alloc_def if_True)
    with bad assms(1) show ?thesis by simp
  next
    case none
    then have "s1 = phys k" "avail kernel_end (phys k) = {}" using ka.alloc_none al by auto
    with none al assms(1) show ?thesis
      using valid_guard [OF none(1)] by (simp add: syscall_page_alloc_def)
  next
    case page
    have vi: "vmiter_init (bytes s2) ?r addr = Inr (fresh_iter (bytes s2) ?r addr)"
      using zeroed_page(1) [OF inv al page(2) s2_def] r page(1) user_page_canonical
      by (intro ptree_ok_iter) (auto simp: as_inv_def valid_user_page_def)
    have run: "syscall_page_alloc kernel_end addr k =
        bindE (try_map (kalloc kernel_end PAGESIZE) (fresh_iter (bytes s2) ?r addr) pa 7 s2)
            (\<lambda>(r, it', s3).
            if r < 0 then bindE (kfree pa s3) (\<lambda>s4. Inr (- 1, k\<lparr>phys := s4\<rparr>))
            else Inr (0, k\<lparr>phys := s3\<rparr>))"
      using page(2) al vi valid_guard [OF page(1)]
      by (simp add: syscall_page_alloc_def s2_def Let_def)
    show ?thesis
    proof (cases rule: page_alloc_memory [OF inv r page(1) al page(2) s2_def])
      case (1 s3)
      then show ?thesis using run page(1) kinv_phys [OF assms(1)] root by (auto simp: space_def)
    next
      case (2 s3 s4)
      then show ?thesis using run page(1) kinv_phys [OF assms(1)] root by (auto simp: space_def)
    qed
  qed
qed

text \<open>A kernel with one process whose page table is empty.\<close>

definition sample_kernel :: kernel where
  "sample_kernel =
     \<lparr>phys = sample_kmem,
      ptable = \<lambda>i. \<lparr>pagetable = (if i = 1 then 0x1000 else 0), pid = int i, state = (if i = 1 then P_RUNNABLE else P_FREE),
        regs = \<lparr>reg_rax = 0, reg_rcx = 0, reg_rdx = 0, reg_rbx = 0, reg_rbp = 0, reg_rsi = 0, reg_rdi = 0,
          reg_r8 = 0, reg_r9 = 0, reg_r10 = 0, reg_r11 = 0, reg_r12 = 0, reg_r13 = 0, reg_r14 = 0, reg_r15 = 0,
          reg_fs = 0, reg_gs = 0, reg_intno = 0, reg_swapgs = 0, reg_errcode = 0, reg_rip = 0, reg_cs = 0,
          reg_rflags = 0, reg_rsp = 0, reg_ss = 0\<rparr>\<rparr>,
      current = 1\<rparr>"

lemma sample_live: "live sample_kernel = {1}" "proc_roots sample_kernel = {0x1000}"
  by (auto simp: live_def proc_roots_def sample_kernel_def)

lemma translate_zero: "translate (\<lambda>_. 0) r va = None"
  by (simp add: translate_def ld64_def Let_def)

lemma ptree_ok_zero: "ptree_ok (\<lambda>_. 0) r"
  by (simp add: ptree_ok_def ld64_def entry_ok_0)

lemma sample_kinv: "kinv 0x50000 0x40000 sample_kernel"
proof -
  let ?s = sample_kmem
  have b: "bytes ?s = (\<lambda>_. 0)" by (simp add: sample_kmem_def)
  have al: "\<forall>r \<in> {0x40000, 0x1000}. page_aligned r" by (simp add: page_aligned_def)
  have "\<not> allocatable_physical_address 0x50000 0x40000" by code_simp
  then have "{0x40000, 0x1000} \<inter> avail 0x50000 ?s = {}"
    by (auto simp: avail_def sample_kmem_def used_def)
  then have "as_inv (avail 0x50000) 0x40000 {0x1000} ?s"
    using forest_zero [OF al]
    by (simp add: as_inv_def pt_good_def b ptree_ok_zero frames_ok_def exclusive_def user_map_def translate_zero)
  then show ?thesis by (simp add: kinv_def sample_live) (simp add: sample_kernel_def)
qed

theorem page_alloc_spec_witness:
  "\<exists>r k'. syscall_page_alloc 0x50000 0x100000 sample_kernel = Inr (r, k') \<and> kinv 0x50000 0x40000 k'
     \<and> (r = 0 \<and> space k' 1 0x100123 = Some (Byte 0) \<or> r = - 1)"
proof -
  have c: "current sample_kernel \<in> live sample_kernel" by (simp add: sample_live) (simp add: sample_kernel_def)
  have v: "valid_user_page 0x100000" "same_above 0 0x100000 0x100123"
    using xor_outside_mask [of "0x100000" "0x100123" 0]
    by (simp_all add: valid_user_page_def page_aligned_def pageoffmask_def push_bit_eq_mult)
  have cur: "current sample_kernel = 1" by (simp add: sample_kernel_def)
  from page_alloc_spec [OF sample_kinv c, where addr = "0x100000"] v show ?thesis
    unfolding sample_live cur by auto
qed

end
