(* ===== verification/Devices.thy ===== *)
theory Devices
  imports X86
begin

text \<open>
  Devices of the machine: programmed and memory-mapped input and output (\<open>x86-64.h\<close>), PCI
  configuration space (\<open>k-pci.hh\<close>, \<open>k-hardware.cc\<close>) and the interrupt controllers (\<open>k-apic.hh\<close>).
  What a device answers is a parameter: a function of everything that was sent to it before.
\<close>

section \<open>Input and output\<close>

datatype io_event =
    In8 u16 | In16 u16 | In32 u16
  | Out8 u16 u8 | Out16 u16 u16 | Out32 u16 u32
  | Load32 addr | Store32 addr u32

record io =
  device :: "io_event list \<Rightarrow> io_event \<Rightarrow> u32"
  events :: "io_event list"

definition io_do :: "io_event \<Rightarrow> io \<Rightarrow> io" where
  "io_do e s = s\<lparr>events := events s @ [e]\<rparr>"

definition io_ask :: "io_event \<Rightarrow> io \<Rightarrow> u32 \<times> io" where
  "io_ask e s = (device s (events s) e, io_do e s)"

definition inb :: "u16 \<Rightarrow> io \<Rightarrow> u8 \<times> io" where
  "inb port s = (let (v, s') = io_ask (In8 port) s in (ucast v, s'))"

definition inw :: "u16 \<Rightarrow> io \<Rightarrow> u16 \<times> io" where
  "inw port s = (let (v, s') = io_ask (In16 port) s in (ucast v, s'))"

definition inl :: "u16 \<Rightarrow> io \<Rightarrow> u32 \<times> io" where
  "inl port s = io_ask (In32 port) s"

definition outb :: "u16 \<Rightarrow> u8 \<Rightarrow> io \<Rightarrow> io" where
  "outb port v s = io_do (Out8 port v) s"

definition outw :: "u16 \<Rightarrow> u16 \<Rightarrow> io \<Rightarrow> io" where
  "outw port v s = io_do (Out16 port v) s"

definition outl :: "u16 \<Rightarrow> u32 \<Rightarrow> io \<Rightarrow> io" where
  "outl port v s = io_do (Out32 port v) s"

text \<open>\<open>cnt\<close> words read from a port into memory, lowest address first.\<close>

definition st32 :: "mem \<Rightarrow> addr \<Rightarrow> u32 \<Rightarrow> mem" where
  "st32 m a v =
     m(a := ucast v, a + 1 := ucast (drop_bit 8 v), a + 2 := ucast (drop_bit 16 v), a + 3 := ucast (drop_bit 24 v))"

primrec insl :: "u16 \<Rightarrow> addr \<Rightarrow> nat \<Rightarrow> mem \<Rightarrow> io \<Rightarrow> mem \<times> io" where
  "insl port a 0 m s = (m, s)"
| "insl port a (Suc cnt) m s = (let (v, s') = inl port s in insl port (a + 4) cnt (st32 m a v) s')"

lemma io_do_sel [simp]: "device (io_do e s) = device s" "events (io_do e s) = events s @ [e]"
  by (simp_all add: io_do_def)

section \<open>PCI configuration space\<close>

text \<open>Addresses of PCI functions are of type \<open>int\<close>; the assertions are those of the source.\<close>

definition make_addr :: "int \<Rightarrow> int \<Rightarrow> int \<Rightarrow> fault + int" where
  "make_addr bus slot func =
     bindE (guardE (0 \<le> bus \<and> bus < 256) Assert_fail) (\<lambda>_.
     bindE (guardE (0 \<le> slot \<and> slot < 32) Assert_fail) (\<lambda>_.
     bindE (guardE (0 \<le> func \<and> func < 8) Assert_fail) (\<lambda>_.
     Inr (push_bit 16 bus OR push_bit 11 slot OR push_bit 8 func))))"

definition addr_bus :: "int \<Rightarrow> fault + int" where
  "addr_bus addr = bindE (guardE (0 \<le> addr \<and> addr < 0x1000000) Assert_fail) (\<lambda>_. Inr (drop_bit 16 addr))"

definition addr_slot :: "int \<Rightarrow> fault + int" where
  "addr_slot addr = bindE (guardE (0 \<le> addr \<and> addr < 0x1000000) Assert_fail) (\<lambda>_. Inr (drop_bit 11 addr AND 0x1F))"

definition addr_func :: "int \<Rightarrow> fault + int" where
  "addr_func addr = bindE (guardE (0 \<le> addr \<and> addr < 0x1000000) Assert_fail) (\<lambda>_. Inr (drop_bit 8 addr AND 0x7))"

abbreviation (input) config_addr_port :: u16 where "config_addr_port \<equiv> 0xCF8"
abbreviation (input) config_data_port :: u16 where "config_data_port \<equiv> 0xCFC"
abbreviation (input) config_vendor :: int where "config_vendor \<equiv> 0"
abbreviation (input) config_command :: int where "config_command \<equiv> 4"
abbreviation (input) config_lthb :: int where "config_lthb \<equiv> 12"
abbreviation (input) addr_end :: int where "addr_end \<equiv> 0x80000"

definition pci_select :: "int \<Rightarrow> io \<Rightarrow> io" where
  "pci_select addr s = outl config_addr_port (0x80000000 OR word_of_int addr) s"

definition pci_readl :: "int \<Rightarrow> io \<Rightarrow> fault + (u32 \<times> io)" where
  "pci_readl addr s =
     bindE (guardE (addr \<ge> 0 \<and> addr AND 3 = 0) Assert_fail) (\<lambda>_. Inr (inl config_data_port (pci_select addr s)))"

definition pci_readw :: "int \<Rightarrow> io \<Rightarrow> fault + (u16 \<times> io)" where
  "pci_readw addr s =
     bindE (guardE (addr \<ge> 0 \<and> addr AND 1 = 0) Assert_fail) (\<lambda>_.
       Inr (inw (config_data_port + word_of_int (addr AND 3)) (pci_select addr s)))"

definition pci_readb :: "int \<Rightarrow> io \<Rightarrow> fault + (u8 \<times> io)" where
  "pci_readb addr s =
     bindE (guardE (addr \<ge> 0) Assert_fail) (\<lambda>_.
       Inr (inb (config_data_port + word_of_int (addr AND 3)) (pci_select addr s)))"

definition pci_writel :: "int \<Rightarrow> u32 \<Rightarrow> io \<Rightarrow> fault + io" where
  "pci_writel addr data s =
     bindE (guardE (addr \<ge> 0 \<and> addr AND 3 = 0) Assert_fail) (\<lambda>_. Inr (outl config_data_port data (pci_select addr s)))"

text \<open>The narrow writes add the byte offset to the data, not to the port.\<close>

definition pci_writew :: "int \<Rightarrow> u16 \<Rightarrow> io \<Rightarrow> fault + io" where
  "pci_writew addr data s =
     bindE (guardE (addr \<ge> 0 \<and> addr AND 1 = 0) Assert_fail) (\<lambda>_.
       Inr (outw config_data_port (data + word_of_int (addr AND 3)) (pci_select addr s)))"

definition pci_writeb :: "int \<Rightarrow> u8 \<Rightarrow> io \<Rightarrow> fault + io" where
  "pci_writeb addr data s =
     bindE (guardE (addr \<ge> 0) Assert_fail) (\<lambda>_.
       Inr (outb config_data_port (data + word_of_int (addr AND 3)) (pci_select addr s)))"

definition pci_enable :: "int \<Rightarrow> io \<Rightarrow> fault + io" where
  "pci_enable addr s = pci_writew (addr + config_command) 0x0007 s"

text \<open>The distance that \<open>pcistate::next\<close> advances, given the header-type word at \<open>addr\<close>.\<close>

definition pci_advance :: "int \<Rightarrow> u32 \<Rightarrow> fault + int" where
  "pci_advance addr x =
     bindE (addr_func addr) (\<lambda>f.
       if f = 0 \<and> (x = - 1 \<or> x AND 0x800000 = 0) then make_addr 0 1 0 else make_addr 0 0 1)"

lemma pci_advance_cases: "pci_advance addr x = Inr d \<Longrightarrow> d = 0x800 \<or> d = 0x100"
  by (auto simp: pci_advance_def make_addr_def bindE_Inr_iff split: if_splits)

function pci_next_loop :: "int \<Rightarrow> u32 \<Rightarrow> io \<Rightarrow> fault + (int \<times> io)" where
  "pci_next_loop addr x s =
     bindE (pci_advance addr x) (\<lambda>d.
       if addr + d \<ge> addr_end then Inr (- 1, s)
       else bindE (pci_readl (addr + d + config_lthb) s) (\<lambda>(x', s').
         if x' \<noteq> - 1 then Inr (addr + d, s') else pci_next_loop (addr + d) x' s'))"
  by pat_completeness auto
termination
  by (relation "measure (\<lambda>(addr, x, s). nat (addr_end - addr))") (auto dest!: pci_advance_cases)

declare pci_next_loop.simps [simp del]

definition pci_next :: "int \<Rightarrow> io \<Rightarrow> fault + (int \<times> io)" where
  "pci_next addr s = bindE (pci_readl (addr + config_lthb) s) (\<lambda>(x, s'). pci_next_loop addr x s')"

lemma pci_next_progress:
  "pci_next_loop addr x s = Inr (a, s') \<Longrightarrow> a = - 1 \<or> addr < a \<and> a < addr_end"
proof (induction addr x s rule: pci_next_loop.induct)
  case (1 addr x s)
  from 1(2) obtain d where d: "pci_advance addr x = Inr d"
      "(if addr + d \<ge> addr_end then Inr (- 1, s)
       else bindE (pci_readl (addr + d + config_lthb) s) (\<lambda>(x', s').
         if x' \<noteq> - 1 then Inr (addr + d, s') else pci_next_loop (addr + d) x' s')) = Inr (a, s')"
    by (subst (asm) pci_next_loop.simps) (auto simp: bindE_Inr_iff)
  have pos: "0 < d" using pci_advance_cases [OF d(1)] by auto
  show ?case
  proof (cases "addr + d \<ge> addr_end")
    case True
    with d show ?thesis by simp
  next
    case False
    with d obtain x1 s1 where r: "pci_readl (addr + d + config_lthb) s = Inr (x1, s1)"
        "(if x1 \<noteq> - 1 then Inr (addr + d, s1) else pci_next_loop (addr + d) x1 s1) = Inr (a, s')"
      by (auto simp: bindE_Inr_iff)
    then show ?thesis using 1(1) [OF d(1) False r(1) refl] pos False by (auto split: if_splits)
  qed
qed

text \<open>
  \<open>pcistate::find\<close>: the first function from \<open>addr\<close> on that satisfies a predicate, which may itself do
  input and output. Each step of \<open>next\<close> goes up, and the address space is finite.
\<close>

function pci_find :: "(int \<Rightarrow> io \<Rightarrow> fault + (bool \<times> io)) \<Rightarrow> int \<Rightarrow> io \<Rightarrow> fault + (int \<times> io)" where
  "pci_find pred addr s =
     (if addr \<ge> 0 then
        bindE (pred addr s) (\<lambda>(b, s1).
          if b then Inr (addr, s1) else bindE (pci_next addr s1) (\<lambda>(a, s2). pci_find pred a s2))
      else Inr (addr, s))"
  by pat_completeness auto
termination
proof (relation "measure (\<lambda>(pred, addr, s). if addr < 0 then 0 else Suc (nat (addr_end - addr)))", goal_cases)
  case (2 pred addr s x b s1 y a s2)
  then have "a = - 1 \<or> addr < a \<and> a < addr_end"
    by (auto simp: pci_next_def bindE_Inr_iff dest!: pci_next_progress)
  then show ?case using 2 by auto
qed simp

declare pci_find.simps [simp del]

section \<open>Interrupt controllers\<close>

abbreviation (input) lapic_pa :: addr where "lapic_pa \<equiv> 0xFEE00000"
abbreviation (input) ioapic_pa :: addr where "ioapic_pa \<equiv> 0xFEC00000"

text \<open>Registers are 16 bytes apart; there are \<open>0x40\<close> of them in the local APIC and two in the IOAPIC.\<close>

definition lapic_read :: "nat \<Rightarrow> io \<Rightarrow> fault + (u32 \<times> io)" where
  "lapic_read reg s =
     bindE (guardE (reg < 0x40) Out_of_bounds) (\<lambda>_. Inr (io_ask (Load32 (lapic_pa + 16 * of_nat reg)) s))"

definition lapic_write :: "nat \<Rightarrow> u32 \<Rightarrow> io \<Rightarrow> fault + io" where
  "lapic_write reg v s =
     bindE (guardE (reg < 0x40) Out_of_bounds) (\<lambda>_. Inr (io_do (Store32 (lapic_pa + 16 * of_nat reg) v) s))"

definition lapic_id :: "io \<Rightarrow> fault + (u32 \<times> io)" where
  "lapic_id s = bindE (lapic_read 0x02 s) (\<lambda>(v, s'). Inr (drop_bit 24 v, s'))"

definition enable_lapic :: "u32 \<Rightarrow> io \<Rightarrow> fault + io" where
  "enable_lapic vector s =
     bindE (lapic_read 0x0F s) (\<lambda>(v, s'). lapic_write 0x0F ((v AND NOT 0xFF) OR 0x100 OR vector) s')"

definition disable_lapic :: "io \<Rightarrow> fault + io" where
  "disable_lapic s = bindE (lapic_read 0x0F s) (\<lambda>(v, s'). lapic_write 0x0F (v AND NOT 0x100) s')"

definition lapic_error :: "io \<Rightarrow> fault + (u32 \<times> io)" where
  "lapic_error s = bindE (lapic_write 0x28 0 s) (lapic_read 0x28)"

definition lapic_ack :: "io \<Rightarrow> fault + io" where
  "lapic_ack s = lapic_write 0x0B 0 s"

definition ipi_others :: "u32 \<Rightarrow> u32 \<Rightarrow> io \<Rightarrow> fault + io" where
  "ipi_others t vector s = lapic_write 0x30 (0xC0000 OR 0x4000 OR t OR vector) s"

definition ipi_pending :: "io \<Rightarrow> fault + (bool \<times> io)" where
  "ipi_pending s = bindE (lapic_read 0x30 s) (\<lambda>(v, s'). Inr (v AND 0x1000 \<noteq> 0, s'))"

definition ioapic_read :: "u32 \<Rightarrow> io \<Rightarrow> u32 \<times> io" where
  "ioapic_read reg s = io_ask (Load32 (ioapic_pa + 16)) (io_do (Store32 ioapic_pa reg) s)"

definition ioapic_write :: "u32 \<Rightarrow> u32 \<Rightarrow> io \<Rightarrow> io" where
  "ioapic_write reg v s = io_do (Store32 (ioapic_pa + 16) v) (io_do (Store32 ioapic_pa reg) s)"

definition ioapic_id :: "io \<Rightarrow> u32 \<times> io" where
  "ioapic_id s = (let (v, s') = ioapic_read 0 s in (drop_bit 24 v, s'))"

definition enable_irq :: "u32 \<Rightarrow> u32 \<Rightarrow> u32 \<Rightarrow> io \<Rightarrow> io" where
  "enable_irq n vector cpu s =
     ioapic_write (0x10 + 2 * n + 1) (push_bit 24 cpu) (ioapic_write (0x10 + 2 * n) vector s)"

definition disable_irq :: "u32 \<Rightarrow> io \<Rightarrow> io" where
  "disable_irq n s = ioapic_write (0x10 + 2 * n + 1) 0 (ioapic_write (0x10 + 2 * n) 0x10000 s)"

text \<open>\<open>init_timer\<close> of \<open>k-hardware.cc\<close>: the initial count of the periodic timer.\<close>

definition init_timer :: "int \<Rightarrow> io \<Rightarrow> fault + io" where
  "init_timer rate s =
     (if rate > 0 then lapic_write 0x38 (word_of_int (1000000000 div rate)) s else lapic_write 0x38 0 s)"

section \<open>Properties\<close>

lemma or_low_bits: "0 \<le> a \<Longrightarrow> a < 2 ^ n \<Longrightarrow> push_bit n b OR a = push_bit n b + (a :: int)"
proof -
  assume "0 \<le> a" "a < 2 ^ n"
  then have "a = take_bit n a" by (simp add: take_bit_int_eq_self)
  moreover have "push_bit n b AND take_bit n a = 0" by (rule bit_eqI) (auto simp: bit_simps)
  ultimately have "push_bit n b AND a = 0" by metis
  then show ?thesis by (simp add: disjunctive_add_eq_or)
qed

lemma and_low_mask: "x AND (2 ^ n - 1) = (x :: int) mod 2 ^ n"
  by (simp add: take_bit_eq_mod [symmetric] take_bit_eq_mask mask_eq_exp_minus_1)

lemma and_31: "x AND 0x1F = (x :: int) mod 32" and and_7: "x AND 7 = (x :: int) mod 8" and and_3: "x AND 3 = (x :: int) mod 4"
  using and_low_mask [of x 5] and_low_mask [of x 3] and_low_mask [of x 2] by simp_all

lemma make_addr_value:
  assumes "0 \<le> bus" "bus < 256" "0 \<le> slot" "slot < 32" "0 \<le> func" "func < 8"
  shows "make_addr bus slot func = Inr (bus * 65536 + slot * 2048 + func * 256)"
proof -
  have "push_bit 11 slot OR push_bit 8 func = slot * 2048 + func * 256"
    using or_low_bits [of "push_bit 8 func" 11 slot] assms by (simp add: push_bit_eq_mult)
  moreover have "push_bit 16 bus OR (slot * 2048 + func * 256) = bus * 65536 + (slot * 2048 + func * 256)"
    using or_low_bits [of "slot * 2048 + func * 256" 16 bus] assms by (simp add: push_bit_eq_mult)
  ultimately show ?thesis using assms by (simp add: make_addr_def)
qed

lemma drop_bit_16: "drop_bit 16 a = (a :: int) div 65536" and drop_bit_11: "drop_bit 11 a = (a :: int) div 2048"
  and drop_bit_8: "drop_bit 8 a = (a :: int) div 256"
  by (simp_all add: drop_bit_eq_div)

text \<open>C35: The PCI address of a bus, slot and function number in range can be taken apart again into the
  three numbers, and every function address below \<open>2 ^ 24\<close> is the one made of its parts.\<close>

theorem pci_addr_roundtrip:
  assumes "0 \<le> bus" "bus < 256" "0 \<le> slot" "slot < 32" "0 \<le> func" "func < 8"
  shows "\<exists>a. make_addr bus slot func = Inr a \<and> 0 \<le> a \<and> a < 0x1000000 \<and> a mod 256 = 0
    \<and> addr_bus a = Inr bus \<and> addr_slot a = Inr slot \<and> addr_func a = Inr func"
proof -
  define a where "a = bus * 65536 + slot * 2048 + func * 256"
  have v: "make_addr bus slot func = Inr a" using make_addr_value [OF assms] by (simp add: a_def)
  have r: "0 \<le> a" "a < 0x1000000" using assms by (auto simp: a_def)
  have b: "a div 65536 = bus"
    unfolding a_def using assms by (intro int_div_pos_eq [where r = "slot * 2048 + func * 256"]) auto
  have "a div 2048 = bus * 32 + slot"
    unfolding a_def using assms by (intro int_div_pos_eq [where r = "func * 256"]) auto
  then have s: "a div 2048 mod 32 = slot" using assms by (intro int_mod_pos_eq [where q = bus]) auto
  have "a div 256 = (bus * 32 + slot) * 8 + func" by (simp add: a_def)
  then have f: "a div 256 mod 8 = func" using assms by (intro int_mod_pos_eq [where q = "bus * 32 + slot"]) auto
  have "a = 256 * (bus * 256 + slot * 8 + func)" by (simp add: a_def)
  then have "a mod 256 = 0" by simp
  moreover have "addr_bus a = Inr bus" unfolding addr_bus_def drop_bit_16 b using r by simp
  moreover have "addr_slot a = Inr slot" unfolding addr_slot_def drop_bit_11 and_31 s using r by simp
  moreover have "addr_func a = Inr func" unfolding addr_func_def drop_bit_8 and_7 f using r by simp
  ultimately show ?thesis using v r by (intro exI [of _ a] conjI)
qed

theorem pci_addr_roundtrip_witness:
  "\<exists>a. make_addr 1 2 3 = Inr a \<and> addr_bus a = Inr 1 \<and> addr_slot a = Inr 2 \<and> addr_func a = Inr 3"
  using pci_addr_roundtrip [of 1 2 3] by auto

lemma pci_advance_ok:
  assumes "0 \<le> addr" "addr < addr_end" "addr mod 256 = 0"
  obtains d where "pci_advance addr x = Inr d" "0 < d" "d \<le> 0x800" "(addr + d) mod 256 = 0"
proof -
  have f: "addr_func addr = Inr (addr div 256 mod 8)"
    using assms by (simp only: addr_func_def drop_bit_8 and_7) simp
  have "(addr + 0x800) mod 256 = 0" "(addr + 0x100) mod 256 = 0"
    using assms(3) mod_mult_self1 [of addr 8 256] by simp_all
  then show thesis
    using that f make_addr_value [of 0 1 0] make_addr_value [of 0 0 1]
    unfolding pci_advance_def by (cases "addr div 256 mod 8 = 0 \<and> (x = - 1 \<or> x AND 0x800000 = 0)") simp_all
qed

lemma pci_readl_ok: "0 \<le> addr \<Longrightarrow> addr mod 256 = 0 \<Longrightarrow> \<exists>x s'. pci_readl (addr + config_lthb) s = Inr (x, s')"
proof -
  assume "0 \<le> addr" "addr mod 256 = 0"
  then obtain k where "addr = 256 * k" by (metis mod_0_imp_dvd dvdE)
  then have "(addr + 12) mod 4 = 0" by simp
  then show ?thesis using \<open>0 \<le> addr\<close> by (simp add: pci_readl_def and_3 inl_def io_ask_def)
qed

lemma pci_next_loop_ok:
  assumes "0 \<le> addr" "addr < addr_end" "addr mod 256 = 0"
  shows "\<exists>a s'. pci_next_loop addr x s = Inr (a, s')
    \<and> (a = - 1 \<or> addr < a \<and> a < addr_end \<and> a mod 256 = 0
        \<and> (\<exists>s1 x'. pci_readl (a + config_lthb) s1 = Inr (x', s') \<and> x' \<noteq> - 1))"
  using assms
proof (induction "nat (addr_end - addr)" arbitrary: addr x s rule: less_induct)
  case less
  obtain d where d: "pci_advance addr x = Inr d" "0 < d" "d \<le> 0x800" "(addr + d) mod 256 = 0"
    using pci_advance_ok [OF less.prems] by blast
  obtain x1 s1 where r: "pci_readl (addr + d + config_lthb) s = Inr (x1, s1)"
    using pci_readl_ok [OF _ d(4), of s] d(2) less.prems(1) by auto
  note step = pci_next_loop.simps [of addr x s]
  show ?case
  proof (cases "addr + d < addr_end \<and> x1 = - 1")
    case True
    have "\<exists>a s'. pci_next_loop (addr + d) x1 s1 = Inr (a, s')
      \<and> (a = - 1 \<or> addr + d < a \<and> a < addr_end \<and> a mod 256 = 0
        \<and> (\<exists>s1 x'. pci_readl (a + config_lthb) s1 = Inr (x', s') \<and> x' \<noteq> - 1))"
      using d less.prems True by (intro less.hyps) auto
    then show ?thesis using step d(1,2) r True by fastforce
  next
    case False
    then show ?thesis using step d r less.prems by auto
  qed
qed

text \<open>C34: From a function address below \<open>addr_end\<close>, \<open>pcistate::next\<close> always ends without failing an
  assertion. It returns -1, or a later function address below \<open>addr_end\<close> whose configuration word,
  read last, is present.\<close>

theorem pci_next_total:
  assumes "0 \<le> addr" "addr < addr_end" "addr mod 256 = 0"
  shows "\<exists>a s'. pci_next addr s = Inr (a, s')
    \<and> (a = - 1 \<or> addr < a \<and> a < addr_end \<and> a mod 256 = 0
        \<and> (\<exists>s1 x'. pci_readl (a + config_lthb) s1 = Inr (x', s') \<and> x' \<noteq> - 1))"
proof -
  obtain x s1 where "pci_readl (addr + config_lthb) s = Inr (x, s1)" using pci_readl_ok [OF assms(1,3)] by blast
  then show ?thesis using pci_next_loop_ok [OF assms, of x s1] by (simp add: pci_next_def)
qed

theorem pci_next_total_witness:
  "\<exists>a s'. pci_next 0 \<lparr>device = \<lambda>_ _. - 1, events = []\<rparr> = Inr (a, s') \<and> (a = - 1 \<or> 0 < a \<and> a < addr_end)"
  using pci_next_total [of 0 "\<lparr>device = \<lambda>_ _. - 1, events = []\<rparr>"] by auto

lemma pci_find_ok:
  assumes "0 \<le> addr" "addr < addr_end" "addr mod 256 = 0"
    and "\<And>a s. 0 \<le> a \<Longrightarrow> a < addr_end \<Longrightarrow> a mod 256 = 0 \<Longrightarrow> \<exists>b s'. pred a s = Inr (b, s')"
  shows "\<exists>a s'. pci_find pred addr s = Inr (a, s')
    \<and> (a = - 1 \<or> addr \<le> a \<and> a < addr_end \<and> a mod 256 = 0 \<and> (\<exists>s1. pred a s1 = Inr (True, s')))"
  using assms(1-3)
proof (induction "nat (addr_end - addr)" arbitrary: addr s rule: less_induct)
  case less
  obtain b s1 where p: "pred addr s = Inr (b, s1)" using assms(4) [OF less.prems] by blast
  note step = pci_find.simps [of pred addr s]
  show ?case
  proof (cases b)
    case True
    then show ?thesis using step p less.prems by auto
  next
    case False
    obtain a s2 where n: "pci_next addr s1 = Inr (a, s2)" "a = - 1 \<or> addr < a \<and> a < addr_end \<and> a mod 256 = 0"
    proof -
      obtain x s3 where r: "pci_readl (addr + config_lthb) s1 = Inr (x, s3)" using pci_readl_ok [OF less.prems(1,3)] by blast
      show thesis using that pci_next_loop_ok [OF less.prems, of x s3] r by (auto simp: pci_next_def)
    qed
    show ?thesis
    proof (cases "a = - 1")
      case True
      then show ?thesis using step p False n less.prems by (auto simp: pci_find.simps [of pred "- 1"])
    next
      case a: False
      have "\<exists>a' s'. pci_find pred a s2 = Inr (a', s')
        \<and> (a' = - 1 \<or> a \<le> a' \<and> a' < addr_end \<and> a' mod 256 = 0 \<and> (\<exists>s1. pred a' s1 = Inr (True, s')))"
        using a n less.prems by (intro less.hyps) auto
      then show ?thesis using step p False n a less.prems by fastforce
    qed
  qed
qed

end
