(* ===== verification/Hardware.thy ===== *)
theory Hardware
  imports Kernel Devices
begin

text \<open>
  Processor set-up of \<open>k-hardware.cc\<close>: segment and gate descriptors, the interrupt descriptor table,
  control and model-specific registers, the local interrupt controller, the registers of a new
  process, the text cursor, and turning the machine off. The results are that the fields of a
  descriptor are read back as they were given, and that user code can raise the breakpoint gate only.
\<close>

section \<open>State\<close>

text \<open>
  \<open>link\<close> holds the addresses that the linker gives to the objects of the kernel: \<open>_data_start\<close>, \<open>_edata\<close>,
  \<open>_kernel_end\<close>, \<open>kernel_pagetable\<close>, \<open>kernel_gdt_segments\<close>, \<open>kernel_taskstate\<close>, \<open>interrupt_descriptors\<close>,
  the two entry points of \<open>k-exception.S\<close>, and the string constants that \<open>check_keyboard\<close> passes on.
\<close>

record link =
  l_data_start :: addr
  l_edata :: addr
  l_kernel_end :: addr
  l_pagetable :: addr
  l_gdt :: addr
  l_taskstate :: addr
  l_idt :: addr
  l_exception_entry :: addr
  l_syscall_entry :: addr
  l_arguments :: addr

record gatedescriptor =
  gd_low :: u64
  gd_high :: u64

record pseudodescriptor =
  limit :: u16
  base :: u64

record taskstate =
  ts_rsp :: "nat \<Rightarrow> u64"
  ts_ist :: "nat \<Rightarrow> u64"
  ts_iomap_base :: u16

record cpu =
  gdt_segments :: "nat \<Rightarrow> u64"
  kernel_taskstate :: taskstate
  interrupt_descriptors :: "nat \<Rightarrow> gatedescriptor"
  gdtr :: pseudodescriptor
  idtr :: pseudodescriptor
  tr :: u16
  fs :: u16
  gs :: u16
  cr0 :: u64
  cr3 :: u64
  msr :: "u32 \<Rightarrow> u64"
  cpuid_edx :: u32

abbreviation (input) X86SEG_S :: u64 where "X86SEG_S \<equiv> 0x100000000000"
abbreviation (input) X86SEG_P :: u64 where "X86SEG_P \<equiv> 0x800000000000"
abbreviation (input) X86SEG_L :: u64 where "X86SEG_L \<equiv> 0x20000000000000"
abbreviation (input) X86SEG_W :: u64 where "X86SEG_W \<equiv> 0x20000000000"
abbreviation (input) X86SEG_X :: u64 where "X86SEG_X \<equiv> 0x80000000000"
abbreviation (input) X86SEG_TSS :: u64 where "X86SEG_TSS \<equiv> 0x90000000000"
abbreviation (input) X86GATE_INTERRUPT :: int where "X86GATE_INTERRUPT \<equiv> 0xE"

abbreviation (input) SEGSEL_KERN_CODE :: u64 where "SEGSEL_KERN_CODE \<equiv> 0x8"
abbreviation (input) SEGSEL_KERN_DATA :: u64 where "SEGSEL_KERN_DATA \<equiv> 0x10"
abbreviation (input) SEGSEL_APP_CODE :: u64 where "SEGSEL_APP_CODE \<equiv> 0x18"
abbreviation (input) SEGSEL_APP_DATA :: u64 where "SEGSEL_APP_DATA \<equiv> 0x20"
abbreviation (input) SEGSEL_TASKSTATE :: u64 where "SEGSEL_TASKSTATE \<equiv> 0x28"

abbreviation (input) INT_BP :: nat where "INT_BP \<equiv> 3"
abbreviation (input) INT_IRQ :: u32 where "INT_IRQ \<equiv> 32"
abbreviation (input) IRQ_TIMER :: u32 where "IRQ_TIMER \<equiv> 0"
abbreviation (input) IRQ_ERROR :: u32 where "IRQ_ERROR \<equiv> 19"
abbreviation (input) IRQ_SPURIOUS :: u32 where "IRQ_SPURIOUS \<equiv> 31"

abbreviation (input) EFLAGS_TF :: u64 where "EFLAGS_TF \<equiv> 0x100"
abbreviation (input) EFLAGS_IF :: u64 where "EFLAGS_IF \<equiv> 0x200"
abbreviation (input) EFLAGS_DF :: u64 where "EFLAGS_DF \<equiv> 0x400"
abbreviation (input) EFLAGS_IOPL_MASK :: u64 where "EFLAGS_IOPL_MASK \<equiv> 0x3000"
abbreviation (input) EFLAGS_IOPL_3 :: u64 where "EFLAGS_IOPL_3 \<equiv> 0x3000"
abbreviation (input) EFLAGS_NT :: u64 where "EFLAGS_NT \<equiv> 0x4000"
abbreviation (input) EFLAGS_AC :: u64 where "EFLAGS_AC \<equiv> 0x40000"

abbreviation (input) CR0_PE :: u32 where "CR0_PE \<equiv> 0x1"
abbreviation (input) CR0_MP :: u32 where "CR0_MP \<equiv> 0x2"
abbreviation (input) CR0_NE :: u32 where "CR0_NE \<equiv> 0x20"
abbreviation (input) CR0_WP :: u32 where "CR0_WP \<equiv> 0x10000"
abbreviation (input) CR0_AM :: u32 where "CR0_AM \<equiv> 0x40000"
abbreviation (input) CR0_PG :: u32 where "CR0_PG \<equiv> 0x80000000"

abbreviation (input) MSR_IA32_APIC_BASE :: u32 where "MSR_IA32_APIC_BASE \<equiv> 0x1B"
abbreviation (input) MSR_IA32_STAR :: u32 where "MSR_IA32_STAR \<equiv> 0xC0000081"
abbreviation (input) MSR_IA32_LSTAR :: u32 where "MSR_IA32_LSTAR \<equiv> 0xC0000082"
abbreviation (input) MSR_IA32_FMASK :: u32 where "MSR_IA32_FMASK \<equiv> 0xC0000084"
abbreviation (input) IA32_APIC_BASE_ENABLED :: u64 where "IA32_APIC_BASE_ENABLED \<equiv> 0x800"

section \<open>Processor registers\<close>

definition rdcr0 :: "cpu \<Rightarrow> u32" where
  "rdcr0 c = ucast (cr0 c)"

definition wrcr0 :: "u32 \<Rightarrow> cpu \<Rightarrow> cpu" where
  "wrcr0 v c = c\<lparr>cr0 := ucast v\<rparr>"

definition wrcr3 :: "u64 \<Rightarrow> cpu \<Rightarrow> cpu" where
  "wrcr3 v c = c\<lparr>cr3 := v\<rparr>"

definition rdmsr :: "u32 \<Rightarrow> cpu \<Rightarrow> u64" where
  "rdmsr r c = msr c r"

definition wrmsr :: "u32 \<Rightarrow> u64 \<Rightarrow> cpu \<Rightarrow> cpu" where
  "wrmsr r v c = c\<lparr>msr := (msr c)(r := v)\<rparr>"

section \<open>Descriptors\<close>

definition set_app_segment :: "u64 \<Rightarrow> int \<Rightarrow> u64" where
  "set_app_segment ty dpl = ty OR X86SEG_S OR push_bit 45 (word_of_int dpl) OR X86SEG_P"

definition set_sys_segment :: "u64 \<Rightarrow> u64 \<Rightarrow> u64 \<Rightarrow> int \<Rightarrow> u64 \<times> u64" where
  "set_sys_segment addr sz ty dpl =
     (push_bit 16 (addr AND 0xFFFFFF) OR push_bit 32 (addr AND 0xFF000000)
        OR ((sz - 1) AND 0xFFFF) OR push_bit 48 ((sz - 1) AND 0xF0000)
        OR ty OR push_bit 45 (word_of_int dpl) OR X86SEG_P,
      drop_bit 32 addr)"

definition set_gate :: "u64 \<Rightarrow> int \<Rightarrow> int \<Rightarrow> int \<Rightarrow> fault + gatedescriptor" where
  "set_gate addr ty dpl ist =
     bindE (guardE ((word_of_int ty :: u32) < 16 \<and> (word_of_int dpl :: u32) < 4 \<and> (word_of_int ist :: u32) < 8) Assert_fail)
       (\<lambda>_. Inr \<lparr>gd_low = (addr AND 0xFFFF) OR push_bit 16 SEGSEL_KERN_CODE OR push_bit 32 (word_of_int ist)
            OR push_bit 40 (word_of_int ty) OR push_bit 45 (word_of_int dpl) OR X86SEG_P
            OR push_bit 32 (addr AND 0xFFFF0000),
          gd_high = drop_bit 32 addr\<rparr>)"

section \<open>init_interrupts and init_cpu_state\<close>

definition init_gate :: "nat \<Rightarrow> cpu \<Rightarrow> fault + cpu" where
  "init_gate i c =
     bindE (set_gate (gd_low (interrupt_descriptors c i)) X86GATE_INTERRUPT (if i = INT_BP then 3 else 0) 0)
       (\<lambda>g. Inr (c\<lparr>interrupt_descriptors := (interrupt_descriptors c)(i := g)\<rparr>))"

function init_gates :: "nat \<Rightarrow> cpu \<Rightarrow> fault + cpu" where
  "init_gates i c = (if i < 256 then bindE (init_gate i c) (init_gates (i + 1)) else Inr c)"
  by pat_completeness auto
termination by (relation "measure (\<lambda>(i, c). 256 - i)") auto

declare init_gates.simps [simp del]

definition init_interrupts :: "cpu \<Rightarrow> io \<Rightarrow> fault + (cpu \<times> io)" where
  "init_interrupts c s =
     bindE (init_gates 0 c) (\<lambda>c1.
     bindE (guardE (cpuid_edx c1 AND 0x200 \<noteq> 0) Assert_fail) (\<lambda>_.
     let apic_base = rdmsr MSR_IA32_APIC_BASE c1 in
     bindE (guardE (apic_base AND IA32_APIC_BASE_ENABLED \<noteq> 0) Assert_fail) (\<lambda>_.
     bindE (guardE (apic_base AND 0xFFFFFFFFF000 = lapic_pa) Assert_fail) (\<lambda>_.
     Inr (c1, outb 0xA1 0xFF (outb 0x21 0xFF s))))))"

text \<open>The segments that \<open>init_kernel_memory\<close> sets up, and the table register it loads.\<close>

definition init_segments :: "link \<Rightarrow> cpu \<Rightarrow> cpu" where
  "init_segments l c =
     (let (t0, t1) = set_sys_segment (l_taskstate l) 104 X86SEG_TSS 0 in
      c\<lparr>gdt_segments := (gdt_segments c)
            (0 := 0,
             1 := set_app_segment (X86SEG_X OR X86SEG_L) 0,
             2 := set_app_segment X86SEG_W 0,
             3 := set_app_segment (X86SEG_X OR X86SEG_L) 3,
             4 := set_app_segment X86SEG_W 3,
             5 := t0, 6 := t1),
         gdtr := \<lparr>limit = 8 * 3 - 1, base = l_gdt l\<rparr>\<rparr>)"

text \<open>Registers of the local APIC: 0x32 timer vector, 0x35 and 0x36 interrupt lines, 0x37 error vector,
  0x38 initial count, 0x3E divider.\<close>

definition init_lapic :: "io \<Rightarrow> fault + io" where
  "init_lapic s =
     bindE (enable_lapic (INT_IRQ + IRQ_SPURIOUS) s) (\<lambda>s.
     bindE (lapic_write 0x3E 0x0B s) (\<lambda>s.
     bindE (lapic_write 0x32 (0x20000 OR (INT_IRQ + IRQ_TIMER)) s) (\<lambda>s.
     bindE (lapic_write 0x38 0 s) (\<lambda>s.
     bindE (lapic_write 0x35 0x10000 s) (\<lambda>s.
     bindE (lapic_write 0x36 0x10000 s) (\<lambda>s.
     bindE (lapic_write 0x37 (INT_IRQ + IRQ_ERROR) s) (\<lambda>s.
     bindE (lapic_error s) (\<lambda>(e, s).
     lapic_ack s))))))))"

definition init_cpu_state :: "link \<Rightarrow> cpu \<Rightarrow> io \<Rightarrow> fault + (cpu \<times> io)" where
  "init_cpu_state l c s =
     (let c1 = c\<lparr>kernel_taskstate := \<lparr>ts_rsp = (\<lambda>_. 0)(0 := KERNEL_STACK_TOP), ts_ist = (\<lambda>_. 0), ts_iomap_base = 0\<rparr>,
                 gdtr := \<lparr>limit = 8 * 7 - 1, base = l_gdt l\<rparr>, tr := ucast SEGSEL_TASKSTATE,
                 idtr := \<lparr>limit = 16 * 256 - 1, base = l_idt l\<rparr>,
                 fs := ucast SEGSEL_KERN_DATA, gs := ucast SEGSEL_KERN_DATA\<rparr>;
          c2 = wrcr0 (rdcr0 c1 OR CR0_PE OR CR0_PG OR CR0_WP OR CR0_AM OR CR0_MP OR CR0_NE) c1;
          c3 = wrmsr MSR_IA32_STAR (push_bit 32 SEGSEL_KERN_CODE OR push_bit 48 SEGSEL_APP_CODE) c2;
          c4 = wrmsr MSR_IA32_LSTAR (l_syscall_entry l) c3;
          c5 = wrmsr MSR_IA32_FMASK (EFLAGS_TF OR EFLAGS_DF OR EFLAGS_IF OR EFLAGS_IOPL_MASK OR EFLAGS_AC OR EFLAGS_NT) c4
      in bindE (init_lapic s) (\<lambda>s'. Inr (c5, s')))"

section \<open>Processes, cursor, power\<close>

definition zero_regs :: regstate where
  "zero_regs =
     \<lparr>reg_rax = 0, reg_rcx = 0, reg_rdx = 0, reg_rbx = 0, reg_rbp = 0, reg_rsi = 0, reg_rdi = 0,
      reg_r8 = 0, reg_r9 = 0, reg_r10 = 0, reg_r11 = 0, reg_r12 = 0, reg_r13 = 0, reg_r14 = 0, reg_r15 = 0,
      reg_fs = 0, reg_gs = 0, reg_intno = 0, reg_swapgs = 0, reg_errcode = 0, reg_rip = 0, reg_cs = 0,
      reg_rflags = 0, reg_rsp = 0, reg_ss = 0\<rparr>"

definition init_process :: "int \<Rightarrow> proc \<Rightarrow> proc" where
  "init_process flags p =
     (let r0 = zero_regs\<lparr>reg_cs := ucast (SEGSEL_APP_CODE OR 3), reg_fs := SEGSEL_APP_DATA OR 3,
                 reg_gs := SEGSEL_APP_DATA OR 3, reg_ss := ucast (SEGSEL_APP_DATA OR 3), reg_rflags := EFLAGS_IF\<rparr>;
          r1 = (if flags AND 1 \<noteq> 0 then r0\<lparr>reg_rflags := reg_rflags r0 OR EFLAGS_IOPL_3\<rparr> else r0);
          r2 = (if flags AND 2 \<noteq> 0 then r1\<lparr>reg_rflags := reg_rflags r1 AND NOT EFLAGS_IF\<rparr> else r1)
      in p\<lparr>regs := r2\<rparr>)"

definition console_show_cursor :: "int \<Rightarrow> io \<Rightarrow> io" where
  "console_show_cursor cpos s =
     (let cpos = (if cpos < 0 \<or> cpos > 25 * 80 then 0 else cpos) in
      outb 0x3D5 (word_of_int (cpos mod 256)) (outb 0x3D4 15
        (outb 0x3D5 (word_of_int (cpos div 256)) (outb 0x3D4 14 s))))"

text \<open>The port accesses of \<open>poweroff\<close> before it prints and spins, and of \<open>reboot\<close> before it spins.\<close>

definition acpi_controller :: "int \<Rightarrow> io \<Rightarrow> fault + (bool \<times> io)" where
  "acpi_controller a s =
     bindE (pci_readl (a + config_vendor) s) (\<lambda>(vd, s'). Inr (vd = 0x71138086 \<or> vd = 0x29188086, s'))"

definition poweroff_ports :: "io \<Rightarrow> fault + io" where
  "poweroff_ports s =
     bindE (pci_find acpi_controller 0 s) (\<lambda>(addr, s1).
     if addr \<ge> 0 then
       bindE (pci_readl (addr + 0x40) s1) (\<lambda>(b, s2). Inr (outw (ucast ((b AND 0xFFC0) + 4)) 0x2000 s2))
     else Inr s1)"

definition reboot_ports :: "io \<Rightarrow> io" where
  "reboot_ports s = outb 0x92 3 s"

section \<open>Descriptors as the processor reads them\<close>

definition gate_offset :: "gatedescriptor \<Rightarrow> u64" where
  "gate_offset g =
     (gd_low g AND 0xFFFF) OR push_bit 16 (drop_bit 48 (gd_low g)) OR push_bit 32 (gd_high g AND 0xFFFFFFFF)"

definition gate_selector :: "gatedescriptor \<Rightarrow> u64" where
  "gate_selector g = drop_bit 16 (gd_low g) AND 0xFFFF"

definition gate_ist :: "gatedescriptor \<Rightarrow> u64" where
  "gate_ist g = drop_bit 32 (gd_low g) AND 0x7"

definition gate_type :: "gatedescriptor \<Rightarrow> u64" where
  "gate_type g = drop_bit 40 (gd_low g) AND 0x1F"

definition gate_dpl :: "gatedescriptor \<Rightarrow> u64" where
  "gate_dpl g = drop_bit 45 (gd_low g) AND 0x3"

definition gate_present :: "gatedescriptor \<Rightarrow> bool" where
  "gate_present g \<longleftrightarrow> bit (gd_low g) 47"

text \<open>Equality of 64-bit words bit by bit, for proofs on descriptors by evaluation.\<close>

lemma word64_eq_bits:
  "(a :: u64) = b \<longleftrightarrow> list_all (\<lambda>n. bit a n = bit b n)
     [0, 1, 2, 3, 4, 5, 6, 7, 8, 9, 10, 11, 12, 13, 14, 15, 16, 17, 18, 19, 20, 21, 22, 23, 24, 25, 26,
      27, 28, 29, 30, 31, 32, 33, 34, 35, 36, 37, 38, 39, 40, 41, 42, 43, 44, 45, 46, 47, 48, 49, 50, 51,
      52, 53, 54, 55, 56, 57, 58, 59, 60, 61, 62, 63]"
proof -
  have "[0..<64] =
     [0, 1, 2, 3, 4, 5, 6, 7, 8, 9, 10, 11, 12, 13, 14, 15, 16, 17, 18, 19, 20, 21, 22, 23, 24, 25, 26,
      27, 28, 29, 30, 31, 32, 33, 34, 35, 36, 37, 38, 39, 40, 41, 42, 43, 44, 45, 46, 47, 48, 49, 50, 51,
      52, 53, 54, 55, 56, 57, 58, 59, 60, 61, 62, 63]"
    by (simp add: upt_rec)
  moreover have "a = b \<longleftrightarrow> list_all (\<lambda>n. bit a n = bit b n) [0..<64]"
  proof
    assume eq: "list_all (\<lambda>n. bit a n = bit b n) [0..<64]"
    show "a = b" by (rule bit_word_eqI) (use eq in \<open>simp add: list_all_iff\<close>)
  qed (simp add: list_all_iff)
  ultimately show ?thesis by (simp only:)
qed

lemma small_bits: "0 \<le> i \<Longrightarrow> i < 2 ^ k \<Longrightarrow> k \<le> n \<Longrightarrow> \<not> bit (i :: int) n"
  by (metis bit_take_bit_iff linorder_not_less take_bit_int_eq_self)

lemma set_gate_fields:
  assumes "0 \<le> ty" "ty < 16" "0 \<le> dpl" "dpl < 4" "0 \<le> ist" "ist < 8"
  obtains g where "set_gate addr ty dpl ist = Inr g" "gate_offset g = addr" "gate_selector g = SEGSEL_KERN_CODE"
    "gate_ist g = word_of_int ist" "gate_type g = word_of_int ty" "gate_dpl g = word_of_int dpl" "gate_present g"
proof -
  have nb: "\<And>n. 4 \<le> n \<Longrightarrow> \<not> bit ty n" "\<And>n. 2 \<le> n \<Longrightarrow> \<not> bit dpl n" "\<And>n. 3 \<le> n \<Longrightarrow> \<not> bit ist n"
    using small_bits [of ty 4] small_bits [of dpl 2] small_bits [of ist 3] assms by auto
  have "(word_of_int ty :: u32) < 16" "(word_of_int dpl :: u32) < 4" "(word_of_int ist :: u32) < 8"
    using assms by (simp_all add: word_less_def uint_word_of_int)
  then have g: "set_gate addr ty dpl ist = Inr \<lparr>gd_low = (addr AND 0xFFFF) OR push_bit 16 SEGSEL_KERN_CODE OR push_bit 32 (word_of_int ist)
            OR push_bit 40 (word_of_int ty) OR push_bit 45 (word_of_int dpl) OR X86SEG_P
            OR push_bit 32 (addr AND 0xFFFF0000),
          gd_high = drop_bit 32 addr\<rparr>" (is "_ = Inr ?g")
    by (simp add: set_gate_def)
  note b = word64_eq_bits bit_simps nb
  have "gate_offset ?g = addr" unfolding gate_offset_def by (simp add: b)
  moreover have "gate_selector ?g = SEGSEL_KERN_CODE" unfolding gate_selector_def by (simp add: b)
  moreover have "gate_ist ?g = word_of_int ist" unfolding gate_ist_def by (simp add: b)
  moreover have "gate_type ?g = word_of_int ty" unfolding gate_type_def by (simp add: b)
  moreover have "gate_dpl ?g = word_of_int dpl" unfolding gate_dpl_def by (simp add: b)
  moreover have "gate_present ?g" unfolding gate_present_def by (simp add: bit_simps nb)
  ultimately show thesis using that g by blast
qed

lemma init_gates_run:
  assumes "i \<le> 256"
  shows "\<exists>c'. init_gates i c = Inr c' \<and> c'\<lparr>interrupt_descriptors := interrupt_descriptors c\<rparr> = c
    \<and> (\<forall>j. \<not> (i \<le> j \<and> j < 256) \<longrightarrow> interrupt_descriptors c' j = interrupt_descriptors c j)
    \<and> (\<forall>j. i \<le> j \<and> j < 256 \<longrightarrow>
         set_gate (gd_low (interrupt_descriptors c j)) X86GATE_INTERRUPT (if j = INT_BP then 3 else 0) 0
           = Inr (interrupt_descriptors c' j))"
  using assms
proof (induction i c rule: init_gates.induct)
  case (1 i c)
  show ?case
  proof (cases "i < 256")
    case True
    obtain g where g: "set_gate (gd_low (interrupt_descriptors c i)) X86GATE_INTERRUPT (if i = INT_BP then 3 else 0) 0 = Inr g"
      by (rule set_gate_fields [of X86GATE_INTERRUPT "if i = INT_BP then 3 else 0" 0]) auto
    define c1 where "c1 = c\<lparr>interrupt_descriptors := (interrupt_descriptors c)(i := g)\<rparr>"
    have step: "init_gate i c = Inr c1" by (simp add: init_gate_def g c1_def)
    have run: "init_gates i c = init_gates (i + 1) c1" using True by (subst init_gates.simps) (simp add: step)
    from 1(1) [OF True step] True obtain c' where c': "init_gates (i + 1) c1 = Inr c'"
      "c'\<lparr>interrupt_descriptors := interrupt_descriptors c1\<rparr> = c1"
      "\<And>j. \<not> (i + 1 \<le> j \<and> j < 256) \<Longrightarrow> interrupt_descriptors c' j = interrupt_descriptors c1 j"
      "\<And>j. i + 1 \<le> j \<and> j < 256 \<Longrightarrow>
         set_gate (gd_low (interrupt_descriptors c1 j)) X86GATE_INTERRUPT (if j = INT_BP then 3 else 0) 0
           = Inr (interrupt_descriptors c' j)"
      by auto
    have "c'\<lparr>interrupt_descriptors := interrupt_descriptors c\<rparr> = c1\<lparr>interrupt_descriptors := interrupt_descriptors c\<rparr>"
      by (subst c'(2) [symmetric]) simp
    then have "c'\<lparr>interrupt_descriptors := interrupt_descriptors c\<rparr> = c" by (simp add: c1_def)
    moreover have "interrupt_descriptors c' j = interrupt_descriptors c j" if "\<not> (i \<le> j \<and> j < 256)" for j
      using that True c'(3) [of j] by (auto simp: c1_def)
    moreover have "set_gate (gd_low (interrupt_descriptors c j)) X86GATE_INTERRUPT (if j = INT_BP then 3 else 0) 0
           = Inr (interrupt_descriptors c' j)" if "i \<le> j \<and> j < 256" for j
    proof (cases "j = i")
      case True
      then show ?thesis using g c'(3) [of i] by (simp add: c1_def)
    next
      case False
      then show ?thesis using that c'(4) [of j] by (simp add: c1_def)
    qed
    ultimately show ?thesis using run c'(1) by auto
  next
    case False
    then show ?thesis using 1(2) by (subst init_gates.simps) auto
  qed
qed

section \<open>Properties\<close>

text \<open>C36: On a processor with an enabled APIC at its standard address, \<open>init_interrupts\<close> succeeds, masks both
  legacy interrupt controllers, and turns the 256 handler addresses into gates that lead to these
  addresses in the kernel code segment with interrupts off. User code can raise no interrupt other
  than the breakpoint: the privilege level of a gate is 3 for the breakpoint and 0 for the others.
  No other part of the processor state changes.\<close>

theorem init_interrupts_spec:
  assumes "cpuid_edx c AND 0x200 \<noteq> 0" "msr c 0x1B AND 0x800 \<noteq> 0" "msr c 0x1B AND 0xFFFFFFFFF000 = 0xFEE00000"
  shows "\<exists>c' s'. init_interrupts c s = Inr (c', s') \<and> events s' = events s @ [Out8 0x21 0xFF, Out8 0xA1 0xFF]
    \<and> c'\<lparr>interrupt_descriptors := interrupt_descriptors c\<rparr> = c
    \<and> (\<forall>i < 256. let g = interrupt_descriptors c' i in
         gate_offset g = gd_low (interrupt_descriptors c i) \<and> gate_selector g = SEGSEL_KERN_CODE \<and> gate_type g = 0xE
         \<and> gate_present g \<and> gate_ist g = 0 \<and> (gate_dpl g = 3 \<longleftrightarrow> i = 3) \<and> (gate_dpl g = 0 \<longleftrightarrow> i \<noteq> 3))"
proof -
  from init_gates_run [of 0 c] obtain c' where c': "init_gates 0 c = Inr c'"
    "c'\<lparr>interrupt_descriptors := interrupt_descriptors c\<rparr> = c"
    "\<And>j. j < 256 \<Longrightarrow> set_gate (gd_low (interrupt_descriptors c j)) X86GATE_INTERRUPT (if j = INT_BP then 3 else 0) 0
           = Inr (interrupt_descriptors c' j)"
    by auto
  have same: "cpuid_edx c' = cpuid_edx c" "msr c' = msr c"
    using arg_cong [OF c'(2), of cpuid_edx] arg_cong [OF c'(2), of msr] by simp_all
  have "let g = interrupt_descriptors c' i in
         gate_offset g = gd_low (interrupt_descriptors c i) \<and> gate_selector g = SEGSEL_KERN_CODE \<and> gate_type g = 0xE
         \<and> gate_present g \<and> gate_ist g = 0 \<and> (gate_dpl g = 3 \<longleftrightarrow> i = 3) \<and> (gate_dpl g = 0 \<longleftrightarrow> i \<noteq> 3)"
    if "i < 256" for i
    using c'(3) [OF that]
    by (rule_tac set_gate_fields [of X86GATE_INTERRUPT "if i = INT_BP then 3 else 0" 0 "gd_low (interrupt_descriptors c i)"])
       (auto simp: Let_def split: if_splits)
  then show ?thesis
    using assms c'(1,2) same by (auto simp: init_interrupts_def rdmsr_def outb_def io_do_def Let_def)
qed

definition sample_cpu :: cpu where
  "sample_cpu =
     \<lparr>gdt_segments = \<lambda>_. 0, kernel_taskstate = \<lparr>ts_rsp = \<lambda>_. 0, ts_ist = \<lambda>_. 0, ts_iomap_base = 0\<rparr>,
      interrupt_descriptors = \<lambda>i. \<lparr>gd_low = 0x40000 + 16 * of_nat i, gd_high = 0\<rparr>,
      gdtr = \<lparr>limit = 0, base = 0\<rparr>, idtr = \<lparr>limit = 0, base = 0\<rparr>, tr = 0, fs = 0, gs = 0, cr0 = 0, cr3 = 0,
      msr = \<lambda>r. if r = 0x1B then 0xFEE00800 else 0, cpuid_edx = 0x200\<rparr>"

theorem init_interrupts_spec_witness:
  "\<exists>c' s'. init_interrupts sample_cpu \<lparr>device = \<lambda>_ _. 0, events = []\<rparr> = Inr (c', s')
     \<and> events s' = [Out8 0x21 0xFF, Out8 0xA1 0xFF]
     \<and> gate_offset (interrupt_descriptors c' 14) = 0x400E0 \<and> gate_dpl (interrupt_descriptors c' 14) = 0"
proof -
  have "cpuid_edx sample_cpu AND 0x200 \<noteq> 0" "msr sample_cpu 0x1B AND 0x800 \<noteq> 0"
    "msr sample_cpu 0x1B AND 0xFFFFFFFFF000 = 0xFEE00000"
    by (simp_all add: sample_cpu_def)
  from init_interrupts_spec [OF this, of "\<lparr>device = \<lambda>_ _. 0, events = []\<rparr>"] obtain c' s' where
    "init_interrupts sample_cpu \<lparr>device = \<lambda>_ _. 0, events = []\<rparr> = Inr (c', s')"
    "events s' = [Out8 0x21 0xFF, Out8 0xA1 0xFF]"
    "\<forall>i < 256. let g = interrupt_descriptors c' i in
         gate_offset g = gd_low (interrupt_descriptors sample_cpu i) \<and> gate_selector g = SEGSEL_KERN_CODE \<and> gate_type g = 0xE
         \<and> gate_present g \<and> gate_ist g = 0 \<and> (gate_dpl g = 3 \<longleftrightarrow> i = 3) \<and> (gate_dpl g = 0 \<longleftrightarrow> i \<noteq> 3)"
    by auto
  moreover from this(3) have "gate_offset (interrupt_descriptors c' 14) = 0x400E0"
    "gate_dpl (interrupt_descriptors c' 14) = 0"
    by (simp_all add: Let_def) (simp add: sample_cpu_def)
  ultimately show ?thesis by blast
qed

end
