(* ===== verification/Lib_Str.thy ===== *)
theory Lib_Str
  imports Lib_Mem
begin

text \<open>
  \<open>strtoul\<close> and \<open>strtol\<close> of \<open>lib.cc\<close>: white space, sign, base prefix, digits, saturation on
  overflow. The result is the value with the end pointer; \<open>None\<close> means that a loop never ends.
  The bytes of the string have type \<open>char\<close>, which is signed on this target.
\<close>

section \<open>Model\<close>

partial_function (option) skip_space :: "mem \<Rightarrow> addr \<Rightarrow> addr option" where
  "skip_space m s = (if isspace (scast (m s)) then skip_space m (s + 1) else Some s)"

definition strtoul_digit :: "int \<Rightarrow> u8 \<Rightarrow> int option" where
  "strtoul_digit base c =
     (let ch = sint c in
      if 48 \<le> ch \<and> ch < 48 + base then Some (ch - 48)
      else if base > 10 \<and> 97 \<le> ch \<and> ch < 97 + base - 10 then Some (ch - 97 + 10)
      else if base > 10 \<and> 65 \<le> ch \<and> ch < 65 + base - 10 then Some (ch - 65 + 10)
      else None)"

partial_function (option) strtoul_loop ::
    "mem \<Rightarrow> int \<Rightarrow> addr \<Rightarrow> u64 \<Rightarrow> bool \<Rightarrow> (u64 \<times> bool \<times> addr) option" where
  "strtoul_loop m base s x overflow =
     (case strtoul_digit base (m s) of
        None \<Rightarrow> Some (x, overflow, s)
      | Some digit \<Rightarrow>
          if x > (- 1 - of_int digit) div of_int base
          then strtoul_loop m base (s + 1) x True
          else strtoul_loop m base (s + 1) (x * of_int base + of_int digit) overflow)"

text \<open>The base and the start of the digits: \<open>0x\<close> and \<open>0\<close> prefixes.\<close>

definition strtoul_base :: "mem \<Rightarrow> addr \<Rightarrow> int \<Rightarrow> int \<times> addr" where
  "strtoul_base m s base =
     (if base = 0 then
        if m s = 48 \<and> (m (s + 1) = 120 \<or> m (s + 1) = 88) then (16, s + 2)
        else if m s = 48 then (8, s)
        else (10, s)
      else if base = 16 \<and> m s = 48 \<and> (m (s + 1) = 120 \<or> m (s + 1) = 88) then (base, s + 2)
      else (base, s))"

definition strtoul :: "mem \<Rightarrow> addr \<Rightarrow> int \<Rightarrow> (u64 \<times> addr) option" where
  "strtoul m s base =
     (case skip_space m s of None \<Rightarrow> None | Some s1 \<Rightarrow>
        let negative = (m s1 = 45);
            s2 = (if negative \<or> m s1 = 43 then s1 + 1 else s1);
            (base', s3) = strtoul_base m s2 base
        in (case strtoul_loop m base' s3 0 False of None \<Rightarrow> None | Some (x, overflow, e) \<Rightarrow>
              let x1 = (if overflow then - 1 else x);
                  x2 = (if negative then - x1 else x1)
              in Some (x2, e)))"

definition strtol :: "mem \<Rightarrow> addr \<Rightarrow> int \<Rightarrow> (int \<times> addr) option" where
  "strtol m s base =
     (case skip_space m s of None \<Rightarrow> None | Some s1 \<Rightarrow>
        let negative = (m s1 = 45);
            s2 = (if negative then s1 + 1 else s1)
        in (case strtoul m s2 base of None \<Rightarrow> None | Some (u, e) \<Rightarrow>
              let bound = push_bit 63 1 - of_bool (\<not> negative);
                  u1 = (if u > bound then bound else u);
                  u2 = (if negative then - u1 else u1)
              in Some (sint u2, e)))"

section \<open>Value of a digit string\<close>

primrec digits_value :: "int \<Rightarrow> int list \<Rightarrow> int \<Rightarrow> int" where
  "digits_value base [] acc = acc"
| "digits_value base (d # ds) acc = digits_value base ds (acc * base + d)"

text \<open>\<open>digit_run base bs ds\<close>: the bytes \<open>bs\<close> are digits of the base, with the values \<open>ds\<close>.\<close>

definition digit_run :: "int \<Rightarrow> u8 list \<Rightarrow> int list \<Rightarrow> bool" where
  "digit_run base bs ds \<longleftrightarrow> map (strtoul_digit base) bs = map Some ds"

lemma strtoul_digit_bounds:
  "strtoul_digit base c = Some d \<Longrightarrow> 0 \<le> d \<and> d < base"
  by (auto simp: strtoul_digit_def Let_def split: if_splits)

lemma strtoul_digit_NUL: "strtoul_digit base 0 = None"
  by (simp add: strtoul_digit_def)

lemma digit_run_bounds:
  assumes "digit_run base bs ds" "d \<in> set ds"
  shows "0 \<le> d \<and> d < base"
proof -
  from assms have "Some d \<in> set (map (strtoul_digit base) bs)" by (simp add: digit_run_def)
  then show ?thesis using strtoul_digit_bounds by fastforce
qed

lemma digits_value_mono:
  "0 \<le> acc \<Longrightarrow> 1 \<le> base \<Longrightarrow> \<forall>d \<in> set ds. 0 \<le> d \<Longrightarrow> acc \<le> digits_value base ds acc"
proof (induction ds arbitrary: acc)
  case Nil
  then show ?case by simp
next
  case (Cons d ds)
  have "acc * 1 \<le> acc * base" using Cons.prems by (intro mult_left_mono) auto
  then have step: "acc \<le> acc * base + d" using Cons.prems by simp
  then have "acc * base + d \<le> digits_value base ds (acc * base + d)"
    using Cons.prems by (intro Cons.IH) auto
  with step show ?case by simp
qed

text \<open>The overflow test of the source is exact.\<close>

lemma overflow_test:
  assumes "0 \<le> d" "d < base" "base \<le> 2 ^ 31"
  shows "x > (- 1 - of_int d :: u64) div of_int base \<longleftrightarrow> uint x * base + d \<ge> 2 ^ 64"
proof -
  have ud: "uint (of_int d :: u64) = d" and ub: "uint (of_int base :: u64) = base"
    using assms by (simp_all add: unsigned_of_int take_bit_int_eq_self)
  have "uint (- 1 - of_int d :: u64) = 2 ^ 64 - 1 - d"
    using assms by (simp add: uint_word_ariths ud)
  then have "x > (- 1 - of_int d :: u64) div of_int base \<longleftrightarrow> (2 ^ 64 - 1 - d) div base < uint x"
    by (simp add: word_less_def uint_div_distrib ub)
  also have "\<dots> \<longleftrightarrow> 2 ^ 64 - 1 - d < uint x * base"
    using assms by (simp add: div_less_iff_less_mult_int)
  finally show ?thesis by linarith
qed

section \<open>Correctness\<close>

lemma cstr_append: "cstr m a (xs @ ys) \<Longrightarrow> cstr m (a + of_nat (length xs)) ys"
  by (induction xs arbitrary: a) (auto simp: add.assoc [symmetric])

lemma skip_space_cstr:
  "cstr m s (ws @ bs) \<Longrightarrow> \<forall>c \<in> set ws. isspace (scast c) \<Longrightarrow>
   (bs \<noteq> [] \<Longrightarrow> \<not> isspace (scast (hd bs))) \<Longrightarrow>
   skip_space m s = Some (s + of_nat (length ws))"
proof (induction ws arbitrary: s)
  case Nil
  then show ?case by (cases bs) (auto simp: skip_space.simps [of m s] isspace_def)
next
  case (Cons w ws)
  then show ?case by (auto simp: skip_space.simps [of m s] add.assoc)
qed

text \<open>The bytes after the digits stop the loop.\<close>

definition stops_digits :: "int \<Rightarrow> u8 list \<Rightarrow> bool" where
  "stops_digits base rest \<longleftrightarrow> rest = [] \<or> strtoul_digit base (hd rest) = None"

lemma strtoul_loop_cstr:
  "cstr m s (bs @ rest) \<Longrightarrow> digit_run base bs ds \<Longrightarrow> stops_digits base rest \<Longrightarrow> base \<le> 2 ^ 31 \<Longrightarrow>
   \<exists>x' ov'. strtoul_loop m base s x ov = Some (x', ov', s + of_nat (length bs)) \<and>
     (ov' \<longleftrightarrow> ov \<or> digits_value base ds (uint x) \<ge> 2 ^ 64) \<and>
     (\<not> ov' \<longrightarrow> uint x' = digits_value base ds (uint x))"
proof (induction bs arbitrary: s ds x ov)
  case Nil
  then have "strtoul_digit base (m s) = None"
    by (cases rest) (auto simp: stops_digits_def strtoul_digit_NUL)
  with Nil show ?case
    using unsigned_less [where 'a = int, of x] by (auto simp: strtoul_loop.simps [of m base s] digit_run_def)
next
  case (Cons b bs)
  obtain d ds' where ds: "ds = d # ds'" and d: "strtoul_digit base b = Some d"
      and run: "digit_run base bs ds'"
    using Cons.prems(2) by (cases ds) (auto simp: digit_run_def)
  have b: "0 \<le> d" "d < base" using strtoul_digit_bounds [OF d] by auto
  have rec: "cstr m (s + 1) (bs @ rest)" and mb: "m s = b" using Cons.prems(1) by auto
  note IH = Cons.IH [OF rec run Cons.prems(3,4)]
  show ?case
  proof (cases "x > (- 1 - of_int d :: u64) div of_int base")
    case True
    then have ge: "uint x * base + d \<ge> 2 ^ 64" using overflow_test b Cons.prems(4) by blast
    have "\<forall>e \<in> set ds'. 0 \<le> e"
      using digit_run_bounds [OF run] by auto
    then have "uint x * base + d \<le> digits_value base ds' (uint x * base + d)"
      using ge b by (intro digits_value_mono) auto
    with ge have "digits_value base ds (uint x) \<ge> 2 ^ 64" by (simp add: ds)
    with True IH [of x True] mb d show ?thesis
      by (auto simp: strtoul_loop.simps [of m base s] add.assoc)
  next
    case False
    then have lt: "uint x * base + d < 2 ^ 64" using overflow_test b Cons.prems(4) by (meson not_le)
    have "uint (x * of_int base + of_int d) = uint x * base + d"
      using lt b by (simp add: uint_word_ariths unsigned_of_int take_bit_eq_mod mod_simps)
    with False IH [of "x * of_int base + of_int d" ov] mb d show ?thesis
      by (auto simp: strtoul_loop.simps [of m base s] add.assoc ds)
  qed
qed

text \<open>No hexadecimal prefix that base 16 would skip.\<close>

definition no_hex_prefix :: "int \<Rightarrow> u8 list \<Rightarrow> bool" where
  "no_hex_prefix base bs \<longleftrightarrow> base = 16 \<longrightarrow> take 2 bs \<noteq> [48, 120] \<and> take 2 bs \<noteq> [48, 88]"

lemma strtoul_base_plain:
  assumes "cstr m s bs" "no_hex_prefix base bs" "base \<noteq> 0"
  shows "strtoul_base m s base = (base, s)"
proof (cases bs)
  case Nil
  with assms show ?thesis by (simp add: strtoul_base_def)
next
  case (Cons b bs')
  with assms show ?thesis
    by (cases bs') (auto simp: strtoul_base_def no_hex_prefix_def)
qed

definition strtoul_value :: "bool \<Rightarrow> int \<Rightarrow> u64" where
  "strtoul_value negative v =
     (let x = (if v < 2 ^ 64 then of_int v else - 1) in if negative then - x else x)"

lemma digit_byte_not_space:
  "strtoul_digit base c = Some d \<Longrightarrow> \<not> isspace (scast c) \<and> c \<noteq> 45 \<and> c \<noteq> 43"
  by (auto simp: strtoul_digit_def Let_def isspace_def sint_scast_up split: if_splits)

lemma strtoul_number:
  assumes str: "cstr m s (ws @ sg @ bs @ rest)" and ws: "\<forall>c \<in> set ws. isspace (scast c)"
    and sg: "sg = [] \<or> sg = [43] \<or> sg = [45]"
    and bs: "digit_run base bs ds" "bs \<noteq> []" and rest: "stops_digits base rest"
    and base: "2 \<le> base" "base \<le> 36" "no_hex_prefix base (bs @ rest)"
  shows "strtoul m s base =
    Some (strtoul_value (sg = [45]) (digits_value base ds 0),
          s + of_nat (length (ws @ sg @ bs)))"
proof -
  obtain b bs' where b: "bs = b # bs'" using bs(2) by (cases bs) auto
  with bs(1) obtain d where d: "strtoul_digit base b = Some d" by (cases ds) (auto simp: digit_run_def)
  note nb = digit_byte_not_space [OF d]
  have "\<not> isspace (scast (hd (sg @ bs @ rest)))"
    using sg nb b by (auto simp: isspace_def)
  then have sk: "skip_space m s = Some (s + of_nat (length ws))"
    using skip_space_cstr str ws by blast
  let ?s1 = "s + of_nat (length ws)"
  let ?s2 = "?s1 + of_nat (length sg)"
  have at1: "cstr m ?s1 (sg @ bs @ rest)" using cstr_append str by blast
  then have at2: "cstr m ?s2 (bs @ rest)" using cstr_append by blast
  have neg: "m ?s1 = 45 \<longleftrightarrow> sg = [45]" and s2: "(if m ?s1 = 45 \<or> m ?s1 = 43 then ?s1 + 1 else ?s1) = ?s2"
    using at1 sg nb b by auto
  have bse: "strtoul_base m ?s2 base = (base, ?s2)"
    using strtoul_base_plain at2 base by force
  obtain x ov where "strtoul_loop m base ?s2 0 False = Some (x, ov, ?s2 + of_nat (length bs))"
    and "ov \<longleftrightarrow> digits_value base ds 0 \<ge> 2 ^ 64" "\<not> ov \<longrightarrow> uint x = digits_value base ds 0"
    using strtoul_loop_cstr [OF at2 bs(1) rest, of 0 False] base by auto
  moreover from this have "\<not> ov \<Longrightarrow> of_int (digits_value base ds 0) = x"
    by (metis word_of_int_uint)
  ultimately have "strtoul m s base =
      Some (strtoul_value (sg = [45]) (digits_value base ds 0), ?s2 + of_nat (length bs))"
    unfolding strtoul_def sk option.case Let_def unfolding s2 bse prod.case unfolding neg
    by (auto simp: strtoul_value_def not_le)
  then show ?thesis by (simp add: add.assoc)
qed

end
