(* ===== verification/Printf.thy ===== *)
theory Printf
  imports Lib_Str
begin

text \<open>
  The formatted-print library of \<open>lib.cc\<close>: \<open>fill_numbuf\<close>, \<open>printer::vprintf\<close> and the bounded string
  printer behind \<open>vsnprintf\<close> and \<open>snprintf\<close>. A printer is its virtual method \<open>putc\<close>, a function on the
  printer's state; \<open>vprintf\<close> is written once for every \<open>putc\<close>. The format is the list of its bytes
  before the terminating NUL, a string argument likewise.
\<close>

section \<open>Arguments\<close>

text \<open>
  The variadic arguments with the types the callers pass, and what \<open>va_arg\<close> reads of them. The calling convention
  of x86-64 gives each argument a slot of 64 bits: an argument of 64 bits is read as a \<open>long\<close> or a pointer with the same
  bits, and as an \<open>int\<close> with the low half of them (the C++ standard leaves such a mismatch undefined, but the
  kernel relies on it, in \<open>k-memviewer.cc\<close> and wherever it prints a \<open>uintptr_t\<close> with \<open>%p\<close>). What the convention does not
  fix either is the fault \<open>Bad_vararg\<close>: a missing argument, the unspecified upper half of a 32-bit one, and a string in
  place of a number or a number in place of a string. \<open>int\<close> and \<open>unsigned\<close> are read from the same 32 bits,
  \<open>long\<close> and \<open>unsigned long\<close> from the same 64.
\<close>

datatype varg = Arg_int u32 | Arg_long u64 | Arg_ptr u64 | Arg_str "u8 list"

fun va_int :: "varg list \<Rightarrow> fault + (u32 \<times> varg list)" where
  "va_int (Arg_int w # rest) = Inr (w, rest)"
| "va_int (Arg_long w # rest) = Inr (ucast w, rest)"
| "va_int (Arg_ptr w # rest) = Inr (ucast w, rest)"
| "va_int _ = Inl Bad_vararg"

fun va_long :: "varg list \<Rightarrow> fault + (u64 \<times> varg list)" where
  "va_long (Arg_long w # rest) = Inr (w, rest)"
| "va_long (Arg_ptr w # rest) = Inr (w, rest)"
| "va_long _ = Inl Bad_vararg"

fun va_ptr :: "varg list \<Rightarrow> fault + (u64 \<times> varg list)" where
  "va_ptr (Arg_ptr w # rest) = Inr (w, rest)"
| "va_ptr (Arg_long w # rest) = Inr (w, rest)"
| "va_ptr _ = Inl Bad_vararg"

fun va_str :: "varg list \<Rightarrow> fault + (u8 list \<times> varg list)" where
  "va_str (Arg_str bs # rest) = Inr (bs, rest)"
| "va_str _ = Inl Bad_vararg"

section \<open>fill_numbuf\<close>

text \<open>
  The buffer is filled from its end; \<open>room\<close> is the number of bytes left before its start. The result
  is the string that the returned pointer points at.
\<close>

definition upper_digits :: "u8 list" where
  "upper_digits = [48, 49, 50, 51, 52, 53, 54, 55, 56, 57, 65, 66, 67, 68, 69, 70]"

definition lower_digits :: "u8 list" where
  "lower_digits = [48, 49, 50, 51, 52, 53, 54, 55, 56, 57, 97, 98, 99, 100, 101, 102]"

primrec fill_loop :: "nat \<Rightarrow> u8 list \<Rightarrow> u64 \<Rightarrow> u64 \<Rightarrow> u8 list \<Rightarrow> fault + u8 list" where
  "fill_loop 0 digits val base acc = Inl Out_of_bounds"
| "fill_loop (Suc room) digits val base acc =
     (let i = unat (val mod base); val' = val div base in
      if i \<ge> length digits then Inl Out_of_bounds
      else if val' \<noteq> 0 then fill_loop room digits val' base (digits ! i # acc)
      else Inr (digits ! i # acc))"

definition fill_numbuf :: "nat \<Rightarrow> u64 \<Rightarrow> int \<Rightarrow> fault + u8 list" where
  "fill_numbuf sz val base =
     (if sz = 0 then Inl Out_of_bounds
      else let digits = (if base < 0 then lower_digits else upper_digits);
               base' = (if base < 0 then - base else base)
           in fill_loop (sz - 1) digits val (of_int base') [])"

section \<open>Directives\<close>

record pflags =
  f_alt :: bool
  f_zero :: bool
  f_leftjustify :: bool
  f_spacepositive :: bool
  f_pluspositive :: bool
  f_numeric :: bool
  f_signed :: bool
  f_negative :: bool
  f_alt2 :: bool

definition no_flags :: pflags where
  "no_flags = \<lparr>f_alt = False, f_zero = False, f_leftjustify = False, f_spacepositive = False,
     f_pluspositive = False, f_numeric = False, f_signed = False, f_negative = False, f_alt2 = False\<rparr>"

text \<open>\<open>flag_chars\<close> is \<open>"#0- +"\<close>.\<close>

fun parse_flags :: "u8 list \<Rightarrow> pflags \<Rightarrow> pflags \<times> u8 list" where
  "parse_flags [] fl = (fl, [])"
| "parse_flags (c # fmt) fl =
     (if c = 35 then parse_flags fmt (fl\<lparr>f_alt := True\<rparr>)
      else if c = 48 then parse_flags fmt (fl\<lparr>f_zero := True\<rparr>)
      else if c = 45 then parse_flags fmt (fl\<lparr>f_leftjustify := True\<rparr>)
      else if c = 32 then parse_flags fmt (fl\<lparr>f_spacepositive := True\<rparr>)
      else if c = 43 then parse_flags fmt (fl\<lparr>f_pluspositive := True\<rparr>)
      else (fl, c # fmt))"

definition is_digit_char :: "u8 \<Rightarrow> bool" where
  "is_digit_char c \<longleftrightarrow> 48 \<le> c \<and> c \<le> 57"

text \<open>The character at the current position; NUL at the end.\<close>

definition peek :: "u8 list \<Rightarrow> u8" where
  "peek fmt = (case fmt of [] \<Rightarrow> 0 | c # _ \<Rightarrow> c)"

fun parse_digits :: "u8 list \<Rightarrow> int \<Rightarrow> fault + (int \<times> u8 list)" where
  "parse_digits [] n = Inr (n, [])"
| "parse_digits (c # fmt) n =
     (if is_digit_char c
      then if 10 * n + uint c > INT_MAX then Inl Signed_overflow
           else parse_digits fmt (10 * n + uint c - 48)
      else Inr (n, c # fmt))"

definition parse_width :: "u8 list \<Rightarrow> varg list \<Rightarrow> fault + (int \<times> u8 list \<times> varg list)" where
  "parse_width fmt args =
     (if is_digit_char (peek fmt) \<and> peek fmt \<noteq> 48
      then bindE (parse_digits fmt 0) (\<lambda>(w, fmt'). Inr (w, fmt', args))
      else if peek fmt = 42
      then bindE (va_int args) (\<lambda>(w, args'). Inr (sint w, tl fmt, args'))
      else Inr (- 1, fmt, args))"

definition parse_precision :: "u8 list \<Rightarrow> varg list \<Rightarrow> fault + (int \<times> u8 list \<times> varg list)" where
  "parse_precision fmt args =
     (if peek fmt = 46 then
        let fmt1 = tl fmt in
        bindE (if is_digit_char (peek fmt1)
               then bindE (parse_digits fmt1 0) (\<lambda>(p, fmt'). Inr (p, fmt', args))
               else if peek fmt1 = 42
               then bindE (va_int args) (\<lambda>(p, args'). Inr (sint p, tl fmt1, args'))
               else Inr (- 1, fmt1, args))
          (\<lambda>(p, fmt', args'). Inr (if p < 0 then 0 else p, fmt', args'))
      else Inr (- 1, fmt, args))"

text \<open>\<open>l\<close>, \<open>t\<close>, \<open>z\<close> select 64-bit arguments, \<open>h\<close> is skipped.\<close>

definition parse_length :: "u8 list \<Rightarrow> bool \<times> u8 list" where
  "parse_length fmt =
     (if peek fmt = 108 \<or> peek fmt = 116 \<or> peek fmt = 122 then (True, tl fmt)
      else if peek fmt = 104 then (False, tl fmt)
      else (False, fmt))"

text \<open>
  The main conversion: the flags it adds, the base, the number, the data for the non-numeric
  conversions, and what is left of the format and of the arguments; \<open>%C\<close> changes the colour instead.
  \<open>- x\<close> overflows for the smallest \<open>long\<close>. At the end of the format the conversion character is NUL
  and nothing is consumed.
\<close>

datatype conv =
    Conv_color u32 "u8 list" "varg list"
  | Conv_data pflags int u64 "u8 list" "u8 list" "varg list"

definition conv_signed :: "pflags \<Rightarrow> int \<Rightarrow> fault + (pflags \<times> u64)" where
  "conv_signed fl x =
     (if x = - (2 ^ 63) then Inl Signed_overflow
      else Inr (fl\<lparr>f_numeric := True, f_signed := True, f_negative := x < 0\<rparr>,
                of_int (if x < 0 then - x else x)))"

definition conv_unsigned :: "bool \<Rightarrow> varg list \<Rightarrow> fault + (u64 \<times> varg list)" where
  "conv_unsigned long args =
     (if long then va_long args
      else bindE (va_int args) (\<lambda>(w, args'). Inr (ucast w, args')))"

definition conversion :: "u8 list \<Rightarrow> bool \<Rightarrow> pflags \<Rightarrow> varg list \<Rightarrow> fault + conv" where
  "conversion fmt long fl args =
     (let c = peek fmt; rest = tl fmt in
      if c = 100 \<or> c = 105 then
        bindE (if long then bindE (va_long args) (\<lambda>(w, args'). Inr (sint w, args'))
               else bindE (va_int args) (\<lambda>(w, args'). Inr (sint w, args'))) (\<lambda>(x, args').
        bindE (conv_signed fl x) (\<lambda>(fl', num). Inr (Conv_data fl' 10 num [] rest args')))
      else if c = 117 then
        bindE (conv_unsigned long args) (\<lambda>(num, args').
          Inr (Conv_data (fl\<lparr>f_numeric := True\<rparr>) 10 num [] rest args'))
      else if c = 120 then
        bindE (conv_unsigned long args) (\<lambda>(num, args').
          Inr (Conv_data (fl\<lparr>f_numeric := True\<rparr>) (- 16) num [] rest args'))
      else if c = 88 then
        bindE (conv_unsigned long args) (\<lambda>(num, args').
          Inr (Conv_data (fl\<lparr>f_numeric := True\<rparr>) 16 num [] rest args'))
      else if c = 112 then
        bindE (va_ptr args) (\<lambda>(num, args').
          Inr (Conv_data (fl\<lparr>f_alt := True, f_alt2 := True, f_numeric := True\<rparr>) (- 16) num [] rest args'))
      else if c = 115 then
        bindE (va_str args) (\<lambda>(bs, args'). Inr (Conv_data fl 10 0 bs rest args'))
      else if c = 67 then
        bindE (va_int args) (\<lambda>(w, args'). Inr (Conv_color w rest args'))
      else if c = 99 then
        bindE (va_int args) (\<lambda>(w, args').
          let ch = ucast w in Inr (Conv_data fl 10 0 (if ch = 0 then [] else [ch]) rest args'))
      else Inr (Conv_data fl 10 0 [if c \<noteq> 0 then c else 37] rest args))"

definition prefix_of :: "pflags \<Rightarrow> int \<Rightarrow> u64 \<Rightarrow> u8 list" where
  "prefix_of fl base num =
     (if f_numeric fl \<and> f_signed fl then
        if f_negative fl then [45]
        else if f_pluspositive fl then [43]
        else if f_spacepositive fl then [32]
        else []
      else if f_numeric fl \<and> f_alt fl \<and> (base = 16 \<or> base = - 16) \<and> (num \<noteq> 0 \<or> f_alt2 fl)
      then if base = - 16 then [48, 120] else [48, 88]
      else [])"

definition zeros_of :: "pflags \<Rightarrow> int \<Rightarrow> int \<Rightarrow> int \<Rightarrow> int \<Rightarrow> int" where
  "zeros_of fl width precision datalen prefixlen =
     (if f_numeric fl \<and> precision \<ge> 0 then if precision > datalen then precision - datalen else 0
      else if f_numeric fl \<and> f_zero fl \<and> \<not> f_leftjustify fl \<and> datalen + prefixlen < width
      then width - datalen - prefixlen
      else 0)"

text \<open>
  The characters of one directive: padding, prefix, zeros, data, padding. The remaining width is
  computed in 64 unsigned bits and converted back to \<open>int\<close>.
\<close>

definition layout :: "pflags \<Rightarrow> int \<Rightarrow> int \<Rightarrow> u8 list \<Rightarrow> u8 list \<Rightarrow> u8 list" where
  "layout fl width precision prefix data =
     (let datalen = (if precision \<ge> 0 \<and> \<not> f_numeric fl then min (length data) (nat precision) else length data);
          zeros = zeros_of fl width precision (int datalen) (int (length prefix));
          pad = sint (of_int (width - (int datalen + zeros + int (length prefix))) :: u32);
          padding = replicate (nat pad) 32
      in (if f_leftjustify fl then [] else padding) @ prefix @ replicate (nat zeros) 48 @ take datalen data
         @ (if f_leftjustify fl then padding else []))"

datatype pstep = Set_color u32 | Emit "u8 list"

abbreviation (input) NUMBUFSIZ :: nat where "NUMBUFSIZ \<equiv> 24"

definition conv_step :: "int \<Rightarrow> int \<Rightarrow> conv \<Rightarrow> fault + (pstep \<times> u8 list \<times> varg list)" where
  "conv_step width precision cv =
     (case cv of
        Conv_color col rest args' \<Rightarrow> Inr (Set_color col, rest, args')
      | Conv_data fl base num data rest args' \<Rightarrow>
          bindE (if f_numeric fl then fill_numbuf NUMBUFSIZ num base else Inr data) (\<lambda>data'.
          Inr (Emit (layout fl width precision (prefix_of fl base num) data'), rest, args')))"

definition directive :: "u8 list \<Rightarrow> varg list \<Rightarrow> fault + (pstep \<times> u8 list \<times> varg list)" where
  "directive fmt0 args0 =
     (let (fl, fmt1) = parse_flags fmt0 no_flags in
      bindE (parse_width fmt1 args0) (\<lambda>(width, fmt2, args2).
      bindE (parse_precision fmt2 args2) (\<lambda>(precision, fmt3, args3).
      let (long, fmt4) = parse_length fmt3 in
      bindE (conversion fmt4 long fl args3) (conv_step width precision))))"

section \<open>vprintf\<close>

primrec putcs :: "('s \<Rightarrow> u8 \<Rightarrow> u32 \<Rightarrow> fault + 's) \<Rightarrow> 's \<Rightarrow> u8 list \<Rightarrow> u32 \<Rightarrow> fault + 's" where
  "putcs putc s [] color = Inr s"
| "putcs putc s (c # cs) color = bindE (putc s c color) (\<lambda>s'. putcs putc s' cs color)"

lemma parse_flags_length: "parse_flags fmt fl = (fl', fmt') \<Longrightarrow> length fmt' \<le> length fmt"
  by (induction fmt fl rule: parse_flags.induct) (auto split: if_splits intro: le_SucI)

lemma parse_digits_length: "parse_digits fmt n = Inr (n', fmt') \<Longrightarrow> length fmt' \<le> length fmt"
  by (induction fmt n rule: parse_digits.induct) (auto split: if_splits intro: le_SucI)

lemma parse_width_length: "parse_width fmt args = Inr (w, fmt', args') \<Longrightarrow> length fmt' \<le> length fmt"
  by (auto simp: parse_width_def bindE_Inr_iff split: if_splits dest: parse_digits_length)

lemma parse_precision_length:
  "parse_precision fmt args = Inr (p, fmt', args') \<Longrightarrow> length fmt' \<le> length fmt"
  by (auto simp: parse_precision_def bindE_Inr_iff Let_def split: if_splits dest!: parse_digits_length)

lemma parse_length_length: "parse_length fmt = (long, fmt') \<Longrightarrow> length fmt' \<le> length fmt"
  by (auto simp: parse_length_def split: if_splits)

definition conv_rest :: "conv \<Rightarrow> u8 list" where
  "conv_rest cv = (case cv of Conv_color _ r _ \<Rightarrow> r | Conv_data _ _ _ _ r _ \<Rightarrow> r)"

lemma conversion_rest: "conversion fmt long fl args = Inr cv \<Longrightarrow> conv_rest cv = tl fmt"
  by (auto simp: conversion_def Let_def bindE_Inr_iff conv_rest_def split: if_splits)

lemma conv_step_rest: "conv_step width precision cv = Inr (st, rest, args') \<Longrightarrow> rest = conv_rest cv"
  by (auto simp: conv_step_def conv_rest_def bindE_Inr_iff split: conv.splits)

lemma directive_length:
  assumes "directive fmt args = Inr (st, rest, args')"
  shows "length rest \<le> length fmt"
proof -
  obtain fl fmt1 where p1: "parse_flags fmt no_flags = (fl, fmt1)" by (cases "parse_flags fmt no_flags")
  with assms obtain width fmt2 args2 precision fmt3 args3 where
      p2: "parse_width fmt1 args = Inr (width, fmt2, args2)"
      and p3: "parse_precision fmt2 args2 = Inr (precision, fmt3, args3)"
      and d: "(let (long, fmt4) = parse_length fmt3 in
        bindE (conversion fmt4 long fl args3) (conv_step width precision)) = Inr (st, rest, args')"
    by (auto simp: directive_def bindE_Inr_iff)
  obtain long fmt4 where p4: "parse_length fmt3 = (long, fmt4)" by (cases "parse_length fmt3")
  with d have "rest = tl fmt4" by (auto simp: bindE_Inr_iff dest: conversion_rest conv_step_rest)
  then show ?thesis
    using parse_flags_length [OF p1] parse_width_length [OF p2] parse_precision_length [OF p3]
      parse_length_length [OF p4] by (simp add: le_diff_conv)
qed

function vprintf ::
    "('s \<Rightarrow> u8 \<Rightarrow> u32 \<Rightarrow> fault + 's) \<Rightarrow> 's \<Rightarrow> u32 \<Rightarrow> u8 list \<Rightarrow> varg list \<Rightarrow> fault + 's" where
  "vprintf putc s color [] args = Inr s"
| "vprintf putc s color (c # fmt) args =
     (if c \<noteq> 37 then bindE (putc s c color) (\<lambda>s'. vprintf putc s' color fmt args)
      else bindE (directive fmt args) (\<lambda>(st, rest, args').
        case st of
          Set_color col \<Rightarrow> vprintf putc s col rest args'
        | Emit cs \<Rightarrow> bindE (putcs putc s cs color) (\<lambda>s'. vprintf putc s' color rest args')))"
  by pat_completeness auto
termination
  by (relation "measure (\<lambda>(putc, s, color, fmt, args). length fmt)")
    (auto simp: less_Suc_eq_le dest!: directive_length)

text \<open>
  The characters that a call prints, with their colours. Any printer receives exactly these, in this
  order, one \<open>putc\<close> each.
\<close>

function printed :: "u32 \<Rightarrow> u8 list \<Rightarrow> varg list \<Rightarrow> fault + (u8 \<times> u32) list" where
  "printed color [] args = Inr []"
| "printed color (c # fmt) args =
     (if c \<noteq> 37 then bindE (printed color fmt args) (\<lambda>out. Inr ((c, color) # out))
      else bindE (directive fmt args) (\<lambda>(st, rest, args').
        case st of
          Set_color col \<Rightarrow> printed col rest args'
        | Emit cs \<Rightarrow> bindE (printed color rest args') (\<lambda>out. Inr (map (\<lambda>c. (c, color)) cs @ out))))"
  by pat_completeness auto
termination
  by (relation "measure (\<lambda>(color, fmt, args). length fmt)")
    (auto simp: less_Suc_eq_le dest!: directive_length)

primrec put_all :: "('s \<Rightarrow> u8 \<Rightarrow> u32 \<Rightarrow> fault + 's) \<Rightarrow> 's \<Rightarrow> (u8 \<times> u32) list \<Rightarrow> fault + 's" where
  "put_all putc s [] = Inr s"
| "put_all putc s (x # xs) = bindE (putc s (fst x) (snd x)) (\<lambda>s'. put_all putc s' xs)"

lemma bindE_assoc: "bindE (bindE r f) g = bindE r (\<lambda>x. bindE (f x) g)"
  by (cases r) auto

lemma put_all_append: "put_all putc s (xs @ ys) = bindE (put_all putc s xs) (\<lambda>s'. put_all putc s' ys)"
  by (induction xs arbitrary: s) (auto simp: bindE_assoc)

lemma put_all_map: "put_all putc s (map (\<lambda>c. (c, color)) cs) = putcs putc s cs color"
  by (induction cs arbitrary: s) auto

lemma vprintf_output:
  "printed color fmt args = Inr out \<Longrightarrow> vprintf putc s color fmt args = put_all putc s out"
proof (induction color fmt args arbitrary: s out rule: printed.induct)
  case (1 color args)
  then show ?case by simp
next
  case (2 color c fmt args)
  show ?case
  proof (cases "c = 37")
    case False
    with 2 show ?thesis by (auto simp: bindE_Inr_iff)
  next
    case True
    with 2(4) obtain st rest args' where d: "directive fmt args = Inr (st, rest, args')"
      by (auto simp: bindE_Inr_iff)
    show ?thesis
    proof (cases st)
      case (Set_color col)
      with 2 d True show ?thesis by simp
    next
      case (Emit cs)
      with 2(4) d True obtain out' where o: "printed color rest args' = Inr out'"
          "out = map (\<lambda>c. (c, color)) cs @ out'"
        by (auto simp: bindE_Inr_iff)
      with 2(3) [of "(st, rest, args')"] Emit d True show ?thesis
        by (auto simp: put_all_append put_all_map)
    qed
  qed
qed

lemma store_at:
  fixes s a :: addr
  assumes "k < 2 ^ 64"
  shows "(m(s + of_nat k := v)) a = (if unat (a - s) = k then v else m a)"
proof -
  have "a = s + of_nat k \<longleftrightarrow> unat (a - s) = k"
  proof
    assume "unat (a - s) = k"
    then have "a - s = of_nat k" by auto
    then show "a = s + of_nat k" by (simp add: algebra_simps)
  qed (use assms in \<open>simp add: unat_of_nat_small\<close>)
  then show ?thesis by simp
qed

section \<open>The printer interface\<close>

text \<open>
  What \<open>vprintf\<close> relies on: \<open>putc\<close> accepts every character in every state of an invariant, and keeps
  the invariant. Then printing never fails other than by a bad format.
\<close>

locale printer =
  fixes putc :: "'s \<Rightarrow> u8 \<Rightarrow> u32 \<Rightarrow> fault + 's"
    and inv :: "'s \<Rightarrow> bool"
  assumes putc_inv: "inv s \<Longrightarrow> \<exists>s'. putc s c color = Inr s' \<and> inv s'"
begin

lemma put_all_inv: "inv s \<Longrightarrow> \<exists>s'. put_all putc s xs = Inr s' \<and> inv s'"
proof (induction xs arbitrary: s)
  case Nil
  then show ?case by simp
next
  case (Cons x xs)
  from putc_inv [OF Cons.prems, of "fst x" "snd x"] Cons.IH show ?case by fastforce
qed

lemma vprintf_inv:
  "inv s \<Longrightarrow> printed color fmt args = Inr out \<Longrightarrow>
   \<exists>s'. vprintf putc s color fmt args = Inr s' \<and> inv s'"
  using put_all_inv by (simp add: vprintf_output)

end

section \<open>vsnprintf\<close>

record string_printer =
  sp_mem :: mem
  sp_s :: addr
  sp_end :: addr
  sp_n :: u64

definition sp_putc :: "string_printer \<Rightarrow> u8 \<Rightarrow> u32 \<Rightarrow> fault + string_printer" where
  "sp_putc sp c color =
     Inr (if sp_s sp < sp_end sp
          then sp\<lparr>sp_mem := (sp_mem sp)(sp_s sp := c), sp_s := sp_s sp + 1, sp_n := sp_n sp + 1\<rparr>
          else sp\<lparr>sp_n := sp_n sp + 1\<rparr>)"

definition vsnprintf :: "mem \<Rightarrow> addr \<Rightarrow> u64 \<Rightarrow> u8 list \<Rightarrow> varg list \<Rightarrow> fault + (u64 \<times> mem)" where
  "vsnprintf m s sz fmt args =
     bindE (vprintf sp_putc \<lparr>sp_mem = m, sp_s = s, sp_end = s + sz, sp_n = 0\<rparr> 0 fmt args) (\<lambda>sp.
       Inr (sp_n sp,
            if sz \<noteq> 0 \<and> sp_s sp < sp_end sp then (sp_mem sp)(sp_s sp := 0)
            else if sz \<noteq> 0 then (sp_mem sp)(sp_end sp - 1 := 0)
            else sp_mem sp))"

text \<open>\<open>snprintf\<close> keeps the length in an \<open>int\<close>.\<close>

definition snprintf :: "mem \<Rightarrow> addr \<Rightarrow> u64 \<Rightarrow> u8 list \<Rightarrow> varg list \<Rightarrow> fault + (int \<times> mem)" where
  "snprintf m s sz fmt args =
     bindE (vsnprintf m s sz fmt args) (\<lambda>(n, m'). Inr (sint (ucast n :: u32), m'))"

interpretation sp: printer sp_putc "\<lambda>sp. sp_end sp = e"
  by unfold_locales (simp add: sp_putc_def)

lemma sp_put_all:
  assumes "unat s + sz < 2 ^ 64" "k \<le> sz"
  shows "\<exists>m'. put_all sp_putc \<lparr>sp_mem = m, sp_s = s + of_nat k, sp_end = s + of_nat sz, sp_n = n\<rparr> out =
      Inr \<lparr>sp_mem = m', sp_s = s + of_nat (min (k + length out) sz), sp_end = s + of_nat sz,
           sp_n = n + of_nat (length out)\<rparr>
    \<and> (\<forall>a. m' a = (let i = unat (a - s) in
         if k \<le> i \<and> i < min (k + length out) sz then fst (out ! (i - k)) else m a))"
  using assms(2)
proof (induction out arbitrary: m k n)
  case Nil
  then show ?case by (auto simp: min_def Let_def)
next
  case (Cons x out)
  have lt: "s + of_nat k < s + of_nat sz \<longleftrightarrow> k < sz"
    using assms(1) Cons.prems
    by (simp add: word_less_nat_alt unat_word_ariths unat_of_nat_small)
  show ?case
  proof (cases "k < sz")
    case False
    then have "k = sz" using Cons.prems by simp
    with Cons.IH [of sz m "n + 1"] lt show ?thesis
      by (auto simp: sp_putc_def add.assoc Let_def)
  next
    case True
    let ?m = "m(s + of_nat k := fst x)"
    have p: "sp_putc \<lparr>sp_mem = m, sp_s = s + of_nat k, sp_end = s + of_nat sz, sp_n = n\<rparr> (fst x) (snd x) =
        Inr \<lparr>sp_mem = ?m, sp_s = s + of_nat (Suc k), sp_end = s + of_nat sz, sp_n = n + 1\<rparr>"
      using lt True by (simp add: sp_putc_def add.assoc add.commute)
    have at: "a = s + of_nat k \<longleftrightarrow> unat (a - s) = k" for a
    proof
      assume "unat (a - s) = k"
      then have "a - s = of_nat k" by auto
      then show "a = s + of_nat k" by (simp add: algebra_simps)
    qed (use assms(1) True in \<open>simp add: unat_of_nat_small\<close>)
    have "Suc k \<le> sz" using True by simp
    from Cons.IH [OF this, of ?m "n + 1"] obtain m' where
        m': "put_all sp_putc \<lparr>sp_mem = ?m, sp_s = s + of_nat (Suc k), sp_end = s + of_nat sz, sp_n = n + 1\<rparr> out =
          Inr \<lparr>sp_mem = m', sp_s = s + of_nat (min (Suc k + length out) sz), sp_end = s + of_nat sz,
               sp_n = n + 1 + of_nat (length out)\<rparr>"
        and mm: "\<forall>a. m' a = (let i = unat (a - s) in
         if Suc k \<le> i \<and> i < min (Suc k + length out) sz then fst (out ! (i - Suc k)) else ?m a)"
      by blast
    have "m' a = (let i = unat (a - s) in
         if k \<le> i \<and> i < min (k + length (x # out)) sz then fst ((x # out) ! (i - k)) else m a)" for a
      using mm [rule_format, of a] True by (auto simp: Let_def at nth_Cons' fun_upd_def)
    with m' p show ?thesis by (simp add: add.assoc)
  qed
qed

section \<open>Numbers\<close>

definition digit_ok :: "u8 list \<Rightarrow> nat \<Rightarrow> bool" where
  "digit_ok digits i \<longleftrightarrow> strtoul_digit 16 (digits ! i) = Some (int i)
     \<and> (i < 10 \<longrightarrow> strtoul_digit 10 (digits ! i) = Some (int i)) \<and> digits ! i \<noteq> 0"

lemma digits_table:
  assumes "digits = upper_digits \<or> digits = lower_digits" "i < 16"
  shows "digit_ok digits i"
proof -
  have "list_all (digit_ok upper_digits) [0..<16]" "list_all (digit_ok lower_digits) [0..<16]"
    by code_simp+
  then show ?thesis using assms by (auto simp: list_all_iff)
qed

text \<open>The digits that \<open>fill_numbuf\<close> produces, most significant first.\<close>

function numeral_digits :: "nat \<Rightarrow> nat \<Rightarrow> nat list" where
  "numeral_digits base n =
     (if base < 2 then [] else if n < base then [n] else numeral_digits base (n div base) @ [n mod base])"
  by pat_completeness auto
termination by (relation "measure snd") auto

declare numeral_digits.simps [simp del]

lemma numeral_digits_length:
  "2 \<le> base \<Longrightarrow> n < base ^ k \<Longrightarrow> 0 < k \<Longrightarrow> length (numeral_digits base n) \<le> k"
proof (induction base n arbitrary: k rule: numeral_digits.induct)
  case (1 base n)
  show ?case
  proof (cases "n < base")
    case True
    then show ?thesis using 1 by (simp add: numeral_digits.simps [of base n])
  next
    case False
    then obtain j where k: "k = Suc j" "0 < j"
      using "1.prems" by (cases k; cases "k - 1") auto
    have "n div base < base ^ j" using "1.prems" k by (simp add: div_less_iff_less_mult mult.commute)
    then have "length (numeral_digits base (n div base)) \<le> j" using False "1.prems" "1.IH" k by simp
    then show ?thesis using False "1.prems" k by (simp add: numeral_digits.simps [of base n])
  qed
qed

lemma numeral_digits_bound: "2 \<le> base \<Longrightarrow> d \<in> set (numeral_digits base n) \<Longrightarrow> d < base"
proof (induction base n rule: numeral_digits.induct)
  case (1 base n)
  then show ?case by (auto simp: numeral_digits.simps [of base n] split: if_splits)
qed

lemma digits_value_append:
  "digits_value base (xs @ ys) acc = digits_value base ys (digits_value base xs acc)"
  by (induction xs arbitrary: acc) auto

lemma numeral_digits_value:
  "2 \<le> base \<Longrightarrow> digits_value (int base) (map int (numeral_digits base n)) 0 = int n"
proof (induction base n rule: numeral_digits.induct)
  case (1 base n)
  then show ?case
    by (cases "n < base")
      (simp_all add: numeral_digits.simps [of base n] digits_value_append zdiv_int zmod_int)
qed

lemma fill_loop_digits:
  assumes base: "2 \<le> unat base" "unat base \<le> length digits"
  shows "fill_loop room digits val base acc =
    (if length (numeral_digits (unat base) (unat val)) \<le> room
     then Inr (map (\<lambda>d. digits ! d) (numeral_digits (unat base) (unat val)) @ acc) else Inl Out_of_bounds)"
proof (induction room arbitrary: val acc)
  case 0
  have "numeral_digits (unat base) (unat val) \<noteq> []"
    using base by (simp add: numeral_digits.simps [of "unat base"])
  then show ?case by simp
next
  case (Suc room)
  have i: "unat (val mod base) < length digits" "unat (val mod base) = unat val mod unat base"
    using base by (auto simp: unat_mod_distrib intro: order_less_le_trans [OF mod_less_divisor])
  have z: "val div base \<noteq> 0 \<longleftrightarrow> \<not> unat val < unat base"
    using base by (simp add: word_unat_eq_iff unat_div_distrib div_eq_0_iff)
  show ?case
    using i base Suc.IH by (auto simp: Let_def z not_le numeral_digits.simps [of "unat base" "unat val"]
        unat_div_distrib)
qed

text \<open>C24: \<open>fill_numbuf\<close> with the buffer of \<open>vprintf\<close> never runs off the buffer, and \<open>strtoul\<close> in the same
  base reads the digits back to the number, whatever follows them that is not a digit.\<close>

theorem fill_numbuf_strtoul:
  assumes base: "base = 10 \<or> base = 16 \<or> base = - 16"
  shows "\<exists>bs. fill_numbuf NUMBUFSIZ val base = Inr bs \<and> length bs \<le> 20
    \<and> (\<forall>m s rest. cstr m s (bs @ rest) \<and> stops_digits \<bar>base\<bar> rest \<and> no_hex_prefix \<bar>base\<bar> (bs @ rest)
         \<longrightarrow> strtoul m s \<bar>base\<bar> = Some (val, s + of_nat (length bs)))"
proof -
  let ?b = "nat \<bar>base\<bar>" and ?digits = "if base < 0 then lower_digits else upper_digits"
  let ?ds = "numeral_digits ?b (unat val)"
  define bs where "bs = map (\<lambda>d. ?digits ! d) ?ds"
  have b: "2 \<le> ?b" "?b \<le> 16" "unat (of_int (if base < 0 then - base else base) :: u64) = ?b"
    using base by auto
  have "unat val < 2 ^ 64" using unat_lt2p [of val] by simp
  then have "unat val < ?b ^ 20"
    using base by (auto intro: order_less_le_trans)
  then have len: "length ?ds \<le> 20" using numeral_digits_length [of ?b "unat val" 20] b by simp
  have "length ?digits = 16" by (simp add: upper_digits_def lower_digits_def)
  then have "fill_loop 23 ?digits val (of_int (if base < 0 then - base else base)) [] = Inr bs"
    using fill_loop_digits [of "of_int (if base < 0 then - base else base)" ?digits 23 val "[]"] b len
    by (simp only: bs_def) simp
  then have fb: "fill_numbuf NUMBUFSIZ val base = Inr bs" by (simp add: fill_numbuf_def Let_def)
  have run: "digit_run \<bar>base\<bar> bs (map int ?ds)"
  proof -
    have "strtoul_digit \<bar>base\<bar> (?digits ! d) = Some (int d)" if "d < ?b" for d
      using digits_table [of ?digits d] base that by (auto simp: digit_ok_def)
    then show ?thesis using numeral_digits_bound [OF b(1)] by (simp add: digit_run_def bs_def)
  qed
  have ne: "bs \<noteq> []" using b by (simp add: bs_def numeral_digits.simps [of ?b])
  have "digits_value \<bar>base\<bar> (map int ?ds) 0 = uint val"
    using numeral_digits_value [OF b(1), of "unat val"] base by auto
  then have v: "strtoul_value False (digits_value \<bar>base\<bar> (map int ?ds) 0) = val"
    using unsigned_less [of val, where 'a = int] by (simp add: strtoul_value_def)
  have "strtoul m s \<bar>base\<bar> = Some (val, s + of_nat (length bs))"
    if "cstr m s (bs @ rest)" "stops_digits \<bar>base\<bar> rest" "no_hex_prefix \<bar>base\<bar> (bs @ rest)" for m s rest
    using strtoul_number [of m s "[]" "[]" bs rest "\<bar>base\<bar>" "map int ?ds"] that run ne base v by auto
  then show ?thesis using fb len by (auto simp: bs_def)
qed

theorem fill_numbuf_strtoul_witness:
  "\<exists>bs. fill_numbuf NUMBUFSIZ 1234 10 = Inr bs \<and> length bs \<le> 20
     \<and> strtoul (\<lambda>a. if a < of_nat (length bs) then bs ! unat a else 0) 0 10 = Some (1234, of_nat (length bs))"
proof -
  obtain bs where bs: "fill_numbuf NUMBUFSIZ 1234 10 = Inr bs" "length bs \<le> 20"
      and rt: "\<And>m s rest. cstr m s (bs @ rest) \<Longrightarrow> stops_digits 10 rest \<Longrightarrow> no_hex_prefix 10 (bs @ rest)
         \<Longrightarrow> strtoul m s 10 = Some (1234, s + of_nat (length bs))"
    using fill_numbuf_strtoul [of 10 1234] by auto
  have "fill_numbuf NUMBUFSIZ 1234 10 = Inr [49, 50, 51, 52]" by code_simp
  then have b: "bs = [49, 50, 51, 52]" using bs by simp
  have "cstr (\<lambda>a. if a < of_nat (length bs) then bs ! unat a else 0) 0 (bs @ [])"
    unfolding b by code_simp
  from rt [OF this] have "strtoul (\<lambda>a. if a < of_nat (length bs) then bs ! unat a else 0) 0 10
      = Some (1234, of_nat (length bs))"
    by (simp add: stops_digits_def no_hex_prefix_def)
  then show ?thesis using bs by blast
qed

text \<open>C23: for a format that prints \<open>out\<close>, \<open>vsnprintf\<close> returns the full length of \<open>out\<close>, stores as much of
  it as fits before a terminating NUL within the \<open>sz\<close> bytes of the buffer, and changes no other byte
  of memory; a buffer of size 0 is not touched.\<close>

theorem vsnprintf_bounded:
  assumes "unat s + unat sz < 2 ^ 64" "printed 0 fmt args = Inr out"
  shows "\<exists>m'. vsnprintf m s sz fmt args = Inr (of_nat (length out), m')
    \<and> (\<forall>a. m' a = (let i = unat (a - s); n = min (length out) (unat sz - 1) in
         if sz = 0 then m a else if i < n then fst (out ! i) else if i = n then 0 else m a))"
proof -
  have e: "s + sz = s + of_nat (unat sz)" by simp
  obtain m1 where m1: "put_all sp_putc \<lparr>sp_mem = m, sp_s = s, sp_end = s + sz, sp_n = 0\<rparr> out =
      Inr \<lparr>sp_mem = m1, sp_s = s + of_nat (min (length out) (unat sz)), sp_end = s + sz,
           sp_n = of_nat (length out)\<rparr>"
    and mm: "\<forall>a. m1 a = (let i = unat (a - s) in if i < min (length out) (unat sz) then fst (out ! i) else m a)"
    using sp_put_all [OF assms(1), of 0 m 0 out] by (auto simp: Let_def)
  let ?n = "min (length out) (unat sz)"
  have lt: "s + of_nat ?n < s + sz \<longleftrightarrow> ?n < unat sz"
    using assms(1) unat_lt2p [of sz]
    by (simp add: word_less_nat_alt unat_word_ariths unat_of_nat_small min_less_iff_disj
        min.strict_coboundedI2 mod_less)
  have small: "unat sz - 1 < 2 ^ 64" "?n < unat sz \<Longrightarrow> ?n < 2 ^ 64"
    using unat_lt2p [of sz] by (auto intro: less_imp_diff_less)
  let ?m' = "if sz \<noteq> 0 \<and> ?n < unat sz then m1(s + of_nat ?n := 0)
      else if sz \<noteq> 0 then m1(s + of_nat (unat sz - 1) := 0) else m1"
  have last: "s + sz - 1 = s + of_nat (unat sz - 1)" if "sz \<noteq> 0"
    using that by (simp add: unat_gt_0 of_nat_diff Suc_leI)
  have "vsnprintf m s sz fmt args = Inr (of_nat (length out), ?m')"
    using m1 lt unfolding vsnprintf_def vprintf_output [OF assms(2)] bindE.simps
    by (cases "sz = 0") (auto simp only: bindE.simps string_printer.simps last if_True if_False
        not_True_eq_False not_False_eq_True simp_thms)
  moreover have "?m' a = (let i = unat (a - s); n = min (length out) (unat sz - 1) in
         if sz = 0 then m a else if i < n then fst (out ! i) else if i = n then 0 else m a)" for a
  proof -
    consider (empty) "sz = 0" | (fits) "sz \<noteq> 0" "?n < unat sz" | (full) "sz \<noteq> 0" "\<not> ?n < unat sz" by blast
    then show ?thesis
    proof cases
      case empty
      then show ?thesis using mm by (simp add: Let_def)
    next
      case fits
      then have "min (length out) (unat sz - 1) = length out" "?n = length out" "length out < unat sz" by auto
      then show ?thesis using fits mm store_at [OF small(2) [OF fits(2)], of m1 s 0 a] by (simp add: Let_def)
    next
      case full
      then have "0 < unat sz" by (simp add: unat_gt_0)
      then have "min (length out) (unat sz - 1) = unat sz - 1" "?n = unat sz" using full by auto
      then show ?thesis
        using full mm store_at [OF small(1), of m1 s 0 a] by (auto simp: Let_def)
    qed
  qed
  ultimately show ?thesis by blast
qed

theorem vsnprintf_bounded_witness:
  "\<exists>m'. vsnprintf (\<lambda>_. 1) 0x1000 4 [104, 105, 37, 100] [Arg_int 57] = Inr (4, m')
     \<and> m' 0x1000 = 104 \<and> m' 0x1002 = 53 \<and> m' 0x1003 = 0 \<and> m' 0x1004 = 1"
proof -
  have p: "printed 0 [104, 105, 37, 100] [Arg_int 57] = Inr [(104, 0), (105, 0), (53, 0), (55, 0)]"
    by code_simp
  have b: "unat (0x1000 :: u64) + unat (4 :: u64) < 2 ^ 64" by simp
  from vsnprintf_bounded [OF b p, of "\<lambda>_. 1"] obtain m' where
      m': "vsnprintf (\<lambda>_. 1) 0x1000 4 [104, 105, 37, 100] [Arg_int 57] = Inr (4, m')"
      and at: "\<And>a. m' a = (let i = unat (a - 0x1000); n = min 4 (4 - 1) in
         if i < n then fst ([(104, 0 :: u32), (105, 0), (53, 0), (55, 0)] ! i) else if i = n then 0 else 1)"
    by (auto simp: Let_def)
  show ?thesis
    using m' at [of "0x1000"] at [of "0x1002"] at [of "0x1003"] at [of "0x1004"]
    by (auto simp: Let_def)
qed

end
