(* ===== verification/Log.thy ===== *)
theory Log
  imports Hardware Printf
begin

text \<open>
  Debugging output of \<open>k-hardware.cc\<close>: the parallel port, \<open>log_printf\<close>, the symbol table search and the
  walk over the frames of the kernel stack. The results are that the host receives exactly the
  characters printed, in order, and that the binary search finds the symbol that covers an address
  when the table is sorted.
\<close>

definition lit :: "string \<Rightarrow> u8 list" where
  "lit s = map of_char s"

section \<open>Parallel port\<close>

definition delay :: "io \<Rightarrow> io" where
  "delay s =
     (let (_, s) = inb 0x84 s; (_, s) = inb 0x84 s; (_, s) = inb 0x84 s; (_, s) = inb 0x84 s in s)"

text \<open>The wait loop: at most 12800 rounds, ended early by the status bit \<open>0x80\<close>.\<close>

function pp_wait :: "nat \<Rightarrow> io \<Rightarrow> io" where
  "pp_wait i s =
     (if i < 12800 then let (st, s1) = inb 0x379 s in
        if st AND 0x80 = 0 then pp_wait (i + 1) (delay s1) else s1
      else s)"
  by pat_completeness auto
termination by (relation "measure (\<lambda>(i, s). 12800 - i)") auto

declare pp_wait.simps [simp del]

text \<open>The state of the log printer: the static \<open>initialized\<close> of \<open>parallel_port_putc\<close>, and the ports.\<close>

definition parallel_port_putc :: "u8 \<Rightarrow> bool \<times> io \<Rightarrow> bool \<times> io" where
  "parallel_port_putc c st =
     (let (initialized, s) = st;
          s1 = (if initialized then s else outb 0x37A 0 s);
          s2 = outb 0x378 c (pp_wait 0 s1)
      in (True, outb 0x37A (0x08 OR 0x04) (outb 0x37A (0x08 OR 0x04 OR 0x01) s2)))"

definition log_putc :: "bool \<times> io \<Rightarrow> u8 \<Rightarrow> u32 \<Rightarrow> fault + (bool \<times> io)" where
  "log_putc st c color = Inr (parallel_port_putc c st)"

definition log_vprintf :: "u8 list \<Rightarrow> varg list \<Rightarrow> bool \<times> io \<Rightarrow> fault + (bool \<times> io)" where
  "log_vprintf fmt args st = vprintf log_putc st 0 fmt args"

definition log_printf :: "u8 list \<Rightarrow> varg list \<Rightarrow> bool \<times> io \<Rightarrow> fault + (bool \<times> io)" where
  "log_printf fmt args st = log_vprintf fmt args st"

interpretation lp: printer log_putc "\<lambda>_. True"
  by unfold_locales (simp add: log_putc_def)

text \<open>What the host receives: the values sent to the data port.\<close>

fun log_bytes :: "io_event list \<Rightarrow> u8 list" where
  "log_bytes [] = []"
| "log_bytes (Out8 p v # es) = (if p = 0x378 then v # log_bytes es else log_bytes es)"
| "log_bytes (_ # es) = log_bytes es"

lemma log_bytes_append [simp]: "log_bytes (xs @ ys) = log_bytes xs @ log_bytes ys"
  by (induction xs rule: log_bytes.induct) auto

lemma inb_log [simp]: "log_bytes (events (snd (inb p s))) = log_bytes (events s)"
  by (simp add: inb_def io_ask_def io_do_def)

lemma outb_log [simp]:
  "log_bytes (events (outb p v s)) = log_bytes (events s) @ (if p = 0x378 then [v] else [])"
  by (simp add: outb_def io_do_def)

lemma delay_log [simp]: "log_bytes (events (delay s)) = log_bytes (events s)"
  by (simp add: delay_def case_prod_beta)

lemma pp_wait_log [simp]: "log_bytes (events (pp_wait i s)) = log_bytes (events s)"
proof (induction i s rule: pp_wait.induct)
  case (1 i s)
  obtain st s1 where r: "inb 0x379 s = (st, s1)" by (cases "inb 0x379 s")
  then have s1: "log_bytes (events s1) = log_bytes (events s)" using inb_log [of "0x379" s] by simp
  show ?case
  proof (cases "i < 12800 \<and> st AND 0x80 = 0")
    case True
    then show ?thesis using 1 [OF _ r [symmetric]] r s1 by (subst pp_wait.simps) simp
  next
    case False
    then show ?thesis using r s1 by (subst pp_wait.simps) auto
  qed
qed

lemma parallel_port_putc_log:
  "log_bytes (events (snd (parallel_port_putc c st))) = log_bytes (events (snd st)) @ [c]"
  by (cases st) (simp add: parallel_port_putc_def)

lemma put_all_log:
  "\<exists>st'. put_all log_putc st out = Inr st' \<and> log_bytes (events (snd st')) = log_bytes (events (snd st)) @ map fst out"
proof (induction out arbitrary: st)
  case Nil
  then show ?case by simp
next
  case (Cons x out)
  from Cons.IH [of "parallel_port_putc (fst x) st"] show ?case
    by (auto simp: log_putc_def parallel_port_putc_log)
qed

section \<open>Symbols\<close>

record elf_symbol =
  st_name :: u32
  st_info :: u8
  st_other :: u8
  st_shndx :: u16
  st_value :: u64
  st_size :: u64

text \<open>The reference to the symbol table: its entries and the NUL-terminated strings by their offset.\<close>

record symtab =
  sym :: "elf_symbol list"
  strtab :: "u32 \<Rightarrow> u8 list"

abbreviation (input) SYMTAB_ADDR :: u64 where "SYMTAB_ADDR \<equiv> 0x1000000"

definition covers :: "elf_symbol list \<Rightarrow> nat \<Rightarrow> u64 \<Rightarrow> bool" where
  "covers syms k addr \<longleftrightarrow>
     st_value (syms ! k) \<le> addr
     \<and> (if st_size (syms ! k) \<noteq> 0 then addr < st_value (syms ! k) + st_size (syms ! k)
        else k + 1 = length syms \<or> addr < st_value (syms ! (k + 1)))"

function symbol_search :: "elf_symbol list \<Rightarrow> u64 \<Rightarrow> nat \<Rightarrow> nat \<Rightarrow> nat option" where
  "symbol_search syms addr l r =
     (if l < r then
        let k = l + (r - l) div 2 in
        if covers syms k addr then Some k
        else if st_value (syms ! k) < addr then symbol_search syms addr (k + 1) r
        else symbol_search syms addr l k
      else None)"
  by pat_completeness auto
termination by (relation "measure (\<lambda>(syms, addr, l, r). r - l)") auto

declare symbol_search.simps [simp del]

text \<open>\<open>lookup_symbol\<close> first makes the table visible: entry 8 of the kernel's level-2 page table maps it.\<close>

definition map_symtab :: "addr \<Rightarrow> mem \<Rightarrow> mem" where
  "map_symtab kpt m =
     (let e = entry_addr (kpt + 2 * PAGESIZE) (unat (SYMTAB_ADDR div 0x200000)) in
      if ld64 m e = 0 then st64 m e (SYMTAB_ADDR OR PTE_P OR PTE_W OR PTE_PS) else m)"

definition lookup_symbol :: "addr \<Rightarrow> symtab \<Rightarrow> u64 \<Rightarrow> mem \<Rightarrow> (u8 list \<times> u64) option \<times> mem" where
  "lookup_symbol kpt t addr m =
     (case symbol_search (sym t) addr 0 (length (sym t)) of
        Some k \<Rightarrow> Some (strtab t (st_name (sym t ! k)), st_value (sym t ! k))
      | None \<Rightarrow> None, map_symtab kpt m)"

section \<open>Backtraces\<close>

record backtracer =
  bt_rbp :: u64
  bt_rsp :: u64
  bt_stack_top :: u64

definition bt_ok :: "backtracer \<Rightarrow> bool" where
  "bt_ok b \<longleftrightarrow> bt_rbp b \<ge> bt_rsp b \<and> bt_stack_top b - bt_rbp b \<ge> 16"

definition bt_ret_rip :: "mem \<Rightarrow> backtracer \<Rightarrow> u64" where
  "bt_ret_rip m b = ld64 m (bt_rbp b + 8)"

definition bt_step :: "mem \<Rightarrow> backtracer \<Rightarrow> backtracer" where
  "bt_step m b = b\<lparr>bt_rsp := bt_rbp b + 16, bt_rbp := ld64 m (bt_rbp b)\<rparr>"

section \<open>The search\<close>

text \<open>Strictly sorted by address, no symbol reaching into the next or past the end of memory.\<close>

definition sym_before :: "elf_symbol \<Rightarrow> elf_symbol \<Rightarrow> bool" where
  "sym_before a b \<longleftrightarrow> st_value a < st_value b \<and> unat (st_value a) + unat (st_size a) \<le> unat (st_value b)"

definition syms_ok :: "elf_symbol list \<Rightarrow> bool" where
  "syms_ok syms \<longleftrightarrow>
     sorted_wrt sym_before syms \<and> list_all (\<lambda>a. unat (st_value a) + unat (st_size a) < 2 ^ 64) syms"

lemma syms_ok_nth:
  "syms_ok syms \<Longrightarrow> i < j \<Longrightarrow> j < length syms \<Longrightarrow> sym_before (syms ! i) (syms ! j)"
  "syms_ok syms \<Longrightarrow> i < length syms \<Longrightarrow> unat (st_value (syms ! i)) + unat (st_size (syms ! i)) < 2 ^ 64"
  by (simp_all add: syms_ok_def sorted_wrt_iff_nth_less list_all_length)

lemma covers_unat:
  assumes "syms_ok syms" "k < length syms"
  shows "covers syms k addr \<longleftrightarrow> unat (st_value (syms ! k)) \<le> unat addr
     \<and> (if st_size (syms ! k) \<noteq> 0 then unat addr < unat (st_value (syms ! k)) + unat (st_size (syms ! k))
        else k + 1 = length syms \<or> unat addr < unat (st_value (syms ! (k + 1))))"
proof -
  have "unat (st_value (syms ! k) + st_size (syms ! k)) = unat (st_value (syms ! k)) + unat (st_size (syms ! k))"
    using syms_ok_nth(2) [OF assms] by (intro unat_add_small) simp
  then show ?thesis by (simp add: covers_def word_le_nat_alt word_less_nat_alt)
qed

lemma covers_before:
  assumes ok: "syms_ok syms" and j: "j < k" "k < length syms" and c: "covers syms j addr"
  shows "addr < st_value (syms ! k)"
proof (cases "st_size (syms ! j) = 0")
  case True
  then have "addr < st_value (syms ! (j + 1))" using c j by (auto simp: covers_def)
  also have "st_value (syms ! (j + 1)) \<le> st_value (syms ! k)"
    using syms_ok_nth(1) [OF ok, of "j + 1" k] j by (cases "j + 1 = k") (auto simp: sym_before_def)
  finally show ?thesis .
next
  case False
  have "unat (st_value (syms ! j)) + unat (st_size (syms ! j)) \<le> unat (st_value (syms ! k))"
    using syms_ok_nth(1) [OF ok j] by (simp add: sym_before_def)
  then show ?thesis using False c covers_unat [OF ok, of j addr] j by (simp add: word_less_nat_alt)
qed

lemma covers_value: "covers syms k addr \<Longrightarrow> st_value (syms ! k) \<le> addr"
  by (simp add: covers_def)

lemma covers_unique:
  "syms_ok syms \<Longrightarrow> i < length syms \<Longrightarrow> j < length syms \<Longrightarrow> covers syms i addr \<Longrightarrow> covers syms j addr \<Longrightarrow> i = j"
  using covers_before [of syms i j addr] covers_before [of syms j i addr] covers_value [of syms]
  by (cases i j rule: linorder_cases) (auto simp: not_less [symmetric])

lemma covers_at_value:
  assumes ok: "syms_ok syms" and k: "k < length syms" and e: "st_value (syms ! k) = addr"
  shows "covers syms k addr"
proof -
  have "unat (st_value (syms ! k)) < unat (st_value (syms ! (k + 1)))" if "k + 1 < length syms"
    using syms_ok_nth(1) [OF ok _ that, of k] by (simp add: sym_before_def word_less_nat_alt)
  moreover have "st_size (syms ! k) \<noteq> 0 \<Longrightarrow> 0 < unat (st_size (syms ! k))" by (simp add: unat_gt_0)
  ultimately show ?thesis
    using e k unfolding covers_unat [OF ok k] by (cases "k + 1 < length syms") auto
qed

lemma symbol_search_correct:
  assumes ok: "syms_ok syms" and "r \<le> length syms"
    and "\<And>j. j < length syms \<Longrightarrow> covers syms j addr \<Longrightarrow> l \<le> j \<and> j < r"
  shows "symbol_search syms addr l r = Some k \<longleftrightarrow> k < length syms \<and> covers syms k addr"
  using assms
proof (induction syms addr l r rule: symbol_search.induct)
  case (1 syms addr l r)
  let ?k = "l + (r - l) div 2"
  show ?case
  proof (cases "l < r")
    case False
    then have "\<not> (k < length syms \<and> covers syms k addr)" using 1(5) [of k] by auto
    then show ?thesis using False by (subst symbol_search.simps) simp
  next
    case True
    then have k: "l \<le> ?k" "?k < r" "?k < length syms" using 1(4) by auto
    note ok = 1(3)
    consider (hit) "covers syms ?k addr" | (right) "\<not> covers syms ?k addr" "st_value (syms ! ?k) < addr"
      | (left) "\<not> covers syms ?k addr" "\<not> st_value (syms ! ?k) < addr" by blast
    then show ?thesis
    proof cases
      case hit
      then show ?thesis using True k covers_unique [OF ok k(3)] by (subst symbol_search.simps) (auto simp: Let_def)
    next
      case right
      have nx: "?k + 1 \<le> j \<and> j < r" if "j < length syms" "covers syms j addr" for j
        using 1(5) [OF that] covers_before [OF ok, of j ?k addr] that right k
        by (cases j ?k rule: linorder_cases) auto
      show ?thesis using 1(1) [OF True refl right ok _ nx] 1(4) right True
        by (subst symbol_search.simps) (simp add: Let_def)
    next
      case left
      have "addr < st_value (syms ! ?k)" using left covers_at_value [OF ok k(3), of addr] by (auto simp: not_less order_le_less)
      moreover have "st_value (syms ! ?k) \<le> st_value (syms ! j)" if "?k \<le> j" "j < length syms" for j
        using syms_ok_nth(1) [OF ok, of ?k j] that by (cases "j = ?k") (auto simp: sym_before_def)
      ultimately have nx: "l \<le> j \<and> j < ?k" if "j < length syms" "covers syms j addr" for j
        using 1(5) [OF that] that covers_value [of syms j addr] by (meson leI order_less_le_trans order_less_irrefl)
      show ?thesis using 1(2) [OF True refl left ok _ nx] k left True
        by (subst symbol_search.simps) (simp add: Let_def)
    qed
  qed
qed

section \<open>Properties\<close>

text \<open>C37: \<open>log_printf\<close> sends to the parallel port exactly the characters that the format and its arguments
  give, one by one and in order, whatever the port answers while it is polled.\<close>

theorem log_printf_output:
  assumes "printed 0 fmt args = Inr out"
  shows "\<exists>st'. log_printf fmt args st = Inr st'
    \<and> log_bytes (events (snd st')) = log_bytes (events (snd st)) @ map fst out"
  using put_all_log [of st out] assms by (simp add: log_printf_def log_vprintf_def vprintf_output)

theorem log_printf_output_witness:
  "\<exists>st'. log_printf [120, 61, 37, 100] [Arg_int 5] (False, \<lparr>device = \<lambda>_ _. 0x80, events = []\<rparr>) = Inr st'
     \<and> log_bytes (events (snd st')) = [120, 61, 53]"
proof -
  have p: "printed 0 [120, 61, 37, 100] [Arg_int 5] = Inr [(120, 0), (61, 0), (53, 0)]" by code_simp
  from log_printf_output [OF p, of "(False, \<lparr>device = \<lambda>_ _. 0x80, events = []\<rparr>)"] show ?thesis by simp
qed

text \<open>C38: in a symbol table that is strictly sorted by address and whose symbols do not overlap, the binary
  search of \<open>lookup_symbol\<close> ends and returns the name and start of the one symbol that covers the
  address; it reports failure exactly when no symbol does.\<close>

theorem lookup_symbol_correct:
  assumes "syms_ok (sym t)"
  shows "fst (lookup_symbol kpt t addr m) = Some (name, start) \<longleftrightarrow>
      (\<exists>k < length (sym t). covers (sym t) k addr \<and> name = strtab t (st_name (sym t ! k)) \<and> start = st_value (sym t ! k))"
proof -
  have s: "symbol_search (sym t) addr 0 (length (sym t)) = Some k \<longleftrightarrow> k < length (sym t) \<and> covers (sym t) k addr" for k
    by (rule symbol_search_correct [OF assms]) auto
  show ?thesis
  proof (cases "symbol_search (sym t) addr 0 (length (sym t))")
    case None
    then have "\<not> (k < length (sym t) \<and> covers (sym t) k addr)" for k using s [of k] by simp
    with None show ?thesis by (auto simp: lookup_symbol_def)
  next
    case (Some k)
    then have "k' < length (sym t) \<and> covers (sym t) k' addr \<longleftrightarrow> k' = k" for k' using s [of k'] by auto
    then have "(\<exists>k' < length (sym t). covers (sym t) k' addr \<and> Q k') \<longleftrightarrow> Q k" for Q by metis
    with Some show ?thesis by (auto simp: lookup_symbol_def)
  qed
qed

definition sample_symtab :: symtab where
  "sample_symtab =
     \<lparr>sym = map (\<lambda>(n, v, z). \<lparr>st_name = n, st_info = 0, st_other = 0, st_shndx = 0, st_value = v, st_size = z\<rparr>)
         [(1, 0x40000, 0x20), (7, 0x40020, 0), (9, 0x40100, 0x10)],
      strtab = \<lambda>n. if n = 7 then [115, 121, 109] else []\<rparr>"

theorem lookup_symbol_correct_witness:
  "fst (lookup_symbol 0 sample_symtab 0x40050 (\<lambda>_. 0)) = Some ([115, 121, 109], 0x40020)"
proof -
  have ok: "syms_ok (sym sample_symtab)"
    by (simp add: syms_ok_def sample_symtab_def sym_before_def)
  have k: "1 < length (sym sample_symtab)" "covers (sym sample_symtab) 1 0x40050"
    "[115, 121, 109] = strtab sample_symtab (st_name (sym sample_symtab ! 1))" "0x40020 = st_value (sym sample_symtab ! 1)"
    by (simp_all add: covers_def sample_symtab_def del: One_nat_def)
  show ?thesis by (rule lookup_symbol_correct [OF ok, THEN iffD2]) (use k in blast)
qed

end
