(* ===== verification/Console.thy ===== *)
theory Console
  imports Printf
begin

text \<open>
  The CGA console of \<open>lib.cc\<close>: the cells and the shared cursor position, and the \<open>console_printer\<close>
  that \<open>console_puts\<close> and \<open>console_vprintf\<close> print through. The pointer \<open>cell_\<close> is its offset from
  \<open>console\<close>; a store outside the array is a fault.
\<close>

section \<open>State\<close>

abbreviation (input) CONSOLE_COLUMNS :: int where "CONSOLE_COLUMNS \<equiv> 80"
abbreviation (input) CONSOLE_ROWS :: int where "CONSOLE_ROWS \<equiv> 25"

definition CPOS :: "int \<Rightarrow> int \<Rightarrow> int" where
  "CPOS row col = row * 80 + col"

record console =
  cells :: "int \<Rightarrow> u16"
  cursorpos :: int

record console_printer =
  cp_console :: console
  cp_cell :: int
  cp_scroll :: bool

section \<open>Operations\<close>

definition console_clear :: "console \<Rightarrow> console" where
  "console_clear con =
     con\<lparr>cells := (\<lambda>i. if 0 \<le> i \<and> i < CONSOLE_ROWS * CONSOLE_COLUMNS then 0x0720 else cells con i),
         cursorpos := 0\<rparr>"

definition console_printer_init :: "console \<Rightarrow> int \<Rightarrow> bool \<Rightarrow> console_printer" where
  "console_printer_init con cpos scroll =
     \<lparr>cp_console = con,
      cp_cell = (if cpos < 0 then cursorpos con
                 else if cpos \<le> CONSOLE_ROWS * CONSOLE_COLUMNS then cpos else 0),
      cp_scroll = scroll\<rparr>"

text \<open>\<open>scroll\<close> moves rows 1 to 24 up by one row and zeroes the last.\<close>

definition cp_scroll_up :: "console_printer \<Rightarrow> fault + console_printer" where
  "cp_scroll_up cp =
     (if cp_cell cp < CONSOLE_ROWS * CONSOLE_COLUMNS then Inl Assert_fail
      else if cp_scroll cp
      then let c = cells (cp_console cp);
               c' = (\<lambda>i. if 0 \<le> i \<and> i < (CONSOLE_ROWS - 1) * CONSOLE_COLUMNS then c (i + CONSOLE_COLUMNS)
                         else if (CONSOLE_ROWS - 1) * CONSOLE_COLUMNS \<le> i \<and> i < CONSOLE_ROWS * CONSOLE_COLUMNS
                         then 0 else c i)
           in Inr (cp\<lparr>cp_console := (cp_console cp)\<lparr>cells := c'\<rparr>, cp_cell := cp_cell cp - CONSOLE_COLUMNS\<rparr>)
      else Inr (cp\<lparr>cp_cell := 0\<rparr>))"

definition cp_store :: "console_printer \<Rightarrow> u16 \<Rightarrow> fault + console_printer" where
  "cp_store cp v =
     (if 0 \<le> cp_cell cp \<and> cp_cell cp < CONSOLE_ROWS * CONSOLE_COLUMNS
      then Inr (cp\<lparr>cp_console := (cp_console cp)\<lparr>cells := (cells (cp_console cp))(cp_cell cp := v)\<rparr>,
                   cp_cell := cp_cell cp + 1\<rparr>)
      else Inl Out_of_bounds)"

function cp_scroll_loop :: "console_printer \<Rightarrow> fault + console_printer" where
  "cp_scroll_loop cp =
     (if cp_cell cp \<ge> CONSOLE_ROWS * CONSOLE_COLUMNS
      then bindE (cp_scroll_up cp) cp_scroll_loop else Inr cp)"
  by pat_completeness auto
termination
  by (relation "measure (\<lambda>cp. nat (cp_cell cp))")
    (auto simp: cp_scroll_up_def Let_def split: if_splits)

declare cp_scroll_loop.simps [simp del]

text \<open>The loop \<open>while (pos != 80)\<close>; \<open>pos\<close> counts up to 80.\<close>

function cp_newline :: "int \<Rightarrow> u32 \<Rightarrow> console_printer \<Rightarrow> fault + console_printer" where
  "cp_newline pos color cp =
     (if pos \<noteq> 80 then bindE (cp_store cp (ucast (0x20 OR color))) (cp_newline (pos + 1) color) else Inr cp)"
  by pat_completeness auto
termination
  by (relation "measure (\<lambda>(pos, color, cp). nat (CONSOLE_ROWS * CONSOLE_COLUMNS - cp_cell cp))")
    (auto simp: cp_store_def split: if_splits)

declare cp_newline.simps [simp del]

text \<open>\<open>(cell_ - console) % 80\<close> truncates towards zero.\<close>

definition cp_putc :: "console_printer \<Rightarrow> u8 \<Rightarrow> u32 \<Rightarrow> fault + console_printer" where
  "cp_putc cp c color =
     bindE (cp_scroll_loop cp) (\<lambda>cp'.
       if c = 10
       then cp_newline (if cp_cell cp' < 0 then - ((- cp_cell cp') mod 80) else cp_cell cp' mod 80) color cp'
       else cp_store cp' (ucast (ucast c OR color)))"

text \<open>\<open>move_cursor\<close> on the console; the kernel also moves the cursor of the display (\<open>kprint\<close> in \<open>Machine\<close>).\<close>

definition cp_move_cursor :: "console_printer \<Rightarrow> console" where
  "cp_move_cursor cp = (cp_console cp)\<lparr>cursorpos := cp_cell cp\<rparr>"

definition console_puts :: "console \<Rightarrow> int \<Rightarrow> u32 \<Rightarrow> u8 list \<Rightarrow> fault + (int \<times> console)" where
  "console_puts con cpos color s =
     bindE (putcs cp_putc (console_printer_init con cpos (cpos < 0)) s color) (\<lambda>cp.
       Inr (cp_cell cp, if cpos < 0 then cp_move_cursor cp else cp_console cp))"

definition console_vprintf :: "console \<Rightarrow> int \<Rightarrow> u32 \<Rightarrow> u8 list \<Rightarrow> varg list \<Rightarrow> fault + (int \<times> console)" where
  "console_vprintf con cpos color fmt args =
     bindE (vprintf cp_putc (console_printer_init con cpos (cpos < 0)) color fmt args) (\<lambda>cp.
       Inr (cp_cell cp, if cpos < 0 then cp_move_cursor cp else cp_console cp))"

definition console_printf :: "console \<Rightarrow> int \<Rightarrow> u32 \<Rightarrow> u8 list \<Rightarrow> varg list \<Rightarrow> fault + (int \<times> console)" where
  "console_printf con cpos color fmt args = console_vprintf con cpos color fmt args"

definition console_printf_color :: "console \<Rightarrow> u32 \<Rightarrow> u8 list \<Rightarrow> varg list \<Rightarrow> fault + console" where
  "console_printf_color con color fmt args =
     bindE (console_vprintf con (- 1) color fmt args) (\<lambda>(pos, con'). Inr con')"

definition console_printf_plain :: "console \<Rightarrow> u8 list \<Rightarrow> varg list \<Rightarrow> fault + console" where
  "console_printf_plain con fmt args =
     bindE (console_vprintf con (- 1) 0x700 fmt args) (\<lambda>(pos, con'). Inr con')"

section \<open>Correctness\<close>

text \<open>The invariant of a printer: the cell is in the array or one past its end, and the screen
  memory outside the array is that of \<open>con\<close>.\<close>

definition cp_ok :: "console \<Rightarrow> bool \<Rightarrow> console_printer \<Rightarrow> bool" where
  "cp_ok con scroll cp \<longleftrightarrow>
     0 \<le> cp_cell cp \<and> cp_cell cp \<le> CONSOLE_ROWS * CONSOLE_COLUMNS \<and> cp_scroll cp = scroll
     \<and> cursorpos (cp_console cp) = cursorpos con
     \<and> (\<forall>i. i < 0 \<or> CONSOLE_ROWS * CONSOLE_COLUMNS \<le> i \<longrightarrow> cells (cp_console cp) i = cells con i)"

lemma cp_scroll_loop_ok:
  "cp_ok con scroll cp \<Longrightarrow>
   \<exists>cp'. cp_scroll_loop cp = Inr cp' \<and> cp_ok con scroll cp' \<and> cp_cell cp' < CONSOLE_ROWS * CONSOLE_COLUMNS"
  by (cases "cp_cell cp = 2000")
    (auto simp: cp_scroll_loop.simps [of cp] cp_scroll_up_def Let_def cp_ok_def,
     auto simp: cp_scroll_loop.simps)

lemma cp_newline_ok:
  "cp_ok con scroll cp \<Longrightarrow> 0 \<le> pos \<Longrightarrow> pos \<le> 80 \<Longrightarrow> cp_cell cp + (80 - pos) \<le> CONSOLE_ROWS * CONSOLE_COLUMNS \<Longrightarrow>
   \<exists>cp'. cp_newline pos color cp = Inr cp' \<and> cp_ok con scroll cp' \<and> cp_cell cp' = cp_cell cp + (80 - pos)"
proof (induction pos color cp rule: cp_newline.induct)
  case (1 pos color cp)
  show ?case
  proof (cases "pos = 80")
    case True
    with 1 show ?thesis by (simp add: cp_newline.simps [of 80])
  next
    case False
    let ?cp = "cp\<lparr>cp_console := (cp_console cp)\<lparr>cells := (cells (cp_console cp))(cp_cell cp := ucast (0x20 OR color))\<rparr>,
        cp_cell := cp_cell cp + 1\<rparr>"
    have st: "cp_store cp (ucast (0x20 OR color)) = Inr ?cp"
      using False "1.prems" by (simp add: cp_store_def cp_ok_def)
    moreover have "cp_ok con scroll ?cp" using False "1.prems" by (auto simp: cp_ok_def)
    ultimately show ?thesis
      using False "1.prems" "1.IH" [OF False st] by (auto simp: cp_newline.simps [of pos])
  qed
qed

lemma row_room: "0 \<le> x \<Longrightarrow> x < 2000 \<Longrightarrow> x + (80 - x mod 80) \<le> (2000 :: int)"
proof -
  assume "0 \<le> x" "x < 2000"
  then have "x div 80 < 25" by (simp add: div_less_iff_less_mult_int)
  moreover have "x - x mod 80 = 80 * (x div 80)" by (simp add: minus_mod_eq_mult_div)
  ultimately show ?thesis by linarith
qed

lemma cp_putc_ok: "cp_ok con scroll cp \<Longrightarrow> \<exists>cp'. cp_putc cp c color = Inr cp' \<and> cp_ok con scroll cp'"
proof -
  assume "cp_ok con scroll cp"
  then obtain cp1 where l: "cp_scroll_loop cp = Inr cp1" and ok: "cp_ok con scroll cp1" "cp_cell cp1 < 2000"
    using cp_scroll_loop_ok by force
  show ?thesis
  proof (cases "c = 10")
    case True
    have "\<exists>cp'. cp_newline (cp_cell cp1 mod 80) color cp1 = Inr cp' \<and> cp_ok con scroll cp'"
      using cp_newline_ok [OF ok(1), of "cp_cell cp1 mod 80" color] row_room [of "cp_cell cp1"] ok
        pos_mod_bound [of 80 "cp_cell cp1"] by (force simp: cp_ok_def)
    moreover have "\<not> cp_cell cp1 < 0" using ok by (simp add: cp_ok_def)
    ultimately show ?thesis using l True by (simp add: cp_putc_def)
  next
    case False
    then show ?thesis using l ok by (auto simp: cp_putc_def cp_store_def cp_ok_def)
  qed
qed

interpretation cp: printer cp_putc "cp_ok con scroll" for con scroll
  by unfold_locales (rule cp_putc_ok)

text \<open>Plain characters from \<open>cpos\<close> on, with room on the screen, land in consecutive cells.\<close>

lemma putcs_plain:
  "0 \<le> cp_cell cp \<Longrightarrow> cp_cell cp + int (length s) \<le> 2000 \<Longrightarrow> 10 \<notin> set s \<Longrightarrow>
   \<exists>cp'. putcs cp_putc cp s color = Inr cp' \<and> cp_cell cp' = cp_cell cp + int (length s)
     \<and> cursorpos (cp_console cp') = cursorpos (cp_console cp)
     \<and> (\<forall>i. cells (cp_console cp') i =
          (if cp_cell cp \<le> i \<and> i < cp_cell cp + int (length s)
           then ucast (ucast (s ! nat (i - cp_cell cp)) OR color) else cells (cp_console cp) i))"
proof (induction s arbitrary: cp)
  case Nil
  then show ?case by auto
next
  case (Cons c s)
  let ?cp = "cp\<lparr>cp_console := (cp_console cp)\<lparr>cells := (cells (cp_console cp))(cp_cell cp := ucast (ucast c OR color))\<rparr>,
      cp_cell := cp_cell cp + 1\<rparr>"
  have p: "cp_putc cp c color = Inr ?cp"
    using Cons.prems by (simp add: cp_putc_def cp_scroll_loop.simps [of cp] cp_store_def)
  from Cons.IH [of ?cp] Cons.prems obtain cp' where
      "putcs cp_putc ?cp s color = Inr cp'" "cp_cell cp' = cp_cell cp + 1 + int (length s)"
      "cursorpos (cp_console cp') = cursorpos (cp_console cp)"
      and c: "\<And>i. cells (cp_console cp') i =
          (if cp_cell cp + 1 \<le> i \<and> i < cp_cell cp + 1 + int (length s)
           then ucast (ucast (s ! nat (i - (cp_cell cp + 1))) OR color)
           else ((cells (cp_console cp))(cp_cell cp := ucast (ucast c OR color))) i)"
    by auto
  moreover have "nat (i - cp_cell cp) = Suc (nat (i - (cp_cell cp + 1)))" if "cp_cell cp + 1 \<le> i" for i
    using that by simp
  ultimately show ?case using p by (auto simp: nth_Cons')
qed

lemma console_vprintf_ok:
  assumes "cpos < 0 \<longrightarrow> 0 \<le> cursorpos con \<and> cursorpos con \<le> 2000" "printed color fmt args = Inr out"
  shows "\<exists>pos con'. console_vprintf con cpos color fmt args = Inr (pos, con')
    \<and> 0 \<le> pos \<and> pos \<le> 2000 \<and> cursorpos con' = (if cpos < 0 then pos else cursorpos con)
    \<and> (\<forall>i. i < 0 \<or> 2000 \<le> i \<longrightarrow> cells con' i = cells con i)"
proof -
  have "cp_ok con (cpos < 0) (console_printer_init con cpos (cpos < 0))"
    using assms(1) by (auto simp: cp_ok_def console_printer_init_def)
  from cp.vprintf_inv [OF this assms(2)] show ?thesis
    by (auto simp: console_vprintf_def cp_ok_def cp_move_cursor_def)
qed

section \<open>Properties\<close>

text \<open>C25: printing to the console from a position on the screen, or from a cursor that is on it, never
  writes outside the console array and leaves the position on the screen; \<open>cursorpos\<close> follows the
  output exactly when the position argument is negative.\<close>

theorem console_vprintf_on_screen:
  assumes "cpos < 0 \<longrightarrow> 0 \<le> cursorpos con \<and> cursorpos con \<le> 2000" "printed color fmt args = Inr out"
  shows "\<exists>pos con'. console_vprintf con cpos color fmt args = Inr (pos, con')
    \<and> 0 \<le> pos \<and> pos \<le> 2000 \<and> cursorpos con' = (if cpos < 0 then pos else cursorpos con)
    \<and> (\<forall>i. i < 0 \<or> 2000 \<le> i \<longrightarrow> cells con' i = cells con i)"
  by (rule console_vprintf_ok [OF assms])

theorem console_vprintf_on_screen_witness:
  "\<exists>pos con'. console_vprintf (console_clear \<lparr>cells = \<lambda>_. 0, cursorpos = 5\<rparr>) (- 1) 0x700 [104, 37, 100, 10] [Arg_int 7]
      = Inr (pos, con') \<and> 0 \<le> pos \<and> pos \<le> 2000 \<and> cursorpos con' = pos"
proof -
  let ?con = "console_clear \<lparr>cells = \<lambda>_. 0, cursorpos = 5\<rparr>"
  have c: "- 1 < (0 :: int) \<longrightarrow> 0 \<le> cursorpos ?con \<and> cursorpos ?con \<le> 2000" by (simp add: console_clear_def)
  have p: "printed 0x700 [104, 37, 100, 10] [Arg_int 7] = Inr [(104, 0x700), (55, 0x700), (10, 0x700)]"
    by code_simp
  from console_vprintf_on_screen [OF c p] show ?thesis by auto
qed

text \<open>C26: \<open>console_puts\<close> of characters other than a newline, at a position from which they fit on the
  screen, writes each with its colour into the next cell, changes no other cell, and returns the
  position after the last.\<close>

theorem console_puts_plain:
  assumes "0 \<le> cpos" "cpos + int (length s) \<le> 2000" "10 \<notin> set s"
  shows "\<exists>con'. console_puts con cpos color s = Inr (cpos + int (length s), con')
    \<and> cursorpos con' = cursorpos con
    \<and> (\<forall>i. cells con' i =
         (if cpos \<le> i \<and> i < cpos + int (length s)
          then ucast (ucast (s ! nat (i - cpos)) OR color) else cells con i))"
  using putcs_plain [of "console_printer_init con cpos False" s color] assms
  by (auto simp: console_puts_def console_printer_init_def)

theorem console_puts_plain_witness:
  "\<exists>con'. console_puts \<lparr>cells = \<lambda>_. 0, cursorpos = 0\<rparr> 80 0x700 [72, 105] = Inr (82, con')
     \<and> cells con' 81 = 0x769 \<and> cells con' 82 = 0"
proof -
  have a: "0 \<le> (80 :: int)" "80 + int (length [72, 105 :: u8]) \<le> 2000" "10 \<notin> set [72, 105 :: u8]" by auto
  obtain con' where "console_puts \<lparr>cells = \<lambda>_. 0, cursorpos = 0\<rparr> 80 0x700 [72, 105] = Inr (80 + 2, con')"
      and "\<And>i. cells con' i = (if 80 \<le> i \<and> i < 80 + 2
          then ucast (ucast ([72, 105] ! nat (i - 80) :: u8) OR (0x700 :: u32)) else 0)"
    using console_puts_plain [OF a, of "\<lparr>cells = \<lambda>_. 0, cursorpos = 0\<rparr>" "0x700"] by auto
  then show ?thesis by simp
qed

end
