(* ===== verification/Keyboard.thy ===== *)
theory Keyboard
  imports Devices
begin

text \<open>
  The keyboard driver of \<open>k-hardware.cc\<close>: the table from PC scan codes to characters and the state
  machine of \<open>keyboard_readc\<close>, with the modifier keys and the two-byte escape sequences.
\<close>

section \<open>Key tables\<close>

abbreviation (input) KEY_SHIFT :: int where "KEY_SHIFT \<equiv> 250"
abbreviation (input) KEY_CONTROL :: int where "KEY_CONTROL \<equiv> 251"
abbreviation (input) KEY_ALT :: int where "KEY_ALT \<equiv> 252"
abbreviation (input) KEY_CAPSLOCK :: int where "KEY_CAPSLOCK \<equiv> 253"
abbreviation (input) KEY_NUMLOCK :: int where "KEY_NUMLOCK \<equiv> 254"
abbreviation (input) KEY_SCROLLLOCK :: int where "KEY_SCROLLLOCK \<equiv> 255"

abbreviation (input) KEY_UP :: int where "KEY_UP \<equiv> 192"
abbreviation (input) KEY_RIGHT :: int where "KEY_RIGHT \<equiv> 193"
abbreviation (input) KEY_DOWN :: int where "KEY_DOWN \<equiv> 194"
abbreviation (input) KEY_LEFT :: int where "KEY_LEFT \<equiv> 195"
abbreviation (input) KEY_HOME :: int where "KEY_HOME \<equiv> 196"
abbreviation (input) KEY_END :: int where "KEY_END \<equiv> 197"
abbreviation (input) KEY_PAGEUP :: int where "KEY_PAGEUP \<equiv> 198"
abbreviation (input) KEY_PAGEDOWN :: int where "KEY_PAGEDOWN \<equiv> 199"
abbreviation (input) KEY_INSERT :: int where "KEY_INSERT \<equiv> 200"
abbreviation (input) KEY_DELETE :: int where "KEY_DELETE \<equiv> 201"

definition CKEY :: "int \<Rightarrow> int" where
  "CKEY cn = 0x80 + cn"

definition chr :: "char \<Rightarrow> int" where
  "chr c = int (of_char c)"

definition keymap :: "int list" where
  "keymap =
     [0, 27, CKEY 0, CKEY 1, CKEY 2, CKEY 3, CKEY 4, CKEY 5,
      CKEY 6, CKEY 7, CKEY 8, CKEY 9, CKEY 10, CKEY 11, 8, 9]
   @ map chr ''qwertyuiop'' @ [CKEY 12, CKEY 13, CKEY 14, KEY_CONTROL] @ map chr ''as''
   @ map chr ''dfghjkl'' @ [CKEY 15, CKEY 16, CKEY 17, KEY_SHIFT, CKEY 18] @ map chr ''zxcv''
   @ map chr ''bnm'' @ [CKEY 19, CKEY 20, CKEY 21, KEY_SHIFT, chr (CHR ''*''),
      KEY_ALT, chr (CHR '' ''), KEY_CAPSLOCK, 0, 0, 0, 0, 0]
   @ [0, 0, 0, 0, 0, KEY_NUMLOCK, KEY_SCROLLLOCK] @ map chr ''789-456+1''
   @ map chr ''230.'' @ replicate 12 0
   @ replicate 48 0
   @ replicate 12 0 @ [CKEY 14, KEY_CONTROL, 0, 0]
   @ replicate 16 0
   @ [0, 0, 0, 0, 0, chr (CHR ''/''), 0, 0, KEY_ALT] @ replicate 7 0
   @ [0, 0, 0, 0, 0, 0, 0, KEY_HOME, KEY_UP, KEY_PAGEUP, 0, KEY_LEFT, 0, KEY_RIGHT, 0, KEY_END]
   @ [KEY_DOWN, KEY_PAGEDOWN, KEY_INSERT, KEY_DELETE] @ replicate 12 0
   @ replicate 32 0"

definition complex_keymap :: "int list list" where
  "complex_keymap =
     [[chr (CHR ''1''), chr (CHR ''!''), 0, 0], [chr (CHR ''2''), 64, 0, 0],
      [chr (CHR ''3''), chr (CHR ''#''), 0, 0], [chr (CHR ''4''), chr (CHR ''$''), 0, 0],
      [chr (CHR ''5''), chr (CHR ''%''), 0, 0], [chr (CHR ''6''), chr (CHR ''^''), 0, 30],
      [chr (CHR ''7''), chr (CHR ''&''), 0, 0], [chr (CHR ''8''), chr (CHR ''*''), 0, 0],
      [chr (CHR ''9''), chr (CHR ''(''), 0, 0], [chr (CHR ''0''), chr (CHR '')''), 0, 0],
      [chr (CHR ''-''), chr (CHR ''_''), 0, 31], [chr (CHR ''=''), chr (CHR ''+''), 0, 0],
      [chr (CHR ''[''), chr (CHR ''{''), 27, 0], [chr (CHR '']''), chr (CHR ''}''), 29, 0],
      [10, 10, 13, 13],
      [chr (CHR '';''), chr (CHR '':''), 0, 0],
      [39, 34, 0, 0], [96, chr (CHR ''~''), 0, 0],
      [92, chr (CHR ''|''), 28, 0], [chr (CHR '',''), chr (CHR ''<''), 0, 0],
      [chr (CHR ''.''), chr (CHR ''>''), 0, 0], [chr (CHR ''/''), chr (CHR ''?''), 0, 0]]"

section \<open>State machine\<close>

record keyboard =
  modifiers :: u8
  last_escape :: u8

text \<open>Indices into the two tables are in range: a byte, and a row between \<open>CKEY 0\<close> and \<open>CKEY 21\<close> with two bits of the modifiers
  (\<open>length_keymap\<close>, \<open>complex_key_ok\<close>).\<close>

definition key_at :: "u8 \<Rightarrow> int" where
  "key_at i = keymap ! unat i"

text \<open>The bit of a modifier key.\<close>

definition mod_bit :: "int \<Rightarrow> u8" where
  "mod_bit ch = push_bit (nat (ch - KEY_SHIFT)) 1"

definition key_press :: "int \<Rightarrow> u8 \<Rightarrow> int \<times> u8" where
  "key_press ch mods =
     (if ch \<ge> chr (CHR ''a'') \<and> ch \<le> chr (CHR ''z'') then
        (if mods AND 2 \<noteq> 0 then ch - 0x60
         else if (mods AND 1 = 0) \<noteq> (mods AND 8 = 0) then ch - 0x20
         else ch, mods)
      else if ch \<ge> KEY_CAPSLOCK then (0, mods XOR mod_bit ch)
      else if ch \<ge> KEY_SHIFT then (0, mods OR mod_bit ch)
      else if ch \<ge> CKEY 0 \<and> ch \<le> CKEY 21 then (complex_keymap ! nat (ch - CKEY 0) ! unat (mods AND 3), mods)
      else if ch < 0x80 \<and> mods AND 2 \<noteq> 0 then (0, mods)
      else (ch, mods))"

definition key_code :: "u8 \<Rightarrow> keyboard \<Rightarrow> int \<times> keyboard" where
  "key_code data k =
     (let escape = last_escape k; k1 = k\<lparr>last_escape := 0\<rparr> in
      if data = 0xE0 then (0, k1\<lparr>last_escape := 0x80\<rparr>)
      else if data AND 0x80 \<noteq> 0 then
        let ch = key_at ((data AND 0x7F) OR escape) in
        (0, if ch \<ge> KEY_SHIFT \<and> ch < KEY_CAPSLOCK
            then k1\<lparr>modifiers := modifiers k1 AND NOT (mod_bit ch)\<rparr> else k1)
      else let (ch, mods) = key_press (key_at (data OR escape)) (modifiers k1)
           in (ch, k1\<lparr>modifiers := mods\<rparr>))"

definition keyboard_readc :: "keyboard \<Rightarrow> io \<Rightarrow> int \<times> keyboard \<times> io" where
  "keyboard_readc k s =
     (let (status, s1) = inb 0x64 s in
      if status AND 0x01 = 0 then (- 1, k, s1)
      else let (data, s2) = inb 0x60 s1; (ch, k') = key_code data k in (ch, k', s2))"

section \<open>Facts on the tables\<close>

lemma length_keymap [simp]: "length keymap = 256"
  by (simp add: keymap_def)

lemma length_complex: "length complex_keymap = 22" "\<forall>row \<in> set complex_keymap. length row = 4"
  by (simp_all add: complex_keymap_def)

text \<open>What the driver may report: a 7-bit character or one of the special keys of \<open>kernel.hh\<close>.\<close>

definition key_ok :: "int \<Rightarrow> bool" where
  "key_ok c \<longleftrightarrow> (0 \<le> c \<and> c < 0x80) \<or> (KEY_UP \<le> c \<and> c \<le> KEY_DELETE)"

definition entry_ok :: "int \<Rightarrow> bool" where
  "entry_ok c \<longleftrightarrow> key_ok c \<or> (CKEY 0 \<le> c \<and> c \<le> CKEY 21) \<or> (KEY_SHIFT \<le> c \<and> c \<le> KEY_SCROLLLOCK)"

lemma keymap_entries: "\<forall>c \<in> set keymap. entry_ok c"
  by (simp add: keymap_def entry_ok_def key_ok_def CKEY_def chr_def)

lemma complex_entries: "\<forall>row \<in> set complex_keymap. \<forall>c \<in> set row. 0 \<le> c \<and> c < 0x80"
  by (simp add: complex_keymap_def chr_def)

lemma key_at_ok: "entry_ok (key_at i)"
proof -
  have "unat i < length keymap"
    using unat_lt2p [of i] by simp
  then show ?thesis
    using keymap_entries nth_mem unfolding key_at_def by blast
qed

lemma complex_key_ok:
  assumes "CKEY 0 \<le> c" "c \<le> CKEY 21"
  shows "key_ok (complex_keymap ! nat (c - CKEY 0) ! unat (m AND 3 :: u8))"
proof -
  let ?row = "complex_keymap ! nat (c - CKEY 0)"
  have row: "?row \<in> set complex_keymap"
    using assms length_complex(1) by (intro nth_mem) (simp add: CKEY_def)
  have "unat (m AND 3) \<le> 3"
    using word_and_le1 [of m 3] by (simp add: word_le_nat_alt)
  then have "unat (m AND 3) < length ?row"
    using row length_complex(2) by auto
  then show ?thesis
    using row complex_entries nth_mem unfolding key_ok_def by blast
qed

lemma key_press_ok: "entry_ok c \<Longrightarrow> key_ok (fst (key_press c m))"
  using complex_key_ok [of c m]
  by (auto simp: key_press_def entry_ok_def key_ok_def chr_def CKEY_def)

lemma key_code_ok: "key_ok (fst (key_code d k))"
  using key_press_ok [OF key_at_ok, of "d OR last_escape k" "modifiers k"]
  by (auto simp: key_code_def Let_def key_ok_def split: prod.splits)

section \<open>Properties\<close>

text \<open>C32: whatever bytes the controller delivers and whatever state the driver is in, every table
  access is in range and \<open>keyboard_readc\<close> returns \<open>-1\<close> with its state unchanged when no byte is
  ready, and otherwise a 7-bit character or one of the ten special keys, with the escape flag
  left at \<open>0\<close> or \<open>0x80\<close>.\<close>

theorem keyboard_readc_range:
  "(let (c, k', s') = keyboard_readc k s in
     (c = - 1 \<and> k' = k) \<or>
     (((0 \<le> c \<and> c < 0x80) \<or> (0xC0 \<le> c \<and> c \<le> 0xC9)) \<and> last_escape k' \<in> {0, 0x80}))
   \<and> (\<forall>i. unat (i :: u8) < length keymap)"
proof -
  have idx: "unat i < length keymap" for i :: u8
    using unat_lt2p [of i] by simp
  have "last_escape (snd (key_code d k)) \<in> {0, 0x80}" for d
    by (auto simp: key_code_def Let_def split: prod.splits)
  moreover have "(0 \<le> fst (key_code d k) \<and> fst (key_code d k) < 0x80) \<or>
      (0xC0 \<le> fst (key_code d k) \<and> fst (key_code d k) \<le> 0xC9)" for d
    using key_code_ok [of d k] by (simp add: key_ok_def)
  ultimately show ?thesis
    using idx unfolding keyboard_readc_def Let_def by (simp add: case_prod_beta del: length_keymap)
qed

text \<open>The scan codes that the tables give a lower-case letter.\<close>

definition letter_code :: "u8 \<Rightarrow> bool" where
  "letter_code d \<longleftrightarrow> d AND 0x80 = 0 \<and> chr (CHR ''a'') \<le> key_at d \<and> key_at d \<le> chr (CHR ''z'')"

fun key_codes :: "u8 list \<Rightarrow> keyboard \<Rightarrow> int list \<times> keyboard" where
  "key_codes [] k = ([], k)"
| "key_codes (d # ds) k =
     (let (c, k1) = key_code d k; (cs, k2) = key_codes ds k1 in (c # cs, k2))"

lemma letter_press:
  assumes "letter_code d" "last_escape k = 0"
  shows "key_code d k =
     ((if modifiers k AND 2 \<noteq> 0 then key_at d - 0x60
       else if (modifiers k AND 1 = 0) \<noteq> (modifiers k AND 8 = 0) then key_at d - 0x20
       else key_at d), k)"
proof -
  have "d \<noteq> 0xE0" using assms(1) by (auto simp: letter_code_def)
  then show ?thesis
    using assms by (cases k) (simp add: letter_code_def key_code_def key_press_def)
qed

lemma key_tables [simp]:
  "key_at 0x2A = KEY_SHIFT" "key_at 0x36 = KEY_SHIFT" "key_at 0x1D = KEY_CONTROL"
  "key_at 0x3A = KEY_CAPSLOCK" "key_at 0x9D = KEY_CONTROL"
  by code_simp+

lemma modifier_press [simp]:
  "last_escape k = 0 \<Longrightarrow> key_code 0x2A k = (0, k\<lparr>modifiers := modifiers k OR 1\<rparr>)"
  "last_escape k = 0 \<Longrightarrow> key_code 0x1D k = (0, k\<lparr>modifiers := modifiers k OR 2\<rparr>)"
  "last_escape k = 0 \<Longrightarrow> key_code 0x3A k = (0, k\<lparr>modifiers := modifiers k XOR 8\<rparr>)"
  "last_escape k = 0 \<Longrightarrow> key_code 0xAA k = (0, k\<lparr>modifiers := modifiers k AND NOT 1\<rparr>)"
  "last_escape k = 0 \<Longrightarrow> key_code 0x9D k = (0, k\<lparr>modifiers := modifiers k AND NOT 2\<rparr>)"
  "last_escape k = 0 \<Longrightarrow> key_code 0xBA k = (0, k)"
  by (cases k; simp add: key_code_def key_press_def mod_bit_def chr_def)+

lemma mask_facts:
  fixes m :: u8
  assumes "m AND 1 = 0" "m AND 2 = 0" "m AND 8 = 0"
  shows "(m OR 1) AND 2 = 0" "(m OR 1) AND 1 \<noteq> 0" "(m OR 1) AND 8 = 0" "(m OR 1) AND - 2 = m"
    "(m OR 2) AND 2 \<noteq> 0" "(m OR 2) AND - 3 = m"
    "(m XOR 8) AND 2 = 0" "(m XOR 8) AND 1 = 0" "(m XOR 8) AND 8 \<noteq> 0" "(m XOR 8) XOR 8 = m"
proof -
  have nb: "\<not> bit m 0" "\<not> bit m 1" "\<not> bit m 3"
    using assms and_exp_eq_0_iff_not_bit [of m 0] and_exp_eq_0_iff_not_bit [of m 1]
      and_exp_eq_0_iff_not_bit [of m 3] by auto
  have P: "(x AND 1 = 0) = (\<not> bit x 0)" "(x AND 2 = 0) = (\<not> bit x 1)" "(x AND 8 = 0) = (\<not> bit x 3)" for x :: u8
    using and_exp_eq_0_iff_not_bit [of x 0] and_exp_eq_0_iff_not_bit [of x 1]
      and_exp_eq_0_iff_not_bit [of x 3] by auto
  show "(m OR 1) AND 2 = 0" "(m OR 1) AND 1 \<noteq> 0" "(m OR 1) AND 8 = 0"
    "(m OR 2) AND 2 \<noteq> 0" "(m XOR 8) AND 2 = 0" "(m XOR 8) AND 1 = 0" "(m XOR 8) AND 8 \<noteq> 0"
    unfolding P using nb by (simp_all add: bit_simps)
  have "(m OR 1) AND NOT 1 = m" "(m OR 2) AND NOT 2 = m"
    by (rule bit_eqI; use nb gr0I in \<open>fastforce simp: bit_simps\<close>)+
  then show "(m OR 1) AND - 2 = m" "(m OR 2) AND - 3 = m"
    by simp_all
  show "(m XOR 8) XOR 8 = m"
    by (simp add: xor.assoc)
qed

text \<open>C33: with no modifier held, typing a letter between the press and the release of Shift gives
  the upper-case letter, between those of Control the control character, and between two strokes
  of Caps Lock the upper-case letter again; each time the driver returns to the state it was in.\<close>

theorem keyboard_modifiers:
  assumes "letter_code d" and "last_escape k = 0"
    and "modifiers k AND 1 = 0" "modifiers k AND 2 = 0" "modifiers k AND 8 = 0"
  shows "key_codes [d] k = ([key_at d], k)
       \<and> key_codes [0x2A, d, 0xAA] k = ([0, key_at d - 0x20, 0], k)
       \<and> key_codes [0x1D, d, 0x9D] k = ([0, key_at d - 0x60, 0], k)
       \<and> key_codes [0x3A, 0xBA, d, 0x3A, 0xBA] k = ([0, 0, key_at d - 0x20, 0, 0], k)"
proof -
  note facts = mask_facts [OF assms(3,4,5)]
  have k: "k\<lparr>modifiers := modifiers k\<rparr> = k" by simp
  show ?thesis
    using assms(2-5) facts k by (simp add: letter_press [OF assms(1)])
qed

theorem keyboard_modifiers_witness:
  "key_codes [0x2A, 0x1E, 0xAA] \<lparr>modifiers = 0, last_escape = 0\<rparr>
     = ([0, chr (CHR ''A''), 0], \<lparr>modifiers = 0, last_escape = 0\<rparr>)"
proof -
  have "key_at 0x1E = chr (CHR ''a'')" by code_simp
  then show ?thesis
    using keyboard_modifiers [of "0x1E" "\<lparr>modifiers = 0, last_escape = 0\<rparr>"]
    by (simp add: letter_code_def chr_def)
qed

end
