(* ===== verification/Machine.thy ===== *)
theory Machine
  imports Log Console Keyboard
begin

text \<open>
  The whole machine: the kernel's data, the processor, the devices and the static variables of the
  kernel's functions; and the operations of \<open>k-hardware.cc\<close> that may end the run of the kernel:
  \<open>check_keyboard\<close> with its soft reboot, \<open>poweroff\<close>, \<open>fail\<close>, \<open>panic\<close>, \<open>assert_fail\<close> and the backtraces.
\<close>

section \<open>State\<close>

text \<open>
  \<open>mu_v\<close> and \<open>mu_marks\<close> are the pointer and the array of the memory viewer: the array lives in the page
  \<open>mu_v\<close>, and its contents are kept here as an array of their own.
\<close>

record machine =
  kern :: kernel
  hw :: cpu
  port :: io
  con :: console
  kbd :: keyboard
  pp_initialized :: bool
  ticks :: u64
  last_ticks :: u32
  showing :: int
  mu_v :: addr
  mu_marks :: "nat \<Rightarrow> u32"
  panicking :: bool
  symbols :: symtab

text \<open>
  How a run of the kernel ends: \<open>Resume i\<close> is \<open>exception_return\<close> to process \<open>i\<close>, \<open>Powered_off\<close> the spin
  at the end of \<open>poweroff\<close>, \<open>Soft_reboot c\<close> the jump to \<open>kernel_entry\<close> with the command \<open>c\<close>, and \<open>Fault\<close>
  a failed assertion, a panic of the page-table code or undefined behaviour. A computation is \<open>None\<close>
  if it spins for ever.
\<close>

datatype halt = Fault fault | Powered_off | Soft_reboot "u8 list" | Resume nat

type_synonym 'a run = "(halt \<times> machine + 'a) option"

definition tryE :: "machine \<Rightarrow> fault + 'a \<Rightarrow> 'a run" where
  "tryE m r = Some (case r of Inl e \<Rightarrow> Inl (Fault e, m) | Inr x \<Rightarrow> Inr x)"

definition tryIO :: "machine \<Rightarrow> 'a comp \<Rightarrow> 'a run" where
  "tryIO m r = Option.bind r (tryE m)"

lemma try_simps [simp]:
  "tryE m (Inr x) = Some (Inr x)" "tryE m (Inl e) = Some (Inl (Fault e, m))"
  "tryIO m (Some r) = tryE m r" "tryIO m None = None"
  by (simp_all add: tryE_def tryIO_def)

section \<open>Output\<close>

abbreviation (input) COLOR_ERROR :: u32 where "COLOR_ERROR \<equiv> 0xC000"

definition CCOL :: "int \<Rightarrow> int" where
  "CCOL cpos = cpos mod 80"

definition klog :: "u8 list \<Rightarrow> varg list \<Rightarrow> machine \<Rightarrow> machine run" where
  "klog fmt args m =
     bindIO (tryE m (log_printf fmt args (pp_initialized m, port m)))
       (\<lambda>(b, s). retIO (m\<lparr>pp_initialized := b, port := s\<rparr>))"

text \<open>Printing at the cursor also moves the cursor that the display shows: the call of \<open>console_show_cursor\<close> in
  \<open>console_printer::move_cursor\<close>, which the kernel's build of the library has.\<close>

definition kprint :: "int \<Rightarrow> u32 \<Rightarrow> u8 list \<Rightarrow> varg list \<Rightarrow> machine \<Rightarrow> (int \<times> machine) run" where
  "kprint cpos color fmt args m =
     bindIO (tryE m (console_vprintf (con m) cpos color fmt args)) (\<lambda>(pos, c).
       retIO (pos, m\<lparr>con := c, port := (if cpos < 0 then console_show_cursor (cursorpos c) (port m) else port m)\<rparr>))"

definition error_vprintf :: "int \<Rightarrow> u32 \<Rightarrow> u8 list \<Rightarrow> varg list \<Rightarrow> machine \<Rightarrow> (int \<times> machine) run" where
  "error_vprintf cpos color fmt args m = bindIO (klog fmt args m) (kprint cpos color fmt args)"

definition error_printf :: "int \<Rightarrow> u32 \<Rightarrow> u8 list \<Rightarrow> varg list \<Rightarrow> machine \<Rightarrow> (int \<times> machine) run" where
  "error_printf cpos color fmt args m = error_vprintf cpos color fmt args m"

definition error_printf_color :: "u32 \<Rightarrow> u8 list \<Rightarrow> varg list \<Rightarrow> machine \<Rightarrow> machine run" where
  "error_printf_color color fmt args m = bindIO (error_vprintf (- 1) color fmt args m) (\<lambda>(pos, m'). retIO m')"

definition error_printf_plain :: "u8 list \<Rightarrow> varg list \<Rightarrow> machine \<Rightarrow> machine run" where
  "error_printf_plain fmt args m = bindIO (error_vprintf (- 1) COLOR_ERROR fmt args m) (\<lambda>(pos, m'). retIO m')"

section \<open>Power off and soft reboot\<close>

definition poweroff :: "machine \<Rightarrow> 'a run" where
  "poweroff m =
     bindIO (tryE m (poweroff_ports (port m))) (\<lambda>s.
     bindIO (kprint (CPOS 24 0) 0xC000 (lit ''Cannot power off!'' @ [10]) [] (m\<lparr>port := s\<rparr>)) (\<lambda>(pos, m').
     Some (Inl (Powered_off, m'))))"

definition set_bytes :: "mem \<Rightarrow> machine \<Rightarrow> machine" where
  "set_bytes b m = m\<lparr>kern := (kern m)\<lparr>phys := (phys (kern m))\<lparr>bytes := b\<rparr>\<rparr>\<rparr>"

abbreviation (input) kbytes :: "machine \<Rightarrow> mem" where "kbytes m \<equiv> bytes (phys (kern m))"

definition stash_kernel_data :: "link \<Rightarrow> bool \<Rightarrow> mem \<Rightarrow> mem" where
  "stash_kernel_data l reboot b =
     (let data_size = l_edata l - l_data_start l; data_stash = SYMTAB_ADDR - data_size in
      if reboot then memset (memcpy b (l_data_start l) data_stash data_size) (l_edata l) 0 (l_kernel_end l - l_edata l)
      else memcpy b data_stash (l_data_start l) data_size)"

text \<open>The temporary page table of the soft reboot, at \<open>0x1000\<close>.\<close>

definition reboot_table :: "mem \<Rightarrow> mem" where
  "reboot_table b =
     st64 (st64 (memset b 0x1000 0 (PAGESIZE * 2)) (entry_addr 0x1000 0) (0x2000 OR PTE_P OR PTE_W))
       (entry_addr 0x2000 0) (PTE_P OR PTE_W OR PTE_PS)"

text \<open>
  The kernel's variables other than memory are reset by the restored data segment when the kernel
  starts again; here the machine at the jump is given, with the restored bytes.
\<close>

definition soft_reboot :: "link \<Rightarrow> int \<Rightarrow> machine \<Rightarrow> 'a run" where
  "soft_reboot l c m =
     bindIO (tryE m (init_timer (- 1) (port m))) (\<lambda>s.
     let m1 = set_bytes (reboot_table (kbytes m)) (m\<lparr>port := s, hw := wrcr3 0x1000 (hw m)\<rparr>);
         argument = (if c = chr (CHR ''a'') then lit ''allocators''
                     else if c = chr (CHR ''e'') then lit ''forkexit'' else lit ''fork'')
     in bindIO (tryE m1 (guardE (l_arguments l < 0x100000000) Assert_fail)) (\<lambda>_.
        let b1 = stash_kernel_data l True (kbytes m1);
            data_size = l_edata l - l_data_start l; zero_size = l_kernel_end l - l_edata l;
            data_stash = SYMTAB_ADDR - data_size;
            b2 = memset (memcpy b1 (l_data_start l) data_stash data_size) (l_edata l) 0 zero_size
        in Some (Inl (Soft_reboot argument, set_bytes b2 m1))))"

definition check_keyboard :: "link \<Rightarrow> machine \<Rightarrow> (int \<times> machine) run" where
  "check_keyboard l m =
     (let (c, k, s) = keyboard_readc (kbd m) (port m); m1 = m\<lparr>kbd := k, port := s\<rparr> in
      if c = chr (CHR ''a'') \<or> c = chr (CHR ''f'') \<or> c = chr (CHR ''e'') then soft_reboot l c m1
      else if c = 3 \<or> c = chr (CHR ''q'') then poweroff m1
      else retIO (c, m1))"

section \<open>Failing\<close>

partial_function (option) fail :: "link \<Rightarrow> machine \<Rightarrow> unit run" where
  "fail l m = bindIO (check_keyboard l m) (\<lambda>(c, m'). fail l m')"

definition panic :: "link \<Rightarrow> u8 list option \<Rightarrow> varg list \<Rightarrow> machine \<Rightarrow> unit run" where
  "panic l fmt args m =
     (let m0 = m\<lparr>panicking := True, con := (con m)\<lparr>cursorpos := CPOS 23 0\<rparr>\<rparr> in
      case fmt of
        Some f \<Rightarrow>
          bindIO (error_printf (- 1) COLOR_ERROR (lit ''PANIC: '') [] m0) (\<lambda>(_, m1).
          bindIO (error_vprintf (- 1) COLOR_ERROR f args m1) (\<lambda>(_, m2).
          if CCOL (cursorpos (con m2)) \<noteq> 0
          then bindIO (error_printf (- 1) COLOR_ERROR [10] [] m2) (\<lambda>(_, m3). fail l m3)
          else fail l m2))
      | None \<Rightarrow>
          bindIO (error_printf (- 1) COLOR_ERROR (lit ''PANIC'') [] m0) (\<lambda>(_, m1).
          bindIO (klog [10] [] m1) (fail l)))"

text \<open>Looking up a symbol may change the kernel's page table.\<close>

definition symbol_of :: "link \<Rightarrow> u64 \<Rightarrow> machine \<Rightarrow> (u8 list \<times> u64) option \<times> machine" where
  "symbol_of l addr m =
     (let (r, b) = lookup_symbol (l_pagetable l) (symbols m) addr (kbytes m) in (r, set_bytes b m))"

partial_function (option) backtrace_loop ::
    "link \<Rightarrow> u8 list \<Rightarrow> nat \<Rightarrow> backtracer \<Rightarrow> machine \<Rightarrow> machine run" where
  "backtrace_loop l prefix frame bt m =
     (if bt_ok bt then
        let ret_rip = bt_ret_rip (kbytes m) bt; (r, m1) = symbol_of l ret_rip m in
        bindIO (case r of
            Some (name, start) \<Rightarrow>
              klog (lit ''%s  #%d  %p  <%s>'' @ [10]) [Arg_str prefix, Arg_int (of_nat frame), Arg_long ret_rip, Arg_str name] m1
          | None \<Rightarrow>
              if ret_rip \<noteq> 0
              then klog (lit ''%s  #%d  %p'' @ [10]) [Arg_str prefix, Arg_int (of_nat frame), Arg_long ret_rip] m1
              else retIO m1)
          (\<lambda>m2. backtrace_loop l prefix (frame + 1) (bt_step (kbytes m2) bt) m2)
      else retIO m)"

definition log_backtrace :: "link \<Rightarrow> u8 list \<Rightarrow> u64 \<Rightarrow> u64 \<Rightarrow> machine \<Rightarrow> machine run" where
  "log_backtrace l prefix rsp rbp m =
     bindIO (if rsp \<noteq> rbp \<and> round_up rsp 4096 = round_down rbp 4096
         then klog (lit ''%s  warning: possible stack overflow (rsp %p, rbp %p)'' @ [10]) [Arg_long rsp, Arg_long rbp] m
         else retIO m)
       (backtrace_loop l prefix 1 \<lparr>bt_rbp = rbp, bt_rsp = rsp, bt_stack_top = round_up rsp 4096\<rparr>)"

partial_function (option) assert_loop :: "link \<Rightarrow> nat \<Rightarrow> backtracer \<Rightarrow> machine \<Rightarrow> machine run" where
  "assert_loop l frame bt m =
     (if bt_ok bt then
        let ret_rip = bt_ret_rip (kbytes m) bt; (r, m1) = symbol_of l ret_rip m in
        bindIO (case r of
            Some (name, start) \<Rightarrow>
              error_printf_plain (lit ''  #%d  %p  <%s>'' @ [10]) [Arg_int (of_nat frame), Arg_long ret_rip, Arg_str name] m1
          | None \<Rightarrow>
              if ret_rip \<noteq> 0 then error_printf_plain (lit ''  #%d  %p'' @ [10]) [Arg_int (of_nat frame), Arg_long ret_rip] m1
              else retIO m1)
          (\<lambda>m2. assert_loop l (frame + 1) (bt_step (kbytes m2) bt) m2)
      else retIO m)"

definition assert_fail :: "link \<Rightarrow> u8 list \<Rightarrow> u32 \<Rightarrow> u8 list \<Rightarrow> u64 \<Rightarrow> u64 \<Rightarrow> machine \<Rightarrow> unit run" where
  "assert_fail l file line msg rsp rbp m =
     bindIO (error_printf_plain (lit ''%s:%d: kernel assertion '' @ [39] @ lit ''%s'' @ [39] @ lit '' failed'' @ [10])
         [Arg_str file, Arg_int line, Arg_str msg] (m\<lparr>con := (con m)\<lparr>cursorpos := CPOS 23 0\<rparr>\<rparr>)) (\<lambda>m1.
     bindIO (assert_loop l 1 \<lparr>bt_rbp = rbp, bt_rsp = rsp, bt_stack_top = round_up rsp 4096\<rparr> m1) (fail l))"

end
