(* ===== verification/Ptiter.thy ===== *)
theory Ptiter
  imports Vmiter_Map
begin

text \<open>
  The iterator \<open>ptiter\<close> of \<open>k-vmiter.hh\<close> and \<open>k-vmiter.cc\<close>, which visits the page-table pages below a
  root so that they can be freed. The walk is a loop with no obvious bound, so it is a partial
  function; the main result is that it ends and that it visits every page-table page below the root
  exactly once, children before parents.
\<close>

section \<open>The iterator\<close>

record ptiter =
  pti_pt :: addr
  pti_pep :: addr
  pti_level :: nat
  pti_va :: u64

text \<open>
  The loop of \<open>ptiter::down\<close>. The variables \<open>stop_level\<close> and \<open>skip\<close> are arguments. Descending below
  level 0 would read a data page as a page table; it is the fault \<open>Out_of_bounds\<close>.
\<close>

partial_function (option) pti_down_loop :: "mem \<Rightarrow> nat \<Rightarrow> bool \<Rightarrow> ptiter \<Rightarrow> ptiter comp" where
  "pti_down_loop m stop_level skip it =
     (let e = ld64 m (pti_pep it); level = pti_level it in
      if e AND (PTE_P OR PTE_PS) = PTE_P \<and> \<not> skip then
        if level = stop_level then retIO it
        else if level = 0 then Some (Inl Out_of_bounds)
        else pti_down_loop m stop_level skip
               (it\<lparr>pti_level := level - 1,
                   pti_pep := entry_addr (e AND PTE_PAMASK) (pageindex (pti_va it) (level - 1))\<rparr>)
      else
        let va = (pti_va it OR pageoffmask level) + 1 in
        if (va XOR pti_va it) AND NOT (pageoffmask (level + 1)) \<noteq> 0 then
          if level = 3 then retIO (it\<lparr>pti_va := VA_NONCANONMAX + 1\<rparr>)
          else pti_down_loop m (level + 1) False
                 (it\<lparr>pti_level := 3, pti_pep := entry_addr (pti_pt it) (pageindex (pti_va it) 3)\<rparr>)
        else pti_down_loop m stop_level False (it\<lparr>pti_pep := pti_pep it + 8, pti_va := va\<rparr>))"

definition pti_down :: "mem \<Rightarrow> bool \<Rightarrow> ptiter \<Rightarrow> ptiter comp" where
  "pti_down m skip it = pti_down_loop m 1 skip it"

definition pti_go :: "mem \<Rightarrow> u64 \<Rightarrow> ptiter \<Rightarrow> ptiter comp" where
  "pti_go m va it =
     pti_down m False (it\<lparr>pti_level := 3, pti_pep := entry_addr (pti_pt it) (pageindex va 3), pti_va := va\<rparr>)"

definition pti_init :: "mem \<Rightarrow> addr \<Rightarrow> u64 \<Rightarrow> ptiter comp" where
  "pti_init m pt va = pti_go m va \<lparr>pti_pt = pt, pti_pep = 0, pti_level = 0, pti_va = 0\<rparr>"

definition pti_start_va :: "ptiter \<Rightarrow> u64" where
  "pti_start_va it = pti_va it AND NOT (pageoffmask (pti_level it))"

definition pti_last_va :: "ptiter \<Rightarrow> u64" where
  "pti_last_va it = (pti_va it OR pageoffmask (pti_level it)) + 1"

definition pti_active :: "ptiter \<Rightarrow> bool" where
  "pti_active it \<longleftrightarrow> pti_va it \<le> VA_NONCANONMAX"

definition pti_low :: "ptiter \<Rightarrow> bool" where
  "pti_low it \<longleftrightarrow> pti_va it \<le> VA_LOWMAX"

definition pti_table_level :: "ptiter \<Rightarrow> int" where
  "pti_table_level it = int (pti_level it) - 1"

definition pti_next :: "mem \<Rightarrow> ptiter \<Rightarrow> ptiter comp" where
  "pti_next m it = pti_down m True it"

definition pti_pa :: "mem \<Rightarrow> ptiter \<Rightarrow> addr" where
  "pti_pa m it = ld64 m (pti_pep it) AND PTE_PAMASK"

text \<open>The iterators that a loop \<open>for (ptiter it(pt); it.active(); it.next())\<close> passes through.\<close>

partial_function (option) pti_list :: "mem \<Rightarrow> ptiter \<Rightarrow> ptiter list comp" where
  "pti_list m it =
     (if pti_active it
      then bindIO (pti_next m it) (\<lambda>it'. bindIO (pti_list m it') (\<lambda>its. retIO (it # its)))
      else retIO [])"

section \<open>Specification\<close>

text \<open>
  The page-table pages below the table \<open>t\<close> of level \<open>l\<close>, each after the ones below it, in the order
  of the entries that point to them.
\<close>

primrec post_order :: "mem \<Rightarrow> nat \<Rightarrow> addr \<Rightarrow> addr list" where
  "post_order m 0 t = []"
| "post_order m (Suc l) t =
     concat (map (\<lambda>i. let e = ld64 m (entry_addr t i) in
       if table_entry e then post_order m l (e AND PTE_PAMASK) @ [e AND PTE_PAMASK] else []) [0..<512])"

section \<open>Addresses as numbers\<close>

lemma unat_drop_bit: "unat (drop_bit n (w :: u64)) = unat w div 2 ^ n"
  using unat_lt2p [of w] by (subst unsigned_drop_bit_eq) (simp add: drop_bit_eq_div take_bit_nat_eq_self)

lemma pageindex_div: "pageindex va l = unat va div 2 ^ (12 + l * 9) mod 512"
  by (simp only: pageindex_take_bit unsigned_take_bit_eq unat_drop_bit) (simp add: take_bit_eq_mod)

lemma same_above_div:
  "same_above l va va' \<longleftrightarrow> unat va div 2 ^ (12 + l * 9) = unat va' div 2 ^ (12 + l * 9)"
proof -
  have "same_above l va va' \<longleftrightarrow> drop_bit (12 + l * 9) va = drop_bit (12 + l * 9) va'"
    unfolding same_above_def
  proof
    assume "\<forall>n. 12 + l * 9 \<le> n \<longrightarrow> bit va n = bit va' n"
    then show "drop_bit (12 + l * 9) va = drop_bit (12 + l * 9) va'"
      by (intro bit_word_eqI) (simp add: bit_drop_bit_eq)
  next
    assume eq: "drop_bit (12 + l * 9) va = drop_bit (12 + l * 9) va'"
    show "\<forall>n. 12 + l * 9 \<le> n \<longrightarrow> bit va n = bit va' n"
    proof (intro allI impI)
      fix n assume "12 + l * 9 \<le> n"
      then show "bit va n = bit va' n"
        using arg_cong [OF eq, of "\<lambda>w. bit w (n - (12 + l * 9))"] by (simp add: bit_drop_bit_eq)
    qed
  qed
  then show ?thesis by (simp only: word_unat_eq_iff unat_drop_bit)
qed

lemma unat_or_mask: "n \<le> 64 \<Longrightarrow> unat ((va :: u64) OR mask n) = unat va div 2 ^ n * 2 ^ n + (2 ^ n - 1)"
proof -
  assume n: "n \<le> 64"
  have "va OR mask n = push_bit n (drop_bit n va) OR mask n"
    by (rule bit_word_eqI) (auto simp: bit_simps)
  then have "unat (va OR mask n) = unat (push_bit n (drop_bit n va) OR mask n)" by simp
  also have "\<dots> = push_bit n (drop_bit n (unat va)) OR mask n"
  proof -
    have "unat va div 2 ^ n * 2 ^ n < 2 ^ 64"
      using unat_lt2p [of va] by (simp add: order_le_less_trans [OF div_times_less_eq_dividend])
    then have "unat (push_bit n (drop_bit n va)) = push_bit n (drop_bit n (unat va))"
      by (simp only: unsigned_push_bit_eq unat_drop_bit)
        (simp add: take_bit_nat_eq_self_iff push_bit_eq_mult drop_bit_eq_div)
    moreover have "unat (mask n :: u64) = mask n"
    proof -
      have "(mask n :: u64) = take_bit n (- 1)" by (simp add: take_bit_minus_one_eq_mask)
      then show ?thesis
        using n by (simp only: unsigned_take_bit_eq unsigned_minus_1_eq_mask take_bit_of_mask) (simp add: min_def)
    qed
    ultimately show ?thesis by (simp add: unsigned_or_eq)
  qed
  also have "\<dots> = push_bit n (drop_bit n (unat va)) + mask n"
    by (rule disjunctive_add_eq_or [symmetric]) (rule bit_eqI, auto simp: bit_simps)
  finally show ?thesis by (simp add: push_bit_eq_mult drop_bit_eq_div mask_eq_exp_minus_1)
qed

lemma unat_next_va:
  assumes "l \<le> 3" "unat va < 2 ^ 48"
  shows "unat ((va OR pageoffmask l) + 1) = Suc (unat va div 2 ^ (12 + l * 9)) * 2 ^ (12 + l * 9)"
proof -
  let ?n = "12 + l * 9"
  have u: "unat (va OR pageoffmask l) = unat va div 2 ^ ?n * 2 ^ ?n + (2 ^ ?n - 1)"
    unfolding pageoffmask_mask using assms(1) by (intro unat_or_mask) simp
  have "unat va div 2 ^ ?n * 2 ^ ?n \<le> unat va" by simp
  moreover have "(2 :: nat) ^ ?n \<le> 2 ^ 39" using assms(1) by (intro power_increasing) auto
  moreover have "x + (y - 1) + 1 < 2 ^ 64" if "x \<le> unat va" "y \<le> 2 ^ 39" for x y :: nat
    using that assms(2) by simp
  ultimately have "unat (va OR pageoffmask l) + 1 < 2 ^ 64"
    unfolding u by blast
  then have "unat ((va OR pageoffmask l) + 1) = unat (va OR pageoffmask l) + 1"
    by (subst unat_add_small) simp_all
  then show ?thesis unfolding u by simp
qed

lemma level_pow: "(2 :: nat) ^ (12 + Suc l * 9) = 2 ^ (12 + l * 9) * 512"
  by (simp add: power_add)

lemma div_level: "n div 2 ^ (12 + Suc l * 9) = n div 2 ^ (12 + l * 9) div (512 :: nat)"
  unfolding level_pow by (simp add: div_mult2_eq)

text \<open>Going to the next entry of the same level.\<close>

lemma next_va_facts:
  assumes "l \<le> 3" "unat va < 2 ^ 48"
  defines "va' \<equiv> (va OR pageoffmask l) + 1"
  shows "same_above (Suc l) va' va \<longleftrightarrow> pageindex va l < 511"
    and "unat va' mod 2 ^ (12 + l * 9) = 0"
    and "pageindex va l < 511 \<Longrightarrow> pageindex va' l = Suc (pageindex va l) \<and> unat va' < 2 ^ 48"
proof -
  let ?N = "unat va div 2 ^ (12 + l * 9)"
  have u: "unat va' = Suc ?N * 2 ^ (12 + l * 9)" unfolding va'_def by (rule unat_next_va [OF assms(1,2)])
  then show "unat va' mod 2 ^ (12 + l * 9) = 0" by simp
  have d: "unat va' div 2 ^ (12 + l * 9) = Suc ?N" unfolding u by simp
  have m: "pageindex va l = ?N mod 512" by (rule pageindex_div)
  have split: "?N = ?N div 512 * 512 + ?N mod 512" by simp
  show sa: "same_above (Suc l) va' va \<longleftrightarrow> pageindex va l < 511"
    unfolding same_above_div div_level d m using split
    by (simp add: div_Suc mod_Suc) linarith
  assume lt: "pageindex va l < 511"
  have "pageindex va' l = Suc ?N mod 512" by (simp add: pageindex_div d)
  also have "\<dots> = Suc (pageindex va l)" using lt unfolding m by (simp add: mod_Suc)
  finally have idx: "pageindex va' l = Suc (pageindex va l)" .
  have "same_above 4 va' va" by (rule same_above_mono [of "Suc l"]) (use sa lt assms(1) in auto)
  then have "unat va' div 2 ^ 48 = 0" using assms(2) by (simp add: same_above_div)
  then show "pageindex va' l = Suc (pageindex va l) \<and> unat va' < 2 ^ 48"
    using idx by (simp add: div_eq_0_iff)
qed

section \<open>One run of the loop\<close>

text \<open>
  \<open>rest m stop skip it\<close> is the list of pages visited from the loop state \<open>(stop, skip, it)\<close> on; the
  lemmas give its value for each branch of the loop body.
\<close>

definition rest :: "mem \<Rightarrow> nat \<Rightarrow> bool \<Rightarrow> ptiter \<Rightarrow> addr list comp" where
  "rest m stop skip it =
     bindIO (pti_down_loop m stop skip it) (\<lambda>it'.
       bindIO (pti_list m it') (\<lambda>its. retIO (map (pti_pa m) its)))"

definition prep :: "'a list \<Rightarrow> 'a list comp \<Rightarrow> 'a list comp" where
  "prep xs c = bindIO c (\<lambda>ys. retIO (xs @ ys))"

definition at :: "addr \<Rightarrow> addr \<Rightarrow> nat \<Rightarrow> u64 \<Rightarrow> ptiter" where
  "at r t l va = \<lparr>pti_pt = r, pti_pep = entry_addr t (pageindex va l), pti_level = l, pti_va = va\<rparr>"

lemma bindIO_assoc: "bindIO (bindIO c f) g = bindIO c (\<lambda>x. bindIO (f x) g)"
  by (cases c) (auto simp: bindIO_def split: sum.splits)

lemma prep_prep [simp]: "prep xs (prep ys c) = prep (xs @ ys) c"
  by (simp add: prep_def bindIO_assoc)

lemma prep_Nil [simp]: "prep [] c = c"
  by (cases c) (auto simp: prep_def bindIO_def split: sum.splits)

lemma prep_ret [simp]: "prep xs (retIO ys) = retIO (xs @ ys)"
  by (simp add: prep_def)

lemma at_sel [simp]:
  "pti_pt (at r t l va) = r" "pti_level (at r t l va) = l" "pti_va (at r t l va) = va"
  "pti_pep (at r t l va) = entry_addr t (pageindex va l)"
  by (simp_all add: at_def)

lemma active_small: "unat va < 2 ^ 48 \<Longrightarrow> pti_active (at r t l va)"
  by (simp add: pti_active_def word_le_nat_alt)

lemma rest_visit:
  assumes "table_entry (ld64 m (entry_addr t (pageindex va l)))" "unat va < 2 ^ 48"
  shows "rest m l False (at r t l va) =
    prep [ld64 m (entry_addr t (pageindex va l)) AND PTE_PAMASK] (rest m 1 True (at r t l va))"
proof -
  have "pti_down_loop m l False (at r t l va) = retIO (at r t l va)"
    using assms(1) by (subst pti_down_loop.simps) (simp add: table_entry_def Let_def)
  then have "rest m l False (at r t l va) =
      bindIO (pti_list m (at r t l va)) (\<lambda>its. retIO (map (pti_pa m) its))"
    by (simp add: rest_def)
  also have "\<dots> = prep [ld64 m (entry_addr t (pageindex va l)) AND PTE_PAMASK] (rest m 1 True (at r t l va))"
    by (subst pti_list.simps)
      (simp add: active_small [OF assms(2)] rest_def prep_def pti_next_def pti_down_def bindIO_assoc pti_pa_def)
  finally show ?thesis .
qed

lemma rest_descend:
  assumes "table_entry (ld64 m (entry_addr t (pageindex va (Suc l))))" "Suc l \<noteq> stop"
  shows "rest m stop False (at r t (Suc l) va) =
    rest m stop False (at r (ld64 m (entry_addr t (pageindex va (Suc l))) AND PTE_PAMASK) l va)"
  using assms unfolding rest_def
  by (subst pti_down_loop.simps) (simp add: table_entry_def Let_def at_def)

lemma rest_absent:
  assumes "\<not> table_entry (ld64 m (entry_addr t (pageindex va l)))"
  shows "rest m stop False (at r t l va) = rest m stop True (at r t l va)"
  using assms unfolding rest_def
  by (subst (1 2) pti_down_loop.simps) (simp add: table_entry_def Let_def)

lemma rest_advance:
  assumes "l \<le> 3" "unat va < 2 ^ 48" "pageindex va l < 511"
  shows "rest m stop True (at r t l va) = rest m stop False (at r t l ((va OR pageoffmask l) + 1))"
proof -
  let ?va = "(va OR pageoffmask l) + 1"
  have "(?va XOR va) AND NOT (pageoffmask (l + 1)) = 0"
    using next_va_facts(1) [OF assms(1,2)] assms(3) xor_outside_mask [of ?va va "l + 1"] by simp
  moreover have "entry_addr t (pageindex va l) + 8 = entry_addr t (pageindex ?va l)"
    using next_va_facts(3) [OF assms] by (simp add: entry_addr_def algebra_simps)
  ultimately show ?thesis
    unfolding rest_def by (subst pti_down_loop.simps) (simp add: Let_def at_def)
qed

lemma crossing:
  assumes "l \<le> 3" "unat va < 2 ^ 48" "pageindex va l = 511"
  shows "(((va OR pageoffmask l) + 1) XOR va) AND NOT (pageoffmask (l + 1)) \<noteq> 0"
  using next_va_facts(1) [OF assms(1,2)] assms(3) xor_outside_mask [of "(va OR pageoffmask l) + 1" va "l + 1"]
  by simp

lemma rest_end:
  assumes "unat va < 2 ^ 48" "pageindex va 3 = 511"
  shows "rest m stop True (at r t 3 va) = retIO []"
proof -
  have "\<not> pti_active (at r t 3 va\<lparr>pti_va := 0x1000000000000\<rparr>)" by (simp add: pti_active_def)
  then have "pti_list m (at r t 3 va\<lparr>pti_va := 0x1000000000000\<rparr>) = retIO []"
    by (subst pti_list.simps) simp
  then show ?thesis
    using crossing [OF _ assms] unfolding rest_def
    by (subst pti_down_loop.simps) (simp add: Let_def)
qed

lemma rest_up:
  assumes "l < 3" "unat va < 2 ^ 48" "pageindex va l = 511"
  shows "rest m stop True (at r t l va) = rest m (Suc l) False (at r r 3 va)"
  using crossing [OF _ assms(2,3)] assms(1) unfolding rest_def
  by (subst pti_down_loop.simps) (simp add: Let_def at_def)

section \<open>Returning to the parent\<close>

lemma rest_path:
  assumes "pt_node m r (vpath va l) = Some t" "l \<le> k" "k \<le> 3" "stop \<le> l"
    and "pt_node m r (vpath va k) = Some u"
  shows "rest m stop False (at r u k va) = rest m stop False (at r t l va)"
  using assms(2-5)
proof (induction k arbitrary: u rule: dec_induct)
  case base
  then show ?case using assms(1) by simp
next
  case (step k)
  obtain u' where u': "pt_node m r (vpath va k) = Some u'"
    using pt_node_above [OF assms(1), of k] step by auto
  have "table_entry (ld64 m (entry_addr u (pageindex va (Suc k))))
      \<and> u' = ld64 m (entry_addr u (pageindex va (Suc k))) AND PTE_PAMASK"
    using u' step.prems by (auto simp: vpath_step Let_def split: if_splits)
  then show ?case
    using rest_descend [of m u va k stop r] step u' by simp
qed

text \<open>After the last entry of a table the walk visits the table itself and goes on after its entry.\<close>

lemma rest_parent:
  assumes n: "pt_node m r (vpath va l) = Some t" and l: "l < 3"
    and va: "unat va < 2 ^ 48" "pageindex va l = 511"
  obtains u where "pt_node m r (vpath va (Suc l)) = Some u"
    "rest m stop True (at r t l va) = prep [t] (rest m 1 True (at r u (Suc l) va))"
proof -
  obtain u where u: "pt_node m r (vpath va (Suc l)) = Some u"
    using pt_node_above [OF n, of "Suc l"] l by auto
  have e: "table_entry (ld64 m (entry_addr u (pageindex va (Suc l))))"
      "t = ld64 m (entry_addr u (pageindex va (Suc l))) AND PTE_PAMASK"
    using n u l by (auto simp: vpath_step Let_def split: if_splits)
  have "rest m stop True (at r t l va) = rest m (Suc l) False (at r r 3 va)"
    by (rule rest_up [OF l va])
  also have "\<dots> = rest m (Suc l) False (at r u (Suc l) va)"
    using l by (intro rest_path [OF u]) auto
  also have "\<dots> = prep [t] (rest m 1 True (at r u (Suc l) va))"
    using rest_visit [OF e(1) va(1)] e(2) by simp
  finally show thesis using that u by blast
qed

text \<open>What follows an entry does not depend on the address bits below its level.\<close>

lemma rest_low_bits:
  assumes "same_above l va va'" "l \<le> 3" "unat va < 2 ^ 48" "unat va' < 2 ^ 48"
    and "pt_node m r (vpath va l) = Some t"
  shows "rest m 1 True (at r t l va) = rest m 1 True (at r t l va')"
  using assms
proof (induction "3 - l" arbitrary: l t)
  case 0
  then have l: "l = 3" by simp
  have idx: "pageindex va' 3 = pageindex va 3" using same_above_pageindex [OF 0(2)] l by simp
  have nx: "(va OR pageoffmask 3) + 1 = (va' OR pageoffmask 3) + 1"
    using unat_next_va [of 3 va] unat_next_va [of 3 va'] 0 l by (simp add: same_above_div word_unat_eq_iff)
  show ?case
  proof (cases "pageindex va 3 < 511")
    case True
    then show ?thesis using rest_advance [of 3 va] rest_advance [of 3 va'] 0 idx nx l by simp
  next
    case False
    then have "pageindex va 3 = 511" using pageindex_less [of va 3] by linarith
    then show ?thesis using rest_end 0 idx l by simp
  qed
next
  case (Suc x)
  have idx: "pageindex va' l = pageindex va l" using same_above_pageindex [OF Suc(3)] by simp
  have nx: "(va OR pageoffmask l) + 1 = (va' OR pageoffmask l) + 1"
    using unat_next_va [of l va] unat_next_va [of l va'] Suc by (simp add: same_above_div word_unat_eq_iff)
  have vp: "vpath va' k = vpath va k" if "l \<le> k" for k
    using that same_above_pageindex [OF Suc(3)] by (auto simp: vpath_eq_iff)
  show ?case
  proof (cases "pageindex va l < 511")
    case True
    then show ?thesis using rest_advance [of l va] rest_advance [of l va'] Suc idx nx by simp
  next
    case False
    then have last: "pageindex va l = 511" using pageindex_less [of va l] by linarith
    have l: "l < 3" using Suc(2) by simp
    obtain u where u: "pt_node m r (vpath va (Suc l)) = Some u"
      "rest m 1 True (at r t l va) = prep [t] (rest m 1 True (at r u (Suc l) va))"
      using rest_parent [OF Suc(7) l Suc(5) last] by blast
    obtain u' where u': "pt_node m r (vpath va' (Suc l)) = Some u'"
      "rest m 1 True (at r t l va') = prep [t] (rest m 1 True (at r u' (Suc l) va'))"
      using rest_parent [of m r va' l t] Suc l last idx vp by auto
    have "u' = u" using u u' vp [of "Suc l"] by simp
    moreover have "rest m 1 True (at r u (Suc l) va) = rest m 1 True (at r u (Suc l) va')"
      using Suc l u by (intro Suc(1)) (auto intro: same_above_mono)
    ultimately show ?thesis using u u' by simp
  qed
qed

section \<open>The walk visits the tables in post-order\<close>

definition entry_visits :: "mem \<Rightarrow> nat \<Rightarrow> addr \<Rightarrow> nat \<Rightarrow> addr list" where
  "entry_visits m l t i =
     (let e = ld64 m (entry_addr t i) in
      if table_entry e then post_order m l (e AND PTE_PAMASK) @ [e AND PTE_PAMASK] else [])"

lemma post_order_Suc: "post_order m (Suc l) t = concat (map (entry_visits m l t) [0..<512])"
  by (simp add: entry_visits_def cong: map_cong)

text \<open>Where the walk goes after the table of \<open>va\<close> at level \<open>l\<close>.\<close>

definition leave :: "mem \<Rightarrow> addr \<Rightarrow> nat \<Rightarrow> u64 \<Rightarrow> addr list comp" where
  "leave m r l va =
     (if l = 3 then retIO []
      else case (pt_node m r (vpath va l), pt_node m r (vpath va (Suc l))) of
        (Some t, Some u) \<Rightarrow> prep [t] (rest m 1 True (at r u (Suc l) va))
      | _ \<Rightarrow> None)"

lemma leave_last:
  assumes "pt_node m r (vpath va l) = Some t" "l \<le> 3" "unat va < 2 ^ 48" "pageindex va l = 511"
  shows "rest m 1 True (at r t l va) = leave m r l va"
proof (cases "l = 3")
  case True
  then show ?thesis using rest_end assms by (simp add: leave_def)
next
  case False
  then obtain u where "pt_node m r (vpath va (Suc l)) = Some u"
      "rest m 1 True (at r t l va) = prep [t] (rest m 1 True (at r u (Suc l) va))"
    using rest_parent [OF assms(1) _ assms(3,4), of 1] assms(2) by (metis le_neq_implies_less)
  then show ?thesis using assms False by (simp add: leave_def)
qed

lemma leave_cong:
  assumes "same_above (Suc l) va va'" "l \<le> 3" "unat va < 2 ^ 48" "unat va' < 2 ^ 48"
  shows "leave m r l va = leave m r l va'"
proof -
  have "vpath va' k = vpath va k" if "l \<le> k" for k
    using that same_above_pageindex [OF assms(1)] by (auto simp: vpath_eq_iff)
  moreover have "rest m 1 True (at r u (Suc l) va) = rest m 1 True (at r u (Suc l) va')"
    if "pt_node m r (vpath va (Suc l)) = Some u" "l \<noteq> 3" for u
    using that assms by (intro rest_low_bits) auto
  ultimately show ?thesis by (auto simp: leave_def split: option.splits)
qed

lemma low_bits_zero:
  assumes "unat va mod 2 ^ (12 + Suc l * 9) = 0"
  shows "pageindex va l = 0" "unat va mod 2 ^ (12 + l * 9) = 0"
proof -
  obtain k where "unat va = 2 ^ (12 + Suc l * 9) * k" using assms by auto
  then have k: "unat va = 2 ^ (12 + l * 9) * (512 * k)" by (simp only: level_pow mult.assoc)
  then show "unat va mod 2 ^ (12 + l * 9) = 0" by simp
  show "pageindex va l = 0" unfolding pageindex_div k by simp
qed

lemma rest_entry:
  assumes IH: "\<And>va t. 0 < l \<Longrightarrow> pt_node m r (vpath va l) = Some t \<Longrightarrow> unat va < 2 ^ 48 \<Longrightarrow>
      unat va mod 2 ^ (12 + l * 9) = 0 \<Longrightarrow>
      rest m 1 False (at r t l va) = prep (concat (map (entry_visits m (l - 1) t) [pageindex va l..<512])) (leave m r l va)"
    and l: "Suc l \<le> 3" and n: "pt_node m r (vpath va (Suc l)) = Some t"
    and va: "unat va < 2 ^ 48" "unat va mod 2 ^ (12 + Suc l * 9) = 0"
  shows "rest m 1 False (at r t (Suc l) va) =
    prep (entry_visits m l t (pageindex va (Suc l))) (rest m 1 True (at r t (Suc l) va))"
proof (cases "table_entry (ld64 m (entry_addr t (pageindex va (Suc l))))")
  case False
  then show ?thesis using rest_absent [OF False] by (simp add: entry_visits_def)
next
  case True
  let ?t = "ld64 m (entry_addr t (pageindex va (Suc l))) AND PTE_PAMASK"
  show ?thesis
  proof (cases l)
    case 0
    then show ?thesis using rest_visit [OF True va(1)] True by (simp add: entry_visits_def)
  next
    case (Suc k)
    have n': "pt_node m r (vpath va l) = Some ?t"
      using n l True by (simp add: vpath_step)
    have "rest m 1 False (at r t (Suc l) va) = rest m 1 False (at r ?t l va)"
      using rest_descend [OF True, of 1] Suc by simp
    also have "\<dots> = prep (concat (map (entry_visits m (l - 1) ?t) [pageindex va l..<512])) (leave m r l va)"
      using Suc low_bits_zero [OF va(2)] by (intro IH n' va(1)) auto
    also have "\<dots> = prep (post_order m l ?t) (leave m r l va)"
      using low_bits_zero(1) [OF va(2)] Suc by (simp only: post_order_Suc diff_Suc_1)
    also have "leave m r l va = prep [?t] (rest m 1 True (at r t (Suc l) va))"
      using n n' l by (simp add: leave_def)
    finally show ?thesis using True by (simp add: entry_visits_def Let_def)
  qed
qed

lemma rest_scan:
  assumes "0 < l" "l \<le> 3" "pt_node m r (vpath va l) = Some t" "unat va < 2 ^ 48"
    "unat va mod 2 ^ (12 + l * 9) = 0"
  shows "rest m 1 False (at r t l va) =
    prep (concat (map (entry_visits m (l - 1) t) [pageindex va l..<512])) (leave m r l va)"
  using assms
proof (induction l arbitrary: va t)
  case 0
  then show ?case by simp
next
  case (Suc l)
  note IH = Suc.IH
  show ?case using Suc.prems
  proof (induction "511 - pageindex va (Suc l)" arbitrary: va)
    case 0
    then have last: "pageindex va (Suc l) = 511" using pageindex_less [of va "Suc l"] by linarith
    have "rest m 1 False (at r t (Suc l) va) =
        prep (entry_visits m l t (pageindex va (Suc l))) (rest m 1 True (at r t (Suc l) va))"
      using 0 IH by (intro rest_entry) auto
    then show ?case using leave_last [OF 0(4,3,5) last] last by simp
  next
    case (Suc x)
    then have lt: "pageindex va (Suc l) < 511" by simp
    let ?va = "(va OR pageoffmask (Suc l)) + 1"
    note nx = next_va_facts [OF Suc(4,6)]
    have sa: "same_above (Suc (Suc l)) ?va va" using nx(1) lt by simp
    have vp: "vpath ?va (Suc l) = vpath va (Suc l)"
      using same_above_pageindex [OF sa] by (auto simp: vpath_eq_iff)
    have up: "[pageindex va (Suc l)..<512] = pageindex va (Suc l) # [Suc (pageindex va (Suc l))..<512]"
      using lt by (simp add: upt_conv_Cons)
    have "rest m 1 False (at r t (Suc l) va) =
        prep (entry_visits m l t (pageindex va (Suc l))) (rest m 1 True (at r t (Suc l) va))"
      using Suc IH by (intro rest_entry) auto
    also have "rest m 1 True (at r t (Suc l) va) = rest m 1 False (at r t (Suc l) ?va)"
      by (rule rest_advance [OF Suc(4,6) lt])
    also have "\<dots> = prep (concat (map (entry_visits m (Suc l - 1) t) [pageindex ?va (Suc l)..<512])) (leave m r (Suc l) ?va)"
      using Suc nx lt vp by (intro Suc(1)) auto
    also have "leave m r (Suc l) ?va = leave m r (Suc l) va"
      using Suc nx lt by (intro leave_cong [OF sa]) auto
    finally show ?case using nx(3) lt up by simp
  qed
qed

lemma pti_list_post_order:
  "bindIO (pti_init m r 0) (\<lambda>it. bindIO (pti_list m it) (\<lambda>its. retIO (map (pti_pa m) its)))
     = retIO (post_order m 3 r)"
proof -
  have "pti_init m r 0 = pti_down_loop m 1 False (at r r 3 0)"
    by (simp add: pti_init_def pti_go_def pti_down_def at_def)
  then have "bindIO (pti_init m r 0) (\<lambda>it. bindIO (pti_list m it) (\<lambda>its. retIO (map (pti_pa m) its)))
      = rest m 1 False (at r r 3 0)"
    by (simp add: rest_def)
  also have "\<dots> = prep (concat (map (entry_visits m (3 - 1) r) [pageindex 0 3..<512])) (leave m r 3 0)"
    by (rule rest_scan) simp_all
  also have "\<dots> = retIO (post_order m 3 r)"
    by (simp add: leave_def pageindex_div numeral_3_eq_3 del: post_order.simps)
      (simp add: post_order_Suc numeral_2_eq_2 del: post_order.simps)
  finally show ?thesis .
qed

text \<open>The levels of the visited iterators.\<close>

lemma pti_down_level:
  "pti_down_loop m stop skip it = Some r \<Longrightarrow> 0 < stop \<Longrightarrow> r = Inr it' \<Longrightarrow> 0 < pti_level it'"
proof (induction arbitrary: it' rule: pti_down_loop.raw_induct [rotated 1, consumes 1])
  case (1 f stop skip it r)
  then show ?case by (auto simp: Let_def split: if_splits)
qed

section \<open>Every table page once\<close>

definition below :: "mem \<Rightarrow> addr \<Rightarrow> nat list \<Rightarrow> nat \<Rightarrow> addr set" where
  "below m r p l = {u. \<exists>q. q \<noteq> [] \<and> length q \<le> l \<and> (\<forall>i \<in> set q. i < 512) \<and> pt_node m r (q @ p) = Some u}"

lemma set_entry_visits:
  assumes IH: "\<And>p t. pt_node m r p = Some t \<Longrightarrow> set (post_order m l t) = below m r p l"
    and n: "pt_node m r p = Some t"
  shows "set (entry_visits m l t i) =
    {u. \<exists>z. length z \<le> l \<and> (\<forall>j \<in> set z. j < 512) \<and> pt_node m r (z @ i # p) = Some u}"
proof (cases "table_entry (ld64 m (entry_addr t i))")
  case False
  then have "pt_node m r (i # p) = None" using n by simp
  then have "pt_node m r (z @ i # p) = None" for z by (rule pt_node_None_append)
  then show ?thesis using False by (simp add: entry_visits_def)
next
  case True
  let ?t = "ld64 m (entry_addr t i) AND PTE_PAMASK"
  have c: "pt_node m r (i # p) = Some ?t" using n True by simp
  have "set (entry_visits m l t i) = insert ?t (below m r (i # p) l)"
    using True IH [OF c] by (simp add: entry_visits_def Let_def)
  also have "\<dots> = {u. \<exists>z. length z \<le> l \<and> (\<forall>j \<in> set z. j < 512) \<and> pt_node m r (z @ i # p) = Some u}"
  proof (intro equalityI subsetI)
    fix u assume "u \<in> insert ?t (below m r (i # p) l)"
    then show "u \<in> {u. \<exists>z. length z \<le> l \<and> (\<forall>j \<in> set z. j < 512) \<and> pt_node m r (z @ i # p) = Some u}"
      using c by (auto simp: below_def intro: exI [of _ "[]"])
  next
    fix u assume "u \<in> {u. \<exists>z. length z \<le> l \<and> (\<forall>j \<in> set z. j < 512) \<and> pt_node m r (z @ i # p) = Some u}"
    then obtain z where z: "length z \<le> l" "\<forall>j \<in> set z. j < 512" "pt_node m r (z @ i # p) = Some u" by blast
    show "u \<in> insert ?t (below m r (i # p) l)"
    proof (cases "z = []")
      case True
      then show ?thesis using z c by simp
    next
      case False
      then show ?thesis using z by (auto simp: below_def)
    qed
  qed
  finally show ?thesis .
qed

lemma set_post_order: "pt_node m r p = Some t \<Longrightarrow> set (post_order m l t) = below m r p l"
proof (induction l arbitrary: p t)
  case 0
  then show ?case by (auto simp: below_def)
next
  case (Suc l)
  have "set (post_order m (Suc l) t) = (\<Union>i < 512. set (entry_visits m l t i))"
    unfolding post_order_Suc by auto
  also have "\<dots> = below m r p (Suc l)"
  proof (intro equalityI subsetI)
    fix u assume "u \<in> (\<Union>i < 512. set (entry_visits m l t i))"
    then obtain i z where "i < 512" "length z \<le> l" "\<forall>j \<in> set z. j < 512" "pt_node m r (z @ i # p) = Some u"
      using set_entry_visits [OF Suc.IH Suc.prems] by blast
    then show "u \<in> below m r p (Suc l)" unfolding below_def by (auto intro!: exI [of _ "z @ [i]"])
  next
    fix u assume "u \<in> below m r p (Suc l)"
    then obtain q where q: "q \<noteq> []" "length q \<le> Suc l" "\<forall>i \<in> set q. i < 512" "pt_node m r (q @ p) = Some u"
      by (auto simp: below_def)
    moreover from q(1) obtain z i where "q = z @ [i]" by (cases q rule: rev_cases) auto
    ultimately show "u \<in> (\<Union>i < 512. set (entry_visits m l t i))"
      using set_entry_visits [OF Suc.IH Suc.prems] by fastforce
  qed
  finally show ?case .
qed

lemma distinct_concat_map:
  assumes "\<And>i. i < n \<Longrightarrow> distinct (f i)" "\<And>i j. i < n \<Longrightarrow> j < n \<Longrightarrow> i \<noteq> j \<Longrightarrow> set (f i) \<inter> set (f j) = {}"
  shows "distinct (concat (map f [0..<n]))"
  using assms
proof (induction n)
  case (Suc n)
  have "distinct (concat (map f [0..<n]))" using Suc.prems by (intro Suc.IH) auto
  moreover have "set (concat (map f [0..<n])) \<inter> set (f n) = {}"
  proof -
    have "set (f i) \<inter> set (f n) = {}" if "i < n" for i using that Suc.prems(2) [of i n] by simp
    then show ?thesis by (fastforce simp: disjoint_iff)
  qed
  ultimately show ?case using Suc.prems(1) [of n] by simp
qed simp

lemma distinct_post_order:
  assumes f: "forest m {r}"
  shows "pt_node m r p = Some t \<Longrightarrow> valid_path p \<Longrightarrow> length p + l \<le> 3 \<Longrightarrow> distinct (post_order m l t)"
proof (induction l arbitrary: p t)
  case 0
  then show ?case by simp
next
  case (Suc l)
  have sv: "set (entry_visits m l t i) =
      {u. \<exists>z. length z \<le> l \<and> (\<forall>j \<in> set z. j < 512) \<and> pt_node m r (z @ i # p) = Some u}" for i
    by (rule set_entry_visits [OF _ Suc.prems(1)]) (rule set_post_order)
  have inj: "q = q'" if "pt_node m r q = Some u" "pt_node m r q' = Some u" "valid_path q" "valid_path q'" for q q' u
    using forest_inj [OF f _ _ that(3,4,1,2)] by simp
  have vp: "valid_path (z @ i # p)" if "length z \<le> l" "\<forall>j \<in> set z. j < 512" "i < 512" for z i
    using that Suc.prems(2,3) by (auto simp: valid_path_def)
  show ?case
    unfolding post_order_Suc
  proof (rule distinct_concat_map)
    fix i :: nat assume i: "i < 512"
    show "distinct (entry_visits m l t i)"
    proof (cases "table_entry (ld64 m (entry_addr t i))")
      case True
      let ?t = "ld64 m (entry_addr t i) AND PTE_PAMASK"
      have c: "pt_node m r (i # p) = Some ?t" using Suc.prems(1) True by simp
      have "valid_path (i # p)" using Suc.prems i by auto
      moreover have "?t \<notin> below m r (i # p) l"
      proof
        assume "?t \<in> below m r (i # p) l"
        then obtain q where q: "q \<noteq> []" "length q \<le> l" "\<forall>j \<in> set q. j < 512" "pt_node m r (q @ i # p) = Some ?t"
          by (auto simp: below_def)
        then have "q @ i # p = i # p" using inj [OF q(4) c vp [OF q(2,3) i] \<open>valid_path (i # p)\<close>] by simp
        then show False using q(1) by simp
      qed
      moreover have "distinct (post_order m l ?t)" using Suc.IH [OF c] Suc.prems i by auto
      ultimately show ?thesis using True set_post_order [OF c] by (simp add: entry_visits_def Let_def)
    qed (simp add: entry_visits_def)
  next
    fix i j :: nat assume ij: "i < 512" "j < 512" "i \<noteq> j"
    show "set (entry_visits m l t i) \<inter> set (entry_visits m l t j) = {}"
    proof (rule ccontr)
      assume "set (entry_visits m l t i) \<inter> set (entry_visits m l t j) \<noteq> {}"
      then obtain u z z' where "length z \<le> l" "\<forall>j \<in> set z. j < 512" "pt_node m r (z @ i # p) = Some u"
        "length z' \<le> l" "\<forall>j \<in> set z'. j < 512" "pt_node m r (z' @ j # p) = Some u"
        unfolding sv by blast
      then have "z @ i # p = z' @ j # p" using inj vp ij by metis
      then have "(z @ [i]) @ p = (z' @ [j]) @ p" by simp
      then have "i = j" by (simp only: append_same_eq append1_eq_conv)
      then show False using ij by simp
    qed
  qed
qed

lemma post_order_tables:
  assumes f: "forest m {r}"
  shows "set (post_order m 3 r) = tables m {r} - {r}" "distinct (post_order m 3 r)"
proof -
  have n: "pt_node m r [] = Some r" by simp
  show "distinct (post_order m 3 r)" by (rule distinct_post_order [OF f n]) simp_all
  have root: "q = [] \<longleftrightarrow> u = r" if "pt_node m r q = Some u" "valid_path q" for q u
    using forest_inj [OF f _ _ that(2) _ that(1), of r "[]"] that n by auto
  have "u \<in> below m r [] 3 \<longleftrightarrow> (\<exists>q. q \<noteq> [] \<and> valid_path q \<and> pt_node m r q = Some u)" for u
    by (simp add: below_def valid_path_def)
  moreover have "(\<exists>q. q \<noteq> [] \<and> valid_path q \<and> pt_node m r q = Some u) \<longleftrightarrow> u \<in> tables m {r} - {r}" for u
    using root unfolding tables_def by blast
  ultimately show "set (post_order m 3 r) = tables m {r} - {r}"
    unfolding set_post_order [OF n] by blast
qed

section \<open>Property\<close>

text \<open>C16: when the page-table pages below \<open>pt\<close> form a tree, a loop over a \<open>ptiter\<close> ends, visits no page
  twice, and visits exactly the page-table pages of \<open>pt\<close> other than \<open>pt\<close> itself. The visits are in
  post-order, so a page is never visited after the page that holds its entry.\<close>

theorem ptiter_visits_tables:
  assumes "forest m {pt}"
  shows "\<exists>its. bindIO (pti_init m pt 0) (pti_list m) = retIO its
     \<and> map (pti_pa m) its = post_order m 3 pt
     \<and> distinct (map (pti_pa m) its) \<and> set (map (pti_pa m) its) = tables m {pt} - {pt}"
proof -
  obtain its where its: "bindIO (pti_init m pt 0) (pti_list m) = retIO its" "map (pti_pa m) its = post_order m 3 pt"
    using pti_list_post_order [of m pt]
    by (cases "bindIO (pti_init m pt 0) (pti_list m)") (auto simp: bindIO_def split: sum.splits option.splits bind_splits)
  then show ?thesis using post_order_tables [OF assms] by (metis (no_types))
qed

text \<open>A root with one table below it.\<close>

definition one_table_mem :: mem where
  "one_table_mem = st64 (\<lambda>_. 0) 0x1000 0x2007"

lemma one_table_forest: "forest one_table_mem {0x1000}" "tables one_table_mem {0x1000} = {0x2000, 0x1000}"
proof -
  have al: "page_aligned 0x1000" "page_aligned 0x2000" by (simp_all add: page_aligned_def)
  note z = forest_zero [of "{0x1000}"]
  have "linked (\<lambda>_. 0) one_table_mem {0x1000} 0x1000 [] 0 0x2000"
    unfolding linked_def using z al
    by (auto simp: one_table_mem_def entry_addr_def ld64_def intro!: exI [of _ "\<lambda>_. 0"])
  from linked_forest [OF this] z(2) al
  show "forest one_table_mem {0x1000}" "tables one_table_mem {0x1000} = {0x2000, 0x1000}"
    by simp_all
qed

theorem ptiter_visits_tables_witness:
  "\<exists>its. bindIO (pti_init one_table_mem 0x1000 0) (pti_list one_table_mem) = retIO its
     \<and> map (pti_pa one_table_mem) its = [0x2000]"
proof -
  obtain its where its: "bindIO (pti_init one_table_mem 0x1000 0) (pti_list one_table_mem) = retIO its"
      "distinct (map (pti_pa one_table_mem) its)" "set (map (pti_pa one_table_mem) its) = {0x2000}"
    using ptiter_visits_tables [OF one_table_forest(1)] unfolding one_table_forest(2) by (auto simp: insert_Diff_if)
  have "xs = [x]" if "distinct xs" "set xs = {x}" for xs and x :: addr
  proof (cases xs)
    case (Cons y ys)
    then have "y = x" "set ys \<subseteq> {x}" "x \<notin> set ys" using that by auto
    then show ?thesis using Cons by (cases ys) auto
  qed (use that in simp)
  with its show ?thesis by blast
qed

end
