(* ===== verification/Memviewer.thy ===== *)
theory Memviewer
  imports Machine Ptiter
begin

text \<open>
  The memory viewer of \<open>k-memviewer.cc\<close>: the usage map built from all page tables, the symbol it
  shows for a physical page, and the drawing of the physical and a virtual address space.
\<close>

section \<open>memusage\<close>

abbreviation (input) maxpa :: u64 where "maxpa \<equiv> 1024 * PAGESIZE"
abbreviation (input) max_view_pa :: u64 where "max_view_pa \<equiv> 512 * PAGESIZE"
abbreviation (input) max_view_va :: u64 where "max_view_va \<equiv> 768 * PAGESIZE"
abbreviation (input) f_kernel :: u32 where "f_kernel \<equiv> 1"
abbreviation (input) f_user :: u32 where "f_user \<equiv> 2"

definition f_process :: "int \<Rightarrow> u32" where
  "f_process i = (if i \<ge> 30 then push_bit 31 2 else if i \<ge> 1 then push_bit (nat i) 2 else 0)"

type_synonym marks = "nat \<Rightarrow> u32"

definition mark :: "u64 \<Rightarrow> u32 \<Rightarrow> marks \<Rightarrow> marks" where
  "mark pa flags v =
     (if pa < maxpa then v(unat (pa div PAGESIZE) := v (unat (pa div PAGESIZE)) OR flags) else v)"

definition marked_pid :: "u32 \<Rightarrow> int" where
  "marked_pid v = int (lsb_idx (drop_bit 2 v))"

partial_function (option) mark_tables :: "mem \<Rightarrow> u32 \<Rightarrow> ptiter \<Rightarrow> marks \<Rightarrow> marks comp" where
  "mark_tables m flags it v =
     (if pti_active it then
        let v' = mark (pti_pa m it) flags v in
        bindIO (pti_next m it) (\<lambda>it'. mark_tables m flags it' v')
      else retIO v)"

partial_function (option) mark_user :: "mem \<Rightarrow> u32 \<Rightarrow> vmiter \<Rightarrow> marks \<Rightarrow> marks comp" where
  "mark_user m flags it v =
     (if vm_low it then
        if vm_user m it then
          bindIO (Some (vm_next m it)) (\<lambda>it'. mark_user m flags it' (mark (vm_pa m it) flags v))
        else bindIO (Some (vm_next_range m it)) (\<lambda>it'. mark_user m flags it' v)
      else retIO v)"

definition mark_process :: "mem \<Rightarrow> addr \<Rightarrow> int \<Rightarrow> marks \<Rightarrow> marks comp" where
  "mark_process m pt i v =
     bindIO (pti_init m pt 0) (\<lambda>it.
     bindIO (mark_tables m (f_kernel OR f_process i) it v) (\<lambda>v1.
     let v2 = mark pt (f_kernel OR f_process i) v1 in
     bindIO (Some (vmiter_init m pt 0)) (\<lambda>it2. mark_user m (f_user OR f_process i) it2 v2)))"

text \<open>The loop over the processes, with the flag \<open>any\<close>.\<close>

function mark_processes :: "addr \<Rightarrow> mem \<Rightarrow> (nat \<Rightarrow> proc) \<Rightarrow> nat \<Rightarrow> bool \<Rightarrow> marks \<Rightarrow> (bool \<times> marks) comp" where
  "mark_processes kpt m pt i any v =
     (if i < NPROC then
        if state (pt i) \<noteq> P_FREE \<and> pagetable (pt i) \<noteq> 0 \<and> pagetable (pt i) \<noteq> kpt
        then bindIO (mark_process m (pagetable (pt i)) (int i) v) (mark_processes kpt m pt (i + 1) True)
        else mark_processes kpt m pt (i + 1) any v
      else retIO (any, v))"
  by pat_completeness auto
termination by (relation "measure (\<lambda>(kpt, m, pt, i, any, v). NPROC - i)") auto

declare mark_processes.simps [simp del]

text \<open>Without process page tables, owners are guessed from the physical address.\<close>

partial_function (option) mark_physical :: "kmem \<Rightarrow> vmiter \<Rightarrow> marks \<Rightarrow> marks comp" where
  "mark_physical s it v =
     (if vm_low it then
        let pa = vm_pa (bytes s) it in
        if vm_user (bytes s) it \<and> pa < MEMSIZE_PHYSICAL \<and> used (pages s (page_number pa)) then
          let owner = ucast ((pa - PROC_START_ADDR) div 0x40000) :: u32 in
          bindIO (Some (vm_next (bytes s) it)) (\<lambda>it'.
            mark_physical s it' (mark pa (f_user OR f_process (sint (owner + 1))) v))
        else bindIO (Some (vm_next_range (bytes s) it)) (\<lambda>it'. mark_physical s it' v)
      else retIO v)"

definition refresh_marks :: "addr \<Rightarrow> kernel \<Rightarrow> addr \<Rightarrow> marks comp" where
  "refresh_marks kpt k v0 =
     bindIO (pti_init (bytes (phys k)) kpt 0) (\<lambda>it.
     bindIO (mark_tables (bytes (phys k)) f_kernel it (\<lambda>_. 0)) (\<lambda>v1.
     bindIO (mark_processes kpt (bytes (phys k)) (ptable k) 1 False (mark kpt f_kernel v1)) (\<lambda>(any, v2).
     if any then retIO (mark v0 f_kernel v2)
     else bindIO (Some (vmiter_init (bytes (phys k)) kpt 0)) (\<lambda>it2. mark_physical (phys k) it2 v2))))"

definition set_phys :: "kmem \<Rightarrow> machine \<Rightarrow> machine" where
  "set_phys s m = m\<lparr>kern := (kern m)\<lparr>phys := s\<rparr>\<rparr>"

definition refresh :: "link \<Rightarrow> machine \<Rightarrow> machine run" where
  "refresh l m =
     bindIO (if mu_v m = 0 then
         case kalloc (l_kernel_end l) PAGESIZE (phys (kern m)) of (v, s) \<Rightarrow>
           let m1 = (set_phys s m)\<lparr>mu_v := v\<rparr> in
           bindIO (tryE m1 (guardE (v \<noteq> 0) Assert_fail)) (\<lambda>_. retIO m1)
       else retIO m) (\<lambda>m1.
     bindIO (tryIO m1 (refresh_marks (l_pagetable l) (kern m1) (mu_v m1))) (\<lambda>v. retIO (m1\<lparr>mu_marks := v\<rparr>)))"

definition page_error :: "u64 \<Rightarrow> u8 list \<Rightarrow> int \<Rightarrow> machine \<Rightarrow> machine run" where
  "page_error pa desc i m =
     (let fmt = (if i \<ge> 0 then lit ''PAGE TABLE ERROR: %lx: %s (pid %d)'' @ [10]
                 else lit ''PAGE TABLE ERROR: %lx: %s'' @ [10]);
          args = [Arg_long pa, Arg_str desc, Arg_int (word_of_int i)]
      in bindIO (error_printf (CPOS 22 0) COLOR_ERROR fmt args m) (\<lambda>(_, m1). klog fmt args m1))"

definition names :: "u8 list" where
  "names = lit ''K123456789ABCDEFGHIJKLMNOPQRST??''"

definition colors :: "u16 list" where
  "colors = [0xF, 0xC, 0xA, 0x9, 0xE]"

text \<open>The symbol of an allocatable page with the marks \<open>v\<close> of one or several processes.\<close>

definition owner_symbol :: "u32 \<Rightarrow> fault + u16" where
  "owner_symbol v =
     (let pid = marked_pid v;
          c0 = push_bit 8 (colors ! nat (pid mod 5));
          c1 = (if v AND f_kernel \<noteq> 0 then c0 OR 0x4000 else c0)
      in if v > (f_process pid OR f_kernel OR f_user) then Inr (0x0F00 OR 0x53)
         else if nat pid < length names then Inr (c1 OR ucast (names ! nat pid))
         else Inl Out_of_bounds)"

definition symbol_at :: "link \<Rightarrow> u64 \<Rightarrow> machine \<Rightarrow> (u16 \<times> machine) run" where
  "symbol_at l pa m =
     (let is_reserved = reserved_physical_address pa;
          is_kernel = (\<not> is_reserved \<and> \<not> allocatable_physical_address (l_kernel_end l) pa)
      in if pa \<ge> maxpa then
           retIO (if is_kernel then 0x4B OR 0x4000 else if is_reserved then 0x3F OR 0x4000 else 0x3F OR 0xF000, m)
         else let v = mu_marks m (unat (pa div PAGESIZE)) in
           if pa \<ge> CONSOLE_ADDR \<and> pa < CONSOLE_ADDR + PAGESIZE then retIO (0x43 OR 0x0700, m)
           else if is_reserved \<and> v > (f_kernel OR f_user) then
             bindIO (page_error pa (lit ''reserved page mapped for user'') (marked_pid v) m) (\<lambda>m1. retIO (0x52 OR 0x0C00, m1))
           else if is_reserved then retIO (0x52 OR 0x0700, m)
           else if is_kernel \<and> v > (f_kernel OR f_user) then
             bindIO (page_error pa (lit ''kernel data page mapped for user'') (marked_pid v) m) (\<lambda>m1. retIO (0x4B OR 0xCD00, m1))
           else if is_kernel then retIO (0x4B OR 0x0D00, m)
           else if pa \<ge> MEMSIZE_PHYSICAL then retIO (0x20 OR 0x0700, m)
           else if v = 0 then retIO (0x2E OR 0x0700, m)
           else if v = f_kernel then retIO (0x4B OR 0x0D00, m)
           else if v = f_user then retIO (0x2E OR 0x0700, m)
           else if v AND f_kernel \<noteq> 0 \<and> v AND f_user \<noteq> 0 then
             bindIO (page_error pa (lit ''kernel allocated page mapped for user'') (marked_pid v) m) (\<lambda>m1. retIO (0x2A OR 0xF400, m1))
           else bindIO (tryE m (owner_symbol v)) (\<lambda>ch. retIO (ch, m)))"

section \<open>Drawing\<close>

definition set_cell :: "int \<Rightarrow> u16 \<Rightarrow> machine \<Rightarrow> machine run" where
  "set_cell i ch m =
     bindIO (tryE m (guardE (0 \<le> i \<and> i < CONSOLE_ROWS * CONSOLE_COLUMNS) Out_of_bounds))
       (\<lambda>_. retIO (m\<lparr>con := (con m)\<lparr>cells := (cells (con m))(i := ch)\<rparr>\<rparr>))"

text \<open>Foreground and background colours exchanged, for pages that users can access.\<close>

definition swap_colors :: "u16 \<Rightarrow> u16" where
  "swap_colors ch =
     (let z = (ch AND 0x0F00) XOR drop_bit 4 (ch AND 0xF000) in ch XOR (z OR push_bit 4 z))"

text \<open>\<open>%06X\<close> reads 32 bits of the address that is passed; the address is below \<open>max_view_va\<close>.\<close>

definition draw_virtual :: "link \<Rightarrow> vmiter \<Rightarrow> machine \<Rightarrow> machine run" where
  "draw_virtual l it m =
     (let pn = vm_va it div PAGESIZE in
      bindIO (if pn mod 64 = 0
         then bindIO (kprint (CPOS (11 + uint (pn div 64)) 3) 0x0F00 (lit ''0x%06X '') [Arg_long (vm_va it)] m)
                (\<lambda>(_, m1). retIO m1)
         else retIO m) (\<lambda>m1.
      bindIO (if \<not> vm_present (kbytes m1) it then retIO (0x20, m1)
         else bindIO (symbol_at l (vm_pa (kbytes m1) it) m1) (\<lambda>(ch, m2).
           retIO (if vm_user (kbytes m2) it then swap_colors ch else ch, m2))) (\<lambda>(ch, m2).
      set_cell (CPOS (11 + uint (pn div 64)) (12 + uint (pn mod 64))) ch m2)))"

lemma real_find_va: "real_find m it va = Inr it' \<Longrightarrow> vm_va it' = va"
  by (auto simp: real_find_def Let_def vmiter_down_def split: if_splits prod.splits pe_ptr.splits)

lemma plus_page_va: "vm_plus m it PAGESIZE = Inr it' \<Longrightarrow> vm_va it' = vm_va it + PAGESIZE"
  by (auto simp: vm_plus_def vm_find_def dest: real_find_va)

lemma page_step_less:
  assumes "va < 0x300000"
  shows "unat (va + PAGESIZE) = unat va + 4096" "unat va < 0x300000"
proof -
  show "unat va < 0x300000" using assms by (simp add: word_less_nat_alt)
  then show "unat (va + PAGESIZE) = unat va + 4096" by (subst unat_add_small) simp_all
qed

function draw_virtual_loop :: "link \<Rightarrow> vmiter \<Rightarrow> machine \<Rightarrow> machine run" where
  "draw_virtual_loop l it m =
     (if vm_va it < max_view_va then
        bindIO (draw_virtual l it m) (\<lambda>m1.
        bindIO (tryE m1 (vm_plus (kbytes m1) it PAGESIZE)) (\<lambda>it'. draw_virtual_loop l it' m1))
      else retIO m)"
  by pat_completeness auto
termination
proof (relation "measure (\<lambda>(l, it, m). 2 ^ 22 - unat (vm_va it))", goal_cases)
  case 1
  then show ?case by simp
next
  case (2 l it m m1 it')
  from 2(3) have "vm_plus (kbytes m1) it PAGESIZE = Inr it'"
    by (cases "vm_plus (kbytes m1) it PAGESIZE") simp_all
  then show ?case using page_step_less [of "vm_va it"] 2(1) plus_page_va by fastforce
qed

declare draw_virtual_loop.simps [simp del]

definition console_memviewer_virtual :: "link \<Rightarrow> proc \<Rightarrow> machine \<Rightarrow> machine run" where
  "console_memviewer_virtual l p m =
     bindIO (kprint (CPOS 10 26) 0x0F00 (lit ''VIRTUAL ADDRESS SPACE FOR %d'' @ [10]) [Arg_int (word_of_int (pid p))] m) (\<lambda>(_, m1).
     bindIO (tryE m1 (vmiter_init (kbytes m1) (pagetable p) 0)) (\<lambda>it. draw_virtual_loop l it m1))"

definition draw_physical :: "link \<Rightarrow> nat \<Rightarrow> machine \<Rightarrow> machine run" where
  "draw_physical l pn m =
     bindIO (if pn mod 64 = 0
         then bindIO (kprint (CPOS (1 + int pn div 64) 3) 0x0F00 (lit ''0x%06X '') [Arg_int (push_bit 12 (of_nat pn))] m)
                (\<lambda>(_, m1). retIO m1)
         else retIO m) (\<lambda>m1.
     bindIO (symbol_at l (of_nat pn * PAGESIZE) m1) (\<lambda>(ch, m2).
     set_cell (CPOS (1 + int pn div 64) (12 + int pn mod 64)) ch m2))"

function draw_physical_loop :: "link \<Rightarrow> nat \<Rightarrow> machine \<Rightarrow> machine run" where
  "draw_physical_loop l pn m =
     (if pn < 512 then bindIO (draw_physical l pn m) (draw_physical_loop l (pn + 1)) else retIO m)"
  by pat_completeness auto
termination by (relation "measure (\<lambda>(l, pn, m). 512 - pn)") auto

declare draw_physical_loop.simps [simp del]

text \<open>The argument is an index in \<open>ptable\<close>, or \<open>None\<close> for the null pointer.\<close>

definition console_memviewer :: "link \<Rightarrow> nat option \<Rightarrow> machine \<Rightarrow> machine run" where
  "console_memviewer l vmp m =
     bindIO (tryE m (guardE (state (ptable (kern m) 0) = P_FREE) Assert_fail)) (\<lambda>_.
     bindIO (refresh l m) (\<lambda>m1.
     bindIO (kprint (CPOS 0 32) 0x0F00 (lit ''PHYSICAL MEMORY'' @ [10]) [] m1) (\<lambda>(_, m2).
     bindIO (draw_physical_loop l 0 m2) (\<lambda>m3.
     case vmp of
       Some i \<Rightarrow>
         if pagetable (ptable (kern m3) i) \<noteq> 0 then console_memviewer_virtual l (ptable (kern m3) i) m3
         else bindIO (kprint (CPOS 10 0) 0x0F00 (replicate 13 10) [] m3) (\<lambda>(_, m4). retIO m4)
     | None \<Rightarrow> bindIO (kprint (CPOS 10 0) 0x0F00 (replicate 13 10) [] m3) (\<lambda>(_, m4). retIO m4)))))"

end
