(* ===== verification/Mem_Inv.thy ===== *)
theory Mem_Inv
  imports Kernel Ptiter
begin

text \<open>
  The invariant of memory management, beyond the page tables: where user mappings may lie, which
  physical pages they may name, and that reference counts cover the references. A reference count is
  at least the number of processes that map the page, and at least 1 for a page-table page of a
  process, so no page in use is ever free. Also: how mapping one page changes all of this.
\<close>

section \<open>Definition\<close>

definition user_va :: "u64 \<Rightarrow> bool" where
  "user_va va \<longleftrightarrow> PROC_START_ADDR \<le> va \<and> va < MEMSIZE_VIRTUAL"

text \<open>Users reach the console, writable, at its own address, and allocatable pages in the user range.\<close>

definition maps_ok :: "addr \<Rightarrow> mem \<Rightarrow> addr \<Rightarrow> bool" where
  "maps_ok ke m r \<longleftrightarrow>
     (\<forall>va q. user_map m r va q False \<longrightarrow>
        q = CONSOLE_ADDR \<and> page_base va = CONSOLE_ADDR \<and> user_map m r va q True
        \<or> user_va va \<and> allocatable_physical_address ke q)"

definition single :: "mem \<Rightarrow> addr \<Rightarrow> bool" where
  "single m r \<longleftrightarrow>
     (\<forall>va va' q. user_map m r va q False \<longrightarrow> user_map m r va' q False \<longrightarrow> same_above 0 va va')"

text \<open>Kernel memory is mapped one to one in every address space.\<close>

definition low_ident :: "mem \<Rightarrow> addr \<Rightarrow> bool" where
  "low_ident m r \<longleftrightarrow> (\<forall>va < PROC_START_ADDR. \<exists>perm. translate m r va = Some (va, perm))"

definition mappers :: "mem \<Rightarrow> addr set \<Rightarrow> addr \<Rightarrow> addr set" where
  "mappers m P q = {r \<in> P. \<exists>va. user_map m r va q False}"

definition counted :: "mem \<Rightarrow> addr set \<Rightarrow> (nat \<Rightarrow> pageinfo) \<Rightarrow> bool" where
  "counted m P pgs \<longleftrightarrow>
     (\<forall>q. q \<noteq> CONSOLE_ADDR \<longrightarrow> card (mappers m P q) \<le> unat (refcount (pgs (page_number q))))"

definition tables_ok :: "addr \<Rightarrow> mem \<Rightarrow> addr set \<Rightarrow> (nat \<Rightarrow> pageinfo) \<Rightarrow> bool" where
  "tables_ok ke m P pgs \<longleftrightarrow>
     (\<forall>t \<in> tables m P. allocatable_physical_address ke t \<and> used (pgs (page_number t)))"

definition mem_inv :: "addr \<Rightarrow> addr \<Rightarrow> addr set \<Rightarrow> kmem \<Rightarrow> bool" where
  "mem_inv ke kpt P s \<longleftrightarrow>
     as_inv (avail ke) kpt P s \<and> finite P
     \<and> (\<forall>r \<in> P. maps_ok ke (bytes s) r \<and> single (bytes s) r)
     \<and> counted (bytes s) P (pages s) \<and> tables_ok ke (bytes s) P (pages s)"

section \<open>Basic facts\<close>

lemma user_va_not_console: "user_va va \<Longrightarrow> page_base va \<noteq> CONSOLE_ADDR"
proof
  assume "user_va va" "page_base va = CONSOLE_ADDR"
  then have "0x100000 \<le> unat va" "4096 * (unat va div 4096) = 0xB8000"
    using unat_page_base [of va] by (auto simp: user_va_def word_le_nat_alt)
  then show False by auto
qed

lemma user_map_aligned: "user_map m r va q w \<Longrightarrow> page_aligned q"
  using page_aligned_page_base by (auto simp: user_map_def)

lemma user_map_fun: "user_map m r va q w \<Longrightarrow> user_map m r va q' w' \<Longrightarrow> q' = q"
  by (auto simp: user_map_def)

lemma same_above_0_base: "same_above 0 va va' \<longleftrightarrow> page_base va = page_base va'"
  by (simp add: same_above_div unat_page_base word_unat_eq_iff [of "page_base va"])

text \<open>In a tree that the kernel has built, a translation is that of one 4096-byte page.\<close>

lemma translate_page:
  assumes ok: "ptree_ok m r" and t: "translate m r va = Some (pa, perm)"
  obtains q where "page_aligned q" "q < 0x100000000" "pa = q + (va AND PAGEOFFMASK)" "perm AND 0xFFF = perm"
    "perm AND PTE_P \<noteq> 0"
    "\<And>va'. same_above 0 va va' \<Longrightarrow> translate m r va' = Some (q + (va' AND PAGEOFFMASK), perm)"
proof -
  from t obtain l t' pm where c: "va_is_canonical va" and w: "walk m va 3 r (- 1) = (l, t', pm)"
      and e: "ld64 m (entry_addr t' (pageindex va l)) AND PTE_P \<noteq> 0"
      "(pa, perm) = page_result l (ld64 m (entry_addr t' (pageindex va l))) va pm"
    by (auto simp: translate_walk leaf_lookup_def Let_def split: if_splits prod.splits)
  let ?e = "ld64 m (entry_addr t' (pageindex va l))"
  have l: "l = 0"
  proof (rule ccontr)
    assume "l \<noteq> 0"
    then have "\<not> vm_present m (fresh_iter m r va)"
      using ptree_ok_iter(3) [OF ok c] leaf_fresh(2) [OF c w] by simp
    then show False using t by (simp add: vm_present_fresh)
  qed
  have off: "pageoffset v 0 = v AND PAGEOFFMASK" for v
    by (simp add: pageoffset_def pageoffmask_def push_bit_eq_mult)
  have pm: "pm AND 7 = 7"
    by (rule walk_perm7 [OF ok _ _ w]) simp_all
  have P: "(0xFFF AND pm AND ?e) AND PTE_P \<noteq> 0"
  proof -
    have "(0xFFF AND pm AND ?e) AND PTE_P = ((pm AND 7) AND PTE_P) AND (?e AND PTE_P)"
      by (rule bit_word_eqI) (auto simp: bit_simps)
    then show ?thesis using e(1) pm and_exp_word [of ?e 0] by (simp split: if_splits)
  qed
  have perm: "perm = 0xFFF AND pm AND ?e" "pa = (?e AND PTE_PAMASK) + (va AND PAGEOFFMASK)"
    using e(2) l by (simp_all add: page_result_def off)
  show thesis
  proof (rule that)
    show "page_aligned (?e AND PTE_PAMASK)" by simp
    show "?e AND PTE_PAMASK < 0x100000000"
      using ok walk_top_node [OF w] l unfolding ptree_ok_def entry_ok_def by (metis pageindex_less valid_vpath)
    show "pa = (?e AND PTE_PAMASK) + (va AND PAGEOFFMASK)" by (rule perm(2))
    show "perm AND PTE_P \<noteq> 0" unfolding perm(1) by (rule P)
    show "perm AND 0xFFF = perm" by (simp add: perm(1) and.assoc and.commute and.left_commute)
    fix va' assume sa: "same_above 0 va va'"
    have "va_is_canonical va'" using same_above_canonical [OF sa] c by simp
    then show "translate m r va' = Some ((?e AND PTE_PAMASK) + (va' AND PAGEOFFMASK), perm)"
      using walk_same_page [OF sa] same_above_pageindex [OF sa, of 0] w e(1) l perm(1)
      by (simp add: translate_walk leaf_lookup_def page_result_def off Let_def)
  qed
qed

lemma user_map_same:
  assumes "ptree_ok m r" "same_above 0 va va'" "user_map m r va q w"
  shows "user_map m r va' q w"
proof -
  from assms(3) obtain pa perm where t: "translate m r va = Some (pa, perm)" "is_user perm" "page_base pa = q"
      "w \<longrightarrow> is_user_writable perm"
    by (auto simp: user_map_def)
  obtain p where p: "page_aligned p" "pa = p + (va AND PAGEOFFMASK)"
      "\<And>va'. same_above 0 va va' \<Longrightarrow> translate m r va' = Some (p + (va' AND PAGEOFFMASK), perm)"
    using translate_page [OF assms(1) t(1)] by blast
  then have "q = p" using t(3) page_base_offset by auto
  then show ?thesis using t p(3) [OF assms(2)] page_base_offset [OF p(1)] by (auto simp: user_map_def)
qed

section \<open>Tables of one root\<close>

lemma tables_Union: "tables m R = (\<Union>r \<in> R. tables m {r})"
  by (auto simp: tables_def)

lemma tables_mono: "R' \<subseteq> R \<Longrightarrow> tables m R' \<subseteq> tables m R"
  by (auto simp: tables_def)

lemma forest_subset: "forest m R \<Longrightarrow> R' \<subseteq> R \<Longrightarrow> forest m R'"
  unfolding forest_def by blast

lemma tables_disjoint:
  assumes "forest m R" "r \<in> R" "r' \<in> R" "r \<noteq> r'"
  shows "tables m {r} \<inter> tables m {r'} = {}"
  using forest_inj [OF assms(1,2,3)] assms(4) unfolding tables_def by blast

lemma pt_good_subset: "pt_good fp s R \<Longrightarrow> R' \<subseteq> R \<Longrightarrow> pt_good fp s R'"
  unfolding pt_good_def using forest_subset [of "bytes s" R R'] tables_mono [of R' R "bytes s"] by blast

lemma own_frame_others:
  assumes "pt_good fp s R" "r \<in> R" "r' \<in> R" "r \<noteq> r'" "pt_frame fp {r} s s'"
  shows "agree_on (tables (bytes s) {r'}) (bytes s) (bytes s')"
  unfolding agree_on_def
proof (intro allI impI)
  fix a assume a: "page_base a \<in> tables (bytes s) {r'}"
  have f: "forest (bytes s) R" "tables (bytes s) R \<inter> fp s = {}" using assms(1) by (auto simp: pt_good_def)
  have "page_base a \<notin> tables (bytes s) {r}" using tables_disjoint [OF f(1) assms(2-4)] a by blast
  moreover have "page_base a \<notin> fp s" using a f(2) tables_mono [of "{r'}" R "bytes s"] assms(3) by auto
  ultimately show "bytes s' a = bytes s a" using assms(5) unfolding pt_frame_def by blast
qed

lemma fresh_iter_agree:
  assumes "forest m {r}" "agree_on (tables m {r}) m m'"
  shows "fresh_iter m' r va = fresh_iter m r va"
  using agree_walk [OF assms] by (simp add: fresh_iter_def)

section \<open>Mapping a page\<close>

text \<open>A page may be mapped for users only at the console's address or in the user range.\<close>

definition place_ok :: "addr \<Rightarrow> u64 \<Rightarrow> u64 \<Rightarrow> u64 \<Rightarrow> bool" where
  "place_ok ke va pa perm \<longleftrightarrow>
     (is_user perm \<longrightarrow>
        pa = CONSOLE_ADDR \<and> va = CONSOLE_ADDR \<and> is_user_writable perm
        \<or> user_va va \<and> allocatable_physical_address ke pa)"

definition frame_mapped :: "addr \<Rightarrow> addr \<Rightarrow> addr set \<Rightarrow> addr \<Rightarrow> u64 \<Rightarrow> u64 \<Rightarrow> u64 \<Rightarrow> kmem \<Rightarrow> kmem \<Rightarrow> bool" where
  "frame_mapped ke kpt P r va pa perm s s' \<longleftrightarrow>
     as_inv (avail ke) kpt P s'
     \<and> (\<forall>r \<in> P. maps_ok ke (bytes s') r \<and> single (bytes s') r)
     \<and> tables_ok ke (bytes s') P (pages s')
     \<and> pt_frame (avail ke) {r} s s'
     \<and> mapped (insert kpt P) r va pa perm (bytes s) (bytes s')
     \<and> loads_mapped P r va pa perm (bytes s) (bytes s')"

lemma user_va_same:
  assumes "same_above 0 va va'" "user_va va"
  shows "user_va va'"
proof -
  have "unat va div 4096 = unat va' div 4096" using assms(1) by (simp add: same_above_div)
  moreover have "256 \<le> unat va div 4096" "unat va div 4096 < 768"
    using assms(2) by (simp_all add: user_va_def word_le_nat_alt word_less_nat_alt less_eq_div_iff_mult_less_eq div_less_iff_less_mult)
  ultimately have "256 \<le> unat va' div 4096" "unat va' div 4096 < 768" by simp_all
  then show ?thesis
    by (simp add: user_va_def word_le_nat_alt word_less_nat_alt less_eq_div_iff_mult_less_eq div_less_iff_less_mult)
qed

lemma own_frame_tables_ok:
  assumes inv: "mem_inv ke kpt P s" and r: "r \<in> P" and fr: "pt_frame (avail ke) {r} s s'"
  shows "tables_ok ke (bytes s') P (pages s')"
  unfolding tables_ok_def
proof
  fix t assume "t \<in> tables (bytes s') P"
  then obtain r' where r': "r' \<in> P" "t \<in> tables (bytes s') {r'}" using tables_Union by blast
  have good: "pt_good (avail ke) s (insert kpt P)" and tk: "tables_ok ke (bytes s) P (pages s)"
    using inv by (auto simp: mem_inv_def as_inv_def)
  have f: "forest (bytes s) (insert kpt P)" using good by (simp add: pt_good_def)
  show "allocatable_physical_address ke t \<and> used (pages s' (page_number t))"
  proof (cases "t \<in> tables (bytes s) {r'}")
    case True
    then have tP: "t \<in> tables (bytes s) P" using r'(1) tables_mono [of "{r'}" P "bytes s"] by auto
    have "t \<notin> tables (bytes s') {r} - tables (bytes s) {r}"
      using fr tP good tables_mono [of P "insert kpt P" "bytes s"] unfolding pt_frame_def pt_good_def by blast
    moreover have "page_aligned t" using tables_aligned [OF f] tP tables_mono [of P "insert kpt P" "bytes s"] by blast
    ultimately have "pages s' (page_number t) = pages s (page_number t)" using fr by (simp add: pt_frame_def)
    then show ?thesis using tk tP by (simp add: tables_ok_def)
  next
    case False
    have "r' = r"
    proof (rule ccontr)
      assume ne: "r' \<noteq> r"
      have "agree_on (tables (bytes s) {r'}) (bytes s) (bytes s')"
        using own_frame_others [OF good _ _ _ fr] r r'(1) ne by auto
      then have "tables (bytes s') {r'} = tables (bytes s) {r'}"
        using agree_forest(2) forest_subset [OF f] r'(1) by simp
      then show False using False r'(2) by simp
    qed
    then have "t \<in> avail ke s" "pages s' (page_number t) = \<lparr>refcount = 1\<rparr>"
      using fr False r'(2) unfolding pt_frame_def by blast+
    then show ?thesis by (simp add: avail_def used_def)
  qed
qed

lemma frame_user_map:
  assumes fa: "frame_args pa perm" and map: "mapped R r va pa (scast perm) m m'" and r': "r' \<in> R"
  shows "user_map m' r' va' q w \<longleftrightarrow>
    (if r' = r \<and> same_above 0 va va'
     then q = pa \<and> is_user (scast perm) \<and> (w \<longrightarrow> is_user_writable (scast perm)) else user_map m r' va' q w)"
proof (cases "scast perm AND PTE_P = (0 :: u64)")
  case False
  then have "page_aligned pa" using fa by (simp add: frame_args_def)
  then show ?thesis by (rule mapped_user_map [OF map _ r'])
next
  case True
  then have "perm = 0" using fa by (simp add: frame_args_def)
  then show ?thesis using map r' by (auto simp: mapped_def user_map_def is_user_def)
qed

lemma mapped_page_count:
  assumes as: "as_inv (avail ke) kpt P s'" and r: "r \<in> P" and fr: "pt_frame (avail ke) {r} s s'"
    and q: "mappers (bytes s') P q \<noteq> {}"
  shows "pages s' (page_number q) = pages s (page_number q)"
proof -
  obtain r' va where r': "r' \<in> P" "user_map (bytes s') r' va q False" using q by (auto simp: mappers_def)
  then have "q \<notin> tables (bytes s') (insert kpt P)" using as by (auto simp: as_inv_def frames_ok_def)
  then have "q \<notin> tables (bytes s') {r}" using tables_mono [of "{r}" "insert kpt P" "bytes s'"] r by auto
  then show ?thesis using fr user_map_aligned [OF r'(2)] by (simp add: pt_frame_def)
qed

lemma map_step:
  assumes inv: "mem_inv ke kpt P s" and r: "r \<in> P" and va: "va_is_canonical va" "page_aligned va"
    and fa: "frame_args pa perm" and mm: "may_map (avail ke) kpt P s r va pa (scast perm)"
    and place: "place_ok ke va pa (scast perm)"
    and fresh: "is_user (scast perm) \<Longrightarrow> \<forall>va'. \<not> same_above 0 va va' \<longrightarrow> \<not> user_map (bytes s) r va' pa False"
  obtains (ok) s' where
      "try_map (kalloc ke PAGESIZE) (fresh_iter (bytes s) r va) pa perm s = Inr (0, fresh_iter (bytes s') r va, s')"
      "frame_mapped ke kpt P r va pa (scast perm) s s'"
  | (oom) s' where
      "try_map (kalloc ke PAGESIZE) (fresh_iter (bytes s) r va) pa perm s = Inr (- 1, fresh_iter (bytes s') r va, s')"
      "mem_inv ke kpt P s'" "avail ke s' = {}" "pt_frame (avail ke) {r} s s'"
      "\<And>r' va'. r' \<in> insert kpt P \<Longrightarrow> translate (bytes s') r' va' = translate (bytes s) r' va'"
      "\<And>r' va'. r' \<in> P \<Longrightarrow> user_load (bytes s') r' va' = user_load (bytes s) r' va'"
proof -
  have as: "as_inv (avail ke) kpt P s" using inv by (simp add: mem_inv_def)
  have okr: "ptree_ok (bytes s) r" and g: "pt_good (avail ke) s {r}"
    using as r pt_good_subset [of "avail ke" s "insert kpt P" "{r}"] by (auto simp: as_inv_def)
  obtain rc s' where res: "try_map (kalloc ke PAGESIZE) (fresh_iter (bytes s) r va) pa perm s
        = Inr (rc, fresh_iter (bytes s') r va, s')"
      and as': "as_inv (avail ke) kpt P s'"
      and c: "rc = 0 \<and> mapped (insert kpt P) r va pa (scast perm) (bytes s) (bytes s')
           \<and> loads_mapped P r va pa (scast perm) (bytes s) (bytes s')
         \<or> rc = - 1 \<and> avail ke s' = {}
           \<and> (\<forall>r \<in> insert kpt P. \<forall>va. translate (bytes s') r va = translate (bytes s) r va)
           \<and> (\<forall>r \<in> P. \<forall>va. user_load (bytes s') r va = user_load (bytes s) r va)"
    using ka.map_frame [OF as r va fa mm] by blast
  obtain s'' where "try_map (kalloc ke PAGESIZE) (fresh_iter (bytes s) r va) pa perm s
        = Inr (rc, fresh_iter (bytes s'') r va, s'')" "pt_frame (avail ke) {r} s s''"
    using ka.try_map_correct [OF g _ va refl frame_args_ok [OF fa okr va(1)] ptree_ok_iter(3) [OF okr va(1)]] res
    by force
  with res have fr: "pt_frame (avail ke) {r} s s'" by simp
  have tk: "tables_ok ke (bytes s') P (pages s')" by (rule own_frame_tables_ok [OF inv r fr])
  show thesis
  proof (cases "rc = 0")
    case True
    with c have map: "mapped (insert kpt P) r va pa (scast perm) (bytes s) (bytes s')"
      and ld: "loads_mapped P r va pa (scast perm) (bytes s) (bytes s')" by auto
    have um: "user_map (bytes s') r' va' q w \<longleftrightarrow>
        (if r' = r \<and> same_above 0 va va' then q = pa \<and> is_user (scast perm) \<and> (w \<longrightarrow> is_user_writable (scast perm))
         else user_map (bytes s) r' va' q w)"
      if "r' \<in> P" for r' va' q w
      using frame_user_map [OF fa map] that by auto
    have "maps_ok ke (bytes s') r' \<and> single (bytes s') r'" if r': "r' \<in> P" for r'
    proof
      have old: "maps_ok ke (bytes s) r'" "single (bytes s) r'" using inv r' by (auto simp: mem_inv_def)
      show "maps_ok ke (bytes s') r'"
        unfolding maps_ok_def um [OF r']
        using old(1) place user_va_same [of va] va(2)
        by (auto simp: maps_ok_def place_ok_def same_above_0_base page_base_aligned split: if_splits)
      show "single (bytes s') r'"
        unfolding single_def um [OF r']
      proof (intro allI impI)
        fix va1 va2 q
        assume 1: "if r' = r \<and> same_above 0 va va1 then q = pa \<and> is_user (scast perm) \<and> (False \<longrightarrow> is_user_writable (scast perm))
              else user_map (bytes s) r' va1 q False"
          and 2: "if r' = r \<and> same_above 0 va va2 then q = pa \<and> is_user (scast perm) \<and> (False \<longrightarrow> is_user_writable (scast perm))
              else user_map (bytes s) r' va2 q False"
        show "same_above 0 va1 va2"
        proof (cases "r' = r")
          case True
          have "same_above 0 va va1 \<longleftrightarrow> same_above 0 va va2"
            using 1 2 fresh True by (auto split: if_splits)
          then show ?thesis
            using 1 2 old(2) True same_above_trans [of 0 va1 va va2] same_above_sym [of 0 va va1]
            unfolding single_def by (cases "same_above 0 va va1") auto
        next
          case False
          then show ?thesis using 1 2 old(2) unfolding single_def by auto
        qed
      qed
    qed
    then show thesis using ok res True as' tk fr map ld by (simp add: frame_mapped_def)
  next
    case False
    with c have tr: "\<And>r' va'. r' \<in> insert kpt P \<Longrightarrow> translate (bytes s') r' va' = translate (bytes s) r' va'"
      and ld: "\<And>r' va'. r' \<in> P \<Longrightarrow> user_load (bytes s') r' va' = user_load (bytes s) r' va'"
      and none: "avail ke s' = {}" and rc: "rc = - 1" by auto
    have um: "user_map (bytes s') r' va' q w = user_map (bytes s) r' va' q w" if "r' \<in> P" for r' va' q w
      using tr that by (intro user_map_cong) auto
    then have mp: "mappers (bytes s') P q = mappers (bytes s) P q" for q by (auto simp: mappers_def)
    have "maps_ok ke (bytes s') r' \<and> single (bytes s') r'" if r': "r' \<in> P" for r'
      using inv r' by (simp add: mem_inv_def maps_ok_def single_def um [OF r'])
    moreover have "counted (bytes s') P (pages s')"
      unfolding counted_def
    proof (intro allI impI)
      fix q assume "q \<noteq> CONSOLE_ADDR"
      then show "card (mappers (bytes s') P q) \<le> unat (refcount (pages s' (page_number q)))"
        using mapped_page_count [OF as' r fr, of q] inv mp by (cases "mappers (bytes s') P q = {}") (auto simp: mem_inv_def counted_def)
    qed
    ultimately have "mem_inv ke kpt P s'" using as' tk inv by (simp add: mem_inv_def)
    then show thesis using oom res rc none fr tr ld by blast
  qed
qed

section \<open>Reference counts\<close>

lemma as_inv_mono:
  "as_inv fp kpt P s \<Longrightarrow> bytes s' = bytes s \<Longrightarrow> fp s' \<subseteq> fp s \<Longrightarrow> as_inv fp kpt P s'"
  by (fastforce simp: as_inv_def pt_good_def frames_ok_def)

text \<open>After a page has been mapped, its count must cover one more reference.\<close>

lemma frame_mapped_inv:
  assumes inv: "mem_inv ke kpt P s" and r: "r \<in> P" and fa: "frame_args pa perm"
    and fm: "frame_mapped ke kpt P r va pa (scast perm) s s'"
    and cnt: "is_user (scast perm) \<Longrightarrow> pa \<noteq> CONSOLE_ADDR \<Longrightarrow>
      card (insert r (mappers (bytes s) P pa)) \<le> unat (refcount (pgs (page_number pa)))"
    and pgs: "\<And>q. page_aligned q \<Longrightarrow> q \<noteq> pa \<or> \<not> is_user (scast perm) \<or> pa = CONSOLE_ADDR \<Longrightarrow>
      pgs (page_number q) = pages s' (page_number q)"
  shows "mem_inv ke kpt P (s'\<lparr>pages := pgs\<rparr>)"
proof -
  have as': "as_inv (avail ke) kpt P s'" and tk: "tables_ok ke (bytes s') P (pages s')"
    and fr: "pt_frame (avail ke) {r} s s'" and map: "mapped (insert kpt P) r va pa (scast perm) (bytes s) (bytes s')"
    using fm by (auto simp: frame_mapped_def)
  have fin: "finite P" using inv by (simp add: mem_inv_def)
  note um = frame_user_map [OF fa map]
  have pos: "0 < unat (refcount (pgs (page_number pa)))" if "is_user (scast perm)" "pa \<noteq> CONSOLE_ADDR"
  proof -
    have "0 < card (insert r (mappers (bytes s) P pa))" using fin by (simp add: mappers_def card_gt_0_iff)
    then show ?thesis using cnt [OF that] by linarith
  qed
  have al: "page_aligned t" if "t \<in> tables (bytes s') P" for t
    using that as' tables_aligned [of "bytes s'" "insert kpt P"] tables_mono [of P "insert kpt P" "bytes s'"]
    by (auto simp: as_inv_def pt_good_def)
  have up: "user_map (bytes s') r va pa False" if "is_user (scast perm)"
    using um [of r va pa False] r that by (simp add: same_above_def)
  have "avail ke (s'\<lparr>pages := pgs\<rparr>) \<subseteq> avail ke s'"
  proof
    fix q assume q: "q \<in> avail ke (s'\<lparr>pages := pgs\<rparr>)"
    show "q \<in> avail ke s'"
    proof (cases "q \<noteq> pa \<or> \<not> is_user (scast perm) \<or> pa = CONSOLE_ADDR")
      case True
      moreover have "page_aligned q" using q by (rule avail_aligned)
      ultimately have "pgs (page_number q) = pages s' (page_number q)" by (intro pgs)
      then show ?thesis using q by (simp add: avail_def)
    next
      case False
      then show ?thesis using q pos by (auto simp: avail_def used_def)
    qed
  qed
  then have "as_inv (avail ke) kpt P (s'\<lparr>pages := pgs\<rparr>)" by (intro as_inv_mono [OF as']) simp_all
  moreover have "tables_ok ke (bytes s') P pgs"
    unfolding tables_ok_def
  proof
    fix t assume t: "t \<in> tables (bytes s') P"
    then have "t \<in> tables (bytes s') (insert kpt P)" using tables_mono [of P "insert kpt P" "bytes s'"] by auto
    then have "t \<noteq> pa \<or> \<not> is_user (scast perm)"
      using up as' r unfolding as_inv_def frames_ok_def by blast
    then show "allocatable_physical_address ke t \<and> used (pgs (page_number t))"
      using tk t pgs [OF al [OF t]] by (auto simp: tables_ok_def)
  qed
  moreover have "counted (bytes s') P pgs"
    unfolding counted_def
  proof (intro allI impI)
    fix q assume q: "q \<noteq> CONSOLE_ADDR"
    show "card (mappers (bytes s') P q) \<le> unat (refcount (pgs (page_number q)))"
    proof (cases "mappers (bytes s') P q = {}")
      case False
      note old = mapped_page_count [OF as' r fr False]
      have aq: "page_aligned q" using False user_map_aligned by (auto simp: mappers_def)
      show ?thesis
      proof (cases "q = pa \<and> is_user (scast perm)")
        case True
        have "mappers (bytes s') P q \<subseteq> insert r (mappers (bytes s) P pa)"
          using True by (auto simp: mappers_def um split: if_splits)
        then have "card (mappers (bytes s') P q) \<le> card (insert r (mappers (bytes s) P pa))"
          using fin by (intro card_mono) (auto simp: mappers_def)
        then show ?thesis using cnt True q by simp
      next
        case False
        then have "mappers (bytes s') P q \<subseteq> mappers (bytes s) P q"
          by (auto simp: mappers_def um split: if_splits)
        then have "card (mappers (bytes s') P q) \<le> card (mappers (bytes s) P q)"
          using fin by (intro card_mono) (auto simp: mappers_def)
        then show ?thesis using False inv q old pgs [OF aq] by (auto simp: mem_inv_def counted_def)
      qed
    qed simp
  qed
  ultimately show ?thesis using fm fin by (simp add: mem_inv_def frame_mapped_def)
qed

text \<open>Taking a free page and writing it.\<close>

lemma avail_not_mapped:
  assumes "mem_inv ke kpt P s" "q \<in> avail ke s"
  shows "mappers (bytes s) P q = {}"
  using assms by (auto simp: mappers_def mem_inv_def as_inv_def frames_ok_def)

lemma claim_step:
  assumes inv: "mem_inv ke kpt P s" and al: "kalloc ke PAGESIZE s = (n, s1)" "n \<noteq> 0"
    and m: "\<And>a. page_base a \<noteq> n \<Longrightarrow> m a = bytes s a"
  shows "mem_inv ke kpt P (s1\<lparr>bytes := m\<rparr>)"
    and "\<And>r. r \<in> insert kpt P \<Longrightarrow> agree_on (tables (bytes s) {r}) (bytes s) m"
proof -
  have as: "as_inv (avail ke) kpt P s" using inv by (simp add: mem_inv_def)
  note cf = ka.claim_frame [OF as al m]
  have pgs: "pages s1 = (pages s)(page_number n := \<lparr>refcount = 1\<rparr>)" using ka.alloc_some [OF al] by simp
  have um: "user_map m r va q w = user_map (bytes s) r va q w" if "r \<in> P" for r va q w
    using cf(2) that by (intro user_map_cong) auto
  then have mp: "mappers m P q = mappers (bytes s) P q" for q by (auto simp: mappers_def)
  have same: "pages s1 (page_number q) = pages s (page_number q)" if "page_aligned q" "q \<noteq> n" for q
    using that pgs page_number_inj [OF that(1) avail_aligned [OF cf(4)]] by simp
  have "n \<notin> tables (bytes s) (insert kpt P)" using cf(4) as by (auto simp: as_inv_def pt_good_def)
  then have ag: "agree_on (tables (bytes s) (insert kpt P)) (bytes s) m"
    unfolding agree_on_def using m by (metis (no_types))
  have tb: "tables m P = tables (bytes s) P"
  proof -
    have "agree_on (tables (bytes s) P) (bytes s) m"
      using ag tables_mono [of P "insert kpt P" "bytes s"] by (auto simp: agree_on_def)
    moreover have "forest (bytes s) P" using as forest_subset [of "bytes s" "insert kpt P" P] by (auto simp: as_inv_def pt_good_def)
    ultimately show ?thesis by (intro agree_forest(2))
  qed
  have "counted m P (pages s1)"
    unfolding counted_def
  proof (intro allI impI)
    fix q assume q: "q \<noteq> CONSOLE_ADDR"
    show "card (mappers m P q) \<le> unat (refcount (pages s1 (page_number q)))"
    proof (cases "mappers m P q = {}")
      case False
      then have "q \<noteq> n" using avail_not_mapped [OF inv cf(4)] mp by auto
      moreover have "page_aligned q" using False user_map_aligned by (auto simp: mappers_def)
      ultimately have "pages s1 (page_number q) = pages s (page_number q)" by (intro same)
      then show ?thesis using inv q mp by (simp add: mem_inv_def counted_def)
    qed simp
  qed
  moreover have "tables_ok ke m P (pages s1)"
    unfolding tables_ok_def tb
  proof
    fix t assume t: "t \<in> tables (bytes s) P"
    then have tR: "t \<in> tables (bytes s) (insert kpt P)" using tables_mono [of P "insert kpt P" "bytes s"] by auto
    then have "t \<noteq> n" "page_aligned t" using as cf(4) tables_aligned by (auto simp: as_inv_def pt_good_def)
    then show "allocatable_physical_address ke t \<and> used (pages s1 (page_number t))"
      using same [of t] inv t by (simp add: mem_inv_def tables_ok_def)
  qed
  ultimately show "mem_inv ke kpt P (s1\<lparr>bytes := m\<rparr>)"
    using cf(1) inv by (simp add: mem_inv_def maps_ok_def single_def um)
  show "\<And>r. r \<in> insert kpt P \<Longrightarrow> agree_on (tables (bytes s) {r}) (bytes s) m"
  proof -
    fix r assume "r \<in> insert kpt P"
    then have "tables (bytes s) {r} \<subseteq> tables (bytes s) (insert kpt P)" by (intro tables_mono) simp
    then show "agree_on (tables (bytes s) {r}) (bytes s) m"
      using ag by (auto simp: agree_on_def)
  qed
qed

end
