(* ===== verification/Pfree.thy ===== *)
theory Pfree
  imports Mem_Inv
begin

text \<open>
  Freeing an address space: \<open>pfree\<close> of \<open>kernel.cc\<close>. It gives back every user page of the range and
  every page-table page; the result is that each count drops by exactly one, and that the invariant
  of memory management holds for the remaining address spaces.
\<close>

section \<open>The operation\<close>

lemma vmiter_down_va: "vmiter_down m it = Inr it' \<Longrightarrow> vm_va it' = vm_va it"
  by (auto simp: vmiter_down_def split: prod.splits if_splits)

lemma vm_plus_va: "vm_plus m it d = Inr it' \<Longrightarrow> vm_va it' = vm_va it + d"
  by (auto simp: vm_plus_def vm_find_def real_find_def Let_def dest!: vmiter_down_va split: if_splits pe_ptr.splits)

function pfree_user_loop :: "vmiter \<Rightarrow> kmem \<Rightarrow> fault + kmem" where
  "pfree_user_loop it s =
     (if vm_va it < MEMSIZE_VIRTUAL then
        bindE (if vm_user (bytes s) it \<and> vm_pa (bytes s) it \<noteq> CONSOLE_ADDR
               then kfree (vm_pa (bytes s) it) s else Inr s) (\<lambda>s'.
        bindE (vm_plus (bytes s') it PAGESIZE) (\<lambda>it'. pfree_user_loop it' s'))
      else Inr s)"
  by pat_completeness auto
termination
proof (relation "measure (\<lambda>(it, s). 2 ^ 22 - unat (vm_va it))", goal_cases)
  case 1
  then show ?case by simp
next
  case (2 it s s' it')
  then have "unat (vm_va it) < 0x300000" by (simp add: word_less_nat_alt)
  moreover from this have "unat (vm_va it + PAGESIZE) = unat (vm_va it) + 4096"
    by (subst unat_add_small) simp_all
  ultimately show ?case using vm_plus_va [OF 2(3)] by simp
qed

declare pfree_user_loop.simps [simp del]

partial_function (option) pfree_table_loop :: "ptiter \<Rightarrow> kmem \<Rightarrow> kmem comp" where
  "pfree_table_loop it s =
     (if pti_active it then
        bindIO (if pti_start_va it \<noteq> CONSOLE_ADDR then Some (kfree (pti_pa (bytes s) it) s) else retIO s) (\<lambda>s'.
        bindIO (pti_next (bytes s') it) (\<lambda>it'. pfree_table_loop it' s'))
      else retIO s)"

definition pfree :: "addr \<Rightarrow> kmem \<Rightarrow> kmem comp" where
  "pfree pt s =
     bindIO (Some (vmiter_init (bytes s) pt PROC_START_ADDR)) (\<lambda>it.
     bindIO (Some (pfree_user_loop it s)) (\<lambda>s1.
     bindIO (pti_init (bytes s1) pt 0) (\<lambda>it2.
     bindIO (pfree_table_loop it2 s1) (\<lambda>s2.
     Some (kfree pt s2)))))"

section \<open>Counts after a sequence of frees\<close>

definition dec_page :: "addr \<Rightarrow> (nat \<Rightarrow> pageinfo) \<Rightarrow> (nat \<Rightarrow> pageinfo)" where
  "dec_page p pgs =
     (if refcount (pgs (page_number p)) > 0
      then pgs(page_number p := (pgs (page_number p))\<lparr>refcount := refcount (pgs (page_number p)) - 1\<rparr>) else pgs)"

definition freeable :: "addr \<Rightarrow> bool" where
  "freeable p \<longleftrightarrow> p \<noteq> 0 \<and> p < MEMSIZE_PHYSICAL \<and> page_aligned p"

lemma kfree_dec: "freeable p \<Longrightarrow> kfree p s = Inr (s\<lparr>pages := dec_page p (pages s)\<rparr>)"
  using page_number_less [of p] by (simp add: kfree_def dec_page_def freeable_def Let_def)

lemma fold_dec_count:
  "unat (refcount (fold dec_page ps pgs n)) =
     unat (refcount (pgs n)) - length (filter (\<lambda>p. page_number p = n) ps)"
proof (induction ps arbitrary: pgs)
  case (Cons p ps)
  have "unat (refcount (dec_page p pgs n)) = unat (refcount (pgs n)) - (if page_number p = n then 1 else 0)"
    by (auto simp: dec_page_def unat_sub word_less_nat_alt word_le_nat_alt)
  then show ?case using Cons [of "dec_page p pgs"] by simp
qed simp

lemma fold_dec_other:
  "n \<notin> page_number ` set ps \<Longrightarrow> fold dec_page ps pgs n = pgs n"
  by (induction ps arbitrary: pgs) (auto simp: dec_page_def)

lemma fold_dec_distinct:
  assumes "\<forall>p \<in> set ps. page_aligned p" "distinct ps" "page_aligned q"
  shows "unat (refcount (fold dec_page ps pgs (page_number q))) =
     unat (refcount (pgs (page_number q))) - (if q \<in> set ps then 1 else 0)"
proof -
  have "length (filter (\<lambda>p. page_number p = page_number q) ps) = (if q \<in> set ps then 1 else 0)"
    using assms(1,2)
  proof (induction ps)
    case (Cons p ps)
    then show ?case using page_number_inj [of p q] assms(3) by auto
  qed simp
  then show ?thesis by (simp add: fold_dec_count)
qed

lemma fold_dec_same:
  assumes "\<forall>p \<in> set ps. page_aligned p" "page_aligned q" "q \<notin> set ps"
  shows "fold dec_page ps pgs (page_number q) = pgs (page_number q)"
  using assms page_number_inj by (intro fold_dec_other) fastforce

section \<open>The loops\<close>

definition uva :: "nat \<Rightarrow> u64" where
  "uva k = PROC_START_ADDR + of_nat k * PAGESIZE"

definition user_page :: "mem \<Rightarrow> addr \<Rightarrow> u64 \<Rightarrow> addr list" where
  "user_page m r va =
     (case translate m r va of
        Some (pa, perm) \<Rightarrow> if is_user perm \<and> pa \<noteq> CONSOLE_ADDR then [pa] else []
      | None \<Rightarrow> [])"

definition user_pages :: "mem \<Rightarrow> addr \<Rightarrow> nat \<Rightarrow> addr list" where
  "user_pages m r k = concat (map (\<lambda>i. user_page m r (uva i)) [k..<512])"

lemma unat_uva: "k \<le> 512 \<Longrightarrow> unat (uva k) = 0x100000 + k * 4096"
proof -
  assume "k \<le> 512"
  then have "unat (of_nat k * PAGESIZE :: u64) = k * 4096"
    by (simp add: unat_word_ariths unat_of_nat_small)
  then show ?thesis unfolding uva_def using \<open>k \<le> 512\<close> by (subst unat_add_small) simp_all
qed

lemma uva_facts:
  assumes "k < 512"
  shows "uva k < MEMSIZE_VIRTUAL" "va_is_canonical (uva k)" "uva k + PAGESIZE = uva (Suc k)" "page_aligned (uva k)"
    "user_va (uva k)"
proof -
  show 1: "uva k < MEMSIZE_VIRTUAL" "page_aligned (uva k)"
    using assms unat_uva [of k] by (simp_all add: word_less_nat_alt page_aligned_iff)
  show "va_is_canonical (uva k)" by (rule user_page_canonical [OF 1(1)])
  show "uva k + PAGESIZE = uva (Suc k)" by (simp add: uva_def algebra_simps)
  show "user_va (uva k)" using assms unat_uva [of k] by (simp add: user_va_def word_less_nat_alt word_le_nat_alt)
qed

lemma vm_user_fresh: "vm_user m (fresh_iter m r va) \<longleftrightarrow> (\<exists>pa perm. translate m r va = Some (pa, perm) \<and> is_user perm)"
  using vm_has_perm_fresh [of 5 m r va] by (simp add: vm_user_def is_user_def)

lemma vm_plus_fresh:
  assumes "ptree_ok m r" "page_aligned r" "va_is_canonical (va + d)"
  shows "vm_plus m (fresh_iter m r va) d = Inr (fresh_iter m r (va + d))"
  using real_find_fresh [OF assms(2)] ptree_ok_iter(1) [OF assms(1,3)]
  by (simp add: vm_plus_def vm_find_def vmiter_init_fresh)

lemma small_canonical: "unat va < 2 ^ 47 \<Longrightarrow> va_is_canonical va"
  by (simp add: va_is_canonical_def word_le_nat_alt)

lemma user_pages_step:
  "k < 512 \<Longrightarrow> user_pages m r k = user_page m r (uva k) @ user_pages m r (Suc k)"
  by (simp add: user_pages_def upt_conv_Cons)

lemma pfree_user_loop_run:
  assumes ok: "ptree_ok (bytes s) r" "page_aligned r"
    and fr: "\<forall>p \<in> set (user_pages (bytes s) r k). freeable p" and k: "k \<le> 512"
  shows "pfree_user_loop (fresh_iter (bytes s) r (uva k)) s =
    Inr (s\<lparr>pages := fold dec_page (user_pages (bytes s) r k) (pages s)\<rparr>)"
  using assms
proof (induction "512 - k" arbitrary: k s)
  case 0
  then have "\<not> uva k < MEMSIZE_VIRTUAL" using unat_uva [of k] by (simp add: word_less_nat_alt)
  then show ?case using 0 by (subst pfree_user_loop.simps) (simp add: user_pages_def)
next
  case (Suc x)
  then have k: "k < 512" by simp
  note uf = uva_facts [OF k]
  define up where "up = user_page (bytes s) r (uva k)"
  define s' where "s' = s\<lparr>pages := fold dec_page up (pages s)\<rparr>"
  have body: "(if vm_user (bytes s) (fresh_iter (bytes s) r (uva k))
        \<and> vm_pa (bytes s) (fresh_iter (bytes s) r (uva k)) \<noteq> CONSOLE_ADDR
       then kfree (vm_pa (bytes s) (fresh_iter (bytes s) r (uva k))) s else Inr s) = Inr s'"
    using Suc.prems(3) user_pages_step [OF k]
    by (auto simp: vm_user_fresh vm_pa_fresh s'_def up_def user_page_def kfree_dec split: option.splits)
  have "va_is_canonical (uva k + PAGESIZE)"
    using k unat_uva [of "Suc k"] by (simp only: uf(3)) (rule small_canonical, simp)
  then have nx: "vm_plus (bytes s') (fresh_iter (bytes s) r (uva k)) PAGESIZE = Inr (fresh_iter (bytes s') r (uva (Suc k)))"
    using vm_plus_fresh [OF Suc.prems(1,2)] uf(3) by (simp add: s'_def)
  have "pfree_user_loop (fresh_iter (bytes s) r (uva k)) s = pfree_user_loop (fresh_iter (bytes s') r (uva (Suc k))) s'"
    using uf(1) body nx by (subst pfree_user_loop.simps) simp
  also have "\<dots> = Inr (s'\<lparr>pages := fold dec_page (user_pages (bytes s') r (Suc k)) (pages s')\<rparr>)"
    using Suc.prems Suc.hyps(2) k user_pages_step [OF k] by (intro Suc.hyps(1)) (auto simp: s'_def)
  finally show ?case using user_pages_step [OF k] by (simp add: s'_def up_def)
qed

lemma pti_list_Cons:
  assumes "pti_list m it = retIO (x # xs)"
  shows "pti_active it" "x = it" "\<exists>it'. pti_next m it = retIO it' \<and> pti_list m it' = retIO xs"
proof -
  show act: "pti_active it"
    using assms by (subst (asm) pti_list.simps) (auto split: if_splits)
  have b: "bindIO (pti_next m it) (\<lambda>it'. bindIO (pti_list m it') (\<lambda>its. retIO (it # its))) = retIO (x # xs)"
    using assms act by (subst (asm) pti_list.simps) simp
  then obtain it' where it': "pti_next m it = retIO it'"
    by (cases "pti_next m it") (auto simp: bindIO_def split: sum.splits)
  with b have "bindIO (pti_list m it') (\<lambda>its. retIO (it # its)) = retIO (x # xs)" by simp
  then obtain its where "pti_list m it' = retIO its" "it # its = x # xs"
    by (cases "pti_list m it'") (auto simp: bindIO_def split: sum.splits)
  with it' show "x = it" "\<exists>it'. pti_next m it = retIO it' \<and> pti_list m it' = retIO xs" by auto
qed

lemma pti_list_Nil: "pti_list m it = retIO [] \<Longrightarrow> \<not> pti_active it"
  by (subst (asm) pti_list.simps) (auto simp: bindIO_def split: if_splits sum.splits option.splits bind_splits)

lemma pti_list_levels:
  "pti_list m it = retIO its \<Longrightarrow> 0 < pti_level it \<Longrightarrow> x \<in> set its \<Longrightarrow> 0 < pti_level x"
proof (induction its arbitrary: it)
  case (Cons y ys)
  note c = pti_list_Cons [OF Cons.prems(1)]
  then obtain it' where it': "pti_next m it = retIO it'" "pti_list m it' = retIO ys" by blast
  have "0 < pti_level it'" using it'(1) pti_down_level by (auto simp: pti_next_def pti_down_def)
  then show ?case using Cons it' c by auto
qed simp

lemma start_va_not_console: "0 < pti_level it \<Longrightarrow> pti_start_va it \<noteq> CONSOLE_ADDR"
proof
  assume "0 < pti_level it" "pti_start_va it = CONSOLE_ADDR"
  moreover have "bit (CONSOLE_ADDR :: u64) 15" by simp
  ultimately have "bit (pti_va it AND NOT (pageoffmask (pti_level it))) 15" unfolding pti_start_va_def by simp
  then show False using \<open>0 < pti_level it\<close> by (simp add: bit_and_iff bit_not_iff)
qed

lemma pfree_table_loop_run:
  assumes "pti_list (bytes s) it = retIO its" "0 < pti_level it"
    "\<forall>p \<in> set (map (pti_pa (bytes s)) its). freeable p"
  shows "pfree_table_loop it s = retIO (s\<lparr>pages := fold dec_page (map (pti_pa (bytes s)) its) (pages s)\<rparr>)"
  using assms
proof (induction its arbitrary: it s)
  case Nil
  then show ?case using pti_list_Nil by (subst pfree_table_loop.simps) simp
next
  case (Cons x xs)
  note c = pti_list_Cons [OF Cons.prems(1)]
  then obtain it' where it': "pti_next (bytes s) it = retIO it'" "pti_list (bytes s) it' = retIO xs" by blast
  define s' where "s' = s\<lparr>pages := dec_page (pti_pa (bytes s) it) (pages s)\<rparr>"
  have "0 < pti_level it'" using it'(1) pti_down_level by (auto simp: pti_next_def pti_down_def)
  then have "pfree_table_loop it' s' = retIO (s'\<lparr>pages := fold dec_page (map (pti_pa (bytes s')) xs) (pages s')\<rparr>)"
    using Cons.prems(3) it' by (intro Cons.IH) (auto simp: s'_def)
  moreover have "kfree (pti_pa (bytes s) it) s = Inr s'" using Cons.prems(3) c(2) by (simp add: kfree_dec s'_def)
  ultimately show ?case
    using c(1,2) it' start_va_not_console [OF Cons.prems(2)] by (subst pfree_table_loop.simps) (simp add: s'_def)
qed

section \<open>What pfree gives back\<close>

definition freed_pages :: "mem \<Rightarrow> addr \<Rightarrow> addr list" where
  "freed_pages m r = user_pages m r 0 @ post_order m 3 r @ [r]"

lemma allocatable_freeable: "allocatable_physical_address ke p \<Longrightarrow> page_aligned p \<Longrightarrow> freeable p"
  using allocatable_bounds [of ke p] by (auto simp: freeable_def)

lemma mem_invD:
  assumes "mem_inv ke kpt P s" "r \<in> P"
  shows "ptree_ok (bytes s) r" "page_aligned r" "maps_ok ke (bytes s) r" "single (bytes s) r"
    "forest (bytes s) {r}" "\<And>t. t \<in> tables (bytes s) {r} \<Longrightarrow> allocatable_physical_address ke t \<and> page_aligned t"
proof -
  have f: "forest (bytes s) (insert kpt P)" using assms by (auto simp: mem_inv_def as_inv_def pt_good_def)
  show "ptree_ok (bytes s) r" "maps_ok ke (bytes s) r" "single (bytes s) r"
    using assms by (auto simp: mem_inv_def as_inv_def)
  show "page_aligned r" using forest_aligned [OF f] assms(2) by simp
  show fr: "forest (bytes s) {r}" using forest_subset [OF f] assms(2) by simp
  fix t assume t: "t \<in> tables (bytes s) {r}"
  then have "t \<in> tables (bytes s) P" using tables_mono [of "{r}" P "bytes s"] assms(2) by auto
  then show "allocatable_physical_address ke t \<and> page_aligned t"
    using assms(1) tables_aligned [OF fr t] by (simp add: mem_inv_def tables_ok_def)
qed

lemma user_page_iff:
  assumes "ptree_ok m r" "page_aligned va"
  shows "p \<in> set (user_page m r va) \<longleftrightarrow> p \<noteq> CONSOLE_ADDR \<and> user_map m r va p False"
proof (cases "translate m r va")
  case None
  then show ?thesis by (simp add: user_page_def user_map_def)
next
  case (Some x)
  then obtain pa perm where t: "translate m r va = Some (pa, perm)" by (cases x) auto
  obtain q where q: "page_aligned q" "pa = q + (va AND PAGEOFFMASK)" using translate_page [OF assms(1) t] by blast
  then have "pa = q" using assms(2) by (simp add: page_aligned_def)
  then show ?thesis using t q(1) by (auto simp: user_page_def user_map_def page_base_aligned)
qed

lemma length_user_page: "length (user_page m r va) \<le> 1"
  by (auto simp: user_page_def split: option.splits)

lemma user_va_uva:
  assumes "user_va va"
  obtains k where "k < 512" "same_above 0 va (uva k)"
proof
  let ?k = "unat va div 4096 - 256"
  have b: "256 \<le> unat va div 4096" "unat va div 4096 < 768"
    using assms by (simp_all add: user_va_def word_le_nat_alt word_less_nat_alt less_eq_div_iff_mult_less_eq div_less_iff_less_mult)
  show k: "?k < 512" using b by simp
  have "unat (uva ?k) = 4096 * (unat va div 4096)"
    using unat_uva [of ?k] k b(1) by (simp add: diff_mult_distrib)
  then show "same_above 0 va (uva ?k)" by (simp add: same_above_div)
qed

lemma set_user_pages:
  assumes inv: "mem_inv ke kpt P s" "r \<in> P"
  shows "set (user_pages (bytes s) r 0) = {q. q \<noteq> CONSOLE_ADDR \<and> (\<exists>va. user_map (bytes s) r va q False)}"
proof (intro equalityI subsetI)
  note d = mem_invD [OF inv]
  fix q assume "q \<in> set (user_pages (bytes s) r 0)"
  then show "q \<in> {q. q \<noteq> CONSOLE_ADDR \<and> (\<exists>va. user_map (bytes s) r va q False)}"
    using user_page_iff [OF d(1)] uva_facts(4) by (auto simp: user_pages_def)
next
  note d = mem_invD [OF inv]
  fix q assume "q \<in> {q. q \<noteq> CONSOLE_ADDR \<and> (\<exists>va. user_map (bytes s) r va q False)}"
  then obtain va where q: "q \<noteq> CONSOLE_ADDR" "user_map (bytes s) r va q False" by blast
  then have "user_va va" using d(3) by (auto simp: maps_ok_def)
  then obtain k where k: "k < 512" "same_above 0 va (uva k)" by (rule user_va_uva)
  have "user_map (bytes s) r (uva k) q False" by (rule user_map_same [OF d(1) k(2) q(2)])
  then have "q \<in> set (user_page (bytes s) r (uva k))"
    using user_page_iff [OF d(1) uva_facts(4) [OF k(1)]] q(1) by simp
  then show "q \<in> set (user_pages (bytes s) r 0)" using k(1) by (auto simp: user_pages_def)
qed

lemma distinct_user_pages:
  assumes inv: "mem_inv ke kpt P s" "r \<in> P"
  shows "distinct (user_pages (bytes s) r 0)"
  unfolding user_pages_def
proof (rule distinct_concat_map)
  note d = mem_invD [OF inv]
  show "distinct (user_page (bytes s) r (uva i))" for i
    using length_user_page [of "bytes s" r "uva i"] by (cases "user_page (bytes s) r (uva i)") auto
  fix i j :: nat assume ij: "i < 512" "j < 512" "i \<noteq> j"
  have "\<not> same_above 0 (uva i) (uva j)" using unat_uva [of i] unat_uva [of j] ij by (simp add: same_above_div)
  then show "set (user_page (bytes s) r (uva i)) \<inter> set (user_page (bytes s) r (uva j)) = {}"
    using user_page_iff [OF d(1) uva_facts(4) [OF ij(1)]] user_page_iff [OF d(1) uva_facts(4) [OF ij(2)]] d(4)
    unfolding single_def by blast
qed

lemma set_freed_pages:
  assumes inv: "mem_inv ke kpt P s" "r \<in> P"
  shows "set (freed_pages (bytes s) r) =
      {q. q \<noteq> CONSOLE_ADDR \<and> (\<exists>va. user_map (bytes s) r va q False)} \<union> tables (bytes s) {r}"
    and "distinct (freed_pages (bytes s) r)"
    and "\<forall>p \<in> set (freed_pages (bytes s) r). freeable p"
proof -
  note d = mem_invD [OF inv]
  note po = post_order_tables [OF d(5)]
  show st: "set (freed_pages (bytes s) r) =
      {q. q \<noteq> CONSOLE_ADDR \<and> (\<exists>va. user_map (bytes s) r va q False)} \<union> tables (bytes s) {r}"
    using po(1) set_user_pages [OF inv] root_in_tables [of r "{r}" "bytes s"] by (auto simp: freed_pages_def)
  have "q \<notin> tables (bytes s) {r}" if "user_map (bytes s) r va q False" for va q
    using inv that tables_mono [of "{r}" "insert kpt P" "bytes s"]
    unfolding mem_inv_def as_inv_def frames_ok_def by blast
  then show "distinct (freed_pages (bytes s) r)"
    using po distinct_user_pages [OF inv] set_user_pages [OF inv] root_in_tables [of r "{r}" "bytes s"]
    by (auto simp: freed_pages_def)
  show "\<forall>p \<in> set (freed_pages (bytes s) r). freeable p"
  proof
    fix p assume "p \<in> set (freed_pages (bytes s) r)"
    then consider "p \<noteq> CONSOLE_ADDR" "\<exists>va. user_map (bytes s) r va p False" | "p \<in> tables (bytes s) {r}"
      unfolding st by blast
    then show "freeable p"
    proof cases
      case 1
      then show ?thesis using d(3) user_map_aligned allocatable_freeable unfolding maps_ok_def by blast
    next
      case 2
      then show ?thesis using d(6) allocatable_freeable by blast
    qed
  qed
qed

lemma pfree_run:
  assumes inv: "mem_inv ke kpt P s" "r \<in> P"
  shows "pfree r s = retIO (s\<lparr>pages := fold dec_page (freed_pages (bytes s) r) (pages s)\<rparr>)"
proof -
  note d = mem_invD [OF inv] and fp = set_freed_pages(3) [OF inv]
  define s1 where "s1 = s\<lparr>pages := fold dec_page (user_pages (bytes s) r 0) (pages s)\<rparr>"
  define s2 where "s2 = s1\<lparr>pages := fold dec_page (post_order (bytes s) 3 r) (pages s1)\<rparr>"
  have u0: "uva 0 = PROC_START_ADDR" by (simp add: uva_def)
  have vi: "vmiter_init (bytes s) r PROC_START_ADDR = Inr (fresh_iter (bytes s) r (uva 0))"
    using ptree_ok_iter(1) [OF d(1), of "uva 0"] uva_facts(2) [of 0] u0 by simp
  have ul: "pfree_user_loop (fresh_iter (bytes s) r (uva 0)) s = Inr s1"
    using pfree_user_loop_run [OF d(1,2), of 0] fp by (simp add: s1_def freed_pages_def)
  obtain it its where it: "pti_init (bytes s) r 0 = retIO it" "pti_list (bytes s) it = retIO its"
      "map (pti_pa (bytes s)) its = post_order (bytes s) 3 r"
    using pti_list_post_order [of "bytes s" r]
    by (cases "pti_init (bytes s) r 0") (auto simp: bindIO_def split: sum.splits option.splits bind_splits)
  have "0 < pti_level it" using it(1) pti_down_level by (auto simp: pti_init_def pti_go_def pti_down_def)
  then have tl: "pfree_table_loop it s1 = retIO s2"
    using pfree_table_loop_run [of s1 it its] it fp by (simp add: s1_def s2_def freed_pages_def)
  have "kfree r s2 = Inr (s2\<lparr>pages := dec_page r (pages s2)\<rparr>)"
    using fp by (intro kfree_dec) (simp add: freed_pages_def)
  then show ?thesis
    using vi ul it(1) tl by (simp add: pfree_def s1_def s2_def freed_pages_def)
qed

text \<open>
  Freeing the address space \<open>r\<close> leaves the invariant for the others: their pages are still counted,
  since \<open>r\<close> gave back one reference to each page it mapped.
\<close>

lemma pfree_drop:
  assumes inv: "mem_inv ke kpt (insert r P) s" and r: "r \<notin> P"
  obtains s' where "pfree r s = retIO s'" "mem_inv ke kpt P s'" "bytes s' = bytes s"
    "\<And>q. page_aligned q \<Longrightarrow> q \<notin> set (freed_pages (bytes s) r) \<Longrightarrow> pages s' (page_number q) = pages s (page_number q)"
    "avail ke s \<subseteq> avail ke s'"
proof -
  let ?R = "insert kpt (insert r P)" and ?m = "bytes s" and ?F = "set (freed_pages (bytes s) r)"
  let ?s' = "s\<lparr>pages := fold dec_page (freed_pages (bytes s) r) (pages s)\<rparr>"
  note fp = set_freed_pages [OF inv, of r, simplified]
  have as: "as_inv (avail ke) kpt (insert r P) s" and fin: "finite P"
    and cn: "counted ?m (insert r P) (pages s)" and tk: "tables_ok ke ?m (insert r P) (pages s)"
    using inv by (auto simp: mem_inv_def)
  have f: "forest ?m ?R" and ta: "tables ?m ?R \<inter> avail ke s = {}" using as by (auto simp: as_inv_def pt_good_def)
  have al: "\<forall>p \<in> ?F. page_aligned p" using fp(3) by (simp add: freeable_def)
  have same: "pages ?s' (page_number q) = pages s (page_number q)" if "page_aligned q" "q \<notin> ?F" for q
    using fold_dec_same [OF al that] by simp
  have cnt: "unat (refcount (pages ?s' (page_number q))) =
      unat (refcount (pages s (page_number q))) - (if q \<in> ?F then 1 else 0)" if "page_aligned q" for q
    using fold_dec_distinct [OF al fp(2) that] by simp
  have other: "t \<notin> ?F" if t: "t \<in> tables ?m {r'}" "r' \<in> insert kpt P" for t r'
  proof -
    have "r' \<noteq> r" using that(2) r as by (auto simp: as_inv_def)
    then have "t \<notin> tables ?m {r}" using tables_disjoint [OF f, of r' r] that by auto
    moreover have "t \<in> tables ?m ?R" using tables_mono [of "{r'}" ?R ?m] that by auto
    then have "\<not> user_map ?m r va t False" for va using as unfolding as_inv_def frames_ok_def by blast
    ultimately show ?thesis unfolding fp(1) by blast
  qed
  have mp: "mappers ?m (insert r P) q = (if \<exists>va. user_map ?m r va q False then insert r (mappers ?m P q) else mappers ?m P q)" for q
    by (auto simp: mappers_def)
  have cov: "card (mappers ?m P q) \<le> unat (refcount (pages ?s' (page_number q)))" if q: "q \<noteq> CONSOLE_ADDR" for q
  proof (cases "mappers ?m P q = {}")
    case False
    then obtain r' va where r': "r' \<in> P" "user_map ?m r' va q False" by (auto simp: mappers_def)
    have aq: "page_aligned q" by (rule user_map_aligned [OF r'(2)])
    have nt: "q \<notin> tables ?m {r}"
      using as r' tables_mono [of "{r}" ?R ?m] unfolding as_inv_def frames_ok_def by blast
    have c: "card (mappers ?m (insert r P) q) \<le> unat (refcount (pages s (page_number q)))"
      using cn q by (simp add: counted_def)
    have "finite (mappers ?m P q)" "r \<notin> mappers ?m P q" using fin r by (auto simp: mappers_def)
    then have s: "card (insert r (mappers ?m P q)) = Suc (card (mappers ?m P q))" by simp
    show ?thesis
    proof (cases "\<exists>va. user_map ?m r va q False")
      case True
      then have "Suc (card (mappers ?m P q)) \<le> unat (refcount (pages s (page_number q)))" using c s mp by simp
      then show ?thesis using cnt [OF aq] by (auto split: if_splits)
    next
      case False
      then have "q \<notin> ?F" using nt unfolding fp(1) by blast
      then show ?thesis using c cnt [OF aq] False mp by simp
    qed
  qed simp
  have tabs: "pages ?s' (page_number t) = pages s (page_number t)" if t: "t \<in> tables ?m (insert kpt P)" for t
  proof -
    obtain r' where r': "r' \<in> insert kpt P" "t \<in> tables ?m {r'}"
      using t by (auto simp: tables_def)
    have "page_aligned t" using tables_aligned [OF f] tables_mono [of "insert kpt P" ?R ?m] t by auto
    then show ?thesis using same other [OF r'(2,1)] by blast
  qed
  have "frames_ok (avail ke) ?s' P (insert kpt P)"
    unfolding frames_ok_def
  proof (intro ballI allI impI)
    fix r' va q assume r': "r' \<in> P" and "user_map (bytes ?s') r' va q False"
    then have um: "user_map ?m r' va q False" by simp
    have "q \<notin> tables ?m ?R" using as r' um unfolding as_inv_def frames_ok_def by blast
    then have "q \<notin> tables (bytes ?s') (insert kpt P)" using tables_mono [of "insert kpt P" ?R ?m] by auto
    moreover have "q \<notin> avail ke ?s'"
    proof (cases "q = CONSOLE_ADDR")
      case True
      then show ?thesis using allocatable_not_console by (auto simp: avail_def)
    next
      case False
      have "finite (mappers ?m P q)" "r' \<in> mappers ?m P q" using fin r' um by (auto simp: mappers_def)
      then have "0 < card (mappers ?m P q)" by (auto simp: card_gt_0_iff)
      then have "0 < unat (refcount (pages ?s' (page_number q)))" using cov [OF False] by linarith
      then show ?thesis by (auto simp: avail_def used_def)
    qed
    ultimately show "q \<notin> avail ke ?s' \<and> q \<notin> tables (bytes ?s') (insert kpt P)" by blast
  qed
  moreover have "pt_good (avail ke) ?s' (insert kpt P)"
  proof -
    have "t \<notin> avail ke ?s'" if "t \<in> tables ?m (insert kpt P)" for t
      using ta that tabs [OF that] tables_mono [of "insert kpt P" ?R ?m] by (auto simp: avail_def)
    then show ?thesis using forest_subset [OF f, of "insert kpt P"] by (auto simp: pt_good_def)
  qed
  ultimately have "as_inv (avail ke) kpt P ?s'"
    using as by (auto simp: as_inv_def exclusive_def)
  moreover have "tables_ok ke ?m P (pages ?s')"
    unfolding tables_ok_def
  proof
    fix t assume t: "t \<in> tables ?m P"
    then have "t \<in> tables ?m (insert kpt P)" "t \<in> tables ?m (insert r P)"
      using tables_mono [of P "insert kpt P" ?m] tables_mono [of P "insert r P" ?m] by auto
    then show "allocatable_physical_address ke t \<and> used (pages ?s' (page_number t))"
      using tk tabs by (auto simp: tables_ok_def)
  qed
  ultimately have "mem_inv ke kpt P ?s'"
    using inv cov fin by (simp add: mem_inv_def counted_def)
  moreover have "avail ke s \<subseteq> avail ke ?s'"
    using cnt by (auto simp: avail_def used_def unat_eq_0 [symmetric])
  ultimately show thesis using that pfree_run [OF inv, of r] same by simp
qed

end
