(* ===== verification/Kept.thy ===== *)
theory Kept
  imports Pfree
begin

text \<open>
  Pages that the kernel keeps for itself: in use, but neither a page table of a process nor mapped for
  users. The pages of the kernel's own page table are of this kind, and the page of the memory viewer.
  No operation on address spaces changes their contents or their reference counts.
\<close>

definition owned :: "addr \<Rightarrow> addr set \<Rightarrow> kmem \<Rightarrow> addr \<Rightarrow> bool" where
  "owned ke P s z \<longleftrightarrow>
     page_aligned z \<and> z \<notin> avail ke s \<and> z \<notin> tables (bytes s) P \<and> mappers (bytes s) P z = {}"

definition kept :: "addr \<Rightarrow> addr \<Rightarrow> addr set \<Rightarrow> kmem \<Rightarrow> addr set \<Rightarrow> kmem \<Rightarrow> bool" where
  "kept ke z P s P' s' \<longleftrightarrow>
     (owned ke P s z \<longrightarrow> owned ke P' s' z \<and> pages s' (page_number z) = pages s (page_number z)
        \<and> (\<forall>a. page_base a = z \<longrightarrow> bytes s' a = bytes s a))"

lemma kept_refl: "kept ke z P s P s"
  by (simp add: kept_def)

lemma kept_trans: "kept ke z P s P' s' \<Longrightarrow> kept ke z P' s' P'' s'' \<Longrightarrow> kept ke z P s P'' s''"
  by (simp add: kept_def)

lemma avail_same: "pages s' (page_number z) = pages s (page_number z) \<Longrightarrow> z \<in> avail ke s' \<longleftrightarrow> z \<in> avail ke s"
  by (simp add: avail_def)

text \<open>The kernel's page table is kept.\<close>

lemma kpt_owned:
  assumes as: "as_inv (avail ke) kpt P s" and t: "t \<in> tables (bytes s) {kpt}"
  shows "owned ke P s t"
proof -
  have f: "forest (bytes s) (insert kpt P)" "tables (bytes s) (insert kpt P) \<inter> avail ke s = {}" "kpt \<notin> P"
    using as by (auto simp: as_inv_def pt_good_def)
  have tR: "t \<in> tables (bytes s) (insert kpt P)" using t tables_mono [of "{kpt}" "insert kpt P" "bytes s"] by auto
  have "t \<notin> tables (bytes s) P"
  proof
    assume "t \<in> tables (bytes s) P"
    then obtain r where r: "r \<in> P" "t \<in> tables (bytes s) {r}" by (auto simp: tables_def)
    then have "kpt \<noteq> r" using f(3) by auto
    then show False using tables_disjoint [OF f(1), of kpt r] r t by auto
  qed
  moreover have "mappers (bytes s) P t = {}" using as tR by (auto simp: mappers_def as_inv_def frames_ok_def)
  ultimately show ?thesis using tR f tables_aligned [OF f(1) tR] by (auto simp: owned_def)
qed

lemma kept_kpt:
  assumes as: "as_inv (avail ke) kpt P s" and k: "\<And>z. kept ke z P s P' s'"
  shows "agree_on (tables (bytes s) {kpt}) (bytes s) (bytes s')" "translate (bytes s') kpt va = translate (bytes s) kpt va"
proof -
  show ag: "agree_on (tables (bytes s) {kpt}) (bytes s) (bytes s')"
    unfolding agree_on_def using kpt_owned [OF as] k unfolding kept_def by blast
  have "forest (bytes s) {kpt}" using as forest_subset [of "bytes s" "insert kpt P" "{kpt}"] by (auto simp: as_inv_def pt_good_def)
  then show "translate (bytes s') kpt va = translate (bytes s) kpt va" by (rule agree_translate [OF _ ag]) simp
qed

section \<open>Operations\<close>

lemma kept_claim:
  assumes inv: "mem_inv ke kpt P s" and al: "kalloc ke PAGESIZE s = (n, s1)" "n \<noteq> 0"
    and m: "\<And>a. page_base a \<noteq> n \<Longrightarrow> m a = bytes s a"
  shows "kept ke z P s P (s1\<lparr>bytes := m\<rparr>)"
  unfolding kept_def
proof (intro impI)
  assume z: "owned ke P s z"
  have as: "as_inv (avail ke) kpt P s" using inv by (simp add: mem_inv_def)
  note cf = ka.claim_frame [OF as al m] and as' = ka.alloc_some [OF al]
  have zn: "z \<noteq> n" using z cf(4) by (auto simp: owned_def)
  have pg: "pages s1 (page_number z) = pages s (page_number z)"
    using as' zn z page_number_inj [of z n] avail_aligned [OF cf(4)] by (auto simp: owned_def)
  have "tables m P = tables (bytes s) P"
  proof -
    have "agree_on (tables (bytes s) P) (bytes s) m"
      unfolding agree_on_def
    proof (intro allI impI)
      fix a assume a: "page_base a \<in> tables (bytes s) P"
      then obtain r where r: "r \<in> P" "page_base a \<in> tables (bytes s) {r}" by (auto simp: tables_def)
      then show "m a = bytes s a" using claim_step(2) [OF inv al m, of r] by (simp add: agree_on_def)
    qed
    moreover have "forest (bytes s) P" using as forest_subset [of "bytes s" "insert kpt P" P] by (auto simp: as_inv_def pt_good_def)
    ultimately show ?thesis by (intro agree_forest(2))
  qed
  moreover have "mappers m P z = mappers (bytes s) P z"
    using cf(2) user_map_cong [of m _ _ "bytes s"] by (auto simp: mappers_def)
  ultimately show "owned ke P (s1\<lparr>bytes := m\<rparr>) z \<and> pages (s1\<lparr>bytes := m\<rparr>) (page_number z) = pages s (page_number z)
      \<and> (\<forall>a. page_base a = z \<longrightarrow> bytes (s1\<lparr>bytes := m\<rparr>) a = bytes s a)"
    using z pg zn m avail_same [of "s1\<lparr>bytes := m\<rparr>" z s ke] by (auto simp: owned_def)
qed

lemma kept_frame:
  assumes inv: "mem_inv ke kpt P s" and r: "r \<in> P" and fr: "pt_frame (avail ke) {r} s s'"
    and um: "owned ke P s z \<Longrightarrow> mappers (bytes s') P z = {}"
  shows "kept ke z P s P s'"
  unfolding kept_def
proof (intro impI)
  assume z: "owned ke P s z"
  have as: "as_inv (avail ke) kpt P s" using inv by (simp add: mem_inv_def)
  have good: "pt_good (avail ke) s (insert kpt P)" using as by (simp add: as_inv_def)
  have zr: "z \<notin> tables (bytes s') {r}"
    using fr z tables_mono [of "{r}" P "bytes s"] r unfolding pt_frame_def owned_def by blast
  have "z \<notin> tables (bytes s') P"
  proof
    assume "z \<in> tables (bytes s') P"
    then obtain r' where r': "r' \<in> P" "z \<in> tables (bytes s') {r'}" by (auto simp: tables_def)
    then have ne: "r \<noteq> r'" using zr by auto
    have "agree_on (tables (bytes s) {r'}) (bytes s) (bytes s')"
      by (rule own_frame_others [OF good _ _ ne fr]) (use r r' in auto)
    moreover have "forest (bytes s) {r'}" using good r'(1) forest_subset by (auto simp: pt_good_def)
    ultimately have "tables (bytes s') {r'} = tables (bytes s) {r'}" by (rule agree_forest(2) [rotated])
    then show False using r' z tables_mono [of "{r'}" P "bytes s"] by (auto simp: owned_def)
  qed
  moreover have "pages s' (page_number z) = pages s (page_number z)" using fr z zr by (simp add: pt_frame_def owned_def)
  moreover have "\<forall>a. page_base a = z \<longrightarrow> bytes s' a = bytes s a" using fr zr unfolding pt_frame_def by metis
  ultimately show "owned ke P s' z \<and> pages s' (page_number z) = pages s (page_number z)
      \<and> (\<forall>a. page_base a = z \<longrightarrow> bytes s' a = bytes s a)"
    using z um [OF z] avail_same [of s' z s ke] by (auto simp: owned_def)
qed

lemma kept_mapped:
  assumes inv: "mem_inv ke kpt P s" and r: "r \<in> P" and fa: "frame_args pa perm"
    and fm: "frame_mapped ke kpt P r va pa (scast perm) s s'" and z: "is_user (scast perm) \<Longrightarrow> z \<noteq> pa"
  shows "kept ke z P s P s'"
proof (rule kept_frame [OF inv r])
  show "pt_frame (avail ke) {r} s s'" using fm by (simp add: frame_mapped_def)
  assume o: "owned ke P s z"
  have map: "mapped (insert kpt P) r va pa (scast perm) (bytes s) (bytes s')" using fm by (simp add: frame_mapped_def)
  have "\<not> user_map (bytes s') r' va' z False" if "r' \<in> P" for r' va'
    using frame_user_map [OF fa map, of r' va' z False] that z o by (auto simp: owned_def mappers_def)
  then show "mappers (bytes s') P z = {}" by (auto simp: mappers_def)
qed

lemma kept_same:
  assumes inv: "mem_inv ke kpt P s" and r: "r \<in> P" and fr: "pt_frame (avail ke) {r} s s'"
    and tr: "\<And>r' va'. r' \<in> insert kpt P \<Longrightarrow> translate (bytes s') r' va' = translate (bytes s) r' va'"
  shows "kept ke z P s P s'"
proof (rule kept_frame [OF inv r fr])
  assume o: "owned ke P s z"
  have "user_map (bytes s') r' va' z False = user_map (bytes s) r' va' z False" if "r' \<in> P" for r' va'
    using tr that by (intro user_map_cong) simp
  then show "mappers (bytes s') P z = {}" using o by (auto simp: mappers_def owned_def)
qed

lemma kept_pages:
  assumes "owned ke P s z \<Longrightarrow> pgs (page_number z) = pages s (page_number z)"
  shows "kept ke z P s P (s\<lparr>pages := pgs\<rparr>)"
  using assms avail_same [of "s\<lparr>pages := pgs\<rparr>" z s ke] by (auto simp: kept_def owned_def)

lemma kept_pfree:
  assumes inv: "mem_inv ke kpt (insert c P) s" and b: "bytes s' = bytes s"
    and pg: "\<And>q. page_aligned q \<Longrightarrow> q \<notin> set (freed_pages (bytes s) c) \<Longrightarrow> pages s' (page_number q) = pages s (page_number q)"
  shows "kept ke z (insert c P) s P s'"
  unfolding kept_def
proof (intro impI)
  assume z: "owned ke (insert c P) s z"
  have "z \<notin> set (freed_pages (bytes s) c)"
    unfolding set_freed_pages(1) [OF inv insertI1]
    using z tables_mono [of "{c}" "insert c P" "bytes s"] by (auto simp: owned_def mappers_def)
  then have "pages s' (page_number z) = pages s (page_number z)" using pg z by (simp add: owned_def)
  moreover have "z \<notin> tables (bytes s) P" using z tables_mono [of P "insert c P" "bytes s"] by (auto simp: owned_def)
  moreover have "mappers (bytes s) P z = {}" using z by (auto simp: owned_def mappers_def)
  ultimately show "owned ke P s' z \<and> pages s' (page_number z) = pages s (page_number z)
      \<and> (\<forall>a. page_base a = z \<longrightarrow> bytes s' a = bytes s a)"
    using z b avail_same [of s' z s ke] by (auto simp: owned_def)
qed

end
