(* ===== verification/Fork.thy ===== *)
theory Fork
  imports Kept
begin

text \<open>
  \<open>syscall_fork\<close> and \<open>syscall_exit\<close> of \<open>kernel.cc\<close>. Fork gives the child a copy of every user page that
  the parent can write, shares the others and counts the new references; when memory runs out it
  takes everything back. The results are that the child's address space reads like the parent's, that
  no other address space changes, and that the memory invariant is kept on every path.
\<close>

section \<open>The operations\<close>

definition inc_page :: "addr \<Rightarrow> kmem \<Rightarrow> fault + kmem" where
  "inc_page pa s =
     (let i = page_number pa in
      if i \<ge> NPAGES then Inl Out_of_bounds
      else Inr (s\<lparr>pages := (pages s)(i := (pages s i)\<lparr>refcount := refcount (pages s i) + 1\<rparr>)\<rparr>))"

text \<open>\<open>vmiter(child_pt).find(va).try_map(pa, perm)\<close>.\<close>

definition child_map :: "addr \<Rightarrow> addr \<Rightarrow> u64 \<Rightarrow> u64 \<Rightarrow> u64 \<Rightarrow> kmem \<Rightarrow> fault + (int \<times> kmem)" where
  "child_map ke child va pa perm s =
     bindE (vmiter_init (bytes s) child 0) (\<lambda>c0.
     bindE (vm_find (bytes s) c0 va) (\<lambda>c.
     bindE (try_map (kalloc ke PAGESIZE) c pa (ucast perm) s) (\<lambda>(r, c', s'). Inr (r, s'))))"

text \<open>The body of the loop over the parent's address space: 0 to go on, -1 when the fork has failed.\<close>

definition fork_page :: "addr \<Rightarrow> addr \<Rightarrow> vmiter \<Rightarrow> kmem \<Rightarrow> (int \<times> kmem) comp" where
  "fork_page ke child it s =
     (if vm_user (bytes s) it \<and> vm_va it \<noteq> CONSOLE_ADDR \<and> vm_writable (bytes s) it then
        case kalloc ke PAGESIZE s of (pa, s1) \<Rightarrow>
        if pa = 0 then bindIO (pfree child s1) (\<lambda>s2. retIO (- 1, s2))
        else
          let s2 = s1\<lparr>bytes := memcpy (bytes s1) pa (vm_pa (bytes s1) it) PAGESIZE\<rparr> in
          bindIO (Some (child_map ke child (vm_va it) pa (vm_perms (bytes s2) it) s2)) (\<lambda>(r, s3).
          if r < 0 then
            bindIO (pfree child s3) (\<lambda>s4. bindIO (Some (kfree pa s4)) (\<lambda>s5. retIO (- 1, s5)))
          else retIO (0, s3))
      else
        bindIO (Some (child_map ke child (vm_va it) (vm_pa (bytes s) it) (vm_perms (bytes s) it) s)) (\<lambda>(r, s1).
        if r < 0 then bindIO (pfree child s1) (\<lambda>s2. retIO (- 1, s2))
        else if vm_user (bytes s1) it \<and> \<not> vm_writable (bytes s1) it
        then bindIO (Some (inc_page (vm_pa (bytes s1) it) s1)) (\<lambda>s2. retIO (0, s2))
        else retIO (0, s1)))"

function fork_loop :: "addr \<Rightarrow> addr \<Rightarrow> vmiter \<Rightarrow> kmem \<Rightarrow> (int \<times> kmem) comp" where
  "fork_loop ke child it s =
     (if vm_va it < MEMSIZE_VIRTUAL then
        bindIO (fork_page ke child it s) (\<lambda>(r, s1).
        if r < 0 then retIO (- 1, s1)
        else bindIO (Some (vm_plus (bytes s1) it PAGESIZE)) (\<lambda>it'. fork_loop ke child it' s1))
      else retIO (0, s))"
  by pat_completeness auto
termination
proof (relation "measure (\<lambda>(ke, child, it, s). 2 ^ 22 - unat (vm_va it))", goal_cases)
  case 1
  then show ?case by simp
next
  case (2 ke child it s x r s1 it')
  then have "unat (vm_va it) < 0x300000" by (simp add: word_less_nat_alt)
  moreover from this have "unat (vm_va it + PAGESIZE) = unat (vm_va it) + 4096"
    by (subst unat_add_small) simp_all
  moreover have "vm_va it' = vm_va it + PAGESIZE" using 2 by (auto dest: vm_plus_va)
  ultimately show ?case by simp
qed

declare fork_loop.simps [simp del]

function find_free :: "(nat \<Rightarrow> proc) \<Rightarrow> nat \<Rightarrow> nat" where
  "find_free pt i = (if i < NPROC \<and> state (pt i) \<noteq> P_FREE then find_free pt (i + 1) else i)"
  by pat_completeness auto
termination by (relation "measure (\<lambda>(pt, i). NPROC - i)") auto

declare find_free.simps [simp del]

definition syscall_fork :: "addr \<Rightarrow> kernel \<Rightarrow> (int \<times> kernel) comp" where
  "syscall_fork ke k =
     (let child_pid = find_free (ptable k) 1 in
      if child_pid = NPROC then retIO (- 1, k)
      else case kalloc ke PAGESIZE (phys k) of (child_pt, s1) \<Rightarrow>
        if child_pt = 0 then retIO (- 1, k\<lparr>phys := s1\<rparr>)
        else
          let k1 = k\<lparr>phys := s1\<lparr>bytes := memset (bytes s1) child_pt 0 PAGESIZE\<rparr>,
                     ptable := (ptable k)(child_pid := (ptable k child_pid)\<lparr>pagetable := child_pt\<rparr>)\<rparr> in
          bindIO (Some (vmiter_init (bytes (phys k1)) (pagetable (ptable k1 (current k1))) 0)) (\<lambda>it.
          bindIO (fork_loop ke child_pt it (phys k1)) (\<lambda>(r, s2).
          if r < 0 then retIO (- 1, k1\<lparr>phys := s2\<rparr>)
          else
            let cur = ptable k1 (current k1);
                child = (ptable k1 child_pid)\<lparr>pid := int child_pid, regs := (regs cur)\<lparr>reg_rax := 0\<rparr>, state := state cur\<rparr>
            in retIO (int child_pid, k1\<lparr>phys := s2, ptable := (ptable k1)(child_pid := child)\<rparr>))))"

definition syscall_exit :: "kernel \<Rightarrow> kernel comp" where
  "syscall_exit k =
     bindIO (pfree (pagetable (ptable k (current k))) (phys k)) (\<lambda>s.
       retIO (k\<lparr>phys := s, ptable := (ptable k)(current k := (ptable k (current k))\<lparr>state := P_FREE\<rparr>)\<rparr>))"

section \<open>System invariant\<close>

definition sys_inv :: "addr \<Rightarrow> addr \<Rightarrow> kernel \<Rightarrow> bool" where
  "sys_inv ke kpt k \<longleftrightarrow>
     mem_inv ke kpt (proc_roots k) (phys k)
     \<and> inj_on (\<lambda>i. pagetable (ptable k i)) (live k)
     \<and> (\<forall>i \<in> live k. low_ident (bytes (phys k)) (pagetable (ptable k i)))"

lemma sys_inv_kinv: "sys_inv ke kpt k \<Longrightarrow> kinv ke kpt k"
  by (simp add: sys_inv_def kinv_def mem_inv_def)

section \<open>Exit\<close>

lemma live_exit:
  assumes "ptable k' = (ptable k)(i := (ptable k i)\<lparr>state := P_FREE\<rparr>)"
  shows "live k' = live k - {i}"
  using assms by (auto simp: live_def)

lemma roots_exit:
  assumes "ptable k' = (ptable k)(i := (ptable k i)\<lparr>state := P_FREE\<rparr>)"
    and "inj_on (\<lambda>i. pagetable (ptable k i)) (live k)" "i \<in> live k"
  shows "proc_roots k' = proc_roots k - {pagetable (ptable k i)}"
  unfolding proc_roots_def live_exit [OF assms(1)]
  using assms by (auto simp: inj_on_def)

lemma exit_run:
  assumes inv: "sys_inv ke kpt k" and cur: "current k \<in> live k"
  obtains k' where "syscall_exit k = retIO k'" "sys_inv ke kpt k'" "live k' = live k - {current k}"
    "ptable k' = (ptable k)(current k := (ptable k (current k))\<lparr>state := P_FREE\<rparr>)" "current k' = current k"
    "\<And>i va. i \<in> live k' \<Longrightarrow> space k' i va = space k i va"
    "pages (phys k') = fold dec_page (freed_pages (bytes (phys k)) (pagetable (ptable k (current k)))) (pages (phys k))"
    "\<And>z. kept ke z (proc_roots k) (phys k) (proc_roots k') (phys k')"
proof -
  let ?r = "pagetable (ptable k (current k))" and ?m = "bytes (phys k)"
  let ?P = "proc_roots k - {?r}"
  have r: "?r \<in> proc_roots k" using cur by (simp add: proc_roots_def)
  then have ins: "insert ?r ?P = proc_roots k" by auto
  have mi: "mem_inv ke kpt (insert ?r ?P) (phys k)" and inj: "inj_on (\<lambda>i. pagetable (ptable k i)) (live k)"
    and low: "\<forall>i \<in> live k. low_ident ?m (pagetable (ptable k i))"
    using inv unfolding ins by (auto simp: sys_inv_def)
  have "?r \<notin> ?P" by simp
  from pfree_drop [OF mi this] obtain s' where
    s': "pfree ?r (phys k) = retIO s'" "mem_inv ke kpt ?P s'" "bytes s' = ?m"
    "\<And>q. page_aligned q \<Longrightarrow> q \<notin> set (freed_pages ?m ?r) \<Longrightarrow> pages s' (page_number q) = pages (phys k) (page_number q)"
    by metis
  define k' where "k' = k\<lparr>phys := s', ptable := (ptable k)(current k := (ptable k (current k))\<lparr>state := P_FREE\<rparr>)\<rparr>"
  have pt: "ptable k' = (ptable k)(current k := (ptable k (current k))\<lparr>state := P_FREE\<rparr>)" by (simp add: k'_def)
  have lv: "live k' = live k - {current k}" by (rule live_exit [OF pt])
  have rt: "proc_roots k' = ?P" by (rule roots_exit [OF pt inj cur])
  have "sys_inv ke kpt k'"
    unfolding sys_inv_def rt lv using s' inj low by (auto simp: k'_def inj_on_def)
  moreover have "syscall_exit k = retIO k'" by (simp add: syscall_exit_def s' k'_def)
  moreover have "space k' i va = space k i va" if "i \<in> live k'" for i va
    using that unfolding lv by (simp add: space_def k'_def s')
  moreover have "pages (phys k') = fold dec_page (freed_pages ?m ?r) (pages (phys k))"
    using s'(1) pfree_run [OF mi insertI1] by (auto simp: k'_def)
  moreover have "kept ke z (proc_roots k) (phys k) (proc_roots k') (phys k')" for z
    using kept_pfree [OF mi s'(3,4), of z] unfolding ins rt by (simp add: k'_def)
  ultimately show thesis using that lv pt by (simp add: k'_def)
qed

text \<open>C15: \<open>sys_exit\<close> ends without a fault and keeps the system invariant for the remaining processes. The
  caller is no longer live, every page it mapped or used as a page table loses exactly one reference,
  no other count changes, and no byte that another process can read changes.\<close>

theorem exit_spec:
  assumes "sys_inv kernel_end kpt k" "current k \<in> live k"
  shows "\<exists>k'. syscall_exit k = retIO k' \<and> sys_inv kernel_end kpt k' \<and> live k' = live k - {current k}
    \<and> (\<forall>i \<in> live k'. \<forall>va. space k' i va = space k i va)
    \<and> (\<forall>q. page_aligned q \<longrightarrow>
         unat (refcount (pages (phys k') (page_number q))) = unat (refcount (pages (phys k) (page_number q)))
           - (if q \<noteq> CONSOLE_ADDR \<and> (\<exists>va. user_map (bytes (phys k)) (pagetable (ptable k (current k))) va q False)
                \<or> q \<in> tables (bytes (phys k)) {pagetable (ptable k (current k))} then 1 else 0))"
proof -
  let ?r = "pagetable (ptable k (current k))" and ?m = "bytes (phys k)"
  from exit_run [OF assms] obtain k' where k': "syscall_exit k = retIO k'" "sys_inv kernel_end kpt k'"
    "live k' = live k - {current k}" "\<And>i va. i \<in> live k' \<Longrightarrow> space k' i va = space k i va"
    "pages (phys k') = fold dec_page (freed_pages ?m ?r) (pages (phys k))" by metis
  have inv: "mem_inv kernel_end kpt (proc_roots k) (phys k)" and r: "?r \<in> proc_roots k"
    using assms by (auto simp: sys_inv_def proc_roots_def)
  note fp = set_freed_pages [OF inv r]
  have "unat (refcount (pages (phys k') (page_number q))) = unat (refcount (pages (phys k) (page_number q)))
      - (if q \<noteq> CONSOLE_ADDR \<and> (\<exists>va. user_map ?m ?r va q False) \<or> q \<in> tables ?m {?r} then 1 else 0)"
    if q: "page_aligned q" for q
    using fold_dec_distinct [OF _ fp(2) q, of "pages (phys k)"] fp(3) unfolding fp(1) k'(5) by (simp add: freeable_def)
  then show ?thesis using k' by blast
qed

end
