(* ===== verification/Handlers.thy ===== *)
theory Handlers
  imports Memviewer Fork
begin

text \<open>
  The entry points of the kernel in \<open>kernel.cc\<close>: \<open>memshow\<close>, \<open>run\<close>, \<open>schedule\<close>, \<open>exception\<close> and \<open>syscall\<close>,
  with the page-table check that precedes every return to a process.
\<close>

abbreviation (input) HZ :: nat where "HZ \<equiv> 100"
abbreviation (input) SYSCALL_GETPID :: u64 where "SYSCALL_GETPID \<equiv> 1"
abbreviation (input) SYSCALL_YIELD :: u64 where "SYSCALL_YIELD \<equiv> 2"
abbreviation (input) SYSCALL_PANIC :: u64 where "SYSCALL_PANIC \<equiv> 3"
abbreviation (input) SYSCALL_PAGE_ALLOC :: u64 where "SYSCALL_PAGE_ALLOC \<equiv> 4"
abbreviation (input) SYSCALL_FORK :: u64 where "SYSCALL_FORK \<equiv> 5"
abbreviation (input) SYSCALL_EXIT :: u64 where "SYSCALL_EXIT \<equiv> 6"

section \<open>Page-table checks\<close>

definition check_mapped :: "mem \<Rightarrow> addr \<Rightarrow> u64 \<Rightarrow> fault + unit" where
  "check_mapped b pt a = bindE (vmiter_init b pt a) (\<lambda>it. guardE (vm_pa b it = a) Assert_fail)"

definition check_pagetable :: "link \<Rightarrow> mem \<Rightarrow> addr \<Rightarrow> fault + unit" where
  "check_pagetable l b pt =
     bindE (guardE (pt AND PAGEOFFMASK = 0) Assert_fail) (\<lambda>_.
     bindE (check_mapped b pt (l_exception_entry l)) (\<lambda>_.
     bindE (check_mapped b (l_pagetable l) pt) (\<lambda>_.
     check_mapped b pt (l_pagetable l))))"

definition set_pagetable :: "link \<Rightarrow> addr \<Rightarrow> machine \<Rightarrow> machine run" where
  "set_pagetable l pt m =
     bindIO (tryE m (check_pagetable l (kbytes m) pt)) (\<lambda>_. retIO (m\<lparr>hw := wrcr3 pt (hw m)\<rparr>))"

section \<open>memshow\<close>

text \<open>The search for a process to show: at most \<open>NPROC\<close> steps from \<open>showing\<close> on.\<close>

primrec find_shown :: "nat \<Rightarrow> (nat \<Rightarrow> proc) \<Rightarrow> int \<Rightarrow> nat option \<times> int" where
  "find_shown 0 pt sh = (None, sh)"
| "find_shown (Suc n) pt sh =
     (if state (pt (nat sh)) \<noteq> P_FREE \<and> pagetable (pt (nat sh)) \<noteq> 0 then (Some (nat sh), sh)
      else find_shown n pt ((sh + 1) mod int NPROC))"

definition memshow :: "link \<Rightarrow> machine \<Rightarrow> machine run" where
  "memshow l m =
     (let m1 = (if last_ticks m = 0 \<or> ticks m - ucast (last_ticks m) \<ge> of_nat (HZ div 2)
                then m\<lparr>last_ticks := ucast (ticks m), showing := (showing m + 1) mod int NPROC\<rparr> else m);
          (p, sh) = find_shown NPROC (ptable (kern m1)) (showing m1)
      in console_memviewer l p (m1\<lparr>showing := sh\<rparr>))"

section \<open>run and schedule\<close>

definition set_current :: "nat \<Rightarrow> machine \<Rightarrow> machine" where
  "set_current i m = m\<lparr>kern := (kern m)\<lparr>current := i\<rparr>\<rparr>"

text \<open>\<open>exception_return\<close> loads the page table of the process and resumes it.\<close>

definition run :: "link \<Rightarrow> nat \<Rightarrow> machine \<Rightarrow> 'a run" where
  "run l i m =
     bindIO (tryE m (guardE (state (ptable (kern m) i) = P_RUNNABLE) Assert_fail)) (\<lambda>_.
     let m1 = set_current i m; pt = pagetable (ptable (kern m) i) in
     bindIO (tryE m1 (check_pagetable l (kbytes m1) pt)) (\<lambda>_.
     Some (Inl (Resume i, m1\<lparr>hw := wrcr3 pt (hw m1)\<rparr>))))"

partial_function (option) schedule_loop :: "link \<Rightarrow> nat \<Rightarrow> u32 \<Rightarrow> machine \<Rightarrow> unit run" where
  "schedule_loop l i spins m =
     (let j = (i + 1) mod NPROC in
      if state (ptable (kern m) j) = P_RUNNABLE then run l j m
      else
        bindIO (check_keyboard l m) (\<lambda>(_, m1).
        bindIO (if spins mod 0x1000 = 0
            then bindIO (memshow l m1) (klog (lit ''%u'' @ [10]) [Arg_int spins])
            else retIO m1)
          (schedule_loop l j (spins + 1))))"

definition schedule :: "link \<Rightarrow> machine \<Rightarrow> unit run" where
  "schedule l m =
     (let p = pid (ptable (kern m) (current (kern m))) in
      bindIO (tryE m (guardE (0 \<le> p) Out_of_bounds)) (\<lambda>_. schedule_loop l (nat p) 1 m))"

section \<open>exception\<close>

definition set_regs :: "regstate \<Rightarrow> machine \<Rightarrow> machine" where
  "set_regs r m =
     m\<lparr>kern := (kern m)\<lparr>ptable := (ptable (kern m))
        (current (kern m) := (ptable (kern m) (current (kern m)))\<lparr>regs := r\<rparr>)\<rparr>\<rparr>"

definition set_state :: "int \<Rightarrow> machine \<Rightarrow> machine" where
  "set_state st m =
     m\<lparr>kern := (kern m)\<lparr>ptable := (ptable (kern m))
        (current (kern m) := (ptable (kern m) (current (kern m)))\<lparr>state := st\<rparr>)\<rparr>\<rparr>"

definition page_fault :: "link \<Rightarrow> u64 \<Rightarrow> machine \<Rightarrow> machine run" where
  "page_fault l addr m =
     (let p = ptable (kern m) (current (kern m)); r = regs p;
          operation = (if reg_errcode r AND PFERR_WRITE \<noteq> 0 then lit ''write'' else lit ''read'');
          problem = (if reg_errcode r AND PFERR_PRESENT \<noteq> 0 then lit ''protection problem'' else lit ''missing page'')
      in bindIO (if reg_errcode r AND PFERR_USER = 0
           then panic l (Some (lit ''Kernel page fault for %p (%s %s, rip=%p)!'' @ [10]))
                  [Arg_long addr, Arg_str operation, Arg_str problem, Arg_long (reg_rip r)] m
           else retIO ()) (\<lambda>_.
         bindIO (kprint (CPOS 24 0) 0x0C00 (lit ''Process %d page fault for %p (%s %s, rip=%p)!'' @ [10])
           [Arg_int (word_of_int (pid p)), Arg_long addr, Arg_str operation, Arg_str problem, Arg_long (reg_rip r)] m)
           (\<lambda>(_, m1). retIO (set_state P_BROKEN m1))))"

text \<open>\<open>cr2\<close> is the faulting address that the processor reports.\<close>

definition exception :: "link \<Rightarrow> regstate \<Rightarrow> u64 \<Rightarrow> machine \<Rightarrow> unit run" where
  "exception l r cr2 m0 =
     (let m = set_regs r m0;
          m1 = m\<lparr>port := console_show_cursor (cursorpos (con m)) (port m)\<rparr> in
      bindIO (if reg_intno r \<noteq> INT_PF \<or> reg_errcode r AND PFERR_USER \<noteq> 0 then memshow l m1 else retIO m1) (\<lambda>m2.
      bindIO (check_keyboard l m2) (\<lambda>(_, m3).
      bindIO (if reg_intno r = INT_IRQ + IRQ_TIMER then
          let m4 = m3\<lparr>ticks := ticks m3 + 1\<rparr> in
          bindIO (tryE m4 (lapic_ack (port m4))) (\<lambda>s.
          bindIO (schedule l (m4\<lparr>port := s\<rparr>)) (\<lambda>_. retIO m4))
        else if reg_intno r = INT_PF then page_fault l cr2 m3
        else bindIO (panic l (Some (lit ''Unexpected exception %d!'' @ [10])) [Arg_int (reg_intno r)] m3) (\<lambda>_. retIO m3)) (\<lambda>m5.
      if state (ptable (kern m5) (current (kern m5))) = P_RUNNABLE then run l (current (kern m5)) m5
      else schedule l m5))))"

section \<open>syscall\<close>

definition with_kern :: "machine \<Rightarrow> fault + (int \<times> kernel) \<Rightarrow> (u64 \<times> machine) run" where
  "with_kern m r = bindIO (tryE m r) (\<lambda>(v, k). retIO (word_of_int v, m\<lparr>kern := k\<rparr>))"

definition syscall :: "link \<Rightarrow> regstate \<Rightarrow> machine \<Rightarrow> (u64 \<times> machine) run" where
  "syscall l r m0 =
     (let m = set_regs r m0;
          m1 = m\<lparr>port := console_show_cursor (cursorpos (con m)) (port m)\<rparr> in
      bindIO (memshow l m1) (\<lambda>m2.
      bindIO (check_keyboard l m2) (\<lambda>(_, m3).
      let p = ptable (kern m3) (current (kern m3)) in
      if reg_rax r = SYSCALL_PANIC then
        bindIO (panic l None [] m3) (\<lambda>_. retIO (word_of_int (pid p), m3))
      else if reg_rax r = SYSCALL_GETPID then retIO (word_of_int (pid p), m3)
      else if reg_rax r = SYSCALL_YIELD then
        bindIO (schedule l (set_regs ((regs p)\<lparr>reg_rax := 0\<rparr>) m3)) (\<lambda>_. with_kern m3 (Inl Panic))
      else if reg_rax r = SYSCALL_PAGE_ALLOC then
        with_kern m3 (syscall_page_alloc (l_kernel_end l) (reg_rdi (regs p)) (kern m3))
      else if reg_rax r = SYSCALL_FORK then
        bindIO (tryIO m3 (syscall_fork (l_kernel_end l) (kern m3))) (\<lambda>x. with_kern m3 (Inr x))
      else if reg_rax r = SYSCALL_EXIT then
        bindIO (tryIO m3 (syscall_exit (kern m3))) (\<lambda>k.
        bindIO (schedule l (m3\<lparr>kern := k\<rparr>)) (\<lambda>_. with_kern m3 (Inl Panic)))
      else bindIO (panic l (Some (lit ''Unexpected system call %ld!'' @ [10])) [Arg_long (reg_rax r)] m3)
        (\<lambda>_. with_kern m3 (Inl Panic)))))"

end
