(* ===== verification/Display.thy ===== *)
theory Display
  imports Handlers
begin

text \<open>
  Output never disturbs the kernel: which formats print without failing, and that printing to the
  console at a position on the screen and logging succeed in every state and change only the console
  and the ports, whatever a process has written to the console page.
\<close>

section \<open>Formats that print\<close>

definition fmt_ok :: "u8 list \<Rightarrow> varg list \<Rightarrow> bool" where
  "fmt_ok fmt args \<longleftrightarrow> (\<forall>color. \<exists>out. printed color fmt args = Inr out)"

lemma fill_numbuf_total:
  assumes bb: "bb = 10 \<or> bb = 16 \<or> bb = - 16"
  shows "\<exists>bs. fill_numbuf NUMBUFSIZ val bb = Inr bs"
proof -
  let ?b = "nat \<bar>bb\<bar>" and ?digits = "if bb < 0 then lower_digits else upper_digits"
  have b: "2 \<le> ?b" "?b \<le> 16" "unat (of_int (if bb < 0 then - bb else bb) :: u64) = ?b"
    using bb by auto
  have "unat val < 2 ^ 64" using unat_lt2p [of val] by simp
  then have "unat val < ?b ^ 20" using bb by (auto intro: order_less_le_trans)
  then have len: "length (numeral_digits ?b (unat val)) \<le> 20" using numeral_digits_length [of ?b "unat val" 20] b by simp
  have "length ?digits = 16" by (simp add: upper_digits_def lower_digits_def)
  then show ?thesis
    using fill_loop_digits [of "of_int (if bb < 0 then - bb else bb)" ?digits 23 val "[]"] b len
    by (simp add: fill_numbuf_def Let_def)
qed

lemma conv_step_total:
  "f_numeric fl \<longrightarrow> bb = 10 \<or> bb = 16 \<or> bb = - 16 \<Longrightarrow>
   \<exists>cs. conv_step w p (Conv_data fl bb num dt fs0 as) = Inr (Emit cs, fs0, as)"
  using fill_numbuf_total [of bb num] by (cases "f_numeric fl") (auto simp: conv_step_def)

lemma sint_not_min: "sint (w :: u32) \<noteq> - (2 ^ 63)"
  using sint_ge [of w] by simp

lemmas directive_simps = directive_def parse_width_def parse_precision_def parse_length_def conversion_def
  is_digit_char_def peek_def no_flags_def conv_unsigned_def conv_signed_def Let_def

lemma directive_ok:
  "\<exists>cs. directive (100 # fs0) (Arg_int w # as) = Inr (Emit cs, fs0, as)"
  "\<exists>cs. directive (117 # fs0) (Arg_int w # as) = Inr (Emit cs, fs0, as)"
  "\<exists>cs. directive (112 # fs0) (Arg_long a # as) = Inr (Emit cs, fs0, as)"
  "\<exists>cs. directive (115 # fs0) (Arg_str bs # as) = Inr (Emit cs, fs0, as)"
  "\<exists>cs. directive (108 # 120 # fs0) (Arg_long a # as) = Inr (Emit cs, fs0, as)"
  "\<exists>cs. directive (48 # 54 # 88 # fs0) (Arg_int w # as) = Inr (Emit cs, fs0, as)"
  "\<exists>cs. directive (48 # 54 # 88 # fs0) (Arg_long a # as) = Inr (Emit cs, fs0, as)"
  using sint_not_min [of w] by (simp_all add: directive_simps conv_step_total)

lemma fmt_ok_Nil [simp]: "fmt_ok [] as"
  by (simp add: fmt_ok_def)

lemma fmt_ok_plain [simp]: "c \<noteq> 37 \<Longrightarrow> fmt_ok (c # fmt) as \<longleftrightarrow> fmt_ok fmt as"
  by (auto simp: fmt_ok_def bindE_Inr_iff)

lemma fmt_ok_directive:
  "\<exists>cs. directive fmt as = Inr (Emit cs, fs0, as') \<Longrightarrow> fmt_ok fs0 as' \<Longrightarrow> fmt_ok (37 # fmt) as"
  by (auto simp: fmt_ok_def bindE_Inr_iff)

lemmas fmt_ok_rules [simp] = directive_ok [THEN fmt_ok_directive]

section \<open>Quiet operations\<close>

definition quiet :: "machine \<Rightarrow> machine \<Rightarrow> bool" where
  "quiet m m' \<longleftrightarrow>
     kern m' = kern m \<and> hw m' = hw m \<and> mu_v m' = mu_v m \<and> mu_marks m' = mu_marks m \<and> symbols m' = symbols m
     \<and> showing m' = showing m \<and> ticks m' = ticks m"

lemma quiet_refl [simp]: "quiet m m"
  by (simp add: quiet_def)

lemma quiet_trans [trans]: "quiet m m' \<Longrightarrow> quiet m' m'' \<Longrightarrow> quiet m m''"
  by (simp add: quiet_def)

lemma quietD: "quiet m m' \<Longrightarrow> kern m' = kern m" "quiet m m' \<Longrightarrow> mu_v m' = mu_v m" "quiet m m' \<Longrightarrow> mu_marks m' = mu_marks m"
  "quiet m m' \<Longrightarrow> showing m' = showing m"
  by (simp_all add: quiet_def)

lemma kprint_at:
  assumes "cpos < 0 \<longrightarrow> 0 \<le> cursorpos (con m) \<and> cursorpos (con m) \<le> 2000" "fmt_ok fmt args"
  obtains pos m' where "kprint cpos color fmt args m = retIO (pos, m')" "quiet m m'"
    "cpos < 0 \<Longrightarrow> 0 \<le> cursorpos (con m') \<and> cursorpos (con m') \<le> 2000"
proof -
  from assms(2) obtain out where p: "printed color fmt args = Inr out" by (auto simp: fmt_ok_def)
  from console_vprintf_ok [OF assms(1) p] obtain pos c where
    "console_vprintf (con m) cpos color fmt args = Inr (pos, c)" "0 \<le> pos" "pos \<le> 2000"
    "cursorpos c = (if cpos < 0 then pos else cursorpos (con m))" by blast
  then show thesis
    by (intro that [of pos "m\<lparr>con := c, port := (if cpos < 0 then console_show_cursor (cursorpos c) (port m) else port m)\<rparr>"])
      (auto simp: kprint_def quiet_def)
qed

lemma kprint_ok:
  assumes "0 \<le> cpos" "fmt_ok fmt args"
  obtains pos m' where "kprint cpos color fmt args m = retIO (pos, m')" "quiet m m'"
proof -
  have "cpos < 0 \<longrightarrow> 0 \<le> cursorpos (con m) \<and> cursorpos (con m) \<le> 2000" using assms(1) by simp
  from kprint_at [OF this assms(2)] show thesis using that by metis
qed

lemma klog_ok:
  assumes "fmt_ok fmt args"
  obtains m' where "klog fmt args m = retIO m'" "quiet m m'" "con m' = con m"
proof -
  from assms obtain out where p: "printed 0 fmt args = Inr out" by (auto simp: fmt_ok_def)
  from lp.vprintf_inv [OF TrueI p, of "(pp_initialized m, port m)"] obtain b s where "vprintf log_putc (pp_initialized m, port m) 0 fmt args = Inr (b, s)"
    by auto
  then have "klog fmt args m = retIO (m\<lparr>pp_initialized := b, port := s\<rparr>)"
    by (simp add: klog_def log_printf_def log_vprintf_def)
  then show thesis by (rule that) (simp_all add: quiet_def)
qed

lemma set_cell_ok:
  assumes "0 \<le> i" "i < 2000"
  obtains m' where "set_cell i ch m = retIO m'" "quiet m m'"
  using assms by (simp add: set_cell_def quiet_def)

section \<open>Power off and the keyboard\<close>

lemma pci_readl_total: "0 \<le> a \<Longrightarrow> a AND 3 = 0 \<Longrightarrow> \<exists>x s'. pci_readl a s = Inr (x, s')"
  by (simp add: pci_readl_def inl_def io_ask_def)

lemma acpi_total:
  "0 \<le> a \<Longrightarrow> a < addr_end \<Longrightarrow> a mod 256 = 0 \<Longrightarrow> \<exists>b s'. acpi_controller a s = Inr (b, s')"
proof -
  assume a: "0 \<le> a" "a mod 256 = 0"
  then have "a AND 3 = 0" unfolding and_3 using mod_mod_cancel [of 4 256 a] by simp
  from pci_readl_total [OF a(1) this, of s] show ?thesis by (auto simp: acpi_controller_def)
qed

lemma poweroff_ok:
  obtains m' where "poweroff m = Some (Inl (Powered_off, m'))"
proof -
  have "\<exists>a s'. pci_find acpi_controller 0 (port m) = Inr (a, s') \<and> (a = - 1 \<or> 0 \<le> a \<and> a < addr_end
      \<and> a mod 256 = 0 \<and> (\<exists>s1. acpi_controller a s1 = Inr (True, s')))"
    by (rule pci_find_ok) (simp_all add: acpi_total)
  then obtain a s1 where
    f: "pci_find acpi_controller 0 (port m) = Inr (a, s1)" "a = - 1 \<or> 0 \<le> a \<and> a mod 256 = 0" by metis
  have "\<exists>s. poweroff_ports (port m) = Inr s"
  proof (cases "a = - 1")
    case False
    then have a: "0 \<le> a" "a mod 256 = 0" using f(2) by auto
    then have "(a + 0x40) mod 4 = 0" by presburger
    then show ?thesis using pci_readl_total [of "a + 0x40" s1] a f(1) unfolding and_3 by (auto simp: poweroff_ports_def)
  qed (use f in \<open>simp add: poweroff_ports_def\<close>)
  then obtain s where s: "poweroff_ports (port m) = Inr s" ..
  have "0 \<le> CPOS 24 0" "fmt_ok (lit ''Cannot power off!'' @ [10]) []" by (simp_all add: CPOS_def lit_def)
  from kprint_ok [OF this, of "0xC000" "m\<lparr>port := s\<rparr>"] obtain pos m' where
    "kprint (CPOS 24 0) 0xC000 (lit ''Cannot power off!'' @ [10]) [] (m\<lparr>port := s\<rparr>) = retIO (pos, m')" .
  then show thesis using that s by (simp add: poweroff_def)
qed

text \<open>Whatever the keyboard sends, \<open>check_keyboard\<close> returns and leaves the kernel alone, or the machine is
  switched off or restarted.\<close>

lemma lapic_write_total: "r < 0x40 \<Longrightarrow> \<exists>s'. lapic_write r v s = Inr s'"
  by (simp add: lapic_write_def)

lemma soft_reboot_ok:
  assumes "l_arguments l < 0x100000000"
  obtains arg m' where "soft_reboot l c m = Some (Inl (Soft_reboot arg, m'))"
proof -
  obtain s where "init_timer (- 1) (port m) = Inr s" using lapic_write_total [of "0x38" 0 "port m"] by (auto simp: init_timer_def)
  then show thesis using that assms by (simp add: soft_reboot_def Let_def)
qed

definition user_stop :: "halt \<Rightarrow> bool" where
  "user_stop h \<longleftrightarrow> h = Powered_off \<or> (\<exists>arg. h = Soft_reboot arg)"

lemma check_keyboard_cases:
  assumes "l_arguments l < 0x100000000"
  obtains (go) c m' where "check_keyboard l m = retIO (c, m')" "quiet m m'" "con m' = con m"
  | (stop) h m' where "check_keyboard l m = Some (Inl (h, m'))" "user_stop h"
proof -
  obtain c k s where r: "keyboard_readc (kbd m) (port m) = (c, k, s)" by (metis surj_pair)
  let ?m = "m\<lparr>kbd := k, port := s\<rparr>"
  consider "c = chr (CHR ''a'') \<or> c = chr (CHR ''f'') \<or> c = chr (CHR ''e'')"
    | "\<not> (c = chr (CHR ''a'') \<or> c = chr (CHR ''f'') \<or> c = chr (CHR ''e''))" "c = 3 \<or> c = chr (CHR ''q'')"
    | "\<not> (c = chr (CHR ''a'') \<or> c = chr (CHR ''f'') \<or> c = chr (CHR ''e''))" "\<not> (c = 3 \<or> c = chr (CHR ''q''))"
    by blast
  then show thesis
  proof cases
    case 1
    obtain arg m' where "soft_reboot l c ?m = Some (Inl (Soft_reboot arg, m') :: _ + int \<times> machine)"
      by (rule soft_reboot_ok [OF assms])
    then have "check_keyboard l m = Some (Inl (Soft_reboot arg, m'))" using 1 r by (simp add: check_keyboard_def)
    then show thesis by (rule stop) (simp add: user_stop_def)
  next
    case 2
    obtain m' where "poweroff ?m = Some (Inl (Powered_off, m') :: _ + int \<times> machine)" by (rule poweroff_ok)
    then have "check_keyboard l m = Some (Inl (Powered_off, m'))" using 2 r by (simp add: check_keyboard_def)
    then show thesis by (rule stop) (simp add: user_stop_def)
  next
    case 3
    then have "check_keyboard l m = retIO (c, ?m)" using r by (simp add: check_keyboard_def)
    then show thesis by (rule go) (simp_all add: quiet_def)
  qed
qed

end
