(* ===== verification/Fork_Spec.thy ===== *)
theory Fork_Spec
  imports Fork
begin

text \<open>
  Correctness of \<open>syscall_fork\<close>: the invariant of its loop, the two ways in which it treats a page of
  the parent, and the specification of the whole call.
\<close>

section \<open>Loop invariant\<close>

text \<open>At \<open>va\<close> the child \<open>c\<close> has what the parent \<open>r\<close> has: the same page, or a page of its own.\<close>

definition copied :: "mem \<Rightarrow> addr \<Rightarrow> addr \<Rightarrow> u64 \<Rightarrow> bool" where
  "copied m c r va \<longleftrightarrow>
     user_load m c va = user_load m r va
     \<and> (case translate m r va of
          None \<Rightarrow> translate m c va = None
        | Some (pa, perm) \<Rightarrow>
            \<exists>pa' perm'. translate m c va = Some (pa', perm') \<and> perm' AND 7 = perm AND 7
              \<and> (pa' = pa \<or> is_user_writable perm \<and> page_base va \<noteq> CONSOLE_ADDR))"

definition fork_inv :: "addr \<Rightarrow> addr \<Rightarrow> addr set \<Rightarrow> addr \<Rightarrow> addr \<Rightarrow> kmem \<Rightarrow> u64 \<Rightarrow> kmem \<Rightarrow> bool" where
  "fork_inv ke kpt P r c s0 va s \<longleftrightarrow>
     mem_inv ke kpt (insert c P) s
     \<and> (\<forall>r' \<in> P. \<forall>v. translate (bytes s) r' v = translate (bytes s0) r' v
          \<and> user_load (bytes s) r' v = user_load (bytes s0) r' v)
     \<and> (\<forall>v < va. copied (bytes s) c r v)
     \<and> (\<forall>v \<ge> va. translate (bytes s) c v = None)
     \<and> (\<forall>v q. va \<le> v \<longrightarrow> user_map (bytes s0) r v q False \<longrightarrow>
          pages s (page_number q) = pages s0 (page_number q))
     \<and> (\<forall>z. kept ke z P s0 (insert c P) s)"

text \<open>Every shared page can take one more reference.\<close>

definition shared_room :: "addr \<Rightarrow> kmem \<Rightarrow> bool" where
  "shared_room r s \<longleftrightarrow>
     (\<forall>v q. user_map (bytes s) r v q False \<longrightarrow> \<not> user_map (bytes s) r v q True \<longrightarrow>
        refcount (pages s (page_number q)) < 255)"

lemma fork_invD:
  assumes "fork_inv ke kpt P r c s0 va s"
  shows "mem_inv ke kpt (insert c P) s"
    and "\<And>r' v. r' \<in> P \<Longrightarrow> translate (bytes s) r' v = translate (bytes s0) r' v"
    and "\<And>r' v. r' \<in> P \<Longrightarrow> user_load (bytes s) r' v = user_load (bytes s0) r' v"
    and "\<And>v. v < va \<Longrightarrow> copied (bytes s) c r v"
    and "\<And>v. va \<le> v \<Longrightarrow> translate (bytes s) c v = None"
    and "\<And>v q. va \<le> v \<Longrightarrow> user_map (bytes s0) r v q False \<Longrightarrow> pages s (page_number q) = pages s0 (page_number q)"
    and "\<And>r' v q w. r' \<in> P \<Longrightarrow> user_map (bytes s) r' v q w = user_map (bytes s0) r' v q w"
    and "\<And>z. kept ke z P s0 (insert c P) s"
  using assms by (auto simp: fork_inv_def user_map_def)

lemma copied_cong:
  "translate m' c v = translate m c v \<Longrightarrow> translate m' r v = translate m r v \<Longrightarrow>
   user_load m' c v = user_load m c v \<Longrightarrow> user_load m' r v = user_load m r v \<Longrightarrow>
   copied m' c r v = copied m c r v"
  by (simp only: copied_def)

lemma child_map_run:
  assumes inv: "mem_inv ke kpt (insert c P) s" and va: "va_is_canonical va"
  shows "child_map ke c va pa perm s =
    bindE (try_map (kalloc ke PAGESIZE) (fresh_iter (bytes s) c va) pa (ucast perm) s) (\<lambda>(r, c', s'). Inr (r, s'))"
proof -
  note d = mem_invD [OF inv insertI1]
  have "va_is_canonical 0" by (simp add: va_is_canonical_def)
  then have "vmiter_init (bytes s) c 0 = Inr (fresh_iter (bytes s) c 0)" by (rule ptree_ok_iter(1) [OF d(1)])
  moreover have "vm_find (bytes s) (fresh_iter (bytes s) c 0) va = Inr (fresh_iter (bytes s) c va)"
    using real_find_fresh [OF d(2)] ptree_ok_iter(1) [OF d(1) va] by (simp add: vm_find_def vmiter_init_fresh)
  ultimately show ?thesis by (simp add: child_map_def)
qed

text \<open>The next page.\<close>

lemma next_page:
  assumes "page_aligned va" "va < MEMSIZE_VIRTUAL"
  shows "v < va + PAGESIZE \<longleftrightarrow> v < va \<or> same_above 0 va v" "va + PAGESIZE \<le> v \<longleftrightarrow> va \<le> v \<and> \<not> same_above 0 va v"
    "page_aligned (va + PAGESIZE)" "unat (va + PAGESIZE) = unat va + 4096"
proof -
  have lt: "unat va < 0x300000" using assms(2) by (simp add: word_less_nat_alt)
  then show u: "unat (va + PAGESIZE) = unat va + 4096" by (subst unat_add_small) simp_all
  obtain k where k: "unat va = 4096 * k" using assms(1) by (auto simp: page_aligned_iff)
  have sa: "same_above 0 va v \<longleftrightarrow> unat v div 4096 = k" using k by (auto simp: same_above_div)
  have "unat v < unat va + 4096 \<longleftrightarrow> unat v < unat va \<or> unat v div 4096 = k" unfolding k by auto
  then show 1: "v < va + PAGESIZE \<longleftrightarrow> v < va \<or> same_above 0 va v" unfolding sa word_less_nat_alt u .
  then show "va + PAGESIZE \<le> v \<longleftrightarrow> va \<le> v \<and> \<not> same_above 0 va v" by (metis linorder_not_less)
  show "page_aligned (va + PAGESIZE)" unfolding page_aligned_iff u k by simp
qed

lemma fork_advance:
  assumes inv: "fork_inv ke kpt P r c s0 va s" and c: "c \<notin> P" "r \<in> P"
    and va: "page_aligned va" "va < MEMSIZE_VIRTUAL"
    and fm: "frame_mapped ke kpt (insert c P) c va pa perm s s'"
    and minv: "mem_inv ke kpt (insert c P) (s'\<lparr>pages := pgs\<rparr>)"
    and pgs: "\<And>v q. va + PAGESIZE \<le> v \<Longrightarrow> user_map (bytes s0) r v q False \<Longrightarrow> pgs (page_number q) = pages s' (page_number q)"
    and kp: "\<And>z. kept ke z P s0 (insert c P) (s'\<lparr>pages := pgs\<rparr>)"
    and cp: "\<And>v. same_above 0 va v \<Longrightarrow> copied (bytes s') c r v"
  shows "fork_inv ke kpt P r c s0 (va + PAGESIZE) (s'\<lparr>pages := pgs\<rparr>)"
proof -
  note i = fork_invD [OF inv] and np = next_page [OF va]
  have map: "mapped (insert kpt (insert c P)) c va pa perm (bytes s) (bytes s')"
    and ld: "loads_mapped (insert c P) c va pa perm (bytes s) (bytes s')"
    and fr: "pt_frame (avail ke) {c} s s'" and as': "as_inv (avail ke) kpt (insert c P) s'"
    using fm by (auto simp: frame_mapped_def)
  have tr: "translate (bytes s') r' v = translate (bytes s) r' v" if "r' \<in> insert c P" "\<not> (r' = c \<and> same_above 0 va v)" for r' v
    using map that by (auto simp: mapped_def)
  have ul: "user_load (bytes s') r' v = user_load (bytes s) r' v" if "r' \<in> insert c P" "\<not> (r' = c \<and> same_above 0 va v)" for r' v
    using ld that unfolding loads_mapped_def by (metis (no_types))
  have ne: "r' \<noteq> c" if "r' \<in> P" for r' using that c(1) by auto
  have "copied (bytes s') c r v" if "v < va + PAGESIZE" for v
  proof (cases "same_above 0 va v")
    case True
    then show ?thesis by (rule cp)
  next
    case False
    then have "copied (bytes s) c r v" using that i(4) np(1) by blast
    moreover have "copied (bytes s') c r v = copied (bytes s) c r v"
      using False c ne [of r] by (intro copied_cong tr ul) auto
    ultimately show ?thesis by simp
  qed
  moreover have "translate (bytes s') c v = None" if "va + PAGESIZE \<le> v" for v
    using tr [of c v] i(5) [of v] np(2) [of v] that by simp
  moreover have "pgs (page_number q) = pages s0 (page_number q)"
    if v: "va + PAGESIZE \<le> v" "user_map (bytes s0) r v q False" for v q
  proof -
    have "user_map (bytes s') r v q False"
      using v(2) tr [of r v] i(2) [of r v] c ne [of r] by (simp add: user_map_def)
    then have "mappers (bytes s') (insert c P) q \<noteq> {}" using c(2) by (auto simp: mappers_def)
    then have "pages s' (page_number q) = pages s (page_number q)" by (intro mapped_page_count [OF as' insertI1 fr])
    then show ?thesis using pgs [OF v] i(6) [OF _ v(2)] v(1) np(2) [of v] by simp
  qed
  moreover have "translate (bytes s') r' v = translate (bytes s0) r' v \<and> user_load (bytes s') r' v = user_load (bytes s0) r' v"
    if "r' \<in> P" for r' v
    using tr [of r' v] ul [of r' v] i(2,3) [OF that, of v] ne [OF that] that by simp
  ultimately show ?thesis using minv kp by (simp add: fork_inv_def)
qed

lemma fork_advance_same:
  assumes "fork_inv ke kpt P r c s0 va s" "c \<notin> P" "r \<in> P" "page_aligned va" "va < MEMSIZE_VIRTUAL"
    "frame_mapped ke kpt (insert c P) c va pa perm s s'" "mem_inv ke kpt (insert c P) s'"
    "\<And>z. kept ke z P s0 (insert c P) s'" "\<And>v. same_above 0 va v \<Longrightarrow> copied (bytes s') c r v"
  shows "fork_inv ke kpt P r c s0 (va + PAGESIZE) s'"
  using fork_advance [OF assms(1-6), of "pages s'"] assms(7-) by simp

lemma fork_claim:
  assumes inv: "fork_inv ke kpt P r c s0 va s" and c: "r \<in> P"
    and al: "kalloc ke PAGESIZE s = (n, s1)" "n \<noteq> 0"
    and m: "\<And>a. page_base a \<noteq> n \<Longrightarrow> m a = bytes s a"
  shows "fork_inv ke kpt P r c s0 va (s1\<lparr>bytes := m\<rparr>)"
    and "agree_on (tables (bytes s) {r}) (bytes s) m"
proof -
  note i = fork_invD [OF inv] and cs = claim_step [OF fork_invD(1) [OF inv] al m]
  have as: "as_inv (avail ke) kpt (insert c P) s" using i(1) by (simp add: mem_inv_def)
  note cf = ka.claim_frame [OF as al m]
  have pg: "pages s1 (page_number q) = pages s (page_number q)" if "user_map (bytes s0) r v q False" for v q
  proof -
    have um: "user_map (bytes s) r v q False" using that i(7) c by simp
    then have "q \<noteq> n" using as cf(4) c unfolding as_inv_def frames_ok_def by blast
    then show ?thesis
      using ka.alloc_some [OF al] page_number_inj [OF user_map_aligned [OF um] avail_aligned [OF cf(4)]] by simp
  qed
  have "copied m c r v = copied (bytes s) c r v" for v
    by (rule copied_cong; rule cf(2) cf(3); simp add: c)
  moreover have "kept ke z P s0 (insert c P) (s1\<lparr>bytes := m\<rparr>)" for z
    by (rule kept_trans [OF i(8) kept_claim [OF i(1) al m]])
  ultimately show "fork_inv ke kpt P r c s0 va (s1\<lparr>bytes := m\<rparr>)"
    using cs(1) i cf(2,3) pg unfolding fork_inv_def by simp
  show "agree_on (tables (bytes s) {r}) (bytes s) m" using c by (intro cs(2)) auto
qed

section \<open>The parent's page\<close>

lemma fork_parent_page:
  assumes inv: "fork_inv ke kpt P r c s0 va s" and r: "r \<in> P" and va: "page_aligned va"
    and t: "translate (bytes s) r va = Some (pa, perm)"
  shows "page_aligned pa" "pa < 0x100000000" "perm AND 0xFFF = perm" "perm AND PTE_P \<noteq> 0"
    "\<And>v. same_above 0 va v \<Longrightarrow> translate (bytes s) r v = Some (pa + (v AND PAGEOFFMASK), perm)"
    "is_user perm \<Longrightarrow> user_map (bytes s) r va pa False"
    "user_map (bytes s) r va pa True \<longleftrightarrow> is_user_writable perm"
proof -
  have ok: "ptree_ok (bytes s) r" using mem_invD(1) [OF fork_invD(1) [OF inv]] r by simp
  obtain q where q: "page_aligned q" "q < 0x100000000" "pa = q + (va AND PAGEOFFMASK)" "perm AND 0xFFF = perm"
      "perm AND PTE_P \<noteq> 0" "\<And>v. same_above 0 va v \<Longrightarrow> translate (bytes s) r v = Some (q + (v AND PAGEOFFMASK), perm)"
    using translate_page [OF ok t] by metis
  have "pa = q" using q(3) va by (simp add: page_aligned_def)
  with q show *: "page_aligned pa" "pa < 0x100000000" "perm AND 0xFFF = perm" "perm AND PTE_P \<noteq> 0"
    "\<And>v. same_above 0 va v \<Longrightarrow> translate (bytes s) r v = Some (pa + (v AND PAGEOFFMASK), perm)"
    by auto
  show "is_user perm \<Longrightarrow> user_map (bytes s) r va pa False"
    using t page_base_aligned [OF *(1)] by (simp add: user_map_def)
  show "user_map (bytes s) r va pa True \<longleftrightarrow> is_user_writable perm"
    using t page_base_aligned [OF *(1)] is_user_writable_user by (auto simp: user_map_def)
qed

lemma perm_word32:
  assumes "perm AND 0xFFF = (perm :: u64)"
  shows "scast (ucast perm :: u32) = perm" "(ucast perm :: u32) AND 0xFFF = ucast perm"
proof -
  show "scast (ucast perm :: u32) = perm"
    using scast_perm [of perm] assms by (simp add: and.commute)
  have "(ucast (perm AND 0xFFF) :: u32) = ucast perm AND ucast (0xFFF :: u64)" by (simp only: unsigned_and_eq)
  then show "(ucast perm :: u32) AND 0xFFF = ucast perm" using assms by simp
qed

lemma frame_args_present:
  assumes "page_aligned pa" "pa < 0x100000000" "perm AND 0xFFF = perm" "perm AND PTE_P \<noteq> 0"
  shows "frame_args pa (ucast perm)"
  using assms perm_word32 [OF assms(3)] by (simp add: frame_args_def)

lemma vm_writable_fresh:
  "vm_writable m (fresh_iter m r va) \<longleftrightarrow> (\<exists>pa perm. translate m r va = Some (pa, perm) \<and> perm AND 3 = 3)"
  using vm_has_perm_fresh [of 3 m r va] by (simp add: vm_writable_def)

lemma user_writable_perm: "is_user perm \<and> perm AND 3 = 3 \<longleftrightarrow> is_user_writable perm"
proof
  assume "is_user perm \<and> perm AND 3 = 3"
  then have "(perm AND 5) OR (perm AND 3) = 5 OR 3" by (simp add: is_user_def)
  then show "is_user_writable perm" by (simp add: is_user_writable_def flip: bit.conj_disj_distrib)
next
  assume w: "is_user_writable perm"
  then have "perm AND 7 = 7" by (simp add: is_user_writable_def)
  then have "(perm AND 7) AND 3 = 3" by simp
  then show "is_user perm \<and> perm AND 3 = 3" using is_user_writable_user [OF w] by (simp add: and.assoc)
qed

text \<open>A page that is not copied may be shared.\<close>

lemma share_ok:
  assumes inv: "fork_inv ke kpt P r c s0 va s" and c: "c \<notin> P" "r \<in> P" and va: "page_aligned va"
    and t: "translate (bytes s) r va = Some (pa, perm)" and sh: "\<not> (is_user_writable perm \<and> va \<noteq> CONSOLE_ADDR)"
  shows "place_ok ke va pa perm"
    and "is_user perm \<Longrightarrow> \<forall>va'. \<not> same_above 0 va va' \<longrightarrow> \<not> user_map (bytes s) c va' pa False"
    and "may_map (avail ke) kpt (insert c P) s c va pa perm"
    and "is_user perm \<Longrightarrow> va = CONSOLE_ADDR \<or> pa \<noteq> CONSOLE_ADDR"
proof -
  note i = fork_invD [OF inv] and pp = fork_parent_page [OF inv c(2) va t]
  have as: "as_inv (avail ke) kpt (insert c P) s" using i(1) by (simp add: mem_inv_def)
  have ex: "exclusive (bytes s) (insert c P)" and fk: "frames_ok (avail ke) s (insert c P) (insert kpt (insert c P))"
    using as by (auto simp: as_inv_def)
  have mo: "maps_ok ke (bytes s) r" "single (bytes s) r" "maps_ok ke (bytes s) c"
    using mem_invD(3,4) [OF i(1)] c by auto
  have pb: "page_base va = va" by (rule page_base_aligned [OF va])
  have alt: "pa = CONSOLE_ADDR \<and> va = CONSOLE_ADDR \<and> is_user_writable perm \<or> user_va va \<and> allocatable_physical_address ke pa"
    if "is_user perm"
    using mo(1) pp(6) [OF that] pp(7) pb unfolding maps_ok_def by metis
  then show place: "place_ok ke va pa perm" by (simp add: place_ok_def)
  show "va = CONSOLE_ADDR \<or> pa \<noteq> CONSOLE_ADDR" if "is_user perm"
    using alt [OF that] allocatable_not_console by blast
  show "\<forall>va'. \<not> same_above 0 va va' \<longrightarrow> \<not> user_map (bytes s) c va' pa False" if u: "is_user perm"
  proof (intro allI impI notI)
    fix va' assume n: "\<not> same_above 0 va va'" and um: "user_map (bytes s) c va' pa False"
    then have lt: "va' < va" using i(5) by (metis linorder_not_less option.distinct(1) user_map_def)
    show False
    proof (cases "pa = CONSOLE_ADDR")
      case True
      then have "page_base va' = CONSOLE_ADDR" "va = CONSOLE_ADDR"
        using mo(3) um alt [OF u] allocatable_not_console unfolding maps_ok_def by blast+
      then show False using n pb by (simp add: same_above_0_base)
    next
      case False
      from um obtain pa' perm' where tc: "translate (bytes s) c va' = Some (pa', perm')" "is_user perm'" "page_base pa' = pa"
        by (auto simp: user_map_def)
      then obtain pr permr where tr: "translate (bytes s) r va' = Some (pr, permr)" "perm' AND 7 = permr AND 7"
          "pa' = pr \<or> is_user_writable permr \<and> page_base va' \<noteq> CONSOLE_ADDR"
        using i(4) [OF lt] by (auto simp: copied_def split: option.splits)
      show False
      proof (cases "pa' = pr")
        case True
        have "is_user permr" using tc(2) tr(2) is_user_7 by metis
        then have "user_map (bytes s) r va' pa False" using tr(1) tc(3) True by (auto simp: user_map_def)
        then show False using mo(2) pp(6) [OF u] n unfolding single_def by blast
      next
        case False
        then have "is_user_writable perm'" using tr(2,3) is_user_writable_7 by metis
        then have "user_map (bytes s) c va' pa True" using tc by (auto simp: user_map_def)
        then show False using ex pp(6) [OF u] \<open>pa \<noteq> CONSOLE_ADDR\<close> c unfolding exclusive_def by blast
      qed
    qed
  qed
  show "may_map (avail ke) kpt (insert c P) s c va pa perm"
    unfolding may_map_def
  proof (intro impI conjI)
    assume u: "is_user perm"
    show "pa \<notin> avail ke s" "pa \<notin> tables (bytes s) (insert kpt (insert c P))"
      using fk pp(6) [OF u] c(2) unfolding frames_ok_def by blast+
    assume nc: "pa \<noteq> CONSOLE_ADDR"
    then have nw: "\<not> is_user_writable perm" using alt [OF u] sh user_va_not_console pb by metis
    have "\<not> user_map (bytes s) r' va' pa True" if "r' \<in> insert c P" for r' va'
    proof
      assume um: "user_map (bytes s) r' va' pa True"
      then have "r' = r \<and> same_above 0 va' va" using ex nc that pp(6) [OF u] c(2) unfolding exclusive_def by blast
      then have "user_map (bytes s) r va pa True"
        using user_map_same [OF mem_invD(1) [OF i(1)]] um c(2) by blast
      then show False using nw pp(7) by simp
    qed
    then show "\<forall>r' \<in> insert c P. \<forall>va'. \<not> (r' = c \<and> same_above 0 va va') \<longrightarrow>
        \<not> user_map (bytes s) r' va' pa (\<not> is_user_writable perm)"
      using nw by simp
  qed
qed

section \<open>One page\<close>

lemma copied_mapped:
  assumes fm: "frame_mapped ke kpt (insert c P) c va pa' perm s s'" and c: "c \<notin> P" "r \<in> P"
    and t: "\<And>v. same_above 0 va v \<Longrightarrow> translate (bytes s) r v = Some (pa + (v AND PAGEOFFMASK), perm)"
    and P: "perm AND PTE_P \<noteq> 0" and v: "same_above 0 va v"
    and pa: "pa' = pa \<or> is_user_writable perm \<and> page_base va \<noteq> CONSOLE_ADDR"
    and eq: "is_user perm \<Longrightarrow> content_at (bytes s) (pa' + (v AND PAGEOFFMASK)) = content_at (bytes s) (pa + (v AND PAGEOFFMASK))"
  shows "copied (bytes s') c r v"
proof -
  have map: "mapped (insert kpt (insert c P)) c va pa' perm (bytes s) (bytes s')"
    and ld: "loads_mapped (insert c P) c va pa' perm (bytes s) (bytes s')"
    using fm by (auto simp: frame_mapped_def)
  have ne: "r \<noteq> c" using c by auto
  have rt: "translate (bytes s') r v = Some (pa + (v AND PAGEOFFMASK), perm)"
    using map ne c(2) t [OF v] unfolding mapped_def by simp
  obtain q where q: "translate (bytes s') c v = Some (pa' + (v AND PAGEOFFMASK), q)" "q AND 7 = perm AND 7"
    using map P v unfolding mapped_def by metis
  have "user_load (bytes s') c v = (if is_user perm then Some (content_at (bytes s) (pa' + (v AND PAGEOFFMASK))) else None)"
    using ld v unfolding loads_mapped_def by simp
  also have "\<dots> = user_load (bytes s) r v" using eq t [OF v] by (simp add: user_load_def)
  also have "\<dots> = user_load (bytes s') r v" using ld ne c(2) unfolding loads_mapped_def by simp
  finally have ul: "user_load (bytes s') c v = user_load (bytes s') r v" .
  have "page_base v = page_base va" using v by (simp add: same_above_0_base)
  then show ?thesis using ul rt q pa by (auto simp: copied_def)
qed

lemma copied_absent:
  assumes fm: "frame_mapped ke kpt (insert c P) c va pa 0 s s'" and c: "c \<notin> P" "r \<in> P"
    and t: "translate (bytes s) r va = None" and v: "same_above 0 va v"
  shows "copied (bytes s') c r v"
proof -
  have map: "mapped (insert kpt (insert c P)) c va pa 0 (bytes s) (bytes s')"
    using fm by (auto simp: frame_mapped_def)
  have "translate (bytes s) r v = None" using t translate_same_page [OF v] by simp
  moreover have "r \<noteq> c" using c by auto
  ultimately have "translate (bytes s') r v = None" "translate (bytes s') c v = None"
    using map c v by (auto simp: mapped_def)
  then show ?thesis by (simp add: copied_def user_load_def)
qed

text \<open>Giving up: the child's address space is freed and nobody notices.\<close>

definition fork_undone :: "addr \<Rightarrow> addr \<Rightarrow> addr set \<Rightarrow> kmem \<Rightarrow> kmem \<Rightarrow> bool" where
  "fork_undone ke kpt P s0 s \<longleftrightarrow>
     mem_inv ke kpt P s
     \<and> (\<forall>r \<in> P. \<forall>v. translate (bytes s) r v = translate (bytes s0) r v \<and> user_load (bytes s) r v = user_load (bytes s0) r v)
     \<and> (\<forall>z. kept ke z P s0 P s)"

lemma fork_undo:
  assumes inv: "mem_inv ke kpt (insert c P) s" and c: "c \<notin> P"
    and tr: "\<And>r v. r \<in> P \<Longrightarrow> translate (bytes s) r v = translate (bytes s0) r v \<and> user_load (bytes s) r v = user_load (bytes s0) r v"
    and k: "\<And>z. kept ke z P s0 (insert c P) s"
  obtains s' where "pfree c s = retIO s'" "fork_undone ke kpt P s0 s'" "bytes s' = bytes s"
    "\<And>q. page_aligned q \<Longrightarrow> q \<notin> set (freed_pages (bytes s) c) \<Longrightarrow> pages s' (page_number q) = pages s (page_number q)"
proof -
  from pfree_drop [OF inv c] obtain s' where s': "pfree c s = retIO s'" "mem_inv ke kpt P s'" "bytes s' = bytes s"
    "\<And>q. page_aligned q \<Longrightarrow> q \<notin> set (freed_pages (bytes s) c) \<Longrightarrow> pages s' (page_number q) = pages s (page_number q)"
    by metis
  have "kept ke z P s0 P s'" for z by (rule kept_trans [OF k kept_pfree [OF inv s'(3,4)]])
  then have "fork_undone ke kpt P s0 s'" using tr s' by (simp add: fork_undone_def)
  then show thesis using that s' by blast
qed

text \<open>The branch that shares the parent's page, or finds none.\<close>

lemma fork_page_share:
  assumes inv: "fork_inv ke kpt P r c s0 va s" and c: "c \<notin> P" "r \<in> P"
    and va: "page_aligned va" "va < MEMSIZE_VIRTUAL" and room: "shared_room r s0"
    and t: "translate (bytes s) r va = Some (pa, perm)" and sh: "\<not> (is_user_writable perm \<and> va \<noteq> CONSOLE_ADDR)"
  obtains (go) s' where "fork_page ke c (fresh_iter (bytes s) r va) s = retIO (0, s')"
      "fork_inv ke kpt P r c s0 (va + PAGESIZE) s'" "agree_on (tables (bytes s) {r}) (bytes s) (bytes s')"
  | (stop) s' where "fork_page ke c (fresh_iter (bytes s) r va) s = retIO (- 1, s')" "fork_undone ke kpt P s0 s'"
proof -
  note i = fork_invD [OF inv] and pp = fork_parent_page [OF inv c(2) va(1) t] and ok = share_ok [OF inv c va(1) t sh]
  have can: "va_is_canonical va" by (rule user_page_canonical [OF va(2)])
  let ?it = "fresh_iter (bytes s) r va"
  have rep: "vm_pa (bytes s) ?it = pa" "vm_perms (bytes s) ?it = perm"
    "vm_user (bytes s) ?it \<longleftrightarrow> is_user perm" "vm_user (bytes s) ?it \<and> vm_writable (bytes s) ?it \<longleftrightarrow> is_user_writable perm"
    using t user_writable_perm by (simp_all add: vm_pa_fresh vm_perms_fresh vm_user_fresh vm_writable_fresh)
  note pw = perm_word32 [OF pp(3)]
  have good: "pt_good (avail ke) s (insert kpt (insert c P))" using i(1) by (simp add: mem_inv_def as_inv_def)
  have ne: "c \<noteq> r" using c by auto
  have agree: "agree_on (tables (bytes s) {r}) (bytes s) (bytes s')" if "pt_frame (avail ke) {c} s s'" for s'
    by (rule own_frame_others [OF good _ _ ne that]) (use c in auto)
  have br: "fork_page ke c ?it s =
      bindIO (Some (child_map ke c va pa perm s)) (\<lambda>(rc, s1).
        if rc < 0 then bindIO (pfree c s1) (\<lambda>s2. retIO (- 1, s2))
        else if vm_user (bytes s1) ?it \<and> \<not> vm_writable (bytes s1) ?it
        then bindIO (Some (inc_page (vm_pa (bytes s1) ?it) s1)) (\<lambda>s2. retIO (0, s2))
        else retIO (0, s1))"
    using sh rep by (auto simp: fork_page_def)
  have fa: "frame_args pa (ucast perm)" by (rule frame_args_present [OF pp(1-4)])
  show thesis
  proof (rule map_step [OF i(1) insertI1 can va(1) fa])
    show "may_map (avail ke) kpt (insert c P) s c va pa (scast (ucast perm :: u32))"
      "place_ok ke va pa (scast (ucast perm :: u32))" using ok pw by simp_all
    show "\<forall>va'. \<not> same_above 0 va va' \<longrightarrow> \<not> user_map (bytes s) c va' pa False" if "is_user (scast (ucast perm :: u32))"
      using ok(2) that pw by simp
  next
    fix s1 assume tm: "try_map (kalloc ke PAGESIZE) (fresh_iter (bytes s) c va) pa (ucast perm) s = Inr (- 1, fresh_iter (bytes s1) c va, s1)"
      and s1: "mem_inv ke kpt (insert c P) s1" and fr: "pt_frame (avail ke) {c} s s1"
      and tr: "\<And>r' va'. r' \<in> insert kpt (insert c P) \<Longrightarrow> translate (bytes s1) r' va' = translate (bytes s) r' va'"
      and ld: "\<And>r' va'. r' \<in> insert c P \<Longrightarrow> user_load (bytes s1) r' va' = user_load (bytes s) r' va'"
    have "translate (bytes s1) r' v = translate (bytes s0) r' v \<and> user_load (bytes s1) r' v = user_load (bytes s0) r' v"
      if "r' \<in> P" for r' v using tr ld i(2,3) that by simp
    from fork_undo [OF s1 c(1) this kept_trans [OF i(8) kept_same [OF i(1) insertI1 fr tr]]]
    obtain s2 where "pfree c s1 = retIO s2" "fork_undone ke kpt P s0 s2" .
    then show thesis using stop br tm by (simp add: child_map_run [OF i(1) can])
  next
    fix s1 assume tm: "try_map (kalloc ke PAGESIZE) (fresh_iter (bytes s) c va) pa (ucast perm) s = Inr (0, fresh_iter (bytes s1) c va, s1)"
      and fm: "frame_mapped ke kpt (insert c P) c va pa (scast (ucast perm :: u32)) s s1"
    have fr: "pt_frame (avail ke) {c} s s1" and as1: "as_inv (avail ke) kpt (insert c P) s1"
      using fm by (auto simp: frame_mapped_def)
    note ag = agree [OF fr]
    have it1: "fresh_iter (bytes s1) r va = ?it"
      using c mem_invD(5) [OF i(1)] by (intro fresh_iter_agree ag) simp
    have t1: "translate (bytes s1) r va = Some (pa, perm)"
      using agree_translate [OF _ ag] mem_invD(5) [OF i(1)] c t by simp
    have rep1: "vm_pa (bytes s1) ?it = pa" "vm_user (bytes s1) ?it \<longleftrightarrow> is_user perm"
      "vm_user (bytes s1) ?it \<and> vm_writable (bytes s1) ?it \<longleftrightarrow> is_user_writable perm"
      using t1 user_writable_perm unfolding it1 [symmetric]
      by (simp_all add: vm_pa_fresh vm_user_fresh vm_writable_fresh)
    have cp: "copied (bytes s1) c r v" if "same_above 0 va v" for v
      using copied_mapped [OF fm [unfolded pw] c pp(5,4) that] by simp
    note cm = child_map_run [OF i(1) can, of pa perm, unfolded tm, simplified]
    show thesis
    proof (cases "is_user perm \<and> \<not> is_user_writable perm")
      case True
      define pgs where "pgs = (pages s1)(page_number pa := (pages s1 (page_number pa))\<lparr>refcount := refcount (pages s1 (page_number pa)) + 1\<rparr>)"
      have al: "allocatable_physical_address ke pa" using ok(1) True by (auto simp: place_ok_def)
      then have "inc_page pa s1 = Inr (s1\<lparr>pages := pgs\<rparr>)"
        using page_number_less [of pa] allocatable_bounds [OF al] by (simp add: inc_page_def Let_def pgs_def)
      then have run: "fork_page ke c ?it s = retIO (0, s1\<lparr>pages := pgs\<rparr>)"
        using br cm rep1 True by simp
      have sg: "single (bytes s) r" using mem_invD(4) [OF i(1)] c by simp
      have later: "pgs (page_number q) = pages s1 (page_number q)"
        if v: "va + PAGESIZE \<le> v" "user_map (bytes s0) r v q False" for v q
      proof -
        have um: "user_map (bytes s) r v q False" using v(2) i(7) c by simp
        then have "q \<noteq> pa" using sg pp(6) True v(1) next_page(2) [OF va] unfolding single_def by blast
        then show ?thesis using page_number_inj [OF user_map_aligned [OF um] pp(1)] by (simp add: pgs_def)
      qed
      have "mem_inv ke kpt (insert c P) (s1\<lparr>pages := pgs\<rparr>)"
      proof (rule frame_mapped_inv [OF i(1) insertI1 fa fm])
        show "pgs (page_number q) = pages s1 (page_number q)"
          if "page_aligned q" "q \<noteq> pa \<or> \<not> is_user (scast (ucast perm :: u32)) \<or> pa = CONSOLE_ADDR" for q
          using that True pw allocatable_not_console [OF al] page_number_inj [OF that(1) pp(1)] by (simp add: pgs_def)
        have "user_map (bytes s1) r va pa False" using t1 True page_base_aligned [OF pp(1)] by (simp add: user_map_def)
        then have "mappers (bytes s1) (insert c P) pa \<noteq> {}" using c by (auto simp: mappers_def)
        then have pg: "pages s1 (page_number pa) = pages s0 (page_number pa)" "pages s (page_number pa) = pages s0 (page_number pa)"
          using mapped_page_count [OF as1 insertI1 fr] i(6) [of va pa] i(7) [of r va pa False] pp(6) True c by auto
        have "refcount (pages s0 (page_number pa)) < 255"
          using room pp(6,7) True i(7) [OF c(2), of va pa] unfolding shared_room_def by blast
        then have "unat (refcount (pgs (page_number pa))) = Suc (unat (refcount (pages s (page_number pa))))"
          unfolding pgs_def using pg by (simp add: word_less_nat_alt unat_add_small)
        moreover have "c \<notin> mappers (bytes s) (insert c P) pa"
        proof -
          have "\<not> user_map (bytes s) c v pa False" for v
          proof (cases "same_above 0 va v")
            case sa: True
            have "translate (bytes s) c v = None" using i(5) [of va] translate_same_page [OF sa] by simp
            then show ?thesis by (simp add: user_map_def)
          next
            case False
            then show ?thesis using ok(2) True by blast
          qed
          then show ?thesis by (simp add: mappers_def)
        qed
        moreover have "finite (mappers (bytes s) (insert c P) pa)" using i(1) by (simp add: mem_inv_def mappers_def)
        moreover have "card (mappers (bytes s) (insert c P) pa) \<le> unat (refcount (pages s (page_number pa)))"
          using i(1) allocatable_not_console [OF al] by (simp add: mem_inv_def counted_def)
        ultimately show "card (insert c (mappers (bytes s) (insert c P) pa)) \<le> unat (refcount (pgs (page_number pa)))" by simp
      qed
      moreover have "kept ke z (insert c P) s (insert c P) (s1\<lparr>pages := pgs\<rparr>)" for z
      proof (cases "z = pa")
        case True
        then show ?thesis
          using pp(6) \<open>is_user perm \<and> \<not> is_user_writable perm\<close> c by (auto simp: kept_def owned_def mappers_def)
      next
        case False
        have "kept ke z (insert c P) s (insert c P) s1" by (rule kept_mapped [OF i(1) insertI1 fa fm False])
        moreover have "kept ke z (insert c P) s1 (insert c P) (s1\<lparr>pages := pgs\<rparr>)"
          by (rule kept_pages) (use False pp(1) page_number_inj [of z pa] in \<open>auto simp: pgs_def owned_def\<close>)
        ultimately show ?thesis by (rule kept_trans)
      qed
      ultimately show thesis using fork_advance [OF inv c va fm _ later kept_trans [OF i(8)] cp] by (intro go [OF run]) (simp_all add: ag)
    next
      case False
      then have run: "fork_page ke c ?it s = retIO (0, s1)" using br cm rep1 by auto
      have "mem_inv ke kpt (insert c P) (s1\<lparr>pages := pages s1\<rparr>)"
      proof (rule frame_mapped_inv [OF i(1) insertI1 fa fm])
        assume "is_user (scast (ucast perm :: u32))" "pa \<noteq> CONSOLE_ADDR"
        then show "card (insert c (mappers (bytes s) (insert c P) pa)) \<le> unat (refcount (pages s1 (page_number pa)))"
          using False sh ok(1) pw user_va_not_console [of va] page_base_aligned [OF va(1)] by (auto simp: place_ok_def)
      qed simp
      moreover have "kept ke z (insert c P) s (insert c P) (s1\<lparr>pages := pages s1\<rparr>)" for z
      proof (cases "is_user perm \<and> z = pa")
        case True
        then show ?thesis using pp(6) c by (auto simp: kept_def owned_def mappers_def)
      next
        case False
        then show ?thesis using kept_mapped [OF i(1) insertI1 fa fm, of z] pw by simp
      qed
      ultimately show thesis using fork_advance_same [OF inv c va fm _ kept_trans [OF i(8)] cp] by (intro go [OF run]) (simp_all add: ag)
    qed
  qed
qed

text \<open>Copying one page to another.\<close>

lemma memcpy_page:
  assumes "page_aligned d" "page_aligned q" "d \<noteq> q"
  shows "memcpy m d q PAGESIZE a = (if page_base a = d then m (q + (a - d)) else m a)"
proof -
  have "d \<noteq> q + of_nat j" if "j < 4096" for j
  proof
    assume "d = q + of_nat j"
    moreover have "page_base (q + of_nat j) = q" using in_page_iff [OF assms(2), of "q + of_nat j"] that
      by (simp add: unat_of_nat_small)
    ultimately show False using assms page_base_aligned by auto
  qed
  then have "memcpy_loop 4096 m d q a = (if unat (a - d) < 4096 then m (q + (a - d)) else m a)"
    by (intro memcpy_loop_apply) auto
  then show ?thesis using in_page_iff [OF assms(1), of a] by (simp add: memcpy_def)
qed

lemma release_step:
  assumes inv: "mem_inv ke kpt P s" and n: "freeable n" "n \<notin> tables (bytes s) (insert kpt P)" "mappers (bytes s) P n = {}"
  obtains s' where "kfree n s = Inr s'" "mem_inv ke kpt P s'" "bytes s' = bytes s"
    "\<And>q. page_aligned q \<Longrightarrow> q \<noteq> n \<Longrightarrow> pages s' (page_number q) = pages s (page_number q)"
proof -
  let ?s' = "s\<lparr>pages := dec_page n (pages s)\<rparr>"
  have al: "page_aligned n" using n(1) by (simp add: freeable_def)
  have same: "pages ?s' (page_number q) = pages s (page_number q)" if "page_aligned q" "q \<noteq> n" for q
    using page_number_inj [OF that(1) al] that(2) by (simp add: dec_page_def)
  have as: "as_inv (avail ke) kpt P s" using inv by (simp add: mem_inv_def)
  have "avail ke ?s' \<subseteq> insert n (avail ke s)" using same by (auto simp: avail_def)
  then have "as_inv (avail ke) kpt P ?s'"
    using n(2,3) by (intro release_frame [OF as]) (auto simp: mappers_def)
  moreover have "card (mappers (bytes s) P q) \<le> unat (refcount (pages ?s' (page_number q)))" if q: "q \<noteq> CONSOLE_ADDR" for q
  proof (cases "mappers (bytes s) P q = {}")
    case False
    then have "q \<noteq> n" "page_aligned q" using n(3) user_map_aligned by (auto simp: mappers_def)
    then show ?thesis using same [of q] inv q by (simp add: mem_inv_def counted_def)
  qed simp
  moreover have "tables_ok ke (bytes s) P (pages ?s')"
    unfolding tables_ok_def
  proof
    fix t assume t: "t \<in> tables (bytes s) P"
    then have tR: "t \<in> tables (bytes s) (insert kpt P)" using tables_mono [of P "insert kpt P" "bytes s"] by auto
    then have "t \<noteq> n" "page_aligned t" using n(2) as tables_aligned by (auto simp: as_inv_def pt_good_def)
    then show "allocatable_physical_address ke t \<and> used (pages ?s' (page_number t))"
      using same [of t] inv t by (simp add: mem_inv_def tables_ok_def)
  qed
  ultimately have "mem_inv ke kpt P ?s'" using inv by (simp add: mem_inv_def counted_def)
  then show thesis using that [of ?s'] kfree_dec [OF n(1)] same by simp
qed

text \<open>The branch that copies the parent's page.\<close>

lemma fork_page_copy:
  assumes inv: "fork_inv ke kpt P r c s0 va s" and c: "c \<notin> P" "r \<in> P"
    and va: "page_aligned va" "va < MEMSIZE_VIRTUAL"
    and t: "translate (bytes s) r va = Some (pa, perm)" and w: "is_user_writable perm" "va \<noteq> CONSOLE_ADDR"
  obtains (go) s' where "fork_page ke c (fresh_iter (bytes s) r va) s = retIO (0, s')"
      "fork_inv ke kpt P r c s0 (va + PAGESIZE) s'" "agree_on (tables (bytes s) {r}) (bytes s) (bytes s')"
  | (stop) s' where "fork_page ke c (fresh_iter (bytes s) r va) s = retIO (- 1, s')" "fork_undone ke kpt P s0 s'"
proof -
  note i = fork_invD [OF inv] and pp = fork_parent_page [OF inv c(2) va(1) t]
  have can: "va_is_canonical va" by (rule user_page_canonical [OF va(2)])
  let ?it = "fresh_iter (bytes s) r va"
  have u: "is_user perm" by (rule is_user_writable_user [OF w(1)])
  have guard: "vm_user (bytes s) ?it \<and> vm_va ?it \<noteq> CONSOLE_ADDR \<and> vm_writable (bytes s) ?it"
    using t w u user_writable_perm by (auto simp: vm_user_fresh vm_writable_fresh)
  obtain n s1 where al: "kalloc ke PAGESIZE s = (n, s1)" by (cases "kalloc ke PAGESIZE s")
  show thesis
  proof (cases "n = 0")
    case True
    then have "s1 = s" using ka.alloc_none al by auto
    have "translate (bytes s) r' v = translate (bytes s0) r' v \<and> user_load (bytes s) r' v = user_load (bytes s0) r' v"
      if "r' \<in> P" for r' v using i(2,3) that by simp
    from fork_undo [OF i(1) c(1) this i(8)] obtain s2 where "pfree c s = retIO s2" "fork_undone ke kpt P s0 s2" .
    then show thesis using stop guard al True \<open>s1 = s\<close> by (simp add: fork_page_def)
  next
    case n0: False
    have as: "as_inv (avail ke) kpt (insert c P) s" using i(1) by (simp add: mem_inv_def)
    have nav: "n \<in> avail ke s" using ka.alloc_some [OF al n0] by simp
    have npa: "n \<noteq> pa" using as pp(6) [OF u] nav c(2) unfolding as_inv_def frames_ok_def by blast
    have aln: "page_aligned n" by (rule avail_aligned [OF nav])
    define m where "m = memcpy (bytes s1) n pa PAGESIZE"
    define s2 where "s2 = s1\<lparr>bytes := m\<rparr>"
    have s1b: "bytes s1 a = bytes s a" if "page_base a \<noteq> n" for a using ka.alloc_some [OF al n0] that by simp
    have mo: "m a = bytes s a" if "page_base a \<noteq> n" for a
      using that memcpy_page [OF aln pp(1) npa] s1b by (simp add: m_def)
    have nc: "n \<noteq> CONSOLE_ADDR" "pa \<noteq> CONSOLE_ADDR"
    proof -
      show "n \<noteq> CONSOLE_ADDR" using nav allocatable_not_console by (auto simp: avail_def)
      have "maps_ok ke (bytes s) r" using mem_invD(3) [OF i(1)] c by simp
      then show "pa \<noteq> CONSOLE_ADDR"
        using pp(6) [OF u] w(2) page_base_aligned [OF va(1)] allocatable_not_console unfolding maps_ok_def by metis
    qed
    have mc: "content_at m (n + (v AND PAGEOFFMASK)) = content_at m (pa + (v AND PAGEOFFMASK))" for v
      using memcpy_page [OF aln pp(1) npa] page_base_offset [OF aln] page_base_offset [OF pp(1)] npa nc by (simp add: m_def content_at_def)
    note fc = fork_claim [OF inv c(2) al n0 mo, folded s2_def] and cf = ka.claim_frame [OF as al n0 mo, folded s2_def]
    note i2 = fork_invD [OF fc(1)]
    have b2: "bytes s2 = m" by (simp add: s2_def)
    have it2: "fresh_iter m r va = ?it" using c mem_invD(5) [OF i(1)] by (intro fresh_iter_agree fc(2)) simp
    have fs1: "agree_on (tables (bytes s) {r}) (bytes s) (bytes s1)" using claim_step(2) [OF i(1) al n0 s1b] c by auto
    have it1: "fresh_iter (bytes s1) r va = ?it" using c mem_invD(5) [OF i(1)] by (intro fresh_iter_agree fs1) simp
    have t1: "translate (bytes s1) r va = Some (pa, perm)" "translate m r va = Some (pa, perm)"
      using agree_translate [OF _ fs1] cf(2) [of r va] mem_invD(5) [OF i(1)] c t by simp_all
    have rep: "vm_pa (bytes s1) ?it = pa" "vm_perms (bytes s2) ?it = perm"
      using vm_pa_fresh [of "bytes s1" r va] vm_perms_fresh [of m r va] t1 by (simp_all add: it1 it2 b2)
    have br: "fork_page ke c ?it s =
        bindIO (Some (child_map ke c va n perm s2)) (\<lambda>(rc, s3).
          if rc < 0 then bindIO (pfree c s3) (\<lambda>s4. bindIO (Some (kfree n s4)) (\<lambda>s5. retIO (- 1, s5)))
          else retIO (0, s3))"
      using guard al n0 rep by (simp add: fork_page_def Let_def m_def s2_def)
    have uv: "user_va va"
    proof -
      have "maps_ok ke (bytes s) r" using mem_invD(3) [OF i(1)] c by simp
      then have "page_base va = CONSOLE_ADDR \<or> user_va va" using pp(6) [OF u] unfolding maps_ok_def by blast
      then show ?thesis using w(2) page_base_aligned [OF va(1)] by simp
    qed
    have aln': "allocatable_physical_address ke n" using nav by (simp add: avail_def)
    note pw = perm_word32 [OF pp(3)]
    have fa: "frame_args n (ucast perm)" by (rule frame_args_present [OF aln ka.free_small [OF nav] pp(3,4)])
    have num: "\<not> user_map (bytes s2) r' v n x" if "r' \<in> insert c P" for r' v x using cf(7) [of r' v x] that b2 by simp
    have ntab: "n \<notin> tables (bytes s2) (insert kpt (insert c P))" using cf(6) b2 by simp
    have good: "pt_good (avail ke) s2 (insert kpt (insert c P))" using i2(1) by (simp add: mem_inv_def as_inv_def)
    have t2: "translate (bytes s2) r v = Some (pa + (v AND PAGEOFFMASK), perm)" if "same_above 0 va v" for v
      using pp(5) [OF that] cf(2) [of r v] c b2 by simp
    show thesis
    proof (rule map_step [OF i2(1) insertI1 can va(1) fa])
      show "may_map (avail ke) kpt (insert c P) s2 c va n (scast (ucast perm :: u32))"
        using cf(5) num ntab by (auto simp: may_map_def)
      show "place_ok ke va n (scast (ucast perm :: u32))" using uv aln' by (simp add: place_ok_def)
      show "\<forall>va'. \<not> same_above 0 va va' \<longrightarrow> \<not> user_map (bytes s2) c va' n False" using num by simp
    next
      fix s3 assume tm: "try_map (kalloc ke PAGESIZE) (fresh_iter (bytes s2) c va) n (ucast perm) s2 = Inr (0, fresh_iter (bytes s3) c va, s3)"
        and fm: "frame_mapped ke kpt (insert c P) c va n (scast (ucast perm :: u32)) s2 s3"
      have run: "fork_page ke c ?it s = retIO (0, s3)"
        using br tm by (simp add: child_map_run [OF i2(1) can])
      have fr: "pt_frame (avail ke) {c} s2 s3" using fm by (simp add: frame_mapped_def)
      have ag2: "agree_on (tables (bytes s2) {r}) (bytes s2) (bytes s3)"
        by (rule own_frame_others [OF good _ _ _ fr]) (use c in auto)
      have "tables (bytes s2) {r} = tables (bytes s) {r}"
        using agree_forest(2) [OF _ fc(2)] mem_invD(5) [OF i(1), of r] c b2 by simp
      with ag2 fc(2) have ag: "agree_on (tables (bytes s) {r}) (bytes s) (bytes s3)" by (auto simp: agree_on_def b2)
      have cp: "copied (bytes s3) c r v" if "same_above 0 va v" for v
        using copied_mapped [OF fm [unfolded pw] c t2 pp(4) that] w page_base_aligned [OF va(1)] mc b2 by simp
      have "mem_inv ke kpt (insert c P) (s3\<lparr>pages := pages s3\<rparr>)"
      proof (rule frame_mapped_inv [OF i2(1) insertI1 fa fm])
        have em: "mappers (bytes s2) (insert c P) n = {}" using num by (auto simp: mappers_def)
        have "pages s2 (page_number n) = \<lparr>refcount = 1\<rparr>" using ka.alloc_some [OF al n0] by (simp add: s2_def)
        moreover have "pages s3 (page_number n) = pages s2 (page_number n)"
        proof (rule mapped_page_count [OF _ insertI1 fr])
          show "as_inv (avail ke) kpt (insert c P) s3" using fm by (simp add: frame_mapped_def)
          have "mapped (insert kpt (insert c P)) c va n (scast (ucast perm :: u32)) (bytes s2) (bytes s3)"
            using fm by (simp add: frame_mapped_def)
          from frame_user_map [OF fa this, of c va n False]
          have "user_map (bytes s3) c va n False" using u pw by (simp add: same_above_def)
          then show "mappers (bytes s3) (insert c P) n \<noteq> {}" by (auto simp: mappers_def)
        qed
        ultimately show "card (insert c (mappers (bytes s2) (insert c P) n)) \<le> unat (refcount (pages s3 (page_number n)))"
          using em by simp
      qed simp_all
      moreover have "kept ke z P s0 (insert c P) (s3\<lparr>pages := pages s3\<rparr>)" for z
        unfolding kept_def
      proof (intro impI)
        assume z0: "owned ke P s0 z"
        then have "owned ke (insert c P) s z" using i(8) [of z] by (simp add: kept_def)
        then have "z \<noteq> n" using nav by (auto simp: owned_def)
        then have "kept ke z (insert c P) s2 (insert c P) s3" by (intro kept_mapped [OF i2(1) insertI1 fa fm])
        then show "owned ke (insert c P) (s3\<lparr>pages := pages s3\<rparr>) z
            \<and> pages (s3\<lparr>pages := pages s3\<rparr>) (page_number z) = pages s0 (page_number z)
            \<and> (\<forall>a. page_base a = z \<longrightarrow> bytes (s3\<lparr>pages := pages s3\<rparr>) a = bytes s0 a)"
          using i2(8) [of z] z0 by (simp add: kept_def)
      qed
      ultimately show thesis using fork_advance_same [OF fc(1) c va fm _ _ cp] by (intro go [OF run]) (simp_all add: ag)
    next
      fix s3 assume tm: "try_map (kalloc ke PAGESIZE) (fresh_iter (bytes s2) c va) n (ucast perm) s2 = Inr (- 1, fresh_iter (bytes s3) c va, s3)"
        and s3: "mem_inv ke kpt (insert c P) s3" and fr: "pt_frame (avail ke) {c} s2 s3"
        and tr: "\<And>r' va'. r' \<in> insert kpt (insert c P) \<Longrightarrow> translate (bytes s3) r' va' = translate (bytes s2) r' va'"
        and ld: "\<And>r' va'. r' \<in> insert c P \<Longrightarrow> user_load (bytes s3) r' va' = user_load (bytes s2) r' va'"
      have "translate (bytes s3) r' v = translate (bytes s0) r' v \<and> user_load (bytes s3) r' v = user_load (bytes s0) r' v"
        if "r' \<in> P" for r' v using tr ld i2(2,3) that by simp
      from fork_undo [OF s3 c(1) this kept_trans [OF i2(8) kept_same [OF i2(1) insertI1 fr tr]]]
      obtain s4 where s4: "pfree c s3 = retIO s4" "fork_undone ke kpt P s0 s4" "bytes s4 = bytes s3" .
      have nt: "n \<notin> tables (bytes s4) (insert kpt P)"
      proof
        assume "n \<in> tables (bytes s4) (insert kpt P)"
        then obtain r' where r': "r' \<in> insert kpt P" "n \<in> tables (bytes s3) {r'}" using s4(3) by (auto simp: tables_def)
        have "c \<noteq> r'" using r'(1) c(1) as by (auto simp: as_inv_def)
        then have "agree_on (tables (bytes s2) {r'}) (bytes s2) (bytes s3)"
          using r'(1) by (intro own_frame_others [OF good _ _ _ fr]) auto
        moreover have "forest (bytes s2) {r'}" using good r'(1) forest_subset by (auto simp: pt_good_def)
        ultimately have "tables (bytes s3) {r'} = tables (bytes s2) {r'}" by (rule agree_forest(2) [rotated])
        then have "n \<in> tables (bytes s2) (insert kpt (insert c P))"
          using r' tables_mono [of "{r'}" "insert kpt (insert c P)" "bytes s2"] by auto
        then show False using ntab by simp
      qed
      have "mappers (bytes s4) P n = {}"
      proof -
        have "user_map (bytes s4) r' v n False = user_map (bytes s2) r' v n False" if "r' \<in> P" for r' v
          using tr [of r' v] that s4(3) by (intro user_map_cong) simp
        then show ?thesis using num by (auto simp: mappers_def)
      qed
      moreover have "mem_inv ke kpt P s4" using s4(2) by (simp add: fork_undone_def)
      ultimately obtain s5 where s5: "kfree n s4 = Inr s5" "mem_inv ke kpt P s5" "bytes s5 = bytes s4"
          "\<And>q. page_aligned q \<Longrightarrow> q \<noteq> n \<Longrightarrow> pages s5 (page_number q) = pages s4 (page_number q)"
        using release_step [OF _ allocatable_freeable [OF aln' aln] nt] by metis
      have "kept ke z P s0 P s5" for z
        unfolding kept_def
      proof (intro impI)
        assume z0: "owned ke P s0 z"
        then have "owned ke (insert c P) s z" using i(8) [of z] by (simp add: kept_def)
        then have "z \<noteq> n" "page_aligned z" using nav by (auto simp: owned_def)
        then have pg: "pages s5 (page_number z) = pages s4 (page_number z)" by (intro s5(4))
        have "kept ke z P s0 P s4" using s4(2) by (simp add: fork_undone_def)
        then show "owned ke P s5 z \<and> pages s5 (page_number z) = pages s0 (page_number z)
            \<and> (\<forall>a. page_base a = z \<longrightarrow> bytes s5 a = bytes s0 a)"
          using z0 pg s5(3) avail_same [OF pg, of ke] by (simp add: kept_def owned_def)
      qed
      then have "fork_undone ke kpt P s0 s5" using s4(2) s5 by (simp add: fork_undone_def)
      then show thesis using stop br tm s4(1) s5(1) by (simp add: child_map_run [OF i2(1) can])
    qed
  qed
qed

text \<open>An address at which the parent has nothing.\<close>

lemma fork_page_absent:
  assumes inv: "fork_inv ke kpt P r c s0 va s" and c: "c \<notin> P" "r \<in> P"
    and va: "page_aligned va" "va < MEMSIZE_VIRTUAL" and t: "translate (bytes s) r va = None"
  obtains (go) s' where "fork_page ke c (fresh_iter (bytes s) r va) s = retIO (0, s')"
      "fork_inv ke kpt P r c s0 (va + PAGESIZE) s'" "agree_on (tables (bytes s) {r}) (bytes s) (bytes s')"
  | (stop) s' where "fork_page ke c (fresh_iter (bytes s) r va) s = retIO (- 1, s')" "fork_undone ke kpt P s0 s'"
proof -
  note i = fork_invD [OF inv]
  have can: "va_is_canonical va" by (rule user_page_canonical [OF va(2)])
  let ?it = "fresh_iter (bytes s) r va"
  have good: "pt_good (avail ke) s (insert kpt (insert c P))" using i(1) by (simp add: mem_inv_def as_inv_def)
  have fa: "frame_args (- 1) (ucast (0 :: u64))" by (simp add: frame_args_def)
  have nu: "\<not> is_user (scast (ucast (0 :: u64) :: u32))" by (simp add: is_user_def)
  have br: "fork_page ke c ?it s =
      bindIO (Some (child_map ke c va (- 1) 0 s)) (\<lambda>(rc, s1).
        if rc < 0 then bindIO (pfree c s1) (\<lambda>s2. retIO (- 1, s2))
        else if vm_user (bytes s1) ?it \<and> \<not> vm_writable (bytes s1) ?it
        then bindIO (Some (inc_page (vm_pa (bytes s1) ?it) s1)) (\<lambda>s2. retIO (0, s2))
        else retIO (0, s1))"
    using t by (simp add: fork_page_def vm_user_fresh vm_pa_fresh vm_perms_fresh)
  show thesis
  proof (rule map_step [OF i(1) insertI1 can va(1) fa])
    show "may_map (avail ke) kpt (insert c P) s c va (- 1) (scast (ucast (0 :: u64) :: u32))"
      "place_ok ke va (- 1) (scast (ucast (0 :: u64) :: u32))" using nu by (simp_all add: may_map_def place_ok_def)
    show "\<forall>va'. \<not> same_above 0 va va' \<longrightarrow> \<not> user_map (bytes s) c va' (- 1) False"
      if "is_user (scast (ucast (0 :: u64) :: u32))" using that nu by simp
  next
    fix s1 assume tm: "try_map (kalloc ke PAGESIZE) (fresh_iter (bytes s) c va) (- 1) (ucast (0 :: u64)) s = Inr (- 1, fresh_iter (bytes s1) c va, s1)"
      and s1: "mem_inv ke kpt (insert c P) s1" and fr: "pt_frame (avail ke) {c} s s1"
      and tr: "\<And>r' va'. r' \<in> insert kpt (insert c P) \<Longrightarrow> translate (bytes s1) r' va' = translate (bytes s) r' va'"
      and ld: "\<And>r' va'. r' \<in> insert c P \<Longrightarrow> user_load (bytes s1) r' va' = user_load (bytes s) r' va'"
    have "translate (bytes s1) r' v = translate (bytes s0) r' v \<and> user_load (bytes s1) r' v = user_load (bytes s0) r' v"
      if "r' \<in> P" for r' v using tr ld i(2,3) that by simp
    from fork_undo [OF s1 c(1) this kept_trans [OF i(8) kept_same [OF i(1) insertI1 fr tr]]]
    obtain s2 where "pfree c s1 = retIO s2" "fork_undone ke kpt P s0 s2" .
    then show thesis using stop br tm by (simp add: child_map_run [OF i(1) can])
  next
    fix s1 assume tm: "try_map (kalloc ke PAGESIZE) (fresh_iter (bytes s) c va) (- 1) (ucast (0 :: u64)) s = Inr (0, fresh_iter (bytes s1) c va, s1)"
      and fm: "frame_mapped ke kpt (insert c P) c va (- 1) (scast (ucast (0 :: u64) :: u32)) s s1"
    have fr: "pt_frame (avail ke) {c} s s1" using fm by (simp add: frame_mapped_def)
    have ag: "agree_on (tables (bytes s) {r}) (bytes s) (bytes s1)"
      by (rule own_frame_others [OF good _ _ _ fr]) (use c in auto)
    have it1: "fresh_iter (bytes s1) r va = ?it" using c mem_invD(5) [OF i(1)] by (intro fresh_iter_agree ag) simp
    have "translate (bytes s1) r va = None" using agree_translate [OF _ ag] mem_invD(5) [OF i(1)] c t by simp
    then have "\<not> vm_user (bytes s1) ?it" using vm_user_fresh [of "bytes s1" r va] by (simp add: it1)
    then have run: "fork_page ke c ?it s = retIO (0, s1)" using br tm by (simp add: child_map_run [OF i(1) can])
    have cp: "copied (bytes s1) c r v" if "same_above 0 va v" for v
      by (rule copied_absent [OF _ c t that]) (use fm in simp)
    have "mem_inv ke kpt (insert c P) (s1\<lparr>pages := pages s1\<rparr>)"
      by (rule frame_mapped_inv [OF i(1) insertI1 fa fm]) (use nu in auto)
    moreover have "kept ke z P s0 (insert c P) (s1\<lparr>pages := pages s1\<rparr>)" for z
      using kept_trans [OF i(8) kept_mapped [OF i(1) insertI1 fa fm, of z]] nu by simp
    ultimately show thesis using fork_advance_same [OF inv c va fm _ _ cp] by (intro go [OF run]) (simp_all add: ag)
  qed
qed

section \<open>The loop\<close>

lemma fork_page_step:
  assumes inv: "fork_inv ke kpt P r c s0 va s" and c: "c \<notin> P" "r \<in> P"
    and va: "page_aligned va" "va < MEMSIZE_VIRTUAL" and room: "shared_room r s0"
  obtains (go) s' where "fork_page ke c (fresh_iter (bytes s) r va) s = retIO (0, s')"
      "fork_inv ke kpt P r c s0 (va + PAGESIZE) s'" "agree_on (tables (bytes s) {r}) (bytes s) (bytes s')"
  | (stop) s' where "fork_page ke c (fresh_iter (bytes s) r va) s = retIO (- 1, s')" "fork_undone ke kpt P s0 s'"
proof (cases "translate (bytes s) r va")
  case None
  show thesis by (rule fork_page_absent [OF inv c va None]) (fact go stop)+
next
  case (Some x)
  then obtain pa perm where t: "translate (bytes s) r va = Some (pa, perm)" by (cases x) auto
  show thesis
  proof (cases "is_user_writable perm \<and> va \<noteq> CONSOLE_ADDR")
    case True
    then have w: "is_user_writable perm" "va \<noteq> CONSOLE_ADDR" by auto
    show thesis by (rule fork_page_copy [OF inv c va t w]) (fact go stop)+
  next
    case False
    show thesis by (rule fork_page_share [OF inv c va room t False]) (fact go stop)+
  qed
qed

lemma fork_loop_run:
  assumes "fork_inv ke kpt P r c s0 va s" "c \<notin> P" "r \<in> P" "page_aligned va" "va \<le> MEMSIZE_VIRTUAL" "shared_room r s0"
  shows "\<exists>s'. fork_loop ke c (fresh_iter (bytes s) r va) s = retIO (0, s') \<and> fork_inv ke kpt P r c s0 MEMSIZE_VIRTUAL s'
    \<or> fork_loop ke c (fresh_iter (bytes s) r va) s = retIO (- 1, s') \<and> fork_undone ke kpt P s0 s'"
  using assms
proof (induction "0x300000 - unat va" arbitrary: va s rule: less_induct)
  case less
  let ?it = "fresh_iter (bytes s) r va"
  show ?case
  proof (cases "va < MEMSIZE_VIRTUAL")
    case False
    then have va: "va = MEMSIZE_VIRTUAL" using less.prems(5) by simp
    then have "fork_loop ke c ?it s = retIO (0, s)" by (subst fork_loop.simps) simp
    then show ?thesis using less.prems(1) va by blast
  next
    case True
    show ?thesis
    proof (rule fork_page_step [OF less.prems(1-4) True less.prems(6)])
      fix s' assume run: "fork_page ke c ?it s = retIO (- 1, s')" and undone: "fork_undone ke kpt P s0 s'"
      have "fork_loop ke c ?it s = retIO (- 1, s')" using run True by (subst fork_loop.simps) simp
      then show ?thesis using undone by blast
    next
      fix s' assume run: "fork_page ke c ?it s = retIO (0, s')" and inv: "fork_inv ke kpt P r c s0 (va + PAGESIZE) s'"
        and ag: "agree_on (tables (bytes s) {r}) (bytes s) (bytes s')"
      note np = next_page [OF less.prems(4) True] and d = mem_invD [OF fork_invD(1) [OF inv], of r]
      have it: "?it = fresh_iter (bytes s') r va"
        using fresh_iter_agree [OF _ ag] mem_invD(5) [OF fork_invD(1) [OF less.prems(1)]] less.prems(3) by simp
      obtain k where k: "unat va = 4096 * k" using less.prems(4) by (auto simp: page_aligned_iff)
      have lt: "unat va < 0x300000" using True by (simp add: word_less_nat_alt)
      then have le: "va + PAGESIZE \<le> MEMSIZE_VIRTUAL" using np(4) k by (simp add: word_le_nat_alt)
      have "va_is_canonical (va + PAGESIZE)" using np(4) lt by (intro small_canonical) simp
      then have "vm_plus (bytes s') ?it PAGESIZE = Inr (fresh_iter (bytes s') r (va + PAGESIZE))"
        unfolding it using d(1,2) less.prems(3) by (intro vm_plus_fresh) simp_all
      then have "fork_loop ke c ?it s = fork_loop ke c (fresh_iter (bytes s') r (va + PAGESIZE)) s'"
        using True run by (subst fork_loop.simps) simp
      moreover have "0x300000 - unat (va + PAGESIZE) < 0x300000 - unat va" using np(4) lt by simp
      ultimately show ?thesis using less.hyps [OF _ inv less.prems(2,3) np(3) le less.prems(6)] by simp
    qed
  qed
qed

section \<open>A new address space\<close>

lemma empty_root:
  assumes "page_aligned n" "\<forall>a. page_base a = n \<longrightarrow> m a = 0"
  shows "valid_path p \<Longrightarrow> pt_node m n p = Some t \<Longrightarrow> p = [] \<and> t = n"
    and "tables m {n} = {n}" "translate m n va = None" "ptree_ok m n"
proof -
  have e: "ld64 m (entry_addr n i) = 0" if "i < 512" for i
    using assms that by (intro ld64_zero_page) auto
  show nd: "p = [] \<and> t = n" if "valid_path p" "pt_node m n p = Some t" for p t
  proof (cases p rule: rev_cases)
    case (snoc q i)
    then have "pt_node m n [i] = None" using e [of i] that(1) by (simp add: valid_path_def table_entry_def)
    then have "pt_node m n (q @ [i]) = None" by (rule pt_node_None_append)
    then show ?thesis using that snoc by simp
  qed (use that in simp)
  then show "tables m {n} = {n}" unfolding tables_def by (auto intro: exI [of _ "[]"])
  show "translate m n va = None" using e by (simp add: translate_def Let_def)
  show "ptree_ok m n" unfolding ptree_ok_def using nd e entry_ok_0 by metis
qed

lemma add_root:
  assumes inv: "mem_inv ke kpt P s" and al: "kalloc ke PAGESIZE s = (n, s1)" "n \<noteq> 0"
    and s2: "s2 = s1\<lparr>bytes := memset (bytes s1) n 0 PAGESIZE\<rparr>"
  shows "mem_inv ke kpt (insert n P) s2" "n \<notin> P" "\<And>v. translate (bytes s2) n v = None"
    and "\<And>r v. r \<in> P \<Longrightarrow> translate (bytes s2) r v = translate (bytes s) r v \<and> user_load (bytes s2) r v = user_load (bytes s) r v"
    and "\<And>r v q. r \<in> P \<Longrightarrow> user_map (bytes s) r v q False \<Longrightarrow> pages s2 (page_number q) = pages s (page_number q)"
    and "\<And>z. kept ke z P s (insert n P) s2"
proof -
  have as: "as_inv (avail ke) kpt P s" using inv by (simp add: mem_inv_def)
  note z = zeroed_page [OF as al s2]
  have aln: "page_aligned n" by (rule avail_aligned [OF z(2)])
  have "\<forall>a. page_base a = n \<longrightarrow> bytes s2 a = 0" using z(8) by simp
  note er = empty_root [OF aln this]
  have i2: "mem_inv ke kpt P s2" unfolding s2
    by (rule claim_step(1) [OF inv al]) (use z(10) s2 in simp)
  have nt: "n \<notin> tables (bytes s2) (insert kpt P)" by (rule z(6))
  then show nP: "n \<notin> P" using root_in_tables [of n "insert kpt P" "bytes s2"] by auto
  have nk: "n \<noteq> kpt" using nt root_in_tables [of n "insert kpt P" "bytes s2"] by auto
  show tn: "\<And>v. translate (bytes s2) n v = None" by (rule er(3))
  have un: "\<not> user_map (bytes s2) n v q w" for v q w by (simp add: user_map_def tn)
  show "\<And>r v. r \<in> P \<Longrightarrow> translate (bytes s2) r v = translate (bytes s) r v \<and> user_load (bytes s2) r v = user_load (bytes s) r v"
    using z(4,5) by simp
  show "pages s2 (page_number q) = pages s (page_number q)" if "r \<in> P" "user_map (bytes s) r v q False" for r v q
  proof -
    have "q \<noteq> n" using as that z(2) unfolding as_inv_def frames_ok_def by blast
    then show ?thesis using z(9) page_number_inj [OF user_map_aligned [OF that(2)] aln] by simp
  qed
  have tb: "tables (bytes s2) (insert kpt (insert n P)) = insert n (tables (bytes s2) (insert kpt P))"
    using er(2) by (auto simp: tables_def)
  have "forest (bytes s2) (insert kpt (insert n P))"
    unfolding forest_def
  proof (intro conjI ballI allI impI)
    have f: "forest (bytes s2) (insert kpt P)" using i2 by (simp add: mem_inv_def as_inv_def pt_good_def)
    show "page_aligned r" if "r \<in> insert kpt (insert n P)" for r using that aln forest_aligned [OF f] by auto
    fix r r' p p' t assume r: "r \<in> insert kpt (insert n P)" "r' \<in> insert kpt (insert n P)"
      and p: "valid_path p" "valid_path p'" "pt_node (bytes s2) r p = Some t" "pt_node (bytes s2) r' p' = Some t"
    have "t = n" if "x = n" "valid_path y" "pt_node (bytes s2) x y = Some t" for x y using that er(1) by auto
    moreover have "t \<noteq> n" if "x \<in> insert kpt P" "valid_path y" "pt_node (bytes s2) x y = Some t" for x y
      using that nt tablesI by metis
    ultimately have "r = n \<longleftrightarrow> r' = n" using r p by (metis insertE insertI1 insertI2)
    then show "r = r'" "p = p'" using r p er(1) forest_inj [OF f, of r r' p p' t] by auto
  qed
  moreover have "n \<notin> avail ke s2" using z(3) by simp
  ultimately have "as_inv (avail ke) kpt (insert n P) s2"
    using i2 nk un z(7) er(4) unfolding mem_inv_def as_inv_def pt_good_def frames_ok_def exclusive_def tb by auto
  moreover have mp: "mappers (bytes s2) (insert n P) q = mappers (bytes s2) P q" for q
    using un by (auto simp: mappers_def)
  moreover have tb': "tables (bytes s2) (insert n P) = insert n (tables (bytes s2) P)" using er(2) by (auto simp: tables_def)
  moreover have "allocatable_physical_address ke n" "used (pages s2 (page_number n))"
    using z(2,9) by (simp_all add: avail_def used_def)
  ultimately show "mem_inv ke kpt (insert n P) s2"
    using i2 un by (simp add: mem_inv_def counted_def tables_ok_def maps_ok_def single_def)
  show "kept ke x P s (insert n P) s2" for x
  proof -
    have "kept ke x P s P s2" unfolding s2 by (rule kept_claim [OF inv al]) (use z(10) s2 in simp)
    then show ?thesis using z(2) mp tb' by (auto simp: kept_def owned_def)
  qed
qed

lemma fork_inv_start:
  assumes inv: "mem_inv ke kpt P s" and r: "r \<in> P" and al: "kalloc ke PAGESIZE s = (n, s1)" "n \<noteq> 0"
    and s2: "s2 = s1\<lparr>bytes := memset (bytes s1) n 0 PAGESIZE\<rparr>"
  shows "fork_inv ke kpt P r n s 0 s2" "n \<notin> P"
  using add_root [OF inv al s2] r unfolding fork_inv_def by auto

section \<open>The child's address space\<close>

lemma user_load_user_map: "user_load m r va = Some b \<Longrightarrow> \<exists>q. user_map m r va q False"
  by (auto simp: user_load_def user_map_def split: option.splits if_splits)

lemma console_page_low: "page_base va = CONSOLE_ADDR \<Longrightarrow> va < PROC_START_ADDR"
proof -
  assume "page_base va = CONSOLE_ADDR"
  then have "4096 * (unat va div 4096) = 0xB8000" using unat_page_base [of va] by simp
  then have "unat va div 4096 = 0xB8" by simp
  then show ?thesis by (simp add: word_less_nat_alt)
qed

lemma fork_child_load:
  assumes inv: "fork_inv ke kpt P r c s0 MEMSIZE_VIRTUAL s" and r: "r \<in> P"
  shows "user_load (bytes s) c va = user_load (bytes s0) r va"
proof (cases "va < MEMSIZE_VIRTUAL")
  case True
  then show ?thesis using fork_invD(3,4) [OF inv] r by (simp add: copied_def)
next
  case False
  then have "translate (bytes s) c va = None" using fork_invD(5) [OF inv] by simp
  then have "user_load (bytes s) c va = None" by (simp add: user_load_def)
  moreover have "user_load (bytes s) r va = None"
  proof (rule ccontr)
    assume "user_load (bytes s) r va \<noteq> None"
    then obtain q where "user_map (bytes s) r va q False" using user_load_user_map by blast
    then have "page_base va = CONSOLE_ADDR \<or> user_va va"
      using mem_invD(3) [OF fork_invD(1) [OF inv], of r] r unfolding maps_ok_def by blast
    then have "va < PROC_START_ADDR \<or> va < MEMSIZE_VIRTUAL" using console_page_low by (auto simp: user_va_def)
    then show False using False by (auto simp: word_less_nat_alt)
  qed
  ultimately show ?thesis using fork_invD(3) [OF inv r] by simp
qed

lemma fork_child_low:
  assumes inv: "fork_inv ke kpt P r c s0 MEMSIZE_VIRTUAL s" and r: "r \<in> P" and low: "low_ident (bytes s0) r"
  shows "low_ident (bytes s) c"
  unfolding low_ident_def
proof (intro allI impI)
  fix va assume va: "va < PROC_START_ADDR"
  note i = fork_invD [OF inv]
  obtain perm where t: "translate (bytes s) r va = Some (va, perm)"
    using low va i(2) [OF r] by (auto simp: low_ident_def)
  have "va < MEMSIZE_VIRTUAL" using va by (auto simp: word_less_nat_alt)
  then obtain pa' perm' where c: "translate (bytes s) c va = Some (pa', perm')"
      "pa' = va \<or> is_user_writable perm \<and> page_base va \<noteq> CONSOLE_ADDR"
    using i(4) [of va] t by (auto simp: copied_def)
  have "page_base va = CONSOLE_ADDR" if "is_user_writable perm"
  proof -
    have "user_map (bytes s) r va (page_base va) False"
      using t is_user_writable_user [OF that] by (simp add: user_map_def)
    then have "page_base va = CONSOLE_ADDR \<or> user_va va"
      using mem_invD(3) [OF i(1), of r] r unfolding maps_ok_def by blast
    then show ?thesis using va by (auto simp: user_va_def)
  qed
  then show "\<exists>perm. translate (bytes s) c va = Some (va, perm)" using c by blast
qed

lemma find_free_spec:
  assumes "i \<le> NPROC"
  shows "i \<le> find_free pt i \<and> find_free pt i \<le> NPROC
    \<and> (find_free pt i < NPROC \<longrightarrow> state (pt (find_free pt i)) = P_FREE)
    \<and> (\<forall>j. i \<le> j \<and> j < find_free pt i \<longrightarrow> state (pt j) \<noteq> P_FREE)"
  using assms
proof (induction pt i rule: find_free.induct)
  case (1 pt i)
  show ?case
  proof (cases "i < NPROC \<and> state (pt i) \<noteq> P_FREE")
    case True
    then have "find_free pt i = find_free pt (i + 1)" by (subst find_free.simps) simp
    moreover have "i + 1 \<le> NPROC" using True by simp
    note IH = 1(1) [OF True this]
    moreover have "state (pt j) \<noteq> P_FREE" if "i \<le> j" "j < find_free pt (i + 1)" for j
      using IH True that by (cases "j = i") auto
    ultimately show ?thesis by auto
  next
    case False
    then have "find_free pt i = i" by (subst find_free.simps) auto
    then show ?thesis using False 1(2) by auto
  qed
qed

section \<open>Specification\<close>

text \<open>What a caller, every other process and the kernel's own pages see of a fork.\<close>

definition fork_outcome :: "addr \<Rightarrow> addr \<Rightarrow> kernel \<Rightarrow> int \<Rightarrow> kernel \<Rightarrow> bool" where
  "fork_outcome ke kpt k r k' \<longleftrightarrow>
     sys_inv ke kpt k' \<and> current k' = current k
     \<and> (\<forall>i \<in> live k. ptable k' i = ptable k i \<and> (\<forall>va. space k' i va = space k i va))
     \<and> (\<forall>i. pid (ptable k' i) = pid (ptable k i) \<or> pid (ptable k' i) = int i)
     \<and> (\<forall>z. kept ke z (proc_roots k) (phys k) (proc_roots k') (phys k'))
     \<and> (r = - 1 \<and> live k' = live k
        \<or> (\<exists>c. r = int c \<and> 1 \<le> c \<and> c < NPROC \<and> c \<notin> live k \<and> live k' = insert c (live k)
            \<and> (\<forall>va. space k' c va = space k (current k) va)
            \<and> pid (ptable k' c) = int c \<and> state (ptable k' c) = state (ptable k (current k))
            \<and> regs (ptable k' c) = (regs (ptable k (current k)))\<lparr>reg_rax := 0\<rparr>))"

lemma fork_outcome_same: "sys_inv ke kpt k \<Longrightarrow> fork_outcome ke kpt k (- 1) k"
  by (simp add: fork_outcome_def kept_refl)

lemma sys_invD:
  assumes "sys_inv ke kpt k"
  shows "mem_inv ke kpt (proc_roots k) (phys k)" "inj_on (\<lambda>i. pagetable (ptable k i)) (live k)"
    and "\<And>i. i \<in> live k \<Longrightarrow> low_ident (bytes (phys k)) (pagetable (ptable k i))"
    and "\<And>i. i \<in> live k \<Longrightarrow> pagetable (ptable k i) \<in> proc_roots k"
  using assms by (auto simp: sys_inv_def proc_roots_def)

lemma live_root: "i \<in> live k \<Longrightarrow> pagetable (ptable k i) \<in> proc_roots k"
  by (simp add: proc_roots_def)

text \<open>A fork that has failed half-way leaves a page-table pointer in a free process descriptor.\<close>

lemma fork_failed:
  assumes inv: "sys_inv ke kpt k" and c: "c \<notin> live k" "c < NPROC" and un: "fork_undone ke kpt (proc_roots k) (phys k) s"
    and k': "k' = k\<lparr>ptable := (ptable k)(c := (ptable k c)\<lparr>pagetable := n\<rparr>), phys := s\<rparr>"
  shows "fork_outcome ke kpt k (- 1) k'"
proof -
  note i = sys_invD [OF inv]
  have lv: "live k' = live k" using c by (auto simp: live_def k')
  have same: "ptable k' i = ptable k i" if "i \<in> live k" for i using that c by (auto simp: k')
  have rt: "proc_roots k' = proc_roots k" unfolding proc_roots_def lv using same by (intro image_cong) auto
  have "sys_inv ke kpt k'"
    unfolding sys_inv_def rt lv using un i same
    by (auto simp: fork_undone_def low_ident_def inj_on_def k')
  moreover have "\<forall>i \<in> live k. ptable k' i = ptable k i \<and> (\<forall>va. space k' i va = space k i va)"
    using same un i(4) by (auto simp: space_def fork_undone_def k')
  ultimately show ?thesis using un lv rt by (simp add: fork_outcome_def fork_undone_def k')
qed

lemma fork_succeeded:
  assumes inv: "sys_inv ke kpt k" and cur: "current k \<in> live k" and c: "c \<notin> live k" "1 \<le> c" "c < NPROC"
    and fi: "fork_inv ke kpt (proc_roots k) (pagetable (ptable k (current k))) n (phys k) MEMSIZE_VIRTUAL s"
    and n: "n \<notin> proc_roots k"
    and k': "k' = k\<lparr>phys := s, ptable := (ptable k)(c := (ptable k c)\<lparr>pagetable := n, pid := int c,
       regs := (regs (ptable k (current k)))\<lparr>reg_rax := 0\<rparr>, state := state (ptable k (current k))\<rparr>)\<rparr>"
  shows "fork_outcome ke kpt k (int c) k'"
proof -
  let ?r = "pagetable (ptable k (current k))"
  note i = sys_invD [OF inv] and fd = fork_invD [OF fi]
  have lv: "live k' = insert c (live k)" using c cur by (auto simp: live_def k')
  have same: "ptable k' i = ptable k i" if "i \<in> live k" for i using that c by (auto simp: k')
  have cpt: "pagetable (ptable k' c) = n" by (simp add: k')
  have "(\<lambda>i. pagetable (ptable k' i)) ` live k = proc_roots k" unfolding proc_roots_def using same by (intro image_cong) auto
  then have rt: "proc_roots k' = insert n (proc_roots k)" unfolding proc_roots_def lv using cpt by simp
  have "sys_inv ke kpt k'"
    unfolding sys_inv_def rt lv
  proof (intro conjI ballI)
    show "mem_inv ke kpt (insert n (proc_roots k)) (phys k')" using fd(1) by (simp add: k')
    have "inj_on (\<lambda>i. pagetable (ptable k' i)) (live k)" using i(2) same by (auto simp: inj_on_def)
    moreover have "pagetable (ptable k' c) \<notin> (\<lambda>i. pagetable (ptable k' i)) ` live k"
      using cpt i(4) same n by auto
    ultimately show "inj_on (\<lambda>i. pagetable (ptable k' i)) (insert c (live k))" using c by simp
    fix j assume "j \<in> insert c (live k)"
    then show "low_ident (bytes (phys k')) (pagetable (ptable k' j))"
    proof
      assume "j = c"
      then show ?thesis using fork_child_low [OF fi i(4) [OF cur] i(3) [OF cur]] cpt by (simp add: k')
    next
      assume j: "j \<in> live k"
      then show ?thesis using i(3) [OF j] same [OF j] fd(2) [OF i(4) [OF j]] by (simp add: low_ident_def k')
    qed
  qed
  moreover have "\<forall>i \<in> live k. ptable k' i = ptable k i \<and> (\<forall>va. space k' i va = space k i va)"
    using same fd(3) i(4) by (auto simp: space_def k')
  moreover have "\<forall>va. space k' c va = space k (current k) va"
    using fork_child_load [OF fi i(4) [OF cur]] cpt by (simp add: space_def k')
  ultimately show ?thesis
    using lv c fd(8) rt by (simp add: fork_outcome_def) (simp add: k')
qed

lemma fork_correct:
  assumes inv: "sys_inv ke kpt k" and cur: "current k \<in> live k"
    and room: "shared_room (pagetable (ptable k (current k))) (phys k)"
  shows "\<exists>r k'. syscall_fork ke k = retIO (r, k') \<and> fork_outcome ke kpt k r k'"
proof -
  let ?r = "pagetable (ptable k (current k))" and ?P = "proc_roots k"
  define c where "c = find_free (ptable k) 1"
  have c': "find_free (ptable k) (Suc 0) = c" by (simp add: c_def)
  note ff = find_free_spec [of 1 "ptable k", folded c_def, simplified]
  note i = sys_invD [OF inv] and r = live_root [OF cur]
  obtain n s1 where al: "kalloc ke PAGESIZE (phys k) = (n, s1)" by (cases "kalloc ke PAGESIZE (phys k)")
  consider (full) "c = NPROC" | (none) "c < NPROC" "n = 0" | (page) "c < NPROC" "n \<noteq> 0" using ff by force
  then show ?thesis
  proof cases
    case full
    then have "syscall_fork ke k = retIO (- 1, k)" by (simp add: syscall_fork_def c')
    then show ?thesis using fork_outcome_same [OF inv] by blast
  next
    case none
    then have "s1 = phys k" using ka.alloc_none al by auto
    then have "syscall_fork ke k = retIO (- 1, k)" using none al by (simp add: syscall_fork_def c' Let_def)
    then show ?thesis using fork_outcome_same [OF inv] by blast
  next
    case page
    define s2 where "s2 = s1\<lparr>bytes := memset (bytes s1) n 0 PAGESIZE\<rparr>"
    have cl: "c \<notin> live k" "1 \<le> c" using ff page by (auto simp: live_def)
    then have ne: "current k \<noteq> c" using cur by auto
    note start = fork_inv_start [OF i(1) r al page(2) s2_def]
    have "vmiter_init (bytes s2) ?r 0 = Inr (fresh_iter (bytes s2) ?r 0)"
      using ptree_ok_iter(1) [OF mem_invD(1) [OF fork_invD(1) [OF start(1)]], of ?r 0] r by (simp add: va_is_canonical_def)
    then have run: "syscall_fork ke k = bindIO (fork_loop ke n (fresh_iter (bytes s2) ?r 0) s2) (\<lambda>(r, s3).
          if r < 0 then retIO (- 1, k\<lparr>ptable := (ptable k)(c := (ptable k c)\<lparr>pagetable := n\<rparr>), phys := s3\<rparr>)
          else retIO (int c, k\<lparr>phys := s3, ptable := (ptable k)(c := (ptable k c)\<lparr>pagetable := n, pid := int c,
             regs := (regs (ptable k (current k)))\<lparr>reg_rax := 0\<rparr>, state := state (ptable k (current k))\<rparr>)\<rparr>))"
      using page al ne by (simp add: syscall_fork_def c' Let_def s2_def cong: if_cong)
    have z: "page_aligned 0" "0 \<le> (MEMSIZE_VIRTUAL :: u64)" by (simp_all add: page_aligned_def)
    obtain s3 where fl: "fork_loop ke n (fresh_iter (bytes s2) ?r 0) s2 = retIO (0, s3)
          \<and> fork_inv ke kpt ?P ?r n (phys k) MEMSIZE_VIRTUAL s3
        \<or> fork_loop ke n (fresh_iter (bytes s2) ?r 0) s2 = retIO (- 1, s3) \<and> fork_undone ke kpt ?P (phys k) s3"
      using fork_loop_run [OF start r z room] by blast
    then show ?thesis
      using run fork_failed [OF inv cl(1) page(1) _ refl] fork_succeeded [OF inv cur cl page(1) _ start(2) refl] by auto
  qed
qed

text \<open>C14: \<open>sys_fork\<close> ends without a fault and keeps the system invariant, provided that no page which the
  caller shares read-only has used up its 8-bit reference count. Either it returns -1, and then no
  process has changed; or it returns the number of a process that was free, which now is a copy of the
  caller: the same state, the same registers with 0 as the result, and an address space that reads
  like the caller's at every address, while no existing process has changed.\<close>

theorem fork_spec:
  assumes "sys_inv kernel_end kpt k" "current k \<in> live k"
    "shared_room (pagetable (ptable k (current k))) (phys k)"
  shows "\<exists>r k'. syscall_fork kernel_end k = retIO (r, k') \<and> sys_inv kernel_end kpt k' \<and> current k' = current k
    \<and> (\<forall>i \<in> live k. ptable k' i = ptable k i \<and> (\<forall>va. space k' i va = space k i va))
    \<and> (r = - 1 \<and> live k' = live k
       \<or> (\<exists>c. r = int c \<and> 1 \<le> c \<and> c < NPROC \<and> c \<notin> live k \<and> live k' = insert c (live k)
           \<and> (\<forall>va. space k' c va = space k (current k) va)
           \<and> pid (ptable k' c) = int c \<and> state (ptable k' c) = state (ptable k (current k))
           \<and> regs (ptable k' c) = (regs (ptable k (current k)))\<lparr>reg_rax := 0\<rparr>))"
  using fork_correct [OF assms] unfolding fork_outcome_def by blast

end
