(* ===== verification/Sys_Calls.thy ===== *)
theory Sys_Calls
  imports Fork_Spec
begin

text \<open>
  The system calls against the full system invariant: \<open>sys_page_alloc\<close> keeps it too, and every call
  leaves the pages that the kernel keeps for itself alone.
\<close>

definition alloc_outcome :: "addr \<Rightarrow> addr \<Rightarrow> kernel \<Rightarrow> kernel \<Rightarrow> bool" where
  "alloc_outcome ke kpt k k' \<longleftrightarrow>
     sys_inv ke kpt k' \<and> ptable k' = ptable k \<and> current k' = current k
     \<and> (\<forall>i \<in> live k - {current k}. \<forall>va. space k' i va = space k i va)
     \<and> (\<forall>z. kept ke z (proc_roots k) (phys k) (proc_roots k') (phys k'))"

lemma alloc_outcome_same: "sys_inv ke kpt k \<Longrightarrow> alloc_outcome ke kpt k k"
  by (simp add: alloc_outcome_def kept_refl)

lemma alloc_outcomeI:
  assumes inv: "sys_inv ke kpt k" and mi: "mem_inv ke kpt (proc_roots k) s"
    and tr: "\<And>r va. r \<in> proc_roots k \<Longrightarrow> va < PROC_START_ADDR \<Longrightarrow> translate (bytes s) r va = translate (bytes (phys k)) r va"
    and ld: "\<And>i va. i \<in> live k \<Longrightarrow> i \<noteq> current k \<Longrightarrow>
      user_load (bytes s) (pagetable (ptable k i)) va = user_load (bytes (phys k)) (pagetable (ptable k i)) va"
    and kp: "\<And>z. kept ke z (proc_roots k) (phys k) (proc_roots k) s"
  shows "alloc_outcome ke kpt k (k\<lparr>phys := s\<rparr>)"
proof -
  note i = sys_invD [OF inv]
  have "low_ident (bytes s) (pagetable (ptable k i))" if "i \<in> live k" for i
    using i(3) [OF that] tr [OF i(4) [OF that]] by (simp add: low_ident_def)
  then have "sys_inv ke kpt (k\<lparr>phys := s\<rparr>)" using mi i(2) by (simp add: sys_inv_def)
  then show ?thesis using ld kp by (simp add: alloc_outcome_def space_def)
qed

lemma low_page_apart:
  assumes "PROC_START_ADDR \<le> addr" "va < PROC_START_ADDR"
  shows "\<not> same_above 0 addr va"
proof -
  have "0x100000 \<le> unat addr" "unat va < 0x100000" using assms by (simp_all add: word_less_nat_alt word_le_nat_alt)
  then have "unat va div 4096 < 0x100" "0x100 \<le> unat addr div 4096" by (simp_all add: div_less_iff_less_mult less_eq_div_iff_mult_less_eq)
  then show ?thesis by (auto simp: same_above_div)
qed

lemma page_alloc_correct:
  assumes inv: "sys_inv ke kpt k" and cur: "current k \<in> live k"
  shows "\<exists>r k'. syscall_page_alloc ke addr k = Inr (r, k') \<and> alloc_outcome ke kpt k k'"
proof -
  let ?P = "proc_roots k" and ?r = "pagetable (ptable k (current k))"
  note i = sys_invD [OF inv] and r = live_root [OF cur]
  have other: "pagetable (ptable k j) \<noteq> ?r" if "j \<in> live k" "j \<noteq> current k" for j
    using i(2) that cur by (auto simp: inj_on_def)
  obtain pa s1 where al: "kalloc ke PAGESIZE (phys k) = (pa, s1)" by (cases "kalloc ke PAGESIZE (phys k)")
  define s2 where "s2 = s1\<lparr>bytes := memset (bytes s1) pa 0 PAGESIZE\<rparr>"
  consider (bad) "\<not> valid_user_page addr" | (none) "valid_user_page addr" "pa = 0" | (page) "valid_user_page addr" "pa \<noteq> 0"
    by blast
  then show ?thesis
  proof cases
    case bad
    then have "addr mod PAGESIZE \<noteq> 0 \<or> addr < PROC_START_ADDR \<or> addr \<ge> MEMSIZE_VIRTUAL"
      unfolding valid_user_page_def page_aligned_mod by (meson linorder_not_le)
    then have "syscall_page_alloc ke addr k = Inr (- 1, k)" by (simp only: syscall_page_alloc_def if_True)
    then show ?thesis using alloc_outcome_same [OF inv] by blast
  next
    case none
    then have "s1 = phys k" using ka.alloc_none al by auto
    then have "syscall_page_alloc ke addr k = Inr (- 1, k)"
      using none al valid_guard [OF none(1)] by (simp add: syscall_page_alloc_def)
    then show ?thesis using alloc_outcome_same [OF inv] by blast
  next
    case page
    have as: "as_inv (avail ke) kpt ?P (phys k)" using i(1) by (simp add: mem_inv_def)
    note z = zeroed_page [OF as al page(2) s2_def]
    have al': "page_aligned pa" by (rule avail_aligned [OF z(2)])
    have c: "va_is_canonical addr" "page_aligned addr" "PROC_START_ADDR \<le> addr" "user_va addr"
      using page(1) user_page_canonical by (auto simp: valid_user_page_def user_va_def)
    have out: "memset (bytes s1) pa 0 PAGESIZE a = bytes (phys k) a" if "page_base a \<noteq> pa" for a
      using z(10) [OF that] by (simp add: s2_def)
    have i2: "mem_inv ke kpt ?P s2" unfolding s2_def by (rule claim_step(1) [OF i(1) al page(2) out])
    have k2: "kept ke x ?P (phys k) ?P s2" for x unfolding s2_def by (rule kept_claim [OF i(1) al page(2) out])
    have run: "syscall_page_alloc ke addr k =
        bindE (try_map (kalloc ke PAGESIZE) (fresh_iter (bytes s2) ?r addr) pa 7 s2)
            (\<lambda>(r, it', s3). if r < 0 then bindE (kfree pa s3) (\<lambda>s4. Inr (- 1, k\<lparr>phys := s4\<rparr>)) else Inr (0, k\<lparr>phys := s3\<rparr>))"
      using al page valid_guard [OF page(1)] ptree_ok_iter(1) [OF mem_invD(1) [OF i2 r] c(1)]
      by (simp add: syscall_page_alloc_def s2_def Let_def)
    have fa: "frame_args pa 7" "may_map (avail ke) kpt ?P s2 ?r addr pa (scast (7 :: u32))"
      by (rule fresh_frame_ok [OF as al page(2) s2_def]; simp)+
    have pl: "allocatable_physical_address ke pa" using z(2) by (simp add: avail_def)
    then have place: "place_ok ke addr pa (scast (7 :: u32))" using c(4) by (simp add: place_ok_def)
    have um: "mappers (bytes s2) ?P pa = {}" using z(7) by (auto simp: mappers_def)
    have nf: "\<forall>va'. \<not> same_above 0 addr va' \<longrightarrow> \<not> user_map (bytes s2) ?r va' pa False" using z(7) r by blast
    show ?thesis
    proof (rule map_step [OF i2 r c(1,2) fa(1)])
      fix s3 assume tm: "try_map (kalloc ke PAGESIZE) (fresh_iter (bytes s2) ?r addr) pa 7 s2 = Inr (0, fresh_iter (bytes s3) ?r addr, s3)"
        and fm: "frame_mapped ke kpt ?P ?r addr pa (scast (7 :: u32)) s2 s3"
      have fr: "pt_frame (avail ke) {?r} s2 s3" and as3: "as_inv (avail ke) kpt ?P s3"
        and map: "mapped (insert kpt ?P) ?r addr pa (scast (7 :: u32)) (bytes s2) (bytes s3)"
        and ld: "loads_mapped ?P ?r addr pa (scast (7 :: u32)) (bytes s2) (bytes s3)"
        using fm by (auto simp: frame_mapped_def)
      have "user_map (bytes s3) ?r addr pa False"
        using frame_user_map [OF fa(1) map, of ?r addr pa False] r by (simp add: same_above_def is_user_def)
      then have "mappers (bytes s3) ?P pa \<noteq> {}" using r by (auto simp: mappers_def)
      then have "pages s3 (page_number pa) = \<lparr>refcount = 1\<rparr>" using mapped_page_count [OF as3 r fr] z(9) by simp
      then have "mem_inv ke kpt ?P (s3\<lparr>pages := pages s3\<rparr>)"
        by (intro frame_mapped_inv [OF i2 r fa(1) fm]) (simp_all add: um)
      moreover have "kept ke x ?P (phys k) ?P s3" for x
      proof (cases "x = pa")
        case True
        then show ?thesis using z(2) by (simp add: kept_def owned_def)
      next
        case False
        then show ?thesis using kept_trans [OF k2 kept_mapped [OF i2 r fa(1) fm]] by blast
      qed
      moreover have "translate (bytes s3) r' va = translate (bytes (phys k)) r' va" if "r' \<in> ?P" "va < PROC_START_ADDR" for r' va
        using map z(4) that low_page_apart [OF c(3) that(2)] by (simp add: mapped_def)
      moreover have "user_load (bytes s3) (pagetable (ptable k j)) va = user_load (bytes (phys k)) (pagetable (ptable k j)) va"
        if "j \<in> live k" "j \<noteq> current k" for j va
        using ld other [OF that] i(4) [OF that(1)] z(5) unfolding loads_mapped_def by metis
      ultimately have "alloc_outcome ke kpt k (k\<lparr>phys := s3\<rparr>)" by (intro alloc_outcomeI [OF inv]) simp_all
      then show ?thesis using run tm by simp
    next
      fix s3 assume tm: "try_map (kalloc ke PAGESIZE) (fresh_iter (bytes s2) ?r addr) pa 7 s2 = Inr (- 1, fresh_iter (bytes s3) ?r addr, s3)"
        and s3: "mem_inv ke kpt ?P s3" "pt_frame (avail ke) {?r} s2 s3"
        and tr: "\<And>r' va'. r' \<in> insert kpt ?P \<Longrightarrow> translate (bytes s3) r' va' = translate (bytes s2) r' va'"
        and ld: "\<And>r' va'. r' \<in> ?P \<Longrightarrow> user_load (bytes s3) r' va' = user_load (bytes s2) r' va'"
      have o2: "owned ke ?P s2 pa"
        using al' z(3,6) um tables_mono [of ?P "insert kpt ?P" "bytes s2"] by (auto simp: owned_def)
      have k3: "kept ke x ?P s2 ?P s3" for x by (rule kept_same [OF i2 r s3(2) tr])
      have o3: "owned ke ?P s3 pa" using k3 [of pa] o2 by (simp add: kept_def)
      have as2: "as_inv (avail ke) kpt ?P s2" using i2 by (simp add: mem_inv_def)
      have "forest (bytes s2) {kpt}" using as2 forest_subset [of "bytes s2" "insert kpt ?P" "{kpt}"] by (auto simp: as_inv_def pt_good_def)
      then have "tables (bytes s3) {kpt} = tables (bytes s2) {kpt}" using agree_forest(2) kept_kpt(1) [OF as2 k3] by blast
      moreover have "tables (bytes s3) (insert kpt ?P) = tables (bytes s3) {kpt} \<union> tables (bytes s3) ?P" by (auto simp: tables_def)
      ultimately have nt: "pa \<notin> tables (bytes s3) (insert kpt ?P)"
        using z(6) o3 tables_mono [of "{kpt}" "insert kpt ?P" "bytes s2"] by (auto simp: owned_def)
      have fb: "freeable pa" by (rule allocatable_freeable [OF pl al'])
      have em: "mappers (bytes s3) ?P pa = {}" using o3 by (simp add: owned_def)
      from release_step [OF s3(1) fb nt em] obtain s4 where s4: "kfree pa s3 = Inr s4" "mem_inv ke kpt ?P s4" "bytes s4 = bytes s3"
        "\<And>q. page_aligned q \<Longrightarrow> q \<noteq> pa \<Longrightarrow> pages s4 (page_number q) = pages s3 (page_number q)" by metis
      have "kept ke x ?P (phys k) ?P s4" for x
      proof (cases "x = pa")
        case True
        then show ?thesis using z(2) by (simp add: kept_def owned_def)
      next
        case False
        have "kept ke x ?P s3 ?P (s3\<lparr>pages := pages s4\<rparr>)"
          by (rule kept_pages) (use False s4(4) in \<open>simp add: owned_def\<close>)
        moreover have "s3\<lparr>pages := pages s4\<rparr> = s4" using s4(3) by simp
        ultimately show ?thesis using kept_trans [OF kept_trans [OF k2 k3]] by simp
      qed
      then have "alloc_outcome ke kpt k (k\<lparr>phys := s4\<rparr>)"
        using s4(2,3) tr ld z(4,5) i(4) by (intro alloc_outcomeI [OF inv]) simp_all
      then show ?thesis using run tm s4(1) by simp
    qed (use fa place nf in simp_all)
  qed
qed

end
