(* ===== verification/Memviewer_Safe.thy ===== *)
theory Memviewer_Safe
  imports Display Sys_Calls
begin

text \<open>
  The memory viewer in a well-formed system: building the usage map ends without a fault, every mark
  in it has a cause in some page table, and therefore the viewer finds none of the errors it looks
  for and draws both maps inside the console.
\<close>

section \<open>Loops of the usage map\<close>

lemma next_va_less:
  assumes "va \<le> VA_LOWMAX" "k \<le> 3"
  shows "unat va < unat ((va OR pageoffmask k) + 1)" "unat ((va OR pageoffmask k) + 1) \<le> 2 ^ 47"
proof -
  have "unat va < 2 ^ 47" using assms(1) by (simp add: word_le_nat_alt)
  then have "take_bit 47 va = va" by (simp add: take_bit_eq_mod word_unat_eq_iff unat_mod_distrib)
  then have b: "bit va n \<Longrightarrow> n < 47" for n by (metis bit_take_bit_iff)
  have "take_bit 47 (va OR pageoffmask k) = va OR pageoffmask k"
    by (rule bit_word_eqI) (use b assms(2) in \<open>auto simp: bit_simps\<close>)
  then have lt: "unat (va OR pageoffmask k) < 2 ^ 47"
    by (metis unsigned_take_bit_eq take_bit_nat_less_exp)
  have "va \<le> va OR pageoffmask k" by (rule le_word_or2)
  then show "unat va < unat ((va OR pageoffmask k) + 1)" "unat ((va OR pageoffmask k) + 1) \<le> 2 ^ 47"
    using lt by (simp_all add: unat_add_small word_le_nat_alt)
qed

lemma mark_tables_run:
  "pti_list m it = retIO its \<Longrightarrow> mark_tables m fl it v = retIO (fold (\<lambda>p. mark p fl) (map (pti_pa m) its) v)"
proof (induction its arbitrary: it v)
  case Nil
  then show ?case using pti_list_Nil by (subst mark_tables.simps) simp
next
  case (Cons x xs)
  note c = pti_list_Cons [OF Cons.prems]
  then obtain it' where it': "pti_next m it = retIO it'" "pti_list m it' = retIO xs" by blast
  show ?case using c(1,2) it' Cons.IH [OF it'(2)] by (subst mark_tables.simps) (simp add: Let_def)
qed

lemma mark_all_tables:
  obtains it where "pti_init m r 0 = retIO it"
    "mark_tables m fl it v = retIO (fold (\<lambda>p. mark p fl) (post_order m 3 r) v)"
proof -
  have run: "bindIO (pti_init m r 0) (\<lambda>it. bindIO (pti_list m it) (\<lambda>its. retIO (map (pti_pa m) its)))
     = retIO (post_order m 3 r)" by (rule pti_list_post_order)
  then obtain it where it: "pti_init m r 0 = retIO it"
    by (cases "pti_init m r 0") (auto simp: bindIO_def split: sum.splits)
  with run have "bindIO (pti_list m it) (\<lambda>its. retIO (map (pti_pa m) its)) = retIO (post_order m 3 r)" by simp
  then obtain its where its: "pti_list m it = retIO its" "map (pti_pa m) its = post_order m 3 r"
    by (cases "pti_list m it") (auto simp: bindIO_def split: sum.splits)
  show thesis by (rule that [OF it]) (use mark_tables_run [OF its(1)] its(2) in simp)
qed

section \<open>Causes of marks\<close>

text \<open>\<open>TK\<close> are the pages of page tables and of the map itself, \<open>TP\<close> the page tables of processes and
  \<open>U\<close> the pages that users can access.\<close>

definition marks_sound :: "addr set \<Rightarrow> addr set \<Rightarrow> addr set \<Rightarrow> marks \<Rightarrow> bool" where
  "marks_sound TK TP U v \<longleftrightarrow>
     (\<forall>i n. bit (v i) n \<longrightarrow>
        i \<in> (\<lambda>p. page_number p) ` (if n = 0 then TK else if n = 1 then U else TP \<union> U))"

lemma marks_sound_zero: "marks_sound TK TP U (\<lambda>_. 0)"
  by (simp add: marks_sound_def)

lemma mark_sound:
  assumes "marks_sound TK TP U v"
    and "\<And>n. bit flags n \<Longrightarrow> q \<in> (if n = 0 then TK else if n = 1 then U else TP \<union> U)"
    and "page_number pa = page_number q"
  shows "marks_sound TK TP U (mark pa flags v)"
  unfolding marks_sound_def
proof (intro allI impI)
  fix i n assume b: "bit (mark pa flags v i) n"
  show "i \<in> (\<lambda>p. page_number p) ` (if n = 0 then TK else if n = 1 then U else TP \<union> U)"
  proof (cases "bit (v i) n")
    case True
    then show ?thesis using assms(1) unfolding marks_sound_def by blast
  next
    case False
    then have "i = page_number q" "bit flags n" using b assms(3) by (auto simp: mark_def bit_or_iff split: if_splits)
    then show ?thesis using assms(2) by blast
  qed
qed

lemma bit_1_word [simp]: "bit (1 :: u32) n \<longleftrightarrow> n = 0" "bit (2 :: u32) n \<longleftrightarrow> n = 1"
proof -
  show "bit (1 :: u32) n \<longleftrightarrow> n = 0" by (auto simp: bit_1_iff)
  have "(2 :: u32) = push_bit 1 1" by simp
  then show "bit (2 :: u32) n \<longleftrightarrow> n = 1" by (auto simp only: bit_push_bit_iff bit_1_iff) auto
qed

lemma bit_f_process [simp]: "\<not> bit (f_process i) 0" "\<not> bit (f_process i) (Suc 0)"
  by (auto simp: f_process_def bit_push_bit_iff)

lemma marks_table_sound:
  assumes "marks_sound TK TP U v" "set ts \<subseteq> TK" "fl = 1 \<or> set ts \<subseteq> TP \<and> fl = 1 OR f_process i"
  shows "marks_sound TK TP U (fold (\<lambda>p. mark p fl) ts v)"
  using assms
proof (induction ts arbitrary: v)
  case (Cons t ts)
  have "marks_sound TK TP U (mark t fl v)"
    by (rule mark_sound [OF Cons.prems(1) _ refl]) (use Cons.prems(2,3) in \<open>auto simp: bit_or_iff\<close>)
  then show ?case using Cons by auto
qed simp

lemma mark_user_page_sound:
  assumes "marks_sound TK TP U v" "page_base pa \<in> U"
  shows "marks_sound TK TP U (mark pa (2 OR f_process i) v)"
proof -
  have pn: "page_number pa = page_number (page_base pa)" by (simp add: unat_div unat_page_base)
  show ?thesis by (rule mark_sound [OF assms(1) _ pn]) (use assms(2) in \<open>auto simp: bit_or_iff\<close>)
qed

section \<open>Iterating over an address space\<close>

text \<open>The check that an iterator makes of every entry it stops at.\<close>

definition iter_ok :: "mem \<Rightarrow> addr \<Rightarrow> bool" where
  "iter_ok m r \<longleftrightarrow> (\<forall>va. checked m (fresh_iter m r va) = Inr (fresh_iter m r va))"

lemma ptree_iter_ok: "ptree_ok m r \<Longrightarrow> iter_ok m r"
  unfolding iter_ok_def
proof
  fix va assume ok: "ptree_ok m r"
  show "checked m (fresh_iter m r va) = Inr (fresh_iter m r va)"
  proof (cases "va_is_canonical va")
    case True
    then show ?thesis using ptree_ok_iter(1) [OF ok] by (simp add: vmiter_init_fresh)
  next
    case False
    then show ?thesis by (simp add: checked_def fresh_noncanonical)
  qed
qed

lemma iter_ok_find:
  assumes "iter_ok m r" "page_aligned r"
  shows "real_find m (fresh_iter m r va) va' = Inr (fresh_iter m r va')" "vmiter_init m r va = Inr (fresh_iter m r va)"
  using assms by (simp_all add: real_find_fresh vmiter_init_fresh iter_ok_def)

lemma fresh_level: "va_is_canonical va \<Longrightarrow> vm_level (fresh_iter m r va) \<le> 3"
proof -
  assume c: "va_is_canonical va"
  obtain k t pm where w: "walk m va 3 r (- 1) = (k, t, pm)" by (cases "walk m va 3 r (- 1)")
  then show ?thesis using leaf_fresh(2) [OF c w] walk_top_node [OF w] by simp
qed

text \<open>
  A loop over the low half of the address space that moves on with \<open>next\<close> or \<open>next_range\<close> ends: each
  step goes on at a higher address.
\<close>

lemma low_iteration:
  assumes ok: "iter_ok m r" "page_aligned r" and va: "va \<le> VA_LOWMAX"
  shows "\<exists>va'. vm_next m (fresh_iter m r va) = Inr (fresh_iter m r va') \<and> unat va < unat va' \<and> unat va' \<le> 2 ^ 47"
    and "\<exists>va'. vm_next_range m (fresh_iter m r va) = Inr (fresh_iter m r va') \<and> unat va < unat va' \<and> unat va' \<le> 2 ^ 47"
proof -
  let ?it = "fresh_iter m r va"
  have lv: "vm_level ?it \<le> 3" using va by (intro fresh_level) (simp add: va_is_canonical_def)
  define k where "k = (if vm_level ?it > 0 \<and> vm_perms m ?it = 0 then vm_level ?it else 0)"
  have k: "k \<le> 3" using lv by (simp add: k_def)
  show "\<exists>va'. vm_next m ?it = Inr (fresh_iter m r va') \<and> unat va < unat va' \<and> unat va' \<le> 2 ^ 47"
    using next_va_less [OF va k] iter_ok_find(1) [OF ok] by (auto simp: vm_next_def Let_def k_def [symmetric])
  show "\<exists>va'. vm_next_range m ?it = Inr (fresh_iter m r va') \<and> unat va < unat va' \<and> unat va' \<le> 2 ^ 47"
    using next_va_less [OF va lv] iter_ok_find(1) [OF ok] by (auto simp: vm_next_range_def vm_last_va_def)
qed

lemma mark_user_sound:
  assumes ok: "iter_ok m r" "page_aligned r" and va: "unat va \<le> 2 ^ 47"
    and snd: "marks_sound TK TP U v" and U: "\<And>va q. user_map m r va q False \<Longrightarrow> q \<in> U"
  shows "\<exists>v'. mark_user m (2 OR f_process i) (fresh_iter m r va) v = retIO v' \<and> marks_sound TK TP U v'"
  using va snd
proof (induction "2 ^ 47 - unat va" arbitrary: va v rule: less_induct)
  case less
  show ?case
  proof (cases "va \<le> VA_LOWMAX")
    case False
    then show ?thesis using less.prems by (subst mark_user.simps) (simp add: vm_low_def)
  next
    case True
    note st = low_iteration [OF ok True]
    show ?thesis
    proof (cases "vm_user m (fresh_iter m r va)")
      case us: True
      then obtain pa perm where t: "translate m r va = Some (pa, perm)" "is_user perm" by (auto simp: vm_user_fresh)
      then have "page_base pa \<in> U" by (intro U [of va]) (auto simp: user_map_def)
      then have s: "marks_sound TK TP U (mark pa (2 OR f_process i) v)" by (rule mark_user_page_sound [OF less.prems(2)])
      from st(1) obtain va' where n: "vm_next m (fresh_iter m r va) = Inr (fresh_iter m r va')" "unat va < unat va'" "unat va' \<le> 2 ^ 47"
        by blast
      show ?thesis using less.hyps [OF _ n(3) s] n us True t(1) by (subst mark_user.simps) (auto simp: vm_low_def vm_pa_fresh)
    next
      case False
      from st(2) obtain va' where n: "vm_next_range m (fresh_iter m r va) = Inr (fresh_iter m r va')" "unat va < unat va'" "unat va' \<le> 2 ^ 47"
        by blast
      show ?thesis using less.hyps [OF _ n(3) less.prems(2)] n False True by (subst mark_user.simps) (auto simp: vm_low_def)
    qed
  qed
qed

lemma mark_physical_sound:
  assumes ok: "iter_ok (bytes s) r" "page_aligned r" and va: "unat va \<le> 2 ^ 47"
    and snd: "marks_sound TK TP U v" and U: "\<And>va q. user_map (bytes s) r va q False \<Longrightarrow> q \<in> U"
  shows "\<exists>v'. mark_physical s (fresh_iter (bytes s) r va) v = retIO v' \<and> marks_sound TK TP U v'"
  using va snd
proof (induction "2 ^ 47 - unat va" arbitrary: va v rule: less_induct)
  case less
  let ?it = "fresh_iter (bytes s) r va"
  show ?case
  proof (cases "va \<le> VA_LOWMAX")
    case False
    then show ?thesis using less.prems by (subst mark_physical.simps) (simp add: vm_low_def)
  next
    case True
    note st = low_iteration [OF ok True]
    show ?thesis
    proof (cases "vm_user (bytes s) ?it \<and> vm_pa (bytes s) ?it < MEMSIZE_PHYSICAL
        \<and> used (pages s (page_number (vm_pa (bytes s) ?it)))")
      case us: True
      then obtain pa perm where t: "translate (bytes s) r va = Some (pa, perm)" "is_user perm" by (auto simp: vm_user_fresh)
      then have "page_base pa \<in> U" by (intro U [of va]) (auto simp: user_map_def)
      then have s: "marks_sound TK TP U (mark pa (2 OR f_process j) v)" for j by (rule mark_user_page_sound [OF less.prems(2)])
      from st(1) obtain va' where n: "vm_next (bytes s) ?it = Inr (fresh_iter (bytes s) r va')" "unat va < unat va'" "unat va' \<le> 2 ^ 47"
        by blast
      have "vm_pa (bytes s) ?it = pa" using t by (simp add: vm_pa_fresh)
      then show ?thesis using less.hyps [OF _ n(3) s] n us True by (subst mark_physical.simps) (auto simp: vm_low_def Let_def)
    next
      case False
      from st(2) obtain va' where n: "vm_next_range (bytes s) ?it = Inr (fresh_iter (bytes s) r va')" "unat va < unat va'" "unat va' \<le> 2 ^ 47"
        by blast
      show ?thesis using less.hyps [OF _ n(3) less.prems(2)] n False True
        by (subst mark_physical.simps) (auto simp: vm_low_def Let_def)
    qed
  qed
qed

section \<open>The usage map\<close>

lemma mark_process_sound:
  assumes inv: "mem_inv ke kpt P s" and r: "r \<in> P" and snd: "marks_sound TK TP U v"
    and TP: "tables (bytes s) P \<subseteq> TP" "TP \<subseteq> TK" and U: "\<And>va q. user_map (bytes s) r va q False \<Longrightarrow> q \<in> U"
  shows "\<exists>v'. mark_process (bytes s) r i v = retIO v' \<and> marks_sound TK TP U v'"
proof -
  let ?m = "bytes s" and ?fl = "1 OR f_process i"
  note d = mem_invD [OF inv r]
  have tb: "tables ?m {r} \<subseteq> TP" using tables_mono [of "{r}" P ?m] r TP(1) by auto
  have po: "set (post_order ?m 3 r) \<subseteq> tables ?m {r}" using post_order_tables(1) [OF d(5)] by auto
  have rt: "r \<in> tables ?m {r}" by (rule root_in_tables) simp
  from mark_all_tables [of ?m r ?fl v] obtain it where
    it: "pti_init ?m r 0 = retIO it" "mark_tables ?m ?fl it v = retIO (fold (\<lambda>p. mark p ?fl) (post_order ?m 3 r) v)" .
  let ?ts = "post_order ?m 3 r @ [r]"
  have "marks_sound TK TP U (fold (\<lambda>p. mark p ?fl) ?ts v)"
    by (rule marks_table_sound [OF snd, where i = i]) (use po tb rt TP in auto)
  then have s2: "marks_sound TK TP U (mark r ?fl (fold (\<lambda>p. mark p ?fl) (post_order ?m 3 r) v))" by simp
  have io: "iter_ok ?m r" by (rule ptree_iter_ok [OF d(1)])
  have "\<exists>v'. mark_user ?m (2 OR f_process i) (fresh_iter ?m r 0) (mark r ?fl (fold (\<lambda>p. mark p ?fl) (post_order ?m 3 r) v)) = retIO v'
      \<and> marks_sound TK TP U v'"
    by (rule mark_user_sound [OF io d(2) _ s2]) (use U in simp_all)
  then show ?thesis using it iter_ok_find(2) [OF io d(2), of 0] by (auto simp: mark_process_def)
qed

lemma mark_processes_sound:
  assumes inv: "mem_inv ke kpt (proc_roots k) (phys k)" and snd: "marks_sound TK TP U v"
    and TP: "tables (bytes (phys k)) (proc_roots k) \<subseteq> TP" "TP \<subseteq> TK"
    and U: "\<And>r va q. r \<in> proc_roots k \<Longrightarrow> user_map (bytes (phys k)) r va q False \<Longrightarrow> q \<in> U"
  shows "\<exists>any' v'. mark_processes kpt (bytes (phys k)) (ptable k) i any v = retIO (any', v') \<and> marks_sound TK TP U v'
    \<and> (any' \<longleftrightarrow> any \<or> (\<exists>j \<ge> i. j \<in> live k))"
  using snd
proof (induction "NPROC - i" arbitrary: i any v rule: less_induct)
  case less
  let ?m = "bytes (phys k)"
  have rec: "\<exists>any' v'. mark_processes kpt ?m (ptable k) (i + 1) any0 v0 = retIO (any', v') \<and> marks_sound TK TP U v'
    \<and> (any' \<longleftrightarrow> any0 \<or> (\<exists>j \<ge> i + 1. j \<in> live k))" if "marks_sound TK TP U v0" "i < NPROC" for any0 v0
    by (rule less.hyps) (use that in auto)
  have later: "(\<exists>j \<ge> i. j \<in> live k) \<longleftrightarrow> i \<in> live k \<or> (\<exists>j \<ge> i + 1. j \<in> live k)"
    by (metis Suc_eq_plus1 Suc_leD le_antisym not_less_eq_eq order_refl)
  show ?case
  proof (cases "i < NPROC")
    case False
    then show ?thesis using less.prems by (subst mark_processes.simps) (auto simp: live_def)
  next
    case lt: True
    show ?thesis
    proof (cases "i \<in> live k")
      case True
      let ?r = "pagetable (ptable k i)"
      have r: "?r \<in> proc_roots k" by (rule live_root [OF True])
      have ne: "?r \<noteq> kpt" "?r \<noteq> 0"
      proof -
        show "?r \<noteq> kpt" using inv r by (auto simp: mem_inv_def as_inv_def)
        have "allocatable_physical_address ke ?r"
          using inv root_in_tables [OF r, of ?m] by (simp add: mem_inv_def tables_ok_def)
        then show "?r \<noteq> 0" by (auto simp: allocatable_physical_address_def reserved_physical_address_def)
      qed
      have "\<exists>v1. mark_process ?m ?r (int i) v = retIO v1 \<and> marks_sound TK TP U v1"
        by (rule mark_process_sound [OF inv r less.prems TP]) (rule U [OF r])
      then obtain v1 where v1: "mark_process ?m ?r (int i) v = retIO v1" "marks_sound TK TP U v1" by blast
      show ?thesis using rec [OF v1(2) lt, of True] v1(1) ne True later
        by (subst mark_processes.simps) (auto simp: live_def)
    next
      case False
      then show ?thesis using rec [OF less.prems lt, of any] later lt
        by (subst mark_processes.simps) (auto simp: live_def)
    qed
  qed
qed

section \<open>A map without errors\<close>

text \<open>
  The kernel's own page table: its pages lie in kernel memory, every entry passes the iterator's check,
  physical memory is mapped one to one, and user access is given to the console and to the pages from
  \<open>PROC_START_ADDR\<close> on only.
\<close>

definition kpt_ok :: "mem \<Rightarrow> addr \<Rightarrow> bool" where
  "kpt_ok m kpt \<longleftrightarrow>
     iter_ok m kpt \<and> (\<forall>t \<in> tables m {kpt}. t < PROC_START_ADDR \<and> t \<noteq> CONSOLE_ADDR)
     \<and> (\<forall>va < MEMSIZE_PHYSICAL. \<exists>perm. translate m kpt va = Some (va, perm))
     \<and> (\<forall>va q. user_map m kpt va q False \<longrightarrow> q = CONSOLE_ADDR \<or> PROC_START_ADDR \<le> q \<and> q < MEMSIZE_PHYSICAL)"

definition marks_clean :: "addr \<Rightarrow> marks \<Rightarrow> bool" where
  "marks_clean ke v \<longleftrightarrow>
     (\<forall>q. page_aligned q \<longrightarrow> q \<noteq> CONSOLE_ADDR \<longrightarrow>
        (allocatable_physical_address ke q \<or> v (page_number q) \<le> 3)
        \<and> \<not> (bit (v (page_number q)) 0 \<and> bit (v (page_number q)) 1))"

lemma small_of_bits: "(\<And>n. 2 \<le> n \<Longrightarrow> \<not> bit (v :: u32) n) \<Longrightarrow> v \<le> 3"
proof -
  assume b: "\<And>n. 2 \<le> n \<Longrightarrow> \<not> bit v n"
  have "take_bit 2 v = v" by (rule bit_word_eqI) (use b in \<open>auto simp: bit_simps intro: leI\<close>)
  then have "unat v < 2 ^ 2" by (metis unsigned_take_bit_eq take_bit_nat_less_exp)
  then show ?thesis by (simp add: word_le_nat_alt)
qed

lemma sound_clean:
  assumes snd: "marks_sound TK TP U v" and al: "\<And>q. q \<in> TK \<union> TP \<union> U \<Longrightarrow> page_aligned q"
    and pl: "\<And>q. q \<in> TP \<union> U \<Longrightarrow> q = CONSOLE_ADDR \<or> allocatable_physical_address ke q"
    and dj: "TK \<inter> U \<subseteq> {CONSOLE_ADDR}"
  shows "marks_clean ke v"
  unfolding marks_clean_def
proof (intro allI impI)
  fix q assume q: "page_aligned q" "q \<noteq> CONSOLE_ADDR"
  have cause: "q \<in> (if n = 0 then TK else if n = 1 then U else TP \<union> U)" if b: "bit (v (page_number q)) n" for n
  proof -
    from snd b obtain p where p: "page_number q = page_number p" "p \<in> (if n = 0 then TK else if n = 1 then U else TP \<union> U)"
      unfolding marks_sound_def by blast
    then have "page_aligned p" using al [of p] by (auto split: if_splits)
    then have "p = q" using page_number_inj q(1) p(1) by metis
    then show ?thesis using p(2) by simp
  qed
  have "allocatable_physical_address ke q \<or> (\<forall>n \<ge> 2. \<not> bit (v (page_number q)) n)"
    using cause pl [of q] q(2) by fastforce
  then have "allocatable_physical_address ke q \<or> v (page_number q) \<le> 3" using small_of_bits by blast
  moreover have "\<not> (bit (v (page_number q)) 0 \<and> bit (v (page_number q)) 1)"
    using cause [of 0] cause [of 1] dj q(2) by auto
  ultimately show "(allocatable_physical_address ke q \<or> v (page_number q) \<le> 3)
      \<and> \<not> (bit (v (page_number q)) 0 \<and> bit (v (page_number q)) 1)" by blast
qed

text \<open>The kernel ends below its stack, so that all memory from \<open>PROC_START_ADDR\<close> on is allocatable.\<close>

definition link_ok :: "link \<Rightarrow> bool" where
  "link_ok l \<longleftrightarrow>
     l_kernel_end l \<le> KERNEL_STACK_TOP \<and> l_arguments l < 0x100000000
     \<and> l_exception_entry l < PROC_START_ADDR \<and> l_pagetable l < PROC_START_ADDR"

lemma user_memory_allocatable:
  assumes "link_ok l" "PROC_START_ADDR \<le> q" "q < MEMSIZE_PHYSICAL"
  shows "allocatable_physical_address (l_kernel_end l) q"
proof -
  have q: "0x100000 \<le> unat q" using assms(2) by (simp add: word_le_nat_alt)
  have "unat (l_kernel_end l) \<le> 0x80000" using assms(1) by (simp add: link_ok_def word_le_nat_alt)
  then have "unat (l_kernel_end l + 4096 - 1) \<le> 0x80FFF"
    by (cases "l_kernel_end l = 0") (simp_all add: unat_word_ariths unat_sub_if')
  then have "unat (round_up (l_kernel_end l) (ucast PAGESIZE)) \<le> 0x80FFF"
    by (simp add: round_up_def unat_round_down)
  then show ?thesis using q assms(3)
    by (auto simp: allocatable_physical_address_def reserved_physical_address_def word_le_nat_alt word_less_nat_alt)
qed

lemma refresh_marks_clean:
  assumes l: "link_ok l" and inv: "mem_inv (l_kernel_end l) kpt (proc_roots k) (phys k)" and z: "0 \<notin> live k"
    and kp: "kpt_ok (bytes (phys k)) kpt" and v0: "owned (l_kernel_end l) (proc_roots k) (phys k) v0"
  shows "\<exists>v. refresh_marks kpt k v0 = retIO v \<and> marks_clean (l_kernel_end l) v"
proof -
  let ?m = "bytes (phys k)" and ?P = "proc_roots k" and ?ke = "l_kernel_end l"
  have as: "as_inv (avail ?ke) kpt ?P (phys k)" using inv by (simp add: mem_inv_def)
  have f: "forest ?m (insert kpt ?P)" using as by (simp add: as_inv_def pt_good_def)
  have fk: "forest ?m {kpt}" by (rule forest_subset [OF f]) simp
  have kt: "tables ?m {kpt} \<subseteq> tables ?m (insert kpt ?P)" "kpt \<in> tables ?m {kpt}"
    by (simp_all add: tables_mono root_in_tables)
  have al: "page_aligned t" if "t \<in> tables ?m (insert kpt ?P)" for t by (rule tables_aligned [OF f that])
  from mark_all_tables [of ?m kpt 1 "\<lambda>_. 0"] obtain it where
    it: "pti_init ?m kpt 0 = retIO it" "mark_tables ?m 1 it (\<lambda>_. 0) = retIO (fold (\<lambda>p. mark p 1) (post_order ?m 3 kpt) (\<lambda>_. 0))" .
  define v1 where "v1 = mark kpt 1 (fold (\<lambda>p. mark p 1) (post_order ?m 3 kpt) (\<lambda>_. 0))"
  have po: "set (post_order ?m 3 kpt) \<subseteq> tables ?m {kpt}" using post_order_tables(1) [OF fk] by auto
  have s1: "marks_sound TK TP U v1" if "tables ?m {kpt} \<subseteq> TK" for TK TP U
  proof -
    have "marks_sound TK TP U (fold (\<lambda>p. mark p 1) (post_order ?m 3 kpt @ [kpt]) (\<lambda>_. 0))"
      by (rule marks_table_sound [OF marks_sound_zero]) (use po kt that in auto)
    then show ?thesis by (simp add: v1_def)
  qed
  have run: "refresh_marks kpt k v0 = bindIO (mark_processes kpt ?m (ptable k) 1 False v1) (\<lambda>(any, v2).
     if any then retIO (mark v0 1 v2)
     else bindIO (Some (vmiter_init ?m kpt 0)) (\<lambda>it2. mark_physical (phys k) it2 v2))"
    using it by (simp add: refresh_marks_def v1_def)
  show ?thesis
  proof (cases "\<exists>j \<ge> 1. j \<in> live k")
    case True
    define TK where "TK = insert v0 (tables ?m (insert kpt ?P))"
    define U where "U = {q. \<exists>r \<in> ?P. \<exists>va. user_map ?m r va q False}"
    have sub: "tables ?m {kpt} \<subseteq> TK" "tables ?m ?P \<subseteq> TK" using kt tables_mono [of ?P "insert kpt ?P" ?m] by (auto simp: TK_def)
    have "\<exists>any' v'. mark_processes kpt ?m (ptable k) 1 False v1 = retIO (any', v') \<and> marks_sound TK (tables ?m ?P) U v'
        \<and> (any' \<longleftrightarrow> False \<or> (\<exists>j \<ge> 1. j \<in> live k))"
      by (rule mark_processes_sound [OF inv s1 [OF sub(1)] order_refl sub(2)]) (auto simp: U_def)
    then obtain v' where v': "mark_processes kpt ?m (ptable k) 1 False v1 = retIO (True, v')" "marks_sound TK (tables ?m ?P) U v'"
      using True by auto
    have "marks_sound TK (tables ?m ?P) U (mark v0 1 v')"
      by (rule mark_sound [OF v'(2) _ refl]) (simp add: TK_def)
    then have "marks_clean ?ke (mark v0 1 v')"
    proof (rule sound_clean)
      show "page_aligned q" if "q \<in> TK \<union> tables ?m ?P \<union> U" for q
        using that al v0 user_map_aligned tables_mono [of ?P "insert kpt ?P" ?m] by (auto simp: TK_def U_def owned_def)
      show "q = CONSOLE_ADDR \<or> allocatable_physical_address ?ke q" if "q \<in> tables ?m ?P \<union> U" for q
        using that inv by (auto simp: U_def mem_inv_def tables_ok_def maps_ok_def)
      show "TK \<inter> U \<subseteq> {CONSOLE_ADDR}"
        using as v0 by (auto simp: TK_def U_def as_inv_def frames_ok_def owned_def mappers_def)
    qed
    then show ?thesis using run v'(1) by simp
  next
    case False
    have lv: "live k = {}"
    proof (rule equals0I)
      fix j assume "j \<in> live k"
      then show False using False z by (cases "j = 0") auto
    qed
    then have P: "?P = {}" by (simp add: proc_roots_def)
    define U where "U = {q. \<exists>va. user_map ?m kpt va q False}"
    have "\<exists>any' v'. mark_processes kpt ?m (ptable k) 1 False v1 = retIO (any', v') \<and> marks_sound (tables ?m {kpt}) {} U v'
        \<and> (any' \<longleftrightarrow> False \<or> (\<exists>j \<ge> 1. j \<in> live k))"
      by (rule mark_processes_sound [OF inv s1 [OF order_refl]]) (simp_all add: P tables_def)
    then obtain v' where v': "mark_processes kpt ?m (ptable k) 1 False v1 = retIO (False, v')" "marks_sound (tables ?m {kpt}) {} U v'"
      using lv by auto
    have io: "iter_ok ?m kpt" "page_aligned kpt" using kp al kt by (auto simp: kpt_ok_def)
    have "\<exists>v''. mark_physical (phys k) (fresh_iter ?m kpt 0) v' = retIO v'' \<and> marks_sound (tables ?m {kpt}) {} U v''"
      by (rule mark_physical_sound [OF io _ v'(2)]) (auto simp: U_def)
    then obtain v'' where v'': "mark_physical (phys k) (fresh_iter ?m kpt 0) v' = retIO v''" "marks_sound (tables ?m {kpt}) {} U v''"
      by blast
    have "marks_clean ?ke v''"
    proof (rule sound_clean [OF v''(2)])
      show "page_aligned q" if "q \<in> tables ?m {kpt} \<union> {} \<union> U" for q
        using that al kt user_map_aligned by (auto simp: U_def)
      show "q = CONSOLE_ADDR \<or> allocatable_physical_address ?ke q" if "q \<in> {} \<union> U" for q
        using that kp user_memory_allocatable [OF l, of q] unfolding U_def kpt_ok_def by blast
      show "tables ?m {kpt} \<inter> U \<subseteq> {CONSOLE_ADDR}"
        using kp by (fastforce simp: U_def kpt_ok_def)
    qed
    then show ?thesis using run v'(1) v''(1) iter_ok_find(2) [OF io, of 0] by simp
  qed
qed

section \<open>Drawing\<close>

lemma owner_symbol_total:
  assumes "v \<notin> {0, 1, 2}" "\<not> (bit v 0 \<and> bit v 1)"
  shows "\<exists>ch. owner_symbol v = Inr ch"
proof -
  have "drop_bit 2 v \<noteq> 0"
  proof
    assume "drop_bit 2 v = 0"
    then have nb: "\<not> bit v n" if "2 \<le> n" for n
    proof -
      have "bit v n = bit (drop_bit 2 v) (n - 2)" using that by (simp only: bit_drop_bit_eq o_apply le_add_diff_inverse)
      then show ?thesis using \<open>drop_bit 2 v = 0\<close> by simp
    qed
    have "v \<le> 3" by (rule small_of_bits) (rule nb)
    then have "unat v \<in> {0, 1, 2, 3}" by (auto simp: word_le_nat_alt)
    then have "v = 3" using assms(1) by (auto simp: word_unat_eq_iff)
    then show False using assms(2) by simp
  qed
  from lsb_idx_least [OF this] obtain i where i: "lsb_idx (drop_bit 2 v) = Suc i" "bit (drop_bit 2 v) i" by blast
  then have "i + 2 < 32" using bit_imp_le_length [of v "i + 2"] by (simp add: bit_drop_bit_eq add.commute)
  then have "nat (marked_pid v) < length names" by (simp add: marked_pid_def i(1) names_def lit_def)
  then show ?thesis by (simp add: owner_symbol_def Let_def)
qed

lemma page_floor:
  fixes n j :: nat
  shows "4096 * (n div 4096) < 4096 * j \<longleftrightarrow> n < 4096 * j" "4096 * j \<le> 4096 * (n div 4096) \<longleftrightarrow> 4096 * j \<le> n"
proof -
  show "4096 * (n div 4096) < 4096 * j \<longleftrightarrow> n < 4096 * j" by (simp add: div_less_iff_less_mult mult.commute)
  then show "4096 * j \<le> 4096 * (n div 4096) \<longleftrightarrow> 4096 * j \<le> n" by linarith
qed

lemma page_base_less:
  fixes c q :: u64
  assumes "unat c = 4096 * j"
  shows "page_base q < c \<longleftrightarrow> q < c" "c \<le> page_base q \<longleftrightarrow> c \<le> q"
  using assms page_floor by (simp_all add: word_less_nat_alt word_le_nat_alt unat_page_base)

lemma reserved_page: "reserved_physical_address (page_base pa) \<longleftrightarrow> reserved_physical_address pa"
  using page_base_less [of PAGESIZE 1 pa] page_base_less [of IOPHYSMEM "0xA0" pa] page_base_less [of EXTPHYSMEM "0x100" pa]
  by (simp add: reserved_physical_address_def)

lemma allocatable_page: "allocatable_physical_address ke (page_base pa) \<longleftrightarrow> allocatable_physical_address ke pa"
proof -
  let ?e = "round_up ke (ucast PAGESIZE)"
  have "4096 dvd unat ?e" by (simp add: round_up_def unat_round_down)
  then obtain j where "unat ?e = 4096 * j" by blast
  then show ?thesis
    using page_base_less [of ?e j pa] page_base_less [of KERNEL_START_ADDR "0x40" pa] page_base_less [of "KERNEL_STACK_TOP - PAGESIZE" "0x7F" pa]
      page_base_less [of KERNEL_STACK_TOP "0x80" pa] page_base_less [of MEMSIZE_PHYSICAL "0x200" pa]
    by (simp add: allocatable_physical_address_def reserved_page)
qed

lemma console_page_iff: "page_base pa = CONSOLE_ADDR \<longleftrightarrow> pa \<ge> CONSOLE_ADDR \<and> pa < CONSOLE_ADDR + PAGESIZE"
proof -
  have "page_base pa = CONSOLE_ADDR" if "CONSOLE_ADDR \<le> pa" "pa < CONSOLE_ADDR + PAGESIZE"
  proof -
    have "unat pa div 4096 = 0xB8" using that by (simp add: word_less_nat_alt word_le_nat_alt)
    then show ?thesis by (simp add: word_unat_eq_iff unat_page_base)
  qed
  moreover have "pa \<ge> CONSOLE_ADDR \<and> pa < CONSOLE_ADDR + PAGESIZE" if "page_base pa = CONSOLE_ADDR"
    using that page_base_less [of CONSOLE_ADDR "0xB8" pa] page_base_less [of "CONSOLE_ADDR + PAGESIZE" "0xB9" pa] by simp
  ultimately show ?thesis by blast
qed

text \<open>No symbol is one of the three error reports.\<close>

lemma symbol_at_clean:
  assumes "marks_clean (l_kernel_end l) (mu_marks m)"
  shows "\<exists>ch. symbol_at l pa m = retIO (ch, m)"
proof -
  define v where "v = mu_marks m (unat (pa div PAGESIZE))"
  have pn: "page_number (page_base pa) = page_number pa" by (simp add: unat_div unat_page_base)
  have c: "page_base pa = CONSOLE_ADDR \<or> (allocatable_physical_address (l_kernel_end l) pa \<or> v \<le> 3) \<and> \<not> (bit v 0 \<and> bit v 1)"
    using assms page_aligned_page_base [of pa] pn allocatable_page [of "l_kernel_end l" pa]
    unfolding marks_clean_def v_def by metis
  have b: "v AND 1 \<noteq> 0 \<longleftrightarrow> bit v 0" "v AND 2 \<noteq> 0 \<longleftrightarrow> bit v 1"
    using and_exp_word [of v 0] and_exp_word [of v 1] by (auto split: if_splits)
  have r: "\<not> reserved_physical_address pa" if "allocatable_physical_address (l_kernel_end l) pa"
    using that by (simp add: allocatable_physical_address_def)
  consider (high) "pa \<ge> maxpa" | (con) "pa < maxpa" "page_base pa = CONSOLE_ADDR"
    | (other) "pa < maxpa" "page_base pa \<noteq> CONSOLE_ADDR" "\<not> allocatable_physical_address (l_kernel_end l) pa" "\<not> v > 3"
    | (alloc) "pa < maxpa" "page_base pa \<noteq> CONSOLE_ADDR" "allocatable_physical_address (l_kernel_end l) pa" "\<not> (bit v 0 \<and> bit v 1)"
    using c by (metis linorder_not_less)
  then show ?thesis
  proof cases
    case alloc
    then have "v \<in> {0, 1, 2} \<or> (\<exists>ch. owner_symbol v = Inr ch)" using owner_symbol_total by blast
    then show ?thesis using alloc r b unfolding console_page_iff by (auto simp: symbol_at_def Let_def v_def [symmetric])
  qed (auto simp: symbol_at_def Let_def v_def [symmetric] console_page_iff)
qed

lemma draw_physical_ok:
  assumes "marks_clean (l_kernel_end l) (mu_marks m)" "pn < 512"
  shows "\<exists>m'. draw_physical l pn m = retIO m' \<and> quiet m m'"
proof -
  have "pn div 64 < 8" "pn mod 64 < 64" using assms(2) by auto
  then have cell: "0 \<le> CPOS (1 + int pn div 64) (12 + int pn mod 64)" "CPOS (1 + int pn div 64) (12 + int pn mod 64) < 2000"
    "0 \<le> CPOS (1 + int pn div 64) 3"
    by (simp_all add: CPOS_def flip: of_nat_div of_nat_mod zdiv_int zmod_int)
  have f: "fmt_ok (lit ''0x%06X '') [Arg_int (push_bit 12 (of_nat pn))]" by (simp add: lit_def)
  from kprint_ok [OF cell(3) f, of "0x0F00" m] obtain pos m1 where
    m1: "kprint (CPOS (1 + int pn div 64) 3) 0x0F00 (lit ''0x%06X '') [Arg_int (push_bit 12 (of_nat pn))] m = retIO (pos, m1)" "quiet m m1" .
  define m2 where "m2 = (if pn mod 64 = 0 then m1 else m)"
  have q2: "quiet m m2" using m1 by (simp add: m2_def)
  then have "marks_clean (l_kernel_end l) (mu_marks m2)" using assms(1) quietD(3) by simp
  from symbol_at_clean [OF this] obtain ch where ch: "symbol_at l (of_nat pn * PAGESIZE) m2 = retIO (ch, m2)" by blast
  from set_cell_ok [OF cell(1,2), of ch m2] obtain m3 where
    m3: "set_cell (CPOS (1 + int pn div 64) (12 + int pn mod 64)) ch m2 = retIO m3" "quiet m2 m3" .
  have "draw_physical l pn m = retIO m3"
    using m1(1) ch m3(1) by (cases "pn mod 64 = 0") (simp_all add: draw_physical_def m2_def)
  then show ?thesis using quiet_trans [OF q2 m3(2)] by blast
qed

lemma draw_physical_loop_ok:
  assumes "marks_clean (l_kernel_end l) (mu_marks m)"
  shows "\<exists>m'. draw_physical_loop l pn m = retIO m' \<and> quiet m m'"
  using assms
proof (induction "512 - pn" arbitrary: pn m rule: less_induct)
  case less
  show ?case
  proof (cases "pn < 512")
    case True
    from draw_physical_ok [OF less.prems True] obtain m1 where m1: "draw_physical l pn m = retIO m1" "quiet m m1" by blast
    have "\<exists>m'. draw_physical_loop l (pn + 1) m1 = retIO m' \<and> quiet m1 m'"
      by (rule less.hyps) (use True less.prems quietD(3) [OF m1(2)] in auto)
    then show ?thesis using m1 True quiet_trans by (subst draw_physical_loop.simps) auto
  qed (simp add: draw_physical_loop.simps)
qed

lemma cpos_on_screen: "0 \<le> r \<Longrightarrow> r < 25 \<Longrightarrow> 0 \<le> c \<Longrightarrow> c < 80 \<Longrightarrow> 0 \<le> CPOS r c \<and> CPOS r c < 2000"
  by (simp add: CPOS_def)

lemma iter_ok_plus:
  assumes "iter_ok m r" "page_aligned r"
  shows "vm_plus m (fresh_iter m r va) d = Inr (fresh_iter m r (va + d))"
  using iter_ok_find(1) [OF assms] by (simp add: vm_plus_def vm_find_def)

lemma draw_virtual_ok:
  assumes "marks_clean (l_kernel_end l) (mu_marks m)" "va < max_view_va"
  shows "\<exists>m'. draw_virtual l (fresh_iter (kbytes m) r va) m = retIO m' \<and> quiet m m'"
proof -
  let ?it = "fresh_iter (kbytes m) r va"
  define pn where "pn = va div PAGESIZE"
  have "unat va < 0x300000" using assms(2) by (simp add: word_less_nat_alt)
  then have "unat pn < 768" by (simp add: pn_def unat_div div_less_iff_less_mult)
  then have "unat (pn div 64) < 12" "unat (pn mod 64) < 64" by (simp_all add: unat_div unat_mod_distrib div_less_iff_less_mult)
  moreover have "uint w < int n \<longleftrightarrow> unat w < n" for w :: u64 and n by (simp only: unat_eq_nat_uint nat_less_iff uint_ge_0)
  from this [of "pn div 64" 12] this [of "pn mod 64" 64]
  have "uint (pn div 64) < 12 \<longleftrightarrow> unat (pn div 64) < 12" "uint (pn mod 64) < 64 \<longleftrightarrow> unat (pn mod 64) < 64" by simp_all
  ultimately have b: "uint (pn div 64) < 12" "uint (pn mod 64) < 64" "0 \<le> uint (pn div 64)" "0 \<le> uint (pn mod 64)"
    by (simp_all only: uint_ge_0)
  let ?c = "CPOS (11 + uint (pn div 64)) (12 + uint (pn mod 64))"
  have r: "0 \<le> 11 + uint (pn div 64)" "11 + uint (pn div 64) < 25" "0 \<le> 12 + uint (pn mod 64)" "12 + uint (pn mod 64) < 80"
    using b by linarith+
  have cell: "0 \<le> ?c" "?c < 2000" "0 \<le> CPOS (11 + uint (pn div 64)) 3"
    using cpos_on_screen [OF r] cpos_on_screen [OF r(1,2), of 3] by auto
  have f: "fmt_ok (lit ''0x%06X '') [Arg_long va]" by (simp add: lit_def)
  from kprint_ok [OF cell(3) f, of "0x0F00" m] obtain pos m1 where
    m1: "kprint (CPOS (11 + uint (pn div 64)) 3) 0x0F00 (lit ''0x%06X '') [Arg_long va] m = retIO (pos, m1)" "quiet m m1" .
  define m2 where "m2 = (if pn mod 64 = 0 then m1 else m)"
  have q2: "quiet m m2" using m1 by (simp add: m2_def)
  then have "marks_clean (l_kernel_end l) (mu_marks m2)" using assms(1) quietD(3) by simp
  from symbol_at_clean [OF this, of "vm_pa (kbytes m2) ?it"] obtain ch where
    ch: "symbol_at l (vm_pa (kbytes m2) ?it) m2 = retIO (ch, m2)" by blast
  define ch' where "ch' = (if \<not> vm_present (kbytes m2) ?it then 0x20 else if vm_user (kbytes m2) ?it then swap_colors ch else ch)"
  from set_cell_ok [OF cell(1,2), of ch' m2] obtain m3 where m3: "set_cell ?c ch' m2 = retIO m3" "quiet m2 m3" .
  have "draw_virtual l ?it m = bindIO (retIO m2) (\<lambda>m1.
      bindIO (if \<not> vm_present (kbytes m1) ?it then retIO (0x20, m1)
         else bindIO (symbol_at l (vm_pa (kbytes m1) ?it) m1) (\<lambda>(ch, m2).
           retIO (if vm_user (kbytes m2) ?it then swap_colors ch else ch, m2))) (\<lambda>(ch, m2). set_cell ?c ch m2))"
    using m1(1) by (simp add: draw_virtual_def m2_def pn_def [symmetric] Let_def)
  also have "\<dots> = retIO m3"
    using ch m3(1) by (simp add: ch'_def split: if_splits)
  finally show ?thesis using quiet_trans [OF q2 m3(2)] by blast
qed

lemma draw_virtual_loop_ok:
  assumes "marks_clean (l_kernel_end l) (mu_marks m)" and ok: "iter_ok (kbytes m) r" "page_aligned r"
  shows "\<exists>m'. draw_virtual_loop l (fresh_iter (kbytes m) r va) m = retIO m' \<and> quiet m m'"
  using assms
proof (induction "2 ^ 22 - unat va" arbitrary: va m rule: less_induct)
  case less
  show ?case
  proof (cases "va < max_view_va")
    case True
    from draw_virtual_ok [OF less.prems(1) True] obtain m1 where
      m1: "draw_virtual l (fresh_iter (kbytes m) r va) m = retIO m1" "quiet m m1" by blast
    have k1: "kbytes m1 = kbytes m" using quietD(1) [OF m1(2)] by simp
    have "unat (va + PAGESIZE) = unat va + 4096" "unat va < 0x300000" using page_step_less [of va] True by simp_all
    then have "\<exists>m'. draw_virtual_loop l (fresh_iter (kbytes m1) r (va + PAGESIZE)) m1 = retIO m' \<and> quiet m1 m'"
      by (intro less.hyps) (use less.prems k1 quietD(3) [OF m1(2)] in auto)
    then show ?thesis using m1 True quiet_trans iter_ok_plus [OF less.prems(2,3), of va PAGESIZE] k1
      by (subst draw_virtual_loop.simps) auto
  qed (simp add: draw_virtual_loop.simps)
qed

section \<open>The whole viewer\<close>

text \<open>
  The viewer has its page, which the kernel keeps for it, or there is a free page it can take. What it
  does to the machine: it may take that page; besides, only the console, the log and its map change.
\<close>

definition viewer_ok :: "link \<Rightarrow> machine \<Rightarrow> bool" where
  "viewer_ok l m \<longleftrightarrow>
     (if mu_v m = 0 then avail (l_kernel_end l) (phys (kern m)) \<noteq> {}
      else owned (l_kernel_end l) (proc_roots (kern m)) (phys (kern m)) (mu_v m))"

definition viewed :: "link \<Rightarrow> machine \<Rightarrow> machine \<Rightarrow> bool" where
  "viewed l m m' \<longleftrightarrow>
     alloc_outcome (l_kernel_end l) (l_pagetable l) (kern m) (kern m')
     \<and> (\<forall>i \<in> live (kern m). \<forall>va. space (kern m') i va = space (kern m) i va)
     \<and> (\<forall>r \<in> proc_roots (kern m). shared_room r (phys (kern m)) \<longrightarrow> shared_room r (phys (kern m')))
     \<and> mu_v m' \<noteq> 0 \<and> owned (l_kernel_end l) (proc_roots (kern m)) (phys (kern m')) (mu_v m')
     \<and> hw m' = hw m \<and> symbols m' = symbols m \<and> showing m' = showing m \<and> ticks m' = ticks m"

lemma kpt_ok_agree:
  assumes f: "forest m {kpt}" and ag: "agree_on (tables m {kpt}) m m'" and ok: "kpt_ok m kpt"
  shows "kpt_ok m' kpt"
proof -
  have tb: "tables m' {kpt} = tables m {kpt}" by (rule agree_forest(2) [OF f ag])
  have tr: "translate m' kpt va = translate m kpt va" for va by (rule agree_translate [OF f ag]) simp
  have it: "fresh_iter m' kpt va = fresh_iter m kpt va" for va by (rule fresh_iter_agree [OF f ag])
  have "checked m' (fresh_iter m kpt va) = Inr (fresh_iter m kpt va)" for va
  proof (cases "va_is_canonical va")
    case True
    obtain k t pm where w: "walk m va 3 kpt (- 1) = (k, t, pm)" by (cases "walk m va 3 kpt (- 1)")
    note n = walk_top_node [OF w]
    have "ld64 m' (entry_addr t (pageindex va k)) = ld64 m (entry_addr t (pageindex va k))"
      by (rule agree_entry [OF f ag, of kpt "vpath va k"]) (use n in auto)
    moreover have "walk m' va 3 kpt (- 1) = (k, t, pm)" using agree_walk [OF f ag] w by simp
    moreover have "checked m (fresh_iter m kpt va) = Inr (fresh_iter m kpt va)" using ok by (simp add: kpt_ok_def iter_ok_def)
    ultimately show ?thesis using leaf_fresh(1) [OF True w] leaf_fresh(1) [OF True, of m' kpt k t pm] it [of va]
      by (simp add: checked_def)
  next
    case False
    then show ?thesis by (simp add: checked_def fresh_noncanonical)
  qed
  then show ?thesis using ok tb tr it by (simp add: kpt_ok_def iter_ok_def user_map_def)
qed

lemma viewed_quiet: "viewed l m m' \<Longrightarrow> quiet m' m'' \<Longrightarrow> viewed l m m''"
  by (simp add: viewed_def quiet_def)

lemma refresh_page:
  assumes inv: "sys_inv (l_kernel_end l) (l_pagetable l) (kern m)" and vo: "viewer_ok l m" and z: "mu_v m = 0"
  obtains v s where "kalloc (l_kernel_end l) PAGESIZE (phys (kern m)) = (v, s)" "v \<noteq> 0"
    "viewed l m ((set_phys s m)\<lparr>mu_v := v\<rparr>)"
proof -
  let ?ke = "l_kernel_end l" and ?kpt = "l_pagetable l" and ?k = "kern m" and ?P = "proc_roots (kern m)"
  note i = sys_invD [OF inv]
  obtain v s where al: "kalloc ?ke PAGESIZE (phys ?k) = (v, s)" by (cases "kalloc ?ke PAGESIZE (phys ?k)")
  have v: "v \<noteq> 0" using vo z ka.alloc_none al by (auto simp: viewer_ok_def)
  have out: "bytes s a = bytes (phys ?k) a" if "page_base a \<noteq> v" for a using ka.alloc_some [OF al v] that by simp
  have as: "as_inv (avail ?ke) ?kpt ?P (phys ?k)" using i(1) by (simp add: mem_inv_def)
  note cf = ka.claim_frame [OF as al v out, simplified] and cs = claim_step(1) [OF i(1) al v out, simplified]
  have kp: "kept ?ke x ?P (phys ?k) ?P s" for x using kept_claim [OF i(1) al v out] by simp
  have "alloc_outcome ?ke ?kpt ?k (?k\<lparr>phys := s\<rparr>)"
    using cs cf(2,3) i(4) kp by (intro alloc_outcomeI [OF inv]) auto
  moreover have "owned ?ke ?P s v"
    using cf(4,5,6,7) avail_aligned [OF cf(4)] tables_mono [of ?P "insert ?kpt ?P" "bytes s"] by (auto simp: owned_def mappers_def)
  moreover have "\<forall>i \<in> live ?k. \<forall>va. space (?k\<lparr>phys := s\<rparr>) i va = space ?k i va" using cf(3) i(4) by (simp add: space_def)
  moreover have "shared_room r s" if r: "r \<in> ?P" and sr: "shared_room r (phys ?k)" for r
  proof -
    have um: "user_map (bytes s) r va q w = user_map (bytes (phys ?k)) r va q w" for va q w
      using cf(2) r by (intro user_map_cong) auto
    have "pages s (page_number q) = pages (phys ?k) (page_number q)" if "user_map (bytes (phys ?k)) r va q False" for va q
    proof -
      have "q \<noteq> v" using cf(7) [OF r] that um by blast
      then show ?thesis
        using ka.alloc_some [OF al v] page_number_inj [OF user_map_aligned [OF that] avail_aligned [OF cf(4)]] by simp
    qed
    then show ?thesis using sr unfolding shared_room_def um by metis
  qed
  ultimately have "viewed l m ((set_phys s m)\<lparr>mu_v := v\<rparr>)" using v by (simp add: viewed_def set_phys_def)
  then show thesis using that al v by blast
qed

lemma viewed_facts:
  assumes "viewed l m m'"
  shows "sys_inv (l_kernel_end l) (l_pagetable l) (kern m')" "live (kern m') = live (kern m)"
    "proc_roots (kern m') = proc_roots (kern m)" "ptable (kern m') = ptable (kern m)" "current (kern m') = current (kern m)"
    "\<And>z. kept (l_kernel_end l) z (proc_roots (kern m)) (phys (kern m)) (proc_roots (kern m)) (phys (kern m'))"
    "mu_v m' \<noteq> 0" "owned (l_kernel_end l) (proc_roots (kern m)) (phys (kern m')) (mu_v m')"
proof -
  show a: "sys_inv (l_kernel_end l) (l_pagetable l) (kern m')" "ptable (kern m') = ptable (kern m)" "current (kern m') = current (kern m)"
    "mu_v m' \<noteq> 0" "owned (l_kernel_end l) (proc_roots (kern m)) (phys (kern m')) (mu_v m')"
    using assms by (simp_all add: viewed_def alloc_outcome_def)
  then show b: "live (kern m') = live (kern m)" by (simp add: live_def)
  then show c: "proc_roots (kern m') = proc_roots (kern m)" using a(2) by (simp add: proc_roots_def)
  show "kept (l_kernel_end l) z (proc_roots (kern m)) (phys (kern m)) (proc_roots (kern m)) (phys (kern m'))" for z
    using assms c by (simp add: viewed_def alloc_outcome_def)
qed

lemma kept_kpt_ok:
  assumes inv: "sys_inv ke kpt k" and kp: "\<And>z. kept ke z (proc_roots k) (phys k) P' s'" and ok: "kpt_ok (bytes (phys k)) kpt"
  shows "kpt_ok (bytes s') kpt"
proof -
  have as: "as_inv (avail ke) kpt (proc_roots k) (phys k)" using inv by (simp add: sys_inv_def mem_inv_def)
  have "forest (bytes (phys k)) {kpt}" using as forest_subset [of "bytes (phys k)" "insert kpt (proc_roots k)" "{kpt}"]
    by (auto simp: as_inv_def pt_good_def)
  then show ?thesis using kept_kpt(1) [OF as kp] ok by (rule kpt_ok_agree)
qed

lemma refresh_ok:
  assumes l: "link_ok l" and inv: "sys_inv (l_kernel_end l) (l_pagetable l) (kern m)" and z: "0 \<notin> live (kern m)"
    and kp: "kpt_ok (kbytes m) (l_pagetable l)" and vo: "viewer_ok l m"
  shows "\<exists>m'. refresh l m = retIO m' \<and> viewed l m m' \<and> marks_clean (l_kernel_end l) (mu_marks m')"
proof -
  have "\<exists>m1. viewed l m m1 \<and> refresh l m = bindIO (tryIO m1 (refresh_marks (l_pagetable l) (kern m1) (mu_v m1)))
      (\<lambda>v. retIO (m1\<lparr>mu_marks := v\<rparr>))"
  proof (cases "mu_v m = 0")
    case True
    from refresh_page [OF inv vo True] obtain v s where
      v: "kalloc (l_kernel_end l) PAGESIZE (phys (kern m)) = (v, s)" "v \<noteq> 0" "viewed l m ((set_phys s m)\<lparr>mu_v := v\<rparr>)" .
    then show ?thesis using True by (intro exI [of _ "(set_phys s m)\<lparr>mu_v := v\<rparr>"]) (simp add: refresh_def Let_def)
  next
    case False
    then have "viewed l m m" using vo alloc_outcome_same [OF inv] by (simp add: viewed_def viewer_ok_def)
    then show ?thesis using False by (intro exI [of _ m]) (simp add: refresh_def)
  qed
  then obtain m1 where m1: "viewed l m m1" and run: "refresh l m =
      bindIO (tryIO m1 (refresh_marks (l_pagetable l) (kern m1) (mu_v m1))) (\<lambda>v. retIO (m1\<lparr>mu_marks := v\<rparr>))" by blast
  note f = viewed_facts [OF m1]
  have "\<exists>v. refresh_marks (l_pagetable l) (kern m1) (mu_v m1) = retIO v \<and> marks_clean (l_kernel_end l) v"
  proof (rule refresh_marks_clean [OF l])
    show "mem_inv (l_kernel_end l) (l_pagetable l) (proc_roots (kern m1)) (phys (kern m1))" using f(1) by (simp add: sys_inv_def)
    show "0 \<notin> live (kern m1)" using z f(2) by simp
    show "kpt_ok (kbytes m1) (l_pagetable l)" by (rule kept_kpt_ok [OF inv f(6) kp])
    show "owned (l_kernel_end l) (proc_roots (kern m1)) (phys (kern m1)) (mu_v m1)" using f(3,8) by simp
  qed
  then obtain v where "refresh_marks (l_pagetable l) (kern m1) (mu_v m1) = retIO v" "marks_clean (l_kernel_end l) v" by blast
  then show ?thesis using run m1 by (intro exI [of _ "m1\<lparr>mu_marks := v\<rparr>"]) (simp add: viewed_def)
qed

lemma console_memviewer_ok:
  assumes l: "link_ok l" and inv: "sys_inv (l_kernel_end l) (l_pagetable l) (kern m)"
    and z: "state (ptable (kern m) 0) = P_FREE" and kp: "kpt_ok (kbytes m) (l_pagetable l)" and vo: "viewer_ok l m"
    and p: "\<And>i. p = Some i \<Longrightarrow> i \<in> live (kern m)"
  shows "\<exists>m'. console_memviewer l p m = retIO m' \<and> viewed l m m' \<and> marks_clean (l_kernel_end l) (mu_marks m')"
proof -
  have "0 \<notin> live (kern m)" using z by (simp add: live_def)
  from refresh_ok [OF l inv this kp vo] obtain m1 where
    m1: "refresh l m = retIO m1" "viewed l m m1" "marks_clean (l_kernel_end l) (mu_marks m1)" by blast
  have nl: "fmt_ok (replicate n 10) []" for n by (induction n) simp_all
  have f: "fmt_ok (lit ''PHYSICAL MEMORY'' @ [10]) []" "fmt_ok (replicate 13 10) []" "0 \<le> CPOS 0 32" "0 \<le> CPOS 10 0" "0 \<le> CPOS 10 26"
    by (simp_all add: lit_def CPOS_def nl)
  from kprint_ok [OF f(3,1), of "0x0F00" m1] obtain pos m2 where
    m2: "kprint (CPOS 0 32) 0x0F00 (lit ''PHYSICAL MEMORY'' @ [10]) [] m1 = retIO (pos, m2)" "quiet m1 m2" .
  have "marks_clean (l_kernel_end l) (mu_marks m2)" using m1(3) quietD(3) [OF m2(2)] by simp
  from draw_physical_loop_ok [OF this, of 0] obtain m3 where m3: "draw_physical_loop l 0 m2 = retIO m3" "quiet m2 m3" by blast
  have q3: "quiet m1 m3" using quiet_trans [OF m2(2) m3(2)] .
  have v3: "viewed l m m3" by (rule viewed_quiet [OF m1(2) q3])
  note f3 = viewed_facts [OF v3]
  have run: "console_memviewer l p m = (case p of
       Some i \<Rightarrow>
         if pagetable (ptable (kern m3) i) \<noteq> 0 then console_memviewer_virtual l (ptable (kern m3) i) m3
         else bindIO (kprint (CPOS 10 0) 0x0F00 (replicate 13 10) [] m3) (\<lambda>(_, m4). retIO m4)
     | None \<Rightarrow> bindIO (kprint (CPOS 10 0) 0x0F00 (replicate 13 10) [] m3) (\<lambda>(_, m4). retIO m4))"
    using z m1(1) m2(1) m3(1) by (simp add: console_memviewer_def)
  from kprint_ok [OF f(4,2), of "0x0F00" m3] obtain pos4 m4 where
    m4: "kprint (CPOS 10 0) 0x0F00 (replicate 13 10) [] m3 = retIO (pos4, m4)" "quiet m3 m4" .
  have blank: "viewed l m m4" by (rule viewed_quiet [OF v3 m4(2)])
  show ?thesis
  proof (cases "\<exists>i. p = Some i \<and> pagetable (ptable (kern m3) i) \<noteq> 0")
    case False
    then have "console_memviewer l p m = retIO m4" using run m4(1) by (cases p) auto
    then show ?thesis using blank quietD(3) [OF m4(2)] quietD(3) [OF q3] m1(3) by simp
  next
    case True
    then obtain i where i: "p = Some i" "pagetable (ptable (kern m3) i) \<noteq> 0" by blast
    let ?r = "pagetable (ptable (kern m3) i)"
    have r: "?r \<in> proc_roots (kern m3)" using live_root [of i "kern m3"] p [OF i(1)] f3(2) by simp
    have mi: "mem_inv (l_kernel_end l) (l_pagetable l) (proc_roots (kern m3)) (phys (kern m3))" using f3(1) by (simp add: sys_inv_def)
    note d = mem_invD [OF mi r]
    have fp: "fmt_ok (lit ''VIRTUAL ADDRESS SPACE FOR %d'' @ [10]) [Arg_int (word_of_int (pid (ptable (kern m3) i)))]" by (simp add: lit_def)
    from kprint_ok [OF f(5) fp, of "0x0F00" m3] obtain pos5 m5 where
      m5: "kprint (CPOS 10 26) 0x0F00 (lit ''VIRTUAL ADDRESS SPACE FOR %d'' @ [10]) [Arg_int (word_of_int (pid (ptable (kern m3) i)))] m3
        = retIO (pos5, m5)" "quiet m3 m5" .
    have k5: "kern m5 = kern m3" "marks_clean (l_kernel_end l) (mu_marks m5)"
      using quietD [OF m5(2)] quietD(3) [OF q3] m1(3) by simp_all
    have io: "iter_ok (kbytes m5) ?r" using ptree_iter_ok [OF d(1)] k5(1) by simp
    from draw_virtual_loop_ok [OF k5(2) io d(2), of 0] obtain m6 where
      m6: "draw_virtual_loop l (fresh_iter (kbytes m5) ?r 0) m5 = retIO m6" "quiet m5 m6" by blast
    have "console_memviewer_virtual l (ptable (kern m3) i) m3 = retIO m6"
      using m5(1) m6(1) iter_ok_find(2) [OF io d(2), of 0] by (simp add: console_memviewer_virtual_def)
    then have "console_memviewer l p m = retIO m6" using run i by simp
    moreover have "viewed l m m6" by (rule viewed_quiet [OF viewed_quiet [OF v3 m5(2)] m6(2)])
    ultimately show ?thesis using quietD(3) [OF m6(2)] k5(2) by simp
  qed
qed

end
