(* ===== verification/System.thy ===== *)
theory System
  imports Memviewer_Safe
begin

text \<open>
  The kernel as a whole: the invariant of the machine between two entries into the kernel, and that
  \<open>memshow\<close>, \<open>run\<close>, \<open>schedule\<close>, \<open>panic\<close>, \<open>syscall\<close> and \<open>exception\<close> keep it and never fault.
\<close>

section \<open>Invariant\<close>

definition minv :: "link \<Rightarrow> machine \<Rightarrow> bool" where
  "minv l m \<longleftrightarrow>
     link_ok l \<and> sys_inv (l_kernel_end l) (l_pagetable l) (kern m) \<and> kpt_ok (kbytes m) (l_pagetable l)
     \<and> viewer_ok l m \<and> state (ptable (kern m) 0) = P_FREE
     \<and> (\<forall>i < NPROC. pid (ptable (kern m) i) = int i) \<and> current (kern m) < NPROC
     \<and> 0 \<le> showing m \<and> showing m < int NPROC"

text \<open>What processes see of an operation that does not concern them: nothing.\<close>

definition unseen :: "machine \<Rightarrow> machine \<Rightarrow> bool" where
  "unseen m m' \<longleftrightarrow>
     ptable (kern m') = ptable (kern m) \<and> current (kern m') = current (kern m)
     \<and> (\<forall>i \<in> live (kern m). \<forall>va. space (kern m') i va = space (kern m) i va)
     \<and> (\<forall>r \<in> proc_roots (kern m). shared_room r (phys (kern m)) \<longrightarrow> shared_room r (phys (kern m')))"

lemma minvD:
  assumes "minv l m"
  shows "link_ok l" "sys_inv (l_kernel_end l) (l_pagetable l) (kern m)" "kpt_ok (kbytes m) (l_pagetable l)"
    "viewer_ok l m" "state (ptable (kern m) 0) = P_FREE" "\<And>i. i < NPROC \<Longrightarrow> pid (ptable (kern m) i) = int i"
    "current (kern m) < NPROC" "0 \<le> showing m" "showing m < int NPROC" "l_arguments l < 0x100000000"
  using assms by (auto simp: minv_def link_ok_def)

lemma unseen_refl [simp]: "unseen m m"
  by (simp add: unseen_def)

lemma unseen_live: "unseen m m' \<Longrightarrow> live (kern m') = live (kern m)"
  by (simp add: unseen_def live_def)

lemma unseen_trans: "unseen m m' \<Longrightarrow> unseen m' m'' \<Longrightarrow> unseen m m''"
  using unseen_live [of m m'] by (simp add: unseen_def proc_roots_def)

lemma minv_quiet: "minv l m \<Longrightarrow> quiet m m' \<Longrightarrow> minv l m'"
  by (simp add: minv_def quiet_def viewer_ok_def)

lemma quiet_unseen: "quiet m m' \<Longrightarrow> unseen m m'"
  by (simp add: quiet_def unseen_def)

text \<open>An operation on the kernel's state that keeps the system invariant and the kernel's own pages.\<close>

lemma minv_kern:
  assumes inv: "minv l m" and mu: "mu_v m \<noteq> 0" and s: "sys_inv (l_kernel_end l) (l_pagetable l) k"
    and kp: "\<And>z. kept (l_kernel_end l) z (proc_roots (kern m)) (phys (kern m)) (proc_roots k) (phys k)"
    and z: "state (ptable k 0) = P_FREE" and pids: "\<And>i. i < NPROC \<Longrightarrow> pid (ptable k i) = int i" and cur: "current k < NPROC"
  shows "minv l (m\<lparr>kern := k\<rparr>)"
proof -
  note i = minvD [OF inv]
  have "owned (l_kernel_end l) (proc_roots k) (phys k) (mu_v m)" using i(4) mu kp [of "mu_v m"] by (simp add: viewer_ok_def kept_def)
  moreover have "kpt_ok (bytes (phys k)) (l_pagetable l)" by (rule kept_kpt_ok [OF i(2) kp i(3)])
  ultimately show ?thesis using i s z pids cur mu by (simp add: minv_def viewer_ok_def)
qed

section \<open>memshow\<close>

lemma find_shown_range:
  assumes "find_shown n pt sh = (p, sh')" "0 \<le> sh" "sh < int NPROC"
  shows "0 \<le> sh' \<and> sh' < int NPROC \<and> (\<forall>i. p = Some i \<longrightarrow> i < NPROC \<and> state (pt i) \<noteq> P_FREE)"
  using assms
proof (induction n arbitrary: sh)
  case (Suc n)
  show ?case
  proof (cases "state (pt (nat sh)) \<noteq> P_FREE \<and> pagetable (pt (nat sh)) \<noteq> 0")
    case True
    then show ?thesis using Suc.prems by auto
  next
    case False
    then have "find_shown n pt ((sh + 1) mod int NPROC) = (p, sh')" using Suc.prems(1) by auto
    then show ?thesis by (rule Suc.IH) simp_all
  qed
qed auto

lemma memshow_ok:
  assumes inv: "minv l m"
  obtains m' where "memshow l m = retIO m'" "minv l m'" "unseen m m'" "mu_v m' \<noteq> 0" "marks_clean (l_kernel_end l) (mu_marks m')"
proof -
  note i = minvD [OF inv]
  define m1 where "m1 = (if last_ticks m = 0 \<or> ticks m - ucast (last_ticks m) \<ge> of_nat (HZ div 2)
                then m\<lparr>last_ticks := ucast (ticks m), showing := (showing m + 1) mod int NPROC\<rparr> else m)"
  obtain p sh where fs: "find_shown NPROC (ptable (kern m1)) (showing m1) = (p, sh)"
    by (cases "find_shown NPROC (ptable (kern m1)) (showing m1)")
  have m1: "kern m1 = kern m" "0 \<le> showing m1" "showing m1 < int NPROC" "mu_v m1 = mu_v m"
    using i(8,9) by (simp_all add: m1_def)
  let ?m = "m1\<lparr>showing := sh\<rparr>"
  note fr = find_shown_range [OF fs m1(2,3)]
  have "\<exists>m'. console_memviewer l p ?m = retIO m' \<and> viewed l ?m m' \<and> marks_clean (l_kernel_end l) (mu_marks m')"
    by (rule console_memviewer_ok) (use i m1 fr in \<open>auto simp: viewer_ok_def live_def\<close>)
  then obtain m' where m': "console_memviewer l p ?m = retIO m'" "viewed l ?m m'" "marks_clean (l_kernel_end l) (mu_marks m')" by blast
  note f = viewed_facts [OF m'(2)]
  have run: "memshow l m = retIO m'" unfolding memshow_def m1_def [symmetric] Let_def fs using m'(1) by simp
  have "kpt_ok (kbytes m') (l_pagetable l)"
    by (rule kept_kpt_ok [of _ _ "kern m" "proc_roots (kern m)"]) (use i f(6) m1(1) in simp_all)
  then have "minv l m'"
    using i f m1 fr m'(2) by (simp add: minv_def viewer_ok_def viewed_def)
  moreover have "unseen m m'" using m'(2) f(4,5) m1(1) by (simp add: unseen_def viewed_def)
  ultimately show thesis using that run f(7) m'(3) by blast
qed

section \<open>run\<close>

lemma check_mapped_ok:
  assumes "iter_ok b pt" "page_aligned pt" "translate b pt a = Some (a, perm)"
  shows "check_mapped b pt a = Inr ()"
  using iter_ok_find(2) [OF assms(1,2), of a] assms(3) by (simp add: check_mapped_def vm_pa_fresh)

lemma check_pagetable_ok:
  assumes inv: "minv l m" and i: "i \<in> live (kern m)"
  shows "check_pagetable l (kbytes m) (pagetable (ptable (kern m) i)) = Inr ()"
proof -
  let ?r = "pagetable (ptable (kern m) i)"
  note iv = minvD [OF inv] and si = sys_invD [OF minvD(2) [OF inv]]
  note d = mem_invD [OF si(1) si(4) [OF i]]
  have lo: "l_exception_entry l < PROC_START_ADDR" "l_pagetable l < PROC_START_ADDR" using iv(1) by (simp_all add: link_ok_def)
  obtain p1 p2 where p: "translate (kbytes m) ?r (l_exception_entry l) = Some (l_exception_entry l, p1)"
      "translate (kbytes m) ?r (l_pagetable l) = Some (l_pagetable l, p2)"
    using si(3) [OF i] lo unfolding low_ident_def by blast
  have io: "iter_ok (kbytes m) ?r" by (rule ptree_iter_ok [OF d(1)])
  have "allocatable_physical_address (l_kernel_end l) ?r"
    using si(1) root_in_tables [OF si(4) [OF i]] by (simp add: mem_inv_def tables_ok_def)
  then have "?r < MEMSIZE_PHYSICAL" by (simp add: allocatable_physical_address_def)
  then obtain p3 where p3: "translate (kbytes m) (l_pagetable l) ?r = Some (?r, p3)" using iv(3) by (auto simp: kpt_ok_def)
  have k: "iter_ok (kbytes m) (l_pagetable l)" "page_aligned (l_pagetable l)"
    using iv(3) si(1) forest_aligned by (auto simp: kpt_ok_def mem_inv_def as_inv_def pt_good_def)
  show ?thesis
    using check_mapped_ok [OF io d(2) p(1)] check_mapped_ok [OF io d(2) p(2)] check_mapped_ok [OF k p3] d(2)
    by (simp add: check_pagetable_def page_aligned_def)
qed

lemma run_ok:
  assumes inv: "minv l m" and i: "i < NPROC" "state (ptable (kern m) i) = P_RUNNABLE"
  obtains m' where "run l i m = Some (Inl (Resume i, m'))" "minv l m'" "ptable (kern m') = ptable (kern m)"
    "current (kern m') = i" "\<And>j va. j \<in> live (kern m) \<Longrightarrow> space (kern m') j va = space (kern m) j va" "mu_v m' = mu_v m"
proof -
  let ?k = "(kern m)\<lparr>current := i\<rparr>"
  let ?m = "(set_current i m)\<lparr>hw := wrcr3 (pagetable (ptable (kern m) i)) (hw m)\<rparr>"
  have lv: "i \<in> live (kern m)" using i by (simp add: live_def)
  have same: "live ?k = live (kern m)" "proc_roots ?k = proc_roots (kern m)" by (simp_all add: live_def proc_roots_def)
  have "run l i m = Some (Inl (Resume i, ?m))"
    using i check_pagetable_ok [OF inv lv] by (simp add: run_def set_current_def Let_def)
  moreover have "minv l ?m"
    using inv i(1) same by (simp add: minv_def set_current_def viewer_ok_def sys_inv_def)
  ultimately show thesis by (rule that) (simp_all add: set_current_def space_def)
qed

section \<open>Stopping\<close>

text \<open>The user has switched the machine off or restarted it; and: the run spins until the user does so.\<close>

definition stopped :: "'a run \<Rightarrow> bool" where
  "stopped y \<longleftrightarrow> (\<exists>h m'. y = Some (Inl (h, m')) \<and> user_stop h)"

definition spins :: "'a run \<Rightarrow> bool" where
  "spins y \<longleftrightarrow> y = None \<or> stopped y"

lemma stopped_bind [simp]: "stopped (Some (Inl (h, m))) \<longleftrightarrow> user_stop h" "\<not> stopped (Some (Inr x))" "\<not> stopped None"
  by (simp_all add: stopped_def)

lemma spins_bind: "spins y \<Longrightarrow> spins (bindIO y f)"
  by (auto simp: spins_def stopped_def bindIO_def)

lemma fail_spins:
  assumes "l_arguments l < 0x100000000"
  shows "spins (fail l m)"
proof -
  have "l_arguments l < 0x100000000 \<longrightarrow> (\<exists>h m'. y = Inl (h, m') \<and> user_stop h)" if "fail l m = Some y" for y
  proof (rule fail.raw_induct [OF _ that], intro impI)
    fix loop :: "link \<Rightarrow> machine \<Rightarrow> unit run" and l m y
    assume IH: "\<And>l m y. loop l m = Some y \<Longrightarrow> l_arguments l < 0x100000000 \<longrightarrow> (\<exists>h m'. y = Inl (h, m') \<and> user_stop h)"
      and y: "bindIO (check_keyboard l m) (\<lambda>(c, m'). loop l m') = Some y" and l: "l_arguments l < 0x100000000"
    show "\<exists>h m'. y = Inl (h, m') \<and> user_stop h"
      by (rule check_keyboard_cases [OF l, of m]) (use y IH l in auto)
  qed
  then show ?thesis using assms by (cases "fail l m") (auto simp: spins_def stopped_def)
qed

definition on_screen :: "machine \<Rightarrow> bool" where
  "on_screen m \<longleftrightarrow> 0 \<le> cursorpos (con m) \<and> cursorpos (con m) \<le> 2000"

lemma error_print_ok:
  assumes f: "fmt_ok fmt args" and s: "on_screen m"
  obtains pos m' where "error_vprintf (- 1) color fmt args m = retIO (pos, m')" "on_screen m'"
proof -
  from klog_ok [OF f, of m] obtain m1 where m1: "klog fmt args m = retIO m1" "con m1 = con m" by metis
  have "- 1 < (0 :: int) \<longrightarrow> 0 \<le> cursorpos (con m1) \<and> cursorpos (con m1) \<le> 2000" using s m1(2) by (simp add: on_screen_def)
  then obtain pos m2 where "kprint (- 1) color fmt args m1 = retIO (pos, m2)" "on_screen m2"
    by (rule kprint_at [OF _ f, of "- 1" m1 color]) (simp_all add: on_screen_def)
  then show thesis using that m1(1) by (simp add: error_vprintf_def)
qed

text \<open>\<open>panic\<close> prints and never returns.\<close>

lemma panic_spins:
  assumes l: "l_arguments l < 0x100000000" and f: "\<And>fmt. f = Some fmt \<Longrightarrow> fmt_ok fmt args"
  shows "spins (panic l f args m)"
proof -
  define m0 where "m0 = m\<lparr>panicking := True, con := (con m)\<lparr>cursorpos := CPOS 23 0\<rparr>\<rparr>"
  have s0: "on_screen m0" by (simp add: on_screen_def m0_def CPOS_def)
  note fs = fail_spins [OF l]
  show ?thesis
  proof (cases f)
    case None
    have "fmt_ok (lit ''PANIC'') []" by (simp add: lit_def)
    from error_print_ok [OF this s0, of COLOR_ERROR] obtain pos m1 where
      m1: "error_vprintf (- 1) COLOR_ERROR (lit ''PANIC'') [] m0 = retIO (pos, m1)" .
    have "fmt_ok [10] []" by simp
    from klog_ok [OF this, of m1] obtain m2 where m2: "klog [10] [] m1 = retIO m2" by metis
    show ?thesis using None m1 m2 fs by (simp add: panic_def m0_def [symmetric] error_printf_def Let_def)
  next
    case (Some fmt)
    have "fmt_ok (lit ''PANIC: '') []" by (simp add: lit_def)
    from error_print_ok [OF this s0, of COLOR_ERROR] obtain pos m1 where
      m1: "error_vprintf (- 1) COLOR_ERROR (lit ''PANIC: '') [] m0 = retIO (pos, m1)" "on_screen m1" .
    from error_print_ok [OF f [OF Some] m1(2), of COLOR_ERROR] obtain pos2 m2 where
      m2: "error_vprintf (- 1) COLOR_ERROR fmt args m1 = retIO (pos2, m2)" "on_screen m2" .
    have "fmt_ok [10] []" by simp
    from error_print_ok [OF this m2(2), of COLOR_ERROR] obtain pos3 m3 where
      m3: "error_vprintf (- 1) COLOR_ERROR [10] [] m2 = retIO (pos3, m3)" .
    show ?thesis using Some m1(1) m2(1) m3 fs by (simp add: panic_def m0_def [symmetric] error_printf_def Let_def)
  qed
qed

section \<open>schedule\<close>

text \<open>Going round from process \<open>i\<close>, the first runnable process comes after \<open>d\<close> steps.\<close>

definition first_runnable :: "(nat \<Rightarrow> proc) \<Rightarrow> nat \<Rightarrow> nat \<Rightarrow> bool" where
  "first_runnable pt i d \<longleftrightarrow>
     1 \<le> d \<and> state (pt ((i + d) mod NPROC)) = P_RUNNABLE
     \<and> (\<forall>e. 1 \<le> e \<longrightarrow> e < d \<longrightarrow> state (pt ((i + e) mod NPROC)) \<noteq> P_RUNNABLE)"

definition resumes :: "link \<Rightarrow> machine \<Rightarrow> nat \<Rightarrow> 'a run \<Rightarrow> bool" where
  "resumes l m j y \<longleftrightarrow>
     (\<exists>m'. y = Some (Inl (Resume j, m')) \<and> minv l m' \<and> ptable (kern m') = ptable (kern m) \<and> current (kern m') = j
        \<and> state (ptable (kern m) j) = P_RUNNABLE
        \<and> (\<forall>i \<in> live (kern m). \<forall>va. space (kern m') i va = space (kern m) i va) \<and> (mu_v m \<noteq> 0 \<longrightarrow> mu_v m' \<noteq> 0))"

lemma resumes_unseen:
  "unseen m m1 \<Longrightarrow> (mu_v m \<noteq> 0 \<longrightarrow> mu_v m1 \<noteq> 0) \<Longrightarrow> resumes l m1 j y \<Longrightarrow> resumes l m j y"
  using unseen_live [of m m1] by (auto simp: resumes_def unseen_def)

text \<open>One round of the loop in which no process is run.\<close>

definition idle_round :: "link \<Rightarrow> u32 \<Rightarrow> (machine \<Rightarrow> unit run) \<Rightarrow> machine \<Rightarrow> unit run" where
  "idle_round l s f m =
     bindIO (check_keyboard l m) (\<lambda>(_, m1).
        bindIO (if s mod 0x1000 = 0 then bindIO (memshow l m1) (klog (lit ''%u'' @ [10]) [Arg_int s]) else retIO m1) f)"

lemma schedule_loop_round:
  "schedule_loop l i s m =
     (let j = (i + 1) mod NPROC in
      if state (ptable (kern m) j) = P_RUNNABLE then run l j m else idle_round l s (schedule_loop l j (s + 1)) m)"
  by (subst schedule_loop.simps) (simp add: idle_round_def Let_def)

lemma idle_step:
  assumes inv: "minv l m"
  obtains (go) m' where "\<And>f. idle_round l s f m = f m'" "minv l m'" "unseen m m'" "mu_v m \<noteq> 0 \<longrightarrow> mu_v m' \<noteq> 0"
  | (stop) "\<And>f. stopped (idle_round l s f m)"
proof (rule check_keyboard_cases [OF minvD(10) [OF inv], of m])
  fix c m1 assume ck: "check_keyboard l m = retIO (c, m1)" "quiet m m1"
  have i1: "minv l m1" "unseen m m1" "mu_v m1 = mu_v m"
    using minv_quiet [OF inv ck(2)] quiet_unseen [OF ck(2)] quietD(2) [OF ck(2)] by auto
  show thesis
  proof (cases "s mod 0x1000 = 0")
    case False
    then show thesis using ck i1 by (intro go [of m1]) (simp_all add: idle_round_def)
  next
    case True
    from memshow_ok [OF i1(1)] obtain m2 where m2: "memshow l m1 = retIO m2" "minv l m2" "unseen m1 m2" "mu_v m2 \<noteq> 0" by metis
    have "fmt_ok (lit ''%u'' @ [10]) [Arg_int s]" by (simp add: lit_def)
    from klog_ok [OF this, of m2] obtain m3 where m3: "klog (lit ''%u'' @ [10]) [Arg_int s] m2 = retIO m3" "quiet m2 m3" by metis
    have "idle_round l s f m = f m3" for f using True ck m2(1) m3(1) by (simp add: idle_round_def)
    then show thesis
      using minv_quiet [OF m2(2) m3(2)] unseen_trans [OF unseen_trans [OF i1(2) m2(3)] quiet_unseen [OF m3(2)]] quietD(2) [OF m3(2)] m2(4)
      by (intro go [of m3]) simp_all
  qed
next
  fix h m1 assume ck: "check_keyboard l m = Some (Inl (h, m1))" "user_stop h"
  then show thesis by (intro stop) (simp add: idle_round_def)
qed

lemma schedule_loop_runs:
  assumes "minv l m" "first_runnable (ptable (kern m)) i d"
  shows "stopped (schedule_loop l i s m) \<or> resumes l m ((i + d) mod NPROC) (schedule_loop l i s m)"
  using assms
proof (induction d arbitrary: i s m)
  case 0
  then show ?case by (simp add: first_runnable_def)
next
  case (Suc d)
  let ?j = "(i + 1) mod NPROC"
  show ?case
  proof (cases "d = 0")
    case True
    then have r: "state (ptable (kern m) ?j) = P_RUNNABLE" using Suc.prems(2) by (simp add: first_runnable_def)
    have "?j < NPROC" by simp
    from run_ok [OF Suc.prems(1) this r] obtain m' where m': "(run l ?j m :: unit run) = Some (Inl (Resume ?j, m'))" "minv l m'"
      "ptable (kern m') = ptable (kern m)" "current (kern m') = ?j"
      "\<And>i va. i \<in> live (kern m) \<Longrightarrow> space (kern m') i va = space (kern m) i va" "mu_v m' = mu_v m" by metis
    have "schedule_loop l i s m = Some (Inl (Resume ?j, m'))" using r m'(1) by (simp add: schedule_loop_round [of l i])
    then have "resumes l m ?j (schedule_loop l i s m)" using m' r by (simp add: resumes_def)
    then show ?thesis using True by simp
  next
    case False
    then have n: "state (ptable (kern m) ?j) \<noteq> P_RUNNABLE" using Suc.prems(2) by (auto simp: first_runnable_def)
    have sh: "(?j + e) mod NPROC = (i + Suc e) mod NPROC" for e by (simp add: mod_add_left_eq)
    have fr: "first_runnable (ptable (kern m)) ?j d"
      using Suc.prems(2) False unfolding first_runnable_def sh by auto
    have rd: "schedule_loop l i s m = idle_round l s (schedule_loop l ?j (s + 1)) m" using n by (simp add: schedule_loop_round [of l i])
    show ?thesis
    proof (rule idle_step [OF Suc.prems(1), of s])
      fix m' assume go: "\<And>f. idle_round l s f m = f m'" and m': "minv l m'" "unseen m m'" "mu_v m \<noteq> 0 \<longrightarrow> mu_v m' \<noteq> 0"
      have "first_runnable (ptable (kern m')) ?j d" using fr m'(2) by (simp add: unseen_def)
      from Suc.IH [OF m'(1) this, of "s + 1"] show ?thesis
        unfolding rd go sh using resumes_unseen [OF m'(2,3)] by auto
    qed (simp add: rd)
  qed
qed

lemma schedule_loop_idle:
  assumes "minv l m" "\<And>j. j < NPROC \<Longrightarrow> state (ptable (kern m) j) \<noteq> P_RUNNABLE"
  shows "spins (schedule_loop l i s m)"
proof -
  have "minv l m \<and> (\<forall>j < NPROC. state (ptable (kern m) j) \<noteq> P_RUNNABLE) \<longrightarrow> stopped (Some y)"
    if "schedule_loop l i s m = Some y" for y
  proof (rule schedule_loop.raw_induct [OF _ that], intro impI, elim conjE)
    fix loop :: "link \<Rightarrow> nat \<Rightarrow> u32 \<Rightarrow> machine \<Rightarrow> unit run" and l i s m y
    assume IH: "\<And>l i s m y. loop l i s m = Some y \<Longrightarrow>
        minv l m \<and> (\<forall>j < NPROC. state (ptable (kern m) j) \<noteq> P_RUNNABLE) \<longrightarrow> stopped (Some y)"
      and y: "(let j = (i + 1) mod NPROC in if state (ptable (kern m) j) = P_RUNNABLE then run l j m
        else bindIO (check_keyboard l m) (\<lambda>(_, m1).
          bindIO (if s mod 0x1000 = 0 then bindIO (memshow l m1) (klog (lit ''%u'' @ [10]) [Arg_int s]) else retIO m1)
            (loop l j (s + 1)))) = Some y"
      and inv: "minv l m" and n: "\<forall>j < NPROC. state (ptable (kern m) j) \<noteq> P_RUNNABLE"
    let ?j = "(i + 1) mod NPROC"
    have "state (ptable (kern m) ?j) \<noteq> P_RUNNABLE" using n by simp
    then have r: "idle_round l s (loop l ?j (s + 1)) m = Some y" using y by (simp add: idle_round_def Let_def)
    show "stopped (Some y)"
    proof (rule idle_step [OF inv, of s])
      fix m' assume go: "\<And>f. idle_round l s f m = f m'" and m': "minv l m'" "unseen m m'"
      then show ?thesis using IH [of l ?j "s + 1" m' y] r n by (simp add: unseen_def)
    next
      assume "\<And>f. stopped (idle_round l s f m)"
      then show ?thesis using r by metis
    qed
  qed
  then show ?thesis using assms by (cases "schedule_loop l i s m") (auto simp: spins_def)
qed

lemma first_runnable_ex:
  assumes "j < NPROC" "state (pt j) = P_RUNNABLE" "i < NPROC"
  shows "\<exists>d \<le> NPROC. first_runnable pt i d"
proof -
  let ?Q = "\<lambda>d. 1 \<le> d \<and> state (pt ((i + d) mod NPROC)) = P_RUNNABLE"
  define d0 where "d0 = (if j > i then j - i else j + NPROC - i)"
  have "1 \<le> d0" "d0 \<le> NPROC" "(i + d0) mod NPROC = j" using assms by (auto simp: d0_def)
  then have q: "?Q d0" using assms by simp
  have "?Q (Least ?Q)" using q by (rule LeastI)
  moreover have "Least ?Q \<le> d0" using q by (rule Least_le)
  moreover have "\<not> ?Q e" if "e < Least ?Q" for e using that by (rule not_less_Least)
  ultimately have "first_runnable pt i (Least ?Q)" unfolding first_runnable_def by blast
  then show ?thesis using \<open>Least ?Q \<le> d0\<close> \<open>d0 \<le> NPROC\<close> by (intro exI [of _ "Least ?Q"]) simp
qed

lemma schedule_start:
  assumes "minv l m"
  shows "schedule l m = schedule_loop l (current (kern m)) 1 m"
  using minvD(6) [OF assms minvD(7) [OF assms]] by (simp add: schedule_def)

lemma schedule_cases:
  assumes "minv l m"
  obtains (stop) "stopped (schedule l m)" | (go) j where "resumes l m j (schedule l m)"
  | (idle) "spins (schedule l m)" "\<And>j. j < NPROC \<Longrightarrow> state (ptable (kern m) j) \<noteq> P_RUNNABLE"
proof (cases "\<exists>j < NPROC. state (ptable (kern m) j) = P_RUNNABLE")
  case True
  then obtain d where "first_runnable (ptable (kern m)) (current (kern m)) d"
    using first_runnable_ex minvD(7) [OF assms] by blast
  from schedule_loop_runs [OF assms this, of 1] show thesis
    using stop go unfolding schedule_start [OF assms] by blast
next
  case False
  then show thesis using idle schedule_loop_idle [OF assms] unfolding schedule_start [OF assms] by blast
qed

end
