(* ===== verification/Kernel_Safe.thy ===== *)
theory Kernel_Safe
  imports System
begin

text \<open>
  The two entry points of the kernel, \<open>syscall\<close> and \<open>exception\<close>: whatever a process does, they keep the
  machine's invariant, never fault, and leave every other process alone.
\<close>

section \<open>Results of a kernel entry\<close>

definition isolated :: "machine \<Rightarrow> machine \<Rightarrow> bool" where
  "isolated m m' \<longleftrightarrow>
     (\<forall>j \<in> live (kern m). j \<noteq> current (kern m) \<longrightarrow>
        ptable (kern m') j = ptable (kern m) j \<and> (\<forall>va. space (kern m') j va = space (kern m) j va))"

definition ready :: "link \<Rightarrow> machine \<Rightarrow> bool" where
  "ready l m \<longleftrightarrow> minv l m \<and> state (ptable (kern m) (current (kern m))) = P_RUNNABLE"

text \<open>The user stops the machine, a process is resumed, or a value is returned to the process that made the
  call.\<close>

definition handled :: "link \<Rightarrow> machine \<Rightarrow> (u64 \<times> machine) run \<Rightarrow> bool" where
  "handled l m y \<longleftrightarrow>
     stopped y
     \<or> (\<exists>j m'. y = Some (Inl (Resume j, m')) \<and> ready l m' \<and> isolated m m' \<and> current (kern m') = j)
     \<or> (\<exists>v m'. y = Some (Inr (v, m')) \<and> ready l m' \<and> isolated m m' \<and> current (kern m') = current (kern m))"

definition resumed :: "link \<Rightarrow> machine \<Rightarrow> 'a run \<Rightarrow> bool" where
  "resumed l m y \<longleftrightarrow>
     stopped y \<or> (\<exists>j m'. y = Some (Inl (Resume j, m')) \<and> ready l m' \<and> isolated m m' \<and> current (kern m') = j)"

text \<open>No process but the current one could run.\<close>

definition alone :: "machine \<Rightarrow> bool" where
  "alone m \<longleftrightarrow> (\<forall>j < NPROC. j \<noteq> current (kern m) \<longrightarrow> state (ptable (kern m) j) \<noteq> P_RUNNABLE)"

lemma isolated_trans:
  assumes "isolated m m'" "isolated m' m''" "current (kern m') = current (kern m)"
  shows "isolated m m''"
  using assms unfolding isolated_def live_def by fastforce

lemma isolated_unseen: "unseen m m' \<Longrightarrow> isolated m m'"
  by (simp add: unseen_def isolated_def)

lemma isolated_quiet: "quiet m m' \<Longrightarrow> isolated m m'"
  by (rule isolated_unseen [OF quiet_unseen])

lemma ready_live: "ready l m \<Longrightarrow> current (kern m) \<in> live (kern m)"
  using minvD(7) by (auto simp: ready_def live_def)

text \<open>Changes of the current process descriptor that keep it live.\<close>

lemma proc_update:
  assumes inv: "minv l m" and c: "current (kern m) \<in> live (kern m)"
    and p: "pagetable p = pagetable (ptable (kern m) (current (kern m)))" "pid p = pid (ptable (kern m) (current (kern m)))"
      "state p \<noteq> P_FREE"
    and m': "m' = m\<lparr>kern := (kern m)\<lparr>ptable := (ptable (kern m))(current (kern m) := p)\<rparr>\<rparr>"
  shows "minv l m'" "isolated m m'" "live (kern m') = live (kern m)" "proc_roots (kern m') = proc_roots (kern m)"
proof -
  note i = minvD [OF inv]
  have ne: "current (kern m) \<noteq> 0"
  proof
    assume "current (kern m) = 0"
    then show False using c i(5) by (simp add: live_def)
  qed
  show lv: "live (kern m') = live (kern m)" using c p by (auto simp: live_def m')
  have pt: "pagetable (ptable (kern m') j) = pagetable (ptable (kern m) j)" for j using p by (simp add: m')
  show rt: "proc_roots (kern m') = proc_roots (kern m)" unfolding proc_roots_def lv pt ..
  have "sys_inv (l_kernel_end l) (l_pagetable l) (kern m')"
    using i(2) unfolding sys_inv_def lv rt pt by (simp add: m')
  then show "minv l m'" using inv p ne rt by (simp add: minv_def viewer_ok_def m')
  show "isolated m m'" by (simp add: isolated_def m' space_def)
qed

lemma set_regs_ok:
  assumes "ready l m"
  shows "ready l (set_regs r m)" "isolated m (set_regs r m)" "live (kern (set_regs r m)) = live (kern m)"
    "proc_roots (kern (set_regs r m)) = proc_roots (kern m)" "current (kern (set_regs r m)) = current (kern m)"
    "phys (kern (set_regs r m)) = phys (kern m)" "mu_v (set_regs r m) = mu_v m"
    "pagetable (ptable (kern (set_regs r m)) (current (kern m))) = pagetable (ptable (kern m) (current (kern m)))"
proof -
  have inv: "minv l m" using assms by (simp add: ready_def)
  let ?p = "(ptable (kern m) (current (kern m)))\<lparr>regs := r\<rparr>"
  have "state ?p \<noteq> P_FREE" using assms by (simp add: ready_def)
  note u = proc_update [OF inv ready_live [OF assms] _ _ this set_regs_def, simplified]
  show "ready l (set_regs r m)" using u(1) assms by (simp add: ready_def set_regs_def)
  show "isolated m (set_regs r m)" "live (kern (set_regs r m)) = live (kern m)"
    "proc_roots (kern (set_regs r m)) = proc_roots (kern m)" by (rule u)+
  show "current (kern (set_regs r m)) = current (kern m)" "phys (kern (set_regs r m)) = phys (kern m)" "mu_v (set_regs r m) = mu_v m"
    "pagetable (ptable (kern (set_regs r m)) (current (kern m))) = pagetable (ptable (kern m) (current (kern m)))"
    by (simp_all add: set_regs_def)
qed

lemma schedule_resumed:
  assumes inv: "minv l m1" and iso: "isolated m m1" and c: "current (kern m1) = current (kern m)"
    and lv: "live (kern m) \<subseteq> insert (current (kern m)) (live (kern m1))"
  shows "resumed l m (schedule l m1)
    \<or> spins (schedule l m1) \<and> alone m \<and> state (ptable (kern m1) (current (kern m))) \<noteq> P_RUNNABLE"
proof (rule schedule_cases [OF inv])
  assume "stopped (schedule l m1)"
  then show ?thesis by (simp add: resumed_def)
next
  fix j assume "resumes l m1 j (schedule l m1)"
  then obtain m' where m': "schedule l m1 = Some (Inl (Resume j, m'))" "minv l m'" "ptable (kern m') = ptable (kern m1)"
    "current (kern m') = j" "state (ptable (kern m1) j) = P_RUNNABLE"
    "\<forall>i \<in> live (kern m1). \<forall>va. space (kern m') i va = space (kern m1) i va" by (auto simp: resumes_def)
  have "isolated m m'" using iso m'(3,6) lv unfolding isolated_def by auto
  then show ?thesis using m' by (auto simp: resumed_def ready_def)
next
  assume s: "spins (schedule l m1)" and n: "\<And>j. j < NPROC \<Longrightarrow> state (ptable (kern m1) j) \<noteq> P_RUNNABLE"
  have "alone m" using iso n unfolding alone_def isolated_def by (force simp: live_def)
  then show ?thesis using s n minvD(7) [OF inv] c by simp
qed

lemma stopped_bind': "stopped y \<Longrightarrow> stopped (bindIO y f)"
  by (auto simp: stopped_def bindIO_def)

lemma resumed_bind: "resumed l m y \<Longrightarrow> resumed l m (bindIO y f)"
  unfolding resumed_def using stopped_bind' [of y f] by auto

lemma resumed_handled: "resumed l m y \<Longrightarrow> handled l m y"
  by (auto simp: resumed_def handled_def)

lemma stopped_resumed: "stopped y \<Longrightarrow> resumed l m y"
  by (simp add: resumed_def)

section \<open>Entering the kernel\<close>

text \<open>Both entry points save the registers, move the cursor, draw memory and poll the keyboard.\<close>

lemma cursor_quiet: "quiet m (m\<lparr>port := console_show_cursor c (port m)\<rparr>)"
  by (simp add: quiet_def)

definition entered :: "machine \<Rightarrow> regstate \<Rightarrow> machine \<Rightarrow> bool" where
  "entered m0 r m \<longleftrightarrow>
     current (kern m) = current (kern m0) \<and> live (kern m) = live (kern m0) \<and> isolated m0 m
     \<and> ptable (kern m) (current (kern m0)) = (ptable (kern m0) (current (kern m0)))\<lparr>regs := r\<rparr>
     \<and> (shared_room (pagetable (ptable (kern m0) (current (kern m0)))) (phys (kern m0)) \<longrightarrow>
        shared_room (pagetable (ptable (kern m0) (current (kern m0)))) (phys (kern m)))"

lemma entered_start:
  assumes "ready l m0"
  shows "entered m0 r (set_regs r m0)"
  using set_regs_ok [OF assms, of r] by (simp add: entered_def) (simp add: set_regs_def)

lemma entered_unseen:
  assumes e: "entered m0 r m" and u: "unseen m m'" and c: "current (kern m0) \<in> live (kern m0)"
  shows "entered m0 r m'"
proof -
  have lv: "live (kern m') = live (kern m)" by (rule unseen_live [OF u])
  have iso: "isolated m0 m'" using isolated_trans [OF _ isolated_unseen [OF u]] e by (simp add: entered_def)
  have "pagetable (ptable (kern m) (current (kern m0))) \<in> proc_roots (kern m)"
    using e c by (intro live_root) (simp add: entered_def)
  then have "pagetable (ptable (kern m0) (current (kern m0))) \<in> proc_roots (kern m)" using e by (simp add: entered_def)
  then show ?thesis using e u lv iso by (auto simp: entered_def unseen_def)
qed

lemma poll_ok:
  assumes inv: "minv l m" and e: "entered m0 r m" and c: "current (kern m0) \<in> live (kern m0)"
  obtains (go) m' where "bindIO (check_keyboard l m) (\<lambda>(_, m3). f m3) = f m'" "minv l m'" "entered m0 r m'" "mu_v m' = mu_v m"
  | (stop) "stopped (bindIO (check_keyboard l m) (\<lambda>(_, m3). f m3))"
proof (rule check_keyboard_cases [OF minvD(10) [OF inv], of m])
  fix c m1 assume ck: "check_keyboard l m = retIO (c, m1)" "quiet m m1"
  then show thesis using minv_quiet [OF inv ck(2)] entered_unseen [OF e quiet_unseen [OF ck(2)] assms(3)] quietD(2) [OF ck(2)]
    by (intro go [of m1]) simp_all
qed (intro stop, simp)

lemma enter_ok:
  assumes rd: "ready l m0" and m1: "m1 = (set_regs r m0)\<lparr>port := p\<rparr>"
  obtains (go) m' where "bindIO (memshow l m1) (\<lambda>m2. bindIO (check_keyboard l m2) (\<lambda>(_, m3). f m3)) = f m'" "minv l m'"
      "entered m0 r m'" "mu_v m' \<noteq> 0"
  | (stop) "stopped (bindIO (memshow l m1) (\<lambda>m2. bindIO (check_keyboard l m2) (\<lambda>(_, m3). f m3)))"
proof -
  note c = ready_live [OF rd]
  have q: "quiet (set_regs r m0) m1" by (simp add: m1 quiet_def)
  have i1: "minv l m1" using set_regs_ok(1) [OF rd] minv_quiet [OF _ q] by (simp add: ready_def)
  have e1: "entered m0 r m1" by (rule entered_unseen [OF entered_start [OF rd] quiet_unseen [OF q] c])
  from memshow_ok [OF i1] obtain m2 where m2: "memshow l m1 = retIO m2" "minv l m2" "unseen m1 m2" "mu_v m2 \<noteq> 0" by metis
  show thesis
  proof (rule poll_ok [OF m2(2) entered_unseen [OF e1 m2(3) c] c, where f = f])
    fix m' assume "bindIO (check_keyboard l m2) (\<lambda>(_, m3). f m3) = f m'" "minv l m'" "entered m0 r m'" "mu_v m' = mu_v m2"
    then show thesis using m2 by (intro go [of m']) simp_all
  qed (use m2(1) stop in simp)
qed

section \<open>System calls\<close>

lemma return_handled:
  "ready l m' \<Longrightarrow> isolated m0 m' \<Longrightarrow> current (kern m') = current (kern m0) \<Longrightarrow> handled l m0 (retIO (v, m'))"
  by (auto simp: handled_def)

lemma isolated_kern:
  assumes e: "entered m0 r m" and s: "\<And>j. j \<in> live (kern m) \<Longrightarrow> j \<noteq> current (kern m) \<Longrightarrow>
      ptable k j = ptable (kern m) j \<and> (\<forall>va. space k j va = space (kern m) j va)"
  shows "isolated m0 (m\<lparr>kern := k\<rparr>)"
  using e s by (simp add: entered_def isolated_def)

lemma page_alloc_handled:
  assumes rd: "ready l m0" and inv: "minv l m" and e: "entered m0 r m" and mu: "mu_v m \<noteq> 0"
  shows "handled l m0 (with_kern m (syscall_page_alloc (l_kernel_end l) a (kern m)))"
proof -
  note i = minvD [OF inv]
  have c: "current (kern m) \<in> live (kern m)" using ready_live [OF rd] e by (simp add: entered_def)
  from page_alloc_correct [OF i(2) c] obtain v k where
    k: "syscall_page_alloc (l_kernel_end l) a (kern m) = Inr (v, k)" "alloc_outcome (l_kernel_end l) (l_pagetable l) (kern m) k" by blast
  have o: "sys_inv (l_kernel_end l) (l_pagetable l) k" "ptable k = ptable (kern m)" "current k = current (kern m)"
    using k(2) by (simp_all add: alloc_outcome_def)
  have "minv l (m\<lparr>kern := k\<rparr>)" by (rule minv_kern [OF inv mu o(1)]) (use k(2) i o in \<open>simp_all add: alloc_outcome_def\<close>)
  moreover have "isolated m0 (m\<lparr>kern := k\<rparr>)" by (rule isolated_kern [OF e]) (use k(2) o in \<open>simp add: alloc_outcome_def\<close>)
  moreover have "state (ptable k (current k)) = P_RUNNABLE" using e rd o by (simp add: entered_def ready_def)
  ultimately have "handled l m0 (retIO (word_of_int v, m\<lparr>kern := k\<rparr>))"
    using e o by (intro return_handled) (simp_all add: ready_def entered_def)
  then show ?thesis by (simp add: with_kern_def k(1))
qed

lemma fork_handled:
  assumes rd: "ready l m0" and inv: "minv l m" and e: "entered m0 r m" and mu: "mu_v m \<noteq> 0"
    and room: "shared_room (pagetable (ptable (kern m0) (current (kern m0)))) (phys (kern m0))"
  shows "handled l m0 (bindIO (tryIO m (syscall_fork (l_kernel_end l) (kern m))) (\<lambda>x. with_kern m (Inr x)))"
proof -
  note i = minvD [OF inv]
  have c: "current (kern m) \<in> live (kern m)" using ready_live [OF rd] e by (simp add: entered_def)
  have "shared_room (pagetable (ptable (kern m) (current (kern m)))) (phys (kern m))" using e room by (simp add: entered_def)
  from fork_correct [OF i(2) c this] obtain v k where
    k: "syscall_fork (l_kernel_end l) (kern m) = retIO (v, k)" "fork_outcome (l_kernel_end l) (l_pagetable l) (kern m) v k" by blast
  have o: "sys_inv (l_kernel_end l) (l_pagetable l) k" "current k = current (kern m)"
    "\<And>j. j \<in> live (kern m) \<Longrightarrow> ptable k j = ptable (kern m) j \<and> (\<forall>va. space k j va = space (kern m) j va)"
    using k(2) by (simp_all add: fork_outcome_def)
  have "pid (ptable k j) = int j" if "j < NPROC" for j
  proof -
    have "pid (ptable k j) = pid (ptable (kern m) j) \<or> pid (ptable k j) = int j" using k(2) by (simp add: fork_outcome_def)
    then show ?thesis using i(6) [OF that] by auto
  qed
  moreover have "state (ptable k 0) = P_FREE"
  proof -
    have "0 \<notin> live (kern m)" using i(5) by (simp add: live_def)
    then have "0 \<notin> live k" using k(2) unfolding fork_outcome_def by auto
    then show ?thesis by (simp add: live_def)
  qed
  ultimately have "minv l (m\<lparr>kern := k\<rparr>)"
    by (intro minv_kern [OF inv mu o(1)]) (use k(2) i o(2) in \<open>simp_all add: fork_outcome_def\<close>)
  moreover have "isolated m0 (m\<lparr>kern := k\<rparr>)" by (rule isolated_kern [OF e]) (use o(3) in simp)
  moreover have "state (ptable k (current k)) = P_RUNNABLE" using e rd o(2) o(3) [OF c] by (simp add: entered_def ready_def)
  ultimately have "handled l m0 (retIO (word_of_int v, m\<lparr>kern := k\<rparr>))"
    using e o(2) by (intro return_handled) (simp_all add: ready_def entered_def)
  then show ?thesis by (simp add: with_kern_def k(1))
qed

lemma exit_handled:
  assumes rd: "ready l m0" and inv: "minv l m" and e: "entered m0 r m" and mu: "mu_v m \<noteq> 0"
  shows "resumed l m0 (bindIO (tryIO m (syscall_exit (kern m))) (\<lambda>k. bindIO (schedule l (m\<lparr>kern := k\<rparr>)) f))
    \<or> spins (bindIO (tryIO m (syscall_exit (kern m))) (\<lambda>k. bindIO (schedule l (m\<lparr>kern := k\<rparr>)) f)) \<and> alone m0"
proof -
  note i = minvD [OF inv]
  have c: "current (kern m) \<in> live (kern m)" using ready_live [OF rd] e by (simp add: entered_def)
  from exit_run [OF i(2) c] obtain k where k: "syscall_exit (kern m) = retIO k" "sys_inv (l_kernel_end l) (l_pagetable l) k"
    "live k = live (kern m) - {current (kern m)}"
    "ptable k = (ptable (kern m))(current (kern m) := (ptable (kern m) (current (kern m)))\<lparr>state := P_FREE\<rparr>)"
    "current k = current (kern m)" "\<And>i va. i \<in> live k \<Longrightarrow> space k i va = space (kern m) i va"
    "\<And>z. kept (l_kernel_end l) z (proc_roots (kern m)) (phys (kern m)) (proc_roots k) (phys k)" by metis
  have "minv l (m\<lparr>kern := k\<rparr>)" by (rule minv_kern [OF inv mu k(2,7)]) (use k(4,5) i in simp_all)
  moreover have "isolated m0 (m\<lparr>kern := k\<rparr>)" by (rule isolated_kern [OF e]) (use k(3,4,6) in simp)
  ultimately have "resumed l m0 (schedule l (m\<lparr>kern := k\<rparr>)) \<or> spins (schedule l (m\<lparr>kern := k\<rparr>)) \<and> alone m0
      \<and> state (ptable (kern (m\<lparr>kern := k\<rparr>)) (current (kern m0))) \<noteq> P_RUNNABLE"
    by (rule schedule_resumed) (use e k(3,5) in \<open>auto simp: entered_def\<close>)
  then show ?thesis using resumed_bind [of l m0 _ f] spins_bind [of _ f] by (auto simp: k(1))
qed

lemma yield_handled:
  assumes rd: "ready l m0" and inv: "minv l m" and e: "entered m0 r m"
  shows "resumed l m0 (schedule l (set_regs r' m))"
proof -
  have rm: "ready l m" using rd inv e by (simp add: ready_def entered_def)
  note s = set_regs_ok [OF rm, of r']
  have "isolated m0 (set_regs r' m)" using isolated_trans [OF _ s(2)] e by (simp add: entered_def)
  then have "resumed l m0 (schedule l (set_regs r' m)) \<or> spins (schedule l (set_regs r' m)) \<and> alone m0
      \<and> state (ptable (kern (set_regs r' m)) (current (kern m0))) \<noteq> P_RUNNABLE"
    by (intro schedule_resumed) (use s e in \<open>auto simp: entered_def ready_def\<close>)
  moreover have "state (ptable (kern (set_regs r' m)) (current (kern m0))) = P_RUNNABLE" using s(1,5) e by (simp add: ready_def entered_def)
  ultimately show ?thesis by blast
qed

lemma long_fmt_ok: "a \<noteq> 0x8000000000000000 \<Longrightarrow> fmt_ok (lit ''Unexpected system call %ld!'' @ [10]) [Arg_long a]"
proof -
  assume a: "a \<noteq> (0x8000000000000000 :: u64)"
  have "sint a \<noteq> - (2 ^ 63)"
  proof
    assume "sint a = - (2 ^ 63)"
    then have "(word_of_int (sint a) :: u64) = word_of_int (- (2 ^ 63))" by simp
    then show False using a by simp
  qed
  then have "\<exists>cs. directive (108 # 100 # fs0) (Arg_long a # as) = Inr (Emit cs, fs0, as)" for fs0 as
    by (simp add: directive_simps conv_step_total)
  from fmt_ok_directive [OF this, of "[33, 10]" "[]"] show ?thesis by (simp add: lit_def)
qed

lemma syscall_handled:
  assumes rd: "ready l m" and ov: "reg_rax r \<noteq> 0x8000000000000000"
    and room: "reg_rax r = SYSCALL_FORK \<Longrightarrow> shared_room (pagetable (ptable (kern m) (current (kern m)))) (phys (kern m))"
  shows "handled l m (syscall l r m)
    \<or> spins (syscall l r m) \<and> (reg_rax r = SYSCALL_EXIT \<and> alone m \<or> reg_rax r \<notin> {1, 2, 4, 5, 6})"
proof -
  have l: "l_arguments l < 0x100000000" using rd unfolding ready_def by (blast dest: minvD(10))
  define m1 where "m1 = (set_regs r m)\<lparr>port := console_show_cursor (cursorpos (con (set_regs r m))) (port (set_regs r m))\<rparr>"
  define body where "body = (\<lambda>m3 :: machine. let p = ptable (kern m3) (current (kern m3)) in
      if reg_rax r = SYSCALL_PANIC then
        bindIO (panic l None [] m3) (\<lambda>_. retIO (word_of_int (pid p), m3))
      else if reg_rax r = SYSCALL_GETPID then retIO (word_of_int (pid p), m3)
      else if reg_rax r = SYSCALL_YIELD then
        bindIO (schedule l (set_regs ((regs p)\<lparr>reg_rax := 0\<rparr>) m3)) (\<lambda>_. with_kern m3 (Inl Panic))
      else if reg_rax r = SYSCALL_PAGE_ALLOC then
        with_kern m3 (syscall_page_alloc (l_kernel_end l) (reg_rdi (regs p)) (kern m3))
      else if reg_rax r = SYSCALL_FORK then
        bindIO (tryIO m3 (syscall_fork (l_kernel_end l) (kern m3))) (\<lambda>x. with_kern m3 (Inr x))
      else if reg_rax r = SYSCALL_EXIT then
        bindIO (tryIO m3 (syscall_exit (kern m3))) (\<lambda>k.
        bindIO (schedule l (m3\<lparr>kern := k\<rparr>)) (\<lambda>_. with_kern m3 (Inl Panic)))
      else bindIO (panic l (Some (lit ''Unexpected system call %ld!'' @ [10])) [Arg_long (reg_rax r)] m3)
        (\<lambda>_. with_kern m3 (Inl Panic)))"
  have run: "syscall l r m = bindIO (memshow l m1) (\<lambda>m2. bindIO (check_keyboard l m2) (\<lambda>(_, m3). body m3))"
    unfolding syscall_def Let_def m1_def body_def ..
  show ?thesis
  proof (rule enter_ok [OF rd m1_def, where f = body])
    fix m' assume go: "bindIO (memshow l m1) (\<lambda>m2. bindIO (check_keyboard l m2) (\<lambda>(_, m3). body m3)) = body m'"
      and i: "minv l m'" and e: "entered m r m'" and mu: "mu_v m' \<noteq> 0"
    have res: "syscall l r m = body m'" unfolding run by (rule go)
    have ps: "spins (bindIO (panic l f args m') h)" if "\<And>fmt. f = Some fmt \<Longrightarrow> fmt_ok fmt args"
      for f args and h :: "unit \<Rightarrow> (u64 \<times> machine) run"
      by (intro spins_bind panic_spins [OF l that])
    have gp: "handled l m (retIO (v, m'))" for v
      using rd i e by (intro return_handled) (auto simp: ready_def entered_def)
    note ops = page_alloc_handled [OF rd i e mu] fork_handled [OF rd i e mu room] resumed_handled [OF resumed_bind [OF yield_handled [OF rd i e]]] gp
    consider "reg_rax r = SYSCALL_PANIC" | "reg_rax r = SYSCALL_GETPID" | "reg_rax r = SYSCALL_YIELD" | "reg_rax r = SYSCALL_PAGE_ALLOC"
      | "reg_rax r = SYSCALL_FORK" | "reg_rax r = SYSCALL_EXIT" | "reg_rax r \<notin> {3, 1, 2, 4, 5, 6}" by auto
    then show ?thesis
    proof cases
      case 1
      then show ?thesis unfolding res body_def Let_def using ps [of None "[]"] by simp
    next
      case 6
      then show ?thesis unfolding res body_def Let_def using exit_handled [OF rd i e mu] resumed_handled by auto
    next
      case 7
      then show ?thesis unfolding res body_def Let_def
        using ps [of "Some (lit ''Unexpected system call %ld!'' @ [10])" "[Arg_long (reg_rax r)]"] long_fmt_ok [OF ov] by simp
    qed (use ops in \<open>simp_all add: res body_def Let_def\<close>)
  next
    assume "stopped (bindIO (memshow l m1) (\<lambda>m2. bindIO (check_keyboard l m2) (\<lambda>(_, m3). body m3)))"
    then show ?thesis unfolding run by (simp add: handled_def)
  qed
qed

section \<open>Exceptions\<close>

lemma set_state_ok:
  assumes rd: "ready l m0" and inv: "minv l m" and e: "entered m0 r m"
  shows "minv l (set_state P_BROKEN m)" "isolated m0 (set_state P_BROKEN m)" "live (kern (set_state P_BROKEN m)) = live (kern m0)"
    "current (kern (set_state P_BROKEN m)) = current (kern m0)" "state (ptable (kern (set_state P_BROKEN m)) (current (kern m0))) = P_BROKEN"
proof -
  have rm: "ready l m" using rd inv e by (simp add: ready_def entered_def)
  let ?p = "(ptable (kern m) (current (kern m)))\<lparr>state := P_BROKEN\<rparr>"
  have "state ?p \<noteq> P_FREE" by simp
  note u = proc_update [OF inv ready_live [OF rm] _ _ this set_state_def, simplified]
  show "minv l (set_state P_BROKEN m)" by (rule u)
  show "isolated m0 (set_state P_BROKEN m)" using isolated_trans [OF _ u(2)] e by (simp add: entered_def)
  show "live (kern (set_state P_BROKEN m)) = live (kern m0)" using u(3) e by (simp add: entered_def)
  show "current (kern (set_state P_BROKEN m)) = current (kern m0)" "state (ptable (kern (set_state P_BROKEN m)) (current (kern m0))) = P_BROKEN"
    using e by (simp_all add: entered_def set_state_def)
qed

lemma user_fault:
  assumes inv: "minv l m" and u: "reg_errcode (regs (ptable (kern m) (current (kern m)))) AND PFERR_USER \<noteq> 0"
  obtains m' where "page_fault l cr2 m = retIO (set_state P_BROKEN m')" "quiet m m'"
proof -
  let ?p = "ptable (kern m) (current (kern m))"
  have f: "fmt_ok (lit ''Process %d page fault for %p (%s %s, rip=%p)!'' @ [10])
      [Arg_int (word_of_int (pid ?p)), Arg_long cr2, Arg_str a, Arg_str b, Arg_long (reg_rip (regs ?p))]" for a b
    by (simp add: lit_def)
  have "0 \<le> CPOS 24 0" by (simp add: CPOS_def)
  then obtain pos m' where
    "kprint (CPOS 24 0) 0x0C00 (lit ''Process %d page fault for %p (%s %s, rip=%p)!'' @ [10])
      [Arg_int (word_of_int (pid ?p)), Arg_long cr2,
       Arg_str (if reg_errcode (regs ?p) AND PFERR_WRITE \<noteq> 0 then lit ''write'' else lit ''read''),
       Arg_str (if reg_errcode (regs ?p) AND PFERR_PRESENT \<noteq> 0 then lit ''protection problem'' else lit ''missing page''),
       Arg_long (reg_rip (regs ?p))] m = retIO (pos, m')" "quiet m m'" by (rule kprint_ok [OF _ f])
  then show thesis using that u by (simp add: page_fault_def Let_def)
qed

lemma kernel_fault_spins:
  assumes l: "l_arguments l < 0x100000000" and u: "reg_errcode (regs (ptable (kern m) (current (kern m)))) AND PFERR_USER = 0"
  shows "spins (page_fault l cr2 m)"
proof -
  have "fmt_ok (lit ''Kernel page fault for %p (%s %s, rip=%p)!'' @ [10]) [Arg_long cr2, Arg_str a, Arg_str b, Arg_long c]" for a b c
    by (simp add: lit_def)
  then show ?thesis unfolding page_fault_def Let_def using u
    by (simp only: if_True refl) (intro spins_bind panic_spins [OF l], blast)
qed

text \<open>What a process can cause by itself: a timer interrupt while it runs, or a page fault of its own.\<close>

definition user_event :: "regstate \<Rightarrow> bool" where
  "user_event r \<longleftrightarrow> reg_intno r = INT_IRQ + IRQ_TIMER \<or> reg_intno r = INT_PF \<and> reg_errcode r AND PFERR_USER \<noteq> 0"

lemma exception_resumed:
  assumes rd: "ready l m"
  shows "resumed l m (exception l r cr2 m)
    \<or> spins (exception l r cr2 m) \<and> (user_event r \<longrightarrow> reg_intno r = INT_PF \<and> alone m)"
proof -
  have l: "l_arguments l < 0x100000000" using rd unfolding ready_def by (blast dest: minvD(10))
  define m1 where "m1 = (set_regs r m)\<lparr>port := console_show_cursor (cursorpos (con (set_regs r m))) (port (set_regs r m))\<rparr>"
  define fin where "fin = (\<lambda>m5 :: machine. if state (ptable (kern m5) (current (kern m5))) = P_RUNNABLE then run l (current (kern m5)) m5
      else schedule l m5)"
  define body where "body = (\<lambda>m3 :: machine. bindIO (if reg_intno r = INT_IRQ + IRQ_TIMER then
          let m4 = m3\<lparr>ticks := ticks m3 + 1\<rparr> in
          bindIO (tryE m4 (lapic_ack (port m4))) (\<lambda>s. bindIO (schedule l (m4\<lparr>port := s\<rparr>)) (\<lambda>_. retIO m4))
        else if reg_intno r = INT_PF then page_fault l cr2 m3
        else bindIO (panic l (Some (lit ''Unexpected exception %d!'' @ [10])) [Arg_int (reg_intno r)] m3) (\<lambda>_. retIO m3)) fin)"
  have handle: "resumed l m (body m') \<or> spins (body m') \<and> (user_event r \<longrightarrow> reg_intno r = INT_PF \<and> alone m)" if i: "minv l m'" and e: "entered m r m'" for m'
  proof -
    have cur: "ptable (kern m') (current (kern m')) = (ptable (kern m) (current (kern m)))\<lparr>regs := r\<rparr>" using e by (simp add: entered_def)
    consider (timer) "reg_intno r = INT_IRQ + IRQ_TIMER" | (pf) "reg_intno r \<noteq> INT_IRQ + IRQ_TIMER" "reg_intno r = INT_PF"
      | (other) "reg_intno r \<noteq> INT_IRQ + IRQ_TIMER" "reg_intno r \<noteq> INT_PF" by blast
    then show ?thesis
    proof cases
      case timer
      obtain s where s: "lapic_ack (port m') = Inr s" using lapic_write_total [of "0x0B" 0 "port m'"] by (auto simp: lapic_ack_def)
      let ?m = "m'\<lparr>ticks := ticks m' + 1, port := s\<rparr>"
      have "minv l ?m" "isolated m ?m" using i e by (simp_all add: minv_def viewer_ok_def entered_def isolated_def)
      then have "resumed l m (schedule l ?m) \<or> spins (schedule l ?m) \<and> alone m \<and> state (ptable (kern ?m) (current (kern m))) \<noteq> P_RUNNABLE"
        by (rule schedule_resumed) (use e in \<open>auto simp: entered_def\<close>)
      then have "resumed l m (schedule l ?m)" using cur rd e by (simp add: ready_def entered_def)
      then show ?thesis unfolding body_def using timer s by (auto simp: Let_def intro!: resumed_bind)
    next
      case pf
      show ?thesis
      proof (cases "reg_errcode r AND PFERR_USER = 0")
        case True
        then have "spins (page_fault l cr2 m')" using kernel_fault_spins [OF l] cur by simp
        then show ?thesis unfolding body_def using pf True by (auto simp: user_event_def intro!: spins_bind)
      next
        case False
        then have "reg_errcode (regs (ptable (kern m') (current (kern m')))) AND PFERR_USER \<noteq> 0" using cur by simp
        from user_fault [OF i this] obtain m4 where m4: "page_fault l cr2 m' = retIO (set_state P_BROKEN m4)" "quiet m' m4" .
        have e4: "entered m r m4" by (rule entered_unseen [OF e quiet_unseen [OF m4(2)] ready_live [OF rd]])
        note s = set_state_ok [OF rd minv_quiet [OF i m4(2)] e4]
        have "resumed l m (schedule l (set_state P_BROKEN m4)) \<or> spins (schedule l (set_state P_BROKEN m4)) \<and> alone m
            \<and> state (ptable (kern (set_state P_BROKEN m4)) (current (kern m))) \<noteq> P_RUNNABLE"
          using s by (intro schedule_resumed) auto
        then show ?thesis unfolding body_def fin_def using pf m4(1) s(4,5) by auto
      qed
    next
      case other
      have "fmt_ok (lit ''Unexpected exception %d!'' @ [10]) [Arg_int (reg_intno r)]" by (simp add: lit_def)
      then have "spins (panic l (Some (lit ''Unexpected exception %d!'' @ [10])) [Arg_int (reg_intno r)] m')"
        by (intro panic_spins [OF l]) simp
      then show ?thesis unfolding body_def using other by (auto simp: user_event_def intro!: spins_bind)
    qed
  qed
  show ?thesis
  proof (cases "reg_intno r \<noteq> INT_PF \<or> reg_errcode r AND PFERR_USER \<noteq> 0")
    case True
    have run: "exception l r cr2 m = bindIO (memshow l m1) (\<lambda>m2. bindIO (check_keyboard l m2) (\<lambda>(_, m3). body m3))"
      using True unfolding exception_def Let_def m1_def body_def fin_def by simp
    show ?thesis unfolding run
      by (rule enter_ok [OF rd m1_def, where f = body]) (use handle stopped_resumed in auto)
  next
    case False
    have run: "exception l r cr2 m = bindIO (check_keyboard l m1) (\<lambda>(_, m3). body m3)"
      using False unfolding exception_def Let_def m1_def body_def fin_def by simp
    have q: "quiet (set_regs r m) m1" by (simp add: m1_def quiet_def)
    have i1: "minv l m1" using set_regs_ok(1) [OF rd] minv_quiet [OF _ q] by (simp add: ready_def)
    have e1: "entered m r m1" by (rule entered_unseen [OF entered_start [OF rd] quiet_unseen [OF q] ready_live [OF rd]])
    show ?thesis unfolding run
      by (rule poll_ok [OF i1 e1 ready_live [OF rd], where f = body]) (use handle stopped_resumed in auto)
  qed
qed

end
