(* ===== verification/Low_Tables.thy ===== *)
theory Low_Tables
  imports Pfree
begin

text \<open>
  The lowest two megabytes of an address space, which one last-level page table covers: the indices of
  its addresses, and the entries that map it one to one.
\<close>

lemma link_flags: "page_aligned t \<Longrightarrow> t < 0x100000000 \<Longrightarrow>
  link_entry t AND PTE_P \<noteq> 0 \<and> link_entry t AND PTE_PS = 0 \<and> link_entry t AND 0xFFF = 7"
proof -
  assume t: "page_aligned t" "t < 0x100000000"
  have "t AND PTE_PS = 0" "t AND PTE_P = 0" "t AND 0xFFF = 0" using page_aligned_and [OF t(1)] by simp_all
  then show ?thesis by (simp add: bit.conj_disj_distrib2)
qed

lemma ident_entry:
  assumes "i < 512" "f = 3 \<or> f = 5 \<or> f = 7"
  shows "(push_bit 12 (of_nat i :: u64) OR f) AND PTE_PAMASK = push_bit 12 (of_nat i)"
    and "(push_bit 12 (of_nat i :: u64) OR f) AND 7 = f"
    and "unat (push_bit 12 (of_nat i :: u64)) = i * 4096"
proof -
  show u: "unat (push_bit 12 (of_nat i :: u64)) = i * 4096"
    using assms(1) by (simp add: push_bit_eq_mult unat_word_ariths unat_of_nat_small)
  have al: "page_aligned (push_bit 12 (of_nat i :: u64))" unfolding page_aligned_iff u by simp
  have sm: "push_bit 12 (of_nat i :: u64) < 0x100000000" using assms(1) by (simp add: word_less_nat_alt u)
  have f: "f AND PTE_PAMASK = 0" "f AND 7 = f" "(push_bit 12 (of_nat i :: u64)) AND 7 = 0"
    using assms(2) page_aligned_and [OF al, of 7] by auto
  show "(push_bit 12 (of_nat i :: u64) OR f) AND PTE_PAMASK = push_bit 12 (of_nat i)"
    by (simp add: bit.conj_disj_distrib2 aligned_small_pamask [OF al sm] f)
  show "(push_bit 12 (of_nat i :: u64) OR f) AND 7 = f"
    by (simp add: bit.conj_disj_distrib2 f)
qed

lemma small_va_indices:
  "unat va < 0x200000 \<longleftrightarrow> va_is_canonical va \<and> pageindex va 3 = 0 \<and> pageindex va 2 = 0 \<and> pageindex va 1 = 0"
proof
  assume lt: "unat va < 0x200000"
  then have "va_is_canonical va" by (intro small_canonical) simp
  then show "va_is_canonical va \<and> pageindex va 3 = 0 \<and> pageindex va 2 = 0 \<and> pageindex va 1 = 0"
    using lt by (simp add: pageindex_div)
next
  assume a: "va_is_canonical va \<and> pageindex va 3 = 0 \<and> pageindex va 2 = 0 \<and> pageindex va 1 = 0"
  define p where "p = pageindex va 0"
  define v where "v = (of_nat (p * 4096) :: u64)"
  have p: "p < 512" by (simp add: p_def)
  then have u: "unat v = p * 4096" unfolding v_def by (intro unat_of_nat_small) simp
  have c: "va_is_canonical v" using u p by (intro small_canonical) simp
  have "pageindex v k = pageindex va k" if "k \<le> 3" for k
  proof -
    consider "k = 0" | "k = 1" | "k = 2" | "k = 3" using \<open>k \<le> 3\<close> by linarith
    then show ?thesis using a p by cases (simp_all add: pageindex_div [of v] u flip: p_def)
  qed
  then have "same_above 0 va v" using same_page_indices [of va v] a c by simp
  then have "unat va div 4096 = p" using u by (simp add: same_above_div)
  then show "unat va < 0x200000" using p by (simp add: div_less_iff_less_mult)
qed

text \<open>The translation of an address by the entry \<open>e\<close> of the lowest table.\<close>

definition leaf_result :: "u64 \<Rightarrow> u64 \<Rightarrow> (u64 \<times> u64) option" where
  "leaf_result e va = (if e AND PTE_P \<noteq> 0 then Some ((e AND PTE_PAMASK) + (va AND PAGEOFFMASK), e AND 7) else None)"

definition ident_flags :: "u64 \<Rightarrow> nat \<Rightarrow> u64" where
  "ident_flags f i = push_bit 12 (of_nat i) OR f"

lemma ident_leaf:
  assumes "i < 512" "f = 3 \<or> f = 5 \<or> f = 7" "i = unat va div 4096"
  shows "leaf_result (ident_flags f i) va = Some (va, f)"
proof -
  note ie = ident_entry [OF assms(1,2)]
  have "((push_bit 12 (of_nat i) OR f) AND 7) AND PTE_P = f AND PTE_P" by (simp only: ie(2))
  then have "(push_bit 12 (of_nat i) OR f) AND PTE_P \<noteq> 0" using assms(2) by (auto simp: and.assoc)
  moreover have "push_bit 12 (of_nat i :: u64) = page_base va"
    using ie(3) assms(3) by (simp add: word_unat_eq_iff unat_page_base)
  ultimately show ?thesis
    using ie(1,2) page_base_plus [of va] by (simp add: leaf_result_def ident_flags_def)
qed

lemma ident_flags_small: "i < 512 \<Longrightarrow> f = 3 \<or> f = 5 \<or> f = 7 \<Longrightarrow> ident_flags f i AND PTE_PAMASK < 0x100000000"
  using ident_entry [of i f] by (simp add: ident_flags_def word_less_nat_alt)

end
