(* ===== verification/Sample_State.thy ===== *)
theory Sample_State
  imports Fork_Spec Low_Tables
begin

text \<open>
  A concrete kernel state that satisfies the system invariant: one process with kernel memory mapped
  one to one, the console, one writable and one read-only user page. The properties of the system
  calls are applied to it.
\<close>

section \<open>Memory given by page-table entries\<close>

definition mem_of :: "(u64 \<Rightarrow> nat \<Rightarrow> u64) \<Rightarrow> mem" where
  "mem_of E a = ucast (drop_bit (8 * (unat a mod 8)) (E (page_base a) (unat a mod 4096 div 8)))"

lemma mem_of_byte:
  assumes "page_aligned t" "i < 512" "k < 8"
  shows "mem_of E (entry_addr t i + of_nat k) = ucast (drop_bit (8 * k) (E t i))"
proof -
  have "unat (entry_addr t i) + k < 2 ^ 64"
    using assms page_aligned_room [of t] by (simp add: unat_entry_addr)
  then have u: "unat (entry_addr t i + of_nat k) = unat t + 8 * i + k"
    using assms by (subst unat_add_small) (simp_all add: unat_of_nat_small unat_entry_addr)
  obtain j where j: "unat t = 4096 * j" using assms(1) by (auto simp: page_aligned_iff)
  have "4096 * j + 8 * i + k = k + (512 * j + i) * 8" "4096 * j + 8 * i + k = (8 * i + k) + j * 4096" by simp_all
  moreover have "(k + (512 * j + i) * 8) mod 8 = k" "((8 * i + k) + j * 4096) mod 4096 div 8 = i"
    using assms(2,3) by (simp_all only: mod_mult_self1) simp_all
  ultimately have "unat (entry_addr t i + of_nat k) mod 8 = k" "unat (entry_addr t i + of_nat k) mod 4096 div 8 = i"
    unfolding u j by metis+
  then show ?thesis
    unfolding mem_of_def using entry_byte_in_page [OF assms] by simp
qed

lemma ld64_mem_of: "page_aligned t \<Longrightarrow> i < 512 \<Longrightarrow> ld64 (mem_of E) (entry_addr t i) = E t i"
proof -
  assume t: "page_aligned t" "i < 512"
  note b = mem_of_byte [OF t, of _ E]
  show ?thesis
    unfolding ld64_def
    using b [of 0] b [of 1] b [of 2] b [of 3] b [of 4] b [of 5] b [of 6] b [of 7] word_of_bytes [of "E t i"]
    by simp
qed

section \<open>Page tables for the first two megabytes\<close>

text \<open>A chain of one page table per level; only the lowest has more than one entry.\<close>

definition chain :: "(u64 \<Rightarrow> nat \<Rightarrow> u64) \<Rightarrow> u64 \<Rightarrow> u64 \<Rightarrow> u64 \<Rightarrow> u64 \<Rightarrow> bool" where
  "chain E t3 t2 t1 t0 \<longleftrightarrow>
     (\<forall>t \<in> {t3, t2, t1, t0}. page_aligned t \<and> t < 0x100000000) \<and> distinct [t3, t2, t1, t0]
     \<and> (\<forall>i < 512. E t3 i = (if i = 0 then link_entry t2 else 0) \<and> E t2 i = (if i = 0 then link_entry t1 else 0)
          \<and> E t1 i = (if i = 0 then link_entry t0 else 0))"

lemma chainD:
  assumes "chain E t3 t2 t1 t0"
  shows "page_aligned t3" "page_aligned t2" "page_aligned t1" "page_aligned t0"
    "link_entry t2 AND PTE_PAMASK = t2" "link_entry t1 AND PTE_PAMASK = t1" "link_entry t0 AND PTE_PAMASK = t0"
    "\<And>i. i < 512 \<Longrightarrow> ld64 (mem_of E) (entry_addr t3 i) = (if i = 0 then link_entry t2 else 0)"
    "\<And>i. i < 512 \<Longrightarrow> ld64 (mem_of E) (entry_addr t2 i) = (if i = 0 then link_entry t1 else 0)"
    "\<And>i. i < 512 \<Longrightarrow> ld64 (mem_of E) (entry_addr t1 i) = (if i = 0 then link_entry t0 else 0)"
    "\<And>i. i < 512 \<Longrightarrow> ld64 (mem_of E) (entry_addr t0 i) = E t0 i"
    "table_entry (link_entry t2)" "table_entry (link_entry t1)" "table_entry (link_entry t0)"
  using assms link_entry_facts [of t2] link_entry_facts [of t1] link_entry_facts [of t0]
  by (simp_all add: chain_def ld64_mem_of)

lemma chain_translate:
  assumes c: "chain E t3 t2 t1 t0"
  shows "translate (mem_of E) t3 va = (if unat va < 0x200000 then leaf_result (E t0 (unat va div 4096)) va else None)"
proof -
  note d = chainD [OF c]
  have fl: "link_entry t AND PTE_P \<noteq> 0 \<and> link_entry t AND PTE_PS = 0 \<and> link_entry t AND 0xFFF = 7" if "t \<in> {t2, t1, t0}" for t
    using c that by (intro link_flags) (auto simp: chain_def)
  have perm: "0xFFF AND (link_entry t2 AND link_entry t1 AND link_entry t0) AND e = e AND 7" for e
  proof -
    have "0xFFF AND (link_entry t2 AND link_entry t1 AND link_entry t0) AND e
        = (link_entry t2 AND 0xFFF) AND (link_entry t1 AND 0xFFF) AND (link_entry t0 AND 0xFFF) AND e"
      by (rule bit_word_eqI) (auto simp: bit_simps)
    also have "\<dots> = 7 AND (7 AND (7 AND e))" using fl [of t2] fl [of t1] fl [of t0] by (simp only: insert_iff simp_thms and.assoc)
    also have "\<dots> = e AND 7" by (metis and.left_idem and.commute)
    finally show ?thesis .
  qed
  have off: "pageoffset va 0 = va AND PAGEOFFMASK" by (simp add: pageoffset_def pageoffmask_def push_bit_eq_mult)
  show ?thesis
  proof (cases "unat va < 0x200000")
    case True
    have "pageindex va 0 = unat va div 4096" "unat va div 4096 < 512"
      using True by (simp_all add: pageindex_div div_less_iff_less_mult)
    moreover have "va_is_canonical va" "pageindex va 3 = 0" "pageindex va 2 = 0" "pageindex va 1 = 0"
      using True small_va_indices by blast+
    ultimately have ix: "va_is_canonical va" "pageindex va 3 = 0" "pageindex va 2 = 0" "pageindex va 1 = 0"
      "pageindex va 0 = unat va div 4096" "unat va div 4096 < 512" by blast+
    have "translate (mem_of E) t3 va = (let e = E t0 (unat va div 4096) in
        if e AND PTE_P \<noteq> 0 then Some (page_result 0 e va (link_entry t2 AND link_entry t1 AND link_entry t0)) else None)"
      unfolding translate_def Let_def ix(2-5) using ix(1,6) fl by (simp only: d if_True if_False refl) (simp add: d)
    then show ?thesis using True perm by (simp add: leaf_result_def page_result_def off Let_def)
  next
    case False
    then have n: "\<not> (va_is_canonical va \<and> pageindex va 3 = 0 \<and> pageindex va 2 = 0 \<and> pageindex va 1 = 0)"
      using small_va_indices by blast
    have ld: "ld64 (mem_of E) (entry_addr t3 (pageindex va 3)) = (if pageindex va 3 = 0 then link_entry t2 else 0)"
      "ld64 (mem_of E) (entry_addr t2 (pageindex va 2)) = (if pageindex va 2 = 0 then link_entry t1 else 0)"
      "ld64 (mem_of E) (entry_addr t1 (pageindex va 1)) = (if pageindex va 1 = 0 then link_entry t0 else 0)"
      by (rule d(8) d(9) d(10); simp)+
    have e: "ld64 (mem_of E) (entry_addr t3 0) = link_entry t2" "ld64 (mem_of E) (entry_addr t2 0) = link_entry t1"
      using d(8) [of 0] d(9) [of 0] by simp_all
    have z: "(0 :: u64) AND PTE_P = 0" by simp
    from n consider "\<not> va_is_canonical va" | "pageindex va 3 \<noteq> 0" | "pageindex va 3 = 0" "pageindex va 2 \<noteq> 0"
      | "pageindex va 3 = 0" "pageindex va 2 = 0" "pageindex va 1 \<noteq> 0" by metis
    then have "translate (mem_of E) t3 va = None"
      unfolding translate_def Let_def using fl [of t2] fl [of t1]
      by cases (simp_all only: e ld d(5,6) z insert_iff simp_thms if_True if_False if_cancel)
    then show ?thesis using False by simp
  qed
qed

lemma chain_node:
  assumes c: "chain E t3 t2 t1 t0"
  shows "valid_path p \<Longrightarrow> pt_node (mem_of E) t3 p = Some t \<Longrightarrow>
   p = [] \<and> t = t3 \<or> p = [0] \<and> t = t2 \<or> p = [0, 0] \<and> t = t1 \<or> p = [0, 0, 0] \<and> t = t0"
proof (induction p arbitrary: t)
  case (Cons i p)
  then obtain u where u: "pt_node (mem_of E) t3 p = Some u"
      "table_entry (ld64 (mem_of E) (entry_addr u i))" "t = ld64 (mem_of E) (entry_addr u i) AND PTE_PAMASK"
    by (auto simp: Let_def split: option.splits if_splits)
  have i: "i < 512" "length p \<le> 2" "valid_path p" using Cons.prems by auto
  have "p = [] \<and> u = t3 \<or> p = [0] \<and> u = t2 \<or> p = [0, 0] \<and> u = t1"
    using Cons.IH [OF i(3) u(1)] i(2) by auto
  moreover have "\<not> table_entry 0" by (simp add: table_entry_def)
  ultimately show ?case using u(2,3) i(1) chainD [OF c] by (auto split: if_splits)
qed simp

lemma chain_tables:
  assumes c: "chain E t3 t2 t1 t0"
  shows "tables (mem_of E) {t3} = {t3, t2, t1, t0}"
proof (intro equalityI subsetI)
  fix t assume "t \<in> tables (mem_of E) {t3}"
  then show "t \<in> {t3, t2, t1, t0}" using chain_node [OF c] by (fastforce simp: tables_def)
next
  note d = chainD [OF c]
  have n: "pt_node (mem_of E) t3 [0] = Some t2" "pt_node (mem_of E) t3 [0, 0] = Some t1" "pt_node (mem_of E) t3 [0, 0, 0] = Some t0"
    using d by simp_all
  have v: "valid_path [0]" "valid_path [0, 0]" "valid_path [0, 0, 0]" by (simp_all add: valid_path_def)
  fix t assume "t \<in> {t3, t2, t1, t0}"
  then show "t \<in> tables (mem_of E) {t3}"
    using tablesI [OF _ v(1) n(1), of "{t3}"] tablesI [OF _ v(2) n(2), of "{t3}"]
      tablesI [OF _ v(3) n(3), of "{t3}"] root_in_tables [of t3 "{t3}"] by auto
qed

lemma chain_ptree:
  assumes c: "chain E t3 t2 t1 t0" and leaf: "\<And>i. i < 512 \<Longrightarrow> E t0 i AND PTE_PAMASK < 0x100000000"
  shows "ptree_ok (mem_of E) t3"
  unfolding ptree_ok_def
proof (intro allI impI)
  fix p t i assume p: "valid_path p" "pt_node (mem_of E) t3 p = Some t" "i < (512 :: nat)"
  note d = chainD [OF c]
  have ol: "entry_ok k (link_entry u)" if "u \<in> {t2, t1, t0}" for k u
    by (rule entry_ok_link) (use c that in \<open>auto simp: chain_def\<close>)
  have inner: "entry_ok k (link_entry t2)" "entry_ok k (link_entry t1)" "entry_ok k (link_entry t0)" for k
    by (rule ol; simp)+
  have "entry_ok 3 (E t0 i)" using leaf [OF p(3)] by (simp add: entry_ok_def)
  then show "entry_ok (length p) (ld64 (mem_of E) (entry_addr t i))"
    using chain_node [OF c p(1,2)] p(3) inner entry_ok_0 d by (auto simp: numeral_3_eq_3)
qed

text \<open>The chains here use consecutive pages.\<close>

definition run_of :: "u64 \<Rightarrow> u64 set" where
  "run_of r = {r, r + 0x1000, r + 0x2000, r + 0x3000}"

abbreviation run_chain :: "(u64 \<Rightarrow> nat \<Rightarrow> u64) \<Rightarrow> u64 \<Rightarrow> bool" where
  "run_chain E r \<equiv> chain E r (r + 0x1000) (r + 0x2000) (r + 0x3000)"

lemma run_chain_tables: "run_chain E r \<Longrightarrow> tables (mem_of E) {r} = run_of r"
  by (simp add: chain_tables run_of_def)

lemma chain_forest:
  assumes c: "\<And>r. r \<in> R \<Longrightarrow> run_chain E r" and dj: "\<And>r r'. r \<in> R \<Longrightarrow> r' \<in> R \<Longrightarrow> r \<noteq> r' \<Longrightarrow> run_of r \<inter> run_of r' = {}"
  shows "forest (mem_of E) R"
  unfolding forest_def
proof (intro conjI ballI allI impI)
  show "page_aligned r" if "r \<in> R" for r by (rule chainD(1) [OF c [OF that]])
  fix r r' p p' t
  assume r: "r \<in> R" "r' \<in> R" and p: "valid_path p" "valid_path p'"
    and t: "pt_node (mem_of E) r p = Some t" "pt_node (mem_of E) r' p' = Some t"
  have mem: "t \<in> run_of x" if "x \<in> R" "valid_path q" "pt_node (mem_of E) x q = Some t" for x q
    using chain_node [OF c [OF that(1)] that(2,3)] by (auto simp: run_of_def)
  show eq: "r = r'" using mem [OF r(1) p(1) t(1)] mem [OF r(2) p(2) t(2)] dj r by blast
  have "distinct [r, r + 0x1000, r + 0x2000, r + 0x3000]" using c [OF r(1)] by (simp add: chain_def)
  then show "p = p'"
    using t eq chain_node [OF c [OF r(1)] p(1), of t] chain_node [OF c [OF r(1)] p(2), of t] by auto
qed

section \<open>The sample state\<close>

text \<open>
  Two processes have their page tables at \<open>0x1000\<close> and \<open>0x8000\<close>, the kernel at \<open>0x40000\<close>. All map memory
  one to one; each process has a writable page of its own at \<open>0x100000\<close>, and both share a read-only page
  at \<open>0x101000\<close>.
\<close>

definition own_page :: "u64 \<Rightarrow> u64" where
  "own_page r = (if r = 0x1000 then 0x5000 else 0xC000)"

definition sample_entry :: "u64 \<Rightarrow> nat \<Rightarrow> u64" where
  "sample_entry t i =
     (if t \<in> {0x1000, 0x2000, 0x3000, 0x8000, 0x9000, 0xA000, 0x40000, 0x41000, 0x42000}
      then (if i = 0 then link_entry (t + 0x1000) else 0)
      else if t = 0x4000 \<or> t = 0xB000 then
        (if i < 256 then ident_flags (if i = 0xB8 then 7 else 3) i
         else if i = 256 then own_page (t - 0x3000) + 7 else if i = 257 then 0x6005 else 0)
      else if t = 0x43000 then ident_flags (if i = 0xB8 \<or> 256 \<le> i then 7 else 3) i
      else 0)"

definition sample_bytes :: mem where
  "sample_bytes = mem_of sample_entry"

definition sample_pages :: "nat \<Rightarrow> pageinfo" where
  "sample_pages i = \<lparr>refcount = (if i = 6 then 2 else if 1 \<le> i \<and> i \<le> 5 \<or> 8 \<le> i \<and> i \<le> 12 then 1 else 0)\<rparr>"

definition sample_system :: kernel where
  "sample_system = sample_kernel\<lparr>phys := \<lparr>bytes = sample_bytes, pages = sample_pages\<rparr>,
     ptable := (ptable sample_kernel)(2 := (ptable sample_kernel 1)\<lparr>pagetable := 0x8000, pid := 2\<rparr>)\<rparr>"

lemma sample_chains: "r \<in> {0x1000, 0x8000, 0x40000} \<Longrightarrow> run_chain sample_entry r"
proof -
  have "run_chain sample_entry 0x1000" "run_chain sample_entry 0x8000" "run_chain sample_entry 0x40000"
    by (simp_all add: chain_def sample_entry_def page_aligned_def)
  then show "r \<in> {0x1000, 0x8000, 0x40000} \<Longrightarrow> run_chain sample_entry r" by blast
qed

lemma sample_tables_aligned [simp]:
  "page_aligned 0x1000" "page_aligned 0x2000" "page_aligned 0x3000" "page_aligned 0x4000" "page_aligned 0x40000" "page_aligned 0x8000"
  by (simp_all add: page_aligned_def)

definition sample_leaf :: "u64 \<Rightarrow> u64 \<Rightarrow> nat \<Rightarrow> (u64 \<times> u64) option" where
  "sample_leaf r va i =
     (if i < 256 then Some (va, if i = 0xB8 then 7 else 3)
      else if i = 256 then Some (own_page r + (va AND PAGEOFFMASK), 7)
      else if i = 257 then Some (0x6000 + (va AND PAGEOFFMASK), 5) else None)"

lemma sample_translate:
  assumes "r \<in> {0x1000, 0x8000}"
  shows "translate sample_bytes r va = (if unat va < 0x200000 then sample_leaf r va (unat va div 4096) else None)"
proof -
  let ?i = "unat va div 4096"
  have "leaf_result (sample_entry (r + 0x3000) ?i) va = sample_leaf r va ?i"
  proof (cases "?i < 256")
    case True
    then have "leaf_result (ident_flags (if ?i = 0xB8 then 7 else 3) ?i) va = Some (va, if ?i = 0xB8 then 7 else 3)"
      by (intro ident_leaf) auto
    then show ?thesis using True assms by (auto simp: sample_entry_def sample_leaf_def)
  next
    case False
    then show ?thesis using assms by (auto simp: sample_entry_def sample_leaf_def leaf_result_def own_page_def)
  qed
  moreover have "run_chain sample_entry r" using sample_chains assms by auto
  ultimately show ?thesis unfolding sample_bytes_def by (simp add: chain_translate)
qed

lemma kchain: "chain sample_entry 0x40000 0x41000 0x42000 0x43000"
  using sample_chains [of "0x40000"] by simp

lemma sample_kpt_translate:
  "translate sample_bytes 0x40000 va =
     (if unat va < 0x200000 then Some (va, if unat va div 4096 = 0xB8 \<or> 256 \<le> unat va div 4096 then 7 else 3) else None)"
proof (cases "unat va < 0x200000")
  case True
  let ?i = "unat va div 4096"
  have "?i < 512" using True by (simp add: div_less_iff_less_mult)
  then have "leaf_result (ident_flags (if ?i = 0xB8 \<or> 256 \<le> ?i then 7 else 3) ?i) va = Some (va, if ?i = 0xB8 \<or> 256 \<le> ?i then 7 else 3)"
    by (intro ident_leaf) auto
  then show ?thesis unfolding sample_bytes_def chain_translate [OF kchain] using True by (simp add: sample_entry_def)
qed (simp add: sample_bytes_def chain_translate [OF kchain])

section \<open>The invariant holds\<close>

lemma sample_user_map:
  assumes "r \<in> {0x1000, 0x8000}"
  shows "user_map sample_bytes r va q w \<longleftrightarrow>
     unat va div 4096 = 0xB8 \<and> q = CONSOLE_ADDR \<or> unat va div 4096 = 256 \<and> q = own_page r
     \<or> unat va div 4096 = 257 \<and> q = 0x6000 \<and> \<not> w"
proof -
  have pb: "page_base (x + (va AND PAGEOFFMASK)) = x" if "page_aligned x" for x by (rule page_base_offset [OF that])
  have al: "page_aligned (own_page r)" "page_aligned 0x6000" by (simp_all add: page_aligned_def own_page_def)
  have c: "page_base va = CONSOLE_ADDR" if "unat va div 4096 = 0xB8"
    using that by (simp add: word_unat_eq_iff unat_page_base)
  have nu: "\<not> is_user 3" "is_user 5" "is_user 7" "\<not> is_user_writable 5" "is_user_writable 7"
    by (simp_all add: is_user_def is_user_writable_def)
  show ?thesis
    using pb [OF al(1)] pb [OF al(2)] c nu
    by (auto simp: user_map_def sample_translate [OF assms] sample_leaf_def div_less_iff_less_mult split: if_splits)
qed

lemma sample_tables: "R \<subseteq> {0x1000, 0x8000, 0x40000} \<Longrightarrow> tables sample_bytes R = (\<Union>r \<in> R. run_of r)"
proof -
  assume R: "R \<subseteq> {0x1000, 0x8000, 0x40000}"
  have "tables sample_bytes {r} = run_of r" if "r \<in> R" for r
    unfolding sample_bytes_def using R that by (intro run_chain_tables sample_chains) blast
  then show ?thesis using tables_Union [of sample_bytes R] by simp
qed

lemma sample_forest: "forest sample_bytes {0x40000, 0x1000, 0x8000}"
  unfolding sample_bytes_def by (rule chain_forest [OF sample_chains]) (auto simp: run_of_def)

lemma sample_ptree: "r \<in> {0x1000, 0x8000, 0x40000} \<Longrightarrow> ptree_ok sample_bytes r"
  unfolding sample_bytes_def
  by (rule chain_ptree [OF sample_chains]) (auto simp: sample_entry_def own_page_def intro!: ident_flags_small)

lemma sample_roots: "live sample_system = {1, 2}" "proc_roots sample_system = {0x1000, 0x8000}"
proof -
  have "state (ptable sample_system i) \<noteq> P_FREE \<longleftrightarrow> i = 1 \<or> i = 2" for i
    by (simp add: sample_system_def) (simp add: sample_kernel_def)
  then show l: "live sample_system = {1, 2}" unfolding live_def by auto
  show "proc_roots sample_system = {0x1000, 0x8000}"
    unfolding proc_roots_def l by (simp add: sample_system_def) (simp add: sample_kernel_def)
qed

lemma sample_frames:
  assumes "x \<in> run_of 0x1000 \<union> run_of 0x8000 \<union> {0x5000, 0x6000, 0xC000}"
  shows "allocatable_physical_address 0x50000 x" "used (sample_pages (page_number x))" "x \<noteq> CONSOLE_ADDR" "x \<notin> run_of 0x40000"
proof -
  have 1: "allocatable_physical_address 0x50000 0x1000" "allocatable_physical_address 0x50000 0x2000"
    "allocatable_physical_address 0x50000 0x3000" "allocatable_physical_address 0x50000 0x4000"
    "allocatable_physical_address 0x50000 0x5000" "allocatable_physical_address 0x50000 0x6000"
    "allocatable_physical_address 0x50000 0x8000" "allocatable_physical_address 0x50000 0x9000"
    "allocatable_physical_address 0x50000 0xA000" "allocatable_physical_address 0x50000 0xB000"
    "allocatable_physical_address 0x50000 0xC000"
    by code_simp+
  show "allocatable_physical_address 0x50000 x" using assms 1 by (auto simp: run_of_def)
  show "used (sample_pages (page_number x))" "x \<noteq> CONSOLE_ADDR" "x \<notin> run_of 0x40000"
    using assms by (auto simp: run_of_def used_def sample_pages_def)
qed

lemma sample_fixed:
  assumes "x \<in> insert CONSOLE_ADDR (run_of 0x40000)"
  shows "\<not> allocatable_physical_address 0x50000 x"
proof -
  have "\<not> allocatable_physical_address 0x50000 0x40000" "\<not> allocatable_physical_address 0x50000 0x41000"
    "\<not> allocatable_physical_address 0x50000 0x42000" "\<not> allocatable_physical_address 0x50000 0x43000"
    "\<not> allocatable_physical_address 0x50000 CONSOLE_ADDR"
    by code_simp+
  then show ?thesis using assms by (auto simp: run_of_def)
qed

text \<open>Every process of the sample satisfies what the invariant asks of one page table.\<close>

lemma sample_maps:
  assumes r: "r \<in> {0x1000, 0x8000}"
  shows "maps_ok 0x50000 sample_bytes r" "single sample_bytes r" "low_ident sample_bytes r"
proof -
  have al: "allocatable_physical_address 0x50000 (own_page r)" "allocatable_physical_address 0x50000 0x6000"
    by (rule sample_frames(1), simp add: own_page_def)+
  show "maps_ok 0x50000 sample_bytes r"
    unfolding maps_ok_def
  proof (intro allI impI)
    fix va q assume um: "user_map sample_bytes r va q False"
    show "q = CONSOLE_ADDR \<and> page_base va = CONSOLE_ADDR \<and> user_map sample_bytes r va q True
        \<or> user_va va \<and> allocatable_physical_address 0x50000 q"
    proof (cases "unat va div 4096 = 0xB8")
      case True
      then have "unat (page_base va) = 0xB8000" by (simp add: unat_page_base)
      then have "page_base va = CONSOLE_ADDR" by (simp add: word_unat_eq_iff)
      then show ?thesis using True um by (auto simp: sample_user_map [OF r])
    next
      case False
      then have "256 \<le> unat va div 4096" "unat va div 4096 < 768" using um by (auto simp: sample_user_map [OF r])
      then have "user_va va"
        by (simp add: user_va_def word_le_nat_alt word_less_nat_alt less_eq_div_iff_mult_less_eq div_less_iff_less_mult)
      then show ?thesis using False um al by (auto simp: sample_user_map [OF r])
    qed
  qed
  show "single sample_bytes r" using r by (auto simp: single_def sample_user_map [OF r] same_above_div own_page_def split: if_splits)
  show "low_ident sample_bytes r"
    unfolding low_ident_def
  proof (intro allI impI)
    fix va :: u64 assume "va < PROC_START_ADDR"
    then have lt: "unat va < 0x100000" by (simp add: word_less_nat_alt)
    then show "\<exists>perm. translate sample_bytes r va = Some (va, perm)"
      using lt by (simp add: sample_translate [OF r] sample_leaf_def div_less_iff_less_mult)
  qed
qed

lemma sample_mappers:
  assumes "q \<noteq> CONSOLE_ADDR"
  shows "mappers sample_bytes {0x1000, 0x8000} q =
    (if q = 0x6000 then {0x1000, 0x8000} else if q = 0x5000 then {0x1000} else if q = 0xC000 then {0x8000} else {})"
proof -
  have d: "unat (0x100000 :: u64) div 4096 = 256" "unat (0x101000 :: u64) div 4096 = 257" by simp_all
  have "(\<exists>va. user_map sample_bytes r va q False) \<longleftrightarrow> q = own_page r \<or> q = 0x6000" if "r \<in> {0x1000, 0x8000}" for r
    unfolding sample_user_map [OF that] using assms d by metis
  then have "mappers sample_bytes {0x1000, 0x8000} q = {r \<in> {0x1000, 0x8000}. q = own_page r \<or> q = 0x6000}"
    unfolding mappers_def by blast
  then show ?thesis by (auto simp: own_page_def)
qed

lemma sample_sys_inv: "sys_inv 0x50000 0x40000 sample_system"
proof -
  let ?s = "\<lparr>bytes = sample_bytes, pages = sample_pages\<rparr>" and ?P = "{0x1000, 0x8000} :: u64 set"
  have ph: "phys sample_system = ?s" by (simp add: sample_system_def)
  have fr: "x \<notin> avail 0x50000 ?s" if "x \<in> run_of 0x1000 \<union> run_of 0x8000 \<union> {0x5000, 0x6000, 0xC000}" for x
    using sample_frames(2) [OF that] by (simp add: avail_def)
  have fx: "x \<notin> avail 0x50000 ?s" if "x \<in> insert CONSOLE_ADDR (run_of 0x40000)" for x
    using sample_fixed [OF that] by (simp add: avail_def)
  have um: "q \<in> {CONSOLE_ADDR, 0x5000, 0x6000, 0xC000}" if "user_map sample_bytes r va q w" "r \<in> ?P" for r va q w
    using that(1) unfolding sample_user_map [OF that(2)] own_page_def by (auto split: if_splits)
  have tb: "tables sample_bytes ?P = run_of 0x1000 \<union> run_of 0x8000"
    "tables sample_bytes (insert 0x40000 ?P) = run_of 0x1000 \<union> run_of 0x8000 \<union> run_of 0x40000"
    by (auto simp: sample_tables)
  have dj: "x \<notin> run_of 0x1000 \<union> run_of 0x8000 \<union> run_of 0x40000" if "x \<in> {CONSOLE_ADDR, 0x5000, 0x6000, 0xC000}" for x
    using that by (auto simp: run_of_def)
  have "as_inv (avail 0x50000) 0x40000 ?P ?s"
    unfolding as_inv_def pt_good_def
  proof (intro conjI ballI)
    show "forest (bytes ?s) (insert 0x40000 ?P)" using sample_forest by simp
    show "tables (bytes ?s) (insert 0x40000 ?P) \<inter> avail 0x50000 ?s = {}" using fr fx by (auto simp: tb)
    show "frames_ok (avail 0x50000) ?s ?P (insert 0x40000 ?P)"
      unfolding frames_ok_def
    proof (intro ballI allI impI conjI)
      fix r va q assume r: "r \<in> ?P" and "user_map (bytes ?s) r va q False"
      then have q: "q \<in> {CONSOLE_ADDR, 0x5000, 0x6000, 0xC000}" using um by simp
      show "q \<notin> avail 0x50000 ?s" using q fr [of q] fx [of q] by blast
      show "q \<notin> tables (bytes ?s) (insert 0x40000 ?P)" using dj [OF q] tb(2) by simp
    qed
    show "exclusive (bytes ?s) ?P" by (auto simp: exclusive_def sample_user_map same_above_div own_page_def)
  qed (use sample_ptree in auto)
  moreover have "counted sample_bytes ?P sample_pages"
    by (simp add: counted_def sample_mappers sample_pages_def)
  moreover have "tables_ok 0x50000 sample_bytes ?P sample_pages"
    unfolding tables_ok_def tb using sample_frames by auto
  ultimately show ?thesis
    using sample_maps unfolding sys_inv_def sample_roots mem_inv_def ph by (simp add: sample_system_def) (simp add: sample_kernel_def)
qed

section \<open>System calls on it\<close>

lemma sample_current: "current sample_system = 1" "current sample_system \<in> live sample_system"
proof -
  show c: "current sample_system = 1" by (simp add: sample_system_def) (simp add: sample_kernel_def)
  show "current sample_system \<in> live sample_system" unfolding c sample_roots by simp
qed

lemma sample_procs:
  "pagetable (ptable sample_system (Suc 0)) = 0x1000" "pagetable (ptable sample_system 2) = 0x8000"
  "state (ptable sample_system (Suc 0)) = P_RUNNABLE" "state (ptable sample_system 2) = P_RUNNABLE"
  "state (ptable sample_system 0) = P_FREE" "pid (ptable sample_system i) = int i"
  by (simp_all add: sample_system_def) (simp_all add: sample_kernel_def)

lemma sample_room: "shared_room 0x1000 (phys sample_system)"
  by (simp add: shared_room_def sample_system_def sample_pages_def)

theorem exit_spec_witness:
  "\<exists>k'. syscall_exit sample_system = retIO k' \<and> live k' = {2}
     \<and> unat (refcount (pages (phys k') 5)) = 0 \<and> unat (refcount (pages (phys k') 6)) = 1"
proof -
  obtain k' where k': "syscall_exit sample_system = retIO k'" "live k' = live sample_system - {current sample_system}"
    "\<forall>q. page_aligned q \<longrightarrow>
         unat (refcount (pages (phys k') (page_number q))) = unat (refcount (pages (phys sample_system) (page_number q)))
           - (if q \<noteq> CONSOLE_ADDR \<and> (\<exists>va. user_map (bytes (phys sample_system)) (pagetable (ptable sample_system (current sample_system))) va q False)
                \<or> q \<in> tables (bytes (phys sample_system)) {pagetable (ptable sample_system (current sample_system))} then 1 else 0)"
    using exit_spec [OF sample_sys_inv sample_current(2)] by blast
  have "0x1000 \<in> mappers sample_bytes {0x1000, 0x8000} q" if "q = 0x5000 \<or> q = 0x6000" for q
    using sample_mappers [of q] that by auto
  then have um: "\<exists>va. user_map sample_bytes 0x1000 va q False" if "q = 0x5000 \<or> q = 0x6000" for q
    using that unfolding mappers_def by blast
  have b: "bytes (phys sample_system) = sample_bytes" "pages (phys sample_system) = sample_pages" by (simp_all add: sample_system_def)
  have "page_aligned 0x5000" "page_aligned 0x6000" by (simp_all add: page_aligned_def)
  then have "unat (refcount (pages (phys k') 5)) = 0" "unat (refcount (pages (phys k') 6)) = 1"
    using k'(3) [rule_format, of "0x5000"] k'(3) [rule_format, of "0x6000"] um
    by (simp_all add: b sample_current sample_procs sample_pages_def)
  then show ?thesis using k'(1,2) sample_current(1) sample_roots(1) by auto
qed

theorem fork_spec_witness:
  "\<exists>r k'. syscall_fork 0x50000 sample_system = retIO (r, k') \<and> sys_inv 0x50000 0x40000 k'
     \<and> (r = - 1 \<or> (\<exists>c. r = int c \<and> live k' = {c, 1, 2} \<and> space k' c 0x100010 = space sample_system 1 0x100010))"
proof -
  have "shared_room (pagetable (ptable sample_system (current sample_system))) (phys sample_system)"
    using sample_room by (simp add: sample_current sample_procs)
  from fork_spec [OF sample_sys_inv sample_current(2) this]
  show ?thesis unfolding sample_roots(1) sample_current(1) by blast
qed

end
