(* ===== verification/Execution.thy ===== *)
theory Execution
  imports Kernel_Safe Sample_State
begin

text \<open>
  Executions of the whole system: user processes write to their own memory and to the console, make
  system calls and are interrupted; the kernel answers as its entry points do. The invariant holds in
  every state that can be reached, and a process that is not running does not change.
\<close>

section \<open>User memory\<close>

text \<open>A process writes a byte. The console page is the device \<open>con\<close> and not part of memory here.\<close>

definition user_store :: "mem \<Rightarrow> addr \<Rightarrow> u64 \<Rightarrow> u8 \<Rightarrow> mem option" where
  "user_store m r va b =
     (case translate m r va of
        Some (pa, perm) \<Rightarrow> if is_user_writable perm \<and> page_base pa \<noteq> CONSOLE_ADDR then Some (m(pa := b)) else None
      | None \<Rightarrow> None)"

lemma mem_inv_agree:
  assumes inv: "mem_inv ke kpt P s" and ag: "agree_on (tables (bytes s) (insert kpt P)) (bytes s) m"
  shows "mem_inv ke kpt P (s\<lparr>bytes := m\<rparr>)" "\<And>r va. r \<in> insert kpt P \<Longrightarrow> translate m r va = translate (bytes s) r va"
    "tables m P = tables (bytes s) P"
proof -
  have as: "as_inv (avail ke) kpt P s" using inv by (simp add: mem_inv_def)
  have f: "forest (bytes s) (insert kpt P)" using as by (simp add: as_inv_def pt_good_def)
  note af = agree_forest [OF f ag]
  show tr: "translate m r va = translate (bytes s) r va" if "r \<in> insert kpt P" for r va by (rule agree_translate [OF f ag that])
  have um: "user_map m r va q w = user_map (bytes s) r va q w" if "r \<in> P" for r va q w using tr that by (intro user_map_cong) simp
  have fP: "forest (bytes s) P" by (rule forest_subset [OF f]) auto
  have "agree_on (tables (bytes s) P) (bytes s) m" using ag tables_mono [of P "insert kpt P" "bytes s"] by (auto simp: agree_on_def)
  then show tb: "tables m P = tables (bytes s) P" by (rule agree_forest(2) [OF fP])
  have av: "avail ke (s\<lparr>bytes := m\<rparr>) = avail ke s" by (rule ka.free_bytes)
  have "ptree_ok m r" if "r \<in> P" for r using agree_ptree_ok [OF f ag, of r] as that by (simp add: as_inv_def)
  then have "as_inv (avail ke) kpt P (s\<lparr>bytes := m\<rparr>)"
    using as af um by (simp add: as_inv_def pt_good_def frames_ok_def exclusive_def av)
  moreover have "mappers m P q = mappers (bytes s) P q" for q using um by (auto simp: mappers_def)
  ultimately show "mem_inv ke kpt P (s\<lparr>bytes := m\<rparr>)"
    using inv um tb by (simp add: mem_inv_def counted_def tables_ok_def maps_ok_def single_def)
qed

lemma store_ok:
  assumes rd: "ready l m" and st: "user_store (kbytes m) (pagetable (ptable (kern m) (current (kern m)))) va b = Some bs"
  shows "ready l (set_bytes bs m)" "isolated m (set_bytes bs m)"
proof -
  let ?k = "kern m" and ?P = "proc_roots (kern m)" and ?r = "pagetable (ptable (kern m) (current (kern m)))"
  let ?ke = "l_kernel_end l" and ?kpt = "l_pagetable l"
  have inv: "minv l m" using rd by (simp add: ready_def)
  note i = minvD [OF inv] and si = sys_invD [OF minvD(2) [OF inv]]
  have r: "?r \<in> ?P" by (rule live_root [OF ready_live [OF rd]])
  from st obtain pa perm where t: "translate (kbytes m) ?r va = Some (pa, perm)" "is_user_writable perm"
      "page_base pa \<noteq> CONSOLE_ADDR" "bs = (kbytes m)(pa := b)"
    by (auto simp: user_store_def split: option.splits if_splits)
  let ?q = "page_base pa"
  have um: "user_map (kbytes m) ?r va ?q True" using t is_user_writable_user by (auto simp: user_map_def)
  have as: "as_inv (avail ?ke) ?kpt ?P (phys ?k)" using si(1) by (simp add: mem_inv_def)
  have nt: "?q \<notin> tables (kbytes m) (insert ?kpt ?P)"
    using as r user_map_mono [OF um] unfolding as_inv_def frames_ok_def by blast
  have out: "bs a = kbytes m a" if "page_base a \<noteq> ?q" for a using that t(4) by auto
  have ag: "agree_on (tables (kbytes m) (insert ?kpt ?P)) (kbytes m) bs" unfolding agree_on_def using nt out by metis
  note mi = mem_inv_agree [OF si(1) ag]
  let ?k' = "?k\<lparr>phys := (phys ?k)\<lparr>bytes := bs\<rparr>\<rparr>"
  have um': "user_map bs r' v q w = user_map (kbytes m) r' v q w" if "r' \<in> ?P" for r' v q w
    using mi(2) that by (intro user_map_cong) simp
  have kp: "kept ?ke z ?P (phys ?k) (proc_roots ?k') (phys ?k')" for z
  proof -
    have "z \<noteq> ?q" if "owned ?ke ?P (phys ?k) z" using that user_map_mono [OF um] r by (auto simp: owned_def mappers_def)
    moreover have "mappers bs ?P z = mappers (kbytes m) ?P z" using um' by (auto simp: mappers_def)
    ultimately show ?thesis using mi(3) out ka.free_bytes [of ?ke bs "phys ?k"] by (auto simp: kept_def owned_def)
  qed
  have "sys_inv ?ke ?kpt ?k'" using mi(1,2) si by (simp add: sys_inv_def low_ident_def)
  moreover have "kpt_ok bs ?kpt" using kept_kpt_ok [OF i(2) kp i(3)] by simp
  moreover have "viewer_ok l (set_bytes bs m)"
    using i(4) kp [of "mu_v m"] ka.free_bytes [of ?ke bs "phys ?k"] by (auto simp: viewer_ok_def set_bytes_def kept_def)
  ultimately show "ready l (set_bytes bs m)" using rd by (simp add: ready_def minv_def set_bytes_def)
  have "space ?k' j v = space ?k j v" if j: "j \<in> live ?k" "j \<noteq> current ?k" for j v
  proof -
    let ?j = "pagetable (ptable ?k j)"
    have ne: "?j \<noteq> ?r" using si(2) ready_live [OF rd] j by (auto simp: inj_on_def)
    have jP: "?j \<in> ?P" by (rule si(4) [OF j(1)])
    have "bs p = kbytes m p" if tj: "translate (kbytes m) ?j v = Some (p, f)" "is_user f" for p f
    proof (rule out, rule notI)
      assume "page_base p = ?q"
      then have "user_map (kbytes m) ?j v ?q False" using tj by (auto simp: user_map_def)
      then show False using as r jP ne um t(3) unfolding as_inv_def exclusive_def by metis
    qed
    then show ?thesis using mi(2) [of ?j v] jP by (auto simp: space_def user_load_def content_at_def split: option.splits)
  qed
  then show "isolated m (set_bytes bs m)" by (simp add: isolated_def set_bytes_def)
qed

section \<open>Steps\<close>

text \<open>
  Two calls are left out, which the kernel does not survive: a \<open>fork\<close> that would overflow an 8-bit
  reference count, and the system call number whose negation overflows when it is printed.
\<close>

definition call_ok :: "machine \<Rightarrow> regstate \<Rightarrow> bool" where
  "call_ok m r \<longleftrightarrow>
     reg_rax r \<noteq> 0x8000000000000000
     \<and> (reg_rax r = SYSCALL_FORK \<longrightarrow> shared_room (pagetable (ptable (kern m) (current (kern m)))) (phys (kern m)))"

inductive step :: "link \<Rightarrow> machine \<Rightarrow> machine \<Rightarrow> bool" for l where
  store: "user_store (kbytes m) (pagetable (ptable (kern m) (current (kern m)))) va b = Some bs \<Longrightarrow> step l m (set_bytes bs m)"
| screen: "step l m (m\<lparr>con := c\<rparr>)"
| call: "call_ok m r \<Longrightarrow> syscall l r m = Some (Inr (v, m')) \<Longrightarrow> step l m m'"
| switch: "call_ok m r \<Longrightarrow> syscall l r m = Some (Inl (Resume j, m')) \<Longrightarrow> step l m m'"
| interrupt: "exception l r cr2 m = Some (Inl (Resume j, m')) \<Longrightarrow> step l m m'"

lemma not_stop_Resume [simp]: "\<not> user_stop (Resume j)"
  by (simp add: user_stop_def)

lemma step_ready:
  assumes "step l m m'" "ready l m"
  shows "ready l m' \<and> isolated m m'"
  using assms(1)
proof (cases rule: step.cases)
  case (store va b bs)
  then show ?thesis using store_ok [OF assms(2)] by simp
next
  case (screen c)
  then show ?thesis using assms(2) by (simp add: ready_def minv_def viewer_ok_def isolated_def)
next
  case (call r v)
  then show ?thesis using syscall_handled [OF assms(2), of r] by (auto simp: call_ok_def handled_def spins_def stopped_def)
next
  case (switch r j)
  then show ?thesis using syscall_handled [OF assms(2), of r] by (auto simp: call_ok_def handled_def spins_def stopped_def)
next
  case (interrupt r cr2 j)
  then show ?thesis using exception_resumed [OF assms(2), of r cr2] by (auto simp: resumed_def spins_def stopped_def)
qed

lemma steps_ready: "(step l)\<^sup>*\<^sup>* m m' \<Longrightarrow> ready l m \<Longrightarrow> ready l m'"
  by (induction rule: rtranclp_induct) (auto dest: step_ready)

section \<open>A sample machine\<close>

definition sample_link :: link where
  "sample_link =
     \<lparr>l_data_start = 0x45000, l_edata = 0x46000, l_kernel_end = 0x50000, l_pagetable = 0x40000, l_gdt = 0x46000,
      l_taskstate = 0x46100, l_idt = 0x47000, l_exception_entry = 0x48000, l_syscall_entry = 0x48100, l_arguments = 0x45000\<rparr>"

definition sample_machine :: machine where
  "sample_machine =
     \<lparr>kern = sample_system, hw = sample_cpu, port = \<lparr>device = \<lambda>_ _. 0, events = []\<rparr>,
      con = \<lparr>cells = \<lambda>_. 0, cursorpos = 0\<rparr>, kbd = \<lparr>modifiers = 0, last_escape = 0\<rparr>, pp_initialized = False, ticks = 1,
      last_ticks = 0, showing = 0, mu_v = 0, mu_marks = \<lambda>_. 0, panicking = False,
      symbols = \<lparr>sym = [], strtab = \<lambda>_. []\<rparr>\<rparr>"

lemma sample_kpt_ok: "kpt_ok sample_bytes 0x40000"
  unfolding kpt_ok_def
proof (intro conjI ballI allI impI)
  show "iter_ok sample_bytes 0x40000" by (rule ptree_iter_ok [OF sample_ptree]) simp
  show "t < PROC_START_ADDR" "t \<noteq> CONSOLE_ADDR" if "t \<in> tables sample_bytes {0x40000}" for t
    using that by (auto simp: sample_tables run_of_def)
  show "\<exists>perm. translate sample_bytes 0x40000 va = Some (va, perm)" if "va < MEMSIZE_PHYSICAL" for va
    using that by (simp add: sample_kpt_translate word_less_nat_alt)
  fix va q assume "user_map sample_bytes 0x40000 va q False"
  then have q: "q = page_base va" "unat va < 0x200000" "unat va div 4096 = 0xB8 \<or> 256 \<le> unat va div 4096"
    by (auto simp: user_map_def sample_kpt_translate is_user_def split: if_splits)
  have u: "unat q = 4096 * (unat va div 4096)" using q(1) by (simp add: unat_page_base)
  from q(3) show "q = CONSOLE_ADDR \<or> PROC_START_ADDR \<le> q \<and> q < MEMSIZE_PHYSICAL"
  proof
    assume "unat va div 4096 = 0xB8"
    then show ?thesis using u by (simp add: word_unat_eq_iff)
  next
    assume a: "256 \<le> unat va div 4096"
    have "unat va div 4096 < 512" using q(2) by (simp add: div_less_iff_less_mult)
    then show ?thesis using u a by (simp add: word_le_nat_alt word_less_nat_alt)
  qed
qed

lemma sample_ready: "ready sample_link sample_machine"
proof -
  have "allocatable_physical_address 0x50000 0x7000" by code_simp
  moreover have "page_aligned 0x7000" by (simp add: page_aligned_def)
  ultimately have "0x7000 \<in> avail 0x50000 (phys sample_system)"
    by (simp add: avail_def sample_system_def sample_pages_def used_def)
  then have "avail 0x50000 (phys sample_system) \<noteq> {}" by blast
  then have "minv sample_link sample_machine"
    using sample_sys_inv sample_kpt_ok
    by (simp add: minv_def sample_machine_def sample_link_def link_ok_def viewer_ok_def sample_procs sample_current) (simp add: sample_system_def)
  then show ?thesis by (simp add: ready_def) (simp add: sample_machine_def sample_current sample_procs)
qed

lemma sample_store: "\<exists>bs. user_store (kbytes sample_machine) 0x1000 0x100010 7 = Some bs \<and> bs 0x5010 = 7"
proof -
  have "translate sample_bytes 0x1000 0x100010 = Some (0x5010, 7)" by (simp add: sample_translate sample_leaf_def own_page_def)
  moreover have "page_base 0x5010 \<noteq> CONSOLE_ADDR" by (simp add: page_base_def)
  ultimately show ?thesis by (simp add: user_store_def is_user_writable_def sample_machine_def sample_system_def)
qed

end
