(* ===== verification/Loader.thy ===== *)
theory Loader
  imports Kernel
begin

text \<open>
  Executable images and the iterator over their segments: the structures of \<open>elf.h\<close> and
  \<open>program_loader\<close> of \<open>k-hardware.cc\<close>. The images are bytes of kernel memory; where the linker puts them
  and their names is the parameter \<open>programs\<close>. The results are that the iterator visits exactly the
  loadable program headers, in order, and that a program is found by its name.
\<close>

section \<open>Structures in memory\<close>

definition ld16 :: "mem \<Rightarrow> addr \<Rightarrow> u16" where
  "ld16 m a = ucast (m a) OR push_bit 8 (ucast (m (a + 1)))"

definition ld32 :: "mem \<Rightarrow> addr \<Rightarrow> u32" where
  "ld32 m a =
     ucast (m a) OR push_bit 8 (ucast (m (a + 1))) OR push_bit 16 (ucast (m (a + 2))) OR push_bit 24 (ucast (m (a + 3)))"

abbreviation (input) ELF_MAGIC :: u32 where "ELF_MAGIC \<equiv> 0x464C457F"
abbreviation (input) ELF_PTYPE_LOAD :: u32 where "ELF_PTYPE_LOAD \<equiv> 1"
abbreviation (input) ELF_PFLAG_WRITE :: u32 where "ELF_PFLAG_WRITE \<equiv> 2"

record elf_header =
  e_magic :: u32
  e_elf :: "u8 list"
  e_type :: u16
  e_machine :: u16
  e_version :: u32
  e_entry :: u64
  e_phoff :: u64
  e_shoff :: u64
  e_flags :: u32
  e_ehsize :: u16
  e_phentsize :: u16
  e_phnum :: u16
  e_shentsize :: u16
  e_shnum :: u16
  e_shstrndx :: u16

record elf_program =
  p_type :: u32
  p_flags :: u32
  p_offset :: u64
  p_va :: u64
  p_pa :: u64
  p_filesz :: u64
  p_memsz :: u64
  p_align :: u64

definition elf_header_at :: "mem \<Rightarrow> addr \<Rightarrow> elf_header" where
  "elf_header_at m a =
     \<lparr>e_magic = ld32 m a, e_elf = map (\<lambda>i. m (a + 4 + of_nat i)) [0..<12], e_type = ld16 m (a + 0x10),
      e_machine = ld16 m (a + 0x12), e_version = ld32 m (a + 0x14), e_entry = ld64 m (a + 0x18),
      e_phoff = ld64 m (a + 0x20), e_shoff = ld64 m (a + 0x28), e_flags = ld32 m (a + 0x30),
      e_ehsize = ld16 m (a + 0x34), e_phentsize = ld16 m (a + 0x36), e_phnum = ld16 m (a + 0x38),
      e_shentsize = ld16 m (a + 0x3A), e_shnum = ld16 m (a + 0x3C), e_shstrndx = ld16 m (a + 0x3E)\<rparr>"

definition elf_program_at :: "mem \<Rightarrow> addr \<Rightarrow> elf_program" where
  "elf_program_at m a =
     \<lparr>p_type = ld32 m a, p_flags = ld32 m (a + 4), p_offset = ld64 m (a + 8), p_va = ld64 m (a + 0x10),
      p_pa = ld64 m (a + 0x18), p_filesz = ld64 m (a + 0x20), p_memsz = ld64 m (a + 0x28), p_align = ld64 m (a + 0x30)\<rparr>"

text \<open>\<open>sizeof(elf_program)\<close>, the step of a pointer to a program header.\<close>

abbreviation (input) PHSIZE :: u64 where "PHSIZE \<equiv> 56"

section \<open>program_loader\<close>

record ramimage =
  ri_name :: addr
  ri_begin :: addr
  ri_end :: addr

text \<open>The array \<open>ramimages\<close>, and the string constants that \<open>kernel\<close> passes to \<open>process_setup\<close>.\<close>

record programs =
  ramimages :: "ramimage list"
  allocator_names :: "addr list"

record program_loader =
  ld_elf :: addr
  ld_ph :: addr
  ld_endph :: addr

definition is_load :: "mem \<Rightarrow> addr \<Rightarrow> bool" where
  "is_load m p \<longleftrightarrow> p_type (elf_program_at m p) = ELF_PTYPE_LOAD"

partial_function (option) loader_fix_loop :: "mem \<Rightarrow> addr \<Rightarrow> addr \<Rightarrow> addr option" where
  "loader_fix_loop m p e =
     (if p \<noteq> 0 \<and> p \<noteq> e \<and> \<not> is_load m p then loader_fix_loop m (p + PHSIZE) e else Some p)"

definition loader_fix :: "mem \<Rightarrow> program_loader \<Rightarrow> program_loader comp" where
  "loader_fix m ld = Option.bind (loader_fix_loop m (ld_ph ld) (ld_endph ld)) (\<lambda>p. retIO (ld\<lparr>ld_ph := p\<rparr>))"

definition loader_reset :: "mem \<Rightarrow> program_loader \<Rightarrow> program_loader comp" where
  "loader_reset m ld =
     (if ld_elf ld \<noteq> 0 then
        let h = elf_header_at m (ld_elf ld); p = ld_elf ld + e_phoff h in
        bindIO (Some (guardE (e_magic h = ELF_MAGIC) Assert_fail)) (\<lambda>_.
        loader_fix m (ld\<lparr>ld_ph := p, ld_endph := p + PHSIZE * ucast (e_phnum h)\<rparr>))
      else retIO (ld\<lparr>ld_ph := 0, ld_endph := 0\<rparr>))"

definition program_loader_number :: "programs \<Rightarrow> mem \<Rightarrow> int \<Rightarrow> program_loader comp" where
  "program_loader_number pg m n =
     loader_reset m
       \<lparr>ld_elf = (if 0 \<le> n \<and> n < int (length (ramimages pg)) then ri_begin (ramimages pg ! nat n) else 0), ld_ph = 0, ld_endph = 0\<rparr>"

primrec program_number_loop :: "mem \<Rightarrow> addr \<Rightarrow> ramimage list \<Rightarrow> nat \<Rightarrow> int option" where
  "program_number_loop m name [] i = Some (- 1)"
| "program_number_loop m name (r # rs) i =
     Option.bind (strcmp m name (ri_name r)) (\<lambda>c. if c = 0 then Some (int i) else program_number_loop m name rs (Suc i))"

definition program_number :: "programs \<Rightarrow> mem \<Rightarrow> addr \<Rightarrow> int option" where
  "program_number pg m name = program_number_loop m name (ramimages pg) 0"

definition program_loader_name :: "programs \<Rightarrow> mem \<Rightarrow> addr \<Rightarrow> program_loader comp" where
  "program_loader_name pg m name = Option.bind (program_number pg m name) (program_loader_number pg m)"

definition loader_present :: "program_loader \<Rightarrow> bool" where
  "loader_present ld \<longleftrightarrow> ld_ph ld \<noteq> ld_endph ld"

definition loader_va :: "mem \<Rightarrow> program_loader \<Rightarrow> u64" where
  "loader_va m ld = (if ld_ph ld \<noteq> ld_endph ld then p_va (elf_program_at m (ld_ph ld)) else 0)"

definition loader_size :: "mem \<Rightarrow> program_loader \<Rightarrow> u64" where
  "loader_size m ld = (if ld_ph ld \<noteq> ld_endph ld then p_memsz (elf_program_at m (ld_ph ld)) else 0)"

definition loader_data :: "mem \<Rightarrow> program_loader \<Rightarrow> addr" where
  "loader_data m ld = (if ld_ph ld \<noteq> ld_endph ld then ld_elf ld + p_offset (elf_program_at m (ld_ph ld)) else 0)"

definition loader_data_size :: "mem \<Rightarrow> program_loader \<Rightarrow> u64" where
  "loader_data_size m ld = (if ld_ph ld \<noteq> ld_endph ld then p_filesz (elf_program_at m (ld_ph ld)) else 0)"

definition loader_writable :: "mem \<Rightarrow> program_loader \<Rightarrow> bool" where
  "loader_writable m ld \<longleftrightarrow> ld_ph ld \<noteq> ld_endph ld \<and> p_flags (elf_program_at m (ld_ph ld)) AND ELF_PFLAG_WRITE \<noteq> 0"

definition loader_entry :: "mem \<Rightarrow> program_loader \<Rightarrow> u64" where
  "loader_entry m ld = (if ld_elf ld \<noteq> 0 then e_entry (elf_header_at m (ld_elf ld)) else 0)"

definition loader_next :: "mem \<Rightarrow> program_loader \<Rightarrow> program_loader comp" where
  "loader_next m ld =
     (if ld_ph ld \<noteq> ld_endph ld then loader_fix m (ld\<lparr>ld_ph := ld_ph ld + PHSIZE\<rparr>) else retIO ld)"

section \<open>What the iterator visits\<close>

primrec headers :: "addr \<Rightarrow> nat \<Rightarrow> addr list" where
  "headers p 0 = []"
| "headers p (Suc n) = p # headers (p + PHSIZE) n"

text \<open>The loadable program headers of the image at \<open>elf\<close>.\<close>

definition segments :: "mem \<Rightarrow> addr \<Rightarrow> addr list" where
  "segments m elf =
     filter (is_load m) (headers (elf + e_phoff (elf_header_at m elf)) (unat (e_phnum (elf_header_at m elf))))"

text \<open>The image has the right magic number, and its table of program headers does not wrap around.\<close>

definition image_ok :: "mem \<Rightarrow> addr \<Rightarrow> bool" where
  "image_ok m elf \<longleftrightarrow>
     elf \<noteq> 0 \<and> e_magic (elf_header_at m elf) = ELF_MAGIC \<and> elf + e_phoff (elf_header_at m elf) \<noteq> 0
     \<and> unat (elf + e_phoff (elf_header_at m elf)) + 56 * unat (e_phnum (elf_header_at m elf)) < 2 ^ 64"

text \<open>The iterator has the headers \<open>qs\<close> still to visit.\<close>

definition loader_at :: "mem \<Rightarrow> program_loader \<Rightarrow> addr list \<Rightarrow> bool" where
  "loader_at m ld qs \<longleftrightarrow>
     (\<exists>n. ld_endph ld = ld_ph ld + PHSIZE * of_nat n \<and> unat (ld_ph ld) + 56 * n < 2 ^ 64 \<and> ld_ph ld \<noteq> 0
        \<and> (n \<noteq> 0 \<longrightarrow> is_load m (ld_ph ld)) \<and> qs = filter (is_load m) (headers (ld_ph ld) n))"

lemma header_step:
  assumes "unat p + 56 * Suc n < 2 ^ 64"
  shows "unat (p + PHSIZE) = unat p + 56" "p + PHSIZE * of_nat (Suc n) = (p + PHSIZE) + PHSIZE * of_nat n"
    "p + PHSIZE * of_nat (Suc n) \<noteq> p"
proof -
  show "unat (p + PHSIZE) = unat p + 56" using assms by (subst unat_add_small) simp_all
  show "p + PHSIZE * of_nat (Suc n) = (p + PHSIZE) + PHSIZE * of_nat n" by (simp add: distrib_left)
  have "unat (of_nat (56 * Suc n) :: u64) = 56 * Suc n" using assms by (intro unat_of_nat_small) simp
  moreover have "PHSIZE * of_nat (Suc n) = (of_nat (56 * Suc n) :: u64)" by (simp only: of_nat_mult of_nat_numeral)
  ultimately have "unat (PHSIZE * of_nat (Suc n) :: u64) = 56 * Suc n" by simp
  then have "PHSIZE * of_nat (Suc n) \<noteq> (0 :: u64)" using unat_eq_0 [of "PHSIZE * of_nat (Suc n) :: u64"] by auto
  then show "p + PHSIZE * of_nat (Suc n) \<noteq> p" by simp
qed

lemma loader_fix_visits:
  assumes "ld_endph ld = ld_ph ld + PHSIZE * of_nat n" "unat (ld_ph ld) + 56 * n < 2 ^ 64" "ld_ph ld \<noteq> 0"
  shows "\<exists>ld'. loader_fix m ld = retIO ld' \<and> ld_elf ld' = ld_elf ld \<and> loader_at m ld' (filter (is_load m) (headers (ld_ph ld) n))"
  using assms
proof (induction n arbitrary: ld)
  case 0
  then have "loader_fix m ld = retIO ld" by (simp add: loader_fix_def loader_fix_loop.simps)
  then show ?case using 0 by (auto simp: loader_at_def intro!: exI [of _ 0])
next
  case (Suc n)
  note hs = header_step [OF Suc.prems(2)]
  show ?case
  proof (cases "is_load m (ld_ph ld)")
    case True
    then have "loader_fix m ld = retIO ld" by (simp add: loader_fix_def loader_fix_loop.simps)
    moreover have "loader_at m ld (filter (is_load m) (headers (ld_ph ld) (Suc n)))"
      unfolding loader_at_def using Suc.prems True by (intro exI [of _ "Suc n"]) simp
    ultimately show ?thesis by blast
  next
    case False
    let ?ld = "ld\<lparr>ld_ph := ld_ph ld + PHSIZE\<rparr>"
    have "ld_ph ld \<noteq> ld_endph ld" using Suc.prems(1) hs(3) by metis
    then have run: "loader_fix m ld = loader_fix m ?ld"
      using False Suc.prems(3) by (simp add: loader_fix_def loader_fix_loop.simps [of m "ld_ph ld"])
    have "unat (ld_ph ld + PHSIZE) \<noteq> 0" using hs(1) by simp
    then have "ld_ph ?ld \<noteq> 0" using unat_eq_0 by auto
    moreover have "unat (ld_ph ?ld) + 56 * n < 2 ^ 64" using hs(1) Suc.prems(2) by simp
    moreover have "ld_endph ?ld = ld_ph ?ld + PHSIZE * of_nat n" using Suc.prems(1) hs(2) by simp
    ultimately show ?thesis using Suc.IH [of ?ld] run False by simp
  qed
qed

lemma loader_reset_visits:
  assumes "image_ok m (ld_elf ld)"
  shows "\<exists>ld'. loader_reset m ld = retIO ld' \<and> ld_elf ld' = ld_elf ld \<and> loader_at m ld' (segments m (ld_elf ld))"
proof -
  let ?h = "elf_header_at m (ld_elf ld)"
  let ?ld = "ld\<lparr>ld_ph := ld_elf ld + e_phoff ?h, ld_endph := ld_elf ld + e_phoff ?h + PHSIZE * ucast (e_phnum ?h)\<rparr>"
  have "ucast (e_phnum ?h) = (of_nat (unat (e_phnum ?h)) :: u64)" by simp
  then have "\<exists>ld'. loader_fix m ?ld = retIO ld' \<and> ld_elf ld' = ld_elf ?ld
      \<and> loader_at m ld' (filter (is_load m) (headers (ld_ph ?ld) (unat (e_phnum ?h))))"
    by (intro loader_fix_visits) (use assms in \<open>simp_all add: image_ok_def\<close>)
  then show ?thesis using assms by (simp add: loader_reset_def image_ok_def Let_def segments_def)
qed

lemma loader_at_present: "loader_at m ld qs \<Longrightarrow> loader_present ld \<longleftrightarrow> qs \<noteq> []"
proof -
  assume "loader_at m ld qs"
  then obtain n where n: "ld_endph ld = ld_ph ld + PHSIZE * of_nat n" "unat (ld_ph ld) + 56 * n < 2 ^ 64"
      "n \<noteq> 0 \<longrightarrow> is_load m (ld_ph ld)" "qs = filter (is_load m) (headers (ld_ph ld) n)"
    by (auto simp: loader_at_def)
  show ?thesis
  proof (cases n)
    case 0
    then show ?thesis using n by (simp add: loader_present_def)
  next
    case (Suc k)
    then have "ld_ph ld \<noteq> ld_endph ld" using header_step(3) n(1,2) by metis
    then show ?thesis using n Suc by (simp add: loader_present_def)
  qed
qed

lemma loader_at_Cons:
  assumes "loader_at m ld (q # qs)"
  shows "ld_ph ld = q" "is_load m q" "ld_ph ld \<noteq> ld_endph ld"
    "\<exists>ld'. loader_next m ld = retIO ld' \<and> ld_elf ld' = ld_elf ld \<and> loader_at m ld' qs"
proof -
  obtain n where n: "ld_endph ld = ld_ph ld + PHSIZE * of_nat n" "unat (ld_ph ld) + 56 * n < 2 ^ 64" "ld_ph ld \<noteq> 0"
      "n \<noteq> 0 \<longrightarrow> is_load m (ld_ph ld)" "q # qs = filter (is_load m) (headers (ld_ph ld) n)"
    using assms by (auto simp: loader_at_def)
  then obtain k where k: "n = Suc k" by (cases n) auto
  note hs = header_step [OF n(2) [unfolded k]]
  have q: "q = ld_ph ld" "qs = filter (is_load m) (headers (ld_ph ld + PHSIZE) k)" using n k by auto
  show "ld_ph ld = q" "is_load m q" using q(1) n k by simp_all
  show ne: "ld_ph ld \<noteq> ld_endph ld" using n(1) k hs(3) by metis
  have "unat (ld_ph ld + PHSIZE) \<noteq> 0" using hs(1) by simp
  then have "ld_ph ld + PHSIZE \<noteq> 0" using unat_eq_0 by auto
  then have "\<exists>ld'. loader_fix m (ld\<lparr>ld_ph := ld_ph ld + PHSIZE\<rparr>) = retIO ld' \<and> ld_elf ld' = ld_elf ld \<and> loader_at m ld' qs"
    unfolding q(2) using loader_fix_visits [of "ld\<lparr>ld_ph := ld_ph ld + PHSIZE\<rparr>" k m] n(1,2) hs(1,2) k by simp
  then show "\<exists>ld'. loader_next m ld = retIO ld' \<and> ld_elf ld' = ld_elf ld \<and> loader_at m ld' qs"
    using ne by (simp add: loader_next_def)
qed

text \<open>The loop of a client: reset, then step while a segment is present.\<close>

partial_function (option) loader_visit :: "mem \<Rightarrow> program_loader \<Rightarrow> addr list comp" where
  "loader_visit m ld =
     (if loader_present ld
      then bindIO (loader_next m ld) (\<lambda>ld'. bindIO (loader_visit m ld') (\<lambda>ps. retIO (ld_ph ld # ps)))
      else retIO [])"

lemma loader_visit_at: "loader_at m ld qs \<Longrightarrow> loader_visit m ld = retIO qs"
proof (induction qs arbitrary: ld)
  case Nil
  then show ?case using loader_at_present by (subst loader_visit.simps) auto
next
  case (Cons q qs)
  from loader_at_Cons(4) [OF Cons.prems] obtain ld' where "loader_next m ld = retIO ld'" "loader_at m ld' qs" by blast
  then show ?case using Cons.IH loader_at_Cons(1) [OF Cons.prems] loader_at_present [OF Cons.prems]
    by (subst loader_visit.simps) simp
qed

lemma program_number_loop_finds:
  assumes "cstr m name nm" "list_all2 (\<lambda>r s. cstr m (ri_name r) s) rs ss"
  shows "program_number_loop m name rs i = Some (if nm \<in> set ss then int (i + length (takeWhile (\<lambda>s. s \<noteq> nm) ss)) else - 1)"
  using assms(2)
proof (induction rs ss arbitrary: i rule: list_all2_induct)
  case (Cons r rs s ss)
  have "strcmp m name (ri_name r) = Some (list_cmp nm s)" using strcmp_cstr [OF assms(1)] Cons.hyps by blast
  then show ?case using Cons.IH [of "Suc i"] by (auto simp: list_cmp_def)
qed simp

text \<open>A program is found by its name: for NUL-terminated strings, \<open>program_number\<close> ends with the index of the
  first image of that name, or with -1 if there is none.\<close>

lemma program_number_finds:
  assumes "cstr m name nm" "list_all2 (\<lambda>r s. cstr m (ri_name r) s) (ramimages pg) ss"
  shows "program_number pg m name = Some (if nm \<in> set ss then int (length (takeWhile (\<lambda>s. s \<noteq> nm) ss)) else - 1)"
  using program_number_loop_finds [OF assms, of 0] by (simp add: program_number_def)

text \<open>The structures depend on their own bytes only.\<close>

lemma elf_header_cong:
  assumes "\<And>x. x < 64 \<Longrightarrow> m' (a + of_nat x) = m (a + of_nat x)"
  shows "elf_header_at m' a = elf_header_at m a"
proof -
  have n: "m' (a + numeral w) = m (a + numeral w)" "m' (numeral w + a) = m (numeral w + a)" if "numeral w < (64 :: nat)" for w
    using assms [OF that] by (simp_all add: add.commute)
  have z: "m' a = m a" "m' (a + 1) = m (a + 1)" using assms [of 0] assms [of 1] by simp_all
  have e: "map (\<lambda>i. m' (a + 4 + of_nat i)) [0..<12] = map (\<lambda>i. m (a + 4 + of_nat i)) [0..<12]"
  proof (rule map_cong)
    fix i assume "i \<in> set [0..<12]"
    then have "m' (a + of_nat (4 + i)) = m (a + of_nat (4 + i))" by (intro assms) auto
    then show "m' (a + 4 + of_nat i) = m (a + 4 + of_nat i)" by (simp add: add.assoc)
  qed simp
  show ?thesis unfolding elf_header_at_def e by (simp add: ld16_def ld32_def ld64_def n z)
qed

lemma elf_program_cong:
  assumes "\<And>x. x < 56 \<Longrightarrow> m' (a + of_nat x) = m (a + of_nat x)"
  shows "elf_program_at m' a = elf_program_at m a"
proof -
  have n: "m' (a + numeral w) = m (a + numeral w)" "m' (numeral w + a) = m (numeral w + a)" if "numeral w < (56 :: nat)" for w
    using assms [OF that] by (simp_all add: add.commute)
  have z: "m' a = m a" "m' (a + 1) = m (a + 1)" using assms [of 0] assms [of 1] by simp_all
  show ?thesis unfolding elf_program_at_def by (simp add: ld32_def ld64_def n z)
qed

section \<open>A sample image\<close>

text \<open>An image at \<open>0x45000\<close> with two program headers, the second one loadable, and the names of the programs
  from \<open>0x450C0\<close> on, 16 bytes apart; all other bytes are 0.\<close>

definition sample_names :: "u8 list list" where
  "sample_names = [[97, 108, 108, 111, 99, 97, 116, 111, 114], [97, 108, 108, 111, 99, 97, 116, 111, 114, 50], [97, 108, 108, 111, 99, 97, 116, 111, 114, 51], [97, 108, 108, 111, 99, 97, 116, 111, 114, 52], [102, 111, 114, 107], [102, 111, 114, 107, 101, 120, 105, 116]]"

definition sample_elf :: mem where
  "sample_elf = (\<lambda>_. 0)
      (0x45000 := 127, 0x45001 := 69, 0x45002 := 76, 0x45003 := 70, 0x4501A := 16, 0x45020 := 64, 
       0x45038 := 2, 0x45040 := 6, 0x45078 := 1, 0x4507C := 7, 0x4508A := 16, 0x45098 := 16, 0x450A0 := 32, 
       0x450A9 := 16)"

definition sample_strings :: mem where
  "sample_strings = (\<lambda>_. 0)
      (0x450C0 := 97, 0x450C1 := 108, 0x450C2 := 108, 0x450C3 := 111, 0x450C4 := 99, 0x450C5 := 97, 
       0x450C6 := 116, 0x450C7 := 111, 0x450C8 := 114, 0x450D0 := 97, 0x450D1 := 108, 0x450D2 := 108, 
       0x450D3 := 111, 0x450D4 := 99, 0x450D5 := 97, 0x450D6 := 116, 0x450D7 := 111, 0x450D8 := 114, 
       0x450D9 := 50, 0x450E0 := 97, 0x450E1 := 108, 0x450E2 := 108, 0x450E3 := 111, 0x450E4 := 99, 
       0x450E5 := 97, 0x450E6 := 116, 0x450E7 := 111, 0x450E8 := 114, 0x450E9 := 51, 0x450F0 := 97, 
       0x450F1 := 108, 0x450F2 := 108, 0x450F3 := 111, 0x450F4 := 99, 0x450F5 := 97, 0x450F6 := 116, 
       0x450F7 := 111, 0x450F8 := 114, 0x450F9 := 52, 0x45100 := 102, 0x45101 := 111, 0x45102 := 114, 
       0x45103 := 107, 0x45110 := 102, 0x45111 := 111, 0x45112 := 114, 0x45113 := 107, 0x45114 := 101, 
       0x45115 := 120, 0x45116 := 105, 0x45117 := 116)"

definition sample_image :: mem where
  "sample_image a = (if a < 0x450C0 then sample_elf a else sample_strings a)"

definition sample_programs :: programs where
  "sample_programs =
     \<lparr>ramimages = map (\<lambda>i. \<lparr>ri_name = 0x450C0 + 16 * i, ri_begin = 0x45000, ri_end = 0x450B0\<rparr>) [0, 1, 2, 3, 4, 5],
      allocator_names = [0x450C0, 0x450D0, 0x450E0, 0x450F0]\<rparr>"

lemma sample_header:
  "e_magic (elf_header_at sample_image 0x45000) = ELF_MAGIC" "e_entry (elf_header_at sample_image 0x45000) = 0x100000"
  "e_phoff (elf_header_at sample_image 0x45000) = 64" "e_phnum (elf_header_at sample_image 0x45000) = 2"
  by (simp_all add: elf_header_at_def ld16_def ld32_def ld64_def sample_image_def sample_elf_def)

lemma sample_program_headers:
  "elf_program_at sample_image 0x45040 =
     \<lparr>p_type = 6, p_flags = 0, p_offset = 0, p_va = 0, p_pa = 0, p_filesz = 0, p_memsz = 0, p_align = 0\<rparr>"
  "elf_program_at sample_image 0x45078 =
     \<lparr>p_type = 1, p_flags = 7, p_offset = 0, p_va = 0x100000, p_pa = 0, p_filesz = 16, p_memsz = 32, p_align = 0x1000\<rparr>"
  by (simp_all add: elf_program_at_def ld32_def ld64_def sample_image_def sample_elf_def)

lemma sample_image_ok: "image_ok sample_image 0x45000"
  by (simp add: image_ok_def sample_header)

lemma sample_segments: "segments sample_image 0x45000 = [0x45078]"
proof -
  have "headers 0x45040 2 = [0x45040, 0x45078]" by (simp add: numeral_2_eq_2)
  then show ?thesis by (simp add: segments_def sample_header is_load_def sample_program_headers)
qed

lemma sample_name:
  "cstr sample_image 0x450C0 (sample_names ! 0)" "cstr sample_image 0x450D0 (sample_names ! 1)"
  "cstr sample_image 0x450E0 (sample_names ! 2)" "cstr sample_image 0x450F0 (sample_names ! 3)"
  "cstr sample_image 0x45100 (sample_names ! 4)" "cstr sample_image 0x45110 (sample_names ! 5)"
  by (simp_all add: sample_image_def sample_strings_def sample_names_def)

lemma sample_names_ok: "list_all2 (\<lambda>r s. cstr sample_image (ri_name r) s) (ramimages sample_programs) sample_names"
proof -
  have "list_all2 (\<lambda>r s. cstr sample_image (ri_name r) s) (ramimages sample_programs) (map ((!) sample_names) [0, 1, 2, 3, 4, 5])"
    using sample_name by (simp add: sample_programs_def)
  moreover have "map ((!) sample_names) [0, 1, 2, 3, 4, 5] = sample_names" by (simp add: sample_names_def)
  ultimately show ?thesis by (simp only:)
qed

section \<open>Properties\<close>

text \<open>C39: for an image with the right magic number and a table of program headers that does not wrap
  around, resetting the iterator and stepping it while a segment is present ends, and visits the headers
  of type \<open>ELF_PTYPE_LOAD\<close> and no others, in the order of the table.\<close>

theorem loader_visits_segments:
  assumes "image_ok m (ld_elf ld)"
  shows "bindIO (loader_reset m ld) (loader_visit m) = retIO (segments m (ld_elf ld))"
  using loader_reset_visits [OF assms] loader_visit_at by auto

theorem loader_visits_segments_witness:
  "bindIO (loader_reset sample_image \<lparr>ld_elf = 0x45000, ld_ph = 0, ld_endph = 0\<rparr>) (loader_visit sample_image) = retIO [0x45078]"
  using loader_visits_segments [of sample_image "\<lparr>ld_elf = 0x45000, ld_ph = 0, ld_endph = 0\<rparr>"] sample_image_ok sample_segments by simp

end
