(* ===== verification/Boot.thy ===== *)
theory Boot
  imports Handlers Loader
begin

text \<open>
  How the kernel starts: \<open>init_hardware\<close> with the kernel's page table, \<open>process_setup\<close>, which builds the
  address space of a process and loads a program into it, and \<open>kernel\<close>, which runs the first process.
\<close>

abbreviation (input) PROC_SIZE :: u64 where "PROC_SIZE \<equiv> 0x40000"

section \<open>The iterator keeps its address\<close>

lemma try_map_loop_va: "try_map_loop al perm it s = Inr (r, it', s') \<Longrightarrow> vm_va it' = vm_va it"
proof (induction al perm it s arbitrary: r it' s' rule: try_map_loop.induct)
  case (1 al perm it s)
  note ih = 1(1) [simplified]
  from 1(2) show ?case
    by (subst (asm) try_map_loop.simps)
      (auto simp: bindE_Inr_iff split: if_splits prod.splits, metis vmiter_down_va ih)
qed

lemma vm_map_va: "vm_map al it pa perm s = Inr (it', s') \<Longrightarrow> vm_va it' = vm_va it"
  by (auto simp: vm_map_def try_map_def bindE_Inr_iff Let_def split: if_splits dest!: try_map_loop_va)

lemma next_va_measure: "vm_va it < MEMSIZE_PHYSICAL \<Longrightarrow> vm_plus m it PAGESIZE = Inr it' \<Longrightarrow>
  2 ^ 21 + 4096 - unat (vm_va it') < 2 ^ 21 + 4096 - unat (vm_va it)"
proof -
  assume a: "vm_va it < MEMSIZE_PHYSICAL" "vm_plus m it PAGESIZE = Inr it'"
  then have lt: "unat (vm_va it) < 0x200000" by (simp add: word_less_nat_alt)
  then have "unat (vm_va it + PAGESIZE) = unat (vm_va it) + 4096" by (subst unat_add_small) simp_all
  moreover have "vm_va it' = vm_va it + PAGESIZE" using a(2) by (auto dest: vm_plus_va)
  ultimately show ?thesis using lt by simp
qed

section \<open>init_kernel_memory\<close>

text \<open>The five page-table pages of the kernel are consecutive.\<close>

definition kernel_tables :: "addr \<Rightarrow> mem \<Rightarrow> mem" where
  "kernel_tables kpt m =
     (let m = memset m kpt 0 (5 * PAGESIZE);
          m = st64 m (entry_addr kpt 0) ((kpt + 0x1000) OR PTE_P OR PTE_W OR PTE_U);
          m = st64 m (entry_addr (kpt + 0x1000) 0) ((kpt + 0x2000) OR PTE_P OR PTE_W OR PTE_U);
          m = st64 m (entry_addr (kpt + 0x2000) 0) ((kpt + 0x3000) OR PTE_P OR PTE_W OR PTE_U);
          m = st64 m (entry_addr (kpt + 0x2000) 1) ((kpt + 0x4000) OR PTE_P OR PTE_W OR PTE_U);
          m = st64 m (entry_addr (kpt + 0x1000) 1) (push_bit 30 1 OR PTE_P OR PTE_W OR PTE_PS);
          m = st64 m (entry_addr (kpt + 0x1000) 2) (push_bit 30 2 OR PTE_P OR PTE_W OR PTE_PS)
      in st64 m (entry_addr (kpt + 0x1000) 3) (push_bit 30 3 OR PTE_P OR PTE_W OR PTE_PS))"

function init_map_loop :: "addr \<Rightarrow> vmiter \<Rightarrow> kmem \<Rightarrow> fault + kmem" where
  "init_map_loop ke it s =
     (if vm_va it < MEMSIZE_PHYSICAL then
        bindE (if vm_va it \<noteq> 0
               then vm_map (kalloc ke PAGESIZE) it (vm_va it) (ucast (PTE_P OR PTE_W OR PTE_U)) s
               else Inr (it, s)) (\<lambda>(it1, s1).
        bindE (vm_plus (bytes s1) it1 PAGESIZE) (\<lambda>it2. init_map_loop ke it2 s1))
      else Inr s)"
  by pat_completeness auto
termination
proof (relation "measure (\<lambda>(ke, it, s). 2 ^ 21 + 4096 - unat (vm_va it))", goal_cases)
  case (2 ke it s x it1 s1 it2)
  then have "vm_va it1 = vm_va it" by (auto split: if_splits dest: vm_map_va)
  then show ?case using 2 next_va_measure [of it1 "bytes s1" it2] by simp
qed simp

declare init_map_loop.simps [simp del]

definition init_kernel_memory :: "link \<Rightarrow> machine \<Rightarrow> machine run" where
  "init_kernel_memory l m =
     (let m1 = set_bytes (stash_kernel_data l False (kbytes m)) (m\<lparr>hw := init_segments l (hw m)\<rparr>);
          m2 = set_bytes (kernel_tables (l_pagetable l) (kbytes m1)) m1
      in bindIO (tryE m2 (vmiter_init (kbytes m2) (l_pagetable l) 0)) (\<lambda>it.
         bindIO (tryE m2 (init_map_loop (l_kernel_end l) it (phys (kern m2)))) (\<lambda>s.
         retIO (m2\<lparr>kern := (kern m2)\<lparr>phys := s\<rparr>, hw := wrcr3 (l_pagetable l) (hw m2)\<rparr>))))"

section \<open>init_hardware\<close>

text \<open>The functions of the array \<open>__init_array_start\<close>, which the compiler makes for global objects.\<close>

primrec init_constructors :: "(machine \<Rightarrow> machine run) list \<Rightarrow> machine \<Rightarrow> machine run" where
  "init_constructors [] m = retIO m"
| "init_constructors (c # cs) m = bindIO (c m) (init_constructors cs)"

definition init_hardware :: "link \<Rightarrow> (machine \<Rightarrow> machine run) list \<Rightarrow> machine \<Rightarrow> machine run" where
  "init_hardware l ctors m =
     bindIO (init_kernel_memory l m) (\<lambda>m1.
     let m2 = m1\<lparr>con := (con m1)\<lparr>cursorpos := 3 * CONSOLE_COLUMNS\<rparr>\<rparr> in
     bindIO (tryE m2 (init_interrupts (hw m2) (port m2))) (\<lambda>(c, s).
     bindIO (init_constructors ctors (m2\<lparr>hw := c, port := s\<rparr>)) (\<lambda>m3.
     bindIO (tryE m3 (init_cpu_state l (hw m3) (port m3))) (\<lambda>(c, s).
     retIO (m3\<lparr>hw := c, port := s\<rparr>)))))"

section \<open>process_setup\<close>

function copy_kernel_loop :: "addr \<Rightarrow> vmiter \<Rightarrow> vmiter \<Rightarrow> kmem \<Rightarrow> fault + (vmiter \<times> kmem)" where
  "copy_kernel_loop ke kit pit s =
     (if vm_va kit < PROC_START_ADDR then
        bindE (vm_map (kalloc ke PAGESIZE) pit (vm_pa (bytes s) kit) (ucast (vm_perms (bytes s) kit)) s) (\<lambda>(pit1, s1).
        bindE (vm_plus (bytes s1) pit1 PAGESIZE) (\<lambda>pit2.
        bindE (vm_plus (bytes s1) kit PAGESIZE) (\<lambda>kit2. copy_kernel_loop ke kit2 pit2 s1)))
      else Inr (pit, s))"
  by pat_completeness auto
termination
proof (relation "measure (\<lambda>(ke, kit, pit, s). 2 ^ 21 + 4096 - unat (vm_va kit))", goal_cases)
  case (2 ke kit pit s x pit1 s1 pit2 kit2)
  then have "vm_va kit < MEMSIZE_PHYSICAL" by (simp add: word_less_nat_alt)
  then show ?case using 2 next_va_measure [of kit "bytes s1" kit2] by simp
qed simp

declare copy_kernel_loop.simps [simp del]

text \<open>The loops over the pages of a segment and over the segments. The first one need not end if the
  segment reaches the end of the address space.\<close>

partial_function (option) alloc_pages ::
    "addr \<Rightarrow> program_loader \<Rightarrow> u64 \<Rightarrow> vmiter \<Rightarrow> kmem \<Rightarrow> (vmiter \<times> kmem) comp" where
  "alloc_pages ke ld a pit s =
     (if a < loader_va (bytes s) ld + loader_size (bytes s) ld then
        let (pa, s1) = kalloc ke PAGESIZE s in
        bindIO (Some (vm_find (bytes s1) pit a)) (\<lambda>pit1.
        let flags = (if loader_writable (bytes s1) ld then PTE_P OR PTE_W OR PTE_U else PTE_P OR PTE_U) in
        bindIO (Some (vm_map (kalloc ke PAGESIZE) pit1 pa (ucast flags) s1)) (\<lambda>(pit2, s2).
        alloc_pages ke ld (a + PAGESIZE) pit2 s2))
      else retIO (pit, s))"

partial_function (option) alloc_segments ::
    "addr \<Rightarrow> program_loader \<Rightarrow> vmiter \<Rightarrow> kmem \<Rightarrow> (program_loader \<times> vmiter \<times> kmem) comp" where
  "alloc_segments ke ld pit s =
     (if loader_present ld then
        bindIO (alloc_pages ke ld (round_down (loader_va (bytes s) ld) (ucast PAGESIZE)) pit s) (\<lambda>(pit1, s1).
        bindIO (loader_next (bytes s1) ld) (\<lambda>ld1. alloc_segments ke ld1 pit1 s1))
      else retIO (ld, pit, s))"

partial_function (option) copy_segments ::
    "program_loader \<Rightarrow> vmiter \<Rightarrow> kmem \<Rightarrow> (program_loader \<times> vmiter \<times> kmem) comp" where
  "copy_segments ld pit s =
     (if loader_present ld then
        bindIO (Some (vm_find (bytes s) pit (loader_va (bytes s) ld))) (\<lambda>pit1.
        let b1 = memset (bytes s) (vm_pa (bytes s) pit1) 0 (loader_size (bytes s) ld);
            b2 = memcpy b1 (vm_pa b1 pit1) (loader_data b1 ld) (loader_data_size b1 ld) in
        bindIO (loader_next b2 ld) (\<lambda>ld1. copy_segments ld1 pit1 (s\<lparr>bytes := b2\<rparr>)))
      else retIO (ld, pit, s))"

definition process_setup :: "addr \<Rightarrow> addr \<Rightarrow> programs \<Rightarrow> nat \<Rightarrow> addr \<Rightarrow> kernel \<Rightarrow> kernel comp" where
  "process_setup ke kpt pg i program_name k =
     (let p0 = init_process 0 (ptable k i);
          (pt, s1) = kalloc ke PAGESIZE (phys k);
          s2 = (if pt \<noteq> 0 then s1\<lparr>bytes := memset (bytes s1) pt 0 PAGESIZE\<rparr> else s1)
      in bindIO (Some (vmiter_init (bytes s2) pt 0)) (\<lambda>pit.
         bindIO (Some (vmiter_init (bytes s2) kpt 0)) (\<lambda>kit.
         bindIO (Some (copy_kernel_loop ke kit pit s2)) (\<lambda>(pit, s3).
         bindIO (program_loader_name pg (bytes s3) program_name) (\<lambda>ld.
         bindIO (loader_reset (bytes s3) ld) (\<lambda>ld.
         bindIO (alloc_segments ke ld pit s3) (\<lambda>(ld, pit, s4).
         bindIO (loader_reset (bytes s4) ld) (\<lambda>ld.
         bindIO (copy_segments ld pit s4) (\<lambda>(ld, pit, s5).
         let rip = loader_entry (bytes s5) ld; stack_addr = MEMSIZE_VIRTUAL - PAGESIZE; (stack_pa, s6) = kalloc ke PAGESIZE s5 in
         bindIO (Some (vm_find (bytes s6) pit stack_addr)) (\<lambda>pit.
         bindIO (Some (vm_map (kalloc ke PAGESIZE) pit stack_pa (ucast (PTE_P OR PTE_W OR PTE_U)) s6)) (\<lambda>(pit, s7).
         retIO (k\<lparr>phys := s7, ptable := (ptable k)(i :=
           p0\<lparr>pagetable := pt, regs := (regs p0)\<lparr>reg_rip := rip, reg_rsp := MEMSIZE_VIRTUAL\<rparr>, state := P_RUNNABLE\<rparr>)\<rparr>))))))))))))"

section \<open>kernel\<close>

definition kernel_perm :: "u64 \<Rightarrow> u64" where
  "kernel_perm va =
     (if va < PROC_START_ADDR \<and> va \<noteq> CONSOLE_ADDR then PTE_P OR PTE_W
      else if va \<noteq> 0 then PTE_P OR PTE_W OR PTE_U else 0)"

function kernel_map_loop :: "addr \<Rightarrow> vmiter \<Rightarrow> kmem \<Rightarrow> fault + kmem" where
  "kernel_map_loop ke it s =
     (if vm_va it < MEMSIZE_PHYSICAL then
        bindE (vm_map (kalloc ke PAGESIZE) it (vm_va it) (ucast (kernel_perm (vm_va it))) s) (\<lambda>(it1, s1).
        bindE (vm_plus (bytes s1) it1 PAGESIZE) (\<lambda>it2. kernel_map_loop ke it2 s1))
      else Inr s)"
  by pat_completeness auto
termination
proof (relation "measure (\<lambda>(ke, it, s). 2 ^ 21 + 4096 - unat (vm_va it))", goal_cases)
  case (2 ke it s x it1 s1 it2)
  then have "vm_va it1 = vm_va it" by (auto dest: vm_map_va)
  then show ?case using 2 next_va_measure [of it1 "bytes s1" it2] by simp
qed simp

declare kernel_map_loop.simps [simp del]

definition init_descriptors :: "(nat \<Rightarrow> proc) \<Rightarrow> nat \<Rightarrow> proc" where
  "init_descriptors pt i = (if i < NPROC then (pt i)\<lparr>pid := int i, state := P_FREE\<rparr> else pt i)"

primrec process_setups :: "addr \<Rightarrow> addr \<Rightarrow> programs \<Rightarrow> (nat \<times> addr) list \<Rightarrow> kernel \<Rightarrow> kernel comp" where
  "process_setups ke kpt pg [] k = retIO k"
| "process_setups ke kpt pg (x # xs) k =
     bindIO (process_setup ke kpt pg (fst x) (snd x) k) (process_setups ke kpt pg xs)"

text \<open>The command is a pointer; 0 is the null pointer.\<close>

definition kernel_start :: "link \<Rightarrow> programs \<Rightarrow> (machine \<Rightarrow> machine run) list \<Rightarrow> addr \<Rightarrow> machine \<Rightarrow> unit run" where
  "kernel_start l pg ctors command m =
     bindIO (init_hardware l ctors m) (\<lambda>m1.
     bindIO (klog (lit ''Starting WeensyOS'' @ [10]) [] m1) (\<lambda>m2.
     let m3 = m2\<lparr>ticks := 1\<rparr> in
     bindIO (tryE m3 (init_timer (int HZ) (port m3))) (\<lambda>s.
     let m4 = m3\<lparr>port := s, con := console_clear (con m3)\<rparr> in
     bindIO (tryE m4 (vmiter_init (kbytes m4) (l_pagetable l) 0)) (\<lambda>it.
     bindIO (tryE m4 (kernel_map_loop (l_kernel_end l) it (phys (kern m4)))) (\<lambda>s.
     let m5 = m4\<lparr>kern := (kern m4)\<lparr>phys := s, ptable := init_descriptors (ptable (kern m4))\<rparr>\<rparr> in
     bindIO (if command \<noteq> 0
             then bindIO (tryIO m5 (program_loader_name pg (kbytes m5) command)) (\<lambda>ld. retIO (loader_present ld))
             else retIO False) (\<lambda>b.
     bindIO (tryIO m5 (process_setups (l_kernel_end l) (l_pagetable l) pg
         (if b then [(1, command)] else zip [1, 2, 3, 4] (allocator_names pg)) (kern m5))) (\<lambda>k.
     run l 1 (m5\<lparr>kern := k\<rparr>))))))))"

end
