(* ===== verification/Boot_Table.thy ===== *)
theory Boot_Table
  imports Boot Low_Tables Memviewer_Safe
begin

text \<open>
  The kernel's page table: what \<open>init_kernel_memory\<close> and the first loop of \<open>kernel\<close> leave in its five
  pages, and the translation that the processor makes of it. Memory below \<open>MEMSIZE_PHYSICAL\<close> is mapped one
  to one; users reach the console and the memory from \<open>PROC_START_ADDR\<close> on.
\<close>

section \<open>The entries\<close>

text \<open>The entries of the five pages, where \<open>f\<close> gives those of the last-level table of the first two megabytes.\<close>

definition ktable_entry :: "addr \<Rightarrow> (nat \<Rightarrow> u64) \<Rightarrow> nat \<Rightarrow> nat \<Rightarrow> u64" where
  "ktable_entry kpt f j i =
     (if j = 0 then (if i = 0 then link_entry (kpt + 0x1000) else 0)
      else if j = 1 then
        (if i = 0 then link_entry (kpt + 0x2000) else if i = 1 then 0x40000083 else if i = 2 then 0x80000083
         else if i = 3 then 0xC0000083 else 0)
      else if j = 2 then (if i = 0 then link_entry (kpt + 0x3000) else if i = 1 then link_entry (kpt + 0x4000) else 0)
      else if j = 3 then f i else 0)"

definition ktable :: "addr \<Rightarrow> nat \<Rightarrow> addr" where
  "ktable kpt j = kpt + 0x1000 * of_nat j"

definition ktables_in :: "addr \<Rightarrow> bool" where
  "ktables_in kpt \<longleftrightarrow> page_aligned kpt \<and> KERNEL_START_ADDR \<le> kpt \<and> kpt + 5 * PAGESIZE \<le> KERNEL_STACK_TOP \<and> kpt < KERNEL_STACK_TOP"

definition ktables :: "addr \<Rightarrow> (nat \<Rightarrow> u64) \<Rightarrow> mem \<Rightarrow> bool" where
  "ktables kpt f m \<longleftrightarrow>
     ktables_in kpt \<and> (\<forall>j < 5. \<forall>i < 512. ld64 m (entry_addr (ktable kpt j) i) = ktable_entry kpt f j i)"

lemma ktable_simps:
  "ktable kpt 0 = kpt" "ktable kpt (Suc 0) = kpt + 0x1000" "ktable kpt 2 = kpt + 0x2000" "ktable kpt 3 = kpt + 0x3000"
  "ktable kpt 4 = kpt + 0x4000"
  by (simp_all add: ktable_def)

lemma ktable_page:
  assumes "ktables_in kpt" "j < 5"
  shows "unat (ktable kpt j) = unat kpt + 4096 * j" "page_aligned (ktable kpt j)" "ktable kpt j < 0x100000000"
    "KERNEL_START_ADDR \<le> ktable kpt j" "ktable kpt j < KERNEL_STACK_TOP" "ktable kpt j + PAGESIZE \<le> kpt + 5 * PAGESIZE"
proof -
  have lt: "unat kpt < 0x80000" "0x40000 \<le> unat kpt" using assms(1) by (simp_all add: ktables_in_def word_less_nat_alt word_le_nat_alt)
  then have "unat (kpt + 5 * PAGESIZE) = unat kpt + 0x5000" by (subst unat_add_small) simp_all
  then have top: "unat kpt + 0x5000 \<le> 0x80000" using assms(1) by (simp add: ktables_in_def word_le_nat_alt)
  have o: "unat (0x1000 * of_nat j :: u64) = 4096 * j"
    using assms(2) by (subst unat_mult_small) (simp_all add: unat_of_nat_small)
  show u: "unat (ktable kpt j) = unat kpt + 4096 * j"
    unfolding ktable_def using o lt assms(2) by (subst unat_add_small) simp_all
  show "page_aligned (ktable kpt j)" using assms(1) u by (simp add: ktables_in_def page_aligned_iff)
  show "ktable kpt j < 0x100000000" "KERNEL_START_ADDR \<le> ktable kpt j" "ktable kpt j < KERNEL_STACK_TOP"
    using u lt top assms(2) by (simp_all add: word_less_nat_alt word_le_nat_alt)
  have "unat (ktable kpt j + PAGESIZE) = unat kpt + 4096 * j + 4096" using u lt assms(2) by (subst unat_add_small) simp_all
  then show "ktable kpt j + PAGESIZE \<le> kpt + 5 * PAGESIZE"
    using \<open>unat (kpt + 5 * PAGESIZE) = unat kpt + 0x5000\<close> assms(2) by (simp add: word_le_nat_alt)
qed

lemma ktable_inj: "ktables_in kpt \<Longrightarrow> j < 5 \<Longrightarrow> j' < 5 \<Longrightarrow> ktable kpt j = ktable kpt j' \<longleftrightarrow> j = j'"
  unfolding word_unat_eq_iff [of "ktable kpt j"] ktable_page(1) by simp

text \<open>The initial stores.\<close>

lemma ktable_store:
  assumes "ktables_in kpt" "j < 5" "i < 512" "j' < 5" "i' < 512"
  shows "ld64 (st64 m (entry_addr (ktable kpt j') i') v) (entry_addr (ktable kpt j) i) =
    (if j = j' \<and> i = i' then v else ld64 m (entry_addr (ktable kpt j) i))"
  using assms ktable_page(2) ktable_inj by (auto simp: ld64_st64_entry)

lemma ktable_cleared:
  assumes "ktables_in kpt" "j < 5" "i < 512"
  shows "ld64 (memset m kpt 0 (5 * PAGESIZE)) (entry_addr (ktable kpt j) i) = 0"
proof (rule ld64_zero_page)
  fix a assume a: "page_base a = ktable kpt j"
  note kp = ktable_page [OF assms(1,2)]
  have "unat a div 4096 * 4096 = unat kpt + 4096 * j" using a kp(1) unat_page_base [of a] by simp
  then have b: "unat kpt + 4096 * j \<le> unat a" "unat a < unat kpt + 4096 * j + 4096" by linarith+
  then have "unat (a - kpt) < 5 * 4096" using assms(2) by (subst unat_sub_le) (simp_all add: word_le_nat_alt)
  then show "memset m kpt 0 (5 * PAGESIZE) a = 0" by (simp add: memset_apply)
qed (use assms ktable_page in auto)

lemma kernel_tables_ktables:
  assumes "ktables_in kpt"
  shows "ktables kpt (\<lambda>_. 0) (kernel_tables kpt m)"
  unfolding ktables_def
proof (intro conjI allI impI)
  fix j i :: nat assume ji: "j < 5" "i < 512"
  have "kernel_tables kpt m = (let m = memset m kpt 0 (5 * PAGESIZE);
          m = st64 m (entry_addr (ktable kpt 0) 0) (link_entry (ktable kpt 1));
          m = st64 m (entry_addr (ktable kpt 1) 0) (link_entry (ktable kpt 2));
          m = st64 m (entry_addr (ktable kpt 2) 0) (link_entry (ktable kpt 3));
          m = st64 m (entry_addr (ktable kpt 2) 1) (link_entry (ktable kpt 4));
          m = st64 m (entry_addr (ktable kpt 1) 1) (push_bit 30 1 OR PTE_P OR PTE_W OR PTE_PS);
          m = st64 m (entry_addr (ktable kpt 1) 2) (push_bit 30 2 OR PTE_P OR PTE_W OR PTE_PS)
      in st64 m (entry_addr (ktable kpt 1) 3) (push_bit 30 3 OR PTE_P OR PTE_W OR PTE_PS))"
    by (simp add: kernel_tables_def ktable_simps)
  then have "ld64 (kernel_tables kpt m) (entry_addr (ktable kpt j) i) =
    (if j = 1 \<and> i = 3 then push_bit 30 3 OR PTE_P OR PTE_W OR PTE_PS
     else if j = 1 \<and> i = 2 then push_bit 30 2 OR PTE_P OR PTE_W OR PTE_PS
     else if j = 1 \<and> i = 1 then push_bit 30 1 OR PTE_P OR PTE_W OR PTE_PS
     else if j = 2 \<and> i = 1 then link_entry (ktable kpt 4)
     else if j = 2 \<and> i = 0 then link_entry (ktable kpt 3)
     else if j = 1 \<and> i = 0 then link_entry (ktable kpt 2)
     else if j = 0 \<and> i = 0 then link_entry (ktable kpt 1) else 0)"
    using ji by (simp add: Let_def ktable_store [OF assms] ktable_cleared [OF assms, simplified])
  then show "ld64 (kernel_tables kpt m) (entry_addr (ktable kpt j) i) = ktable_entry kpt (\<lambda>_. 0) j i"
    using ji by (auto simp: ktable_entry_def ktable_simps)
qed (rule assms)

lemma kernel_tables_outside:
  assumes "ktables_in kpt" "unat a < unat kpt \<or> unat kpt + 0x5000 \<le> unat a"
  shows "kernel_tables kpt m a = m a"
proof -
  have pb: "page_base a \<noteq> ktable kpt j" if "j < 5" for j
  proof
    assume e: "page_base a = ktable kpt j"
    have "4096 * (unat a div 4096) = unat kpt + 4096 * j" using e ktable_page(1) [OF assms(1) that] unat_page_base [of a] by simp
    then have "unat kpt + 4096 * j \<le> unat a" "unat a < unat kpt + 4096 * j + 4096" by linarith+
    then show False using assms(2) that by linarith
  qed
  have st: "st64 b (entry_addr (ktable kpt j) i) v a = b a" if "j < 5" "i < 512" for b j i v
    by (rule st64_entry_outside [OF ktable_page(2) [OF assms(1) that(1)] that(2) pb [OF that(1)]])
  have "\<not> unat (a - kpt) < 0x5000"
  proof
    assume "unat (a - kpt) < 0x5000"
    moreover have "unat kpt < 0x80000" using assms(1) by (simp add: ktables_in_def word_less_nat_alt)
    moreover have "unat (kpt + (a - kpt)) = unat kpt + unat (a - kpt)" using calculation by (intro unat_add_small) simp
    ultimately show False using assms(2) by simp
  qed
  then have "memset m kpt 0 (5 * PAGESIZE) a = m a" by (simp add: memset_apply)
  then show ?thesis
    using st [of 0 0] st [of 1 0] st [of 1 1] st [of 1 2] st [of 1 3] st [of 2 0] st [of 2 1] by (simp add: kernel_tables_def ktable_simps)
qed

section \<open>Walks\<close>

lemma ktablesD:
  assumes "ktables kpt f m"
  shows "ktables_in kpt" "\<And>j i. j < 5 \<Longrightarrow> i < 512 \<Longrightarrow> ld64 m (entry_addr (ktable kpt j) i) = ktable_entry kpt f j i"
  using assms by (simp_all add: ktables_def)

lemma ktable_link:
  assumes "ktables_in kpt" "j < 5"
  shows "table_entry (link_entry (ktable kpt j))" "link_entry (ktable kpt j) AND PTE_PAMASK = ktable kpt j"
    "link_entry (ktable kpt j) AND 0xFFF = 7"
  using link_entry_facts [OF ktable_page(2,3) [OF assms]] link_flags [OF ktable_page(2,3) [OF assms]] by blast+

lemma ktable_entry_links:
  "ktable_entry kpt f 0 0 = link_entry (ktable kpt 1)" "ktable_entry kpt f 1 0 = link_entry (ktable kpt 2)"
  "ktable_entry kpt f 2 0 = link_entry (ktable kpt 3)" "ktable_entry kpt f 2 1 = link_entry (ktable kpt 4)"
  "ktable_entry kpt f 3 i = f i" "ktable_entry kpt f 4 i = 0"
  by (simp_all add: ktable_entry_def ktable_simps)

lemma ktable_entry_stops:
  assumes "ktables_in kpt" "table_entry (ktable_entry kpt f j i)" "j < 3"
  shows "i = 0 \<or> j = 2 \<and> i = 1"
proof -
  have "\<not> table_entry 0" "\<not> table_entry 0x40000083" "\<not> table_entry 0x80000083" "\<not> table_entry 0xC0000083"
    by (simp_all add: table_entry_def)
  moreover have "j = 0 \<or> j = 1 \<or> j = 2" using assms(3) by linarith
  ultimately show ?thesis using assms(2) unfolding ktable_entry_def by (elim disjE) (simp_all split: if_splits)
qed

lemma ktables_node:
  assumes k: "ktables kpt f m"
  shows "valid_path p \<Longrightarrow> pt_node m kpt p = Some t \<Longrightarrow>
    p = [] \<and> t = ktable kpt 0 \<or> p = [0] \<and> t = ktable kpt 1 \<or> p = [0, 0] \<and> t = ktable kpt 2
    \<or> p = [0, 0, 0] \<and> t = ktable kpt 3 \<or> p = [1, 0, 0] \<and> t = ktable kpt 4"
proof (induction p arbitrary: t)
  case Nil
  then show ?case by (simp add: ktable_simps)
next
  case (Cons i p)
  then obtain u where u: "pt_node m kpt p = Some u" "table_entry (ld64 m (entry_addr u i))" "t = ld64 m (entry_addr u i) AND PTE_PAMASK"
    by (auto simp: Let_def split: option.splits if_splits)
  have i: "i < 512" "length p \<le> 2" "valid_path p" using Cons.prems by auto
  note kd = ktablesD [OF k] and kl = ktable_link [OF ktablesD(1) [OF k]]
  from Cons.IH [OF i(3) u(1)] i(2) obtain j where j: "j < 3" "u = ktable kpt j"
      "p = [] \<and> j = 0 \<or> p = [0] \<and> j = 1 \<or> p = [0, 0] \<and> j = 2" by fastforce
  have e: "ld64 m (entry_addr u i) = ktable_entry kpt f j i" using kd(2) [of j i] i(1) j(1,2) by simp
  then have "i = 0 \<or> j = 2 \<and> i = 1" using ktable_entry_stops [OF kd(1)] u(2) j(1) by simp
  then show ?case
    using j(3) u(3) e kl(2) [of 1] kl(2) [of 2] kl(2) [of 3] kl(2) [of 4] ktable_entry_links [of kpt f]
    by (elim disjE conjE) simp_all
qed

lemma ktables_low_walk:
  assumes k: "ktables kpt f m" and va: "unat va < 0x200000"
  shows "\<exists>pm. walk m va 3 kpt (- 1) = (0, ktable kpt 3, pm) \<and> 0xFFF AND pm = 7"
proof -
  note kd = ktablesD [OF k] and kl = ktable_link [OF ktablesD(1) [OF k]]
  have ix: "pageindex va 3 = 0" "pageindex va 2 = 0" "pageindex va 1 = 0" using va small_va_indices by blast+
  have e: "ld64 m (entry_addr kpt 0) = link_entry (ktable kpt 1)" "ld64 m (entry_addr (ktable kpt 1) 0) = link_entry (ktable kpt 2)"
    "ld64 m (entry_addr (ktable kpt 2) 0) = link_entry (ktable kpt 3)"
    using kd(2) [of 0 0] kd(2) [of 1 0] kd(2) [of 2 0] ktable_entry_links [of kpt f] by (simp_all add: ktable_simps(1))
  let ?pm = "((- 1 AND link_entry (ktable kpt 1)) AND link_entry (ktable kpt 2)) AND link_entry (ktable kpt 3)"
  have "pageindex va (Suc (Suc (Suc 0))) = 0" "pageindex va (Suc (Suc 0)) = 0" "pageindex va (Suc 0) = 0"
    using ix by (simp_all add: eval_nat_numeral)
  then have "walk m va (Suc (Suc (Suc 0))) kpt (- 1) = (0, ktable kpt 3, ?pm)"
    unfolding walk.simps Let_def by (simp only: e kl [of 1, simplified] kl [of 1] kl [of 2] kl [of 3] if_True)
  moreover have "0xFFF AND ?pm = 7"
  proof -
    have "0xFFF AND ?pm = (link_entry (ktable kpt 1) AND 0xFFF) AND (link_entry (ktable kpt 2) AND 0xFFF) AND (link_entry (ktable kpt 3) AND 0xFFF)"
      by (rule bit_word_eqI) (auto simp: bit_simps)
    then show ?thesis using kl(3) [of 1] kl(3) [of 2] kl(3) [of 3] by simp
  qed
  ultimately show ?thesis by (auto simp: numeral_3_eq_3)
qed

lemma ktables_forest:
  assumes k: "ktables kpt f m"
  shows "forest m {kpt}" "tables m {kpt} = ktable kpt ` {0..<5}"
proof -
  note kd = ktablesD [OF k] and inj = ktable_inj [OF ktablesD(1) [OF k]]
  show "forest m {kpt}"
    unfolding forest_def
  proof (intro conjI ballI allI impI)
    show "page_aligned r" if "r \<in> {kpt}" for r using that kd(1) by (simp add: ktables_in_def)
    fix r r' p p' t assume a: "r \<in> {kpt}" "r' \<in> {kpt}" "valid_path p" "valid_path p'" "pt_node m r p = Some t" "pt_node m r' p' = Some t"
    then show "r = r'" by simp
    have "pt_node m kpt p = Some t" "pt_node m kpt p' = Some t" using a by simp_all
    note n = ktables_node [OF k a(3) this(1)] ktables_node [OF k a(4) this(2)]
    show "p = p'" using n by (elim disjE conjE) (simp_all add: inj)
  qed
  have n0: "pt_node m kpt [] = Some (ktable kpt 0)" by (simp add: ktable_simps)
  have n1: "pt_node m kpt [0] = Some (ktable kpt 1)"
    using kd(2) [of 0 0] ktable_link [OF kd(1), of 1] by (simp add: ktable_entry_links ktable_simps(1))
  have n2: "pt_node m kpt [0, 0] = Some (ktable kpt 2)"
    using n1 kd(2) [of 1 0] ktable_link [OF kd(1), of 2] ktable_entry_links(2) [of kpt f] by simp
  have n3: "pt_node m kpt [0, 0, 0] = Some (ktable kpt 3)" "pt_node m kpt [1, 0, 0] = Some (ktable kpt 4)"
    using n2 kd(2) [of 2 0] kd(2) [of 2 1] ktable_link [OF kd(1), of 3] ktable_link [OF kd(1), of 4] ktable_entry_links(3,4) [of kpt f]
    by simp_all
  have v: "valid_path [0]" "valid_path [0, 0]" "valid_path [0, 0, 0]" "valid_path [1, 0, 0]" by (simp_all add: valid_path_def)
  note tb = tablesI [OF singletonI]
  have "{0..<5} = {0, 1, 2, 3, 4 :: nat}" by auto
  then have "ktable kpt ` {0..<5} \<subseteq> tables m {kpt}"
    using tb [OF valid_path_Nil n0] tb [OF v(1) n1] tb [OF v(2) n2] tb [OF v(3) n3(1)] tb [OF v(4) n3(2)] by simp
  moreover have "t \<in> ktable kpt ` {0..<5}" if "t \<in> tables m {kpt}" for t
  proof -
    from that obtain p where "valid_path p" "pt_node m kpt p = Some t" by (auto simp: tables_def)
    from ktables_node [OF k this] show ?thesis by auto
  qed
  ultimately show "tables m {kpt} = ktable kpt ` {0..<5}" by blast
qed

section \<open>Translation\<close>

definition small_entries :: "(nat \<Rightarrow> u64) \<Rightarrow> bool" where
  "small_entries f \<longleftrightarrow> (\<forall>i < 512. f i AND PTE_PAMASK < 0x100000000)"

lemma ktable_entry_small:
  assumes "ktables_in kpt" "small_entries f" "j < 5" "i < 512"
  shows "ktable_entry kpt f j i AND PTE_PAMASK < 0x100000000"
proof -
  have l: "link_entry (ktable kpt n) AND PTE_PAMASK < 0x100000000" if "n < 5" for n
    using ktable_link(2) [OF assms(1) that] ktable_page(3) [OF assms(1) that] by simp
  have "j = 0 \<or> j = 1 \<or> j = 2 \<or> j = 3 \<or> j = 4" using assms(3) by linarith
  then show ?thesis using assms(2,4) l [of 1] l [of 2] l [of 3] l [of 4]
    unfolding ktable_entry_def small_entries_def by (elim disjE) (simp_all add: ktable_simps)
qed

lemma ktables_walk_end:
  assumes k: "ktables kpt f m" and w: "walk m va 3 kpt (- 1) = (l, t, pm)"
  obtains j where "j < 5" "t = ktable kpt j" "ld64 m (entry_addr t (pageindex va l)) = ktable_entry kpt f j (pageindex va l)"
    "vpath va l = [] \<and> j = 0 \<or> vpath va l = [0] \<and> j = 1 \<or> vpath va l = [0, 0] \<and> j = 2 \<or> vpath va l = [0, 0, 0] \<and> j = 3
     \<or> vpath va l = [1, 0, 0] \<and> j = 4"
proof -
  have "pt_node m kpt (vpath va l) = Some t" using walk_top_node [OF w] by blast
  from ktables_node [OF k valid_vpath this] obtain j where j: "j < 5" "t = ktable kpt j"
      "vpath va l = [] \<and> j = 0 \<or> vpath va l = [0] \<and> j = 1 \<or> vpath va l = [0, 0] \<and> j = 2 \<or> vpath va l = [0, 0, 0] \<and> j = 3
       \<or> vpath va l = [1, 0, 0] \<and> j = 4"
    by (elim disjE conjE) (fastforce+)
  then show thesis using that ktablesD(2) [OF k, of j "pageindex va l"] by simp
qed

lemma ktables_iter_ok:
  assumes k: "ktables kpt f m" and sm: "small_entries f"
  shows "iter_ok m kpt"
  unfolding iter_ok_def checked_def
proof (intro allI)
  fix va
  have "deref m (vm_pep (fresh_iter m kpt va)) AND PTE_PAMASK < 0x100000000"
  proof (cases "va_is_canonical va")
    case True
    obtain l t pm where w: "walk m va 3 kpt (- 1) = (l, t, pm)" by (cases "walk m va 3 kpt (- 1)")
    from ktables_walk_end [OF k w] obtain j where "j < 5" "ld64 m (entry_addr t (pageindex va l)) = ktable_entry kpt f j (pageindex va l)" .
    then show ?thesis using leaf_fresh(1) [OF True w] ktable_entry_small [OF ktablesD(1) [OF k] sm, of j] by simp
  qed (simp add: fresh_iter_def)
  then show "(if deref m (vm_pep (fresh_iter m kpt va)) AND PTE_PAMASK \<ge> 0x100000000 then Inl Panic else Inr (fresh_iter m kpt va))
      = Inr (fresh_iter m kpt va)" by (simp add: linorder_not_le)
qed

lemma ktables_low_translate:
  assumes k: "ktables kpt f m" and va: "unat va < 0x200000"
  shows "translate m kpt va = leaf_result (f (unat va div 4096)) va"
proof -
  obtain pm where w: "walk m va 3 kpt (- 1) = (0, ktable kpt 3, pm)" "0xFFF AND pm = 7" using ktables_low_walk [OF assms] by blast
  have i: "pageindex va 0 = unat va div 4096" "unat va div 4096 < 512" using va by (simp_all add: pageindex_div div_less_iff_less_mult)
  have c: "va_is_canonical va" using va small_va_indices by blast
  have e: "ld64 m (entry_addr (ktable kpt 3) (unat va div 4096)) = f (unat va div 4096)"
    using ktablesD(2) [OF k, of 3 "unat va div 4096"] i(2) by (simp add: ktable_entry_links)
  have off: "pageoffset va 0 = va AND PAGEOFFMASK" by (simp add: pageoffset_def pageoffmask_def push_bit_eq_mult)
  have "0xFFF AND pm AND f (unat va div 4096) = f (unat va div 4096) AND 7" 
    unfolding and.assoc [symmetric] w(2) by (rule and.commute)
  then show ?thesis using c w(1) e i(1) by (simp add: translate_walk leaf_lookup_def leaf_result_def page_result_def off Let_def)
qed

lemma ktables_high_translate:
  assumes k: "ktables kpt f m" and va: "0x200000 \<le> unat va" and t: "translate m kpt va = Some (pa, perm)"
  shows "\<not> is_user perm"
proof -
  note kd = ktablesD [OF k]
  from t obtain l u pm where c: "va_is_canonical va" and w: "walk m va 3 kpt (- 1) = (l, u, pm)"
      and e: "ld64 m (entry_addr u (pageindex va l)) AND PTE_P \<noteq> 0"
      "(pa, perm) = page_result l (ld64 m (entry_addr u (pageindex va l))) va pm"
    by (auto simp: translate_walk leaf_lookup_def Let_def split: if_splits prod.splits)
  from ktables_walk_end [OF k w] obtain j where j: "j < 5" "ld64 m (entry_addr u (pageindex va l)) = ktable_entry kpt f j (pageindex va l)"
    "vpath va l = [] \<and> j = 0 \<or> vpath va l = [0] \<and> j = 1 \<or> vpath va l = [0, 0] \<and> j = 2 \<or> vpath va l = [0, 0, 0] \<and> j = 3
     \<or> vpath va l = [1, 0, 0] \<and> j = 4" .
  let ?e = "ktable_entry kpt f j (pageindex va l)"
  have len: "length (vpath va l) = 3 - l" "l \<le> 3" using walk_top_node [OF w] by simp_all
  have "length (vpath va l) = j \<or> j = 4" using j(3) by (elim disjE conjE) (simp_all only: list.size, simp_all)
  then have l: "l = 3 - j \<or> j = 4" "l \<le> 3" using len by auto
  have nt: "\<not> table_entry ?e" if "l > 0" using walk_top_node [OF w] that j(2) by metis
  have "j \<noteq> 3"
  proof
    assume "j = 3"
    then have "l = 0" "vpath va 0 = [0, 0, 0]" using l j(3) by auto
    then have "pageindex va 1 = 0 \<and> pageindex va 2 = 0 \<and> pageindex va 3 = 0" by (simp add: vpath_def upt_rec numeral_2_eq_2 numeral_3_eq_3)
    then show False using c va small_va_indices [of va] by simp
  qed
  moreover have "j \<noteq> 4" using e(1) j(2) by (auto simp: ktable_entry_links)
  ultimately have j3: "j = 0 \<or> j = 1 \<or> j = 2" using j(1) by linarith
  then have "l > 0" using l by auto
  have "?e \<in> {0x40000083, 0x80000083, 0xC0000083}"
    using j3 nt [OF \<open>l > 0\<close>] e(1) j(2) ktable_link(1) [OF kd(1), of 1] ktable_link(1) [OF kd(1), of 2] ktable_link(1) [OF kd(1), of 3]
      ktable_link(1) [OF kd(1), of 4]
    unfolding ktable_entry_def by (elim disjE) (simp_all add: ktable_simps split: if_splits)
  then have "?e AND 4 = 0" by auto
  moreover have "perm = 0xFFF AND pm AND ?e" using e(2) j(2) by (simp add: page_result_def)
  ultimately have "perm AND 4 = 0" by (simp add: and.assoc)
  show ?thesis
  proof
    assume "is_user perm"
    then have "(perm AND 5) AND 4 = 4" by (simp add: is_user_def)
    then show False using \<open>perm AND 4 = 0\<close> by (simp add: and.assoc)
  qed
qed

section \<open>The loops\<close>

definition page_va :: "nat \<Rightarrow> u64" where
  "page_va i = of_nat (4096 * i)"

lemma page_va_unat: "i \<le> 0x10000 \<Longrightarrow> unat (page_va i) = 4096 * i"
  unfolding page_va_def by (intro unat_of_nat_small) simp

lemma page_va_props:
  assumes "i \<le> 512"
  shows "page_aligned (page_va i)" "page_va i < 0x100000000" "page_va i + PAGESIZE = page_va (Suc i)"
    "page_va i = push_bit 12 (of_nat i)" "page_va i < MEMSIZE_PHYSICAL \<longleftrightarrow> i < 512" "page_va i = 0 \<longleftrightarrow> i = 0"
proof -
  have u: "unat (page_va i) = 4096 * i" using assms by (simp add: page_va_unat)
  show "page_aligned (page_va i)" by (simp add: page_aligned_iff u)
  show "page_va i < 0x100000000" "page_va i < MEMSIZE_PHYSICAL \<longleftrightarrow> i < 512" using assms u by (auto simp: word_less_nat_alt)
  show "page_va i + PAGESIZE = page_va (Suc i)" by (simp add: page_va_def)
  show "page_va i = push_bit 12 (of_nat i)" by (simp add: page_va_def push_bit_eq_mult)
  show "page_va i = 0 \<longleftrightarrow> i = 0" using u unat_eq_0 [of "page_va i"] by auto
qed

lemma low_iter:
  assumes k: "ktables kpt f m" and i: "i < 512"
  shows "vm_level (fresh_iter m kpt (page_va i)) = 0" "vm_pep (fresh_iter m kpt (page_va i)) = Pe (entry_addr (ktable kpt 3) i)"
    "vm_perm (fresh_iter m kpt (page_va i)) = 7" "vm_va (fresh_iter m kpt (page_va i)) = page_va i"
proof -
  have u: "unat (page_va i) = 4096 * i" using i by (simp add: page_va_unat)
  then have lt: "unat (page_va i) < 0x200000" using i by simp
  obtain pm where w: "walk m (page_va i) 3 kpt (- 1) = (0, ktable kpt 3, pm)" "0xFFF AND pm = 7" using ktables_low_walk [OF k lt] by blast
  have c: "va_is_canonical (page_va i)" using lt small_va_indices by blast
  have "pageindex (page_va i) 0 = i" using i by (simp add: pageindex_div u)
  then show "vm_level (fresh_iter m kpt (page_va i)) = 0" "vm_pep (fresh_iter m kpt (page_va i)) = Pe (entry_addr (ktable kpt 3) i)"
    "vm_perm (fresh_iter m kpt (page_va i)) = 7" "vm_va (fresh_iter m kpt (page_va i)) = page_va i"
    using c w by (simp_all add: fresh_iter_def)
qed

lemma ktables_set:
  assumes k: "ktables kpt f m" and i: "i < 512"
  shows "ktables kpt (f(i := v)) (st64 m (entry_addr (ktable kpt 3) i) v)"
  unfolding ktables_def
proof (intro conjI allI impI)
  note kd = ktablesD [OF k]
  show "ktables_in kpt" by (rule kd(1))
  fix j i' :: nat assume j: "j < 5" "i' < 512"
  have "ld64 (st64 m (entry_addr (ktable kpt 3) i) v) (entry_addr (ktable kpt j) i')
      = (if j = 3 \<and> i' = i then v else ktable_entry kpt f j i')"
    using ktable_store [OF kd(1) j, of 3 i] i kd(2) [OF j] by simp
  then show "ld64 (st64 m (entry_addr (ktable kpt 3) i) v) (entry_addr (ktable kpt j) i') = ktable_entry kpt (f(i := v)) j i'"
    by (auto simp: ktable_entry_def)
qed

lemma low_map:
  assumes k: "ktables kpt f (bytes s)" and i: "i < 512" and p: "p = 3 \<or> p = 7"
  shows "vm_map al (fresh_iter (bytes s) kpt (page_va i)) (page_va i) p s =
      Inr (fresh_iter (bytes s) kpt (page_va i),
           s\<lparr>bytes := st64 (bytes s) (entry_addr (ktable kpt 3) i) (ident_flags (scast p) i)\<rparr>)"
proof -
  note li = low_iter [OF k i] and pv = page_va_props [of i]
  have g: "page_va i AND PAGEOFFMASK = 0" "page_va i AND PTE_PAMASK = page_va i" "page_va i \<noteq> - 1"
    using pv i aligned_small_pamask [of "page_va i"] by (auto simp: page_aligned_def)
  have q: "scast p AND PTE_P \<noteq> (0 :: u64)" "scast (p AND NOT 7) AND (PTE_P OR PTE_W OR PTE_U) = (0 :: u64)" using p by auto
  have "ident_flags (scast p) i = page_va i OR scast p" using pv(4) i by (simp add: ident_flags_def)
  then show ?thesis using li g q by (simp add: vm_map_def try_map_def try_map_loop.simps Let_def)
qed

lemma low_next:
  assumes k: "ktables kpt f m" and sm: "small_entries f" and i: "i < 512"
  shows "vm_plus m (fresh_iter m kpt (page_va i)) PAGESIZE = Inr (fresh_iter m kpt (page_va (Suc i)))"
proof -
  have "page_aligned kpt" using ktablesD(1) [OF k] by (simp add: ktables_in_def)
  then show ?thesis
    using real_find_fresh [of kpt m "page_va i" "page_va (Suc i)"] ktables_iter_ok [OF k sm] low_iter(4) [OF k i] page_va_props(3) [of i] i
    by (simp add: vm_plus_def vm_find_def iter_ok_def)
qed

lemma ident_flags_3_7_small: "p = 3 \<or> p = 7 \<Longrightarrow> i < 512 \<Longrightarrow> ident_flags (scast (p :: u32)) i AND PTE_PAMASK < 0x100000000"
  by (rule ident_flags_small) auto

text \<open>One step of either loop, and what the rest of the loop keeps.\<close>

lemma low_step:
  assumes k: "ktables kpt f (bytes s)" and sm: "small_entries f" and i: "i < 512" and p: "p = 3 \<or> p = 7"
    and s': "s' = s\<lparr>bytes := st64 (bytes s) (entry_addr (ktable kpt 3) i) (ident_flags (scast p) i)\<rparr>"
  shows "vm_map al (fresh_iter (bytes s) kpt (page_va i)) (page_va i) p s = Inr (fresh_iter (bytes s') kpt (page_va i), s')"
    "ktables kpt (f(i := ident_flags (scast p) i)) (bytes s')" "small_entries (f(i := ident_flags (scast p) i))"
    "\<And>a. page_base a \<noteq> ktable kpt 3 \<Longrightarrow> bytes s' a = bytes s a" "pages s' = pages s"
proof -
  show k': "ktables kpt (f(i := ident_flags (scast p) i)) (bytes s')" using ktables_set [OF k i] by (simp add: s')
  have "fresh_iter (bytes s') kpt (page_va i) = fresh_iter (bytes s) kpt (page_va i)"
    using low_iter [OF k i] low_iter [OF k' i] by (intro vmiter.equality) (simp_all add: fresh_iter_def split: prod.split)
  then show "vm_map al (fresh_iter (bytes s) kpt (page_va i)) (page_va i) p s = Inr (fresh_iter (bytes s') kpt (page_va i), s')"
    using low_map [OF k i p] by (simp add: s')
  show "small_entries (f(i := ident_flags (scast p) i))" using sm ident_flags_3_7_small [OF p] by (simp add: small_entries_def)
  show "bytes s' a = bytes s a" if "page_base a \<noteq> ktable kpt 3" for a
    using st64_entry_outside [OF ktable_page(2) [OF ktablesD(1) [OF k], of 3] i that] by (simp add: s')
qed (simp add: s')

lemma init_map_loop_run:
  assumes "ktables kpt f (bytes s)" "small_entries f" "i \<le> 512"
  shows "\<exists>s'. init_map_loop ke (fresh_iter (bytes s) kpt (page_va i)) s = Inr s'
    \<and> ktables kpt (\<lambda>j. if i \<le> j \<and> j < 512 \<and> j \<noteq> 0 then ident_flags 7 j else f j) (bytes s')
    \<and> (\<forall>a. page_base a \<noteq> ktable kpt 3 \<longrightarrow> bytes s' a = bytes s a) \<and> pages s' = pages s"
  using assms
proof (induction "512 - i" arbitrary: i f s)
  case 0
  then have i: "i = 512" by simp
  have "vm_va (fresh_iter (bytes s) kpt (page_va 512)) = page_va 512" by (simp add: fresh_iter_def split: prod.split)
  then have "init_map_loop ke (fresh_iter (bytes s) kpt (page_va i)) s = Inr s"
    using i page_va_props(5) [of 512] by (subst init_map_loop.simps) simp
  moreover have "(\<lambda>j. if i \<le> j \<and> j < 512 \<and> j \<noteq> 0 then ident_flags 7 j else f j) = f" using i by (intro ext if_not_P) linarith
  ultimately show ?case using 0 by simp
next
  case (Suc n)
  then have i: "i < 512" "n = 512 - Suc i" "Suc i \<le> 512" by auto
  note li = low_iter(4) [OF Suc.prems(1) i(1)] and pv = page_va_props(5,6) [OF Suc.prems(3)]
  define s1 where "s1 = s\<lparr>bytes := st64 (bytes s) (entry_addr (ktable kpt 3) i) (ident_flags (scast (7 :: u32)) i)\<rparr>"
  note ls = low_step [OF Suc.prems(1,2) i(1) disjI2 [OF refl] s1_def]
  show ?case
  proof (cases "i = 0")
    case True
    have "init_map_loop ke (fresh_iter (bytes s) kpt (page_va i)) s = init_map_loop ke (fresh_iter (bytes s) kpt (page_va (Suc i))) s"
      using True i(1) li pv low_next [OF Suc.prems(1,2) i(1)]
      by (subst init_map_loop.simps) simp
    moreover have "(\<lambda>j. if Suc i \<le> j \<and> j < 512 \<and> j \<noteq> 0 then ident_flags 7 j else f j)
        = (\<lambda>j. if i \<le> j \<and> j < 512 \<and> j \<noteq> 0 then ident_flags 7 j else f j)" using True by auto
    ultimately show ?thesis using Suc.hyps(1) [OF i(2) Suc.prems(1,2) i(3)] by simp
  next
    case False
    have "init_map_loop ke (fresh_iter (bytes s) kpt (page_va i)) s = init_map_loop ke (fresh_iter (bytes s1) kpt (page_va (Suc i))) s1"
      using False i(1) li pv ls(1) low_next [OF ls(2,3) i(1)]
      by (subst init_map_loop.simps) simp
    moreover have "(\<lambda>j. if Suc i \<le> j \<and> j < 512 \<and> j \<noteq> 0 then ident_flags 7 j else (f(i := ident_flags (scast (7 :: u32)) i)) j)
        = (\<lambda>j. if i \<le> j \<and> j < 512 \<and> j \<noteq> 0 then ident_flags 7 j else f j)"
    proof
      fix j
      have "scast (7 :: u32) = (7 :: u64)" by simp
      then show "(if Suc i \<le> j \<and> j < 512 \<and> j \<noteq> 0 then ident_flags 7 j else (f(i := ident_flags (scast (7 :: u32)) i)) j)
          = (if i \<le> j \<and> j < 512 \<and> j \<noteq> 0 then ident_flags 7 j else f j)" using False i(1) by (cases "j = i") auto
    qed
    ultimately show ?thesis using Suc.hyps(1) [OF i(2) ls(2,3) i(3)] ls(4,5) by simp
  qed
qed

definition kernel_page_perm :: "nat \<Rightarrow> u64" where
  "kernel_page_perm i = (if i < 256 \<and> i \<noteq> 0xB8 then 3 else 7)"

lemma kernel_perm_page: "i < 512 \<Longrightarrow> kernel_perm (page_va i) = kernel_page_perm i"
proof -
  assume "i < 512"
  then have u: "unat (page_va i) = 4096 * i" by (simp add: page_va_unat)
  have "page_va i < PROC_START_ADDR \<longleftrightarrow> i < 256" "page_va i = CONSOLE_ADDR \<longleftrightarrow> i = 0xB8" "page_va i \<noteq> 0 \<longleftrightarrow> i \<noteq> 0"
    using u by (auto simp: word_less_nat_alt word_unat_eq_iff)
  then show ?thesis by (auto simp: kernel_perm_def kernel_page_perm_def)
qed

lemma kernel_map_loop_run:
  assumes "ktables kpt f (bytes s)" "small_entries f" "i \<le> 512"
  shows "\<exists>s'. kernel_map_loop ke (fresh_iter (bytes s) kpt (page_va i)) s = Inr s'
    \<and> ktables kpt (\<lambda>j. if i \<le> j \<and> j < 512 then ident_flags (kernel_page_perm j) j else f j) (bytes s')
    \<and> (\<forall>a. page_base a \<noteq> ktable kpt 3 \<longrightarrow> bytes s' a = bytes s a) \<and> pages s' = pages s"
  using assms
proof (induction "512 - i" arbitrary: i f s)
  case 0
  then have i: "i = 512" by simp
  have "vm_va (fresh_iter (bytes s) kpt (page_va 512)) = page_va 512" by (simp add: fresh_iter_def split: prod.split)
  then have "kernel_map_loop ke (fresh_iter (bytes s) kpt (page_va i)) s = Inr s"
    using i page_va_props(5) [of 512] by (subst kernel_map_loop.simps) simp
  moreover have "(\<lambda>j. if i \<le> j \<and> j < 512 then ident_flags (kernel_page_perm j) j else f j) = f" using i by (intro ext if_not_P) linarith
  ultimately show ?case using 0 by simp
next
  case (Suc n)
  then have i: "i < 512" "n = 512 - Suc i" "Suc i \<le> 512" by auto
  let ?p = "ucast (kernel_page_perm i) :: u32"
  have p: "?p = 3 \<or> ?p = 7" "scast ?p = kernel_page_perm i" by (simp_all add: kernel_page_perm_def)
  note li = low_iter(4) [OF Suc.prems(1) i(1)] and pv = page_va_props(5) [OF Suc.prems(3)]
  define s1 where "s1 = s\<lparr>bytes := st64 (bytes s) (entry_addr (ktable kpt 3) i) (ident_flags (scast ?p) i)\<rparr>"
  note ls = low_step [OF Suc.prems(1,2) i(1) p(1) s1_def]
  have "kernel_map_loop ke (fresh_iter (bytes s) kpt (page_va i)) s = kernel_map_loop ke (fresh_iter (bytes s1) kpt (page_va (Suc i))) s1"
    using i(1) li pv ls(1) low_next [OF ls(2,3) i(1)] kernel_perm_page [OF i(1)]
    by (subst kernel_map_loop.simps) simp
  moreover have "(\<lambda>j. if Suc i \<le> j \<and> j < 512 then ident_flags (kernel_page_perm j) j else (f(i := ident_flags (scast ?p) i)) j)
      = (\<lambda>j. if i \<le> j \<and> j < 512 then ident_flags (kernel_page_perm j) j else f j)" using i(1) p(2) by auto
  ultimately show ?case using Suc.hyps(1) [OF i(2) ls(2,3) i(3)] ls(4,5) by simp
qed

section \<open>The finished table\<close>

text \<open>The entries that \<open>kernel\<close> leaves in the table of the first two megabytes.\<close>

abbreviation kernel_entries :: "nat \<Rightarrow> u64" where
  "kernel_entries i \<equiv> ident_flags (kernel_page_perm i) i"

definition kernel_map :: "addr \<Rightarrow> mem \<Rightarrow> bool" where
  "kernel_map kpt m \<longleftrightarrow>
     (\<forall>va. if va < MEMSIZE_PHYSICAL then translate m kpt va = Some (va, kernel_page_perm (unat va div 4096))
       else \<forall>pa perm. translate m kpt va = Some (pa, perm) \<longrightarrow> \<not> is_user perm)"

lemma kernel_page_perm_cases: "kernel_page_perm i = 3 \<or> kernel_page_perm i = 5 \<or> kernel_page_perm i = 7"
  by (simp add: kernel_page_perm_def)

lemma ktables_kernel_map:
  assumes k: "ktables kpt kernel_entries m"
  shows "kernel_map kpt m"
  unfolding kernel_map_def
proof (intro allI)
  fix va :: u64
  show "if va < MEMSIZE_PHYSICAL then translate m kpt va = Some (va, kernel_page_perm (unat va div 4096))
       else \<forall>pa perm. translate m kpt va = Some (pa, perm) \<longrightarrow> \<not> is_user perm"
  proof (cases "va < MEMSIZE_PHYSICAL")
    case True
    then have lt: "unat va < 0x200000" by (simp add: word_less_nat_alt)
    then have "unat va div 4096 < 512" by (simp add: div_less_iff_less_mult)
    then have "leaf_result (kernel_entries (unat va div 4096)) va = Some (va, kernel_page_perm (unat va div 4096))"
      by (rule ident_leaf [OF _ kernel_page_perm_cases refl])
    then show ?thesis using True ktables_low_translate [OF k lt] by simp
  next
    case False
    then have "0x200000 \<le> unat va" by (simp add: word_less_nat_alt)
    then show ?thesis using False ktables_high_translate [OF k] by auto
  qed
qed

lemma kernel_entries_small: "small_entries kernel_entries"
  using kernel_page_perm_cases by (auto simp: small_entries_def intro!: ident_flags_small)

lemma and_three_five: "(3 :: u64) AND (PTE_P OR PTE_U) \<noteq> PTE_P OR PTE_U"
  by simp

lemma kernel_map_user:
  assumes "kernel_map kpt m" "user_map m kpt va q False"
  shows "q = CONSOLE_ADDR \<or> PROC_START_ADDR \<le> q \<and> q < MEMSIZE_PHYSICAL"
proof (cases "va < MEMSIZE_PHYSICAL")
  case True
  let ?i = "unat va div 4096"
  have t: "translate m kpt va = Some (va, kernel_page_perm ?i)" using assms(1) True by (simp add: kernel_map_def)
  have lt: "?i < 512" using True by (simp add: word_less_nat_alt div_less_iff_less_mult)
  have q: "unat q = 4096 * ?i" "is_user (kernel_page_perm ?i)" using assms(2) t by (auto simp: user_map_def unat_page_base)
  have "\<not> (?i < 256 \<and> ?i \<noteq> 0xB8)"
  proof
    assume "?i < 256 \<and> ?i \<noteq> 0xB8"
    then have "kernel_page_perm ?i = 3" by (simp add: kernel_page_perm_def)
    then show False using q(2) and_three_five by (simp add: is_user_def)
  qed
  then show ?thesis using q(1) lt by (auto simp: word_unat_eq_iff word_le_nat_alt word_less_nat_alt)
next
  case False
  then have "\<forall>pa perm. translate m kpt va = Some (pa, perm) \<longrightarrow> \<not> is_user perm" using assms(1) unfolding kernel_map_def by metis
  then show ?thesis using assms(2) by (auto simp: user_map_def)
qed

lemma ktables_kpt_ok:
  assumes k: "ktables kpt kernel_entries m"
  shows "kpt_ok m kpt"
  unfolding kpt_ok_def
proof (intro conjI ballI allI impI)
  note km = ktables_kernel_map [OF k] and kd = ktablesD [OF k]
  show "iter_ok m kpt" by (rule ktables_iter_ok [OF k kernel_entries_small])
  show "t < PROC_START_ADDR" "t \<noteq> CONSOLE_ADDR" if "t \<in> tables m {kpt}" for t
  proof -
    from that obtain j where j: "j < 5" "t = ktable kpt j" using ktables_forest(2) [OF k] by auto
    have "unat t < 0x80000" using ktable_page(5) [OF kd(1) j(1)] j(2) by (simp add: word_less_nat_alt)
    then show "t < PROC_START_ADDR" "t \<noteq> CONSOLE_ADDR" by (auto simp: word_less_nat_alt)
  qed
  show "\<exists>perm. translate m kpt va = Some (va, perm)" if "va < MEMSIZE_PHYSICAL" for va
    using km that by (simp add: kernel_map_def)
  show "q = CONSOLE_ADDR \<or> PROC_START_ADDR \<le> q \<and> q < MEMSIZE_PHYSICAL" if "user_map m kpt va q False" for va q
    by (rule kernel_map_user [OF km that])
qed

text \<open>None of the five pages can be allocated.\<close>

lemma ktable_not_avail:
  assumes "ktables_in kpt" "kpt + 5 * PAGESIZE \<le> ke" "ke \<le> KERNEL_STACK_TOP" "j < 5"
  shows "\<not> allocatable_physical_address ke (ktable kpt j)"
proof -
  note kp = ktable_page [OF assms(1,4)]
  have ke: "unat ke \<le> 0x80000" "unat (ktable kpt j) < unat ke"
  proof -
    show "unat ke \<le> 0x80000" using assms(3) by (simp add: word_le_nat_alt)
    have "unat (ktable kpt j) < 0x80000" using kp(5) by (simp add: word_less_nat_alt)
    then have "unat (ktable kpt j + PAGESIZE) = unat (ktable kpt j) + 4096" by (subst unat_add_small) simp_all
    then show "unat (ktable kpt j) < unat ke" using order_trans [OF kp(6) assms(2)] by (simp add: word_le_nat_alt)
  qed
  have "unat (round_up ke (ucast PAGESIZE)) = (unat ke + 4095) - (unat ke + 4095) mod 4096"
  proof -
    have "unat (round_up ke (ucast PAGESIZE)) = (unat ke + 4096 - 1) - (unat ke + 4096 - 1) mod 4096"
      using unat_round_up [of "ucast PAGESIZE" ke] ke(1) by simp
    moreover have "unat ke + 4096 - 1 = unat ke + 4095" by simp
    ultimately show ?thesis by (simp only:)
  qed
  moreover have "(unat ke + 4095) mod 4096 \<le> 4095" using mod_less_divisor [of 4096 "unat ke + 4095"] by linarith
  ultimately have "ktable kpt j < round_up ke (ucast PAGESIZE)" using ke(2) unfolding word_less_nat_alt by linarith
  then show ?thesis using kp(4) by (auto simp: allocatable_physical_address_def)
qed

end
