(* ===== verification/Setup_Space.thy ===== *)
theory Setup_Space
  imports Execution Boot_Table
begin

text \<open>
  Building an address space at boot time: the allocator hands out the pages of a free range one after
  the other, a new page table takes few of them, and the mappings of a process under construction are
  described by a partial function on page numbers.
\<close>

section \<open>A range of free pages\<close>

text \<open>The pages \<open>n\<close> to \<open>N - 1\<close> are free, and no page below them.\<close>

definition free_run :: "addr \<Rightarrow> nat \<Rightarrow> nat \<Rightarrow> kmem \<Rightarrow> bool" where
  "free_run ke n N s \<longleftrightarrow>
     n \<le> N \<and> N \<le> 512 \<and> (\<forall>i. n \<le> i \<and> i < N \<longrightarrow> page_va i \<in> avail ke s) \<and> (\<forall>q \<in> avail ke s. page_va n \<le> q)"

lemma page_va_inj: "i \<le> 512 \<Longrightarrow> j \<le> 512 \<Longrightarrow> page_va i = page_va j \<longleftrightarrow> i = j"
  by (simp add: word_unat_eq_iff page_va_unat)

lemma free_run_pages: "pages s' = pages s \<Longrightarrow> free_run ke n N s' = free_run ke n N s"
  by (simp add: free_run_def avail_def)

lemma free_run_alloc:
  assumes "free_run ke n N s" "n < N"
  shows "kalloc ke PAGESIZE s = (page_va n, claim_page (page_va n) s)" "page_va n \<noteq> 0" "page_va n \<in> avail ke s"
    "free_run ke (Suc n) N (claim_page (page_va n) s)"
proof -
  have N: "N \<le> 512" and free: "\<And>i. n \<le> i \<Longrightarrow> i < N \<Longrightarrow> page_va i \<in> avail ke s" and low: "\<And>q. q \<in> avail ke s \<Longrightarrow> page_va n \<le> q"
    using assms(1) by (auto simp: free_run_def)
  show n: "page_va n \<in> avail ke s" using free assms(2) by simp
  then show "page_va n \<noteq> 0" using zero_not_avail by metis
  show "kalloc ke PAGESIZE s = (page_va n, claim_page (page_va n) s)"
  proof (cases rule: kalloc_cases [OF order_refl, of ke s])
    case (2 p)
    then have "p = page_va n" using n low by force
    then show ?thesis using 2 by simp
  qed (use n in auto)
  note av = avail_claim_page [OF n]
  have "page_va i \<in> avail ke (claim_page (page_va n) s)" if "Suc n \<le> i" "i < N" for i
    using free [of i] that page_va_inj [of i n] N av by simp
  moreover have "page_va (Suc n) \<le> q" if q: "q \<in> avail ke (claim_page (page_va n) s)" for q
  proof (rule ccontr)
    assume "\<not> page_va (Suc n) \<le> q"
    then have "q < page_va n + PAGESIZE" using page_va_props(3) [of n] assms(2) N by simp
    moreover have "page_va n < MEMSIZE_PHYSICAL" using n by (rule avail_below)
    ultimately have "q \<le> page_va n"
      using page_aligned_next(2) [of "page_va n" q] avail_aligned [OF n] q av by (auto dest: avail_aligned)
    then show False using low [of q] q av by auto
  qed
  ultimately show "free_run ke (Suc n) N (claim_page (page_va n) s)" using assms(2) N by (simp add: free_run_def)
qed

text \<open>The loop of \<open>try_map\<close> takes at most as many pages as the level of the iterator says.\<close>

lemma try_map_loop_takes:
  assumes "try_map_loop al perm it s = Inr (rc, it', s')" "al = kalloc ke PAGESIZE" "free_run ke n N s" "n + vm_level it \<le> N"
  shows "rc = 0 \<and> (\<exists>n'. n \<le> n' \<and> n' \<le> n + vm_level it \<and> free_run ke n' N s')"
  using assms
proof (induction al perm it s arbitrary: n rc it' s' rule: try_map_loop.induct)
  case (1 al perm it s)
  show ?case
  proof (cases "vm_level it > 0 \<and> perm \<noteq> 0")
    case False
    then have "try_map_loop al perm it s = Inr (0, it, s)" by (subst try_map_loop.simps) auto
    then show ?thesis using 1 by auto
  next
    case True
    then have "n < N" using 1(5) by simp
    note fr = free_run_alloc [OF 1(4) this]
    let ?s1 = "claim_page (page_va n) s" and ?v = "page_va n OR PTE_P OR PTE_W OR PTE_U"
    have ab: "deref (bytes s) (vm_pep it) AND PTE_P = 0"
      using 1(2) True by (subst (asm) try_map_loop.simps) (auto split: if_splits)
    obtain m it1 where r: "store_pe (memset (bytes ?s1) (page_va n) 0 PAGESIZE) (vm_pep it) ?v = Inr m" "vmiter_down m it = Inr it1"
        "try_map_loop al perm it1 (?s1\<lparr>bytes := m\<rparr>) = Inr (rc, it', s')"
      using 1(2) True ab fr(1,2) 1(3) by (subst (asm) try_map_loop.simps) (auto simp: bindE_Inr_iff)
    have v: "?v AND PTE_P \<noteq> 0" by (simp only: bit.conj_disj_distrib2) (simp add: or_eq_0_word)
    obtain a where a: "vm_pep it = Pe a" "m = st64 (memset (bytes ?s1) (page_va n) 0 PAGESIZE) a ?v"
      using r(1) by (cases "vm_pep it") auto
    have d: "vm_level it1 < vm_level it"
    proof (rule ccontr)
      assume "\<not> vm_level it1 < vm_level it"
      then have e: "vm_level it1 = vm_level it" "vm_pep it1 = Pe a" using vmiter_down_level [OF r(2)] a(1) by auto
      then have "deref m (vm_pep it1) AND PTE_P \<noteq> 0" using a(2) v by simp
      then have "try_map_loop al perm it1 (?s1\<lparr>bytes := m\<rparr>) = Inl Assert_fail"
        using e(1) True by (subst try_map_loop.simps) simp
      then show False using r(3) by simp
    qed
    have f1: "free_run ke (Suc n) N (?s1\<lparr>bytes := m\<rparr>)" using fr(4) free_run_pages [of "?s1\<lparr>bytes := m\<rparr>" ?s1] by simp
    have "rc = 0 \<and> (\<exists>n'. Suc n \<le> n' \<and> n' \<le> Suc n + vm_level it1 \<and> free_run ke n' N s')"
    proof (rule 1(1) [OF True _ _ fr(2) r(1,2,3) 1(3) f1])
      show "\<not> deref (bytes s) (vm_pep it) AND PTE_P \<noteq> 0" using ab by simp
      show "(page_va n, ?s1) = al s" using fr(1) 1(3) by simp
      show "Suc n + vm_level it1 \<le> N" using d 1(5) by simp
    qed
    then show ?thesis using d by (auto intro: Suc_leD)
  qed
qed

lemma try_map_takes:
  assumes "try_map (kalloc ke PAGESIZE) it pa perm s = Inr (rc, it', s')" "free_run ke n N s" "n + vm_level it \<le> N"
  shows "rc = 0 \<and> (\<exists>n'. n \<le> n' \<and> n' \<le> n + vm_level it \<and> free_run ke n' N s')"
proof -
  obtain rc1 it1 s1 where l: "try_map_loop (kalloc ke PAGESIZE) perm it s = Inr (rc1, it1, s1)"
    using assms(1) by (auto simp: try_map_def Let_def bindE_Inr_iff)
  note t = try_map_loop_takes [OF l refl assms(2,3)]
  have "rc = rc1 \<and> pages s' = pages s1"
    using assms(1) l t by (auto simp: try_map_def Let_def bindE_Inr_iff split: if_splits)
  then show ?thesis using t free_run_pages [of s' s1] by simp
qed

text \<open>The level of an iterator near a mapped address.\<close>

lemma walk_near:
  assumes "same_above (Suc L) va va'" "walk m va k t pm = (l, t1, pm1)" "l \<le> L" "walk m va' k t pm = (l', t2, pm2)"
  shows "l' \<le> L"
  using assms(2-)
proof (induction k arbitrary: t pm)
  case (Suc k)
  show ?case
  proof (cases "Suc k \<le> L")
    case True
    then show ?thesis using walk_level [OF Suc.prems(3)] by simp
  next
    case False
    then have e: "pageindex va' (Suc k) = pageindex va (Suc k)" using same_above_pageindex [OF assms(1), of "Suc k"] by simp
    let ?e = "ld64 m (entry_addr t (pageindex va (Suc k)))"
    have "table_entry ?e"
    proof (rule ccontr)
      assume "\<not> table_entry ?e"
      then have "l = Suc k" using Suc.prems(1) by (simp add: Let_def)
      then show False using False Suc.prems(2) by simp
    qed
    then show ?thesis using Suc.prems Suc.IH [of "?e AND PTE_PAMASK" "pm AND ?e"] e by (simp add: Let_def)
  qed
qed simp

lemma level_near:
  assumes "ptree_ok m r" "translate m r va \<noteq> None" "same_above (Suc L) va va'" "L \<le> 2"
  shows "vm_level (fresh_iter m r va') \<le> L"
proof -
  have c: "va_is_canonical va" using assms(2) by (auto simp: translate_walk split: if_splits)
  have c': "va_is_canonical va'" using same_above_canonical [OF assms(3)] c assms(4) by simp
  obtain l t pm where w: "walk m va 3 r (- 1) = (l, t, pm)" by (cases "walk m va 3 r (- 1)")
  obtain l' t' pm' where w': "walk m va' 3 r (- 1) = (l', t', pm')" by (cases "walk m va' 3 r (- 1)")
  have "vm_level (fresh_iter m r va) = 0"
    using ptree_ok_iter(3) [OF assms(1) c] assms(2) vm_present_fresh [of m r va] by auto
  then have "l = 0" using leaf_fresh(2) [OF c w] by simp
  then have "l' \<le> L" using walk_near [OF assms(3) w _ w'] by simp
  then show ?thesis using leaf_fresh(2) [OF c' w'] by simp
qed

lemma level_le_3: "vm_level (fresh_iter m r va) \<le> 3"
  using walk_level [of m va 3 r "- 1"] by (auto simp: fresh_iter_def split: prod.split)

section \<open>An address space under construction\<close>

text \<open>The mappings of the page table \<open>c\<close>: \<open>M\<close> gives for a page number the physical page and the permissions.\<close>

type_synonym pmap = "nat \<Rightarrow> (u64 \<times> u64) option"

definition page_map :: "mem \<Rightarrow> addr \<Rightarrow> pmap \<Rightarrow> bool" where
  "page_map m c M \<longleftrightarrow>
     (\<forall>v. case M (unat v div 4096) of
        None \<Rightarrow> translate m c v = None
      | Some (q, p) \<Rightarrow> \<exists>perm. translate m c v = Some (q + (v AND PAGEOFFMASK), perm) \<and> perm AND 7 = p)"

lemma page_map_cong: "(\<And>v. translate m' c v = translate m c v) \<Longrightarrow> page_map m' c M = page_map m c M"
  by (simp add: page_map_def cong: option.case_cong)

text \<open>The process with the page table \<open>c\<close> is being set up beside the processes of \<open>P\<close>, since the state \<open>s0\<close>.
  Its own pages were free then; the other processes, the kernel's page table and all pages that were in
  use by the kernel are as they were.\<close>

definition setup_inv :: "addr \<Rightarrow> addr \<Rightarrow> addr set \<Rightarrow> addr \<Rightarrow> kmem \<Rightarrow> nat \<Rightarrow> nat \<Rightarrow> pmap \<Rightarrow> kmem \<Rightarrow> bool" where
  "setup_inv ke kpt P c s0 n N M s \<longleftrightarrow>
     mem_inv ke kpt (insert c P) s \<and> c \<notin> P
     \<and> (\<forall>r \<in> P. \<forall>v. translate (bytes s) r v = translate (bytes s0) r v \<and> user_load (bytes s) r v = user_load (bytes s0) r v)
     \<and> (\<forall>z. z \<noteq> CONSOLE_ADDR \<longrightarrow> kept ke z P s0 (insert c P) s)
     \<and> ktables kpt kernel_entries (bytes s) \<and> avail ke s \<subseteq> avail ke s0
     \<and> (\<forall>i q p. M i = Some (q, p) \<longrightarrow> is_user p \<longrightarrow> q = CONSOLE_ADDR \<or> q \<in> avail ke s0)
     \<and> free_run ke n N s \<and> page_map (bytes s) c M"

lemma setup_invD:
  assumes "setup_inv ke kpt P c s0 n N M s"
  shows "mem_inv ke kpt (insert c P) s" "c \<notin> P"
    "\<And>r v. r \<in> P \<Longrightarrow> translate (bytes s) r v = translate (bytes s0) r v"
    "\<And>r v. r \<in> P \<Longrightarrow> user_load (bytes s) r v = user_load (bytes s0) r v"
    "\<And>z. z \<noteq> CONSOLE_ADDR \<Longrightarrow> kept ke z P s0 (insert c P) s"
    "ktables kpt kernel_entries (bytes s)" "avail ke s \<subseteq> avail ke s0"
    "\<And>i q p. M i = Some (q, p) \<Longrightarrow> is_user p \<Longrightarrow> q = CONSOLE_ADDR \<or> q \<in> avail ke s0"
    "free_run ke n N s" "page_map (bytes s) c M" "ptree_ok (bytes s) c" "page_aligned c"
  using assms mem_invD [of ke kpt "insert c P" s c] by (auto simp: setup_inv_def)

lemma ktable_not_console: "ktables_in kpt \<Longrightarrow> j < 5 \<Longrightarrow> ktable kpt j \<noteq> CONSOLE_ADDR"
  using ktable_page(5) [of kpt j] by (auto simp: word_less_nat_alt)

lemma ktables_kept:
  assumes as: "as_inv (avail ke) kpt P s" and k: "ktables kpt f (bytes s)"
    and kp: "\<And>z. z \<in> tables (bytes s) {kpt} \<Longrightarrow> z \<noteq> CONSOLE_ADDR \<Longrightarrow> kept ke z P s P' s'"
  shows "ktables kpt f (bytes s')"
  unfolding ktables_def
proof (intro conjI allI impI)
  note kd = ktablesD [OF k]
  show "ktables_in kpt" by (rule kd(1))
  fix j i :: nat assume ji: "j < 5" "i < 512"
  have t: "ktable kpt j \<in> tables (bytes s) {kpt}" using ktables_forest(2) [OF k] ji(1) by simp
  then have "owned ke P s (ktable kpt j)" by (rule kpt_owned [OF as])
  then have "\<forall>a. page_base a = ktable kpt j \<longrightarrow> bytes s' a = bytes s a"
    using kp [OF t ktable_not_console [OF kd(1) ji(1)]] by (simp add: kept_def)
  then have "ld64 (bytes s') (entry_addr (ktable kpt j) i) = ld64 (bytes s) (entry_addr (ktable kpt j) i)"
    using ji ktable_page(2) [OF kd(1)] by (intro ld64_page_cong) auto
  then show "ld64 (bytes s') (entry_addr (ktable kpt j) i) = ktable_entry kpt f j i" using kd(2) [OF ji] by simp
qed

text \<open>Pages that cannot be allocated are as they were, with the exception of the console.\<close>

lemma kernel_page_owned:
  assumes inv: "mem_inv ke kpt P s" and z: "page_aligned z" "\<not> allocatable_physical_address ke z" "z \<noteq> CONSOLE_ADDR"
  shows "owned ke P s z"
proof -
  have "z \<notin> tables (bytes s) P" using inv z(2) by (auto simp: mem_inv_def tables_ok_def)
  moreover have "\<not> user_map (bytes s) r va z False" if "r \<in> P" for r va
    using inv z(2,3) that unfolding mem_inv_def maps_ok_def by blast
  ultimately show ?thesis using z by (auto simp: owned_def avail_def mappers_def)
qed

lemma console_not_table:
  assumes inv: "mem_inv ke kpt P s" and k: "ktables kpt f (bytes s)"
  shows "CONSOLE_ADDR \<notin> tables (bytes s) (insert kpt P)" "CONSOLE_ADDR \<notin> avail ke s"
proof -
  have "CONSOLE_ADDR \<notin> tables (bytes s) {kpt}"
    using ktables_forest(2) [OF k] ktable_not_console [OF ktablesD(1) [OF k]] by auto
  moreover have "CONSOLE_ADDR \<notin> tables (bytes s) P"
    using inv allocatable_not_console by (auto simp: mem_inv_def tables_ok_def)
  ultimately show "CONSOLE_ADDR \<notin> tables (bytes s) (insert kpt P)" by (auto simp: tables_def)
  show "CONSOLE_ADDR \<notin> avail ke s" using allocatable_not_console by (auto simp: avail_def)
qed

text \<open>A page that belongs to nobody yet.\<close>

definition spare :: "addr \<Rightarrow> addr \<Rightarrow> addr set \<Rightarrow> kmem \<Rightarrow> kmem \<Rightarrow> addr \<Rightarrow> bool" where
  "spare ke kpt P s0 s q \<longleftrightarrow>
     q \<in> avail ke s0 \<and> q \<notin> avail ke s \<and> q \<notin> tables (bytes s) (insert kpt P) \<and> mappers (bytes s) P q = {}
     \<and> pages s (page_number q) = \<lparr>refcount = 1\<rparr>"

lemma user_frame_ok:
  assumes inv: "mem_inv ke kpt P s" and k: "ktables kpt f (bytes s)" and r: "r \<in> P"
    and va: "page_aligned va" and fa: "frame_args pa perm" and place: "place_ok ke va pa (scast perm)"
    and usr: "is_user (scast perm) \<Longrightarrow> pa = CONSOLE_ADDR \<or> spare ke kpt P s0 s pa"
  shows "may_map (avail ke) kpt P s r va pa (scast perm)"
    "is_user (scast perm) \<Longrightarrow> \<forall>va'. \<not> same_above 0 va va' \<longrightarrow> \<not> user_map (bytes s) r va' pa False"
    "is_user (scast perm) \<Longrightarrow> pa \<noteq> CONSOLE_ADDR \<Longrightarrow>
      card (insert r (mappers (bytes s) P pa)) \<le> unat (refcount (pages s (page_number pa)))"
proof -
  note cn = console_not_table [OF inv k]
  have no: "\<not> user_map (bytes s) r' va' pa w" if "spare ke kpt P s0 s pa" "r' \<in> P" for r' va' w
    using that user_map_mono [of "bytes s" r' va' pa] by (cases w) (auto simp: spare_def mappers_def)
  show "may_map (avail ke) kpt P s r va pa (scast perm)"
    unfolding may_map_def
  proof (intro impI conjI)
    assume u: "is_user (scast perm)"
    then show "pa \<notin> avail ke s" "pa \<notin> tables (bytes s) (insert kpt P)" using usr cn by (auto simp: spare_def)
    assume "pa \<noteq> CONSOLE_ADDR"
    then show "\<forall>r' \<in> P. \<forall>va'. \<not> (r' = r \<and> same_above 0 va va') \<longrightarrow> \<not> user_map (bytes s) r' va' pa (\<not> is_user_writable (scast perm))"
      using usr [OF u] no by blast
  qed
  show "\<forall>va'. \<not> same_above 0 va va' \<longrightarrow> \<not> user_map (bytes s) r va' pa False" if u: "is_user (scast perm)"
  proof (cases "pa = CONSOLE_ADDR")
    case True
    then have "va = CONSOLE_ADDR" using place u allocatable_not_console by (auto simp: place_ok_def)
    moreover have "page_base va' = CONSOLE_ADDR" if "user_map (bytes s) r va' CONSOLE_ADDR False" for va'
      using mem_invD(3) [OF inv r] that allocatable_not_console unfolding maps_ok_def by blast
    ultimately show ?thesis using True page_base_aligned [OF va] by (auto simp: same_above_0_base)
  next
    case False
    then show ?thesis using usr [OF u] no [OF _ r] by blast
  qed
  show "card (insert r (mappers (bytes s) P pa)) \<le> unat (refcount (pages s (page_number pa)))"
    if "is_user (scast perm)" "pa \<noteq> CONSOLE_ADDR"
    using usr [OF that(1)] that(2) by (auto simp: spare_def)
qed

text \<open>One more mapping.\<close>

lemma page_map_step:
  assumes pm: "page_map m c M" and map: "mapped R c (page_va i) pa p m m'" and c: "c \<in> R" and i: "i < 768" and p: "p AND PTE_P \<noteq> 0"
  shows "page_map m' c (M(i \<mapsto> (pa, p AND 7)))"
  unfolding page_map_def
proof
  fix v
  have sa: "same_above 0 (page_va i) v \<longleftrightarrow> unat v div 4096 = i"
    using i by (auto simp: same_above_div page_va_unat)
  show "case (M(i \<mapsto> (pa, p AND 7))) (unat v div 4096) of None \<Rightarrow> translate m' c v = None
      | Some (q, p) \<Rightarrow> \<exists>perm. translate m' c v = Some (q + (v AND PAGEOFFMASK), perm) \<and> perm AND 7 = p"
  proof (cases "unat v div 4096 = i")
    case True
    then show ?thesis using map sa p by (simp add: mapped_def)
  next
    case False
    then have "translate m' c v = translate m c v" using map c sa by (simp add: mapped_def)
    moreover have "case M (unat v div 4096) of None \<Rightarrow> translate m c v = None
        | Some (q, p) \<Rightarrow> \<exists>perm. translate m c v = Some (q + (v AND PAGEOFFMASK), perm) \<and> perm AND 7 = p"
      using pm by (simp only: page_map_def)
    ultimately show ?thesis using False by (simp split: option.splits prod.splits)
  qed
qed

lemma setup_map:
  assumes inv: "setup_inv ke kpt P c s0 n N M s" and i: "i < 768"
    and fa: "frame_args pa perm" and p: "scast perm AND PTE_P \<noteq> (0 :: u64)" "scast perm AND 7 = (scast perm :: u64)"
    and place: "place_ok ke (page_va i) pa (scast perm)"
    and usr: "is_user (scast perm) \<Longrightarrow> pa = CONSOLE_ADDR \<or> spare ke kpt (insert c P) s0 s pa"
    and lev: "n + vm_level (fresh_iter (bytes s) c (page_va i)) \<le> N"
  shows "\<exists>s' n'. vm_map (kalloc ke PAGESIZE) (fresh_iter (bytes s) c (page_va i)) pa perm s = Inr (fresh_iter (bytes s') c (page_va i), s')
    \<and> n \<le> n' \<and> n' \<le> n + vm_level (fresh_iter (bytes s) c (page_va i))
    \<and> setup_inv ke kpt P c s0 n' N (M(i \<mapsto> (pa, scast perm))) s'
    \<and> loads_mapped (insert c P) c (page_va i) pa (scast perm) (bytes s) (bytes s')"
proof -
  let ?va = "page_va i" and ?P = "insert c P" and ?p = "scast perm :: u64"
  note d = setup_invD [OF inv]
  have u: "unat ?va = 4096 * i" using i by (simp add: page_va_unat)
  have va: "va_is_canonical ?va" "page_aligned ?va"
    using i u user_page_canonical [of ?va] by (simp_all add: word_less_nat_alt page_aligned_iff)
  note uf = user_frame_ok [OF d(1,6) insertI1 va(2) fa place usr]
  have nrun: "\<exists>s'. try_map (kalloc ke PAGESIZE) (fresh_iter (bytes s) c ?va) pa perm s = Inr (0, fresh_iter (bytes s') c ?va, s')
      \<and> frame_mapped ke kpt ?P c ?va pa ?p s s'"
  proof (rule map_step [OF d(1) insertI1 va fa uf(1) place uf(2)])
    fix s' assume "try_map (kalloc ke PAGESIZE) (fresh_iter (bytes s) c ?va) pa perm s = Inr (- 1, fresh_iter (bytes s') c ?va, s')"
    from try_map_takes [OF this d(9) lev] show ?thesis by simp
  qed auto
  then obtain s' where r: "try_map (kalloc ke PAGESIZE) (fresh_iter (bytes s) c ?va) pa perm s = Inr (0, fresh_iter (bytes s') c ?va, s')"
    and fm: "frame_mapped ke kpt ?P c ?va pa ?p s s'" by blast
  from try_map_takes [OF r d(9) lev] obtain n' where n': "n \<le> n'" "n' \<le> n + vm_level (fresh_iter (bytes s) c ?va)" "free_run ke n' N s'" by blast
  have fr: "pt_frame (avail ke) {c} s s'" and map: "mapped (insert kpt ?P) c ?va pa ?p (bytes s) (bytes s')"
    and ld: "loads_mapped ?P c ?va pa ?p (bytes s) (bytes s')" using fm by (auto simp: frame_mapped_def)
  have mp: "pages s' (page_number pa) = pages s (page_number pa)" if "is_user ?p"
  proof -
    have "user_map (bytes s') c ?va pa False"
      using frame_user_map [OF fa map, of c ?va pa False] that by (simp add: same_above_def)
    then have "mappers (bytes s') ?P pa \<noteq> {}" by (auto simp: mappers_def)
    then show ?thesis using fm fr by (intro mapped_page_count [of ke kpt ?P]) (auto simp: frame_mapped_def)
  qed
  have "mem_inv ke kpt ?P (s'\<lparr>pages := pages s'\<rparr>)"
    by (rule frame_mapped_inv [OF d(1) insertI1 fa fm]) (use uf(3) mp in auto)
  then have m': "mem_inv ke kpt ?P s'" by simp
  have tr: "translate (bytes s') r' v = translate (bytes s) r' v" "user_load (bytes s') r' v = user_load (bytes s) r' v" if "r' \<in> P" for r' v
    using map ld that d(2) by (auto simp: mapped_def loads_mapped_def)
  have kp: "kept ke z P s0 ?P s'" if "z \<noteq> CONSOLE_ADDR" for z
  proof (cases "is_user ?p \<and> z = pa")
    case True
    then have "\<not> owned ke P s0 z" using usr that by (auto simp: spare_def owned_def)
    then show ?thesis by (simp add: kept_def)
  next
    case False
    then have "kept ke z ?P s ?P s'" by (intro kept_mapped [OF d(1) insertI1 fa fm]) auto
    then show ?thesis using d(5) [OF that] kept_trans by blast
  qed
  have "ktables kpt kernel_entries (bytes s')"
  proof (rule ktables_kept [OF _ d(6)])
    show "as_inv (avail ke) kpt ?P s" using d(1) by (simp add: mem_inv_def)
    fix z assume z: "z \<in> tables (bytes s) {kpt}" "z \<noteq> CONSOLE_ADDR"
    then have "z \<noteq> pa" if "is_user ?p"
      using usr [OF that] tables_mono [of "{kpt}" "insert kpt ?P" "bytes s"] by (auto simp: spare_def)
    then show "kept ke z ?P s ?P s'" by (intro kept_mapped [OF d(1) insertI1 fa fm]) auto
  qed
  note k' = this
  have av: "avail ke s' \<subseteq> avail ke s" using fr by (auto simp: pt_frame_def)
  have "page_map (bytes s') c (M(i \<mapsto> (pa, ?p AND 7)))" by (rule page_map_step [OF d(10) map _ i p(1)]) simp
  then have "page_map (bytes s') c (M(i \<mapsto> (pa, ?p)))" using p(2) by simp
  moreover have "q = CONSOLE_ADDR \<or> q \<in> avail ke s0" if "(M(i \<mapsto> (pa, ?p))) j = Some (q, w)" "is_user w" for j q w
    using that d(8) [of j q w] usr by (auto simp: spare_def split: if_splits)
  ultimately have "setup_inv ke kpt P c s0 n' N (M(i \<mapsto> (pa, ?p))) s'"
    using m' d(2,3,4,7) tr kp k' av n'(3) unfolding setup_inv_def by auto
  then show ?thesis using r n'(1,2) ld by (auto simp: vm_map_def)
qed

text \<open>The start: an empty page table.\<close>

lemma setup_start:
  assumes inv: "mem_inv ke kpt P s0" and k: "ktables kpt kernel_entries (bytes s0)" and fr: "free_run ke n N s0" "n < N"
    and s2: "s2 = (claim_page (page_va n) s0)\<lparr>bytes := memset (bytes (claim_page (page_va n) s0)) (page_va n) 0 PAGESIZE\<rparr>"
  shows "setup_inv ke kpt P (page_va n) s0 (Suc n) N Map.empty s2"
proof -
  note fa = free_run_alloc [OF fr]
  have as: "as_inv (avail ke) kpt P s0" using inv by (simp add: mem_inv_def)
  note ar = add_root [OF inv fa(1,2) s2] and z = zeroed_page [OF as fa(1,2) s2]
  have "free_run ke (Suc n) N s2" using fa(4) free_run_pages [of s2 "claim_page (page_va n) s0"] by (simp add: s2)
  moreover have "ktables kpt kernel_entries (bytes s2)" by (rule ktables_kept [OF as k ar(6)])
  moreover have "page_map (bytes s2) (page_va n) Map.empty" using ar(3) by (simp add: page_map_def)
  ultimately show ?thesis using ar z(3) by (auto simp: setup_inv_def)
qed

text \<open>A page for the process is taken.\<close>

lemma setup_claim:
  assumes inv: "setup_inv ke kpt P c s0 n N M s" and n: "n < N"
  defines "s1 \<equiv> claim_page (page_va n) s"
  shows "kalloc ke PAGESIZE s = (page_va n, s1)" "page_va n \<noteq> 0" "setup_inv ke kpt P c s0 (Suc n) N M s1"
    "spare ke kpt (insert c P) s0 s1 (page_va n)" "allocatable_physical_address ke (page_va n)"
    "\<And>va. fresh_iter (bytes s1) c va = fresh_iter (bytes s) c va"
    "\<And>va. user_load (bytes s1) c va = user_load (bytes s) c va"
proof -
  let ?P = "insert c P"
  note d = setup_invD [OF inv] and fa = free_run_alloc [OF setup_invD(9) [OF inv] n, folded s1_def]
  have as: "as_inv (avail ke) kpt ?P s" using d(1) by (simp add: mem_inv_def)
  show "kalloc ke PAGESIZE s = (page_va n, s1)" "page_va n \<noteq> 0" by (rule fa)+
  have out: "bytes s1 a = bytes s a" if "page_base a \<noteq> page_va n" for a
    using ka.alloc_some [OF fa(1,2)] that by simp
  have s1: "s1\<lparr>bytes := bytes s1\<rparr> = s1" by simp
  note cf = ka.claim_frame [OF as fa(1,2) out] and cs = claim_step [OF d(1) fa(1,2) out]
  show "\<And>va. fresh_iter (bytes s1) c va = fresh_iter (bytes s) c va"
    using fresh_iter_agree [OF mem_invD(5) [OF d(1) insertI1] cs(2)] by simp
  show "\<And>va. user_load (bytes s1) c va = user_load (bytes s) c va" by (intro cf(3) insertI1)
  show "allocatable_physical_address ke (page_va n)" using fa(3) by (simp add: avail_def)
  have av: "avail ke s1 = avail ke s - {page_va n}" using cf(5) s1 by simp
  have kp: "kept ke z ?P s ?P s1" for z using kept_claim [OF d(1) fa(1,2) out, of z] s1 by simp
  have tr: "translate (bytes s1) r v = translate (bytes s) r v" if "r \<in> ?P" for r v using cf(2) that by simp
  show "spare ke kpt ?P s0 s1 (page_va n)"
    using fa(3) d(7) av cf(6,7) ka.alloc_some [OF fa(1,2)] by (auto simp: spare_def mappers_def)
  have "page_map (bytes s1) c M" using d(10) page_map_cong [of "bytes s1" c "bytes s"] tr by simp
  moreover have "ktables kpt kernel_entries (bytes s1)" by (rule ktables_kept [OF as d(6) kp])
  moreover have "mem_inv ke kpt ?P s1" using cs(1) s1 by simp
  moreover have "kept ke z P s0 ?P s1" if "z \<noteq> CONSOLE_ADDR" for z using d(5) [OF that] kp kept_trans by blast
  ultimately show "setup_inv ke kpt P c s0 (Suc n) N M s1"
    using d(2,3,4,7,8) tr cf(3) fa(4) av unfolding setup_inv_def by auto
qed

lemma user_page_place:
  assumes "256 \<le> i" "i < 768" "allocatable_physical_address ke pa"
  shows "place_ok ke (page_va i) pa perm"
  using assms page_va_unat [of i] by (simp add: place_ok_def user_va_def word_le_nat_alt word_less_nat_alt)

lemma setup_page:
  assumes inv: "setup_inv ke kpt P c s0 n N M s" and i: "256 \<le> i" "i < 768" and p: "perm = 5 \<or> perm = 7"
    and lev: "Suc n + vm_level (fresh_iter (bytes s) c (page_va i)) \<le> N"
  defines "s1 \<equiv> claim_page (page_va n) s"
  shows "\<exists>s' n'. kalloc ke PAGESIZE s = (page_va n, s1)
    \<and> vm_find (bytes s1) (fresh_iter (bytes s) c va0) (page_va i) = Inr (fresh_iter (bytes s1) c (page_va i))
    \<and> vm_map (kalloc ke PAGESIZE) (fresh_iter (bytes s1) c (page_va i)) (page_va n) perm s1 = Inr (fresh_iter (bytes s') c (page_va i), s')
    \<and> Suc n \<le> n' \<and> n' \<le> Suc n + vm_level (fresh_iter (bytes s) c (page_va i))
    \<and> setup_inv ke kpt P c s0 n' N (M(i \<mapsto> (page_va n, scast perm))) s'
    \<and> (\<forall>v. unat v div 4096 \<noteq> i \<longrightarrow> user_load (bytes s') c v = user_load (bytes s) c v)"
proof -
  have n: "n < N" using lev by simp
  note cl = setup_claim [OF inv n, folded s1_def]
  note d = setup_invD [OF cl(3)]
  have c: "va_is_canonical (page_va i)" using i page_va_unat [of i] by (intro user_page_canonical) (simp add: word_less_nat_alt)
  have "vm_find (bytes s1) (fresh_iter (bytes s1) c va0) (page_va i) = Inr (fresh_iter (bytes s1) c (page_va i))"
    using real_find_fresh [OF d(12)] ptree_ok_iter(1) [OF d(11) c] by (simp add: vm_find_def vmiter_init_fresh)
  then have f: "vm_find (bytes s1) (fresh_iter (bytes s) c va0) (page_va i) = Inr (fresh_iter (bytes s1) c (page_va i))"
    using cl(6) by simp
  have N: "n \<le> 512" using d(9) by (auto simp: free_run_def)
  have fa: "frame_args (page_va n) perm" using p page_va_props(1,2) [OF N] by (auto simp: frame_args_def)
  have pp: "scast perm AND PTE_P \<noteq> (0 :: u64)" "scast perm AND 7 = (scast perm :: u64)" using p by auto
  have lev': "Suc n + vm_level (fresh_iter (bytes s1) c (page_va i)) \<le> N" using lev cl(6) by simp
  from setup_map [OF cl(3) i(2) fa pp user_page_place [OF i cl(5)] disjI2 [OF cl(4)] lev']
  obtain s' n' where s': "vm_map (kalloc ke PAGESIZE) (fresh_iter (bytes s1) c (page_va i)) (page_va n) perm s1 = Inr (fresh_iter (bytes s') c (page_va i), s')"
      "Suc n \<le> n'" "n' \<le> Suc n + vm_level (fresh_iter (bytes s1) c (page_va i))"
      "setup_inv ke kpt P c s0 n' N (M(i \<mapsto> (page_va n, scast perm))) s'"
      "loads_mapped (insert c P) c (page_va i) (page_va n) (scast perm) (bytes s1) (bytes s')" by blast
  have "user_load (bytes s') c v = user_load (bytes s) c v" if "unat v div 4096 \<noteq> i" for v
  proof -
    have "\<not> same_above 0 (page_va i) v" using i that by (auto simp: same_above_div page_va_unat)
    then show ?thesis using s'(5) cl(7) by (simp add: loads_mapped_def)
  qed
  then show ?thesis using cl(1,6) f s'(1-4) by auto
qed

section \<open>The kernel's part of the address space\<close>

definition low_map :: "nat \<Rightarrow> pmap" where
  "low_map i j = (if j < i then Some (page_va j, kernel_page_perm j) else None)"

lemma low_map_Suc: "(low_map i)(i \<mapsto> (page_va i, kernel_page_perm i)) = low_map (Suc i)"
  by (auto simp: low_map_def fun_eq_iff)

lemma setup_find:
  assumes "setup_inv ke kpt P c s0 n N M s" "va < MEMSIZE_VIRTUAL"
  shows "vm_find (bytes s) (fresh_iter (bytes s) c va0) va = Inr (fresh_iter (bytes s) c va)"
    "vmiter_init (bytes s) c va = Inr (fresh_iter (bytes s) c va)"
proof -
  note d = setup_invD(11,12) [OF assms(1)]
  note pi = ptree_ok_iter(1) [OF d(1) user_page_canonical [OF assms(2)]]
  show "vm_find (bytes s) (fresh_iter (bytes s) c va0) va = Inr (fresh_iter (bytes s) c va)"
    using real_find_fresh [OF d(2)] pi by (simp add: vm_find_def vmiter_init_fresh)
  show "vmiter_init (bytes s) c va = Inr (fresh_iter (bytes s) c va)" by (rule pi)
qed

text \<open>The level of the iterator at a page, when a page of the same table is mapped already.\<close>

lemma setup_level:
  assumes inv: "setup_inv ke kpt P c s0 n N M s" and M: "M 0 \<noteq> None" and i: "i < 768"
  shows "vm_level (fresh_iter (bytes s) c (page_va i)) \<le> (if i < 512 then 0 else 1)"
proof -
  note d = setup_invD(10,11) [OF inv]
  have "unat (0 :: u64) div 4096 = 0" by simp
  then have t: "translate (bytes s) c 0 \<noteq> None" using d(1) M unfolding page_map_def by (force split: option.splits)
  have u: "unat (page_va i) = 4096 * i" using i by (simp add: page_va_unat)
  show ?thesis
  proof (cases "i < 512")
    case True
    then have "same_above (Suc 0) 0 (page_va i)" by (simp add: same_above_div u)
    from level_near [OF d(2) t this] show ?thesis using True by simp
  next
    case False
    have "same_above (Suc 1) 0 (page_va i)" using i by (simp add: same_above_div u)
    from level_near [OF d(2) t this] show ?thesis using False by simp
  qed
qed

lemma kernel_iter_same:
  assumes "ktables kpt f m" "ktables kpt f' m'" "i < 512"
  shows "fresh_iter m kpt (page_va i) = fresh_iter m' kpt (page_va i)"
  using low_iter [OF assms(1,3)] low_iter [OF assms(2,3)] by (intro vmiter.equality) simp_all

lemma kernel_page_args:
  assumes "i < 256"
  shows "frame_args (page_va i) (ucast (kernel_page_perm i))" "scast (ucast (kernel_page_perm i) :: u32) = kernel_page_perm i"
    "kernel_page_perm i AND PTE_P \<noteq> 0" "kernel_page_perm i AND 7 = kernel_page_perm i"
    "place_ok ke (page_va i) (page_va i) (kernel_page_perm i)" "is_user (kernel_page_perm i) \<Longrightarrow> page_va i = CONSOLE_ADDR"
proof -
  have c: "kernel_page_perm i = 3 \<or> kernel_page_perm i = 7 \<and> i = 0xB8" using assms by (simp add: kernel_page_perm_def)
  then show "scast (ucast (kernel_page_perm i) :: u32) = kernel_page_perm i" "kernel_page_perm i AND PTE_P \<noteq> 0"
    "kernel_page_perm i AND 7 = kernel_page_perm i" by auto
  show "frame_args (page_va i) (ucast (kernel_page_perm i))"
    using c page_va_props(1,2) [of i] assms by (auto simp: frame_args_def)
  have "\<not> is_user 3" using and_three_five by (simp add: is_user_def)
  moreover have "page_va 0xB8 = CONSOLE_ADDR" by (simp add: page_va_def)
  ultimately show "place_ok ke (page_va i) (page_va i) (kernel_page_perm i)" "is_user (kernel_page_perm i) \<Longrightarrow> page_va i = CONSOLE_ADDR"
    using c by (auto simp: place_ok_def is_user_writable_def)
qed

lemma kernel_page_iter:
  assumes k: "ktables kpt kernel_entries m" and i: "i < 512"
  shows "vm_pa m (fresh_iter m kpt (page_va i)) = page_va i" "vm_perms m (fresh_iter m kpt (page_va i)) = kernel_page_perm i"
proof -
  have "page_va i < MEMSIZE_PHYSICAL" using page_va_props(5) [of i] i by simp
  then have "translate m kpt (page_va i) = Some (page_va i, kernel_page_perm i)"
    using ktables_kernel_map [OF k] i page_va_unat [of i] by (simp add: kernel_map_def)
  then show "vm_pa m (fresh_iter m kpt (page_va i)) = page_va i" "vm_perms m (fresh_iter m kpt (page_va i)) = kernel_page_perm i"
    by (simp_all add: vm_pa_fresh vm_perms_fresh)
qed

lemma copy_kernel_run:
  assumes "setup_inv ke kpt P c s0 n N (low_map i) s" "i \<le> 256" "i = 0 \<Longrightarrow> n + 3 \<le> N"
  shows "\<exists>s' n'. copy_kernel_loop ke (fresh_iter (bytes s) kpt (page_va i)) (fresh_iter (bytes s) c (page_va i)) s
        = Inr (fresh_iter (bytes s') c (page_va 256), s')
      \<and> setup_inv ke kpt P c s0 n' N (low_map 256) s' \<and> n \<le> n' \<and> n' \<le> n + (if i = 0 then 3 else 0)"
  using assms
proof (induction "256 - i" arbitrary: i s n)
  case 0
  then have i: "i = 256" by simp
  have "\<not> page_va 256 < PROC_START_ADDR" by (simp add: page_va_def)
  then have "copy_kernel_loop ke (fresh_iter (bytes s) kpt (page_va i)) (fresh_iter (bytes s) c (page_va i)) s
      = Inr (fresh_iter (bytes s) c (page_va 256), s)" using i by (subst copy_kernel_loop.simps) simp
  then show ?case using 0 i by auto
next
  case (Suc x)
  then have i: "i < 256" "x = 256 - Suc i" "Suc i \<le> 256" by auto
  note d = setup_invD [OF Suc.prems(1)] and a = kernel_page_args [OF i(1)] and ki = kernel_page_iter [OF setup_invD(6) [OF Suc.prems(1)], of i]
  let ?l = "vm_level (fresh_iter (bytes s) c (page_va i))"
  have lv: "?l \<le> (if i = 0 then 3 else 0)"
    using level_le_3 [of "bytes s" c "page_va i"] setup_level [OF Suc.prems(1), of i] i(1) by (auto simp: low_map_def split: if_splits)
  have lev: "n + ?l \<le> N"
  proof (cases "i = 0")
    case True
    then show ?thesis using lv Suc.prems(3) by simp
  next
    case False
    then show ?thesis using lv d(9) by (simp add: free_run_def)
  qed
  have "\<exists>s1 n1. vm_map (kalloc ke PAGESIZE) (fresh_iter (bytes s) c (page_va i)) (page_va i) (ucast (kernel_page_perm i)) s
        = Inr (fresh_iter (bytes s1) c (page_va i), s1)
    \<and> n \<le> n1 \<and> n1 \<le> n + ?l
    \<and> setup_inv ke kpt P c s0 n1 N ((low_map i)(i \<mapsto> (page_va i, kernel_page_perm i))) s1"
    using setup_map [OF Suc.prems(1), of i "page_va i" "ucast (kernel_page_perm i)"] i(1) a lev by (simp only: a(2)) auto
  then obtain s1 n1 where s1: "vm_map (kalloc ke PAGESIZE) (fresh_iter (bytes s) c (page_va i)) (page_va i) (ucast (kernel_page_perm i)) s
        = Inr (fresh_iter (bytes s1) c (page_va i), s1)" "n \<le> n1" "n1 \<le> n + ?l" "setup_inv ke kpt P c s0 n1 N (low_map (Suc i)) s1"
    unfolding low_map_Suc by blast
  note d1 = setup_invD [OF s1(4)]
  have pv: "page_va i + PAGESIZE = page_va (Suc i)" "page_va i < PROC_START_ADDR" "page_va (Suc i) < MEMSIZE_VIRTUAL"
    using page_va_props(3) [of i] page_va_unat [of i] page_va_unat [of "Suc i"] i(1) by (simp_all add: word_less_nat_alt)
  have p1: "vm_plus (bytes s1) (fresh_iter (bytes s1) c (page_va i)) PAGESIZE = Inr (fresh_iter (bytes s1) c (page_va (Suc i)))"
    using setup_find(1) [OF s1(4) pv(3)] pv(1) by (simp add: vm_plus_def)
  have p2: "vm_plus (bytes s1) (fresh_iter (bytes s) kpt (page_va i)) PAGESIZE = Inr (fresh_iter (bytes s1) kpt (page_va (Suc i)))"
    using low_next [OF d1(6) kernel_entries_small, of i] kernel_iter_same [OF d(6) d1(6), of i] i(1) by simp
  have run: "copy_kernel_loop ke (fresh_iter (bytes s) kpt (page_va i)) (fresh_iter (bytes s) c (page_va i)) s
      = copy_kernel_loop ke (fresh_iter (bytes s1) kpt (page_va (Suc i))) (fresh_iter (bytes s1) c (page_va (Suc i))) s1"
    using ki i(1) s1(1) p1 p2 pv(2) by (subst copy_kernel_loop.simps) simp
  show ?case
    unfolding run using Suc.hyps(1) [OF i(2) s1(4) i(3)] s1(2,3) lv by (fastforce split: if_splits)
qed

end
