(* ===== verification/Setup_Load.thy ===== *)
theory Setup_Load
  imports Setup_Space
begin

text \<open>
  Loading a program: the pages that \<open>process_setup\<close> allocates for the segments of an image, and the bytes
  that it copies there.
\<close>

section \<open>Images in kernel memory\<close>

text \<open>The kernel's own memory without its page table. The images lie there.\<close>

definition fixed :: "addr \<Rightarrow> addr \<Rightarrow> addr \<Rightarrow> bool" where
  "fixed ke kpt a \<longleftrightarrow> KERNEL_START_ADDR \<le> a \<and> a < ke \<and> \<not> (kpt \<le> a \<and> a < kpt + 5 * PAGESIZE)"

lemma fixed_page:
  assumes "ke \<le> KERNEL_STACK_TOP" "fixed ke kpt a"
  shows "\<not> allocatable_physical_address ke (page_base a)" "page_base a \<noteq> CONSOLE_ADDR"
proof -
  have a: "0x40000 \<le> unat a" "unat a < unat ke" "unat ke \<le> 0x80000"
    using assms by (simp_all add: fixed_def word_le_nat_alt word_less_nat_alt)
  have p: "unat (page_base a) = 4096 * (unat a div 4096)" by (rule unat_page_base)
  have "64 \<le> unat a div 4096" "unat a div 4096 < 128" using a by (simp_all add: less_eq_div_iff_mult_less_eq div_less_iff_less_mult)
  then have l: "0x40000 \<le> unat (page_base a)" "unat (page_base a) < 0x80000" unfolding p by simp_all
  show "page_base a \<noteq> CONSOLE_ADDR" using l by auto
  have "unat (round_up ke (ucast PAGESIZE)) = (unat ke + 4096 - 1) - (unat ke + 4096 - 1) mod 4096"
    using unat_round_up [of "ucast PAGESIZE" ke] a(3) by simp
  moreover have "(unat ke + 4096 - 1) mod 4096 < 4096" by simp
  moreover have "unat (page_base a) \<le> unat a" unfolding p by simp
  ultimately have "unat (page_base a) < unat (round_up ke (ucast PAGESIZE))" using a by linarith
  then show "\<not> allocatable_physical_address ke (page_base a)"
    using l by (auto simp: allocatable_physical_address_def word_le_nat_alt word_less_nat_alt)
qed

definition same_fixed :: "addr \<Rightarrow> addr \<Rightarrow> mem \<Rightarrow> mem \<Rightarrow> bool" where
  "same_fixed ke kpt m m' \<longleftrightarrow> (\<forall>a. fixed ke kpt a \<longrightarrow> m' a = m a)"

definition image_fixed :: "addr \<Rightarrow> addr \<Rightarrow> mem \<Rightarrow> addr \<Rightarrow> bool" where
  "image_fixed ke kpt m elf \<longleftrightarrow>
     (\<forall>x < 64. fixed ke kpt (elf + of_nat x))
     \<and> (\<forall>q \<in> set (headers (elf + e_phoff (elf_header_at m elf)) (unat (e_phnum (elf_header_at m elf)))).
          \<forall>x < 56. fixed ke kpt (q + of_nat x))"

lemma image_same:
  assumes f: "image_fixed ke kpt m elf" and sf: "same_fixed ke kpt m m'"
  shows "elf_header_at m' elf = elf_header_at m elf" "segments m' elf = segments m elf"
    "\<And>q. q \<in> set (segments m elf) \<Longrightarrow> elf_program_at m' q = elf_program_at m q"
proof -
  show h: "elf_header_at m' elf = elf_header_at m elf" using f sf by (intro elf_header_cong) (simp add: image_fixed_def same_fixed_def)
  let ?hs = "headers (elf + e_phoff (elf_header_at m elf)) (unat (e_phnum (elf_header_at m elf)))"
  have p: "elf_program_at m' q = elf_program_at m q" if "q \<in> set ?hs" for q
    using f sf that by (intro elf_program_cong) (simp add: image_fixed_def same_fixed_def)
  then show "segments m' elf = segments m elf" unfolding segments_def h by (intro filter_cong) (simp_all add: is_load_def)
  show "elf_program_at m' q = elf_program_at m q" if "q \<in> set (segments m elf)" for q
    using that by (intro p) (simp add: segments_def)
qed

section \<open>The loader\<close>

text \<open>The iterator over the image \<open>elf\<close>, whose headers end at \<open>e\<close>, with the segments \<open>qs\<close> still to come.\<close>

definition loader_pos :: "addr \<Rightarrow> addr \<Rightarrow> addr list \<Rightarrow> program_loader" where
  "loader_pos elf e qs = \<lparr>ld_elf = elf, ld_ph = (case qs of [] \<Rightarrow> e | q # qs' \<Rightarrow> q), ld_endph = e\<rparr>"

lemma loader_at_pos: "loader_at m ld qs \<Longrightarrow> ld = loader_pos (ld_elf ld) (ld_endph ld) qs"
  using loader_at_present [of m ld qs] loader_at_Cons(1) [of m ld]
  by (cases ld) (auto simp: loader_pos_def loader_present_def split: list.split)

lemma loader_fix_end: "loader_fix m ld = retIO ld' \<Longrightarrow> ld_endph ld' = ld_endph ld \<and> ld_elf ld' = ld_elf ld"
  by (auto simp: loader_fix_def bind_eq_Some_conv)

definition walkable :: "addr \<Rightarrow> addr \<Rightarrow> mem \<Rightarrow> addr \<Rightarrow> addr \<Rightarrow> addr list \<Rightarrow> bool" where
  "walkable ke kpt m0 elf e qs \<longleftrightarrow> (\<forall>m. same_fixed ke kpt m0 m \<longrightarrow> loader_at m (loader_pos elf e qs) qs)"

lemma walkable_next:
  assumes w: "walkable ke kpt m0 elf e (q # qs)" and m: "same_fixed ke kpt m0 m"
  shows "loader_next m (loader_pos elf e (q # qs)) = retIO (loader_pos elf e qs)"
    "loader_present (loader_pos elf e (q # qs))" "walkable ke kpt m0 elf e qs"
proof -
  have nx: "loader_next m (loader_pos elf e (q # qs)) = retIO (loader_pos elf e qs) \<and> loader_at m (loader_pos elf e qs) qs"
    if "same_fixed ke kpt m0 m" for m
  proof -
    note la = loader_at_Cons [OF w [unfolded walkable_def, rule_format, OF that]]
    from la(4) obtain ld' where ld': "loader_next m (loader_pos elf e (q # qs)) = retIO ld'" "loader_at m ld' qs" by blast
    then have "ld_endph ld' = e \<and> ld_elf ld' = elf"
      using la(3) loader_fix_end [of m "(loader_pos elf e (q # qs))\<lparr>ld_ph := ld_ph (loader_pos elf e (q # qs)) + PHSIZE\<rparr>" ld']
      by (simp add: loader_next_def) (simp add: loader_pos_def)
    then show ?thesis using loader_at_pos [OF ld'(2)] ld' by simp
  qed
  show "loader_next m (loader_pos elf e (q # qs)) = retIO (loader_pos elf e qs)" using nx [OF m] by simp
  show "walkable ke kpt m0 elf e qs" using nx by (simp add: walkable_def)
  show "loader_present (loader_pos elf e (q # qs))"
    using loader_at_present w m unfolding walkable_def by blast
qed

lemma walkable_Nil: "\<not> loader_present (loader_pos elf e [])"
  by (simp add: loader_present_def loader_pos_def)

definition image_end :: "mem \<Rightarrow> addr \<Rightarrow> addr" where
  "image_end m elf = elf + e_phoff (elf_header_at m elf) + PHSIZE * ucast (e_phnum (elf_header_at m elf))"

lemma loader_reset_walkable:
  assumes ok: "image_ok m0 elf" and f: "image_fixed ke kpt m0 elf" and m: "same_fixed ke kpt m0 m" and ld: "ld_elf ld = elf"
  shows "loader_reset m ld = retIO (loader_pos elf (image_end m0 elf) (segments m0 elf))"
    "walkable ke kpt m0 elf (image_end m0 elf) (segments m0 elf)"
proof -
  have r: "loader_reset m ld = retIO (loader_pos elf (image_end m0 elf) (segments m0 elf))
      \<and> loader_at m (loader_pos elf (image_end m0 elf) (segments m0 elf)) (segments m0 elf)" if "same_fixed ke kpt m0 m" for m
  proof -
    note s = image_same [OF f that]
    have ok': "image_ok m (ld_elf ld)" using ok s(1) ld by (simp add: image_ok_def)
    from loader_reset_visits [OF ok'] obtain ld' where ld': "loader_reset m ld = retIO ld'" "ld_elf ld' = elf" "loader_at m ld' (segments m0 elf)"
      using s(2) ld by auto
    have "ld_endph ld' = image_end m0 elf"
      using ld'(1) ok' ld s(1) loader_fix_end by (auto simp: loader_reset_def image_ok_def Let_def image_end_def bindIO_def)
    then show ?thesis using loader_at_pos [OF ld'(3)] ld' by simp
  qed
  show "loader_reset m ld = retIO (loader_pos elf (image_end m0 elf) (segments m0 elf))" using r [OF m] by simp
  show "walkable ke kpt m0 elf (image_end m0 elf) (segments m0 elf)" using r by (simp add: walkable_def)
qed

lemma loader_pos_fields:
  assumes "walkable ke kpt m0 elf e (q # qs)" "same_fixed ke kpt m0 m"
  shows "loader_va m (loader_pos elf e (q # qs)) = p_va (elf_program_at m q)"
    "loader_size m (loader_pos elf e (q # qs)) = p_memsz (elf_program_at m q)"
    "loader_data m (loader_pos elf e (q # qs)) = elf + p_offset (elf_program_at m q)"
    "loader_data_size m (loader_pos elf e (q # qs)) = p_filesz (elf_program_at m q)"
    "loader_writable m (loader_pos elf e (q # qs)) \<longleftrightarrow> p_flags (elf_program_at m q) AND ELF_PFLAG_WRITE \<noteq> 0"
  using walkable_next(2) [OF assms]
  by (simp_all add: loader_va_def loader_size_def loader_data_def loader_data_size_def loader_writable_def loader_present_def)
    (simp_all add: loader_pos_def)

lemma loader_pos_entry: "elf \<noteq> 0 \<Longrightarrow> loader_entry m (loader_pos elf e qs) = e_entry (elf_header_at m elf)"
  by (simp add: loader_entry_def loader_pos_def)

section \<open>Pages of segments\<close>

definition seg_first :: "elf_program \<Rightarrow> nat" where
  "seg_first h = unat (p_va h) div 4096"

definition seg_last :: "elf_program \<Rightarrow> nat" where
  "seg_last h = (unat (p_va h) + unat (p_memsz h) + 4095) div 4096"

definition seg_perm :: "elf_program \<Rightarrow> u64" where
  "seg_perm h = (if p_flags h AND ELF_PFLAG_WRITE \<noteq> 0 then 7 else 5)"

text \<open>A segment is not empty, lies between \<open>PROC_START_ADDR\<close> and the end of the first two megabytes, and its data
  lies in kernel memory.\<close>

definition seg_ok :: "addr \<Rightarrow> addr \<Rightarrow> addr \<Rightarrow> elf_program \<Rightarrow> bool" where
  "seg_ok ke kpt elf h \<longleftrightarrow>
     PROC_START_ADDR \<le> p_va h \<and> unat (p_va h) + unat (p_memsz h) \<le> 0x200000 \<and> 0 < p_memsz h \<and> p_filesz h \<le> p_memsz h
     \<and> (\<forall>x < unat (p_filesz h). fixed ke kpt (elf + p_offset h + of_nat x))"

lemma seg_okD:
  assumes "seg_ok ke kpt elf h"
  shows "256 \<le> seg_first h" "seg_last h \<le> 512" "seg_first h < seg_last h" "unat (p_filesz h) \<le> unat (p_memsz h)"
    "unat (p_va h) + unat (p_memsz h) \<le> 0x200000"
    "\<And>i. i \<le> 512 \<Longrightarrow> page_va i < p_va h + p_memsz h \<longleftrightarrow> i < seg_last h"
    "round_down (p_va h) (ucast PAGESIZE) = page_va (seg_first h)"
    "\<And>x. x < unat (p_memsz h) \<Longrightarrow> seg_first h \<le> unat (p_va h + of_nat x) div 4096 \<and> unat (p_va h + of_nat x) div 4096 < seg_last h
      \<and> unat (p_va h + of_nat x) = unat (p_va h) + x"
proof -
  have a: "0x100000 \<le> unat (p_va h)" "unat (p_va h) + unat (p_memsz h) \<le> 0x200000" "0 < unat (p_memsz h)" "unat (p_filesz h) \<le> unat (p_memsz h)"
    using assms by (simp_all add: seg_ok_def word_le_nat_alt word_less_nat_alt)
  show "unat (p_filesz h) \<le> unat (p_memsz h)" "unat (p_va h) + unat (p_memsz h) \<le> 0x200000" by (rule a)+
  show "256 \<le> seg_first h" using a(1) by (simp add: seg_first_def less_eq_div_iff_mult_less_eq)
  show "seg_last h \<le> 512" unfolding seg_last_def using a(2) by linarith
  show "seg_first h < seg_last h" unfolding seg_first_def seg_last_def using a(3) by linarith
  have u: "unat (p_va h + p_memsz h) = unat (p_va h) + unat (p_memsz h)" using a(2) by (subst unat_add_small) simp_all
  show "page_va i < p_va h + p_memsz h \<longleftrightarrow> i < seg_last h" if "i \<le> 512" for i
  proof -
    have "page_va i < p_va h + p_memsz h \<longleftrightarrow> 4096 * i < unat (p_va h) + unat (p_memsz h)"
      using that by (simp add: word_less_nat_alt u page_va_unat)
    then show ?thesis unfolding seg_last_def by linarith
  qed
  have "unat (round_down (p_va h) (ucast PAGESIZE)) = unat (p_va h) - unat (p_va h) mod 4096" by (simp add: unat_round_down)
  moreover have "unat (page_va (seg_first h)) = 4096 * (unat (p_va h) div 4096)"
    using a(2) by (simp add: page_va_unat seg_first_def)
  ultimately show "round_down (p_va h) (ucast PAGESIZE) = page_va (seg_first h)"
    by (simp add: word_unat_eq_iff minus_mod_eq_mult_div)
  fix x assume x: "x < unat (p_memsz h)"
  then have "unat (p_va h + of_nat x) = unat (p_va h) + x" using a(2) by (intro unat_add_of_nat) simp
  then show "seg_first h \<le> unat (p_va h + of_nat x) div 4096 \<and> unat (p_va h + of_nat x) div 4096 < seg_last h
      \<and> unat (p_va h + of_nat x) = unat (p_va h) + x"
    unfolding seg_first_def seg_last_def using x by linarith
qed

lemma setup_same_fixed:
  assumes "ke \<le> KERNEL_STACK_TOP" "mem_inv ke kpt P s0" "setup_inv ke kpt P c s0 n N M s"
  shows "same_fixed ke kpt (bytes s0) (bytes s)"
  unfolding same_fixed_def
proof (intro allI impI)
  fix a assume a: "fixed ke kpt a"
  note fp = fixed_page [OF assms(1) a]
  have "owned ke P s0 (page_base a)" by (intro kernel_page_owned [OF assms(2)] fp page_aligned_page_base)
  then show "bytes s a = bytes s0 a" using setup_invD(5) [OF assms(3) fp(2)] by (simp add: kept_def)
qed

definition map_range :: "pmap \<Rightarrow> nat \<Rightarrow> nat \<Rightarrow> nat \<Rightarrow> u64 \<Rightarrow> pmap" where
  "map_range M a b n p i = (if a \<le> i \<and> i < b then Some (page_va (n + (i - a)), p) else M i)"

lemma map_range_Suc: "a < b \<Longrightarrow> map_range (M(a \<mapsto> (page_va n, p))) (Suc a) b (Suc n) p = map_range M a b n p"
proof
  fix i
  assume "a < b"
  moreover have "Suc n + (i - Suc a) = n + (i - a)" if "Suc a \<le> i" using that by simp
  ultimately show "map_range (M(a \<mapsto> (page_va n, p))) (Suc a) b (Suc n) p i = map_range M a b n p i"
    by (cases "i = a") (auto simp: map_range_def simp del: add_Suc)
qed

lemma map_range_empty: "map_range M a a n p = M"
  by (auto simp: map_range_def fun_eq_iff)

text \<open>The inner loop: one page after the other, at consecutive physical addresses.\<close>

lemma alloc_pages_run:
  assumes kb: "ke \<le> KERNEL_STACK_TOP" and m0: "mem_inv ke kpt P s0" and w: "walkable ke kpt (bytes s0) elf e (q # qs)"
    and h: "\<And>m. same_fixed ke kpt (bytes s0) m \<Longrightarrow> elf_program_at m q = h" and ok: "seg_ok ke kpt elf h"
  shows "setup_inv ke kpt P c s0 n N M s \<Longrightarrow> M 0 \<noteq> None \<Longrightarrow> seg_first h \<le> i \<Longrightarrow> i \<le> seg_last h \<Longrightarrow> n + (seg_last h - i) \<le> N \<Longrightarrow>
    \<exists>s' va'. alloc_pages ke (loader_pos elf e (q # qs)) (page_va i) (fresh_iter (bytes s) c va) s = retIO (fresh_iter (bytes s') c va', s')
      \<and> setup_inv ke kpt P c s0 (n + (seg_last h - i)) N (map_range M i (seg_last h) n (seg_perm h)) s'"
proof (induction "seg_last h - i" arbitrary: i n M s va)
  case 0
  note so = seg_okD [OF ok]
  note sf = setup_same_fixed [OF kb m0 0(2)]
  have i: "i = seg_last h" using 0 by simp
  then have "\<not> page_va i < p_va h + p_memsz h" using so(2) so(6) [of i] by simp
  then have "alloc_pages ke (loader_pos elf e (q # qs)) (page_va i) (fresh_iter (bytes s) c va) s = retIO (fresh_iter (bytes s) c va, s)"
    using loader_pos_fields [OF w sf] h [OF sf] by (subst alloc_pages.simps) simp
  then show ?case using 0(2) i by (auto simp: map_range_empty)
next
  case (Suc x)
  note so = seg_okD [OF ok]
  note sf = setup_same_fixed [OF kb m0 Suc.prems(1)]
  have i: "i < seg_last h" "x = seg_last h - Suc i" "i < 512" "256 \<le> i" using Suc so(1,2) by linarith+
  have n: "n < N" using Suc.prems(5) i(1) by simp
  let ?s1 = "claim_page (page_va n) s" and ?p = "ucast (seg_perm h) :: u32"
  have p: "?p = 5 \<or> ?p = 7" "scast ?p = seg_perm h" by (simp_all add: seg_perm_def)
  have lv: "vm_level (fresh_iter (bytes s) c (page_va i)) = 0" using setup_level [OF Suc.prems(1,2), of i] i(3) by simp
  from setup_page [OF Suc.prems(1) i(4) _ p(1), of va] i(3) n lv obtain s' where s': "kalloc ke PAGESIZE s = (page_va n, ?s1)"
      "vm_find (bytes ?s1) (fresh_iter (bytes s) c va) (page_va i) = Inr (fresh_iter (bytes ?s1) c (page_va i))"
      "vm_map (kalloc ke PAGESIZE) (fresh_iter (bytes ?s1) c (page_va i)) (page_va n) ?p ?s1 = Inr (fresh_iter (bytes s') c (page_va i), s')"
      "setup_inv ke kpt P c s0 (Suc n) N (M(i \<mapsto> (page_va n, seg_perm h))) s'"
    by (auto simp: p(2))
  have sf1: "same_fixed ke kpt (bytes s0) (bytes ?s1)" by (rule setup_same_fixed [OF kb m0 setup_claim(3) [OF Suc.prems(1) n]])
  have "page_va i < p_va h + p_memsz h" using so(6) i by simp
  moreover have "(if loader_writable (bytes ?s1) (loader_pos elf e (q # qs)) then PTE_P OR PTE_W OR PTE_U else PTE_P OR PTE_U) = seg_perm h"
    using loader_pos_fields(5) [OF w sf1] h [OF sf1] by (simp add: seg_perm_def)
  ultimately have run: "alloc_pages ke (loader_pos elf e (q # qs)) (page_va i) (fresh_iter (bytes s) c va) s
      = alloc_pages ke (loader_pos elf e (q # qs)) (page_va (Suc i)) (fresh_iter (bytes s') c (page_va i)) s'"
    using loader_pos_fields [OF w sf] h [OF sf] s'(1-3) page_va_props(3) [of i] i(3)
    by (subst alloc_pages.simps) (simp add: Let_def)
  have "\<exists>s'' va'. alloc_pages ke (loader_pos elf e (q # qs)) (page_va (Suc i)) (fresh_iter (bytes s') c (page_va i)) s' = retIO (fresh_iter (bytes s'') c va', s'')
      \<and> setup_inv ke kpt P c s0 (Suc n + (seg_last h - Suc i)) N (map_range (M(i \<mapsto> (page_va n, seg_perm h))) (Suc i) (seg_last h) (Suc n) (seg_perm h)) s''"
    by (rule Suc.hyps(1) [OF i(2) s'(4)]) (use Suc.prems i in auto)
  moreover have "Suc n + (seg_last h - Suc i) = n + (seg_last h - i)" using i(1) by simp
  ultimately show ?case unfolding run map_range_Suc [OF i(1)] by (simp only:)
qed

text \<open>The pages of all segments; segments that share no page are placed one after the other.\<close>

definition image_pages :: "mem \<Rightarrow> addr list \<Rightarrow> nat list" where
  "image_pages m qs = concat (map (\<lambda>q. [seg_first (elf_program_at m q)..<seg_last (elf_program_at m q)]) qs)"

definition placed :: "pmap \<Rightarrow> elf_program \<Rightarrow> bool" where
  "placed M h \<longleftrightarrow>
     (\<exists>b. b + (seg_last h - seg_first h) \<le> 512
        \<and> (\<forall>i. seg_first h \<le> i \<and> i < seg_last h \<longrightarrow> M i = Some (page_va (b + (i - seg_first h)), seg_perm h)))"

lemma image_pages_simps [simp]:
  "image_pages m [] = []"
  "image_pages m (q # qs) = [seg_first (elf_program_at m q)..<seg_last (elf_program_at m q)] @ image_pages m qs"
  by (simp_all add: image_pages_def)

text \<open>What the segments of an image satisfy, whatever else is in memory.\<close>

definition segs_ok :: "addr \<Rightarrow> addr \<Rightarrow> mem \<Rightarrow> addr \<Rightarrow> addr list \<Rightarrow> bool" where
  "segs_ok ke kpt m0 elf qs \<longleftrightarrow>
     (\<forall>q \<in> set qs. seg_ok ke kpt elf (elf_program_at m0 q) \<and> (\<forall>m. same_fixed ke kpt m0 m \<longrightarrow> elf_program_at m q = elf_program_at m0 q))
     \<and> distinct (image_pages m0 qs)"

lemma segs_ok_seg: "segs_ok ke kpt m0 elf qs \<Longrightarrow> q \<in> set qs \<Longrightarrow> seg_ok ke kpt elf (elf_program_at m0 q)"
  unfolding segs_ok_def by blast

lemma alloc_segments_run:
  assumes kb: "ke \<le> KERNEL_STACK_TOP" and m0: "mem_inv ke kpt P s0"
  shows "walkable ke kpt (bytes s0) elf e qs \<Longrightarrow> segs_ok ke kpt (bytes s0) elf qs \<Longrightarrow> setup_inv ke kpt P c s0 n N M s \<Longrightarrow> M 0 \<noteq> None \<Longrightarrow>
    n + length (image_pages (bytes s0) qs) \<le> N \<Longrightarrow>
    \<exists>s' va' M'. alloc_segments ke (loader_pos elf e qs) (fresh_iter (bytes s) c va) s
          = retIO (loader_pos elf e [], fresh_iter (bytes s') c va', s')
      \<and> setup_inv ke kpt P c s0 (n + length (image_pages (bytes s0) qs)) N M' s'
      \<and> (\<forall>q \<in> set qs. placed M' (elf_program_at (bytes s0) q))
      \<and> (\<forall>i. i \<notin> set (image_pages (bytes s0) qs) \<longrightarrow> M' i = M i)"
proof (induction qs arbitrary: n M s va)
  case Nil
  then show ?case by (subst alloc_segments.simps) (auto simp: walkable_Nil)
next
  case (Cons q qs)
  let ?h = "elf_program_at (bytes s0) q" and ?ld = "loader_pos elf e (q # qs)"
  have ok: "seg_ok ke kpt elf ?h" and h: "\<And>m. same_fixed ke kpt (bytes s0) m \<Longrightarrow> elf_program_at m q = ?h"
    and segs: "segs_ok ke kpt (bytes s0) elf qs" and disj: "set [seg_first ?h..<seg_last ?h] \<inter> set (image_pages (bytes s0) qs) = {}"
    using Cons.prems(2) by (auto simp: segs_ok_def)
  note so = seg_okD [OF ok] and sf = setup_same_fixed [OF kb m0 Cons.prems(3)]
  let ?M = "map_range M (seg_first ?h) (seg_last ?h) n (seg_perm ?h)" and ?n = "n + (seg_last ?h - seg_first ?h)"
  from alloc_pages_run [OF kb m0 Cons.prems(1) h ok Cons.prems(3,4) order_refl less_imp_le [OF so(3)], of va] Cons.prems(5)
  obtain s1 va1 where s1: "alloc_pages ke ?ld (page_va (seg_first ?h)) (fresh_iter (bytes s) c va) s = retIO (fresh_iter (bytes s1) c va1, s1)"
      "setup_inv ke kpt P c s0 ?n N ?M s1" by auto
  note sf1 = setup_same_fixed [OF kb m0 s1(2)]
  note wn = walkable_next [OF Cons.prems(1) sf1]
  have run: "alloc_segments ke ?ld (fresh_iter (bytes s) c va) s = alloc_segments ke (loader_pos elf e qs) (fresh_iter (bytes s1) c va1) s1"
    using s1(1) wn(1,2) loader_pos_fields(1) [OF Cons.prems(1) sf] h [OF sf] so(7) by (subst alloc_segments.simps) simp
  have z: "?M 0 \<noteq> None" using Cons.prems(4) so(1) by (simp add: map_range_def)
  have "\<exists>s' va' M'. alloc_segments ke (loader_pos elf e qs) (fresh_iter (bytes s1) c va1) s1
          = retIO (loader_pos elf e [], fresh_iter (bytes s') c va', s')
      \<and> setup_inv ke kpt P c s0 (?n + length (image_pages (bytes s0) qs)) N M' s'
      \<and> (\<forall>q \<in> set qs. placed M' (elf_program_at (bytes s0) q))
      \<and> (\<forall>i. i \<notin> set (image_pages (bytes s0) qs) \<longrightarrow> M' i = ?M i)"
    by (rule Cons.IH [OF wn(3) segs s1(2) z]) (use Cons.prems(5) in simp)
  then obtain s' va' M' where r: "alloc_segments ke (loader_pos elf e qs) (fresh_iter (bytes s1) c va1) s1
          = retIO (loader_pos elf e [], fresh_iter (bytes s') c va', s')"
      "setup_inv ke kpt P c s0 (?n + length (image_pages (bytes s0) qs)) N M' s'"
      "\<forall>q \<in> set qs. placed M' (elf_program_at (bytes s0) q)"
      "\<forall>i. i \<notin> set (image_pages (bytes s0) qs) \<longrightarrow> M' i = ?M i" by blast
  have "N \<le> 512" using setup_invD(9) [OF s1(2)] by (simp add: free_run_def)
  then have "?n \<le> 512" using Cons.prems(5) by simp
  moreover have "M' i = Some (page_va (n + (i - seg_first ?h)), seg_perm ?h)" if i: "seg_first ?h \<le> i \<and> i < seg_last ?h" for i
  proof -
    have "i \<notin> set (image_pages (bytes s0) qs)" using disj i by auto
    then have "M' i = ?M i" using r(4) by blast
    then show ?thesis using i by (simp only: map_range_def simp_thms if_True)
  qed
  ultimately have "placed M' ?h" unfolding placed_def by blast
  moreover have "M' i = M i" if "i \<notin> set (image_pages (bytes s0) (q # qs))" for i
    using that r(4) by (auto simp: map_range_def)
  moreover have "n + length (image_pages (bytes s0) (q # qs)) = ?n + length (image_pages (bytes s0) qs)" by simp
  ultimately show ?case unfolding run using r by (intro exI [of _ s'] exI [of _ va'] exI [of _ M']) (simp only: list.set ball_simps, simp)
qed

section \<open>Copying\<close>

lemma setup_translate:
  assumes "setup_inv ke kpt P c s0 n N M s" "M (unat v div 4096) = Some (q, p)"
  obtains perm where "translate (bytes s) c v = Some (q + (v AND PAGEOFFMASK), perm)" "perm AND 7 = p" "is_user perm \<longleftrightarrow> is_user p"
proof -
  have "\<exists>perm. translate (bytes s) c v = Some (q + (v AND PAGEOFFMASK), perm) \<and> perm AND 7 = p"
    using setup_invD(10) [OF assms(1), unfolded page_map_def, rule_format, of v] assms(2) by simp
  then obtain perm where perm: "translate (bytes s) c v = Some (q + (v AND PAGEOFFMASK), perm)" "perm AND 7 = p" by blast
  then show thesis using that is_user_7 [of perm] by simp
qed

lemma setup_user_map:
  assumes "setup_inv ke kpt P c s0 n N M s" "M (unat v div 4096) = Some (q, p)" "is_user p" "page_aligned q"
  shows "user_map (bytes s) c v q False"
proof -
  from setup_translate [OF assms(1,2)] obtain perm where "translate (bytes s) c v = Some (q + (v AND PAGEOFFMASK), perm)"
      "is_user perm \<longleftrightarrow> is_user p" .
  then show ?thesis using assms(3) page_base_offset [OF assms(4)] by (simp add: user_map_def)
qed

text \<open>Pages of the process other than the console.\<close>

definition own_frames :: "addr \<Rightarrow> kmem \<Rightarrow> pmap \<Rightarrow> addr set" where
  "own_frames ke s0 M = {q. \<exists>i p. i < 768 \<and> M i = Some (q, p) \<and> is_user p \<and> q \<in> avail ke s0}"

lemma own_frames_user:
  assumes inv: "setup_inv ke kpt P c s0 n N M s" and q: "q \<in> own_frames ke s0 M"
  shows "\<exists>v. user_map (bytes s) c v q False" "page_aligned q" "q \<in> avail ke s0" "q \<notin> tables (bytes s) (insert kpt (insert c P))"
proof -
  from q obtain i p where i: "i < 768" "M i = Some (q, p)" "is_user p" "q \<in> avail ke s0" by (auto simp: own_frames_def)
  show al: "page_aligned q" by (rule avail_aligned [OF i(4)])
  have "unat (page_va i) div 4096 = i" using i(1) by (simp add: page_va_unat)
  then have um: "user_map (bytes s) c (page_va i) q False" by (intro setup_user_map [OF inv _ i(3) al]) (simp add: i(2))
  then show "\<exists>v. user_map (bytes s) c v q False" by blast
  show "q \<in> avail ke s0" by (rule i(4))
  have "as_inv (avail ke) kpt (insert c P) s" using setup_invD(1) [OF inv] by (simp add: mem_inv_def)
  then show "q \<notin> tables (bytes s) (insert kpt (insert c P))" using um by (auto simp: as_inv_def frames_ok_def)
qed

lemma setup_write:
  assumes m0: "mem_inv ke kpt P s0" and inv: "setup_inv ke kpt P c s0 n N M s"
    and W: "W \<subseteq> own_frames ke s0 M" and out: "\<And>a. page_base a \<notin> W \<Longrightarrow> m a = bytes s a"
  shows "setup_inv ke kpt P c s0 n N M (s\<lparr>bytes := m\<rparr>)" "\<And>v. translate m c v = translate (bytes s) c v"
    "\<And>v. fresh_iter m c v = fresh_iter (bytes s) c v"
proof -
  let ?P = "insert c P" and ?s = "s\<lparr>bytes := m\<rparr>"
  note d = setup_invD [OF inv]
  have w: "page_aligned q" "q \<in> avail ke s0" "q \<notin> tables (bytes s) (insert kpt ?P)" if "q \<in> W" for q
    using own_frames_user [OF inv] W that by blast+
  have ag: "agree_on (tables (bytes s) (insert kpt ?P)) (bytes s) m" unfolding agree_on_def using w(3) out by metis
  note mi = mem_inv_agree [OF d(1) ag]
  show tr: "\<And>v. translate m c v = translate (bytes s) c v" using mi(2) by simp
  have agc: "agree_on (tables (bytes s) {c}) (bytes s) m"
    using ag tables_mono [of "{c}" "insert kpt ?P" "bytes s"] by (auto simp: agree_on_def)
  show "\<And>v. fresh_iter m c v = fresh_iter (bytes s) c v" by (rule fresh_iter_agree [OF mem_invD(5) [OF d(1) insertI1] agc])
  have av: "avail ke ?s = avail ke s" by (rule ka.free_bytes)
  have um: "user_map m r v q w = user_map (bytes s) r v q w" if "r \<in> ?P" for r v q w using mi(2) that by (intro user_map_cong) simp
  have kp: "kept ke z P s0 ?P ?s" if "z \<noteq> CONSOLE_ADDR" for z
  proof -
    have "z \<notin> W" if "owned ke P s0 z" using that w(2) by (auto simp: owned_def)
    moreover have "mappers m ?P z = mappers (bytes s) ?P z" using um by (auto simp: mappers_def)
    ultimately show ?thesis using d(5) [OF that] mi(3) av out by (auto simp: kept_def owned_def)
  qed
  have "user_load m r v = user_load (bytes s) r v" if r: "r \<in> P" for r v
  proof (rule user_load_cong [where T = W])
    show "translate m r v = translate (bytes s) r v" using mi(2) r by simp
    fix q assume "user_map (bytes s) r v q False"
    then have "user_map (bytes s0) r v q False" using user_map_cong [OF d(3) [OF r]] by simp
    then have "q \<notin> avail ke s0" using m0 r by (auto simp: mem_inv_def as_inv_def frames_ok_def)
    then show "q \<notin> W" using w(2) by blast
  qed (rule out)
  moreover have "ktables kpt kernel_entries m"
  proof -
    have "ktables kpt kernel_entries (bytes ?s)"
    proof (rule ktables_kept [OF _ d(6)])
      show "as_inv (avail ke) kpt ?P s" using d(1) by (simp add: mem_inv_def)
      fix z assume "z \<in> tables (bytes s) {kpt}"
      then have "z \<notin> W" using w(3) tables_mono [of "{kpt}" "insert kpt ?P" "bytes s"] by blast
      moreover have "mappers m ?P z = mappers (bytes s) ?P z" using um by (auto simp: mappers_def)
      ultimately show "kept ke z ?P s ?P ?s" using mi(3) av out by (auto simp: kept_def owned_def)
    qed
    then show ?thesis by simp
  qed
  moreover have "free_run ke n N ?s" using d(9) free_run_pages [of ?s s] by simp
  moreover have "page_map m c M" using d(10) page_map_cong [of m c "bytes s"] tr by simp
  ultimately show "setup_inv ke kpt P c s0 n N M ?s"
    using mi(1,2) d(2,3,4,7,8) kp av unfolding setup_inv_def by auto
qed

lemma range_pages:
  assumes "unat (a - pa) < z" "4096 * b \<le> unat pa" "unat pa + z \<le> 4096 * e" "e \<le> 512"
  shows "page_base a \<in> page_va ` {b..<e}" "unat a = unat pa + unat (a - pa)"
proof -
  have "unat (pa + (a - pa)) = unat pa + unat (a - pa)" using assms by (intro unat_add_small) simp
  then show u: "unat a = unat pa + unat (a - pa)" by simp
  let ?j = "unat a div 4096"
  have j: "b \<le> ?j" "?j < e" using u assms by linarith+
  then have "page_base a = page_va ?j" using assms(4) by (simp add: word_unat_eq_iff unat_page_base page_va_unat)
  then show "page_base a \<in> page_va ` {b..<e}" using j by auto
qed

lemma is_user_seg: "is_user (seg_perm h)"
  by (simp add: seg_perm_def is_user_def)

lemma seg_frames:
  assumes inv: "setup_inv ke kpt P c s0 n N M s" and ok: "seg_ok ke kpt elf h"
    and pl: "\<forall>i. seg_first h \<le> i \<and> i < seg_last h \<longrightarrow> M i = Some (page_va (b + (i - seg_first h)), seg_perm h)"
    and b: "b + (seg_last h - seg_first h) \<le> 512"
  shows "page_va ` {b..<b + (seg_last h - seg_first h)} \<subseteq> own_frames ke s0 M"
proof
  fix q assume "q \<in> page_va ` {b..<b + (seg_last h - seg_first h)}"
  then obtain j where j: "b \<le> j" "j < b + (seg_last h - seg_first h)" "q = page_va j" by auto
  let ?i = "seg_first h + (j - b)"
  note so = seg_okD [OF ok]
  have i: "seg_first h \<le> ?i" "?i < seg_last h" "256 \<le> ?i" "?i < 768" using j so(1,2) by linarith+
  have M: "M ?i = Some (q, seg_perm h)" using pl [rule_format, of ?i] i(1,2) j(1,3) by simp
  have q: "page_aligned q" using page_va_props(1) [of j] j b by simp
  have u: "unat (page_va ?i) = 4096 * ?i" using i(4) by (intro page_va_unat) simp
  then have "unat (page_va ?i) div 4096 = ?i" by simp
  then have "user_map (bytes s) c (page_va ?i) q False" by (intro setup_user_map [OF inv _ is_user_seg q]) (simp add: M)
  then have "q = CONSOLE_ADDR \<and> page_base (page_va ?i) = CONSOLE_ADDR \<or> allocatable_physical_address ke q"
    using mem_invD(3) [OF setup_invD(1) [OF inv] insertI1] unfolding maps_ok_def by blast
  moreover have "page_base (page_va ?i) \<noteq> CONSOLE_ADDR"
    using u i(3,4) by (intro user_va_not_console) (simp add: user_va_def word_le_nat_alt word_less_nat_alt)
  ultimately have "q \<noteq> CONSOLE_ADDR" using allocatable_not_console by blast
  then have "q \<in> avail ke s0" using setup_invD(8) [OF inv M is_user_seg] by simp
  then show "q \<in> own_frames ke s0 M" using M i(4) is_user_seg unfolding own_frames_def by blast
qed

lemma place_arith:
  fixes b :: nat
  assumes "4096 * i + r = va + x" "4096 * f + r0 = va" "f \<le> i"
  shows "4096 * (b + (i - f)) + r = 4096 * b + r0 + x"
  using assms by (simp add: distrib_left diff_mult_distrib2)

lemma seg_target:
  assumes ok: "seg_ok ke kpt elf h"
    and pl: "\<forall>i. seg_first h \<le> i \<and> i < seg_last h \<longrightarrow> M i = Some (page_va (b + (i - seg_first h)), seg_perm h)"
    and b: "b + (seg_last h - seg_first h) \<le> 512"
  defines "pa \<equiv> page_va b + (p_va h AND PAGEOFFMASK)"
  shows "4096 * b \<le> unat pa" "unat pa + unat (p_memsz h) \<le> 4096 * (b + (seg_last h - seg_first h))"
    "x < unat (p_memsz h) \<Longrightarrow> \<exists>q. M (unat (p_va h + of_nat x) div 4096) = Some (q, seg_perm h)
       \<and> q + ((p_va h + of_nat x) AND PAGEOFFMASK) = pa + of_nat x"
proof -
  note so = seg_okD [OF ok]
  have ub: "unat (page_va b) = 4096 * b" using b by (intro page_va_unat) simp
  have "unat (p_va h AND PAGEOFFMASK) < 4096" by (simp add: unat_and_pageoffmask)
  then have pa: "unat pa = 4096 * b + unat (p_va h) mod 4096"
    unfolding pa_def using ub b by (subst unat_add_small) (simp_all add: unat_and_pageoffmask)
  then show "4096 * b \<le> unat pa" by simp
  have k: "4096 * seg_first h + unat (p_va h) mod 4096 = unat (p_va h)" by (simp add: seg_first_def)
  have l: "unat (p_va h) + unat (p_memsz h) \<le> 4096 * seg_last h" unfolding seg_last_def by linarith
  have bk: "4096 * (b + (seg_last h - seg_first h)) = 4096 * b + (4096 * seg_last h - 4096 * seg_first h)" by (simp add: distrib_left diff_mult_distrib2)
  show top: "unat pa + unat (p_memsz h) \<le> 4096 * (b + (seg_last h - seg_first h))" unfolding bk pa using k l so(3) by linarith
  assume x: "x < unat (p_memsz h)"
  let ?v = "p_va h + of_nat x"
  note xv = so(8) [OF x]
  let ?i = "unat ?v div 4096"
  have M: "M ?i = Some (page_va (b + (?i - seg_first h)), seg_perm h)" using pl xv by blast
  have bi: "b + (?i - seg_first h) \<le> 512" using b xv by linarith
  have "unat (page_va (b + (?i - seg_first h)) + (?v AND PAGEOFFMASK)) = 4096 * (b + (?i - seg_first h)) + unat ?v mod 4096"
    using bi by (subst unat_add_small) (simp_all add: page_va_unat unat_and_pageoffmask)
  moreover have "unat (pa + of_nat x) = unat pa + x" using top x b by (intro unat_add_of_nat) simp
  moreover have "4096 * (b + (?i - seg_first h)) + unat ?v mod 4096 = unat pa + x"
    unfolding pa by (rule place_arith [of _ _ "unat (p_va h)"]) (use k xv in simp_all)
  ultimately have "page_va (b + (?i - seg_first h)) + (?v AND PAGEOFFMASK) = pa + of_nat x" by (simp add: word_unat_eq_iff)
  then show "\<exists>q. M ?i = Some (q, seg_perm h) \<and> q + (?v AND PAGEOFFMASK) = pa + of_nat x" using M by blast
qed

lemma memcpy_outside:
  assumes "\<And>j. j < unat n \<Longrightarrow> src + of_nat j \<noteq> dst"
  shows "memcpy m dst src n a = (if unat (a - dst) < unat n then m (src + (a - dst)) else m a)"
  unfolding memcpy_def
proof (rule memcpy_loop_apply)
  show "unat n \<le> 2 ^ 64" using unat_lt2p [of n] by simp
  show "dst \<noteq> src + of_nat j" if "j < unat n" for j using assms [OF that] by simp
qed

text \<open>The memory after a segment has been cleared and its data copied.\<close>

lemma copy_segment:
  assumes kb: "ke \<le> KERNEL_STACK_TOP" and m0: "mem_inv ke kpt P s0" and inv: "setup_inv ke kpt P c s0 n N M s" and ok: "seg_ok ke kpt elf h" and pl: "placed M h"
  shows "\<exists>pa. vm_pa (bytes s) (fresh_iter (bytes s) c (p_va h)) = pa
    \<and> (let b1 = memset (bytes s) pa 0 (p_memsz h); b2 = memcpy b1 pa (elf + p_offset h) (p_filesz h) in
        vm_pa b1 (fresh_iter (bytes s) c (p_va h)) = pa
        \<and> setup_inv ke kpt P c s0 n N M (s\<lparr>bytes := b1\<rparr>) \<and> setup_inv ke kpt P c s0 n N M (s\<lparr>bytes := b2\<rparr>)
        \<and> (\<forall>v. fresh_iter b2 c v = fresh_iter (bytes s) c v)
        \<and> (\<forall>x < unat (p_memsz h). user_load b2 c (p_va h + of_nat x)
             = Some (Byte (if x < unat (p_filesz h) then bytes s0 (elf + p_offset h + of_nat x) else 0)))
        \<and> (\<forall>v. unat v div 4096 \<notin> {seg_first h..<seg_last h} \<longrightarrow> user_load b2 c v = user_load (bytes s) c v))"
proof -
  let ?k = "seg_last h - seg_first h"
  from pl obtain b where b: "b + ?k \<le> 512"
      and M: "\<forall>i. seg_first h \<le> i \<and> i < seg_last h \<longrightarrow> M i = Some (page_va (b + (i - seg_first h)), seg_perm h)"
    unfolding placed_def by blast
  define pa where "pa = page_va b + (p_va h AND PAGEOFFMASK)"
  define W where "W = page_va ` {b..<b + ?k}"
  define b1 where "b1 = memset (bytes s) pa 0 (p_memsz h)"
  define b2 where "b2 = memcpy b1 pa (elf + p_offset h) (p_filesz h)"
  note so = seg_okD [OF ok] and tg = seg_target [OF ok M b, folded pa_def]
  have WF: "W \<subseteq> own_frames ke s0 M" unfolding W_def by (rule seg_frames [OF inv ok M b])
  note rp = range_pages [OF _ tg(1,2) b, folded W_def]
  have fx: "page_base (elf + p_offset h + of_nat x) \<notin> W" if "x < unat (p_filesz h)" for x
  proof
    assume "page_base (elf + p_offset h + of_nat x) \<in> W"
    then have "page_base (elf + p_offset h + of_nat x) \<in> avail ke s0" using own_frames_user(3) [OF inv] WF by blast
    moreover have "fixed ke kpt (elf + p_offset h + of_nat x)" using ok that by (simp add: seg_ok_def)
    ultimately show False using fixed_page(1) [OF kb] by (simp add: avail_def)
  qed
  have "unat (pa - pa) < unat (p_memsz h)" using ok by (simp add: seg_ok_def word_less_nat_alt)
  then have paW: "page_base pa \<in> W" by (rule rp(1))
  have b1: "b1 a = (if unat (a - pa) < unat (p_memsz h) then 0 else bytes s a)" for a unfolding b1_def by (simp add: memset_apply)
  have b2: "b2 a = (if unat (a - pa) < unat (p_filesz h) then b1 (elf + p_offset h + (a - pa)) else b1 a)" for a
    unfolding b2_def by (rule memcpy_outside) (use fx paW in auto)
  have o1: "b1 a = bytes s a" if "page_base a \<notin> W" for a using b1 [of a] rp(1) [of a] that by auto
  have o2: "b2 a = bytes s a" if a: "page_base a \<notin> W" for a
  proof -
    have "\<not> unat (a - pa) < unat (p_memsz h)" using rp(1) [of a] a by blast
    then show ?thesis using b1 [of a] b2 [of a] so(4) by simp
  qed
  note w1 = setup_write [OF m0 inv WF o1] and w2 = setup_write [OF m0 inv WF o2]
  have t0: "vm_pa m (fresh_iter m c (p_va h)) = pa" if "setup_inv ke kpt P c s0 n N M (s\<lparr>bytes := m\<rparr>)" for m
  proof -
    obtain q where q: "M (unat (p_va h) div 4096) = Some (q, seg_perm h)" "q + (p_va h AND PAGEOFFMASK) = pa"
      using tg(3) [of 0] ok by (auto simp: seg_ok_def word_less_nat_alt)
    from setup_translate [OF that q(1)] obtain perm where "translate m c (p_va h) = Some (pa, perm)" using q(2) by auto
    then show ?thesis by (simp add: vm_pa_fresh)
  qed
  have "vm_pa (bytes s) (fresh_iter (bytes s) c (p_va h)) = pa" using t0 [of "bytes s"] inv by simp
  moreover have "vm_pa b1 (fresh_iter (bytes s) c (p_va h)) = pa" using t0 [OF w1(1)] w1(3) by simp
  moreover have "user_load b2 c (p_va h + of_nat x) = Some (Byte (if x < unat (p_filesz h) then bytes s0 (elf + p_offset h + of_nat x) else 0))"
    if x: "x < unat (p_memsz h)" for x
  proof -
    from tg(3) [OF x] obtain q where q: "M (unat (p_va h + of_nat x) div 4096) = Some (q, seg_perm h)"
        "q + ((p_va h + of_nat x) AND PAGEOFFMASK) = pa + of_nat x" by blast
    from setup_translate [OF w2(1) q(1)] obtain perm where "translate b2 c (p_va h + of_nat x) = Some (pa + of_nat x, perm)" "is_user perm"
      using q(2) is_user_seg by auto
    moreover have ux: "unat (of_nat x :: u64) = x" using x so(5) by (intro unat_of_nat_small) simp
    then have "page_base (pa + of_nat x) \<in> W" using rp(1) [of "pa + of_nat x"] x by simp
    then have "page_base (pa + of_nat x) \<in> avail ke s0" using own_frames_user(3) [OF inv] WF by blast
    then have "page_base (pa + of_nat x) \<noteq> CONSOLE_ADDR" using allocatable_not_console by (auto simp: avail_def)
    ultimately have l: "user_load b2 c (p_va h + of_nat x) = Some (Byte (b2 (pa + of_nat x)))" by (simp add: user_load_def content_at_def)
    show ?thesis
    proof (cases "x < unat (p_filesz h)")
      case True
      then have "b2 (pa + of_nat x) = bytes s (elf + p_offset h + of_nat x)" using b2 [of "pa + of_nat x"] ux o1 [OF fx] by simp
      moreover have "fixed ke kpt (elf + p_offset h + of_nat x)" using ok True by (simp add: seg_ok_def)
      then have "bytes s (elf + p_offset h + of_nat x) = bytes s0 (elf + p_offset h + of_nat x)"
        using setup_same_fixed [OF kb m0 inv] by (simp add: same_fixed_def)
      ultimately show ?thesis using l True by simp
    next
      case False
      then show ?thesis using l b2 [of "pa + of_nat x"] b1 [of "pa + of_nat x"] ux x by simp
    qed
  qed
  moreover have "user_load b2 c v = user_load (bytes s) c v" if v: "unat v div 4096 \<notin> {seg_first h..<seg_last h}" for v
  proof (rule user_load_cong [where T = W])
    fix q assume um: "user_map (bytes s) c v q False"
    show "q \<notin> W"
    proof
      assume "q \<in> W"
      then obtain j where j: "b \<le> j" "j < b + ?k" "q = page_va j" by (auto simp: W_def)
      let ?i = "seg_first h + (j - b)"
      have i: "seg_first h \<le> ?i" "?i < seg_last h" using j by linarith+
      have u: "unat (page_va ?i) div 4096 = ?i" using i so(2) by (simp add: page_va_unat)
      have "M (unat (page_va ?i) div 4096) = Some (q, seg_perm h)" using M [rule_format, of ?i] i j(1,3) u by simp
      then have "user_map (bytes s) c (page_va ?i) q False" using j b page_va_props(1) [of j] by (intro setup_user_map [OF inv _ is_user_seg]) auto
      then have "same_above 0 v (page_va ?i)"
        using mem_invD(4) [OF setup_invD(1) [OF inv] insertI1] um unfolding single_def by blast
      then show False using v i u by (simp add: same_above_div)
    qed
  qed (use w2(2) o2 in auto)
  ultimately show ?thesis unfolding Let_def b1_def [symmetric] b2_def [symmetric] using w1(1) w2(1,3)
    by (intro exI [of _ pa]) (simp add: b1_def [symmetric] b2_def [symmetric])
qed

text \<open>The segment \<open>h\<close> of the image at \<open>elf\<close> in \<open>m0\<close> is what the process \<open>c\<close> reads: the data of the file, then zeroes.\<close>

definition seg_loaded :: "mem \<Rightarrow> addr \<Rightarrow> mem \<Rightarrow> addr \<Rightarrow> elf_program \<Rightarrow> bool" where
  "seg_loaded m0 elf m c h \<longleftrightarrow>
     (\<forall>x < unat (p_memsz h). user_load m c (p_va h + of_nat x)
        = Some (Byte (if x < unat (p_filesz h) then m0 (elf + p_offset h + of_nat x) else 0)))"

lemma copy_segments_run:
  assumes kb: "ke \<le> KERNEL_STACK_TOP" and m0: "mem_inv ke kpt P s0"
  shows "walkable ke kpt (bytes s0) elf e qs \<Longrightarrow> segs_ok ke kpt (bytes s0) elf qs \<Longrightarrow> setup_inv ke kpt P c s0 n N M s \<Longrightarrow>
    \<forall>q \<in> set qs. placed M (elf_program_at (bytes s0) q) \<Longrightarrow>
    \<exists>s' va'. copy_segments (loader_pos elf e qs) (fresh_iter (bytes s) c va) s = retIO (loader_pos elf e [], fresh_iter (bytes s') c va', s')
      \<and> setup_inv ke kpt P c s0 n N M s'
      \<and> (\<forall>q \<in> set qs. seg_loaded (bytes s0) elf (bytes s') c (elf_program_at (bytes s0) q))
      \<and> (\<forall>v. unat v div 4096 \<notin> set (image_pages (bytes s0) qs) \<longrightarrow> user_load (bytes s') c v = user_load (bytes s) c v)"
proof (induction qs arbitrary: s va)
  case Nil
  then show ?case by (subst copy_segments.simps) (auto simp: walkable_Nil)
next
  case (Cons q qs)
  let ?h = "elf_program_at (bytes s0) q" and ?ld = "loader_pos elf e (q # qs)"
  have ok: "seg_ok ke kpt elf ?h" and h: "\<And>m. same_fixed ke kpt (bytes s0) m \<Longrightarrow> elf_program_at m q = ?h"
    and segs: "segs_ok ke kpt (bytes s0) elf qs" and disj: "{seg_first ?h..<seg_last ?h} \<inter> set (image_pages (bytes s0) qs) = {}"
    using Cons.prems(2) by (auto simp: segs_ok_def)
  have pl: "placed M ?h" "\<forall>q \<in> set qs. placed M (elf_program_at (bytes s0) q)" using Cons.prems(4) by simp_all
  note so = seg_okD [OF ok] and sf = setup_same_fixed [OF kb m0 Cons.prems(3)]
  from copy_segment [OF kb m0 Cons.prems(3) ok pl(1)] obtain pa b1 b2
    where b: "vm_pa (bytes s) (fresh_iter (bytes s) c (p_va ?h)) = pa" "b1 = memset (bytes s) pa 0 (p_memsz ?h)"
        "b2 = memcpy b1 pa (elf + p_offset ?h) (p_filesz ?h)" "vm_pa b1 (fresh_iter (bytes s) c (p_va ?h)) = pa"
        "setup_inv ke kpt P c s0 n N M (s\<lparr>bytes := b1\<rparr>)" "setup_inv ke kpt P c s0 n N M (s\<lparr>bytes := b2\<rparr>)"
        "\<forall>v. fresh_iter b2 c v = fresh_iter (bytes s) c v"
        "\<forall>x < unat (p_memsz ?h). user_load b2 c (p_va ?h + of_nat x)
             = Some (Byte (if x < unat (p_filesz ?h) then bytes s0 (elf + p_offset ?h + of_nat x) else 0))"
        "\<forall>v. unat v div 4096 \<notin> {seg_first ?h..<seg_last ?h} \<longrightarrow> user_load b2 c v = user_load (bytes s) c v"
    unfolding Let_def by blast
  note sf1 = setup_same_fixed [OF kb m0 b(5)] and sf2 = setup_same_fixed [OF kb m0 b(6)]
  note lf = loader_pos_fields [OF Cons.prems(1)]
  have wn: "loader_next b2 ?ld = retIO (loader_pos elf e qs)" "loader_present ?ld" "walkable ke kpt (bytes s0) elf e qs"
    using walkable_next [OF Cons.prems(1) sf2] by simp_all
  have f: "vm_find (bytes s) (fresh_iter (bytes s) c va) (p_va ?h) = Inr (fresh_iter (bytes s) c (p_va ?h))"
    using so(5) by (intro setup_find(1) [OF Cons.prems(3)]) (simp add: word_less_nat_alt)
  have d1: "loader_data b1 ?ld = elf + p_offset ?h" "loader_data_size b1 ?ld = p_filesz ?h"
    using lf(3,4) [OF sf1] h [OF sf1] by simp_all
  have d0: "loader_va (bytes s) ?ld = p_va ?h" "loader_size (bytes s) ?ld = p_memsz ?h" using lf(1,2) [OF sf] h [OF sf] by simp_all
  have run: "copy_segments ?ld (fresh_iter (bytes s) c va) s
      = copy_segments (loader_pos elf e qs) (fresh_iter b2 c (p_va ?h)) (s\<lparr>bytes := b2\<rparr>)"
    by (subst copy_segments.simps) (simp add: wn(1,2) f d0 b(1) b(2) [symmetric] b(4) d1 b(3) [symmetric] b(7) Let_def)
  have "\<exists>s' va'. copy_segments (loader_pos elf e qs) (fresh_iter (bytes (s\<lparr>bytes := b2\<rparr>)) c (p_va ?h)) (s\<lparr>bytes := b2\<rparr>)
        = retIO (loader_pos elf e [], fresh_iter (bytes s') c va', s')
      \<and> setup_inv ke kpt P c s0 n N M s'
      \<and> (\<forall>q \<in> set qs. seg_loaded (bytes s0) elf (bytes s') c (elf_program_at (bytes s0) q))
      \<and> (\<forall>v. unat v div 4096 \<notin> set (image_pages (bytes s0) qs) \<longrightarrow> user_load (bytes s') c v = user_load (bytes (s\<lparr>bytes := b2\<rparr>)) c v)"
    by (rule Cons.IH [OF wn(3) segs b(6) pl(2)])
  then obtain s' va' where r: "copy_segments ?ld (fresh_iter (bytes s) c va) s = retIO (loader_pos elf e [], fresh_iter (bytes s') c va', s')"
      "setup_inv ke kpt P c s0 n N M s'" "\<forall>q \<in> set qs. seg_loaded (bytes s0) elf (bytes s') c (elf_program_at (bytes s0) q)"
      "\<forall>v. unat v div 4096 \<notin> set (image_pages (bytes s0) qs) \<longrightarrow> user_load (bytes s') c v = user_load b2 c v"
    unfolding run by auto
  have "seg_loaded (bytes s0) elf (bytes s') c ?h"
    unfolding seg_loaded_def
  proof (intro allI impI)
    fix x assume x: "x < unat (p_memsz ?h)"
    have "unat (p_va ?h + of_nat x) div 4096 \<notin> set (image_pages (bytes s0) qs)" using so(8) [OF x] disj by auto
    then show "user_load (bytes s') c (p_va ?h + of_nat x) = Some (Byte (if x < unat (p_filesz ?h) then bytes s0 (elf + p_offset ?h + of_nat x) else 0))"
      using r(4) b(8) x by metis
  qed
  moreover have "user_load (bytes s') c v = user_load (bytes s) c v" if "unat v div 4096 \<notin> set (image_pages (bytes s0) (q # qs))" for v
    using that r(4) b(9) by auto
  ultimately show ?case using r(1-3) by (intro exI [of _ s'] exI [of _ va']) auto
qed

end
