(* ===== verification/Boot_Spec.thy ===== *)
theory Boot_Spec
  imports Setup_Load
begin

text \<open>
  What \<open>process_setup\<close> achieves, and that the kernel, started on a machine whose memory holds well-formed
  images, reaches its first process in a state that satisfies the invariant of the system.
\<close>

section \<open>Programs\<close>

definition fixed_cstr :: "addr \<Rightarrow> addr \<Rightarrow> mem \<Rightarrow> addr \<Rightarrow> u8 list \<Rightarrow> bool" where
  "fixed_cstr ke kpt m p xs \<longleftrightarrow> cstr m p xs \<and> (\<forall>x \<le> length xs. fixed ke kpt (p + of_nat x))"

text \<open>The program \<open>name\<close> is the image at \<open>elf\<close>: names and images lie in kernel memory, the image has the right magic
  number, and its loadable segments are in order and share no page.\<close>

definition program_ok :: "addr \<Rightarrow> addr \<Rightarrow> programs \<Rightarrow> mem \<Rightarrow> addr \<Rightarrow> addr \<Rightarrow> bool" where
  "program_ok ke kpt pg m name elf \<longleftrightarrow>
     (\<exists>nm ss. fixed_cstr ke kpt m name nm \<and> list_all2 (\<lambda>r s. fixed_cstr ke kpt m (ri_name r) s) (ramimages pg) ss \<and> nm \<in> set ss
        \<and> elf = ri_begin (ramimages pg ! length (takeWhile (\<lambda>s. s \<noteq> nm) ss)))
     \<and> image_ok m elf \<and> image_fixed ke kpt m elf \<and> (\<forall>q \<in> set (segments m elf). seg_ok ke kpt elf (elf_program_at m q))
     \<and> distinct (image_pages m (segments m elf))"

definition program_size :: "mem \<Rightarrow> addr \<Rightarrow> nat" where
  "program_size m elf = length (image_pages m (segments m elf))"

lemma cstr_same: "\<forall>x \<le> length xs. m' (p + of_nat x) = m (p + of_nat x) \<Longrightarrow> cstr m' p xs = cstr m p xs"
proof (induction xs arbitrary: p)
  case (Cons b xs)
  have z: "m' p = m p" using Cons.prems [rule_format, of 0] by simp
  have "m' (p + 1 + of_nat x) = m (p + 1 + of_nat x)" if "x \<le> length xs" for x
    using Cons.prems [rule_format, of "Suc x"] that by (simp add: add.assoc)
  then show ?case using Cons.IH [of "p + 1"] z by simp
qed simp

lemma fixed_cstr_same: "same_fixed ke kpt m m' \<Longrightarrow> fixed_cstr ke kpt m p xs \<Longrightarrow> fixed_cstr ke kpt m' p xs"
  using cstr_same [of xs m' p m] by (simp add: fixed_cstr_def same_fixed_def)

lemma same_fixed_refl [simp]: "same_fixed ke kpt m m"
  by (simp add: same_fixed_def)

lemma same_fixed_trans: "same_fixed ke kpt m m' \<Longrightarrow> same_fixed ke kpt m' m'' \<Longrightarrow> same_fixed ke kpt m m''"
  by (simp add: same_fixed_def)

lemma image_pages_cong: "\<forall>q \<in> set qs. elf_program_at m' q = elf_program_at m q \<Longrightarrow> image_pages m' qs = image_pages m qs"
  by (induction qs) simp_all

lemma program_same:
  assumes ok: "program_ok ke kpt pg m name elf" and sf: "same_fixed ke kpt m m'"
  shows "program_ok ke kpt pg m' name elf" "segments m' elf = segments m elf" "elf_header_at m' elf = elf_header_at m elf"
    "\<And>q. q \<in> set (segments m elf) \<Longrightarrow> elf_program_at m' q = elf_program_at m q" "program_size m' elf = program_size m elf"
proof -
  have f: "image_fixed ke kpt m elf" using ok by (simp add: program_ok_def)
  note s = image_same [OF f sf]
  show "segments m' elf = segments m elf" "elf_header_at m' elf = elf_header_at m elf"
    "\<And>q. q \<in> set (segments m elf) \<Longrightarrow> elf_program_at m' q = elf_program_at m q" by (rule s; assumption)+
  have ip: "image_pages m' (segments m elf) = image_pages m (segments m elf)" using s(3) by (intro image_pages_cong) simp
  then show "program_size m' elf = program_size m elf" using s(2) by (simp add: program_size_def)
  have "image_ok m' elf" "image_fixed ke kpt m' elf" using ok s(1) by (simp_all add: program_ok_def image_ok_def image_fixed_def)
  moreover obtain nm ss where n: "fixed_cstr ke kpt m name nm" "list_all2 (\<lambda>r s. fixed_cstr ke kpt m (ri_name r) s) (ramimages pg) ss" "nm \<in> set ss"
      "elf = ri_begin (ramimages pg ! length (takeWhile (\<lambda>s. s \<noteq> nm) ss))"
    using ok by (auto simp: program_ok_def)
  have "list_all2 (\<lambda>r s. fixed_cstr ke kpt m' (ri_name r) s) (ramimages pg) ss"
    using n(2) by (rule list_all2_mono) (rule fixed_cstr_same [OF sf])
  ultimately show "program_ok ke kpt pg m' name elf"
    using ok n fixed_cstr_same [OF sf] s(2,3) ip unfolding program_ok_def by auto
qed

lemma program_ok_segs:
  assumes "program_ok ke kpt pg m name elf"
  shows "segs_ok ke kpt m elf (segments m elf)"
  unfolding segs_ok_def
proof (intro conjI ballI allI impI)
  show "distinct (image_pages m (segments m elf))" using assms by (simp add: program_ok_def)
  fix q assume q: "q \<in> set (segments m elf)"
  show "seg_ok ke kpt elf (elf_program_at m q)" using assms q by (simp add: program_ok_def)
  show "elf_program_at m' q = elf_program_at m q" if "same_fixed ke kpt m m'" for m' by (rule program_same(4) [OF assms that q])
qed

lemma program_loads:
  assumes ok: "program_ok ke kpt pg m0 name elf" and sf: "same_fixed ke kpt m0 m"
  shows "program_loader_name pg m name = retIO (loader_pos elf (image_end m0 elf) (segments m0 elf))" "elf \<noteq> 0"
    "loader_reset m (loader_pos elf (image_end m0 elf) qs) = retIO (loader_pos elf (image_end m0 elf) (segments m0 elf))"
    "walkable ke kpt m0 elf (image_end m0 elf) (segments m0 elf)"
proof -
  have i: "image_ok m0 elf" "image_fixed ke kpt m0 elf" using ok by (simp_all add: program_ok_def)
  then show "elf \<noteq> 0" by (simp add: image_ok_def)
  note r = loader_reset_walkable [OF i sf]
  show "loader_reset m (loader_pos elf (image_end m0 elf) qs) = retIO (loader_pos elf (image_end m0 elf) (segments m0 elf))"
    by (rule r(1)) (simp add: loader_pos_def)
  show "walkable ke kpt m0 elf (image_end m0 elf) (segments m0 elf)" by (rule r(2) [of "loader_pos elf 0 []"]) (simp add: loader_pos_def)
  have "program_ok ke kpt pg m name elf" by (rule program_same(1) [OF ok sf])
  then obtain nm ss where n: "fixed_cstr ke kpt m name nm" "list_all2 (\<lambda>r s. fixed_cstr ke kpt m (ri_name r) s) (ramimages pg) ss" "nm \<in> set ss"
      "elf = ri_begin (ramimages pg ! length (takeWhile (\<lambda>s. s \<noteq> nm) ss))"
    by (auto simp: program_ok_def)
  let ?i = "length (takeWhile (\<lambda>s. s \<noteq> nm) ss)"
  have "list_all2 (\<lambda>r s. cstr m (ri_name r) s) (ramimages pg) ss" using n(2) by (rule list_all2_mono) (simp add: fixed_cstr_def)
  then have "program_number pg m name = Some (int ?i)" using program_number_finds [of m name nm pg ss] n(1,3) by (simp add: fixed_cstr_def)
  moreover have "takeWhile (\<lambda>s. s \<noteq> nm) ss \<noteq> ss" using n(3) takeWhile_eq_all_conv [of "\<lambda>s. s \<noteq> nm" ss] by blast
  then have "?i < length ss" using length_takeWhile_le [of "\<lambda>s. s \<noteq> nm" ss] takeWhile_eq_take [of "\<lambda>s. s \<noteq> nm" ss]
    by (metis le_neq_implies_less take_all order_refl)
  then have "?i < length (ramimages pg)" using list_all2_lengthD [OF n(2)] by simp
  ultimately show "program_loader_name pg m name = retIO (loader_pos elf (image_end m0 elf) (segments m0 elf))"
    using r(1) [of "\<lparr>ld_elf = elf, ld_ph = 0, ld_endph = 0\<rparr>"] n(4) by (simp add: program_loader_name_def program_loader_number_def)
qed

section \<open>process_setup\<close>

definition boot_inv :: "addr \<Rightarrow> addr \<Rightarrow> nat \<Rightarrow> nat \<Rightarrow> kernel \<Rightarrow> bool" where
  "boot_inv ke kpt n N k \<longleftrightarrow>
     ke \<le> KERNEL_STACK_TOP \<and> sys_inv ke kpt k \<and> ktables kpt kernel_entries (bytes (phys k)) \<and> free_run ke n N (phys k)"

text \<open>Process \<open>i\<close> is about to run the image at \<open>elf\<close> of the memory \<open>m0\<close>: it reads its segments at their addresses,
  it has a writable page for its stack, and the registers say where to start.\<close>

definition runs_image :: "mem \<Rightarrow> addr \<Rightarrow> kernel \<Rightarrow> nat \<Rightarrow> bool" where
  "runs_image m0 elf k i \<longleftrightarrow>
     state (ptable k i) = P_RUNNABLE
     \<and> reg_rip (regs (ptable k i)) = e_entry (elf_header_at m0 elf) \<and> reg_rsp (regs (ptable k i)) = MEMSIZE_VIRTUAL
     \<and> (\<forall>q \<in> set (segments m0 elf). \<forall>x < unat (p_memsz (elf_program_at m0 q)).
          space k i (p_va (elf_program_at m0 q) + of_nat x)
          = Some (Byte (if x < unat (p_filesz (elf_program_at m0 q)) then m0 (elf + p_offset (elf_program_at m0 q) + of_nat x) else 0)))
     \<and> (\<forall>v. MEMSIZE_VIRTUAL - PAGESIZE \<le> v \<and> v < MEMSIZE_VIRTUAL \<longrightarrow>
          (\<exists>q. user_map (bytes (phys k)) (pagetable (ptable k i)) v q True))"

lemma image_pages_range:
  assumes "segs_ok ke kpt m elf qs" "i \<in> set (image_pages m qs)"
  shows "256 \<le> i" "i < 512"
proof -
  from assms(2) obtain q where q: "q \<in> set qs" "i \<in> {seg_first (elf_program_at m q)..<seg_last (elf_program_at m q)}"
    unfolding image_pages_def by auto
  then have "seg_ok ke kpt elf (elf_program_at m q)" using segs_ok_seg [OF assms(1)] by blast
  from seg_okD(1,2) [OF this] q(2) show "256 \<le> i" "i < 512" by auto
qed

lemma setup_low_ident:
  assumes inv: "setup_inv ke kpt P c s0 n N M s" and M: "\<And>i. i < 256 \<Longrightarrow> M i = low_map 256 i"
  shows "low_ident (bytes s) c"
  unfolding low_ident_def
proof (intro allI impI)
  fix va :: u64 assume va: "va < PROC_START_ADDR"
  let ?j = "unat va div 4096"
  have j: "?j < 256" using va by (simp add: word_less_nat_alt div_less_iff_less_mult)
  have "M ?j = Some (page_va ?j, kernel_page_perm ?j)" using M [OF j] j by (simp add: low_map_def)
  from setup_translate [OF inv this] obtain perm where t: "translate (bytes s) c va = Some (page_va ?j + (va AND PAGEOFFMASK), perm)" .
  have "page_va ?j = page_base va" using j by (simp add: word_unat_eq_iff page_va_unat unat_page_base)
  then have "page_va ?j + (va AND PAGEOFFMASK) = va" by (simp add: page_base_plus)
  then show "\<exists>perm. translate (bytes s) c va = Some (va, perm)" using t by simp
qed

text \<open>The address space alone: all phases, from the empty page table to the stack page.\<close>

lemma setup_space_run:
  assumes kb: "ke \<le> KERNEL_STACK_TOP" and m0: "mem_inv ke kpt P s0" and k: "ktables kpt kernel_entries (bytes s0)" and fr: "free_run ke n N s0"
    and pg: "program_ok ke kpt pg (bytes s0) name elf" and room: "n + 6 + program_size (bytes s0) elf \<le> N"
  defines "c \<equiv> page_va n" and "s1 \<equiv> claim_page (page_va n) s0"
  defines "s2 \<equiv> s1\<lparr>bytes := memset (bytes s1) c 0 PAGESIZE\<rparr>" and "e \<equiv> image_end (bytes s0) elf"
  shows "\<exists>pit3 s3 pit4 s4 pit5 s5 s6 pit6 pit7 s7 n' M.
     kalloc ke PAGESIZE s0 = (c, s1) \<and> c \<noteq> 0 \<and> c \<notin> P
     \<and> vmiter_init (bytes s2) c 0 = Inr (fresh_iter (bytes s2) c 0) \<and> vmiter_init (bytes s2) kpt 0 = Inr (fresh_iter (bytes s2) kpt 0)
     \<and> copy_kernel_loop ke (fresh_iter (bytes s2) kpt 0) (fresh_iter (bytes s2) c 0) s2 = Inr (pit3, s3)
     \<and> program_loader_name pg (bytes s3) name = retIO (loader_pos elf e (segments (bytes s0) elf))
     \<and> loader_reset (bytes s3) (loader_pos elf e (segments (bytes s0) elf)) = retIO (loader_pos elf e (segments (bytes s0) elf))
     \<and> alloc_segments ke (loader_pos elf e (segments (bytes s0) elf)) pit3 s3 = retIO (loader_pos elf e [], pit4, s4)
     \<and> loader_reset (bytes s4) (loader_pos elf e []) = retIO (loader_pos elf e (segments (bytes s0) elf))
     \<and> copy_segments (loader_pos elf e (segments (bytes s0) elf)) pit4 s4 = retIO (loader_pos elf e [], pit5, s5)
     \<and> loader_entry (bytes s5) (loader_pos elf e []) = e_entry (elf_header_at (bytes s0) elf)
     \<and> (\<exists>sp. kalloc ke PAGESIZE s5 = (sp, s6) \<and> vm_find (bytes s6) pit5 (MEMSIZE_VIRTUAL - PAGESIZE) = Inr pit6
          \<and> vm_map (kalloc ke PAGESIZE) pit6 sp 7 s6 = Inr (pit7, s7) \<and> M 767 = Some (sp, 7))
     \<and> setup_inv ke kpt P c s0 n' N M s7 \<and> n' \<le> n + 6 + program_size (bytes s0) elf \<and> n \<le> n'
     \<and> (\<forall>q \<in> set (segments (bytes s0) elf). seg_loaded (bytes s0) elf (bytes s7) c (elf_program_at (bytes s0) q))
     \<and> low_ident (bytes s7) c"
proof -
  let ?qs = "segments (bytes s0) elf" and ?z = "program_size (bytes s0) elf"
  have n: "n < N" using room by simp
  note fa = free_run_alloc [OF fr n, folded s1_def c_def]
  have i2: "setup_inv ke kpt P c s0 (Suc n) N (low_map 0) s2"
  proof -
    have "low_map 0 = Map.empty" by (auto simp: low_map_def)
    then show ?thesis using setup_start [OF m0 k fr n, of s2] by (simp add: s2_def s1_def c_def)
  qed
  have pv0: "page_va 0 = 0" by (simp add: page_va_def)
  have v: "vmiter_init (bytes s2) c 0 = Inr (fresh_iter (bytes s2) c 0)" by (rule setup_find(2) [OF i2]) simp
  have vk: "vmiter_init (bytes s2) kpt 0 = Inr (fresh_iter (bytes s2) kpt 0)"
    using ktables_iter_ok [OF setup_invD(6) [OF i2] kernel_entries_small] by (simp add: vmiter_init_fresh iter_ok_def)
  from copy_kernel_run [OF i2] room obtain s3 n3 where
      s3: "copy_kernel_loop ke (fresh_iter (bytes s2) kpt 0) (fresh_iter (bytes s2) c 0) s2 = Inr (fresh_iter (bytes s3) c (page_va 256), s3)"
      "setup_inv ke kpt P c s0 n3 N (low_map 256) s3" "Suc n \<le> n3" "n3 \<le> Suc n + 3"
    by (auto simp: pv0)
  note sf3 = setup_same_fixed [OF kb m0 s3(2)]
  note pl3 = program_loads [OF pg sf3, folded e_def] and segs = program_ok_segs [OF pg]
  have l0: "low_map 256 0 \<noteq> None" by (simp add: low_map_def)
  from alloc_segments_run [OF kb m0 pl3(4) segs s3(2) l0] room s3(4) obtain s4 va4 M4 where
      s4: "alloc_segments ke (loader_pos elf e ?qs) (fresh_iter (bytes s3) c (page_va 256)) s3 = retIO (loader_pos elf e [], fresh_iter (bytes s4) c va4, s4)"
      "setup_inv ke kpt P c s0 (n3 + ?z) N M4 s4" "\<forall>q \<in> set ?qs. placed M4 (elf_program_at (bytes s0) q)"
      "\<forall>i. i \<notin> set (image_pages (bytes s0) ?qs) \<longrightarrow> M4 i = low_map 256 i"
    unfolding program_size_def by fastforce
  note pl4 = program_loads [OF pg setup_same_fixed [OF kb m0 s4(2)], folded e_def]
  from copy_segments_run [OF kb m0 pl3(4) segs s4(2,3), of va4] obtain s5 va5 where
      s5: "copy_segments (loader_pos elf e ?qs) (fresh_iter (bytes s4) c va4) s4 = retIO (loader_pos elf e [], fresh_iter (bytes s5) c va5, s5)"
      "setup_inv ke kpt P c s0 (n3 + ?z) N M4 s5" "\<forall>q \<in> set ?qs. seg_loaded (bytes s0) elf (bytes s5) c (elf_program_at (bytes s0) q)"
    by blast
  have e5: "loader_entry (bytes s5) (loader_pos elf e []) = e_entry (elf_header_at (bytes s0) elf)"
    using loader_pos_entry [OF pl3(2)] program_same(3) [OF pg setup_same_fixed [OF kb m0 s5(2)]] by simp
  have M0: "M4 0 \<noteq> None" using s4(4) image_pages_range(1) [OF segs] l0 by (metis not_numeral_le_zero)
  let ?l = "vm_level (fresh_iter (bytes s5) c (page_va 767))"
  have lv: "?l \<le> 1" using setup_level [OF s5(2) M0, of 767] by simp
  have room5: "Suc (n3 + ?z) + ?l \<le> N" using lv room s3(4) by linarith
  let ?s6 = "claim_page (page_va (n3 + ?z)) s5"
  have s7: "(7 :: u32) = 5 \<or> (7 :: u32) = 7" "scast (7 :: u32) = (7 :: u64)" "page_va 767 = MEMSIZE_VIRTUAL - PAGESIZE"
    by (simp_all add: page_va_def)
  from setup_page [OF s5(2) _ _ s7(1) room5, of va5] obtain s7 n7 where
      r7: "kalloc ke PAGESIZE s5 = (page_va (n3 + ?z), ?s6)"
      "vm_find (bytes ?s6) (fresh_iter (bytes s5) c va5) (page_va 767) = Inr (fresh_iter (bytes ?s6) c (page_va 767))"
      "vm_map (kalloc ke PAGESIZE) (fresh_iter (bytes ?s6) c (page_va 767)) (page_va (n3 + ?z)) 7 ?s6 = Inr (fresh_iter (bytes s7) c (page_va 767), s7)"
      "Suc (n3 + ?z) \<le> n7" "n7 \<le> Suc (n3 + ?z) + ?l"
      "setup_inv ke kpt P c s0 n7 N (M4(767 \<mapsto> (page_va (n3 + ?z), 7))) s7"
      "\<forall>v. unat v div 4096 \<noteq> 767 \<longrightarrow> user_load (bytes s7) c v = user_load (bytes s5) c v"
    unfolding s7(2) by auto
  let ?M = "M4(767 \<mapsto> (page_va (n3 + ?z), 7 :: u64))"
  have ld: "seg_loaded (bytes s0) elf (bytes s7) c (elf_program_at (bytes s0) q)" if q: "q \<in> set ?qs" for q
  proof -
    note ok = segs_ok_seg [OF segs q]
    have "unat (p_va (elf_program_at (bytes s0) q) + of_nat x) div 4096 \<noteq> 767" if "x < unat (p_memsz (elf_program_at (bytes s0) q))" for x
      using seg_okD(8) [OF ok that] seg_okD(2) [OF ok] by linarith
    then show ?thesis using s5(3) q r7(7) unfolding seg_loaded_def by metis
  qed
  have low: "low_ident (bytes s7) c"
  proof (rule setup_low_ident [OF r7(6)])
    fix i :: nat assume i: "i < 256"
    then have "i \<notin> set (image_pages (bytes s0) ?qs)" using image_pages_range(1) [OF segs, of i] by linarith
    then show "?M i = low_map 256 i" using s4(4) i by simp
  qed
  have n7: "n7 \<le> n + 6 + ?z" "n \<le> n7" using r7(4,5) lv s3(3,4) by linarith+
  have f6: "vm_find (bytes ?s6) (fresh_iter (bytes s5) c va5) (MEMSIZE_VIRTUAL - PAGESIZE) = Inr (fresh_iter (bytes ?s6) c (page_va 767))"
    by (subst s7(3) [symmetric]) (rule r7(2))
  have M7: "?M 767 = Some (page_va (n3 + ?z), 7)" by simp
  show ?thesis
    by (intro exI conjI)
      (rule fa(1), rule fa(2), rule setup_invD(2) [OF i2], rule v, rule vk, rule s3(1), rule pl3(1), rule pl3(3), rule s4(1), rule pl4(3),
        rule s5(1), rule e5, rule r7(1), rule f6, rule r7(3), rule M7, rule r7(6), rule n7(1), rule n7(2), intro ballI,
        erule ld, rule low)
qed

text \<open>What a call of \<open>process_setup\<close> does to the kernel.\<close>

definition set_up :: "addr \<Rightarrow> addr \<Rightarrow> mem \<Rightarrow> addr \<Rightarrow> nat \<Rightarrow> kernel \<Rightarrow> kernel \<Rightarrow> bool" where
  "set_up ke kpt m0 elf i k k' \<longleftrightarrow>
     runs_image m0 elf k' i \<and> live k' = insert i (live k) \<and> current k' = current k
     \<and> pid (ptable k' i) = pid (ptable k i) \<and> (\<forall>j. j \<noteq> i \<longrightarrow> ptable k' j = ptable k j)
     \<and> (\<forall>j \<in> live k. \<forall>va. space k' j va = space k j va
          \<and> translate (bytes (phys k')) (pagetable (ptable k j)) va = translate (bytes (phys k)) (pagetable (ptable k j)) va)
     \<and> same_fixed ke kpt (bytes (phys k)) (bytes (phys k'))"

lemma setup_done:
  assumes kb: "ke \<le> KERNEL_STACK_TOP" and inv: "sys_inv ke kpt k" and i: "i \<notin> live k" "i < NPROC" and st: "setup_inv ke kpt (proc_roots k) c (phys k) n N M s"
    and low: "low_ident (bytes s) c" and ld: "\<forall>q \<in> set (segments (bytes (phys k)) elf). seg_loaded (bytes (phys k)) elf (bytes s) c (elf_program_at (bytes (phys k)) q)"
    and M: "M 767 = Some (sp, 7)" and p: "pagetable p = c" "state p = P_RUNNABLE" "pid p = pid (ptable k i)"
      "reg_rip (regs p) = e_entry (elf_header_at (bytes (phys k)) elf)" "reg_rsp (regs p) = MEMSIZE_VIRTUAL"
    and k': "k' = k\<lparr>phys := s, ptable := (ptable k)(i := p)\<rparr>"
  shows "boot_inv ke kpt n N k'" "set_up ke kpt (bytes (phys k)) elf i k k'"
proof -
  note v = sys_invD [OF inv] and d = setup_invD [OF st]
  have lv: "live k' = insert i (live k)" using i p(2) by (auto simp: live_def k')
  have same: "ptable k' j = ptable k j" if "j \<noteq> i" for j using that by (simp add: k')
  have ne: "j \<noteq> i" if "j \<in> live k" for j using that i by auto
  have img: "(\<lambda>j. pagetable (ptable k' j)) ` live k = proc_roots k" unfolding proc_roots_def using same ne by (intro image_cong) auto
  have ci: "pagetable (ptable k' i) = c" by (simp add: k' p)
  have rt: "proc_roots k' = insert c (proc_roots k)" unfolding proc_roots_def [of k'] lv using img ci by simp
  have "sys_inv ke kpt k'"
    unfolding sys_inv_def rt lv
  proof (intro conjI ballI)
    show "mem_inv ke kpt (insert c (proc_roots k)) (phys k')" using d(1) by (simp add: k')
    have "inj_on (\<lambda>j. pagetable (ptable k' j)) (live k)" using v(2) same ne by (auto simp: inj_on_def)
    moreover have "pagetable (ptable k' i) \<notin> (\<lambda>j. pagetable (ptable k' j)) ` live k" using img ci d(2) by simp
    ultimately show "inj_on (\<lambda>j. pagetable (ptable k' j)) (insert i (live k))" using i(1) by simp
    fix j assume "j \<in> insert i (live k)"
    then show "low_ident (bytes (phys k')) (pagetable (ptable k' j))"
    proof
      assume "j = i"
      then show ?thesis using low ci by (simp add: k')
    next
      assume j: "j \<in> live k"
      then show ?thesis using v(3) [OF j] same [OF ne [OF j]] d(3) [OF v(4) [OF j]] by (simp add: low_ident_def k')
    qed
  qed
  then show "boot_inv ke kpt n N k'" using kb d(6,9) by (simp add: boot_inv_def k')
  have stack: "\<exists>q. user_map (bytes s) c va q True" if "MEMSIZE_VIRTUAL - PAGESIZE \<le> va \<and> va < MEMSIZE_VIRTUAL" for va
  proof -
    have "0x2FF000 \<le> unat va" "unat va < 0x300000" using that by (simp_all add: word_le_nat_alt word_less_nat_alt)
    then have "unat va div 4096 = 767" by linarith
    from setup_translate [OF st, of va sp 7] M this obtain perm where
        "translate (bytes s) c va = Some (sp + (va AND PAGEOFFMASK), perm)" "perm AND 7 = 7" by auto
    then have "is_user_writable perm" "is_user perm" using is_user_writable_user by (simp_all add: is_user_writable_def)
    then show ?thesis using \<open>translate (bytes s) c va = _\<close> by (simp add: user_map_def)
  qed
  have "space k' i v = user_load (bytes s) c v" for v by (simp add: space_def k' p)
  then have "runs_image (bytes (phys k)) elf k' i"
    unfolding runs_image_def ci using p ld stack by (simp add: seg_loaded_def) (simp add: k' p)
  moreover have "space k' j va = space k j va \<and>
      translate (bytes (phys k')) (pagetable (ptable k j)) va = translate (bytes (phys k)) (pagetable (ptable k j)) va" if "j \<in> live k" for j va
    using d(3,4) [OF v(4) [OF that]] same [OF ne [OF that]] by (simp add: space_def k')
  moreover have "same_fixed ke kpt (bytes (phys k)) (bytes s)" by (rule setup_same_fixed [OF kb v(1) st])
  ultimately show "set_up ke kpt (bytes (phys k)) elf i k k'" unfolding set_up_def using lv same by (simp add: k' p)
qed

lemma process_setup_run:
  assumes inv: "boot_inv ke kpt n N k" and i: "i \<notin> live k" "i < NPROC"
    and pg: "program_ok ke kpt pg (bytes (phys k)) name elf" and room: "n + 6 + program_size (bytes (phys k)) elf \<le> N"
  shows "\<exists>k' n'. process_setup ke kpt pg i name k = retIO k' \<and> boot_inv ke kpt n' N k' \<and> n' \<le> n + 6 + program_size (bytes (phys k)) elf
    \<and> set_up ke kpt (bytes (phys k)) elf i k k'"
proof -
  have kb: "ke \<le> KERNEL_STACK_TOP" and sys: "sys_inv ke kpt k" and kt: "ktables kpt kernel_entries (bytes (phys k))" and fr: "free_run ke n N (phys k)"
    using inv by (simp_all add: boot_inv_def)
  let ?s0 = "phys k" and ?c = "page_va n" and ?s1 = "claim_page (page_va n) (phys k)" and ?e = "image_end (bytes (phys k)) elf"
  let ?s2 = "?s1\<lparr>bytes := memset (bytes ?s1) ?c 0 PAGESIZE\<rparr>" and ?qs = "segments (bytes (phys k)) elf"
  let ?p0 = "init_process 0 (ptable k i)"
  from setup_space_run [OF kb sys_invD(1) [OF sys] kt fr pg room] obtain pit3 s3 pit4 s4 pit5 s5 s6 pit6 pit7 s7 n' M sp where
    r: "kalloc ke PAGESIZE ?s0 = (?c, ?s1)" "?c \<noteq> 0"
     "vmiter_init (bytes ?s2) ?c 0 = Inr (fresh_iter (bytes ?s2) ?c 0)" "vmiter_init (bytes ?s2) kpt 0 = Inr (fresh_iter (bytes ?s2) kpt 0)"
     "copy_kernel_loop ke (fresh_iter (bytes ?s2) kpt 0) (fresh_iter (bytes ?s2) ?c 0) ?s2 = Inr (pit3, s3)"
     "program_loader_name pg (bytes s3) name = retIO (loader_pos elf ?e ?qs)"
     "loader_reset (bytes s3) (loader_pos elf ?e ?qs) = retIO (loader_pos elf ?e ?qs)"
     "alloc_segments ke (loader_pos elf ?e ?qs) pit3 s3 = retIO (loader_pos elf ?e [], pit4, s4)"
     "loader_reset (bytes s4) (loader_pos elf ?e []) = retIO (loader_pos elf ?e ?qs)"
     "copy_segments (loader_pos elf ?e ?qs) pit4 s4 = retIO (loader_pos elf ?e [], pit5, s5)"
     "loader_entry (bytes s5) (loader_pos elf ?e []) = e_entry (elf_header_at (bytes ?s0) elf)"
     "kalloc ke PAGESIZE s5 = (sp, s6)" "vm_find (bytes s6) pit5 (MEMSIZE_VIRTUAL - PAGESIZE) = Inr pit6"
     "vm_map (kalloc ke PAGESIZE) pit6 sp 7 s6 = Inr (pit7, s7)" "M 767 = Some (sp, 7)"
     and st: "setup_inv ke kpt (proc_roots k) ?c ?s0 n' N M s7" "n' \<le> n + 6 + program_size (bytes ?s0) elf"
     "\<forall>q \<in> set ?qs. seg_loaded (bytes ?s0) elf (bytes s7) ?c (elf_program_at (bytes ?s0) q)" "low_ident (bytes s7) ?c"
    by blast
  let ?p = "?p0\<lparr>pagetable := ?c, regs := (regs ?p0)\<lparr>reg_rip := e_entry (elf_header_at (bytes ?s0) elf), reg_rsp := MEMSIZE_VIRTUAL\<rparr>,
    state := P_RUNNABLE\<rparr>"
  define k' where "k' = k\<lparr>phys := s7, ptable := (ptable k)(i := ?p)\<rparr>"
  have "process_setup ke kpt pg i name k = retIO k'"
    using r unfolding process_setup_def by (simp add: Let_def k'_def)
  moreover have "boot_inv ke kpt n' N k'" "set_up ke kpt (bytes ?s0) elf i k k'"
    by (rule setup_done [OF kb sys i st(1,4,3) r(15) _ _ _ _ _ k'_def]; simp add: init_process_def Let_def)+
  ultimately show ?thesis using st(2) by blast
qed

end
