(* ===== verification/Boot_Run.thy ===== *)
theory Boot_Run
  imports Boot_Spec
begin

text \<open>
  From the entry of \<open>kernel\<close> to the first process.
\<close>

section \<open>Hardware\<close>

lemma init_interrupts_runs:
  assumes "cpuid_edx c AND 0x200 \<noteq> 0" "msr c 0x1B AND 0x800 \<noteq> 0" "msr c 0x1B AND 0xFFFFFFFFF000 = 0xFEE00000"
  shows "\<exists>c' s'. init_interrupts c s = Inr (c', s')"
proof -
  from init_gates_run [of 0 c] obtain c' where c': "init_gates 0 c = Inr c'" "c'\<lparr>interrupt_descriptors := interrupt_descriptors c\<rparr> = c" by auto
  have "cpuid_edx c' = cpuid_edx c" "msr c' = msr c"
    using arg_cong [OF c'(2), of cpuid_edx] arg_cong [OF c'(2), of msr] by simp_all
  then show ?thesis using assms c'(1) by (auto simp: init_interrupts_def rdmsr_def Let_def)
qed

lemma init_cpu_state_runs: "\<exists>c' s'. init_cpu_state l c s = Inr (c', s')"
  by (auto simp: init_cpu_state_def init_lapic_def enable_lapic_def lapic_error_def lapic_ack_def lapic_read_def lapic_write_def io_ask_def Let_def
      split: prod.split)

lemma init_timer_runs: "\<exists>s'. init_timer r s = Inr s'"
  by (simp add: init_timer_def lapic_write_def)

section \<open>Memory\<close>

text \<open>Where the linker puts the kernel's objects.\<close>

definition layout_ok :: "link \<Rightarrow> bool" where
  "layout_ok l \<longleftrightarrow>
     link_ok l \<and> ktables_in (l_pagetable l) \<and> l_pagetable l + 5 * PAGESIZE \<le> l_kernel_end l
     \<and> KERNEL_START_ADDR \<le> l_data_start l \<and> l_data_start l \<le> l_edata l \<and> l_edata l \<le> l_kernel_end l"

abbreviation image_same_at :: "link \<Rightarrow> mem \<Rightarrow> mem \<Rightarrow> bool" where
  "image_same_at l \<equiv> same_fixed (l_kernel_end l) (l_pagetable l)"

lemma stash_bounds:
  assumes l: "layout_ok l"
  shows "0x40000 \<le> unat (l_data_start l)" "unat (l_data_start l) \<le> unat (l_edata l)" "unat (l_edata l) \<le> unat (l_kernel_end l)"
    "unat (l_kernel_end l) \<le> 0x80000" "unat (l_edata l - l_data_start l) = unat (l_edata l) - unat (l_data_start l)"
    "unat (l_edata l - l_data_start l) \<le> 0x40000"
    "unat (SYMTAB_ADDR - (l_edata l - l_data_start l)) = 0x1000000 - unat (l_edata l - l_data_start l)"
proof -
  show u: "0x40000 \<le> unat (l_data_start l)" "unat (l_data_start l) \<le> unat (l_edata l)" "unat (l_edata l) \<le> unat (l_kernel_end l)"
      "unat (l_kernel_end l) \<le> 0x80000"
    using l by (simp_all add: layout_ok_def link_ok_def word_le_nat_alt)
  show d: "unat (l_edata l - l_data_start l) = unat (l_edata l) - unat (l_data_start l)" using l by (intro unat_sub_le) (simp add: layout_ok_def)
  then show "unat (l_edata l - l_data_start l) \<le> 0x40000" using u by linarith
  then show "unat (SYMTAB_ADDR - (l_edata l - l_data_start l)) = 0x1000000 - unat (l_edata l - l_data_start l)"
    by (subst unat_sub_le) (simp_all add: word_le_nat_alt)
qed

lemma in_block: "unat (a - p) < unat n \<longleftrightarrow> unat p \<le> unat a \<and> unat a < unat p + unat n" if "unat p + unat n \<le> 2 ^ 32" for a p n :: u64
proof (cases "p \<le> a")
  case True
  then have "unat (a - p) = unat a - unat p" "unat p \<le> unat a" by (simp_all add: unat_sub_le word_le_nat_alt)
  then show ?thesis by linarith
next
  case False
  then have lt: "unat a < unat p" by (simp add: word_le_nat_alt)
  have "\<not> unat (a - p) < unat n"
  proof
    assume "unat (a - p) < unat n"
    then have "unat (p + (a - p)) = unat p + unat (a - p)" using that by (intro unat_add_small) simp
    then show False using lt by simp
  qed
  then show ?thesis using lt by simp
qed

text \<open>The copy of the data segment that is made when the kernel starts, and what a reboot makes of it.\<close>

lemma stash_apply:
  assumes l: "layout_ok l"
  shows "stash_kernel_data l False b a =
    (if 0x1000000 - unat (l_edata l - l_data_start l) \<le> unat a \<and> unat a < 0x1000000
     then b (l_data_start l + (a - (SYMTAB_ADDR - (l_edata l - l_data_start l)))) else b a)"
proof -
  let ?d = "l_edata l - l_data_start l" and ?t = "SYMTAB_ADDR - (l_edata l - l_data_start l)"
  note u = stash_bounds [OF l]
  have "memcpy b ?t (l_data_start l) ?d a = (if unat (a - ?t) < unat ?d then b (l_data_start l + (a - ?t)) else b a)"
  proof (rule memcpy_outside)
    fix j assume j: "j < unat ?d"
    have "unat (l_data_start l + of_nat j) = unat (l_data_start l) + j" using u(1-6) j by (intro unat_add_of_nat) simp
    then have "unat (l_data_start l + of_nat j) < unat ?t" using u j by linarith
    then show "l_data_start l + of_nat j \<noteq> ?t" by (metis less_irrefl)
  qed
  moreover have "unat (a - ?t) < unat ?d \<longleftrightarrow> 0x1000000 - unat ?d \<le> unat a \<and> unat a < 0x1000000"
    using in_block [of ?t ?d a] u(6,7) by simp
  ultimately show ?thesis by (simp add: stash_kernel_data_def Let_def)
qed

lemma stash_same:
  assumes l: "layout_ok l"
  shows "image_same_at l b (stash_kernel_data l False b)"
  unfolding same_fixed_def
proof (intro allI impI)
  fix a assume "fixed (l_kernel_end l) (l_pagetable l) a"
  then have "unat a < 0x80000" using stash_bounds(4) [OF l] by (simp add: fixed_def word_less_nat_alt)
  then have "\<not> 0x1000000 - unat (l_edata l - l_data_start l) \<le> unat a" using stash_bounds(6) [OF l] by linarith
  then show "stash_kernel_data l False b a = b a" using stash_apply [OF l, of b a] by simp
qed

lemma stash_restored:
  assumes l: "layout_ok l"
    and st: "\<And>a. SYMTAB_ADDR - (l_edata l - l_data_start l) \<le> a \<Longrightarrow> a < SYMTAB_ADDR \<Longrightarrow> b' a = stash_kernel_data l False b a"
  shows "stash_kernel_data l True b' a =
    (if l_data_start l \<le> a \<and> a < l_edata l then b a else if l_edata l \<le> a \<and> a < l_kernel_end l then 0 else b' a)"
proof -
  let ?d = "l_edata l - l_data_start l" and ?t = "SYMTAB_ADDR - (l_edata l - l_data_start l)"
  note u = stash_bounds [OF l]
  have e: "unat (l_kernel_end l - l_edata l) = unat (l_kernel_end l) - unat (l_edata l)"
    using u(3) by (intro unat_sub_le) (simp add: word_le_nat_alt)
  have to: "unat (?t + of_nat j) = unat ?t + j" if "j < unat ?d" for j using that u(6,7) by (intro unat_add_of_nat) simp
  have "memcpy b' (l_data_start l) ?t ?d a = (if unat (a - l_data_start l) < unat ?d then b' (?t + (a - l_data_start l)) else b' a)"
  proof (rule memcpy_outside)
    fix j assume j: "j < unat ?d"
    have "unat (l_data_start l) < unat (?t + of_nat j)" using to [OF j] u by linarith
    then show "?t + of_nat j \<noteq> l_data_start l" by (metis less_irrefl)
  qed
  moreover have i1: "unat (a - l_data_start l) < unat ?d \<longleftrightarrow> l_data_start l \<le> a \<and> a < l_edata l"
    using in_block [of "l_data_start l" ?d a] u(1-6) by (simp add: word_le_nat_alt word_less_nat_alt)
  moreover have i2: "unat (a - l_edata l) < unat (l_kernel_end l - l_edata l) \<longleftrightarrow> l_edata l \<le> a \<and> a < l_kernel_end l"
    using in_block [of "l_edata l" "l_kernel_end l - l_edata l" a] u(1-4) e by (simp add: word_le_nat_alt word_less_nat_alt)
  moreover have "b' (?t + (a - l_data_start l)) = b a" if "unat (a - l_data_start l) < unat ?d"
  proof -
    have x: "unat (?t + (a - l_data_start l)) = unat ?t + unat (a - l_data_start l)" using to [OF that] by simp
    then have "b' (?t + (a - l_data_start l)) = stash_kernel_data l False b (?t + (a - l_data_start l))"
      using that u(6,7) by (intro st) (simp_all add: word_le_nat_alt word_less_nat_alt)
    also have "\<dots> = b (l_data_start l + (?t + (a - l_data_start l) - ?t))"
    proof -
      have "0x1000000 - unat ?d \<le> unat (?t + (a - l_data_start l)) \<and> unat (?t + (a - l_data_start l)) < 0x1000000"
        using x that u(6,7) by linarith
      then show ?thesis by (simp only: stash_apply [OF l] simp_thms if_True)
    qed
    also have "\<dots> = b a" by simp
    finally show ?thesis .
  qed
  ultimately show ?thesis by (simp add: stash_kernel_data_def Let_def memset_apply word_le_nat_alt word_less_nat_alt)
qed

lemma tables_same:
  assumes l: "layout_ok l" and out: "\<And>a. unat a < unat (l_pagetable l) \<or> unat (l_pagetable l) + 0x5000 \<le> unat a \<Longrightarrow> b' a = b a"
  shows "image_same_at l b b'"
  unfolding same_fixed_def
proof (intro allI impI)
  fix a assume a: "fixed (l_kernel_end l) (l_pagetable l) a"
  have "unat (l_pagetable l) < 0x80000" using l by (simp add: layout_ok_def ktables_in_def word_less_nat_alt)
  then have "unat (l_pagetable l + 5 * PAGESIZE) = unat (l_pagetable l) + 0x5000" by (subst unat_add_small) simp_all
  then show "b' a = b a" using a by (intro out) (auto simp: fixed_def word_le_nat_alt word_less_nat_alt)
qed

lemma ktable_page_outside:
  assumes "ktables_in kpt" "unat a < unat kpt \<or> unat kpt + 0x5000 \<le> unat a" "j < 5"
  shows "page_base a \<noteq> ktable kpt j"
proof
  assume e: "page_base a = ktable kpt j"
  have "4096 * (unat a div 4096) = unat kpt + 4096 * j" using e ktable_page(1) [OF assms(1,3)] unat_page_base [of a] by simp
  then have "unat kpt + 4096 * j \<le> unat a" "unat a < unat kpt + 4096 * j + 4096" by linarith+
  then show False using assms(2,3) by linarith
qed

lemma ktables_cong: "(\<And>i. i < 512 \<Longrightarrow> f i = g i) \<Longrightarrow> ktables kpt f m \<Longrightarrow> ktables kpt g m"
  by (simp add: ktables_def ktable_entry_def)

text \<open>The kernel's page table, before the constructors and after the loop of \<open>kernel\<close>.\<close>

lemma init_kernel_memory_runs:
  assumes l: "layout_ok l"
  shows "\<exists>m'. init_kernel_memory l m = retIO m' \<and> image_same_at l (kbytes m) (kbytes m')
    \<and> (\<exists>f. ktables (l_pagetable l) f (kbytes m') \<and> small_entries f \<and> f 0 = 0)
    \<and> m' = m\<lparr>kern := (kern m)\<lparr>phys := (phys (kern m))\<lparr>bytes := kbytes m'\<rparr>\<rparr>, hw := wrcr3 (l_pagetable l) (init_segments l (hw m))\<rparr>"
proof -
  let ?kpt = "l_pagetable l" and ?b1 = "stash_kernel_data l False (kbytes m)"
  let ?b2 = "kernel_tables ?kpt ?b1"
  let ?s2 = "(phys (kern m))\<lparr>bytes := ?b2\<rparr>"
  have ki: "ktables_in ?kpt" using l by (simp add: layout_ok_def)
  have k2: "ktables ?kpt (\<lambda>_. 0) (bytes ?s2)" using kernel_tables_ktables [OF ki] by simp
  have sm: "small_entries (\<lambda>_. 0)" by (simp add: small_entries_def)
  have pv: "page_va 0 = 0" by (simp add: page_va_def)
  have v: "vmiter_init ?b2 ?kpt 0 = Inr (fresh_iter ?b2 ?kpt 0)"
    using ktables_iter_ok [OF k2 sm] by (simp add: vmiter_init_fresh iter_ok_def)
  from init_map_loop_run [OF k2 sm, of 0 "l_kernel_end l"] obtain s' where
      s': "init_map_loop (l_kernel_end l) (fresh_iter ?b2 ?kpt 0) ?s2 = Inr s'"
      "ktables ?kpt (\<lambda>j. if 0 \<le> j \<and> j < 512 \<and> j \<noteq> 0 then ident_flags 7 j else 0) (bytes s')"
      "\<forall>a. page_base a \<noteq> ktable ?kpt 3 \<longrightarrow> bytes s' a = ?b2 a" "pages s' = pages (phys (kern m))"
    by (auto simp: pv)
  have s'_eq: "s' = (phys (kern m))\<lparr>bytes := bytes s'\<rparr>" using s'(4) by simp
  have "small_entries (\<lambda>j. if 0 \<le> j \<and> j < 512 \<and> j \<noteq> 0 then ident_flags 7 j else 0)"
    by (auto simp: small_entries_def intro: ident_flags_small)
  moreover have "image_same_at l ?b1 (bytes s')"
    by (rule tables_same [OF l]) (use s'(3) ktable_page_outside [OF ki, of _ 3] kernel_tables_outside [OF ki] in auto)
  then have "image_same_at l (kbytes m) (bytes s')" using stash_same [OF l] same_fixed_trans by blast
  moreover have "init_kernel_memory l m = retIO (m\<lparr>kern := (kern m)\<lparr>phys := s'\<rparr>, hw := wrcr3 ?kpt (init_segments l (hw m))\<rparr>)"
    using v s'(1) by (simp add: init_kernel_memory_def Let_def set_bytes_def)
  ultimately show ?thesis
    using s'(2) s'_eq by (intro exI conjI exI [where x = "\<lambda>j. if 0 \<le> j \<and> j < 512 \<and> j \<noteq> 0 then ident_flags 7 j else 0"]) auto
qed

lemma initial_mem_inv:
  assumes k: "ktables kpt f (bytes s)" and ke: "kpt + 5 * PAGESIZE \<le> ke" "ke \<le> KERNEL_STACK_TOP"
  shows "mem_inv ke kpt {} s"
proof -
  note kf = ktables_forest [OF k] and ki = ktablesD(1) [OF k]
  have "ktable kpt j \<notin> avail ke s" if "j < 5" for j using ktable_not_avail [OF ki ke that] by (simp add: avail_def)
  then have "pt_good (avail ke) s {kpt}" unfolding pt_good_def using kf by auto
  moreover have "mappers (bytes s) {} q = {}" for q by (simp add: mappers_def)
  moreover have "tables (bytes s) {} = {}" by (simp add: tables_def)
  ultimately show ?thesis
    by (simp add: mem_inv_def as_inv_def frames_ok_def exclusive_def counted_def tables_ok_def)
qed

lemma initial_free_run:
  assumes "\<And>i. refcount (pages s i) = 0" "ke \<le> KERNEL_STACK_TOP"
  shows "free_run ke 1 64 s"
proof -
  have "page_va i \<in> avail ke s" if i: "1 \<le> i" "i < 64" for i
  proof -
    have u: "unat (page_va i) = 4096 * i" using i by (intro page_va_unat) simp
    have "allocatable_physical_address ke (page_va i)"
      using u i by (auto simp: allocatable_physical_address_def reserved_physical_address_def word_less_nat_alt word_le_nat_alt)
    then show ?thesis using u assms(1) by (simp add: avail_def used_def page_aligned_iff)
  qed
  moreover have "page_va 1 = PAGESIZE" by (simp add: page_va_def)
  ultimately show ?thesis using allocatable_bounds [of ke] by (auto simp: free_run_def avail_def)
qed

lemma kernel_table_finished:
  assumes l: "layout_ok l" and k: "ktables (l_pagetable l) f (bytes s)" "small_entries f"
  shows "\<exists>it s'. vmiter_init (bytes s) (l_pagetable l) 0 = Inr it \<and> kernel_map_loop (l_kernel_end l) it s = Inr s'
    \<and> ktables (l_pagetable l) kernel_entries (bytes s') \<and> image_same_at l (bytes s) (bytes s') \<and> pages s' = pages s"
proof -
  let ?kpt = "l_pagetable l" and ?ke = "l_kernel_end l"
  have ki: "ktables_in ?kpt" using l by (simp add: layout_ok_def)
  have pv: "page_va 0 = 0" by (simp add: page_va_def)
  from kernel_map_loop_run [OF k, of 0 ?ke] obtain s' where
      s': "kernel_map_loop ?ke (fresh_iter (bytes s) ?kpt 0) s = Inr s'"
      "ktables ?kpt (\<lambda>j. if 0 \<le> j \<and> j < 512 then kernel_entries j else f j) (bytes s')"
      "\<forall>a. page_base a \<noteq> ktable ?kpt 3 \<longrightarrow> bytes s' a = bytes s a" "pages s' = pages s"
    by (auto simp: pv)
  have v: "vmiter_init (bytes s) ?kpt 0 = Inr (fresh_iter (bytes s) ?kpt 0)"
    using ktables_iter_ok [OF k] by (simp add: vmiter_init_fresh iter_ok_def)
  have "ktables ?kpt kernel_entries (bytes s')" by (rule ktables_cong [OF _ s'(2)]) simp
  moreover have "image_same_at l (bytes s) (bytes s')"
    by (rule tables_same [OF l]) (use s'(3) ktable_page_outside [OF ki, of _ 3] in auto)
  ultimately show ?thesis using v s'(1,4) by blast
qed

text \<open>Both loops: what the finished table translates.\<close>

lemma kernel_page_perm_user:
  assumes "va < MEMSIZE_PHYSICAL"
  shows "is_user (kernel_page_perm (unat va div 4096)) \<longleftrightarrow> page_base va = CONSOLE_ADDR \<or> PROC_START_ADDR \<le> va"
proof -
  let ?i = "unat va div 4096"
  have "page_base va = CONSOLE_ADDR \<longleftrightarrow> ?i = 0xB8" by (simp add: word_unat_eq_iff unat_page_base)
  moreover have "PROC_START_ADDR \<le> va \<longleftrightarrow> 256 \<le> ?i" by (simp add: word_le_nat_alt less_eq_div_iff_mult_less_eq)
  moreover have "is_user (kernel_page_perm ?i) \<longleftrightarrow> \<not> (?i < 256 \<and> ?i \<noteq> 0xB8)"
    using and_three_five by (simp add: kernel_page_perm_def is_user_def)
  ultimately show ?thesis by auto
qed

lemma kernel_memory_set_up:
  assumes l: "layout_ok l"
  shows "\<exists>m1 it s. init_kernel_memory l m = retIO m1 \<and> vmiter_init (kbytes m1) (l_pagetable l) 0 = Inr it
    \<and> kernel_map_loop (l_kernel_end l) it (phys (kern m1)) = Inr s
    \<and> (\<forall>va. va < PAGESIZE \<longrightarrow> translate (kbytes m1) (l_pagetable l) va = None \<and> translate (bytes s) (l_pagetable l) va = Some (va, PTE_P OR PTE_W))
    \<and> (\<forall>va. va < MEMSIZE_PHYSICAL \<longrightarrow> (\<exists>perm. translate (bytes s) (l_pagetable l) va = Some (va, perm)
         \<and> (is_user perm \<longleftrightarrow> page_base va = CONSOLE_ADDR \<or> PROC_START_ADDR \<le> va)))
    \<and> (\<forall>va pa perm. MEMSIZE_PHYSICAL \<le> va \<longrightarrow> translate (bytes s) (l_pagetable l) va = Some (pa, perm) \<longrightarrow> \<not> is_user perm)
    \<and> image_same_at l (kbytes m) (bytes s)"
proof -
  from init_kernel_memory_runs [OF l, of m] obtain m1 f where m1: "init_kernel_memory l m = retIO m1"
      "image_same_at l (kbytes m) (kbytes m1)" "ktables (l_pagetable l) f (kbytes m1)" "small_entries f" "f 0 = 0"
    by auto
  from kernel_table_finished [OF l m1(3,4)] obtain it s where
      s: "vmiter_init (kbytes m1) (l_pagetable l) 0 = Inr it" "kernel_map_loop (l_kernel_end l) it (phys (kern m1)) = Inr s"
      "ktables (l_pagetable l) kernel_entries (bytes s)" "image_same_at l (kbytes m1) (bytes s)" by blast
  note km = ktables_kernel_map [OF s(3), unfolded kernel_map_def, rule_format]
  have "\<exists>perm. translate (bytes s) (l_pagetable l) va = Some (va, perm) \<and> (is_user perm \<longleftrightarrow> page_base va = CONSOLE_ADDR \<or> PROC_START_ADDR \<le> va)"
    if "va < MEMSIZE_PHYSICAL" for va using km [of va] that kernel_page_perm_user [OF that] by simp
  moreover have "\<not> is_user perm" if "MEMSIZE_PHYSICAL \<le> va" "translate (bytes s) (l_pagetable l) va = Some (pa, perm)" for va pa perm
    using km [of va] that by (auto simp: not_less [symmetric])
  moreover have "translate (kbytes m1) (l_pagetable l) va = None \<and> translate (bytes s) (l_pagetable l) va = Some (va, PTE_P OR PTE_W)"
    if va: "va < PAGESIZE" for va
  proof -
    have u: "unat va < 4096" "va < MEMSIZE_PHYSICAL" using va by (simp_all add: word_less_nat_alt)
    then have "translate (kbytes m1) (l_pagetable l) va = None"
      using ktables_low_translate [OF m1(3), of va] m1(5) by (simp add: leaf_result_def)
    then show ?thesis using km [of va] u by (simp add: kernel_page_perm_def)
  qed
  ultimately show ?thesis using m1(1) s(1,2) same_fixed_trans [OF m1(2) s(4)] by blast
qed

text \<open>The loop of \<open>kernel\<close> maps the first page, which \<open>init_kernel_memory\<close> has left out: its address is below
  \<open>PROC_START_ADDR\<close>, so the branch for address 0 is never reached.\<close>

lemma null_page_mapped:
  assumes "layout_ok l" "va < PAGESIZE"
  shows "\<exists>m1 it s. init_kernel_memory l m = retIO m1 \<and> translate (kbytes m1) (l_pagetable l) va = None
    \<and> vmiter_init (kbytes m1) (l_pagetable l) 0 = Inr it \<and> kernel_map_loop (l_kernel_end l) it (phys (kern m1)) = Inr s
    \<and> translate (bytes s) (l_pagetable l) va = Some (va, PTE_P OR PTE_W)"
  using kernel_memory_set_up [OF assms(1), of m] assms(2) by metis

section \<open>The first processes\<close>

lemma runs_image_base:
  assumes ok: "program_ok ke kpt pg m0 name elf" and sf: "same_fixed ke kpt m0 m" and r: "runs_image m elf k i"
  shows "runs_image m0 elf k i"
proof -
  note ps = program_same [OF ok sf]
  have "m (elf + p_offset (elf_program_at m0 q) + of_nat x) = m0 (elf + p_offset (elf_program_at m0 q) + of_nat x)"
    if "q \<in> set (segments m0 elf)" "x < unat (p_filesz (elf_program_at m0 q))" for q x
    using ok that sf by (auto simp: program_ok_def seg_ok_def same_fixed_def)
  then show ?thesis using r ps(2,3,4) by (auto simp: runs_image_def)
qed

lemma runs_image_kept:
  assumes su: "set_up ke kpt m elf' i k k'" and j: "j \<in> live k" "j \<noteq> i" and r: "runs_image m0 elf k j"
  shows "runs_image m0 elf k' j"
proof -
  have p: "ptable k' j = ptable k j" and s: "space k' j va = space k j va"
    "translate (bytes (phys k')) (pagetable (ptable k j)) va = translate (bytes (phys k)) (pagetable (ptable k j)) va" for va
    using su j by (auto simp: set_up_def)
  have "user_map (bytes (phys k')) (pagetable (ptable k j)) v q True = user_map (bytes (phys k)) (pagetable (ptable k j)) v q True" for v q
    using s(2) by (intro user_map_cong) simp
  then show ?thesis using r unfolding runs_image_def p s(1) by simp
qed

text \<open>A process to start: its number, the address of the name of its program, and that of the image.\<close>

type_synonym start = "nat \<times> addr \<times> addr"

abbreviation start_call :: "start \<Rightarrow> nat \<times> addr" where
  "start_call x \<equiv> (fst x, fst (snd x))"

definition pages_needed :: "mem \<Rightarrow> start list \<Rightarrow> nat" where
  "pages_needed m xs = (\<Sum>x \<leftarrow> xs. 6 + program_size m (snd (snd x)))"

definition starts_ok :: "addr \<Rightarrow> addr \<Rightarrow> programs \<Rightarrow> mem \<Rightarrow> start list \<Rightarrow> bool" where
  "starts_ok ke kpt pg m xs \<longleftrightarrow>
     distinct (map fst xs) \<and> (\<forall>x \<in> set xs. fst x < NPROC \<and> program_ok ke kpt pg m (fst (snd x)) (snd (snd x)))"

definition all_started :: "mem \<Rightarrow> start list \<Rightarrow> kernel \<Rightarrow> kernel \<Rightarrow> bool" where
  "all_started m xs k k' \<longleftrightarrow>
     live k' = live k \<union> fst ` set xs \<and> current k' = current k \<and> (\<forall>j. pid (ptable k' j) = pid (ptable k j))
     \<and> (\<forall>x \<in> set xs. runs_image m (snd (snd x)) k' (fst x))"

lemma process_setups_run:
  assumes "boot_inv ke kpt n N k" "same_fixed ke kpt m (bytes (phys k))" "starts_ok ke kpt pg m xs"
    "fst ` set xs \<inter> live k = {}" "n + pages_needed m xs \<le> N"
  shows "\<exists>k' n'. process_setups ke kpt pg (map start_call xs) k = retIO k' \<and> boot_inv ke kpt n' N k' \<and> n' \<le> n + pages_needed m xs
    \<and> all_started m xs k k' \<and> (\<forall>j \<in> live k. \<forall>elf. runs_image m elf k j \<longrightarrow> runs_image m elf k' j)"
  using assms
proof (induction xs arbitrary: k n)
  case Nil
  then show ?case by (auto simp: all_started_def pages_needed_def)
next
  case (Cons x xs)
  let ?i = "fst x" and ?nm = "fst (snd x)" and ?elf = "snd (snd x)" and ?b = "bytes (phys k)"
  have x: "?i < NPROC" "?i \<notin> live k" "program_ok ke kpt pg m ?nm ?elf" "?i \<notin> fst ` set xs" "starts_ok ke kpt pg m xs"
    using Cons.prems(3,4) by (auto simp: starts_ok_def)
  note ps = program_same [OF x(3) Cons.prems(2)]
  have need: "pages_needed m (x # xs) = 6 + program_size m ?elf + pages_needed m xs" by (simp add: pages_needed_def)
  then have "n + 6 + program_size ?b ?elf \<le> N" using Cons.prems(5) ps(5) by simp
  from process_setup_run [OF Cons.prems(1) x(2,1) ps(1) this] obtain k1 n1 where
      k1: "process_setup ke kpt pg ?i ?nm k = retIO k1" "boot_inv ke kpt n1 N k1" "n1 \<le> n + 6 + program_size m ?elf" "set_up ke kpt ?b ?elf ?i k k1"
    using ps(5) by auto
  have su: "runs_image ?b ?elf k1 ?i" "live k1 = insert ?i (live k)" "current k1 = current k" "\<And>j. pid (ptable k1 j) = pid (ptable k j)"
      "same_fixed ke kpt ?b (bytes (phys k1))"
  proof -
    show "pid (ptable k1 j) = pid (ptable k j)" for j using k1(4) unfolding set_up_def by (cases "j = ?i") auto
  qed (use k1(4) in \<open>auto simp: set_up_def\<close>)
  have sf: "same_fixed ke kpt m (bytes (phys k1))" by (rule same_fixed_trans [OF Cons.prems(2) su(5)])
  have dj: "fst ` set xs \<inter> live k1 = {}" using su(2) x(4) Cons.prems(4) by auto
  have "n1 + pages_needed m xs \<le> N" using k1(3) Cons.prems(5) need by simp
  from Cons.IH [OF k1(2) sf x(5) dj this] obtain k' n' where
      k': "process_setups ke kpt pg (map start_call xs) k1 = retIO k'" "boot_inv ke kpt n' N k'" "n' \<le> n1 + pages_needed m xs"
      "all_started m xs k1 k'" "\<forall>j \<in> live k1. \<forall>elf. runs_image m elf k1 j \<longrightarrow> runs_image m elf k' j"
    by blast
  have "runs_image m ?elf k' ?i" using k'(5) su(2) runs_image_base [OF x(3) Cons.prems(2) su(1)] by auto
  then have "all_started m (x # xs) k k'" using k'(4) su by (auto simp: all_started_def)
  moreover have "runs_image m elf k' j" if "j \<in> live k" "runs_image m elf k j" for j elf
  proof -
    have "runs_image m elf k1 j" using runs_image_kept [OF k1(4) that(1) _ that(2)] that(1) x(2) by blast
    then show ?thesis using k'(5) su(2) that(1) by blast
  qed
  moreover have "process_setups ke kpt pg (map start_call (x # xs)) k = retIO k'" using k1(1) k'(1) by simp
  moreover have "n' \<le> n + pages_needed m (x # xs)" using k'(3) k1(3) need by simp
  ultimately show ?case using k'(2) by blast
qed

section \<open>The machine before kernel\<close>

text \<open>
  Static data has its initial value, and the processor has a local interrupt controller at the usual
  address. The constructors that the compiler generates, which are not part of the sources, return and leave the modelled
  objects as they are.
\<close>

definition powered_on :: "machine \<Rightarrow> bool" where
  "powered_on m \<longleftrightarrow>
     (\<forall>i. refcount (pages (phys (kern m)) i) = 0) \<and> mu_v m = 0 \<and> showing m = 0
     \<and> cpuid_edx (hw m) AND 0x200 \<noteq> 0 \<and> msr (hw m) 0x1B AND 0x800 \<noteq> 0 \<and> msr (hw m) 0x1B AND 0xFFFFFFFFF000 = 0xFEE00000"

definition quiet_constructor :: "(machine \<Rightarrow> machine run) \<Rightarrow> bool" where
  "quiet_constructor c \<longleftrightarrow> (\<forall>m. \<exists>m'. c m = retIO m' \<and> kern m' = kern m \<and> mu_v m' = mu_v m \<and> showing m' = showing m)"

text \<open>The command names no program that can be loaded: it is null, no image has that name, or the image has no segment.\<close>

definition no_program :: "link \<Rightarrow> programs \<Rightarrow> mem \<Rightarrow> addr \<Rightarrow> bool" where
  "no_program l pg m command \<longleftrightarrow>
     command = 0
     \<or> (\<exists>nm ss. fixed_cstr (l_kernel_end l) (l_pagetable l) m command nm
          \<and> list_all2 (\<lambda>r s. fixed_cstr (l_kernel_end l) (l_pagetable l) m (ri_name r) s) (ramimages pg) ss \<and> nm \<notin> set ss)
     \<or> (\<exists>elf. program_ok (l_kernel_end l) (l_pagetable l) pg m command elf \<and> segments m elf = [])"

text \<open>The processes that \<open>kernel\<close> starts: the program of the command, or the four allocators; their images are in order,
  and there is memory for all of them below the kernel.\<close>

definition boot_starts :: "link \<Rightarrow> programs \<Rightarrow> mem \<Rightarrow> addr \<Rightarrow> start list \<Rightarrow> bool" where
  "boot_starts l pg m command xs \<longleftrightarrow>
     starts_ok (l_kernel_end l) (l_pagetable l) pg m xs \<and> 1 + pages_needed m xs < 64
     \<and> ((\<exists>elf. command \<noteq> 0 \<and> xs = [(1, command, elf)] \<and> segments m elf \<noteq> [])
        \<or> no_program l pg m command \<and> length (allocator_names pg) = 4 \<and> map start_call xs = zip [1, 2, 3, 4] (allocator_names pg))"

lemma init_constructors_runs:
  assumes "list_all quiet_constructor cs"
  shows "\<exists>m'. init_constructors cs m = retIO m' \<and> kern m' = kern m \<and> mu_v m' = mu_v m \<and> showing m' = showing m"
  using assms
proof (induction cs arbitrary: m)
  case (Cons c cs)
  obtain m1 where m1: "c m = retIO m1" "kern m1 = kern m" "mu_v m1 = mu_v m" "showing m1 = showing m"
    using Cons.prems by (auto simp: quiet_constructor_def)
  from Cons.IH [of m1] Cons.prems m1 show ?case by auto
qed simp

lemma init_hardware_runs:
  assumes l: "layout_ok l" and m: "powered_on m" and cs: "list_all quiet_constructor cs"
  shows "\<exists>m' f b. init_hardware l cs m = retIO m' \<and> kern m' = (kern m)\<lparr>phys := (phys (kern m))\<lparr>bytes := b\<rparr>\<rparr>
    \<and> mu_v m' = 0 \<and> showing m' = 0 \<and> image_same_at l (kbytes m) b \<and> ktables (l_pagetable l) f b \<and> small_entries f"
proof -
  from init_kernel_memory_runs [OF l, of m] obtain m1 f where m1: "init_kernel_memory l m = retIO m1"
      "image_same_at l (kbytes m) (kbytes m1)" "ktables (l_pagetable l) f (kbytes m1)" "small_entries f"
      and e1: "m1 = m\<lparr>kern := (kern m)\<lparr>phys := (phys (kern m))\<lparr>bytes := kbytes m1\<rparr>\<rparr>, hw := wrcr3 (l_pagetable l) (init_segments l (hw m))\<rparr>"
    by auto
  let ?m2 = "m1\<lparr>con := (con m1)\<lparr>cursorpos := 3 * CONSOLE_COLUMNS\<rparr>\<rparr>"
  have h1: "hw m1 = wrcr3 (l_pagetable l) (init_segments l (hw m))" and u1: "mu_v m1 = mu_v m" "showing m1 = showing m"
    by (subst e1, simp)+
  have k1: "kern m1 = (kern m)\<lparr>phys := (phys (kern m))\<lparr>bytes := kbytes m1\<rparr>\<rparr>" by (subst e1) simp
  have "cpuid_edx (hw ?m2) = cpuid_edx (hw m)" "msr (hw ?m2) = msr (hw m)"
    by (simp_all add: h1 wrcr3_def init_segments_def set_sys_segment_def)
  then have "\<exists>c s. init_interrupts (hw ?m2) (port ?m2) = Inr (c, s)" using m by (intro init_interrupts_runs) (simp_all add: powered_on_def)
  then obtain c s where cs': "init_interrupts (hw ?m2) (port ?m2) = Inr (c, s)" by blast
  from init_constructors_runs [OF cs, of "?m2\<lparr>hw := c, port := s\<rparr>"] obtain m3 where
      m3: "init_constructors cs (?m2\<lparr>hw := c, port := s\<rparr>) = retIO m3" "kern m3 = kern m1" "mu_v m3 = mu_v m1" "showing m3 = showing m1"
    by auto
  from init_cpu_state_runs [of l "hw m3" "port m3"] obtain c' s' where c': "init_cpu_state l (hw m3) (port m3) = Inr (c', s')" by blast
  have "init_hardware l cs m = retIO (m3\<lparr>hw := c', port := s'\<rparr>)"
    using m1(1) cs' m3(1) c' by (simp add: init_hardware_def Let_def)
  moreover have "kern m3 = (kern m)\<lparr>phys := (phys (kern m))\<lparr>bytes := kbytes m1\<rparr>\<rparr>" using m3(2) k1 by simp
  ultimately show ?thesis using m3(3,4) u1 m1(2,3,4) m by (intro exI [of _ "m3\<lparr>hw := c', port := s'\<rparr>"] exI [of _ f] exI [of _ "kbytes m1"]) (simp add: powered_on_def)
qed

lemma command_chosen:
  assumes st: "boot_starts l pg m command xs" and sf: "image_same_at l m m'"
  shows "\<exists>b. (if command \<noteq> 0 then bindIO (tryIO mm (program_loader_name pg m' command)) (\<lambda>ld. retIO (loader_present ld)) else retIO False)
      = retIO b \<and> (if b then [(1, command)] else zip [1, 2, 3, 4] (allocator_names pg)) = map start_call xs"
proof -
  have found: "\<exists>ld. program_loader_name pg m' command = retIO ld \<and> loader_present ld = (segments m elf \<noteq> [])"
    if "program_ok (l_kernel_end l) (l_pagetable l) pg m command elf" for elf
  proof -
    note pl = program_loads [OF that sf]
    have "loader_at m' (loader_pos elf (image_end m elf) (segments m elf)) (segments m elf)" using pl(4) sf by (simp add: walkable_def)
    from loader_at_present [OF this] pl(1) show ?thesis by auto
  qed
  have missing: "\<exists>ld. program_loader_name pg m' command = retIO ld \<and> \<not> loader_present ld"
    if "fixed_cstr (l_kernel_end l) (l_pagetable l) m command nm"
      "list_all2 (\<lambda>r s. fixed_cstr (l_kernel_end l) (l_pagetable l) m (ri_name r) s) (ramimages pg) ss" "nm \<notin> set ss" for nm ss
  proof -
    have "list_all2 (\<lambda>r s. cstr m' (ri_name r) s) (ramimages pg) ss"
      using that(2) by (rule list_all2_mono) (use fixed_cstr_same [OF sf] in \<open>auto simp: fixed_cstr_def\<close>)
    moreover have "cstr m' command nm" using fixed_cstr_same [OF sf that(1)] by (simp add: fixed_cstr_def)
    ultimately have "program_number pg m' command = Some (- 1)" using program_number_finds [of m' command nm pg ss] that(3) by simp
    then show ?thesis by (simp add: program_loader_name_def program_loader_number_def loader_reset_def loader_present_def)
  qed
  from st consider (one) elf where "command \<noteq> 0" "xs = [(1, command, elf)]" "segments m elf \<noteq> []"
      "program_ok (l_kernel_end l) (l_pagetable l) pg m command elf"
    | (four) "no_program l pg m command" "map start_call xs = zip [1, 2, 3, 4] (allocator_names pg)"
  proof -
    have "starts_ok (l_kernel_end l) (l_pagetable l) pg m xs" using st by (simp add: boot_starts_def)
    then have "program_ok (l_kernel_end l) (l_pagetable l) pg m command elf" if "xs = [(1, command, elf)]" for elf
      using that by (simp add: starts_ok_def)
    then show thesis using st one four unfolding boot_starts_def by blast
  qed
  then show ?thesis
  proof cases
    case one
    from found [OF one(4)] one(3) obtain ld where "program_loader_name pg m' command = retIO ld" "loader_present ld" by blast
    then show ?thesis using one(1,2) by (intro exI [of _ True]) simp
  next
    case four
    from four(1) have "command = 0 \<or> (\<exists>ld. program_loader_name pg m' command = retIO ld \<and> \<not> loader_present ld)"
      unfolding no_program_def using missing found by metis
    then show ?thesis using four(2) by (intro exI [of _ False]) auto
  qed
qed

lemma boot_ids:
  assumes "boot_starts l pg m command xs"
  shows "fst ` set xs \<subseteq> {1, 2, 3, 4}" "1 \<in> fst ` set xs"
proof -
  have "map fst xs = [1] \<or> map fst xs = [1, 2, 3, 4]"
  proof (cases "\<exists>elf. xs = [(1, command, elf)]")
    case False
    then have a: "length (allocator_names pg) = 4" "map start_call xs = zip [1, 2, 3, 4] (allocator_names pg)"
      using assms by (auto simp: boot_starts_def)
    have "map fst xs = map fst (map start_call xs)" by simp
    also have "\<dots> = [1, 2, 3, 4]" unfolding a(2) using a(1) by (simp only: map_fst_zip list.size)
    finally show ?thesis ..
  qed auto
  then have "set (map fst xs) = {1} \<or> set (map fst xs) = {1, 2, 3, 4}" by (metis list.set(1,2))
  then show "fst ` set xs \<subseteq> {1, 2, 3, 4}" "1 \<in> fst ` set xs" by auto
qed

section \<open>kernel\<close>

lemma descriptors_empty: "live (k\<lparr>ptable := init_descriptors (ptable k)\<rparr>) = {}"
  by (auto simp: live_def init_descriptors_def)

text \<open>The loop over the page table and the process descriptors leave a system without processes.\<close>

lemma kernel_tables_done:
  assumes l: "layout_ok l" and k: "ktables (l_pagetable l) f (bytes s)" "small_entries f" and rc: "\<And>i. refcount (pages s i) = 0"
  shows "\<exists>it s'. vmiter_init (bytes s) (l_pagetable l) 0 = Inr it \<and> kernel_map_loop (l_kernel_end l) it s = Inr s'
    \<and> image_same_at l (bytes s) (bytes s')
    \<and> (\<forall>k. phys k = s' \<and> live k = {} \<longrightarrow> boot_inv (l_kernel_end l) (l_pagetable l) 1 64 k)"
proof -
  let ?kpt = "l_pagetable l" and ?ke = "l_kernel_end l"
  have ke: "?kpt + 5 * PAGESIZE \<le> ?ke" "?ke \<le> KERNEL_STACK_TOP" using l by (simp_all add: layout_ok_def link_ok_def)
  from kernel_table_finished [OF l k] obtain it s' where
      s': "vmiter_init (bytes s) ?kpt 0 = Inr it" "kernel_map_loop ?ke it s = Inr s'" "ktables ?kpt kernel_entries (bytes s')"
      "image_same_at l (bytes s) (bytes s')" "pages s' = pages s" by blast
  have "free_run ?ke 1 64 s'" using rc s'(5) ke(2) by (intro initial_free_run) simp_all
  then have "boot_inv ?ke ?kpt 1 64 k" if "phys k = s'" "live k = {}" for k
    using that ke(2) s'(3) initial_mem_inv [OF s'(3) ke] by (simp add: boot_inv_def sys_inv_def proc_roots_def)
  then show ?thesis using s'(1,2,4) by blast
qed

text \<open>The first switch to a process; before it no process is current.\<close>

lemma boot_run_ok:
  assumes l: "layout_ok l" and inv: "boot_inv (l_kernel_end l) (l_pagetable l) n N (kern m)" and n: "n < N"
    and z: "state (ptable (kern m) 0) = P_FREE" and one: "state (ptable (kern m) 1) = P_RUNNABLE"
    and pids: "\<And>i. i < NPROC \<Longrightarrow> pid (ptable (kern m) i) = int i" and mu: "mu_v m = 0" "showing m = 0"
  shows "\<exists>m'. run l 1 m = Some (Inl (Resume 1, m')) \<and> ready l m' \<and> kern m' = (kern m)\<lparr>current := 1\<rparr>"
proof -
  let ?m = "set_current 1 m"
  have sys: "sys_inv (l_kernel_end l) (l_pagetable l) (kern m)" and kt: "ktables (l_pagetable l) kernel_entries (kbytes m)"
    and fr: "free_run (l_kernel_end l) n N (phys (kern m))" using inv by (simp_all add: boot_inv_def)
  have same: "live ((kern m)\<lparr>current := 1\<rparr>) = live (kern m)" "proc_roots ((kern m)\<lparr>current := 1\<rparr>) = proc_roots (kern m)"
    by (simp_all add: live_def proc_roots_def)
  have "avail (l_kernel_end l) (phys (kern m)) \<noteq> {}" using free_run_alloc(3) [OF fr n] by auto
  then have mi: "minv l ?m"
    using l sys z pids mu ktables_kpt_ok [OF kt] same
    by (simp add: minv_def layout_ok_def viewer_ok_def set_current_def sys_inv_def)
  have "1 \<in> live (kern ?m)" using one by (simp add: live_def set_current_def)
  from check_pagetable_ok [OF mi this] have
    "run l 1 m = Some (Inl (Resume 1, ?m\<lparr>hw := wrcr3 (pagetable (ptable (kern m) 1)) (hw ?m)\<rparr>))"
    using one by (simp add: run_def set_current_def Let_def)
  moreover have "ready l (?m\<lparr>hw := h\<rparr>)" for h
    using mi one mu(1) by (simp add: ready_def minv_def viewer_ok_def set_current_def)
  ultimately show ?thesis by (auto simp: set_current_def)
qed

lemma runs_image_current: "runs_image m elf (k\<lparr>current := c\<rparr>) i = runs_image m elf k i"
  by (simp add: runs_image_def space_def)

lemma kernel_start_steps:
  assumes "init_hardware l cs m = retIO m1" "klog (lit ''Starting WeensyOS'' @ [10]) [] m1 = retIO m2" "init_timer (int HZ) (port m2) = Inr s"
    "m4 = m2\<lparr>ticks := 1, port := s, con := console_clear (con m2)\<rparr>"
    "vmiter_init (kbytes m4) (l_pagetable l) 0 = Inr it" "kernel_map_loop (l_kernel_end l) it (phys (kern m4)) = Inr s5"
    "m5 = m4\<lparr>kern := (kern m4)\<lparr>phys := s5, ptable := init_descriptors (ptable (kern m4))\<rparr>\<rparr>"
    "(if command \<noteq> 0 then bindIO (tryIO m5 (program_loader_name pg (kbytes m5) command)) (\<lambda>ld. retIO (loader_present ld)) else retIO False) = retIO b"
    "(if b then [(1, command)] else zip [1, 2, 3, 4] (allocator_names pg)) = xs"
    "process_setups (l_kernel_end l) (l_pagetable l) pg xs (kern m5) = retIO k"
  shows "kernel_start l pg cs command m = run l 1 (m5\<lparr>kern := k\<rparr>)"
proof -
  have m3: "m2\<lparr>ticks := 1, port := s, con := console_clear (con (m2\<lparr>ticks := 1\<rparr>))\<rparr> = m4" "port (m2\<lparr>ticks := 1\<rparr>) = port m2"
    using assms(4) by simp_all
  show ?thesis
    unfolding kernel_start_def assms(1,2) bindIO_simps Let_def m3 assms(3,5,6) try_simps prod.case assms(7) [symmetric] assms(8,9,10) ..
qed

lemma booted:
  assumes l: "layout_ok l" and on: "powered_on m" and cs: "list_all quiet_constructor cs" and st: "boot_starts l pg (kbytes m) command xs"
  shows "\<exists>m'. kernel_start l pg cs command m = Some (Inl (Resume 1, m')) \<and> ready l m' \<and> live (kern m') = fst ` set xs
    \<and> current (kern m') = 1 \<and> (\<forall>x \<in> set xs. runs_image (kbytes m) (snd (snd x)) (kern m') (fst x))"
proof -
  let ?ke = "l_kernel_end l" and ?kpt = "l_pagetable l" and ?fmt = "lit ''Starting WeensyOS'' @ [10]"
  from init_hardware_runs [OF l on cs] obtain m1 f b where m1: "init_hardware l cs m = retIO m1"
      "kern m1 = (kern m)\<lparr>phys := (phys (kern m))\<lparr>bytes := b\<rparr>\<rparr>" "mu_v m1 = 0" "showing m1 = 0"
      "image_same_at l (kbytes m) b" "ktables ?kpt f b" "small_entries f" by blast
  have "fmt_ok ?fmt []" by (simp add: lit_def)
  from klog_ok [OF this, of m1] obtain m2 where m2: "klog ?fmt [] m1 = retIO m2" "quiet m1 m2" by metis
  let ?m3 = "m2\<lparr>ticks := 1\<rparr>"
  from init_timer_runs [of "int HZ" "port ?m3"] obtain s where s: "init_timer (int HZ) (port ?m3) = Inr s" by blast
  define m4 where "m4 = ?m3\<lparr>port := s, con := console_clear (con ?m3)\<rparr>"
  have m4: "kern m4 = kern m1" "mu_v m4 = 0" "showing m4 = 0" using quietD [OF m2(2)] m1(3,4) by (simp_all add: m4_def)
  have "ktables ?kpt f (kbytes m4)" using m1(2,6) m4(1) by simp
  moreover have "refcount (pages (phys (kern m4)) i) = 0" for i using on m1(2) m4(1) by (simp add: powered_on_def)
  ultimately obtain it s5 where s5: "vmiter_init (kbytes m4) ?kpt 0 = Inr it" "kernel_map_loop ?ke it (phys (kern m4)) = Inr s5"
      "image_same_at l (kbytes m4) (bytes s5)" "\<forall>k. phys k = s5 \<and> live k = {} \<longrightarrow> boot_inv ?ke ?kpt 1 64 k"
    using kernel_tables_done [OF l _ m1(7), of "phys (kern m4)"] by blast
  define m5 where "m5 = m4\<lparr>kern := (kern m4)\<lparr>phys := s5, ptable := init_descriptors (ptable (kern m4))\<rparr>\<rparr>"
  have lv: "live (kern m5) = {}" using descriptors_empty [of "(kern m4)\<lparr>phys := s5\<rparr>"] by (simp add: m5_def)
  have b5: "boot_inv ?ke ?kpt 1 64 (kern m5)" using s5(4) lv by (simp add: m5_def)
  have sf: "image_same_at l (kbytes m) (kbytes m5)" using same_fixed_trans [OF m1(5), of "bytes s5"] s5(3) m1(2) m4(1) by (simp add: m5_def)
  from command_chosen [OF st sf, of m5] obtain pr where
      pr: "(if command \<noteq> 0 then bindIO (tryIO m5 (program_loader_name pg (kbytes m5) command)) (\<lambda>ld. retIO (loader_present ld)) else retIO False) = retIO pr"
      "(if pr then [(1, command)] else zip [1, 2, 3, 4] (allocator_names pg)) = map start_call xs"
    by blast
  have ok: "starts_ok ?ke ?kpt pg (kbytes m) xs" "1 + pages_needed (kbytes m) xs < 64" using st by (simp_all add: boot_starts_def)
  from process_setups_run [OF b5 sf ok(1)] lv ok(2) obtain k n where
      k: "process_setups ?ke ?kpt pg (map start_call xs) (kern m5) = retIO k" "boot_inv ?ke ?kpt n 64 k" "n \<le> 1 + pages_needed (kbytes m) xs"
      "all_started (kbytes m) xs (kern m5) k"
    by auto
  have ids: "fst ` set xs \<subseteq> {1, 2, 3, 4}" "1 \<in> fst ` set xs" by (use boot_ids [OF st] in auto)
  have al: "live k = fst ` set xs" "\<And>x. x \<in> set xs \<Longrightarrow> runs_image (kbytes m) (snd (snd x)) k (fst x)"
      "\<And>i. i < NPROC \<Longrightarrow> pid (ptable k i) = int i"
    using k(4) lv by (auto simp: all_started_def m5_def init_descriptors_def)
  have "0 \<notin> live k" using al(1) ids(1) by auto
  then have z: "state (ptable k 0) = P_FREE" by (simp add: live_def)
  have one: "state (ptable k 1) = P_RUNNABLE" using ids(2) al(2) unfolding runs_image_def by (metis imageE)
  from boot_run_ok [OF l, of n 64 "m5\<lparr>kern := k\<rparr>"] k(2,3) ok(2) z one al(3) m4(2,3) obtain m' where
      m': "(run l 1 (m5\<lparr>kern := k\<rparr>) :: unit run) = Some (Inl (Resume 1, m'))" "ready l m'" "kern m' = k\<lparr>current := 1\<rparr>"
    by (auto simp: m5_def)
  have "kernel_start l pg cs command m = Some (Inl (Resume 1, m'))"
    by (rule trans [OF kernel_start_steps [OF m1(1) m2(1) _ _ s5(1,2) m5_def pr k(1)]]) (use s m'(1) m4_def in simp_all)
  then show ?thesis using m' al(1,2) by (intro exI [of _ m']) (simp add: live_def runs_image_current)
qed

end
