(* ===== verification/Boot_Sample.thy ===== *)
theory Boot_Sample
  imports Boot_Run
begin

text \<open>
  A machine that is about to start: the sample image of \<open>Loader\<close> lies in kernel memory, and nothing is
  allocated. It satisfies the hypotheses of the results on the start of the kernel.
\<close>

definition boot_machine :: machine where
  "boot_machine = sample_machine\<lparr>kern := sample_system\<lparr>phys := \<lparr>bytes = sample_image, pages = \<lambda>_. \<lparr>refcount = 0\<rparr>\<rparr>\<rparr>\<rparr>"

lemma boot_machine_simps [simp]:
  "kbytes boot_machine = sample_image" "pages (phys (kern boot_machine)) i = \<lparr>refcount = 0\<rparr>"
  by (simp_all add: boot_machine_def)

lemma sample_layout: "layout_ok sample_link"
  by (simp add: layout_ok_def link_ok_def ktables_in_def sample_link_def page_aligned_def)

lemma sample_link_simps [simp]: "l_kernel_end sample_link = 0x50000" "l_pagetable sample_link = 0x40000"
  by (simp_all add: sample_link_def)

lemma boot_machine_on: "powered_on boot_machine"
  by (simp add: powered_on_def) (simp add: boot_machine_def sample_machine_def sample_cpu_def)

lemma sample_byte_fixed:
  assumes "0x45000 \<le> unat a" "unat a < 0x50000"
  shows "fixed 0x50000 0x40000 a"
  using assms by (simp add: fixed_def word_le_nat_alt word_less_nat_alt)

lemma sample_byte_fixed_off:
  assumes "0x45000 \<le> unat a" "unat a < 0x45200" "x < 256"
  shows "fixed 0x50000 0x40000 (a + of_nat x)"
proof -
  have "unat (a + of_nat x) = unat a + x" using assms by (intro unat_add_of_nat) simp
  then show ?thesis using assms by (intro sample_byte_fixed) simp_all
qed

lemma sample_strings_fixed:
  "list_all2 (\<lambda>r s. fixed_cstr 0x50000 0x40000 sample_image (ri_name r) s) (ramimages sample_programs) sample_names"
proof -
  have "list_all2 (\<lambda>r s. cstr sample_image (ri_name r) s \<and> 0x45000 \<le> unat (ri_name r) \<and> unat (ri_name r) < 0x45200 \<and> length s < 255)
      (ramimages sample_programs) (map ((!) sample_names) [0, 1, 2, 3, 4, 5])"
    using sample_name by (simp add: sample_programs_def sample_names_def)
  moreover have "map ((!) sample_names) [0, 1, 2, 3, 4, 5] = sample_names" by (simp add: sample_names_def)
  ultimately show ?thesis by (auto simp: fixed_cstr_def intro: sample_byte_fixed_off elim!: list_all2_mono)
qed

lemma sample_program_ok:
  assumes "i < 6"
  shows "program_ok 0x50000 0x40000 sample_programs sample_image (ri_name (ramimages sample_programs ! i)) 0x45000"
proof -
  have len: "length sample_names = 6" "length (ramimages sample_programs) = 6" by (simp_all add: sample_names_def sample_programs_def)
  have nm: "fixed_cstr 0x50000 0x40000 sample_image (ri_name (ramimages sample_programs ! i)) (sample_names ! i)"
    using list_all2_nthD [OF sample_strings_fixed] assms len by simp
  have beg: "ri_begin (ramimages sample_programs ! j) = 0x45000" if "j < 6" for j
  proof -
    have "\<forall>r \<in> set (ramimages sample_programs). ri_begin r = 0x45000" by (simp add: sample_programs_def)
    then show ?thesis using that len by simp
  qed
  have mem: "sample_names ! i \<in> set sample_names" using assms len by simp
  have "length (takeWhile (\<lambda>s. s \<noteq> sample_names ! i) sample_names) < length sample_names"
    using mem takeWhile_eq_all_conv [of "\<lambda>s. s \<noteq> sample_names ! i" sample_names] takeWhile_eq_take [of "\<lambda>s. s \<noteq> sample_names ! i" sample_names]
      length_takeWhile_le [of "\<lambda>s. s \<noteq> sample_names ! i" sample_names] by (metis le_neq_implies_less take_all order_refl)
  then have "0x45000 = ri_begin (ramimages sample_programs ! length (takeWhile (\<lambda>s. s \<noteq> sample_names ! i) sample_names))"
    using beg len by simp
  moreover have "image_fixed 0x50000 0x40000 sample_image 0x45000"
  proof -
    have "headers 0x45040 2 = [0x45040, 0x45078]" by (simp add: numeral_2_eq_2)
    then show ?thesis using sample_byte_fixed_off by (simp add: image_fixed_def sample_header)
  qed
  moreover have "seg_ok 0x50000 0x40000 0x45000 (elf_program_at sample_image 0x45078)"
    using sample_byte_fixed_off by (simp add: seg_ok_def sample_program_headers)
  ultimately show ?thesis
    using nm sample_strings_fixed mem sample_image_ok
    by (auto simp: program_ok_def sample_segments image_pages_def)
qed

lemma sample_size: "program_size sample_image 0x45000 = 1"
  by (simp add: program_size_def sample_segments image_pages_def sample_program_headers seg_first_def seg_last_def)

text \<open>Without a command, and with the command \<open>fork\<close>, whose name is the fifth.\<close>

lemma sample_starts:
  "boot_starts sample_link sample_programs sample_image 0 [(1, 0x450C0, 0x45000), (2, 0x450D0, 0x45000), (3, 0x450E0, 0x45000), (4, 0x450F0, 0x45000)]"
  "boot_starts sample_link sample_programs sample_image 0x45100 [(1, 0x45100, 0x45000)]"
proof -
  have n: "map (\<lambda>i. ri_name (ramimages sample_programs ! i)) [0, 1, 2, 3, 4] = [0x450C0, 0x450D0, 0x450E0, 0x450F0, 0x45100]"
    by (simp add: sample_programs_def)
  have "program_ok 0x50000 0x40000 sample_programs sample_image a 0x45000" if "a \<in> {0x450C0, 0x450D0, 0x450E0, 0x450F0, 0x45100}" for a
    using that sample_program_ok [of 0] sample_program_ok [of 1] sample_program_ok [of 2] sample_program_ok [of 3] sample_program_ok [of 4] n by auto
  then show "boot_starts sample_link sample_programs sample_image 0 [(1, 0x450C0, 0x45000), (2, 0x450D0, 0x45000), (3, 0x450E0, 0x45000), (4, 0x450F0, 0x45000)]"
    "boot_starts sample_link sample_programs sample_image 0x45100 [(1, 0x45100, 0x45000)]"
    by (simp_all add: boot_starts_def starts_ok_def pages_needed_def sample_size no_program_def sample_segments) (simp add: sample_programs_def)
qed

text \<open>The state of the kernel after it has set up its page table and before the first process.\<close>

definition empty_kernel :: kernel where
  "empty_kernel =
     (let s = \<lparr>bytes = kernel_tables 0x40000 sample_image, pages = \<lambda>_. \<lparr>refcount = 0\<rparr>\<rparr>
      in sample_system\<lparr>phys := (case bindE (vmiter_init (bytes s) 0x40000 0) (\<lambda>it. kernel_map_loop 0x50000 it s) of Inr s' \<Rightarrow> s' | Inl _ \<Rightarrow> s),
                       ptable := init_descriptors (ptable sample_system)\<rparr>)"

lemma empty_kernel_inv:
  "boot_inv 0x50000 0x40000 1 64 empty_kernel" "same_fixed 0x50000 0x40000 sample_image (bytes (phys empty_kernel))" "live empty_kernel = {}"
proof -
  let ?s = "\<lparr>bytes = kernel_tables 0x40000 sample_image, pages = \<lambda>_. \<lparr>refcount = 0\<rparr>\<rparr> :: kmem"
  have ki: "ktables_in 0x40000" using sample_layout by (simp add: layout_ok_def)
  have k: "ktables (l_pagetable sample_link) (\<lambda>_. 0) (bytes ?s)" using kernel_tables_ktables [OF ki] by simp
  from kernel_tables_done [OF sample_layout k] obtain it s' where
      s': "vmiter_init (bytes ?s) 0x40000 0 = Inr it" "kernel_map_loop 0x50000 it ?s = Inr s'" "same_fixed 0x50000 0x40000 (bytes ?s) (bytes s')"
      "\<forall>k. phys k = s' \<and> live k = {} \<longrightarrow> boot_inv 0x50000 0x40000 1 64 k"
    by (auto simp: small_entries_def)
  have p: "phys empty_kernel = s'" using s'(1,2) by (simp add: empty_kernel_def Let_def)
  show lv: "live empty_kernel = {}" by (auto simp: empty_kernel_def Let_def live_def init_descriptors_def)
  show "boot_inv 0x50000 0x40000 1 64 empty_kernel" using s'(4) p lv by blast
  have "image_same_at sample_link sample_image (bytes ?s)"
    by (rule tables_same [OF sample_layout]) (use kernel_tables_outside [OF ki] in simp)
  then show "same_fixed 0x50000 0x40000 sample_image (bytes (phys empty_kernel))"
    using same_fixed_trans s'(3) p by fastforce
qed

end
