(* ===== verification/Boot_Loader.thy ===== *)
theory Boot_Loader
  imports Loader Devices
begin

text \<open>
  The boot loader, \<open>boot.cc\<close>: it reads the kernel's image from the disk and jumps to the kernel. The disk answers
  as the ATA standard says for reads of single sectors; the result is that every segment of the
  kernel is at its address, followed by zeroes, when the kernel is entered.
\<close>

abbreviation (input) SECTORSIZE :: u64 where "SECTORSIZE \<equiv> 512"
abbreviation (input) ELFHDR :: addr where "ELFHDR \<equiv> 0x3000"
abbreviation (input) KERNEL_START_SECTOR :: u64 where "KERNEL_START_SECTOR \<equiv> 1"

section \<open>Operations\<close>

partial_function (option) boot_waitdisk :: "io \<Rightarrow> io option" where
  "boot_waitdisk s = (let (v, s') = inb 0x1F7 s in if v AND 0xC0 \<noteq> 0x40 then boot_waitdisk s' else Some s')"

definition boot_readsect :: "addr \<Rightarrow> u32 \<Rightarrow> mem \<times> io \<Rightarrow> (mem \<times> io) option" where
  "boot_readsect dst src_sect ms =
     Option.bind (boot_waitdisk (snd ms)) (\<lambda>s.
     let s = outb 0x1F2 1 s;
         s = outb 0x1F3 (ucast src_sect) s;
         s = outb 0x1F4 (ucast (drop_bit 8 src_sect)) s;
         s = outb 0x1F5 (ucast (drop_bit 16 src_sect)) s;
         s = outb 0x1F6 (ucast (drop_bit 24 src_sect OR 0xE0)) s;
         s = outb 0x1F7 0x20 s
     in Option.bind (boot_waitdisk s) (\<lambda>s. Some (insl 0x1F0 dst (512 div 4) (fst ms) s)))"

partial_function (option) boot_read_loop :: "addr \<Rightarrow> addr \<Rightarrow> u32 \<Rightarrow> mem \<times> io \<Rightarrow> (mem \<times> io) option" where
  "boot_read_loop ptr end_ptr src_sect ms =
     (if ptr < end_ptr
      then Option.bind (boot_readsect ptr src_sect ms) (boot_read_loop (ptr + SECTORSIZE) end_ptr (src_sect + 1))
      else Some ms)"

function boot_clear_loop :: "addr \<Rightarrow> addr \<Rightarrow> mem \<Rightarrow> mem" where
  "boot_clear_loop end_ptr memsz m =
     (if end_ptr < memsz then boot_clear_loop (end_ptr + 1) memsz (m(end_ptr := 0)) else m)"
  by pat_completeness auto
termination
proof (relation "measure (\<lambda>(e, z, m). unat z - unat e)", goal_cases)
  case (2 e z m)
  then have lt: "unat e < unat z" by (simp add: word_less_nat_alt)
  then have "unat (e + 1) = unat e + 1" using unat_lt2p [of z] by (subst unat_add_small) simp_all
  then show ?case using lt by simp
qed simp

declare boot_clear_loop.simps [simp del]

definition boot_readseg :: "addr \<Rightarrow> u32 \<Rightarrow> u64 \<Rightarrow> u64 \<Rightarrow> mem \<times> io \<Rightarrow> (mem \<times> io) option" where
  "boot_readseg ptr src_sect filesz memsz ms =
     (let end_ptr = ptr + filesz; memsz = memsz + ptr; ptr = ptr AND NOT (SECTORSIZE - 1)
      in Option.bind (boot_read_loop ptr end_ptr src_sect ms) (\<lambda>(m, s). Some (boot_clear_loop end_ptr memsz m, s)))"

text \<open>The loader waits without end if the image has the wrong magic number.\<close>

partial_function (option) boot_check :: "mem \<Rightarrow> unit option" where
  "boot_check m = (if e_magic (elf_header_at m ELFHDR) \<noteq> ELF_MAGIC then boot_check m else Some ())"

partial_function (option) boot_segments :: "addr \<Rightarrow> addr \<Rightarrow> mem \<times> io \<Rightarrow> (mem \<times> io) option" where
  "boot_segments ph eph ms =
     (if ph < eph then
        let h = elf_program_at (fst ms) ph in
        Option.bind (boot_readseg (p_va h) (ucast (KERNEL_START_SECTOR + p_offset h div SECTORSIZE)) (p_filesz h) (p_memsz h) ms)
          (boot_segments (ph + PHSIZE) eph)
      else Some ms)"

text \<open>The address that is called at the end, and the state in which it is called.\<close>

definition boot :: "mem \<times> io \<Rightarrow> (addr \<times> mem \<times> io) option" where
  "boot ms =
     Option.bind (boot_readseg ELFHDR (ucast KERNEL_START_SECTOR) PAGESIZE PAGESIZE ms) (\<lambda>ms1.
     Option.bind (boot_check (fst ms1)) (\<lambda>_.
     let h = elf_header_at (fst ms1) ELFHDR; ph = ELFHDR + e_phoff h; eph = ph + PHSIZE * ucast (e_phnum h) in
     Option.bind (boot_segments ph eph ms1) (\<lambda>ms2. Some (e_entry (elf_header_at (fst ms2) ELFHDR), ms2))))"

section \<open>The disk\<close>

text \<open>
  The disk controller as the ATA standard describes reads by 28-bit sector numbers. The state is determined by the
  accesses so far and by what the status register answered. \<open>ata_ready\<close> says that the last answer was ready and not
  busy; \<open>ata_left\<close> counts the sectors of the current command that the data port still has to deliver. \<open>ata_ok\<close>
  says that the host has kept to the protocol: it has written registers only when the controller was ready and
  had nothing to deliver, has started only reads of sectors of drive 0 that exist, by sector number (bit 6 of the device
  register) and not by cylinder, and has read the data port only when a word was ready there. The status is taken to be
  valid as soon as the command is written (the standard allows the controller 400 ns).
\<close>

record ata =
  ata_size :: nat
  ata_ok :: bool
  ata_ready :: bool
  sect_count :: u8
  lba0 :: u8
  lba1 :: u8
  lba2 :: u8
  lba3 :: u8
  ata_sector :: nat
  ata_word :: nat
  ata_left :: nat

definition ata_port :: "u16 \<Rightarrow> bool" where
  "ata_port p \<longleftrightarrow> 0x1F0 \<le> p \<and> p \<le> 0x1F7 \<or> p = 0x3F6"

definition lba :: "ata \<Rightarrow> nat" where
  "lba a = unat (lba0 a) + 2 ^ 8 * unat (lba1 a) + 2 ^ 16 * unat (lba2 a) + 2 ^ 24 * (unat (lba3 a) mod 16)"

text \<open>A sector count of 0 stands for 256.\<close>

definition sectors_asked :: "ata \<Rightarrow> nat" where
  "sectors_asked a = (if sect_count a = 0 then 256 else unat (sect_count a))"

definition ata_violation :: "u16 \<Rightarrow> ata \<Rightarrow> ata" where
  "ata_violation p a = (if ata_port p then a\<lparr>ata_ok := False\<rparr> else a)"

definition ata_write :: "u16 \<Rightarrow> u8 \<Rightarrow> ata \<Rightarrow> ata" where
  "ata_write p v a =
     (if \<not> ata_ready a \<or> 0 < ata_left a then ata_violation p a
      else if p = 0x1F2 then a\<lparr>sect_count := v\<rparr> else if p = 0x1F3 then a\<lparr>lba0 := v\<rparr> else if p = 0x1F4 then a\<lparr>lba1 := v\<rparr>
      else if p = 0x1F5 then a\<lparr>lba2 := v\<rparr> else if p = 0x1F6 then a\<lparr>lba3 := v\<rparr>
      else if p = 0x1F7 \<and> v = 0x20 \<and> lba3 a AND 0x50 = 0x40 \<and> lba a + sectors_asked a \<le> ata_size a
      then a\<lparr>ata_sector := lba a, ata_word := 0, ata_left := sectors_asked a, ata_ready := False\<rparr>
      else ata_violation p a)"

definition ata_read_word :: "ata \<Rightarrow> ata" where
  "ata_read_word a =
     (if \<not> ata_ready a \<or> ata_left a = 0 then a\<lparr>ata_ok := False\<rparr>
      else if ata_word a < 127 then a\<lparr>ata_word := Suc (ata_word a)\<rparr>
      else a\<lparr>ata_sector := Suc (ata_sector a), ata_word := 0, ata_left := ata_left a - 1, ata_ready := False\<rparr>)"

fun ata_step :: "u32 \<Rightarrow> io_event \<Rightarrow> ata \<Rightarrow> ata" where
  "ata_step answer (In8 p) a =
     (if p = 0x1F7 then a\<lparr>ata_ready := ((ucast answer :: u8) AND 0xC0 = 0x40)\<rparr> else ata_violation p a)"
| "ata_step answer (Out8 p v) a = ata_write p v a"
| "ata_step answer (In32 p) a = (if p = 0x1F0 then ata_read_word a else ata_violation p a)"
| "ata_step answer (In16 p) a = ata_violation p a"
| "ata_step answer (Out16 p v) a = ata_violation p a"
| "ata_step answer (Out32 p v) a = ata_violation p a"
| "ata_step answer e a = a"

text \<open>The state after a history, from the state \<open>a\<close> in which the firmware leaves the controller; the
  history is taken with its newest event first.\<close>

primrec ata_hist :: "ata \<Rightarrow> (io_event list \<Rightarrow> io_event \<Rightarrow> u32) \<Rightarrow> io_event list \<Rightarrow> ata" where
  "ata_hist a dev [] = a"
| "ata_hist a dev (e # es) = ata_step (dev (rev es) e) e (ata_hist a dev es)"

definition ata_state :: "ata \<Rightarrow> (io_event list \<Rightarrow> io_event \<Rightarrow> u32) \<Rightarrow> io_event list \<Rightarrow> ata" where
  "ata_state a dev es = ata_hist a dev (rev es)"

definition disk_word :: "(nat \<Rightarrow> u8) \<Rightarrow> nat \<Rightarrow> u32" where
  "disk_word disk n =
     ucast (disk n) OR push_bit 8 (ucast (disk (n + 1))) OR push_bit 16 (ucast (disk (n + 2))) OR push_bit 24 (ucast (disk (n + 3)))"

text \<open>The device is a disk with the bytes \<open>disk\<close>: as long as the protocol is kept, it becomes ready if it is asked often
  enough, and when it is ready with a sector to deliver, its data port gives the next word of the sector.\<close>

definition ata_disk :: "(nat \<Rightarrow> u8) \<Rightarrow> ata \<Rightarrow> (io_event list \<Rightarrow> io_event \<Rightarrow> u32) \<Rightarrow> bool" where
  "ata_disk disk a dev \<longleftrightarrow>
     (\<forall>es. ata_ok (ata_state a dev es) \<longrightarrow> (\<exists>n. (ucast (dev (es @ replicate n (In8 0x1F7)) (In8 0x1F7)) :: u8) AND 0xC0 = 0x40))
     \<and> (\<forall>es. ata_ok (ata_state a dev es) \<and> ata_ready (ata_state a dev es) \<and> 0 < ata_left (ata_state a dev es) \<longrightarrow>
          dev es (In32 0x1F0) = disk_word disk (512 * ata_sector (ata_state a dev es) + 4 * ata_word (ata_state a dev es)))"

text \<open>No transfer is under way.\<close>

definition ata_idle :: "ata \<Rightarrow> bool" where
  "ata_idle a \<longleftrightarrow> ata_ok a \<and> ata_left a = 0"

definition ata_at :: "ata \<Rightarrow> io \<Rightarrow> ata" where
  "ata_at a s = ata_state a (device s) (events s)"

lemma ata_state_snoc [simp]: "ata_state a dev (es @ [e]) = ata_step (dev es e) e (ata_state a dev es)"
  by (simp add: ata_state_def)

lemma ata_at_event [simp]: "ata_at a (s\<lparr>events := events s @ [e]\<rparr>) = ata_step (device s (events s) e) e (ata_at a s)"
  by (simp add: ata_at_def)

lemma ata_at_do [simp]: "ata_at a (io_do e s) = ata_step (device s (events s) e) e (ata_at a s)"
  by (simp add: io_do_def)

lemma ata_step_size [simp]: "ata_size (ata_step v e a) = ata_size a"
  by (cases e) (auto simp: ata_violation_def ata_write_def ata_read_word_def)

lemma ata_at_size [simp]: "ata_size (ata_at a s) = ata_size a"
proof -
  have "ata_size (ata_hist a dev es) = ata_size a" for dev es by (induction es) simp_all
  then show ?thesis by (simp add: ata_at_def ata_state_def)
qed

text \<open>Waiting only sets the ready flag.\<close>

lemma waitdisk_ready:
  assumes "(ucast (device s (events s @ replicate n (In8 0x1F7)) (In8 0x1F7)) :: u8) AND 0xC0 = 0x40"
  shows "\<exists>es. boot_waitdisk s = Some (s\<lparr>events := es\<rparr>) \<and> ata_at a (s\<lparr>events := es\<rparr>) = (ata_at a s)\<lparr>ata_ready := True\<rparr>"
  using assms
proof (induction n arbitrary: s)
  case 0
  then show ?case
    by (subst boot_waitdisk.simps) (auto simp: inb_def io_ask_def io_do_def intro!: exI [of _ "events s @ [In8 0x1F7]"])
next
  case (Suc n)
  let ?s = "s\<lparr>events := events s @ [In8 0x1F7]\<rparr>"
  show ?case
  proof (cases "(ucast (device s (events s) (In8 0x1F7)) :: u8) AND 0xC0 = 0x40")
    case True
    then show ?thesis
      by (subst boot_waitdisk.simps) (auto simp: inb_def io_ask_def io_do_def intro!: exI [of _ "events s @ [In8 0x1F7]"])
  next
    case False
    from Suc.IH [of ?s] Suc.prems obtain es where
        "boot_waitdisk ?s = Some (?s\<lparr>events := es\<rparr>)" "ata_at a (?s\<lparr>events := es\<rparr>) = (ata_at a ?s)\<lparr>ata_ready := True\<rparr>" by auto
    then show ?thesis
      using False by (subst boot_waitdisk.simps) (auto simp: inb_def io_ask_def io_do_def intro!: exI [of _ es])
  qed
qed

lemma waitdisk_disk:
  assumes "ata_disk disk a (device s)" "ata_ok (ata_at a s)"
  shows "\<exists>es. boot_waitdisk s = Some (s\<lparr>events := es\<rparr>) \<and> ata_at a (s\<lparr>events := es\<rparr>) = (ata_at a s)\<lparr>ata_ready := True\<rparr>"
proof -
  obtain n where "(ucast (device s (events s @ replicate n (In8 0x1F7)) (In8 0x1F7)) :: u8) AND 0xC0 = 0x40"
    using assms unfolding ata_disk_def ata_at_def by blast
  then show ?thesis by (rule waitdisk_ready)
qed

lemma disk_word_bytes:
  "ucast (disk_word d n) = d n" "ucast (drop_bit 8 (disk_word d n)) = d (n + 1)"
  "ucast (drop_bit 16 (disk_word d n)) = d (n + 2)" "ucast (drop_bit 24 (disk_word d n)) = d (n + 3)"
  by (rule bit_word_eqI, auto simp: disk_word_def bit_simps dest: bit_imp_le_length)+

lemma st32_disk:
  assumes "unat a + 4 \<le> 2 ^ 64"
  shows "st32 m a (disk_word d n) b = (if unat a \<le> unat b \<and> unat b < unat a + 4 then d (n + (unat b - unat a)) else m b)"
proof -
  have u: "unat (a + 1) = unat a + 1" "unat (a + 2) = unat a + 2" "unat (a + 3) = unat a + 3"
    using assms by (subst unat_add_small; simp)+
  have e: "b = a \<longleftrightarrow> unat b = unat a" "b = a + 1 \<longleftrightarrow> unat b = unat a + 1" "b = a + 2 \<longleftrightarrow> unat b = unat a + 2" "b = a + 3 \<longleftrightarrow> unat b = unat a + 3"
    unfolding word_unat_eq_iff [of b] u by simp_all
  have c: "unat a \<le> unat b \<and> unat b < unat a + 4 \<longleftrightarrow> unat b = unat a \<or> unat b = unat a + 1 \<or> unat b = unat a + 2 \<or> unat b = unat a + 3" by linarith
  show ?thesis unfolding st32_def disk_word_bytes fun_upd_apply e c by auto
qed

text \<open>A single sector being delivered: \<open>w\<close> words of it have been read.\<close>

definition delivering :: "nat \<Rightarrow> nat \<Rightarrow> ata \<Rightarrow> bool" where
  "delivering S w a \<longleftrightarrow>
     ata_ok a \<and> (if w < 128 then ata_ready a \<and> ata_left a = 1 \<and> ata_sector a = S \<and> ata_word a = w else ata_left a = 0)"

lemma delivering_next: "delivering S w a \<Longrightarrow> w < 128 \<Longrightarrow> delivering S (Suc w) (ata_read_word a)"
  by (auto simp: delivering_def ata_read_word_def)

lemma insl_disk:
  assumes "ata_disk disk a (device s)" "delivering S w (ata_at a s)" "w + cnt = 128" "unat dst + 4 * cnt < 2 ^ 64"
  shows "\<exists>m' es. insl 0x1F0 dst cnt m s = (m', s\<lparr>events := es\<rparr>) \<and> ata_idle (ata_at a (s\<lparr>events := es\<rparr>))
    \<and> (\<forall>b. m' b = (if unat dst \<le> unat b \<and> unat b < unat dst + 4 * cnt then disk (512 * S + 4 * w + (unat b - unat dst)) else m b))"
  using assms
proof (induction cnt arbitrary: dst m s w)
  case (Suc cnt)
  let ?s = "s\<lparr>events := events s @ [In32 0x1F0]\<rparr>" and ?m = "st32 m dst (disk_word disk (512 * S + 4 * w))"
  have u: "unat (dst + 4) = unat dst + 4" using Suc.prems(4) by (subst unat_add_small) simp_all
  have w: "w < 128" using Suc.prems(3) by simp
  have "device s (events s) (In32 0x1F0) = disk_word disk (512 * S + 4 * w)"
    using Suc.prems(1,2) w unfolding ata_disk_def delivering_def ata_at_def by auto
  then have i: "insl 0x1F0 dst (Suc cnt) m s = insl 0x1F0 (dst + 4) cnt ?m ?s" by (simp add: inl_def io_ask_def io_do_def)
  have "delivering S (Suc w) (ata_at a ?s)" using delivering_next [OF Suc.prems(2) w] by simp
  from Suc.IH [OF _ this, of "dst + 4" ?m] Suc.prems u obtain m' es where
      m': "insl 0x1F0 (dst + 4) cnt ?m ?s = (m', ?s\<lparr>events := es\<rparr>)" "ata_idle (ata_at a (?s\<lparr>events := es\<rparr>))"
      "\<forall>b. m' b = (if unat dst + 4 \<le> unat b \<and> unat b < unat dst + 4 + 4 * cnt then disk (512 * S + 4 * Suc w + (unat b - (unat dst + 4))) else ?m b)"
    by auto
  have mb: "m' b = (if unat dst \<le> unat b \<and> unat b < unat dst + 4 * Suc cnt then disk (512 * S + 4 * w + (unat b - unat dst)) else m b)" for b
  proof -
    have "512 * S + 4 * Suc w + (unat b - (unat dst + 4)) = 512 * S + 4 * w + (unat b - unat dst)" if "unat dst + 4 \<le> unat b" using that by simp
    then show ?thesis using m'(3) [rule_format, of b] st32_disk [of dst m disk "512 * S + 4 * w" b] Suc.prems(4) by auto
  qed
  have "insl 0x1F0 dst (Suc cnt) m s = (m', s\<lparr>events := es\<rparr>)" unfolding i m'(1) by simp
  then show ?case using mb m'(2) by auto
next
  case 0
  have "m b = (if unat dst \<le> unat b \<and> unat b < unat dst + 4 * 0 then disk (512 * S + 4 * w + (unat b - unat dst)) else m b)" for b
    by (rule if_not_P [symmetric]) linarith
  moreover have "ata_idle (ata_at a s)" using 0 by (simp add: delivering_def ata_idle_def)
  ultimately show ?case by (intro exI [of _ m] exI [of _ "events s"] conjI allI) simp_all
qed

section \<open>Reading\<close>

lemma byte_digits: "x = x mod 256 + 256 * (x div 256 mod 256) + 65536 * (x div 65536 mod 256) + 16777216 * (x div (16777216 :: nat))"
proof -
  have d: "x div 65536 = x div 256 div 256" "x div 16777216 = x div 256 div 256 div 256" by (simp_all add: div_mult2_eq [symmetric])
  show ?thesis
    unfolding d using div_mult_mod_eq [of x 256] div_mult_mod_eq [of "x div 256" 256] div_mult_mod_eq [of "x div 256 div 256" 256] by linarith
qed

lemma sector_number:
  assumes "unat n < 2 ^ 28"
  shows "unat (ucast n :: u8) + 2 ^ 8 * unat (ucast (drop_bit 8 n) :: u8) + 2 ^ 16 * unat (ucast (drop_bit 16 n) :: u8)
    + 2 ^ 24 * (unat (ucast (drop_bit 24 n OR 0xE0) :: u8) mod 16) = unat (n :: u32)"
proof -
  have d: "unat (drop_bit k n) = unat n div 2 ^ k" for k
    using unat_lt2p [of n] by (subst unsigned_drop_bit_eq) (simp add: drop_bit_eq_div take_bit_nat_eq_self)
  have t: "unat (ucast (drop_bit 24 n OR 0xE0) :: u8) mod 16 = unat n div 2 ^ 24 mod 16"
  proof -
    have "take_bit 4 (ucast (drop_bit 24 n OR 0xE0) :: u8) = take_bit 4 (ucast (drop_bit 24 n) :: u8)"
      by (rule bit_word_eqI) (auto simp: bit_simps less_Suc_eq numeral_eq_Suc)
    from arg_cong [OF this, of unat] have "take_bit 4 (unat (ucast (drop_bit 24 n OR 0xE0) :: u8)) = take_bit 4 (unat (ucast (drop_bit 24 n) :: u8))"
      unfolding unsigned_take_bit_eq .
    then have "unat (ucast (drop_bit 24 n OR 0xE0) :: u8) mod 16 = unat (ucast (drop_bit 24 n) :: u8) mod 16"
      by (simp add: take_bit_eq_mod)
    then show ?thesis by (simp add: unsigned_ucast_eq take_bit_eq_mod d mod_mod_cancel)
  qed
  have "unat n div 2 ^ 24 mod 16 = unat n div 2 ^ 24" using assms by (simp add: less_mult_imp_div_less)
  moreover have "unat n = unat n mod 256 + 256 * (unat n div 256 mod 256) + 65536 * (unat n div 65536 mod 256) + 16777216 * (unat n div 16777216)"
    by (rule byte_digits)
  ultimately show ?thesis unfolding t by (simp add: unsigned_ucast_eq take_bit_eq_mod d)
qed

text \<open>The memory \<open>m'\<close> is \<open>m\<close> with \<open>n\<close> bytes from position \<open>p\<close> of the disk at address \<open>a\<close>.\<close>

definition copied_from :: "(nat \<Rightarrow> u8) \<Rightarrow> nat \<Rightarrow> nat \<Rightarrow> nat \<Rightarrow> mem \<Rightarrow> mem \<Rightarrow> bool" where
  "copied_from disk p a n m m' \<longleftrightarrow> (\<forall>b. m' b = (if a \<le> unat b \<and> unat b < a + n then disk (p + (unat b - a)) else m b))"

text \<open>The command block of \<open>boot_readsect\<close> starts the transfer of one sector.\<close>

lemma drive_select:
  assumes "unat n < 2 ^ 28"
  shows "(ucast (drop_bit 24 n OR 0xE0 :: u32) :: u8) AND 0x50 = 0x40"
proof (rule bit_word_eqI)
  fix i :: nat assume "i < LENGTH(8)"
  then have i: "i \<in> {0, 1, 2, 3, 4, 5, 6, 7}" by auto
  have "take_bit 28 n = n" using assms by (simp only: word_unat_eq_iff unsigned_take_bit_eq take_bit_nat_eq_self)
  then have "\<not> bit n 28" using bit_take_bit_iff [of 28 n 28] by simp
  then show "bit ((ucast (drop_bit 24 n OR 0xE0) :: u8) AND 0x50) i = bit (0x40 :: u8) i" using i by (auto simp: bit_simps)
qed

definition read_command :: "u32 \<Rightarrow> io \<Rightarrow> io" where
  "read_command src_sect s =
     outb 0x1F7 0x20 (outb 0x1F6 (ucast (drop_bit 24 src_sect OR 0xE0)) (outb 0x1F5 (ucast (drop_bit 16 src_sect))
       (outb 0x1F4 (ucast (drop_bit 8 src_sect)) (outb 0x1F3 (ucast src_sect) (outb 0x1F2 1 s)))))"

lemma read_command_accepted:
  assumes "ata_idle (ata_at a s)" "ata_ready (ata_at a s)" and n: "unat src < 2 ^ 28" "unat src < ata_size a"
  shows "ata_ok (ata_at a (read_command src s))" "ata_left (ata_at a (read_command src s)) = 1"
    "ata_sector (ata_at a (read_command src s)) = unat src" "ata_word (ata_at a (read_command src s)) = 0"
  using assms sector_number [OF n(1)] drive_select [OF n(1)]
  by (simp_all add: read_command_def outb_def ata_write_def ata_idle_def lba_def sectors_asked_def)

lemma readsect_disk:
  assumes d: "ata_disk disk a (device s)" and id: "ata_idle (ata_at a s)" and n: "unat src < 2 ^ 28" "unat src < ata_size a"
    and dst: "unat dst + 512 < 2 ^ 64"
  shows "\<exists>m' es. boot_readsect dst src (m, s) = Some (m', s\<lparr>events := es\<rparr>) \<and> ata_idle (ata_at a (s\<lparr>events := es\<rparr>))
    \<and> copied_from disk (512 * unat src) (unat dst) 512 m m'"
proof -
  obtain es1 where w1: "boot_waitdisk s = Some (s\<lparr>events := es1\<rparr>)" "ata_at a (s\<lparr>events := es1\<rparr>) = (ata_at a s)\<lparr>ata_ready := True\<rparr>"
    using waitdisk_disk [OF d] id by (auto simp: ata_idle_def)
  let ?s = "read_command src (s\<lparr>events := es1\<rparr>)"
  have c: "ata_ok (ata_at a ?s)" "ata_left (ata_at a ?s) = 1" "ata_sector (ata_at a ?s) = unat src" "ata_word (ata_at a ?s) = 0"
    using read_command_accepted [of a "s\<lparr>events := es1\<rparr>", OF _ _ n] w1(2) id by (simp_all add: ata_idle_def)
  have dv: "?s = s\<lparr>events := events ?s\<rparr>" by (simp add: read_command_def outb_def io_do_def)
  obtain es2 where w2: "boot_waitdisk ?s = Some (s\<lparr>events := es2\<rparr>)" "ata_at a (s\<lparr>events := es2\<rparr>) = (ata_at a ?s)\<lparr>ata_ready := True\<rparr>"
    using waitdisk_disk [of disk a ?s] d c(1) dv by (auto simp: read_command_def outb_def io_do_def)
  have "delivering (unat src) 0 (ata_at a (s\<lparr>events := es2\<rparr>))" using c w2(2) by (simp add: delivering_def)
  from insl_disk [OF _ this, of disk 128 dst m] d dst obtain m' es where
      m': "insl 0x1F0 dst 128 m (s\<lparr>events := es2\<rparr>) = (m', s\<lparr>events := es\<rparr>)" "ata_idle (ata_at a (s\<lparr>events := es\<rparr>))"
      "\<forall>b. m' b = (if unat dst \<le> unat b \<and> unat b < unat dst + 4 * 128 then disk (512 * unat src + 4 * 0 + (unat b - unat dst)) else m b)"
    by auto
  have "boot_readsect dst src (m, s) = Some (m', s\<lparr>events := es\<rparr>)"
    using w1(1) w2(1) m'(1) by (simp add: boot_readsect_def read_command_def Let_def)
  moreover have "copied_from disk (512 * unat src) (unat dst) 512 m m'" using m'(3) by (simp add: copied_from_def)
  ultimately show ?thesis using m'(2) by auto
qed

lemma copied_append:
  assumes "copied_from disk p a n m m1" "copied_from disk (p + n) (a + n) k m1 m2"
  shows "copied_from disk p a (n + k) m m2"
  using assms unfolding copied_from_def by auto

lemma sectors_less:
  assumes "Suc n = (x + 511) div 512"
  shows "n = (x - 512 + 511) div (512 :: nat)"
proof (cases "x \<le> 512")
  case True
  then have "(x + 511) div 512 < 2" by (intro less_mult_imp_div_less) simp
  then show ?thesis using assms True by simp
next
  case False
  then have "x + 511 = (x - 512 + 511) + 512" by simp
  then show ?thesis using assms by (metis Suc_inject Suc_eq_plus1 div_add_self2 zero_neq_numeral)
qed

lemma read_loop_disk:
  assumes "ata_disk disk a (device s)" "ata_idle (ata_at a s)" "unat src + n \<le> ata_size a" "unat src + n < 2 ^ 28" "unat ptr + 512 * n < 2 ^ 63"
    "n = (unat end_ptr - unat ptr + 511) div 512"
  shows "\<exists>m' es. boot_read_loop ptr end_ptr src (m, s) = Some (m', s\<lparr>events := es\<rparr>) \<and> ata_idle (ata_at a (s\<lparr>events := es\<rparr>))
    \<and> copied_from disk (512 * unat src) (unat ptr) (512 * n) m m'"
  using assms
proof (induction n arbitrary: ptr src m s)
  case 0
  then have "\<not> ptr < end_ptr" by (simp add: word_less_nat_alt)
  then show ?case using 0 by (subst boot_read_loop.simps) (auto simp: copied_from_def intro!: exI [of _ "events s"])
next
  case (Suc n)
  have lt: "unat ptr < unat end_ptr" using Suc.prems(6) by (cases "unat end_ptr - unat ptr = 0") auto
  have u: "unat (ptr + 512) = unat ptr + 512" using Suc.prems(5) by (subst unat_add_small) simp_all
  have v: "unat (src + 1) = unat src + 1" using Suc.prems(4) by (subst unat_add_small) simp_all
  have n: "n = (unat end_ptr - unat (ptr + 512) + 511) div 512"
    using sectors_less [OF Suc.prems(6)] u by (simp add: diff_diff_left)
  from readsect_disk [OF Suc.prems(1,2), of src ptr m] Suc.prems(3-5) obtain m1 es where
      m1: "boot_readsect ptr src (m, s) = Some (m1, s\<lparr>events := es\<rparr>)" "ata_idle (ata_at a (s\<lparr>events := es\<rparr>))"
      "copied_from disk (512 * unat src) (unat ptr) 512 m m1" by auto
  have "unat (src + 1) + n \<le> ata_size a" "unat (src + 1) + n < 2 ^ 28" "unat (ptr + 512) + 512 * n < 2 ^ 63" using Suc.prems(3-5) u v by simp_all
  from Suc.IH [OF _ m1(2) this n, of m1] Suc.prems(1) obtain m' es' where
      m': "boot_read_loop (ptr + 512) end_ptr (src + 1) (m1, s\<lparr>events := es\<rparr>) = Some (m', s\<lparr>events := es'\<rparr>)"
      "ata_idle (ata_at a (s\<lparr>events := es'\<rparr>))"
      "copied_from disk (512 * unat (src + 1)) (unat (ptr + 512)) (512 * n) m1 m'" by auto
  have "copied_from disk (512 * unat src) (unat ptr) (512 + 512 * n) m m'"
    using m'(3) u v by (intro copied_append [OF m1(3)]) (simp add: add.commute)
  moreover have "boot_read_loop ptr end_ptr src (m, s) = Some (m', s\<lparr>events := es'\<rparr>)"
    using lt m1(1) m'(1) by (subst boot_read_loop.simps) (simp add: word_less_nat_alt)
  ultimately show ?case using m'(2) by auto
qed

lemma clear_loop_apply:
  "boot_clear_loop e z m b = (if unat e \<le> unat b \<and> unat b < unat z then 0 else m b)"
proof (induction e z m rule: boot_clear_loop.induct)
  case (1 e z m)
  show ?case
  proof (cases "e < z")
    case True
    then have lt: "unat e < unat z" by (simp add: word_less_nat_alt)
    have u: "unat (e + 1) = unat e + 1" using lt unat_lt2p [of z] by (subst unat_add_small) simp_all
    have "b = e \<longleftrightarrow> unat b = unat e" by (simp add: word_unat_eq_iff)
    moreover have "boot_clear_loop e z m b = boot_clear_loop (e + 1) z (m(e := 0)) b" using True by (subst boot_clear_loop.simps) (simp only: if_True)
    ultimately show ?thesis unfolding \<open>boot_clear_loop e z m b = _\<close> 1 [OF True] using lt u by auto
  next
    case False
    then have "\<not> (unat e \<le> unat b \<and> unat b < unat z)" by (auto simp: word_less_nat_alt)
    then show ?thesis using False by (subst boot_clear_loop.simps) (simp only: if_False)
  qed
qed

section \<open>Loading\<close>

text \<open>The part of memory that loading a segment may change, as an interval; it starts at a sector of the file.\<close>

definition sect_lo :: "elf_program \<Rightarrow> nat" where
  "sect_lo h = unat (p_va h) - unat (p_va h) mod 512"

definition sect_num :: "elf_program \<Rightarrow> nat" where
  "sect_num h = (unat (p_va h) + unat (p_filesz h) - sect_lo h + 511) div 512"

definition sect_hi :: "elf_program \<Rightarrow> nat" where
  "sect_hi h = max (sect_lo h + 512 * sect_num h) (unat (p_va h) + unat (p_memsz h))"

definition apart :: "elf_program \<Rightarrow> elf_program \<Rightarrow> bool" where
  "apart h h' \<longleftrightarrow> sect_hi h \<le> sect_lo h' \<or> sect_hi h' \<le> sect_lo h"

text \<open>
  A segment has the same place in its sector on the disk and in memory, its sectors are on the disk, and what loading it
  changes, if anything, is physical memory that the loader does not use itself: it lies above the boot page table at \<open>0x1000\<close>,
  the page of the headers at \<open>0x3000\<close> and the stack and the code of the loader around \<open>0x7C00\<close> (\<open>bootentry.S\<close>), below the end
  of physical memory, which the boot page table maps one to one, and outside the video memory and the firmware.
\<close>

definition bootable :: "nat \<Rightarrow> elf_program \<Rightarrow> bool" where
  "bootable sects h \<longleftrightarrow>
     unat (p_va h) mod 512 = unat (p_offset h) mod 512 \<and> unat (p_offset h) + unat (p_filesz h) < 2 ^ 32
     \<and> 1 + unat (p_offset h) div 512 + sect_num h \<le> sects
     \<and> unat (p_va h) + unat (p_memsz h) < 2 ^ 32 \<and> unat (p_va h) + unat (p_filesz h) < 2 ^ 32
     \<and> (sect_hi h \<le> sect_lo h \<or> 0x8000 \<le> sect_lo h \<and> sect_hi h \<le> 0xA0000
        \<or> 0x100000 \<le> sect_lo h \<and> sect_hi h \<le> unat (MEMSIZE_PHYSICAL :: u64))"

text \<open>The segment \<open>h\<close> of the file that starts at byte 512 of the disk is in memory.\<close>

definition in_place :: "(nat \<Rightarrow> u8) \<Rightarrow> elf_program \<Rightarrow> mem \<Rightarrow> bool" where
  "in_place disk h m \<longleftrightarrow>
     (\<forall>b. unat (p_va h) \<le> unat b \<and> unat b < unat (p_va h) + unat (p_memsz h) \<longrightarrow>
        m b = (if unat b < unat (p_va h) + unat (p_filesz h) then disk (512 + unat (p_offset h) + (unat b - unat (p_va h))) else 0))"

lemma and_minus_512: "unat (a AND - 512 :: u64) = unat a - unat a mod 512"
proof -
  have n: "- 512 = NOT (mask 9 :: u64)" by (simp add: mask_eq_exp_minus_1)
  have "(a AND NOT (mask 9)) + (a AND mask 9) = (a AND NOT (mask 9)) OR (a AND mask 9)"
    by (rule disjunctive_add_eq_or) (rule bit_word_eqI, auto simp: bit_simps)
  also have "\<dots> = a" by (rule bit_word_eqI) (auto simp: bit_simps)
  finally have "a AND - 512 = a - (a AND mask 9)" unfolding n by (simp only: eq_diff_eq)
  moreover have m: "unat (a AND mask 9) = unat a mod 512"
    unfolding take_bit_eq_mask [symmetric] unsigned_take_bit_eq by (simp add: take_bit_eq_mod)
  moreover have "a AND mask 9 \<le> a" unfolding word_le_nat_alt m by simp
  ultimately show ?thesis by (simp only: unat_sub m)
qed

lemma readseg_disk:
  assumes d: "ata_disk disk a (device s)" "ata_idle (ata_at a s)" and ok: "bootable (ata_size a) h"
    and src: "src = ucast (1 + p_offset h div 512)"
  shows "\<exists>m' es. boot_readseg (p_va h) src (p_filesz h) (p_memsz h) (m, s) = Some (m', s\<lparr>events := es\<rparr>)
    \<and> ata_idle (ata_at a (s\<lparr>events := es\<rparr>)) \<and> in_place disk h m' \<and> (\<forall>b. unat b < sect_lo h \<or> sect_hi h \<le> unat b \<longrightarrow> m' b = m b)"
proof -
  let ?v = "unat (p_va h)" and ?f = "unat (p_filesz h)" and ?z = "unat (p_memsz h)" and ?o = "unat (p_offset h)"
  have b: "?v mod 512 = ?o mod 512" "?v + ?z < 2 ^ 32" "?v + ?f < 2 ^ 32" "?o + ?f < 2 ^ 32"
    "1 + ?o div 512 + sect_num h \<le> ata_size a" using ok by (simp_all add: bootable_def)
  have e: "unat (p_va h + p_filesz h) = ?v + ?f" "unat (p_memsz h + p_va h) = ?v + ?z" using b by (simp_all add: unat_add_small)
  let ?ptr = "p_va h AND NOT 511"
  have ptr: "unat ?ptr = sect_lo h" by (simp add: and_minus_512 sect_lo_def)
  define n where "n = (unat (p_va h + p_filesz h) - unat ?ptr + 511) div 512"
  have srcn: "unat src = 1 + ?o div 512"
  proof -
    have o: "?o div 512 < 2 ^ 23" using b(4) by (intro less_mult_imp_div_less) simp
    then have "unat (1 + p_offset h div 512) = 1 + ?o div 512" by (subst unat_add_small) (simp_all add: unat_div)
    then show ?thesis using o by (simp add: src unsigned_ucast_eq take_bit_eq_mod)
  qed
  have lo: "sect_lo h \<le> ?v" "?v - sect_lo h = ?o mod 512" using b(1) mod_less_eq_dividend [of ?v 512] by (simp_all add: sect_lo_def)
  have num: "sect_num h = n" unfolding n_def e ptr sect_num_def ..
  have n: "512 * n \<le> ?v + ?f - sect_lo h + 511" unfolding n_def e ptr by (rule times_div_less_eq_dividend)
  have "unat src + n < 2 ^ 28"
  proof -
    have "512 * (?o div 512) \<le> ?o" by (rule times_div_less_eq_dividend)
    moreover have "?o mod 512 < 512" by simp
    moreover have "?o + ?f < 4294967296" using b(4) by simp
    ultimately have "unat src + n < 268435456" using n lo srcn by linarith
    then show ?thesis by simp
  qed
  moreover have "unat ?ptr + 512 * n < 2 ^ 63" using n b(3) ptr lo by simp
  moreover have "unat src + n \<le> ata_size a" using b(5) srcn num by simp
  ultimately obtain m1 es where
      m1: "boot_read_loop ?ptr (p_va h + p_filesz h) src (m, s) = Some (m1, s\<lparr>events := es\<rparr>)" "ata_idle (ata_at a (s\<lparr>events := es\<rparr>))"
      "copied_from disk (512 * unat src) (unat ?ptr) (512 * n) m m1"
    using read_loop_disk [OF d _ _ _ n_def, of src m] by blast
  let ?m = "boot_clear_loop (p_va h + p_filesz h) (p_memsz h + p_va h) m1"
  have r: "boot_readseg (p_va h) src (p_filesz h) (p_memsz h) (m, s) = Some (?m, s\<lparr>events := es\<rparr>)"
    using m1(1) by (simp add: boot_readseg_def Let_def)
  have hi: "sect_hi h = max (sect_lo h + 512 * n) (?v + ?z)" unfolding sect_hi_def num ..
  have app: "?m x = (if ?v + ?f \<le> unat x \<and> unat x < ?v + ?z then 0
      else if sect_lo h \<le> unat x \<and> unat x < sect_lo h + 512 * n then disk (512 * unat src + (unat x - sect_lo h)) else m x)" for x
    using m1(3) unfolding clear_loop_apply e ptr copied_from_def by simp
  have cover: "?v + ?f \<le> sect_lo h + 512 * n" unfolding n_def e ptr using lo(1) by linarith
  have "in_place disk h ?m"
    unfolding in_place_def
  proof (intro allI impI)
    fix x :: u64 assume x: "?v \<le> unat x \<and> unat x < ?v + ?z"
    have "512 * unat src + (unat x - sect_lo h) = 512 + ?o + (unat x - ?v)"
    proof -
      have "unat x - sect_lo h = (unat x - ?v) + ?o mod 512" using x lo by linarith
      moreover have "512 * (?o div 512) + ?o mod 512 = ?o" by simp
      ultimately show ?thesis using srcn by linarith
    qed
    then show "?m x = (if unat x < ?v + ?f then disk (512 + ?o + (unat x - ?v)) else 0)"
      using app [of x] x lo(1) cover by auto
  qed
  moreover have "?m x = m x" if "unat x < sect_lo h \<or> sect_hi h \<le> unat x" for x
    using app [of x] that hi lo(1) by auto
  ultimately show ?thesis using r m1(2) by blast
qed

text \<open>The file as it appears at \<open>ELFHDR\<close>, its program headers, and what the linker and the disk image have to satisfy.\<close>

definition kernel_file :: "(nat \<Rightarrow> u8) \<Rightarrow> mem" where
  "kernel_file disk a = disk (512 + unat (a - ELFHDR))"

definition kernel_header :: "(nat \<Rightarrow> u8) \<Rightarrow> elf_header" where
  "kernel_header disk = elf_header_at (kernel_file disk) ELFHDR"

definition kernel_segments :: "(nat \<Rightarrow> u8) \<Rightarrow> elf_program list" where
  "kernel_segments disk =
     map (elf_program_at (kernel_file disk)) (headers (ELFHDR + e_phoff (kernel_header disk)) (unat (e_phnum (kernel_header disk))))"

definition boot_image_ok :: "nat \<Rightarrow> (nat \<Rightarrow> u8) \<Rightarrow> bool" where
  "boot_image_ok sects disk \<longleftrightarrow>
     9 \<le> sects \<and> e_magic (kernel_header disk) = ELF_MAGIC
     \<and> unat (e_phoff (kernel_header disk)) + 56 * unat (e_phnum (kernel_header disk)) \<le> 4096
     \<and> list_all (bootable sects) (kernel_segments disk) \<and> sorted_wrt apart (kernel_segments disk)"

definition has_headers :: "(nat \<Rightarrow> u8) \<Rightarrow> mem \<Rightarrow> bool" where
  "has_headers disk m \<longleftrightarrow> (\<forall>b. 0x3000 \<le> unat b \<and> unat b < 0x4000 \<longrightarrow> m b = kernel_file disk b)"

lemma segments_loaded:
  assumes "ata_disk disk a (device s)" "has_headers disk m" "unat ph + 56 * n \<le> 0x4000" "0x3000 \<le> unat ph"
    "hs = map (elf_program_at (kernel_file disk)) (headers ph n)" "list_all (bootable (ata_size a)) hs" "sorted_wrt apart hs" "ata_idle (ata_at a s)"
  shows "\<exists>m' es. boot_segments ph (ph + PHSIZE * of_nat n) (m, s) = Some (m', s\<lparr>events := es\<rparr>) \<and> has_headers disk m'
    \<and> ata_idle (ata_at a (s\<lparr>events := es\<rparr>))
    \<and> (\<forall>h \<in> set hs. in_place disk h m')
    \<and> (\<forall>b. (\<forall>h \<in> set hs. unat b < sect_lo h \<or> sect_hi h \<le> unat b) \<longrightarrow> m' b = m b)"
  using assms
proof (induction n arbitrary: ph hs m s)
  case 0
  then show ?case by (subst boot_segments.simps) (auto intro!: exI [of _ "events s"])
next
  case (Suc n)
  let ?h = "elf_program_at (kernel_file disk) ph"
  obtain hs' where hs: "hs = ?h # hs'" "hs' = map (elf_program_at (kernel_file disk)) (headers (ph + PHSIZE) n)" using Suc.prems(5) by simp
  have bd: "unat ph + 56 * Suc n \<le> 0x4000" by (rule Suc.prems(3))
  have u: "unat (ph + PHSIZE * of_nat (Suc n)) = unat ph + 56 * Suc n" "unat (ph + PHSIZE) = unat ph + 56"
  proof -
    have "unat (PHSIZE * of_nat (Suc n) :: u64) = 56 * Suc n" using bd by (subst unat_mult_small) (simp_all add: unat_of_nat_small del: of_nat_Suc)
    then show "unat (ph + PHSIZE * of_nat (Suc n)) = unat ph + 56 * Suc n" using bd by (subst unat_add_small) simp_all
    show "unat (ph + PHSIZE) = unat ph + 56" using bd by (subst unat_add_small) simp_all
  qed
  have lt: "ph < ph + PHSIZE * of_nat (Suc n)" unfolding word_less_nat_alt u by simp
  have hd: "elf_program_at m ph = ?h"
  proof (rule elf_program_cong)
    fix x :: nat assume x: "x < 56"
    have "unat (ph + of_nat x) = unat ph + x" using bd x by (intro unat_add_of_nat) simp
    then show "m (ph + of_nat x) = kernel_file disk (ph + of_nat x)" using Suc.prems(2,4) bd x by (simp add: has_headers_def)
  qed
  have ok: "bootable (ata_size a) ?h" "list_all (bootable (ata_size a)) hs'" "sorted_wrt apart hs'" "\<forall>h \<in> set hs'. apart ?h h" using Suc.prems(6,7) hs(1) by simp_all
  from readseg_disk [OF Suc.prems(1,8) ok(1) refl, of m] obtain m1 es where
      m1: "boot_readseg (p_va ?h) (ucast (1 + p_offset ?h div 512)) (p_filesz ?h) (p_memsz ?h) (m, s) = Some (m1, s\<lparr>events := es\<rparr>)"
      "in_place disk ?h m1" "\<forall>b. unat b < sect_lo ?h \<or> sect_hi ?h \<le> unat b \<longrightarrow> m1 b = m b"
      "ata_idle (ata_at a (s\<lparr>events := es\<rparr>))" by blast
  have hh: "has_headers disk m1"
    unfolding has_headers_def
  proof (intro allI impI)
    fix b :: u64 assume b: "0x3000 \<le> unat b \<and> unat b < 0x4000"
    then have "unat b < sect_lo ?h \<or> sect_hi ?h \<le> unat b" using ok(1) unfolding bootable_def by linarith
    then have "m1 b = m b" using m1(3) by blast
    then show "m1 b = kernel_file disk b" using Suc.prems(2) b by (simp add: has_headers_def)
  qed
  have "unat (ph + PHSIZE) + 56 * n \<le> 0x4000" "0x3000 \<le> unat (ph + PHSIZE)" using bd Suc.prems(4) u(2) by simp_all
  from Suc.IH [OF _ hh this hs(2) ok(2,3) m1(4)] Suc.prems(1) obtain m' es' where
      m': "boot_segments (ph + PHSIZE) (ph + PHSIZE + PHSIZE * of_nat n) (m1, s\<lparr>events := es\<rparr>) = Some (m', s\<lparr>events := es'\<rparr>)"
      "has_headers disk m'" "\<forall>h \<in> set hs'. in_place disk h m'"
      "\<forall>b. (\<forall>h \<in> set hs'. unat b < sect_lo h \<or> sect_hi h \<le> unat b) \<longrightarrow> m' b = m1 b"
      "ata_idle (ata_at a (s\<lparr>events := es'\<rparr>))" by auto
  have "boot_segments ph (ph + PHSIZE * of_nat (Suc n)) (m, s) = Some (m', s\<lparr>events := es'\<rparr>)"
    using lt hd m1(1) m'(1) by (subst boot_segments.simps) (simp add: algebra_simps)
  moreover have "in_place disk ?h m'"
    unfolding in_place_def
  proof (intro allI impI)
    fix b :: u64 assume b: "unat (p_va ?h) \<le> unat b \<and> unat b < unat (p_va ?h) + unat (p_memsz ?h)"
    have in_h: "sect_lo ?h \<le> unat b" "unat b < sect_hi ?h" using b by (auto simp: sect_lo_def sect_hi_def)
    have "unat b < sect_lo h \<or> sect_hi h \<le> unat b" if "h \<in> set hs'" for h using ok(4) that in_h by (auto simp: apart_def)
    then have "m' b = m1 b" using m'(4) by blast
    then show "m' b = (if unat b < unat (p_va ?h) + unat (p_filesz ?h) then disk (512 + unat (p_offset ?h) + (unat b - unat (p_va ?h))) else 0)"
      using m1(2) b by (simp add: in_place_def)
  qed
  ultimately show ?case using hs(1) m'(2-5) m1(3) by auto
qed

lemma page_read:
  assumes d: "ata_disk disk a (device s)" "ata_idle (ata_at a s)" "9 \<le> ata_size a"
  shows "\<exists>m' es. boot_readseg ELFHDR (ucast KERNEL_START_SECTOR) PAGESIZE PAGESIZE (m, s) = Some (m', s\<lparr>events := es\<rparr>) \<and> has_headers disk m'
    \<and> ata_idle (ata_at a (s\<lparr>events := es\<rparr>)) \<and> (\<forall>b. unat b < 0x3000 \<or> 0x4000 \<le> unat b \<longrightarrow> m' b = m b)"
proof -
  have "\<exists>m' es. boot_read_loop 0x3000 0x4000 1 (m, s) = Some (m', s\<lparr>events := es\<rparr>) \<and> ata_idle (ata_at a (s\<lparr>events := es\<rparr>))
      \<and> copied_from disk (512 * unat (1 :: u32)) (unat (0x3000 :: u64)) (512 * 8) m m'"
    by (rule read_loop_disk [OF d(1,2)]) (use d(3) in simp_all)
  then obtain m' es where m': "boot_read_loop 0x3000 0x4000 1 (m, s) = Some (m', s\<lparr>events := es\<rparr>)" "copied_from disk 512 0x3000 4096 m m'"
      "ata_idle (ata_at a (s\<lparr>events := es\<rparr>))" by auto
  have "boot_clear_loop 0x4000 0x4000 m' = m'" by (subst boot_clear_loop.simps) simp
  then have "boot_readseg ELFHDR (ucast KERNEL_START_SECTOR) PAGESIZE PAGESIZE (m, s) = Some (m', s\<lparr>events := es\<rparr>)"
    using m'(1) by (simp add: boot_readseg_def Let_def)
  moreover have "has_headers disk m'"
    unfolding has_headers_def
  proof (intro allI impI)
    fix b :: u64 assume b: "0x3000 \<le> unat b \<and> unat b < 0x4000"
    then have "unat (b - 0x3000) = unat b - 0x3000" by (subst unat_sub_le) (simp_all add: word_le_nat_alt)
    then show "m' b = kernel_file disk b" using m'(2) b by (simp add: copied_from_def kernel_file_def)
  qed
  moreover have "m' b = m b" if "unat b < 0x3000 \<or> 0x4000 \<le> unat b" for b using m'(2) that by (auto simp: copied_from_def)
  ultimately show ?thesis using m'(3) by blast
qed

lemma header_read: "has_headers disk m \<Longrightarrow> elf_header_at m ELFHDR = kernel_header disk"
  unfolding kernel_header_def
proof (rule elf_header_cong)
  fix x :: nat assume h: "has_headers disk m" and x: "x < 64"
  have "unat (ELFHDR + of_nat x) = 0x3000 + x" using x by (subst unat_add_of_nat) simp_all
  then show "m (ELFHDR + of_nat x) = kernel_file disk (ELFHDR + of_nat x)" using h x by (simp add: has_headers_def)
qed

section \<open>A sample disk\<close>

text \<open>A disk whose kernel is the sample image of \<open>Loader\<close>.\<close>

definition sample_disk :: "nat \<Rightarrow> u8" where
  "sample_disk n = sample_image (0x45000 + of_nat (n - 512))"

text \<open>A controller that is busy when it is asked for the first time after another access, with some values in
  its registers.\<close>

definition sample_ata :: ata where
  "sample_ata = \<lparr>ata_size = 64, ata_ok = True, ata_ready = False, sect_count = 7, lba0 = 1, lba1 = 2, lba2 = 3, lba3 = 0,
     ata_sector = 0, ata_word = 0, ata_left = 0\<rparr>"

definition sample_status :: "io_event list \<Rightarrow> io_event \<Rightarrow> u32" where
  "sample_status es e = (if es \<noteq> [] \<and> last es = In8 0x1F7 then 0x40 else 0x80)"

definition sample_controller :: "io_event list \<Rightarrow> io_event \<Rightarrow> u32" where
  "sample_controller es e =
     (if e = In32 0x1F0
      then disk_word sample_disk (512 * ata_sector (ata_state sample_ata sample_status es) + 4 * ata_word (ata_state sample_ata sample_status es))
      else sample_status es e)"

lemma ata_state_status:
  assumes "\<And>es. dev es (In8 0x1F7) = dev' es (In8 0x1F7)"
  shows "ata_state a dev es = ata_state a dev' es"
proof -
  have "ata_step (dev es e) e b = ata_step (dev' es e) e b" for es e b using assms by (cases e) auto
  then have "ata_hist a dev es = ata_hist a dev' es" for es by (induction es) simp_all
  then show ?thesis by (simp add: ata_state_def)
qed

lemma sample_ata_disk: "ata_disk sample_disk sample_ata sample_controller"
proof -
  have st: "ata_state sample_ata sample_controller es = ata_state sample_ata sample_status es" for es
    by (rule ata_state_status) (simp add: sample_controller_def)
  have "(ucast (sample_controller (es @ replicate 1 (In8 0x1F7)) (In8 0x1F7)) :: u8) AND 0xC0 = 0x40" for es
    by (simp add: sample_controller_def sample_status_def)
  then have "\<exists>n. (ucast (sample_controller (es @ replicate n (In8 0x1F7)) (In8 0x1F7)) :: u8) AND 0xC0 = 0x40" for es by blast
  then show ?thesis unfolding ata_disk_def st by (simp add: sample_controller_def)
qed

lemma sample_kernel_file: "kernel_file sample_disk a = sample_image (0x42000 + a)"
  by (simp add: kernel_file_def sample_disk_def algebra_simps)

lemma sample_kernel:
  "e_magic (kernel_header sample_disk) = ELF_MAGIC" "e_entry (kernel_header sample_disk) = 0x100000" "e_phoff (kernel_header sample_disk) = 64"
  "e_phnum (kernel_header sample_disk) = 2"
  by (simp_all add: kernel_header_def elf_header_at_def ld16_def ld32_def ld64_def sample_kernel_file sample_image_def sample_elf_def)

lemma sample_kernel_segments:
  "kernel_segments sample_disk =
     [\<lparr>p_type = 6, p_flags = 0, p_offset = 0, p_va = 0, p_pa = 0, p_filesz = 0, p_memsz = 0, p_align = 0\<rparr>,
      \<lparr>p_type = 1, p_flags = 7, p_offset = 0, p_va = 0x100000, p_pa = 0, p_filesz = 16, p_memsz = 32, p_align = 0x1000\<rparr>]"
proof -
  have "headers 0x3040 2 = [0x3040, 0x3078]" by (simp add: numeral_2_eq_2)
  then show ?thesis
    by (simp add: kernel_segments_def sample_kernel)
      (simp add: elf_program_at_def ld32_def ld64_def sample_kernel_file sample_image_def sample_elf_def)
qed

lemma sample_boot_image: "boot_image_ok 64 sample_disk"
  by (simp add: boot_image_ok_def sample_kernel sample_kernel_segments bootable_def apart_def sect_lo_def sect_hi_def sect_num_def)

section \<open>Properties\<close>

text \<open>C12: With a disk controller that keeps the ATA protocol for as long as the loader does, has no transfer under way and any values in
  its registers, and with an image on the disk whose segments do not overlap, have the same place in their sectors on the disk and
  in memory and stay clear of the memory that the loader uses, the boot loader ends; it keeps the protocol and leaves no transfer
  under way, it jumps to the entry point of the image, and every segment is then at its address, its data followed by zeroes
  up to its size in memory.\<close>

theorem boot_loads_kernel:
  assumes "ata_disk disk a (device s)" "ata_idle (ata_at a s)" "boot_image_ok (ata_size a) disk"
  shows "\<exists>m' s'. boot (m, s) = Some (e_entry (kernel_header disk), m', s') \<and> ata_idle (ata_at a s')
    \<and> (\<forall>h \<in> set (kernel_segments disk). \<forall>b. unat (p_va h) \<le> unat b \<and> unat b < unat (p_va h) + unat (p_memsz h) \<longrightarrow>
         m' b = (if unat b < unat (p_va h) + unat (p_filesz h) then disk (512 + unat (p_offset h) + (unat b - unat (p_va h))) else 0))"
proof -
  let ?h = "kernel_header disk"
  have i: "e_magic ?h = ELF_MAGIC" "unat (e_phoff ?h) + 56 * unat (e_phnum ?h) \<le> 4096" "list_all (bootable (ata_size a)) (kernel_segments disk)"
      "sorted_wrt apart (kernel_segments disk)" "9 \<le> ata_size a" using assms(3) by (simp_all add: boot_image_ok_def)
  from page_read [OF assms(1,2) i(5), of m] obtain m1 es where
      m1: "boot_readseg ELFHDR (ucast KERNEL_START_SECTOR) PAGESIZE PAGESIZE (m, s) = Some (m1, s\<lparr>events := es\<rparr>)" "has_headers disk m1"
      "ata_idle (ata_at a (s\<lparr>events := es\<rparr>))" by blast
  have ch: "boot_check m1 = Some ()" using header_read [OF m1(2)] i(1) by (subst boot_check.simps) simp
  have ph: "unat (ELFHDR + e_phoff ?h) = 0x3000 + unat (e_phoff ?h)" using i(2) by (subst unat_add_small) simp_all
  have n: "of_nat (unat (e_phnum ?h)) = (ucast (e_phnum ?h) :: u64)" by simp
  have "unat (ELFHDR + e_phoff ?h) + 56 * unat (e_phnum ?h) \<le> 0x4000" "0x3000 \<le> unat (ELFHDR + e_phoff ?h)" using i(2) ph by simp_all
  from segments_loaded [OF _ m1(2) this kernel_segments_def i(3,4) m1(3)] assms(1) obtain m2 es2 where
      m2: "boot_segments (ELFHDR + e_phoff ?h) (ELFHDR + e_phoff ?h + PHSIZE * ucast (e_phnum ?h)) (m1, s\<lparr>events := es\<rparr>) = Some (m2, s\<lparr>events := es2\<rparr>)"
      "has_headers disk m2" "\<forall>h \<in> set (kernel_segments disk). in_place disk h m2"
      "ata_idle (ata_at a (s\<lparr>events := es2\<rparr>))"
    unfolding n by auto
  have "boot (m, s) = Some (e_entry ?h, m2, s\<lparr>events := es2\<rparr>)"
    using m1(1) ch m2(1) header_read [OF m1(2)] header_read [OF m2(2)] by (simp add: boot_def Let_def)
  then show ?thesis using m2(3,4) by (intro exI conjI) (simp_all add: in_place_def)
qed

theorem boot_loads_kernel_witness:
  "\<exists>m' s'. boot (\<lambda>_. 0xFF, \<lparr>device = sample_controller, events = []\<rparr>) = Some (0x100000, m', s') \<and> m' 0x100001 = 69 \<and> m' 0x100010 = 0"
proof -
  let ?s = "\<lparr>device = sample_controller, events = []\<rparr>"
  have "ata_disk sample_disk sample_ata (device ?s)" "ata_idle (ata_at sample_ata ?s)" "boot_image_ok (ata_size sample_ata) sample_disk"
    using sample_ata_disk sample_boot_image by (simp_all add: ata_idle_def ata_at_def ata_state_def sample_ata_def)
  from boot_loads_kernel [OF this, of "\<lambda>_. 0xFF"] obtain m' s' where
      r: "boot (\<lambda>_. 0xFF, ?s) = Some (0x100000, m', s')"
      "\<forall>b :: u64. 0x100000 \<le> unat b \<and> unat b < 0x100020 \<longrightarrow> m' b = (if unat b < 0x100010 then sample_disk (512 + (unat b - 0x100000)) else 0)"
    unfolding sample_kernel sample_kernel_segments by auto
  have "m' 0x100001 = 69" "m' 0x100010 = 0"
    using r(2) [rule_format, of "0x100001"] r(2) [rule_format, of "0x100010"] by (simp_all add: sample_disk_def sample_image_def sample_elf_def)
  then show ?thesis using r(1) by blast
qed

end
