(* ===== verification/Vmiter_Range.thy ===== *)
theory Vmiter_Range
  imports Memviewer_Safe
begin

text \<open>
  The range checks of \<open>vmiter\<close>: whether all addresses of a range have some permissions. The checks go from
  entry to entry, not from page to page; they answer what a check of every address would answer.
\<close>

section \<open>Operations\<close>

partial_function (option) vm_perm_range :: "mem \<Rightarrow> vmiter \<Rightarrow> u64 \<Rightarrow> u64 \<Rightarrow> (bool \<times> vmiter) comp" where
  "vm_perm_range m it last_va p =
     (if vm_va it < last_va then
        if \<not> vm_has_perm m it p then retIO (False, it)
        else bindIO (Some (vm_next_range m it)) (\<lambda>it'. vm_perm_range m it' last_va p)
      else retIO (True, it))"

definition vm_low_perm :: "mem \<Rightarrow> vmiter \<Rightarrow> u64 \<Rightarrow> u64 \<Rightarrow> u64 \<Rightarrow> (bool \<times> vmiter) comp" where
  "vm_low_perm m it firstva lastva p =
     (if firstva \<le> lastva \<and> lastva \<le> VA_LOWEND then
        if firstva = lastva then retIO (True, it)
        else bindIO (Some (vm_find m it firstva)) (\<lambda>it'. vm_perm_range m it' lastva p)
      else retIO (False, it))"

definition vm_low_perm_size :: "mem \<Rightarrow> vmiter \<Rightarrow> u64 \<Rightarrow> u64 \<Rightarrow> u64 \<Rightarrow> (bool \<times> vmiter) comp" where
  "vm_low_perm_size m it firstva sz p =
     (if firstva \<le> VA_LOWEND \<and> sz \<le> VA_LOWEND - firstva then
        if sz = 0 then retIO (True, it)
        else bindIO (Some (vm_find m it firstva)) (\<lambda>it'. vm_perm_range m it' (firstva + sz) p)
      else retIO (False, it))"

section \<open>Correctness\<close>

text \<open>The addresses that one entry covers have the same permissions.\<close>

lemma entry_perm:
  assumes c: "va_is_canonical va" "va_is_canonical va'" and same: "same_above (vm_level (fresh_iter m pt va)) va va'"
  shows "vm_has_perm m (fresh_iter m pt va') p = vm_has_perm m (fresh_iter m pt va) p"
proof -
  obtain l t pm where w: "walk m va 3 pt (- 1) = (l, t, pm)" by (cases "walk m va 3 pt (- 1)")
  note lf = leaf_fresh [OF c(1) w]
  have s: "same_above l va va'" using same lf(2) by simp
  have i: "pageindex va' l = pageindex va l" using same_above_pageindex [OF s] by simp
  have "walk m va' 3 pt (- 1) = walk m va' l t pm" by (rule walk_prefix [OF w]) (rule same_above_mono [OF s], simp)
  moreover have "walk m va' l t pm = (l, t, pm)"
  proof (cases l)
    case (Suc k)
    have "walk m va l t pm = (l, t, pm)" using walk_prefix [OF w, of va] w by (simp add: same_above_def)
    then have "\<not> table_entry (ld64 m (entry_addr t (pageindex va l)))" using walk_level [of m va k] Suc by (auto simp: Let_def split: if_splits) fastforce
    then show ?thesis using walk_stops [of l m t va' pm] i Suc by simp
  qed simp
  ultimately have "walk m va' 3 pt (- 1) = (l, t, pm)" by simp
  then show ?thesis using lf leaf_fresh [OF c(2), of m pt l t pm] i by (simp add: vm_has_perm_def)
qed

lemma next_range_covers:
  assumes va: "unat va < 2 ^ 47" and v: "va \<le> v" "unat v < unat (vm_last_va (fresh_iter m pt va))"
  shows "same_above (vm_level (fresh_iter m pt va)) va v"
proof -
  let ?l = "vm_level (fresh_iter m pt va)"
  have l: "?l \<le> 3" by (rule fresh_level [OF small_canonical [OF va]])
  have "unat v < Suc (unat va div 2 ^ (12 + ?l * 9)) * 2 ^ (12 + ?l * 9)"
    using v(2) unat_next_va [OF l, of va] va by (simp add: vm_last_va_def)
  then have "unat v div 2 ^ (12 + ?l * 9) < Suc (unat va div 2 ^ (12 + ?l * 9))" by (rule less_mult_imp_div_less)
  moreover have "unat va div 2 ^ (12 + ?l * 9) \<le> unat v div 2 ^ (12 + ?l * 9)" using v(1) by (intro div_le_mono) (simp add: word_le_nat_alt)
  ultimately show ?thesis unfolding same_above_div by linarith
qed

lemma perm_range_run:
  assumes io: "iter_ok m pt" and al: "page_aligned pt" and last: "last_va \<le> VA_LOWEND"
  shows "\<exists>it'. vm_perm_range m (fresh_iter m pt va) last_va p
    = retIO (\<forall>v. va \<le> v \<and> v < last_va \<longrightarrow> vm_has_perm m (fresh_iter m pt v) p, it')"
proof (induction "unat last_va - unat va" arbitrary: va rule: less_induct)
  case less
  let ?it = "fresh_iter m pt va" and ?all = "\<lambda>va. \<forall>v. va \<le> v \<and> v < last_va \<longrightarrow> vm_has_perm m (fresh_iter m pt v) p"
  show ?case
  proof (cases "va < last_va")
    case False
    then have "?all va" by (meson leD le_less_trans)
    then show ?thesis using False by (subst vm_perm_range.simps) (simp only: fresh_iter_sel if_False, blast)
  next
    case True
    then have lt: "unat va < unat last_va" "unat last_va \<le> 2 ^ 47" using last by (simp_all add: word_less_nat_alt word_le_nat_alt)
    then have sm: "unat va < 2 ^ 47" by linarith
    show ?thesis
    proof (cases "vm_has_perm m ?it p")
      case False
      then have "\<not> ?all va" using True by blast
      then show ?thesis using False True by (subst vm_perm_range.simps) (simp only: fresh_iter_sel if_True if_False simp_thms, blast)
    next
      case has: True
      let ?n = "vm_last_va ?it"
      have nx: "vm_next_range m ?it = Inr (fresh_iter m pt ?n)"
        using io real_find_fresh [OF al] by (simp add: vm_next_range_def iter_ok_def)
      have "va \<le> VA_LOWMAX" using sm by (simp add: word_le_nat_alt)
      from next_va_less(1) [OF this fresh_level [OF small_canonical [OF sm], of m pt]] have up: "unat va < unat ?n" by (simp add: vm_last_va_def)
      have same: "vm_has_perm m (fresh_iter m pt v) p" if v: "va \<le> v" "v < last_va" "v < ?n" for v
      proof -
        have "unat v < 2 ^ 47" using v(2) lt(2) by (simp add: word_less_nat_alt)
        then show ?thesis
          using entry_perm [OF small_canonical [OF sm] small_canonical next_range_covers [OF sm v(1)]] v(3) has by (simp add: word_less_nat_alt)
      qed
      have "?all va = ?all ?n"
      proof
        show "?all ?n" if "?all va" using that up by (auto simp: word_le_nat_alt)
        show "?all va" if "?all ?n" using that same by (meson not_less)
      qed
      moreover obtain it' where "vm_perm_range m (fresh_iter m pt ?n) last_va p = retIO (?all ?n, it')"
        using less [of ?n] lt(1) up by (meson diff_less_mono2)
      ultimately show ?thesis using True has nx by (subst vm_perm_range.simps) auto
    qed
  qed
qed

text \<open>A range of low memory: the check finds out whether the processor grants \<open>p\<close> at every address.\<close>

lemma vm_low_perm_correct:
  assumes io: "iter_ok m pt" and al: "page_aligned pt" and p: "p AND PTE_P = PTE_P" "p AND 0xFFF = p" and r: "firstva \<le> lastva" "lastva \<le> VA_LOWEND"
  shows "\<exists>it'. vm_low_perm m (fresh_iter m pt va) firstva lastva p
    = retIO (\<forall>v. firstva \<le> v \<and> v < lastva \<longrightarrow> (\<exists>pa perm. translate m pt v = Some (pa, perm) \<and> perm AND p = p), it')"
proof (cases "firstva = lastva")
  case True
  then have "\<forall>v. firstva \<le> v \<and> v < lastva \<longrightarrow> (\<exists>pa perm. translate m pt v = Some (pa, perm) \<and> perm AND p = p)" by (simp add: not_less [symmetric])
  then show ?thesis using True r by (simp add: vm_low_perm_def)
next
  case False
  have "vm_find m (fresh_iter m pt va) firstva = Inr (fresh_iter m pt firstva)"
    using io real_find_fresh [OF al] by (simp add: vm_find_def iter_ok_def)
  then show ?thesis
    using False r perm_range_run [OF io al r(2), of firstva p] by (simp add: vm_low_perm_def vm_has_perm_fresh [OF p])
qed

lemma vm_low_perm_size_eq:
  assumes "firstva \<le> VA_LOWEND"
  shows "vm_low_perm_size m it firstva sz p =
    (if sz \<le> VA_LOWEND - firstva then vm_low_perm m it firstva (firstva + sz) p else retIO (False, it))"
proof (cases "sz \<le> VA_LOWEND - firstva")
  case True
  have "unat (VA_LOWEND - firstva) = 2 ^ 47 - unat firstva" using assms by (subst unat_sub_le) simp_all
  then have "unat sz + unat firstva \<le> 2 ^ 47" using True assms by (simp add: word_le_nat_alt)
  then have u: "unat (firstva + sz) = unat firstva + unat sz" "unat firstva + unat sz \<le> 2 ^ 47"
    by (subst unat_add_small, simp, simp, simp add: add.commute)
  then have "firstva \<le> firstva + sz" "firstva + sz \<le> VA_LOWEND" "firstva = firstva + sz \<longleftrightarrow> sz = 0" by (simp_all add: word_le_nat_alt)
  then show ?thesis using True assms by (simp add: vm_low_perm_size_def vm_low_perm_def)
qed (simp add: vm_low_perm_size_def)

end
