(* ===== verification/Posix_File.thy ===== *)
theory Posix_File
  imports Prelude
begin

text \<open>
  The operating-system calls that the \<open>fileio\<close> implementations make on an open file, as POSIX
  documents them for a regular file: \<open>lseek\<close>, \<open>read\<close>, \<open>write\<close>, \<open>pread\<close>, \<open>pwrite\<close>, \<open>fstat\<close>. A
  descriptor holds the bytes of the file and the file offset. A call may also fail and return -1
  without effect: \<open>fails n\<close> says whether the call number \<open>n\<close> on the descriptor does. A transfer that
  does not fail is complete, up to the end of the file for reads.
\<close>

section \<open>Open files\<close>

record fdesc =
  contents :: "u8 list"
  offset :: nat
  regular :: bool
  fails :: "nat \<Rightarrow> bool"
  calls :: nat

definition tick :: "fdesc \<Rightarrow> fdesc" where
  "tick d = d\<lparr>calls := Suc (calls d)\<rparr>"

definition failing :: "fdesc \<Rightarrow> bool" where
  "failing d \<longleftrightarrow> fails d (calls d)"

text \<open>Writing the bytes \<open>ys\<close> at position \<open>p\<close>; a gap before \<open>p\<close> is filled with zeroes.\<close>

definition overlay :: "u8 list \<Rightarrow> nat \<Rightarrow> u8 list \<Rightarrow> u8 list" where
  "overlay xs p ys =
     (if ys = [] then xs
      else take p (xs @ replicate (p - length xs) 0) @ ys @ drop (p + length ys) xs)"

definition segment :: "u8 list \<Rightarrow> nat \<Rightarrow> nat \<Rightarrow> u8 list" where
  "segment xs p n = take n (drop p xs)"

definition sys_lseek :: "fdesc \<Rightarrow> int \<Rightarrow> int \<times> fdesc" where
  "sys_lseek d pos =
     (if failing d \<or> pos < 0 then (- 1, tick d) else (pos, (tick d)\<lparr>offset := nat pos\<rparr>))"

definition sys_pread :: "fdesc \<Rightarrow> nat \<Rightarrow> int \<Rightarrow> int \<times> u8 list \<times> fdesc" where
  "sys_pread d n pos =
     (if failing d \<or> pos < 0 then (- 1, [], tick d)
      else let bs = segment (contents d) (nat pos) n in (int (length bs), bs, tick d))"

definition sys_read :: "fdesc \<Rightarrow> nat \<Rightarrow> int \<times> u8 list \<times> fdesc" where
  "sys_read d n =
     (if failing d then (- 1, [], tick d)
      else let bs = segment (contents d) (offset d) n
           in (int (length bs), bs, (tick d)\<lparr>offset := offset d + length bs\<rparr>))"

definition sys_pwrite :: "fdesc \<Rightarrow> u8 list \<Rightarrow> int \<Rightarrow> int \<times> fdesc" where
  "sys_pwrite d bs pos =
     (if failing d \<or> pos < 0 then (- 1, tick d)
      else (int (length bs), (tick d)\<lparr>contents := overlay (contents d) (nat pos) bs\<rparr>))"

definition sys_write :: "fdesc \<Rightarrow> u8 list \<Rightarrow> int \<times> fdesc" where
  "sys_write d bs =
     (if failing d then (- 1, tick d)
      else (int (length bs), (tick d)\<lparr>contents := overlay (contents d) (offset d) bs,
              offset := offset d + length bs\<rparr>))"

text \<open>The size of a regular file, as the callers of \<open>fstat\<close> use it: \<open>None\<close> when it cannot be had.\<close>

definition sys_fstat_size :: "fdesc \<Rightarrow> int option \<times> fdesc" where
  "sys_fstat_size d =
     (if failing d \<or> \<not> regular d then (None, tick d) else (Some (int (length (contents d))), tick d))"

text \<open>A descriptor of a regular file on which no call fails.\<close>

definition reliable :: "fdesc \<Rightarrow> bool" where
  "reliable d \<longleftrightarrow> regular d \<and> fails d = (\<lambda>_. False)"

section \<open>Facts on positions and transfers\<close>

lemma tick_sel [simp]:
  "contents (tick d) = contents d" "offset (tick d) = offset d" "fails (tick d) = fails d" "regular (tick d) = regular d"
  by (simp_all add: tick_def)

lemma reliable_simps [simp]:
  "reliable (tick d) = reliable d" "reliable (d\<lparr>contents := c\<rparr>) = reliable d" "reliable (d\<lparr>offset := n\<rparr>) = reliable d"
  by (simp_all add: reliable_def)

lemma reliable_failing [simp]: "reliable d \<Longrightarrow> \<not> failing d"
  by (simp add: reliable_def failing_def)

lemma overlay_Nil [simp]: "overlay xs p [] = xs"
  by (simp add: overlay_def)

lemma overlay_inside: "p \<le> length xs \<Longrightarrow> overlay xs p ys = take p xs @ ys @ drop (p + length ys) xs"
  by (simp add: overlay_def)

lemma length_overlay: "p \<le> length xs \<Longrightarrow> length (overlay xs p ys) = max (length xs) (p + length ys)"
  by (auto simp: overlay_inside)

lemma length_segment [simp]: "length (segment xs p n) = min n (length xs - p)"
  by (simp add: segment_def)

lemma nth_overlay:
  "p \<le> length xs \<Longrightarrow> i < max (length xs) (p + length ys) \<Longrightarrow>
   overlay xs p ys ! i = (if p \<le> i \<and> i < p + length ys then ys ! (i - p) else xs ! i)"
  by (auto simp: overlay_inside nth_append min_def)

lemma nth_segment: "i < min n (length xs - p) \<Longrightarrow> segment xs p n ! i = xs ! (p + i)"
  by (auto simp: segment_def)

lemma overlay_same: "p + length ys \<le> length xs \<Longrightarrow> ys = segment xs p (length ys) \<Longrightarrow> overlay xs p ys = xs"
  by (metis add_leD1 append.assoc append_take_drop_id segment_def overlay_inside take_add)

lemma overlay_append:
  "p \<le> length xs \<Longrightarrow> overlay (overlay xs p ys) (p + length ys) zs = overlay xs p (ys @ zs)"
  by (simp add: overlay_inside) (simp add: ac_simps)

end
