(* ===== verification/Io300.thy ===== *)
theory Io300
  imports Posix_File
begin

text \<open>
  The caching file library of \<open>fileio/impl/student.c\<close> and the uncached one of
  \<open>fileio/impl/naive.c\<close>. An operation takes the \<open>io300_file\<close> structure and the descriptor state and
  returns the result with both updated. A failed assertion of \<open>check_invariants\<close> and an access
  outside the cache are faults. \<open>CACHE_SIZE\<close> is the compile-time size of the cache.
\<close>

section \<open>naive.c\<close>

text \<open>The structure holds the descriptor only.\<close>

definition to_int32 :: "int \<Rightarrow> int" where
  "to_int32 x = sint (word_of_int x :: 32 word)"

text \<open>\<open>opened\<close> is the outcome of \<open>open\<close> on the path, \<open>allocated\<close> that of \<open>malloc\<close>.\<close>

definition naive_open :: "fdesc option \<Rightarrow> bool \<Rightarrow> fdesc option" where
  "naive_open opened allocated = (if allocated then opened else None)"

definition naive_flush :: "fdesc \<Rightarrow> int \<times> fdesc" where
  "naive_flush d = (0, d)"

definition naive_close :: "fdesc \<Rightarrow> int \<times> fdesc" where
  "naive_close d = (let (r, d1) = naive_flush d in (0, d1))"

definition naive_filesize :: "fdesc \<Rightarrow> int \<times> fdesc" where
  "naive_filesize d =
     (case sys_fstat_size d of (Some n, d1) \<Rightarrow> (n, d1) | (None, d1) \<Rightarrow> (- 1, d1))"

definition naive_seek :: "fdesc \<Rightarrow> int \<Rightarrow> int \<times> fdesc" where
  "naive_seek d pos = (case sys_lseek d pos of (r, d1) \<Rightarrow> (to_int32 r, d1))"

definition naive_readc :: "fdesc \<Rightarrow> int \<times> fdesc" where
  "naive_readc d =
     (case sys_read d 1 of (n, bs, d1) \<Rightarrow> if n = 1 then (uint (bs ! 0), d1) else (- 1, d1))"

definition naive_writec :: "fdesc \<Rightarrow> int \<Rightarrow> int \<times> fdesc" where
  "naive_writec d ch =
     (case sys_write d [word_of_int ch] of (n, d1) \<Rightarrow> (if n = 1 then ch else - 1, d1))"

definition naive_read :: "fdesc \<Rightarrow> nat \<Rightarrow> int \<times> u8 list \<times> fdesc" where
  "naive_read d sz = sys_read d sz"

definition naive_write :: "fdesc \<Rightarrow> u8 list \<Rightarrow> int \<times> fdesc" where
  "naive_write d buff = sys_write d buff"

section \<open>student.c\<close>

text \<open>
  Offsets are values of \<open>off_t\<close>, kept as integers. \<open>cache\<close> is the array of \<open>CACHE_SIZE\<close> bytes. The
  counters of \<open>stats\<close> start with whatever \<open>malloc\<close> returned and are counted without a bound; nothing reads them.
\<close>

record io300_statistics =
  read_calls :: int
  write_calls :: int
  seeks :: int

record io300_file =
  fd :: int
  cache :: "u8 list"
  dirty :: int
  head :: int
  cache_start :: int
  cache_end :: int
  file_size :: int
  direction :: int
  description :: string
  stats :: io300_statistics

definition check_invariants :: "nat \<Rightarrow> io300_file \<Rightarrow> fault + unit" where
  "check_invariants CACHE_SIZE f =
     bindE (guardE (fd f \<ge> 0) Assert_fail) (\<lambda>_.
     bindE (guardE (cache_start f \<le> head f \<and> head f \<le> cache_end f) Assert_fail) (\<lambda>_.
     guardE (cache_end f - cache_start f \<le> int CACHE_SIZE) Assert_fail))"

definition io300_flush ::
    "nat \<Rightarrow> io300_file \<Rightarrow> fdesc \<Rightarrow> fault + (int \<times> io300_file \<times> fdesc)" where
  "io300_flush CACHE_SIZE f d =
     bindE (check_invariants CACHE_SIZE f) (\<lambda>_.
     case sys_pwrite d (take (nat (head f - cache_start f)) (cache f)) (cache_start f) of (n_written, d1) \<Rightarrow>
       if n_written \<ge> 0
       then Inr (0, f\<lparr>cache_start := head f, cache_end := cache_end f + int CACHE_SIZE, dirty := 0\<rparr>, d1)
       else Inr (- 1, f, d1))"

definition fetch_range :: "nat \<Rightarrow> io300_file \<Rightarrow> int \<times> int" where
  "fetch_range CACHE_SIZE f =
     (if direction f = 1 then (head f, head f + int CACHE_SIZE)
      else (if head f - int CACHE_SIZE < 0 then 0 else head f - int CACHE_SIZE, head f))"

definition io300_fetch ::
    "nat \<Rightarrow> io300_file \<Rightarrow> fdesc \<Rightarrow> fault + (int \<times> io300_file \<times> fdesc)" where
  "io300_fetch CACHE_SIZE f d =
     bindE (check_invariants CACHE_SIZE f) (\<lambda>_.
     bindE (if dirty f \<noteq> 0 then io300_flush CACHE_SIZE f d
            else Inr (0, f\<lparr>cache_start := cache_end f, head := cache_end f\<rparr>, d)) (\<lambda>(r, f1, d1).
     let f2 = (if head f1 < cache_start f1 then f1\<lparr>direction := 0\<rparr>
               else if head f1 > cache_end f1 then f1\<lparr>direction := 1\<rparr> else f1);
         (fetch_start, fetch_end) = fetch_range CACHE_SIZE f2
     in case sys_pread d1 (nat (fetch_end - fetch_start)) fetch_start of (n_read, bs, d2) \<Rightarrow>
       if n_read \<ge> 0
       then Inr (0, f2\<lparr>cache := bs @ drop (length bs) (cache f2), cache_start := fetch_start,
                        cache_end := fetch_start + n_read\<rparr>, d2)
       else Inr (- 1, f2, d2)))"

definition io300_filesize ::
    "nat \<Rightarrow> io300_file \<Rightarrow> fdesc \<Rightarrow> fault + (int \<times> io300_file \<times> fdesc)" where
  "io300_filesize CACHE_SIZE f d =
     bindE (check_invariants CACHE_SIZE f) (\<lambda>_.
     case sys_fstat_size d of (Some n, d1) \<Rightarrow> Inr (n, f, d1) | (None, d1) \<Rightarrow> Inr (- 1, f, d1))"

text \<open>
  \<open>opened\<close> is the outcome of \<open>open\<close>, with the descriptor number, \<open>file_mem\<close> and \<open>cache_mem\<close> those of
  the two calls of \<open>malloc\<close>, with the bytes the memory held before. \<open>None\<close> is the null pointer.
\<close>

definition io300_open ::
    "nat \<Rightarrow> string option \<Rightarrow> string \<Rightarrow> (int \<times> fdesc) option \<Rightarrow> io300_statistics option \<Rightarrow> u8 list option
     \<Rightarrow> fault + (io300_file \<times> fdesc) option" where
  "io300_open CACHE_SIZE path desc opened file_mem cache_mem =
     (case path of None \<Rightarrow> Inr None
      | Some _ \<Rightarrow> case opened of None \<Rightarrow> Inr None
      | Some (n, d) \<Rightarrow> case file_mem of None \<Rightarrow> Inr None
      | Some junk \<Rightarrow> case cache_mem of None \<Rightarrow> Inr None
      | Some bs \<Rightarrow>
          let f0 = \<lparr>fd = n, cache = bs, dirty = 0, head = 0, cache_start = 0, cache_end = 0, file_size = 0,
                   direction = 1, description = desc, stats = junk\<rparr>
          in bindE (io300_filesize CACHE_SIZE f0 d) (\<lambda>(sz, f1, d1).
             bindE (io300_fetch CACHE_SIZE (f1\<lparr>file_size := sz\<rparr>) d1) (\<lambda>(r, f2, d2).
             bindE (check_invariants CACHE_SIZE f2) (\<lambda>_. Inr (Some (f2, d2))))))"

definition seek_amount :: "nat \<Rightarrow> io300_file \<Rightarrow> int" where
  "seek_amount CACHE_SIZE f =
     (if head f + int CACHE_SIZE > file_size f then file_size f - head f else int CACHE_SIZE)"

definition io300_seek ::
    "nat \<Rightarrow> io300_file \<Rightarrow> fdesc \<Rightarrow> int \<Rightarrow> fault + (int \<times> io300_file \<times> fdesc)" where
  "io300_seek CACHE_SIZE f d pos =
     bindE (check_invariants CACHE_SIZE f) (\<lambda>_.
     let f0 = f\<lparr>stats := (stats f)\<lparr>seeks := seeks (stats f) + 1\<rparr>\<rparr> in
     bindE (if dirty f0 \<noteq> 0 then io300_flush CACHE_SIZE f0 d else Inr (0, f0, d)) (\<lambda>(r, f1, d1).
     case sys_lseek d1 pos of (new_pos, d2) \<Rightarrow>
       if new_pos = - 1 then Inr (- 1, f1, d2)
       else let f2 = f1\<lparr>head := pos, cache_start := pos, cache_end := pos\<rparr> in
         if head f2 > file_size f2 then Inr (to_int32 (head f2), f2\<lparr>file_size := head f2\<rparr>, d2)
         else case sys_read d2 (nat (seek_amount CACHE_SIZE f2)) of (n_read, bs, d3) \<Rightarrow>
                if n_read \<ge> 0
                then Inr (to_int32 (head f2), f2\<lparr>cache := bs @ drop (length bs) (cache f2),
                            cache_end := head f2 + n_read\<rparr>, d3)
                else Inr (to_int32 (head f2), f2\<lparr>cache_end := head f2\<rparr>, d3)))"

text \<open>Reading and writing one byte of the cache array.\<close>

definition cache_load :: "io300_file \<Rightarrow> int \<Rightarrow> fault + u8" where
  "cache_load f i =
     bindE (guardE (0 \<le> i \<and> i < int (length (cache f))) Out_of_bounds) (\<lambda>_. Inr (cache f ! nat i))"

definition cache_copy_out :: "io300_file \<Rightarrow> int \<Rightarrow> nat \<Rightarrow> fault + u8 list" where
  "cache_copy_out f i n =
     bindE (guardE (0 \<le> i \<and> i + int n \<le> int (length (cache f))) Out_of_bounds)
       (\<lambda>_. Inr (segment (cache f) (nat i) n))"

definition cache_copy_in :: "io300_file \<Rightarrow> int \<Rightarrow> u8 list \<Rightarrow> fault + io300_file" where
  "cache_copy_in f i bs =
     bindE (guardE (0 \<le> i \<and> i + int (length bs) \<le> int (length (cache f))) Out_of_bounds)
       (\<lambda>_. Inr (f\<lparr>cache := overlay (cache f) (nat i) bs\<rparr>))"

definition io300_readc ::
    "nat \<Rightarrow> io300_file \<Rightarrow> fdesc \<Rightarrow> fault + (int \<times> io300_file \<times> fdesc)" where
  "io300_readc CACHE_SIZE f d =
     bindE (check_invariants CACHE_SIZE f) (\<lambda>_.
     if head f > file_size f then Inr (- 1, f, d)
     else bindE (if head f = cache_end f then io300_fetch CACHE_SIZE f d else Inr (0, f, d)) (\<lambda>(r, f1, d1).
       if head f = cache_end f \<and> (r = - 1 \<or> head f1 = cache_end f1) then Inr (- 1, f1, d1)
       else bindE (cache_load f1 (head f1 - cache_start f1)) (\<lambda>c.
         Inr (uint c, f1\<lparr>head := head f1 + 1\<rparr>, d1))))"

definition io300_writec ::
    "nat \<Rightarrow> io300_file \<Rightarrow> fdesc \<Rightarrow> int \<Rightarrow> fault + (int \<times> io300_file \<times> fdesc)" where
  "io300_writec CACHE_SIZE f d ch =
     bindE (check_invariants CACHE_SIZE f) (\<lambda>_.
     bindE (if head f = cache_end f
            then bindE (io300_filesize CACHE_SIZE f d) (\<lambda>(sz, f0, d0).
                 if head f0 < sz
                 then bindE (io300_fetch CACHE_SIZE f0 d0) (\<lambda>(r, f1, d1). Inr (0, f1, d1))
                 else io300_flush CACHE_SIZE f0 d0)
            else Inr (0, f, d)) (\<lambda>(r, f1, d1).
     if r = - 1 then Inr (- 1, f1, d1)
     else bindE (cache_copy_in f1 (head f1 - cache_start f1) [word_of_int ch]) (\<lambda>f2.
       Inr (ch, f2\<lparr>head := head f2 + 1, dirty := 1\<rparr>, d1))))"

text \<open>
  The loop of \<open>io300_read\<close>, with the bytes placed into the buffer so far. The number of cached bytes
  ahead of \<open>head\<close> is converted to \<open>size_t\<close>, which makes a negative number larger than any request.
\<close>

function read_loop ::
    "nat \<Rightarrow> nat \<Rightarrow> u8 list \<Rightarrow> io300_file \<Rightarrow> fdesc \<Rightarrow> fault + (int \<times> u8 list \<times> io300_file \<times> fdesc)" where
  "read_loop CACHE_SIZE sz buff f d =
     (if length buff < sz then
        bindE (if head f = cache_end f then io300_fetch CACHE_SIZE f d else Inr (0, f, d)) (\<lambda>(r, f1, d1).
        if head f1 = cache_end f1 then Inr (int (length buff), buff, f1, d1)
        else let avail = (if head f1 < cache_end f1 then nat (cache_end f1 - head f1) else sz);
                 n_to_copy = (if avail > sz - length buff then sz - length buff else avail)
             in bindE (cache_copy_out f1 (head f1 - cache_start f1) n_to_copy) (\<lambda>bs.
                read_loop CACHE_SIZE sz (buff @ bs) (f1\<lparr>head := head f1 + int n_to_copy\<rparr>) d1))
      else Inr (int (length buff), buff, f, d))"
  by pat_completeness auto
termination
proof (relation "measure (\<lambda>(cs, sz, buff, f, d). sz - length buff)", goal_cases)
  case (2 cs sz buff f d w r y f1 d1 avail n bs)
  have "0 < n" using 2 by (auto split: if_splits)
  moreover have "length bs = n" using 2 by (auto simp: cache_copy_out_def bindE_Inr_iff)
  ultimately show ?case using 2(1) by auto
qed simp

declare read_loop.simps [simp del]

definition io300_read ::
    "nat \<Rightarrow> io300_file \<Rightarrow> fdesc \<Rightarrow> nat \<Rightarrow> fault + (int \<times> u8 list \<times> io300_file \<times> fdesc)" where
  "io300_read CACHE_SIZE f d sz =
     bindE (check_invariants CACHE_SIZE f) (\<lambda>_.
     if head f > file_size f then Inr (0, [], f, d) else read_loop CACHE_SIZE sz [] f d)"

text \<open>
  The loop of \<open>io300_write\<close>, with the bytes still to be written. It does not end when the cache is
  full and every \<open>io300_fetch\<close> fails. The free space ahead of \<open>head\<close> is again a \<open>size_t\<close>.
\<close>

definition write_refill ::
    "nat \<Rightarrow> io300_file \<Rightarrow> fdesc \<Rightarrow> fault + (int \<times> io300_file \<times> fdesc)" where
  "write_refill CACHE_SIZE f d =
     (if head f = cache_start f + int CACHE_SIZE then
        if head f < file_size f
        then bindE (io300_fetch CACHE_SIZE f d) (\<lambda>(r, f1, d1). Inr (0, f1, d1))
        else io300_flush CACHE_SIZE (if cache_end f < head f
               then f\<lparr>cache_end := cache_start f + int CACHE_SIZE\<rparr> else f) d
      else Inr (0, f, d))"

definition write_amount :: "nat \<Rightarrow> io300_file \<Rightarrow> nat \<Rightarrow> nat" where
  "write_amount CACHE_SIZE f remaining =
     (let used = head f - cache_start f;
          available = (if used \<le> int CACHE_SIZE then nat (int CACHE_SIZE - used) else remaining)
      in if remaining < available then remaining else available)"

partial_function (option) write_loop ::
    "nat \<Rightarrow> int \<Rightarrow> u8 list \<Rightarrow> io300_file \<Rightarrow> fdesc \<Rightarrow> (int \<times> io300_file \<times> fdesc) comp" where
  "write_loop CACHE_SIZE pos buff f d =
     (if buff \<noteq> [] then
        bindIO (Some (write_refill CACHE_SIZE f d)) (\<lambda>(r, f1, d1).
        if r = - 1 then Some (Inr (- 1, f1, d1))
        else let n_to_write = write_amount CACHE_SIZE f1 (length buff)
             in bindIO (Some (cache_copy_in f1 (head f1 - cache_start f1) (take n_to_write buff))) (\<lambda>f2.
                write_loop CACHE_SIZE (pos + int n_to_write) (drop n_to_write buff)
                  (f2\<lparr>head := head f2 + int n_to_write, dirty := 1\<rparr>) d1))
      else Some (Inr (pos, if cache_end f < head f
             then f\<lparr>cache_end := cache_start f + int CACHE_SIZE\<rparr> else f, d)))"

definition io300_write ::
    "nat \<Rightarrow> io300_file \<Rightarrow> fdesc \<Rightarrow> u8 list \<Rightarrow> (int \<times> io300_file \<times> fdesc) comp" where
  "io300_write CACHE_SIZE f d buff =
     bindIO (Some (check_invariants CACHE_SIZE f)) (\<lambda>_. write_loop CACHE_SIZE 0 buff f d)"

definition io300_close :: "nat \<Rightarrow> io300_file \<Rightarrow> fdesc \<Rightarrow> fault + (int \<times> fdesc)" where
  "io300_close CACHE_SIZE f d =
     bindE (check_invariants CACHE_SIZE f) (\<lambda>_.
     bindE (if dirty f \<noteq> 0 then io300_flush CACHE_SIZE f d else Inr (0, f, d)) (\<lambda>(r, f1, d1).
     if failing d1 then Inr (- 1, tick d1) else Inr (0, tick d1)))"

end
