(* ===== verification/Io300_Refine.thy ===== *)
theory Io300_Refine
  imports Io300
begin

text \<open>
  What the caching implementation promises. \<open>file_rep\<close> relates the structure and the descriptor to
  the bytes \<open>C\<close> that the file has from the point of view of the caller, and to the position \<open>p\<close>. Its
  flag \<open>grown\<close> records that a write has gone past the end of the file.
\<close>

section \<open>Representation\<close>

definition file_rep :: "nat \<Rightarrow> io300_file \<Rightarrow> fdesc \<Rightarrow> bool \<Rightarrow> u8 list \<Rightarrow> nat \<Rightarrow> bool" where
  "file_rep CS f d grown C p \<longleftrightarrow>
     0 < CS \<and> reliable d \<and> 0 \<le> fd f \<and> length (cache f) = CS \<and> direction f = 1 \<and> (dirty f = 0 \<longrightarrow> C = contents d)
     \<and> file_size f \<le> int (length (contents d))
     \<and> (\<exists>s e. cache_start f = int s \<and> head f = int p \<and> cache_end f = int e \<and> s \<le> p \<and> p \<le> e \<and> e \<le> s + CS
         \<and> s \<le> length (contents d)
         \<and> (e < s + CS \<longrightarrow> file_size f \<le> int e)
         \<and> C = overlay (contents d) s (take (p - s) (cache f))
         \<and> (\<not> grown \<longrightarrow> file_size f = int (length C) \<and> length C = length (contents d)
              \<and> e = min (s + CS) (length C) \<and> take (e - s) (cache f) = segment C s (e - s)))"

lemma file_repE:
  assumes "file_rep CS f d g C p"
  obtains s e where "0 < CS" "reliable d" "0 \<le> fd f" "length (cache f) = CS" "direction f = 1"
    "dirty f = 0 \<Longrightarrow> C = contents d" "file_size f \<le> int (length (contents d))"
    "cache_start f = int s" "head f = int p" "cache_end f = int e" "s \<le> p" "p \<le> e" "e \<le> s + CS"
    "s \<le> length (contents d)" "e < s + CS \<Longrightarrow> file_size f \<le> int e"
    "C = overlay (contents d) s (take (p - s) (cache f))"
    "\<not> g \<Longrightarrow> file_size f = int (length C)" "\<not> g \<Longrightarrow> length C = length (contents d)"
    "\<not> g \<Longrightarrow> e = min (s + CS) (length C)" "\<not> g \<Longrightarrow> take (e - s) (cache f) = segment C s (e - s)"
    "length (contents d) \<le> length C" "p \<le> length C"
proof -
  obtain s e where r: "cache_start f = int s" "head f = int p" "cache_end f = int e" "s \<le> p" "p \<le> e" "e \<le> s + CS"
      "s \<le> length (contents d)" "e < s + CS \<longrightarrow> file_size f \<le> int e"
      "C = overlay (contents d) s (take (p - s) (cache f))"
      "\<not> g \<longrightarrow> file_size f = int (length C) \<and> length C = length (contents d)
              \<and> e = min (s + CS) (length C) \<and> take (e - s) (cache f) = segment C s (e - s)"
    using assms unfolding file_rep_def by blast
  have c: "length (cache f) = CS" using assms by (simp add: file_rep_def)
  have "length C = max (length (contents d)) (s + (p - s))"
    using r(4-9) c by (simp add: length_overlay)
  then have "length (contents d) \<le> length C" "p \<le> length C" using r(4) by auto
  then show thesis using assms r by (intro that [of s e]) (auto simp: file_rep_def)
qed

lemma file_repI:
  assumes "0 < CS" "reliable d" "0 \<le> fd f" "length (cache f) = CS" "direction f = 1" "dirty f = 0 \<Longrightarrow> C = contents d"
    "file_size f \<le> int (length (contents d))"
    "cache_start f = int s" "head f = int p" "cache_end f = int e" "s \<le> p" "p \<le> e" "e \<le> s + CS"
    "s \<le> length (contents d)" "e < s + CS \<Longrightarrow> file_size f \<le> int e"
    "C = overlay (contents d) s (take (p - s) (cache f))"
    "\<not> g \<Longrightarrow> file_size f = int (length C)" "\<not> g \<Longrightarrow> length C = length (contents d)"
    "\<not> g \<Longrightarrow> e = min (s + CS) (length C)" "\<not> g \<Longrightarrow> take (e - s) (cache f) = segment C s (e - s)"
  shows "file_rep CS f d g C p"
  unfolding file_rep_def using assms by blast

lemma file_rep_check: "file_rep CS f d g C p \<Longrightarrow> check_invariants CS f = Inr ()"
  by (auto simp: file_rep_def check_invariants_def)

lemma file_rep_bound: "file_rep CS f d g C p \<Longrightarrow> p \<le> length C"
  by (erule file_repE) simp

section \<open>Flush and fetch\<close>

lemma flush_rep:
  assumes "file_rep CS f d g C p" "cache_end f = int e"
  shows "io300_flush CS f d = Inr (0, f\<lparr>cache_start := int p, cache_end := int (e + CS), dirty := 0\<rparr>, (tick d)\<lparr>contents := C\<rparr>)"
proof -
  obtain s where s: "cache_start f = int s" "head f = int p" "s \<le> p" "reliable d"
      "C = overlay (contents d) s (take (p - s) (cache f))"
    using assms(1) by (rule file_repE) auto
  have "nat (int p - int s) = p - s" by simp
  then show ?thesis using assms(2) s file_rep_check [OF assms(1)]
    by (simp add: io300_flush_def sys_pwrite_def)
qed

lemma refilled_rep:
  assumes "0 < CS" "reliable d" "0 \<le> fd f" "length (cache f) = CS" "direction f = 1" "dirty f = 0"
    "file_size f \<le> int (length (contents d))" "C = contents d" "p \<le> length C" "m \<le> CS" "e = p + length (segment C p m)"
    "m < CS \<Longrightarrow> file_size f \<le> int (p + m)" "\<not> g \<Longrightarrow> file_size f = int (length C) \<and> min m (length C - p) = min CS (length C - p)"
  shows "file_rep CS (f\<lparr>cache := segment C p m @ drop (length (segment C p m)) (cache f), head := int p,
           cache_start := int p, cache_end := int e\<rparr>) d g C p"
proof -
  have "take (e - p) (segment C p m) = segment C p (e - p)"
    using assms(11) by (simp add: segment_def)
  moreover have "file_size f \<le> int e" if "e < p + CS"
    using that assms(7-12) by (cases "m \<le> length C - p") auto
  ultimately show ?thesis using assms by (intro file_repI [where s = p and e = e]) auto
qed

lemma fetch_rep:
  assumes r: "file_rep CS f d g C p" and e: "cache_end f = int p"
  obtains f' d' where "io300_fetch CS f d = Inr (0, f', d')" "file_rep CS f' d' g C p" "contents d' = C"
    "cache_start f' = int p" "cache_end f' = int (p + min CS (length C - p))" "file_size f' = file_size f"
proof -
  have chk: "check_invariants CS f = Inr ()" by (rule file_rep_check [OF r])
  note rr = r
  let ?e = "p + length (segment C p CS)"
  show thesis using r
  proof (rule file_repE)
    fix s e'
    assume f: "0 < CS" "reliable d" "0 \<le> fd f" "length (cache f) = CS" "direction f = 1"
      "dirty f = 0 \<Longrightarrow> C = contents d" "file_size f \<le> int (length (contents d))" "head f = int p"
      "\<not> g \<Longrightarrow> file_size f = int (length C)" "length (contents d) \<le> length C" "p \<le> length C"
      "cache_start f = int s" "s \<le> p"
    define f0 where "f0 = f\<lparr>dirty := 0\<rparr>"
    let ?f' = "f0\<lparr>cache := segment C p CS @ drop (length (segment C p CS)) (cache f0), head := int p,
           cache_start := int p, cache_end := int ?e\<rparr>"
    have rep: "file_rep CS ?f' d1 g C p" if "reliable d1" "contents d1 = C" for d1
      using f that by (intro refilled_rep) (auto simp: f0_def)
    have upd: "cache_update (\<lambda>_. c) f0 = f\<lparr>cache := c, dirty := 0\<rparr>" for c by (simp add: f0_def)
    show thesis
    proof (cases "dirty f = 0")
      case True
      then have "C = contents d" using f by simp
      with True f e chk have "io300_fetch CS f d = Inr (0, ?f', tick d)"
        by (simp add: io300_fetch_def fetch_range_def sys_pread_def f0_def)
      moreover have "file_rep CS ?f' (tick d) g C p" using f \<open>C = contents d\<close> by (intro rep) auto
      ultimately show thesis
        using \<open>C = contents d\<close> by (intro that [of ?f' "tick d"]) (auto simp: f0_def min.commute)
    next
      case False
      let ?d1 = "(tick d)\<lparr>contents := C\<rparr>"
      have "io300_flush CS f d = Inr (0, f\<lparr>cache_start := int p, cache_end := int (p + CS), dirty := 0\<rparr>, ?d1)"
        by (rule flush_rep [OF rr e])
      with False f e chk have "io300_fetch CS f d = Inr (0, ?f', tick ?d1)"
        by (simp add: io300_fetch_def fetch_range_def sys_pread_def f0_def)
      moreover have "file_rep CS ?f' (tick ?d1) g C p" using f by (intro rep) auto
      ultimately show thesis
        by (intro that [of ?f' "tick ?d1"]) (auto simp: f0_def min.commute)
    qed
  qed
qed

section \<open>Operations\<close>

text \<open>Storing bytes into the cache at the head, when the cache has room for them.\<close>

lemma overlay_take:
  assumes "a \<le> length xs" "a + length bs \<le> length xs"
  shows "take (a + length bs) (overlay xs a bs) = take a xs @ bs"
  using assms by (simp add: overlay_inside)

definition fix_end :: "nat \<Rightarrow> io300_file \<Rightarrow> io300_file" where
  "fix_end CS f = (if cache_end f < head f then f\<lparr>cache_end := cache_start f + int CS\<rparr> else f)"

lemma overlay_segment:
  assumes "take n c = segment C s n" "a + length bs \<le> n" "n \<le> length c" "s + n \<le> length C"
  shows "take n (overlay c a bs) = segment (overlay C (s + a) bs) s n"
proof (rule nth_equalityI)
  fix i assume "i < length (take n (overlay c a bs))"
  then have i: "i < n" by simp
  have "c ! i = C ! (s + i)"
    using i assms(1,3,4) nth_take [of i n c] nth_segment [of i n C s] by simp
  with i assms show "take n (overlay c a bs) ! i = segment (overlay C (s + a) bs) s n ! i"
    by (auto simp: nth_segment nth_overlay length_overlay)
qed (use assms in \<open>simp add: length_overlay\<close>)

lemma store_rep:
  assumes r: "file_rep CS (fix_end CS f) d g C p" and room: "p + length bs \<le> s + CS" "cache_start f = int s"
    and bs: "bs \<noteq> []"
  shows "file_rep CS (fix_end CS (f\<lparr>cache := overlay (cache f) (p - s) bs, head := int (p + length bs), dirty := 1\<rparr>)) d
           (g \<or> length C < p + length bs) (overlay C p bs) (p + length bs)" (is "file_rep CS ?f' d ?g' ?C' ?p'")
    and "cache_copy_in f (int p - int s) bs = Inr (f\<lparr>cache := overlay (cache f) (p - s) bs\<rparr>)"
  using r
proof (atomize (full), rule file_repE)
  fix s' e
  assume "cache_start (fix_end CS f) = int s'"
  then have [simp]: "s' = s" using room(2) by (simp add: fix_end_def split: if_splits)
  assume F: "0 < CS" "reliable d" "0 \<le> fd (fix_end CS f)" "length (cache (fix_end CS f)) = CS"
    "direction (fix_end CS f) = 1" "file_size (fix_end CS f) \<le> int (length (contents d))"
    "head (fix_end CS f) = int p" "cache_end (fix_end CS f) = int e" "s' \<le> p" "p \<le> e" "e \<le> s' + CS"
    "s' \<le> length (contents d)" "e < s' + CS \<Longrightarrow> file_size (fix_end CS f) \<le> int e"
    and C: "C = overlay (contents d) s' (take (p - s') (cache (fix_end CS f)))"
    and N: "\<not> g \<Longrightarrow> file_size (fix_end CS f) = int (length C)" "\<not> g \<Longrightarrow> length C = length (contents d)"
    "\<not> g \<Longrightarrow> e = min (s' + CS) (length C)" "\<not> g \<Longrightarrow> take (e - s') (cache (fix_end CS f)) = segment C s' (e - s')"
    and L: "length (contents d) \<le> length C" "p \<le> length C"
  let ?c = "overlay (cache f) (p - s) bs"
  have c: "cache (fix_end CS f) = cache f" "fd (fix_end CS f) = fd f" "direction (fix_end CS f) = direction f"
      "file_size (fix_end CS f) = file_size f" "head (fix_end CS f) = head f"
      "cache_end (fix_end CS f) = (if cache_end f < head f then int (s + CS) else cache_end f)"
    using room(2) by (simp_all add: fix_end_def)
  have lc: "length ?c = CS" using F(4,9) room(1) c(1) by (simp add: length_overlay)
  have "take (?p' - s) ?c = take (p - s) (cache f) @ bs"
    using overlay_take [of "p - s" "cache f" bs] F(4,9) room(1) c(1) by simp
  then have C': "?C' = overlay (contents d) s (take (?p' - s) ?c)"
    using C F(4,9,12) room(1) c(1) overlay_append [of s "contents d" "take (p - s) (cache f)" bs] by simp
  have e: "cache_end ?f' = int (if e < ?p' then s + CS else e)" "cache_start ?f' = int s" "head ?f' = int ?p'"
    "cache ?f' = ?c" "fd ?f' = fd f" "direction ?f' = direction f" "file_size ?f' = file_size f" "dirty ?f' = 1"
    using F(7,8) c room by (auto simp: fix_end_def split: if_splits)
  have ng: "?p' \<le> e" if "\<not> ?g'" using that N(3) room(1) by auto
  have val: "take (e - s) ?c = segment ?C' s (e - s)" if "\<not> ?g'"
    using overlay_segment [of "e - s" "cache f" C s "p - s" bs] N(3,4) c(1) that ng F(4,9-11) by auto
  have "file_rep CS ?f' d ?g' ?C' ?p'"
  proof (rule file_repI [where s = s and e = "if e < ?p' then s + CS else e"])
    show "\<not> ?g' \<Longrightarrow> (if e < ?p' then s + CS else e) = min (s + CS) (length ?C')"
      using ng N(3) L by (auto simp: length_overlay)
    show "\<not> ?g' \<Longrightarrow> take ((if e < ?p' then s + CS else e) - s) (cache ?f') = segment ?C' s ((if e < ?p' then s + CS else e) - s)"
      using ng val e by auto
    show "?C' = overlay (contents d) s (take (?p' - s) (cache ?f'))" unfolding e(4) by (rule C')
    show "(if e < ?p' then s + CS else e) < s + CS \<Longrightarrow> file_size ?f' \<le> int (if e < ?p' then s + CS else e)"
      using F(13) c(4) e(7) by (auto split: if_splits)
    show "\<not> ?g' \<Longrightarrow> file_size ?f' = int (length ?C')" "\<not> ?g' \<Longrightarrow> length ?C' = length (contents d)"
      using N(1,2) c(4) e(7) L by (auto simp: length_overlay)
    show "file_size ?f' \<le> int (length (contents d))" using F(6) c(4) e(7) by simp
    show "?p' \<le> (if e < ?p' then s + CS else e)" "(if e < ?p' then s + CS else e) \<le> s + CS" "s \<le> ?p'"
      using room(1) F(9,11) by auto
  qed (use F(1-5,12) c(1-3) e(1-6,8) lc in simp_all)
  moreover have "cache_copy_in f (int p - int s) bs = Inr (f\<lparr>cache := ?c\<rparr>)"
    using F(4,9) room(1) c(1) by (auto simp: cache_copy_in_def nat_diff_distrib guardE_def)
  ultimately show "file_rep CS ?f' d ?g' ?C' ?p' \<and> cache_copy_in f (int p - int s) bs = Inr (f\<lparr>cache := ?c\<rparr>)" ..
qed

lemma fix_end_id: "head f \<le> cache_end f \<Longrightarrow> fix_end CS f = f"
  by (simp add: fix_end_def)

lemma file_rep_fix: "file_rep CS f d g C p \<Longrightarrow> fix_end CS f = f"
  by (erule file_repE) (simp add: fix_end_id)

text \<open>After a flush the cache is empty and has room for a full block ahead of the head.\<close>

lemma flushed_rep:
  assumes r: "file_rep CS f d g C p"
  shows "file_rep CS (f\<lparr>cache_start := int p, cache_end := int (p + CS), dirty := 0\<rparr>) ((tick d)\<lparr>contents := C\<rparr>) True C p"
  using r by (elim file_repE, intro file_repI [where s = p and e = "p + CS"]) simp_all

lemma writec_store:
  assumes r: "file_rep CS f d g C p" and e: "int p < cache_end f"
  obtains f2 where "cache_copy_in f (head f - cache_start f) [w] = Inr f2"
    "file_rep CS (f2\<lparr>head := head f2 + 1, dirty := 1\<rparr>) d (g \<or> length C = p) (overlay C p [w]) (p + 1)"
  using r
proof (rule file_repE)
  fix s e'
  assume F: "cache_start f = int s" "head f = int p" "cache_end f = int e'" "p \<le> e'" "e' \<le> s + CS" "p \<le> length C"
    "s \<le> p"
  have room: "p + length [w] \<le> s + CS" using F e by simp
  have id: "fix_end CS f = f" by (rule file_rep_fix [OF r])
  note st = store_rep [of CS f d g C p "[w]" s, unfolded id, OF r room F(1)]
  have "fix_end CS (f\<lparr>cache := overlay (cache f) (p - s) [w], head := int (p + length [w]), dirty := 1\<rparr>)
      = f\<lparr>cache := overlay (cache f) (p - s) [w], head := int p + 1, dirty := 1\<rparr>"
    using F e by (simp add: fix_end_def)
  moreover have "length C < p + length [w] \<longleftrightarrow> length C = p" using F by auto
  ultimately show thesis using st F by (intro that [of "f\<lparr>cache := overlay (cache f) (p - s) [w]\<rparr>"]) simp_all
qed

lemma filesize_rep:
  assumes "file_rep CS f d g C p"
  shows "io300_filesize CS f d = Inr (int (length (contents d)), f, tick d)"
  using file_rep_check [OF assms] assms
  by (simp add: file_rep_def io300_filesize_def sys_fstat_size_def) (simp add: reliable_def failing_def)

lemma writec_rep:
  assumes r: "file_rep CS f d g C p"
  obtains f' d' where "io300_writec CS f d ch = Inr (ch, f', d')"
    "file_rep CS f' d' (g \<or> length C = p) (overlay C p [word_of_int ch]) (p + 1)"
proof -
  have chk: "check_invariants CS f = Inr ()" by (rule file_rep_check [OF r])
  obtain e where h: "head f = int p" "cache_end f = int e" "p \<le> e" and rel: "reliable d"
    and dC: "length (contents d) \<le> length C" and ng: "\<not> g \<Longrightarrow> length C = length (contents d)"
    using r by (rule file_repE) blast
  have p: "p \<le> length C" by (rule file_rep_bound [OF r])
  consider (room) "p < e" | (fetch) "p = e" "p < length (contents d)" | (flush) "p = e" "length (contents d) \<le> p"
    using h(3) by linarith
  then show thesis
  proof cases
    case room
    obtain f2 where "cache_copy_in f (head f - cache_start f) [word_of_int ch] = Inr f2"
      "file_rep CS (f2\<lparr>head := head f2 + 1, dirty := 1\<rparr>) d (g \<or> length C = p) (overlay C p [word_of_int ch]) (p + 1)"
      using writec_store [OF r] room h by auto
    then show thesis using that room chk h by (simp add: io300_writec_def)
  next
    case fetch
    have rt: "file_rep CS f (tick d) g C p" using r by (simp add: file_rep_def)
    obtain f1 d1 where f1: "io300_fetch CS f (tick d) = Inr (0, f1, d1)" "file_rep CS f1 d1 g C p"
      "cache_end f1 = int (p + min CS (length C - p))"
      using fetch_rep [OF rt] h fetch(1) by blast
    have "0 < CS" using r by (simp add: file_rep_def)
    then have "int p < cache_end f1" using f1(3) fetch dC by simp
    then obtain f2 where "cache_copy_in f1 (head f1 - cache_start f1) [word_of_int ch] = Inr f2"
      "file_rep CS (f2\<lparr>head := head f2 + 1, dirty := 1\<rparr>) d1 (g \<or> length C = p) (overlay C p [word_of_int ch]) (p + 1)"
      using writec_store [OF f1(2)] by blast
    moreover have "io300_filesize CS f d = Inr (int (length (contents d)), f, tick d)" by (rule filesize_rep [OF r])
    ultimately show thesis using that fetch chk h f1(1) by (simp add: io300_writec_def)
  next
    case flush
    have rt: "file_rep CS f (tick d) g C p" using r by (simp add: file_rep_def)
    let ?f1 = "f\<lparr>cache_start := int p, cache_end := int (e + CS), dirty := 0\<rparr>" and ?d1 = "(tick (tick d))\<lparr>contents := C\<rparr>"
    have fl: "io300_flush CS f (tick d) = Inr (0, ?f1, ?d1)" by (rule flush_rep [OF rt h(2)])
    have "0 < CS" using r by (simp add: file_rep_def)
    then have lt: "int p < cache_end ?f1" using flush(1) by simp
    have "file_rep CS ?f1 ?d1 True C p" using flushed_rep [OF rt] flush(1) by simp
    then obtain f2 where "cache_copy_in ?f1 (head ?f1 - cache_start ?f1) [word_of_int ch] = Inr f2"
      "file_rep CS (f2\<lparr>head := head f2 + 1, dirty := 1\<rparr>) ?d1 (True \<or> length C = p) (overlay C p [word_of_int ch]) (p + 1)"
      using writec_store lt by blast
    moreover have "io300_filesize CS f d = Inr (int (length (contents d)), f, tick d)" by (rule filesize_rep [OF r])
    moreover have "g \<or> length C = p" using ng flush p by (cases g) auto
    ultimately show thesis using that flush chk h fl by (simp add: io300_writec_def)
  qed
qed

text \<open>Reading what the cache holds ahead of the head.\<close>

lemma load_rep:
  assumes r: "file_rep CS f d False C p" and e: "cache_end f = int e" and n: "p + n \<le> e"
  shows "cache_copy_out f (head f - cache_start f) n = Inr (segment C p n)"
    and "file_rep CS (f\<lparr>head := int (p + n)\<rparr>) d False C (p + n)"
  using r
proof (atomize (full), rule file_repE)
  fix s e'
  assume F: "0 < CS" "reliable d" "0 \<le> fd f" "length (cache f) = CS" "direction f = 1"
    "file_size f \<le> int (length (contents d))"
    "cache_start f = int s" "head f = int p" "cache_end f = int e'" "s \<le> p" "p \<le> e'" "e' \<le> s + CS"
    "s \<le> length (contents d)" "p \<le> length C" and cl: "dirty f = 0 \<Longrightarrow> C = contents d"
    and C: "C = overlay (contents d) s (take (p - s) (cache f))"
    and "\<not> False \<Longrightarrow> file_size f = int (length C)" "\<not> False \<Longrightarrow> length C = length (contents d)"
    "\<not> False \<Longrightarrow> e' = min (s + CS) (length C)" "\<not> False \<Longrightarrow> take (e' - s) (cache f) = segment C s (e' - s)"
  then have N: "file_size f = int (length C)" "length C = length (contents d)" "e' = min (s + CS) (length C)"
      "take (e' - s) (cache f) = segment C s (e' - s)" by auto
  have [simp]: "e' = e" using e F(9) by simp
  have at: "cache f ! i = C ! (s + i)" if "i < e - s" for i
    using that N(3,4) nth_take [of i "e - s" "cache f"] nth_segment [of i "e - s" C s] by simp
  have seg: "segment (cache f) (p - s) n = segment C p n"
    using n N(3) F(4,10) by (intro nth_equalityI) (auto simp: nth_segment at)
  have "C ! i = contents d ! i" if "p \<le> i \<or> i < s" "i < length C" for i
    using that N(2) F(10,13) by (subst C) (auto simp: nth_overlay)
  then have C': "C = overlay (contents d) s (take (p + n - s) (cache f))"
    using n N(2,3) F(4,10) by (intro nth_equalityI) (auto simp: length_overlay nth_overlay at)
  have "file_rep CS (f\<lparr>head := int (p + n)\<rparr>) d False C (p + n)"
    by (rule file_repI [where s = s and e = e]) (use F N n cl C' in simp_all)
  moreover have "cache_copy_out f (head f - cache_start f) n = Inr (segment C p n)"
    using F n seg by (simp add: cache_copy_out_def nat_diff_distrib guardE_def)
  ultimately show "cache_copy_out f (head f - cache_start f) n = Inr (segment C p n)
    \<and> file_rep CS (f\<lparr>head := int (p + n)\<rparr>) d False C (p + n)" by simp
qed

lemma load_ready:
  assumes r: "file_rep CS f d False C p"
  obtains f1 d1 e where "(if head f = cache_end f then io300_fetch CS f d else Inr (0, f, d)) = Inr (0, f1, d1)"
    "file_rep CS f1 d1 False C p" "head f1 = int p" "cache_end f1 = int e" "p \<le> e" "e = p \<longleftrightarrow> p = length C"
    "\<not> file_size f1 < head f1"
proof -
  have hd: "\<not> file_size f' < head f'" "head f' = int p" if "file_rep CS f' d' False C p" for f' d'
    using that by (auto elim!: file_repE)
  obtain e where h: "cache_end f = int e" "p \<le> e" "e \<le> length C"
    using r by (rule file_repE) auto
  show thesis
  proof (cases "e = p")
    case True
    obtain f1 d1 where f1: "io300_fetch CS f d = Inr (0, f1, d1)" "file_rep CS f1 d1 False C p"
      "cache_end f1 = int (p + min CS (length C - p))"
      using fetch_rep [OF r] h True by blast
    have "0 < CS" using r by (simp add: file_rep_def)
    with f1 True h hd r show thesis by (intro that [of f1 d1 "p + min CS (length C - p)"]) auto
  next
    case False
    with h hd [OF r] r show thesis by (intro that [of f d e]) auto
  qed
qed

lemma readc_rep:
  assumes r: "file_rep CS f d False C p"
  obtains f' d' where "io300_readc CS f d = Inr (if p < length C then uint (C ! p) else - 1, f', d')"
    "file_rep CS f' d' False C (if p < length C then p + 1 else p)"
proof -
  have chk: "check_invariants CS f = Inr ()" by (rule file_rep_check [OF r])
  have hd: "\<not> file_size f < head f" "head f = int p" using r by (auto elim!: file_repE)
  obtain f1 d1 e where f1: "(if head f = cache_end f then io300_fetch CS f d else Inr (0, f, d)) = Inr (0, f1, d1)"
    "file_rep CS f1 d1 False C p" "head f1 = int p" "cache_end f1 = int e" "p \<le> e" "e = p \<longleftrightarrow> p = length C"
    using load_ready [OF r] by metis
  have p: "p \<le> length C" by (rule file_rep_bound [OF r])
  show thesis
  proof (cases "p < length C")
    case True
    with f1(5,6) have n: "p + 1 \<le> e" by auto
    note ld = load_rep [OF f1(2,4) n]
    have "segment C p 1 = [C ! p]" using True by (simp add: segment_def take_Suc_conv_app_nth hd_drop_conv_nth take_Suc)
    then have "cache_load f1 (head f1 - cache_start f1) = Inr (C ! p)"
      using ld(1) by (auto simp: cache_copy_out_def cache_load_def bindE_Inr_iff segment_def take_Suc hd_drop_conv_nth split: if_splits)
    then have "io300_readc CS f d = Inr (uint (C ! p), f1\<lparr>head := int (p + 1)\<rparr>, d1)"
      using chk hd f1 n by (auto simp: io300_readc_def)
    then show thesis using that ld(2) True by simp
  next
    case False
    then have "io300_readc CS f d = Inr (- 1, f1, d1)" using chk hd f1 p by (auto simp: io300_readc_def split: if_splits)
    then show thesis using that False f1(2) by simp
  qed
qed

end
