(* ===== verification/Io300_Ops.thy ===== *)
theory Io300_Ops
  imports Io300_Refine
begin

text \<open>
  Bulk transfers, seeking, opening and closing of the caching implementation keep the representation,
  and the interface that both implementations of \<open>io300.h\<close> satisfy.
\<close>

section \<open>Bulk read and write\<close>

lemma segment_append:
  "p + a \<le> length C \<Longrightarrow> segment C p (a + b) = segment C p a @ segment C (p + a) b"
  by (simp add: segment_def take_add add.commute)

lemma segment_min: "segment C p (min n (length C - p)) = segment C p n"
  by (simp add: segment_def min_def)

lemma read_loop_rep:
  assumes "file_rep CS f d False C p"
  shows "\<exists>f' d'. read_loop CS sz buff f d = Inr (int (length (buff @ segment C p (sz - length buff))),
           buff @ segment C p (sz - length buff), f', d')
         \<and> file_rep CS f' d' False C (p + length (segment C p (sz - length buff)))"
  using assms
proof (induction "sz - length buff" arbitrary: buff f d p rule: less_induct)
  case less
  note r = less.prems
  show ?case
  proof (cases "length buff < sz")
    case False
    then show ?thesis using r by (subst read_loop.simps) (simp add: segment_def)
  next
    case True
    obtain f1 d1 e where f1: "(if head f = cache_end f then io300_fetch CS f d else Inr (0, f, d)) = Inr (0, f1, d1)"
      "file_rep CS f1 d1 False C p" "head f1 = int p" "cache_end f1 = int e" "p \<le> e" "e = p \<longleftrightarrow> p = length C"
      using load_ready [OF r] by metis
    show ?thesis
    proof (cases "p = length C")
      case True
      then have "read_loop CS sz buff f d = Inr (int (length buff), buff, f1, d1)"
        using f1 \<open>length buff < sz\<close> by (subst read_loop.simps) simp
      then show ?thesis using True f1(2) by (simp add: segment_def)
    next
      case False
      define n where "n = (if nat (int e - int p) > sz - length buff then sz - length buff else nat (int e - int p))"
      have n: "p + n \<le> e" "0 < n" "n \<le> sz - length buff" using False f1(5,6) True by (auto simp: n_def)
      have eC: "e \<le> length C" using f1(2,4) by (auto elim!: file_repE)
      note ld = load_rep [OF f1(2,4) n(1)]
      have run: "read_loop CS sz buff f d = read_loop CS sz (buff @ segment C p n) (f1\<lparr>head := int (p + n)\<rparr>) d1"
        using True False f1 ld(1) n by (subst read_loop.simps) (simp add: n_def [symmetric])
      have len: "length (segment C p n) = n" using n eC by simp
      have IH: "\<exists>f' d'. read_loop CS sz (buff @ segment C p n) (f1\<lparr>head := int (p + n)\<rparr>) d1
            = Inr (int (length ((buff @ segment C p n) @ segment C (p + n) (sz - length (buff @ segment C p n)))),
              (buff @ segment C p n) @ segment C (p + n) (sz - length (buff @ segment C p n)), f', d')
          \<and> file_rep CS f' d' False C (p + n + length (segment C (p + n) (sz - length (buff @ segment C p n))))"
        using len n True ld(2) by (intro less.hyps) auto
      have "segment C p (sz - length buff) = segment C p n @ segment C (p + n) (sz - length (buff @ segment C p n))"
        using segment_append [of p n C "sz - length buff - n"] n eC len by simp
      then show ?thesis using IH run len by (simp add: add.assoc)
    qed
  qed
qed

text \<open>
  Within \<open>io300_write\<close> the head may be ahead of \<open>cache_end\<close>, which is only adjusted at the end.
\<close>

definition write_inv :: "nat \<Rightarrow> io300_file \<Rightarrow> fdesc \<Rightarrow> bool \<Rightarrow> u8 list \<Rightarrow> nat \<Rightarrow> bool" where
  "write_inv CS f d g C p \<longleftrightarrow> file_rep CS (fix_end CS f) d g C p
     \<and> (cache_end f < cache_start f + int CS \<longrightarrow> file_size f \<le> cache_end f)"

lemma fix_end_sel [simp]:
  "head (fix_end CS f) = head f" "cache_start (fix_end CS f) = cache_start f" "file_size (fix_end CS f) = file_size f"
  by (simp_all add: fix_end_def)

lemma file_rep_weaken: "file_rep CS f d g C p \<Longrightarrow> (g \<Longrightarrow> g') \<Longrightarrow> file_rep CS f d g' C p"
  unfolding file_rep_def by blast

lemma write_invI: "file_rep CS f d g C p \<Longrightarrow> write_inv CS f d g C p"
  by (auto simp: write_inv_def file_rep_fix elim: file_repE)

lemma refill_rep:
  assumes w: "write_inv CS f d g C p"
  obtains f1 d1 s where "write_refill CS f d = Inr (0, f1, d1)" "write_inv CS f1 d1 (g \<or> length C \<le> p) C p"
    "cache_start f1 = int s" "head f1 = int p" "s \<le> p" "p < s + CS"
proof -
  have r: "file_rep CS (fix_end CS f) d g C p" using w by (simp add: write_inv_def)
  have CS: "0 < CS" using r by (simp add: file_rep_def)
  obtain s e where se: "cache_start f = int s" "head f = int p" "cache_end (fix_end CS f) = int e"
      "s \<le> p" "p \<le> e" "e \<le> s + CS" and ng: "\<not> g \<Longrightarrow> file_size f = int (length C)"
    using r by (rule file_repE) simp
  consider (room) "p \<noteq> s + CS" | (fetch) "p = s + CS" "int p < file_size f" | (flush) "p = s + CS" "\<not> int p < file_size f"
    by blast
  then show thesis
  proof cases
    case room
    have "write_inv CS f d (g \<or> length C \<le> p) C p"
      using w by (auto simp: write_inv_def intro: file_rep_weaken)
    then show thesis using se room by (intro that [of f d s]) (simp_all add: write_refill_def)
  next
    case fetch
    then have "\<not> cache_end f < head f" using w se by (auto simp: write_inv_def)
    then have id: "fix_end CS f = f" by (simp add: fix_end_id)
    obtain f1 d1 where f1: "io300_fetch CS f d = Inr (0, f1, d1)" "file_rep CS f1 d1 g C p" "cache_start f1 = int p"
      using fetch_rep r se fetch unfolding id by (metis le_antisym)
    have h1: "head f1 = int p" using f1(2) by (auto elim: file_repE)
    have "write_inv CS f1 d1 (g \<or> length C \<le> p) C p" 
      by (intro write_invI file_rep_weaken [OF f1(2)]) simp
    then show thesis using f1 se fetch CS h1 by (intro that [of f1 d1 p]) (simp_all add: write_refill_def)
  next
    case flush
    let ?f = "fix_end CS f"
    let ?f1 = "?f\<lparr>cache_start := int p, cache_end := int (p + CS), dirty := 0\<rparr>" and ?d1 = "(tick d)\<lparr>contents := C\<rparr>"
    have e: "cache_end ?f = int p" using se flush by simp
    have g: "g \<or> length C \<le> p" using ng flush by (cases g) auto
    have "write_refill CS f d = io300_flush CS ?f d"
      using se flush by (simp add: write_refill_def fix_end_def)
    then have "write_refill CS f d = Inr (0, ?f1, ?d1)" using flush_rep [OF r e] by simp
    moreover have "write_inv CS ?f1 ?d1 True C p" by (intro write_invI flushed_rep [OF r])
    ultimately show thesis using g se CS by (intro that [of ?f1 ?d1 p]) simp_all
  qed
qed

lemma write_loop_rep:
  assumes "write_inv CS f d g C p"
  shows "\<exists>f' d'. write_loop CS pos buff f d = Some (Inr (pos + int (length buff), f', d'))
           \<and> file_rep CS f' d' (g \<or> length C < p + length buff) (overlay C p buff) (p + length buff)"
  using assms
proof (induction "length buff" arbitrary: pos buff f d g C p rule: less_induct)
  case less
  note w = less.prems
  have pC: "p \<le> length C" using w file_rep_bound by (auto simp: write_inv_def)
  show ?case
  proof (cases "buff = []")
    case True
    then have "write_loop CS pos buff f d = Some (Inr (pos, fix_end CS f, d))"
      by (simp add: write_loop.simps fix_end_def)
    then show ?thesis using w True pC by (simp add: write_inv_def)
  next
    case False
    obtain f1 d1 s where f1: "write_refill CS f d = Inr (0, f1, d1)" "write_inv CS f1 d1 (g \<or> length C \<le> p) C p"
      "cache_start f1 = int s" "head f1 = int p" "s \<le> p" "p < s + CS"
      using refill_rep [OF w] by metis
    define n where "n = (if length buff < s + CS - p then length buff else s + CS - p)"
    let ?b = "take n buff" and ?r = "drop n buff"
    have n: "0 < n" "n \<le> length buff" "p + n \<le> s + CS" "length ?b = n" "?b \<noteq> []" using f1(6) False by (auto simp: n_def)
    have r1: "file_rep CS (fix_end CS f1) d1 (g \<or> length C \<le> p) C p" using f1(2) by (simp add: write_inv_def)
    have room: "p + length ?b \<le> s + CS" using n by simp
    note st = store_rep [OF r1 room f1(3) n(5), unfolded n(4)]
    define f2 where "f2 = f1\<lparr>cache := overlay (cache f1) (p - s) ?b, head := int (p + n), dirty := 1\<rparr>"
    have w2: "write_inv CS f2 d1 (g \<or> length C < p + n) (overlay C p ?b) (p + n)"
    proof -
      have "(g \<or> length C \<le> p) \<or> length C < p + n \<longleftrightarrow> g \<or> length C < p + n" using n(1) by auto
      then show ?thesis using st(1) f1(2) by (simp add: write_inv_def f2_def)
    qed
    have av: "nat (int CS - (int p - int s)) = s + CS - p" "int p - int s \<le> int CS" using f1(5,6) by auto
    have nn: "write_amount CS f1 (length buff) = n"
      using f1(3,4) av by (simp add: n_def write_amount_def)
    have run: "write_loop CS pos buff f d = write_loop CS (pos + int n) ?r f2 d1"
      using False st(2) f1 nn by (subst write_loop.simps) (simp add: f2_def)
    have "length ?r < length buff" using n by simp
    then obtain f' d' where res: "write_loop CS (pos + int n) ?r f2 d1 = Some (Inr (pos + int n + int (length ?r), f', d'))"
        "file_rep CS f' d' ((g \<or> length C < p + n) \<or> length (overlay C p ?b) < p + n + length ?r)
           (overlay (overlay C p ?b) (p + n) ?r) (p + n + length ?r)"
      using less.hyps [OF _ w2] by blast
    have C': "overlay (overlay C p ?b) (p + n) ?r = overlay C p buff"
      using overlay_append [OF pC, of ?b ?r] n(4) by simp
    have g': "(g \<or> length C < p + n) \<or> length (overlay C p ?b) < p + n + length ?r \<longleftrightarrow> g \<or> length C < p + length buff"
      using n pC by (auto simp: length_overlay)
    show ?thesis using res run n(2) unfolding C' g' by simp
  qed
qed

lemma read_rep:
  assumes r: "file_rep CS f d False C p"
  obtains f' d' where "io300_read CS f d sz = Inr (int (length (segment C p sz)), segment C p sz, f', d')"
    "file_rep CS f' d' False C (p + length (segment C p sz))"
proof -
  have "\<not> file_size f < head f" using r by (auto elim!: file_repE)
  then have "io300_read CS f d sz = read_loop CS sz [] f d"
    using file_rep_check [OF r] by (simp add: io300_read_def)
  with read_loop_rep [OF r, of sz "[]"] show thesis using that by auto
qed

lemma write_rep:
  assumes r: "file_rep CS f d g C p"
  obtains f' d' where "io300_write CS f d buff = Some (Inr (int (length buff), f', d'))"
    "file_rep CS f' d' (g \<or> length C < p + length buff) (overlay C p buff) (p + length buff)"
  using write_loop_rep [OF write_invI [OF r], of 0 buff] file_rep_check [OF r] that
  by (auto simp: io300_write_def)

section \<open>Seek, open and close\<close>

lemma clean_up:
  assumes r: "file_rep CS f d g C p"
  obtains f1 d1 where "(if dirty f \<noteq> 0 then io300_flush CS f d else Inr (0, f, d)) = Inr (0, f1, d1)"
    "contents d1 = C" "reliable d1" "0 < CS" "0 \<le> fd f1" "length (cache f1) = CS" "direction f1 = 1" "dirty f1 = 0"
    "file_size f1 = file_size f"
proof (cases "dirty f = 0")
  case True
  then show thesis using r by (intro that [of f d]) (auto simp: file_rep_def)
next
  case False
  obtain e where "cache_end f = int e" using r by (auto simp: file_rep_def)
  note fl = flush_rep [OF r this]
  have "0 < CS" "reliable d" "0 \<le> fd f" "length (cache f) = CS" "direction f = 1" using r by (simp_all add: file_rep_def)
  then show thesis using False fl
    by (intro that [of "f\<lparr>cache_start := int p, cache_end := int (e + CS), dirty := 0\<rparr>" "(tick d)\<lparr>contents := C\<rparr>"]) simp_all
qed

lemma seek_rep:
  assumes r: "file_rep CS f d g C p" and pos: "pos \<le> length C"
  obtains f' d' where "io300_seek CS f d (int pos) = Inr (to_int32 (int pos), f', d')" "file_rep CS f' d' g C pos"
proof -
  let ?init = "f\<lparr>stats := (stats f)\<lparr>seeks := seeks (stats f) + 1\<rparr>\<rparr>"
  have r0: "file_rep CS ?init d g C p" using r by (simp add: file_rep_def)
  obtain f1 d1 where f1: "(if dirty ?init \<noteq> 0 then io300_flush CS ?init d else Inr (0, ?init, d)) = Inr (0, f1, d1)"
    "contents d1 = C" "reliable d1" "0 < CS" "0 \<le> fd f1" "length (cache f1) = CS" "direction f1 = 1" "dirty f1 = 0"
    "file_size f1 = file_size f"
    using clean_up [OF r0] by auto
  have fs: "file_size f \<le> int (length C)" "\<not> g \<Longrightarrow> file_size f = int (length C)" using r by (auto elim!: file_repE)
  have chk: "check_invariants CS f = Inr ()" by (rule file_rep_check [OF r])
  let ?f2 = "f1\<lparr>head := int pos, cache_start := int pos, cache_end := int pos\<rparr>" and ?d2 = "(tick d1)\<lparr>offset := pos\<rparr>"
  show thesis
  proof (cases "int pos > file_size f")
    case True
    then have g using fs(2) pos by auto
    have run: "io300_seek CS f d (int pos) = Inr (to_int32 (int pos), ?f2\<lparr>file_size := int pos\<rparr>, ?d2)"
      using chk f1 True by (simp add: io300_seek_def sys_lseek_def)
    have "file_rep CS (?f2\<lparr>file_size := int pos\<rparr>) ?d2 g C pos"
      using f1 pos \<open>g\<close> by (intro file_repI [where s = pos and e = pos]) simp_all
    with run show thesis using that by blast
  next
    case False
    define m where "m = nat (seek_amount CS ?f2)"
    let ?b = "segment C pos m"
    let ?f3 = "?f2\<lparr>cache := ?b @ drop (length ?b) (cache f1), cache_end := int (pos + length ?b)\<rparr>"
    let ?d3 = "(tick ?d2)\<lparr>offset := pos + length ?b\<rparr>"
    have run: "io300_seek CS f d (int pos) = Inr (to_int32 (int pos), ?f3, ?d3)"
      using chk f1 False
      by (simp add: io300_seek_def sys_lseek_def sys_read_def m_def Let_def)
    have m: "m \<le> CS" "m < CS \<Longrightarrow> file_size f \<le> int (pos + m)"
      "\<not> g \<Longrightarrow> min m (length C - pos) = min CS (length C - pos)"
      using False fs f1(9) by (auto simp: m_def seek_amount_def)
    have "file_rep CS (f1\<lparr>cache := ?b @ drop (length ?b) (cache f1), head := int pos,
           cache_start := int pos, cache_end := int (pos + length ?b)\<rparr>) ?d3 g C pos"
      using f1 m fs pos by (intro refilled_rep) auto
    also have "f1\<lparr>cache := ?b @ drop (length ?b) (cache f1), head := int pos,
           cache_start := int pos, cache_end := int (pos + length ?b)\<rparr> = ?f3" by (cases f1) simp
    finally show thesis by (rule that [OF run])
  qed
qed

lemma close_rep:
  assumes r: "file_rep CS f d g C p"
  obtains d' where "io300_close CS f d = Inr (0, d')" "contents d' = C"
proof -
  obtain f1 d1 where "(if dirty f \<noteq> 0 then io300_flush CS f d else Inr (0, f, d)) = Inr (0, f1, d1)"
    "contents d1 = C" "reliable d1"
    using clean_up [OF r] by metis
  then show thesis using that [of "tick d1"] file_rep_check [OF r] by (simp add: io300_close_def)
qed

lemma open_rep:
  assumes "reliable d" "0 \<le> n" "0 < CS" "length bs = CS"
  obtains f' d' where "io300_open CS (Some path) desc (Some (n, d)) (Some junk) (Some bs) = Inr (Some (f', d'))"
    "file_rep CS f' d' False (contents d) 0"
proof -
  let ?init = "\<lparr>fd = n, cache = bs, dirty = 0, head = 0, cache_start = 0, cache_end = 0, file_size = 0,
                   direction = 1, description = desc, stats = junk\<rparr>"
  let ?C = "contents d" and ?sz = "int (length (contents d))"
  let ?b = "segment ?C 0 CS"
  let ?f = "(?init\<lparr>file_size := ?sz\<rparr>)\<lparr>cache := ?b @ drop (length ?b) (cache (?init\<lparr>file_size := ?sz\<rparr>)), head := int 0,
              cache_start := int 0, cache_end := int (0 + length ?b)\<rparr>"
  have chk: "check_invariants CS ?init = Inr ()" "check_invariants CS (?init\<lparr>file_size := x\<rparr>) = Inr ()" for x
    using assms by (simp_all add: check_invariants_def)
  have fz: "io300_filesize CS ?init d = Inr (?sz, ?init, tick d)"
    using chk(1) assms(1) by (simp add: io300_filesize_def sys_fstat_size_def) (simp add: reliable_def)
  have rep: "file_rep CS ?f (tick (tick d)) False ?C 0"
    using assms by (intro refilled_rep) simp_all
  have ft: "io300_fetch CS (?init\<lparr>file_size := ?sz\<rparr>) (tick d) = Inr (0, ?f, tick (tick d))"
    using chk(2) assms by (simp add: io300_fetch_def fetch_range_def sys_pread_def)
  show thesis using that [OF _ rep] file_rep_check [OF rep] fz ft by (simp add: io300_open_def Let_def)
qed

end
