(* ===== verification/Io300_Api.thy ===== *)
theory Io300_Api
  imports Io300_Ops
begin

text \<open>
  The interface of \<open>io300.h\<close> as an operation table and a contract on it. The contract is met by the
  uncached implementation without restriction and by the caching one as long as nothing is read
  after a write has extended the file; programs written against it are proved once.
\<close>

section \<open>Operation tables\<close>

text \<open>\<open>op_close\<close> also returns the bytes that the file holds afterwards.\<close>

record 's file_ops =
  op_readc :: "'s \<Rightarrow> (int \<times> 's) comp"
  op_writec :: "'s \<Rightarrow> int \<Rightarrow> (int \<times> 's) comp"
  op_read :: "'s \<Rightarrow> nat \<Rightarrow> (int \<times> u8 list \<times> 's) comp"
  op_write :: "'s \<Rightarrow> u8 list \<Rightarrow> (int \<times> 's) comp"
  op_seek :: "'s \<Rightarrow> int \<Rightarrow> (int \<times> 's) comp"
  op_filesize :: "'s \<Rightarrow> (int \<times> 's) comp"
  op_close :: "'s \<Rightarrow> (int \<times> u8 list) comp"

definition naive_ops :: "fdesc file_ops" where
  "naive_ops =
     \<lparr>op_readc = \<lambda>d. retIO (naive_readc d),
      op_writec = \<lambda>d ch. retIO (naive_writec d ch),
      op_read = \<lambda>d n. retIO (naive_read d n),
      op_write = \<lambda>d bs. retIO (naive_write d bs),
      op_seek = \<lambda>d pos. retIO (naive_seek d pos),
      op_filesize = \<lambda>d. retIO (naive_filesize d),
      op_close = \<lambda>d. retIO (case naive_close d of (r, d1) \<Rightarrow> (r, contents d1))\<rparr>"

definition student_ops :: "nat \<Rightarrow> (io300_file \<times> fdesc) file_ops" where
  "student_ops CS =
     \<lparr>op_readc = \<lambda>(f, d). Some (io300_readc CS f d),
      op_writec = \<lambda>(f, d) ch. Some (io300_writec CS f d ch),
      op_read = \<lambda>(f, d) n. Some (io300_read CS f d n),
      op_write = \<lambda>(f, d) bs. io300_write CS f d bs,
      op_seek = \<lambda>(f, d) pos. Some (io300_seek CS f d pos),
      op_filesize = \<lambda>(f, d). Some (io300_filesize CS f d),
      op_close = \<lambda>(f, d). Some (bindE (io300_close CS f d) (\<lambda>(r, d1). Inr (r, contents d1)))\<rparr>"

section \<open>Contract\<close>

text \<open>
  \<open>rep s grown C p\<close>: the open file \<open>s\<close> has the bytes \<open>C\<close> and the position \<open>p\<close>; \<open>grown\<close> tells that it
  has been extended since it was opened.
\<close>

locale file_api =
  fixes ops :: "'s file_ops" and rep :: "'s \<Rightarrow> bool \<Rightarrow> u8 list \<Rightarrow> nat \<Rightarrow> bool"
  assumes readc_ok: "rep s False C p \<Longrightarrow>
      \<exists>s'. op_readc ops s = retIO (if p < length C then uint (C ! p) else - 1, s')
         \<and> rep s' False C (if p < length C then p + 1 else p)"
    and writec_ok: "rep s g C p \<Longrightarrow>
      \<exists>s'. op_writec ops s ch = retIO (ch, s') \<and> rep s' (g \<or> length C = p) (overlay C p [word_of_int ch]) (p + 1)"
    and read_ok: "rep s False C p \<Longrightarrow>
      \<exists>s'. op_read ops s n = retIO (int (length (segment C p n)), segment C p n, s')
         \<and> rep s' False C (p + length (segment C p n))"
    and write_ok: "rep s g C p \<Longrightarrow>
      \<exists>s'. op_write ops s bs = retIO (int (length bs), s')
         \<and> rep s' (g \<or> length C < p + length bs) (overlay C p bs) (p + length bs)"
    and seek_ok: "rep s g C p \<Longrightarrow> pos \<le> length C \<Longrightarrow>
      \<exists>s'. op_seek ops s (int pos) = retIO (to_int32 (int pos), s') \<and> rep s' g C pos"
    and filesize_ok: "rep s False C p \<Longrightarrow>
      \<exists>s'. op_filesize ops s = retIO (int (length C), s') \<and> rep s' False C p"
    and close_ok: "rep s g C p \<Longrightarrow> op_close ops s = retIO (0, C)"
    and pos_ok: "rep s g C p \<Longrightarrow> p \<le> length C"

section \<open>Sequences of operations\<close>

text \<open>The operations of the interface on an open file, but for an explicit \<open>flush\<close>.\<close>

datatype io_op = Op_readc | Op_writec int | Op_read nat | Op_write "u8 list" | Op_seek nat | Op_filesize

fun op_step :: "'s file_ops \<Rightarrow> io_op \<Rightarrow> 's \<Rightarrow> ((int \<times> u8 list) \<times> 's) comp" where
  "op_step ops Op_readc s = bindIO (op_readc ops s) (\<lambda>(r, s'). retIO ((r, []), s'))"
| "op_step ops (Op_writec ch) s = bindIO (op_writec ops s ch) (\<lambda>(r, s'). retIO ((r, []), s'))"
| "op_step ops (Op_read n) s = bindIO (op_read ops s n) (\<lambda>(r, bs, s'). retIO ((r, bs), s'))"
| "op_step ops (Op_write bs) s = bindIO (op_write ops s bs) (\<lambda>(r, s'). retIO ((r, []), s'))"
| "op_step ops (Op_seek pos) s = bindIO (op_seek ops s (int pos)) (\<lambda>(r, s'). retIO ((r, []), s'))"
| "op_step ops Op_filesize s = bindIO (op_filesize ops s) (\<lambda>(r, s'). retIO ((r, []), s'))"

text \<open>The results of a sequence of operations, and the bytes of the file after closing it.\<close>

primrec op_run :: "'s file_ops \<Rightarrow> io_op list \<Rightarrow> 's \<Rightarrow> ((int \<times> u8 list) list \<times> u8 list) comp" where
  "op_run ops [] s = bindIO (op_close ops s) (\<lambda>(r, bs). retIO ([], bs))"
| "op_run ops (x # xs) s =
     bindIO (op_step ops x s) (\<lambda>(r, s'). bindIO (op_run ops xs s') (\<lambda>(rs, bs). retIO (r # rs, bs)))"

text \<open>What a file is, and which operations the contract covers.\<close>

type_synonym file_state = "bool \<times> u8 list \<times> nat"

fun spec_step :: "io_op \<Rightarrow> file_state \<Rightarrow> (int \<times> u8 list) \<times> file_state" where
  "spec_step Op_readc (g, C, p) =
     (if p < length C then ((uint (C ! p), []), (g, C, p + 1)) else ((- 1, []), (g, C, p)))"
| "spec_step (Op_writec ch) (g, C, p) = ((ch, []), (g \<or> length C = p, overlay C p [word_of_int ch], p + 1))"
| "spec_step (Op_read n) (g, C, p) =
     ((int (length (segment C p n)), segment C p n), (g, C, p + length (segment C p n)))"
| "spec_step (Op_write bs) (g, C, p) =
     ((int (length bs), []), (g \<or> length C < p + length bs, overlay C p bs, p + length bs))"
| "spec_step (Op_seek pos) (g, C, p) = ((to_int32 (int pos), []), (g, C, pos))"
| "spec_step Op_filesize (g, C, p) = ((int (length C), []), (g, C, p))"

fun covered :: "io_op \<Rightarrow> file_state \<Rightarrow> bool" where
  "covered Op_readc (g, C, p) \<longleftrightarrow> \<not> g"
| "covered (Op_writec ch) (g, C, p) \<longleftrightarrow> True"
| "covered (Op_read n) (g, C, p) \<longleftrightarrow> \<not> g"
| "covered (Op_write bs) (g, C, p) \<longleftrightarrow> True"
| "covered (Op_seek pos) (g, C, p) \<longleftrightarrow> pos \<le> length C"
| "covered Op_filesize (g, C, p) \<longleftrightarrow> \<not> g"

primrec spec_run :: "io_op list \<Rightarrow> file_state \<Rightarrow> (int \<times> u8 list) list \<times> u8 list" where
  "spec_run [] st = ([], fst (snd st))"
| "spec_run (x # xs) st =
     (let (r, st') = spec_step x st; (rs, bs) = spec_run xs st' in (r # rs, bs))"

primrec all_covered :: "io_op list \<Rightarrow> file_state \<Rightarrow> bool" where
  "all_covered [] st \<longleftrightarrow> True"
| "all_covered (x # xs) st \<longleftrightarrow> covered x st \<and> all_covered xs (snd (spec_step x st))"

context file_api
begin

lemma step_spec:
  assumes "rep s g C p" "covered x (g, C, p)"
  shows "\<exists>s' r g' C' p'. op_step ops x s = retIO (r, s') \<and> spec_step x (g, C, p) = (r, (g', C', p')) \<and> rep s' g' C' p'"
proof (cases x)
  case Op_readc
  then have "\<not> g" using assms(2) by simp
  with Op_readc readc_ok [of s C p] assms(1) show ?thesis by (cases "p < length C") auto
next
  case (Op_writec ch)
  then show ?thesis using writec_ok [OF assms(1), of ch] by auto
next
  case (Op_read n)
  then have "\<not> g" using assms(2) by simp
  with Op_read read_ok [of s C p n] assms(1) show ?thesis by auto
next
  case (Op_write bs)
  then show ?thesis using write_ok [OF assms(1), of bs] by auto
next
  case (Op_seek pos)
  then show ?thesis using seek_ok [OF assms(1), of pos] assms(2) by auto
next
  case Op_filesize
  then have "\<not> g" using assms(2) by simp
  with Op_filesize filesize_ok [of s C p] assms(1) show ?thesis by auto
qed

lemma run_spec:
  "rep s g C p \<Longrightarrow> all_covered xs (g, C, p) \<Longrightarrow> op_run ops xs s = retIO (spec_run xs (g, C, p))"
proof (induction xs arbitrary: s g C p)
  case Nil
  then show ?case by (simp add: close_ok)
next
  case (Cons x xs)
  obtain s' r g' C' p' where x: "op_step ops x s = retIO (r, s')" "spec_step x (g, C, p) = (r, (g', C', p'))" "rep s' g' C' p'"
    using step_spec [OF Cons.prems(1), of x] Cons.prems(2) by auto
  then have "op_run ops xs s' = retIO (spec_run xs (g', C', p'))" using Cons by simp
  with x show ?case by (simp split: prod.split)
qed

end

section \<open>The two implementations\<close>

definition naive_rep :: "fdesc \<Rightarrow> bool \<Rightarrow> u8 list \<Rightarrow> nat \<Rightarrow> bool" where
  "naive_rep d g C p \<longleftrightarrow> reliable d \<and> contents d = C \<and> offset d = p \<and> p \<le> length C"

definition student_rep :: "nat \<Rightarrow> io300_file \<times> fdesc \<Rightarrow> bool \<Rightarrow> u8 list \<Rightarrow> nat \<Rightarrow> bool" where
  "student_rep CS s g C p \<longleftrightarrow> file_rep CS (fst s) (snd s) g C p"

lemma segment_1: "segment C p (Suc 0) = (if p < length C then [C ! p] else [])"
  by (simp add: segment_def take_Suc hd_drop_conv_nth)

lemma length_segment_le: "p \<le> length C \<Longrightarrow> p + length (segment C p n) \<le> length C"
  by simp

lemma length_overlay_ge: "p \<le> length C \<Longrightarrow> p + length bs \<le> length (overlay C p bs)"
  by (simp add: length_overlay)

interpretation nv: file_api naive_ops naive_rep
proof (unfold_locales, goal_cases)
  case (1 s C p)
  then show ?case
    by (auto simp: naive_ops_def naive_rep_def naive_readc_def sys_read_def segment_1 Let_def intro!: exI [of _ "(tick s)\<lparr>offset := x\<rparr>" for x])
next
  case (2 s g C p ch)
  then show ?case
    using length_overlay_ge [of p C "[word_of_int ch]"] by (simp add: naive_ops_def naive_rep_def naive_writec_def sys_write_def)
next
  case (3 s C p n)
  then show ?case
    using length_segment_le [of p C n] by (simp add: naive_ops_def naive_rep_def naive_read_def sys_read_def Let_def)
next
  case (4 s g C p bs)
  then show ?case
    using length_overlay_ge [of p C bs] by (simp add: naive_ops_def naive_rep_def naive_write_def sys_write_def)
next
  case (5 s g C p pos)
  then show ?case by (simp add: naive_ops_def naive_rep_def naive_seek_def sys_lseek_def)
next
  case (6 s C p)
  then show ?case
    by (simp add: naive_ops_def naive_rep_def naive_filesize_def sys_fstat_size_def) (simp add: reliable_def)
next
  case (7 s g C p)
  then show ?case by (simp add: naive_ops_def naive_rep_def naive_close_def naive_flush_def)
next
  case (8 s g C p)
  then show ?case by (simp add: naive_rep_def)
qed

lemma student_repE:
  assumes "student_rep CS s g C p"
  obtains f d where "s = (f, d)" "file_rep CS f d g C p"
  using assms by (cases s) (simp add: student_rep_def)

lemma student_repI: "file_rep CS f d g C p \<Longrightarrow> student_rep CS (f, d) g C p"
  by (simp add: student_rep_def)

lemma student_file_api: "file_api (student_ops CS) (student_rep CS)"
proof (unfold_locales, goal_cases)
  case (1 s C p)
  then show ?case by (elim student_repE) (erule readc_rep, auto simp: student_ops_def intro: student_repI)
next
  case (2 s g C p ch)
  then show ?case by (elim student_repE) (erule writec_rep [where ch = ch], auto simp: student_ops_def intro: student_repI)
next
  case (3 s C p n)
  then show ?case by (elim student_repE) (erule read_rep [where sz = n], auto simp: student_ops_def intro: student_repI)
next
  case (4 s g C p bs)
  then show ?case by (elim student_repE) (erule write_rep [where buff = bs], auto simp: student_ops_def intro: student_repI)
next
  case (5 s g C p pos)
  then show ?case by (elim student_repE) (erule seek_rep [OF _ 5(2)], auto simp: student_ops_def intro: student_repI)
next
  case (6 s C p)
  then obtain f d where s: "s = (f, d)" "file_rep CS f d False C p" by (rule student_repE)
  then have "length (contents d) = length C" by (auto elim: file_repE)
  moreover have "file_rep CS f (tick d) False C p" using s(2) by (simp add: file_rep_def)
  ultimately show ?case using filesize_rep [OF s(2)] s(1) by (auto simp: student_ops_def intro: student_repI)
next
  case (7 s g C p)
  then show ?case by (elim student_repE) (erule close_rep, simp add: student_ops_def)
next
  case (8 s g C p)
  then show ?case by (elim student_repE) (rule file_rep_bound)
qed

interpretation st: file_api "student_ops CS" "student_rep CS" for CS
  by (rule student_file_api)

section \<open>Properties\<close>

text \<open>C27: A file opened by the caching implementation behaves like the file itself. For every sequence
  of \<open>readc\<close>, \<open>writec\<close>, \<open>read\<close>, \<open>write\<close>, \<open>seek\<close> and \<open>filesize\<close>, with \<open>close\<close> at its end, in which no seek goes past the end of the file and
  nothing is read and the size is not asked for after a write has extended it, each operation returns what the uncached implementation returns, and after
  closing both leave the same bytes in the file; this holds for every positive cache size, whatever
  the fresh cache memory held. An explicit \<open>flush\<close> by the caller is not one of the operations: after it the caching
  implementation is not usable in general (\<open>flush_writes_back\<close>).\<close>

theorem student_equals_naive:
  assumes "reliable d" "offset d = 0" "0 < CS" "0 \<le> n" "length junk = CS" "all_covered xs (False, contents d, 0)"
  shows "\<exists>f d'. io300_open CS (Some path) desc (Some (n, d)) (Some st) (Some junk) = Inr (Some (f, d'))
    \<and> op_run (student_ops CS) xs (f, d') = op_run naive_ops xs d
    \<and> op_run naive_ops xs d = Some (Inr (spec_run xs (False, contents d, 0)))"
proof -
  obtain f d' where o: "io300_open CS (Some path) desc (Some (n, d)) (Some st) (Some junk) = Inr (Some (f, d'))"
    "file_rep CS f d' False (contents d) 0"
    using open_rep [OF assms(1,4,3,5)] by blast
  have "naive_rep d False (contents d) 0" using assms(1,2) by (simp add: naive_rep_def)
  from nv.run_spec [OF this assms(6)] st.run_spec [OF student_repI [OF o(2)] assms(6)] o(1) show ?thesis by auto
qed

definition sample_fdesc :: "u8 list \<Rightarrow> fdesc" where
  "sample_fdesc bs = \<lparr>contents = bs, offset = 0, regular = True, fails = \<lambda>_. False, calls = 0\<rparr>"

theorem student_equals_naive_witness:
  "\<exists>f d'. io300_open 4 (Some ''a'') ''in'' (Some (3, sample_fdesc [1, 2, 3, 4, 5, 6]))
       (Some \<lparr>read_calls = 0, write_calls = 0, seeks = 0\<rparr>) (Some [9, 9, 9, 9]) = Inr (Some (f, d'))
    \<and> op_run (student_ops 4) [Op_read 5, Op_filesize, Op_seek 1, Op_writec 7, Op_readc, Op_write [8, 8, 8, 8]] (f, d')
      = Some (Inr ([(5, [1, 2, 3, 4, 5]), (6, []), (1, []), (7, []), (3, []), (4, [])], [1, 7, 3, 8, 8, 8, 8]))"
proof -
  have a: "reliable (sample_fdesc [1, 2, 3, 4, 5, 6])" "offset (sample_fdesc [1, 2, 3, 4, 5, 6]) = 0"
    "contents (sample_fdesc [1, 2, 3, 4, 5, 6]) = [1, 2, 3, 4, 5, 6]"
    by (simp_all add: sample_fdesc_def reliable_def)
  have v: "all_covered [Op_read 5, Op_filesize, Op_seek 1, Op_writec 7, Op_readc, Op_write [8, 8, 8, 8]] (False, [1, 2, 3, 4, 5, 6], 0)"
    "spec_run [Op_read 5, Op_filesize, Op_seek 1, Op_writec 7, Op_readc, Op_write [8, 8, 8, 8]] (False, [1, 2, 3, 4, 5, 6], 0)
      = ([(5, [1, 2, 3, 4, 5]), (6, []), (1, []), (7, []), (3, []), (4, [])], [1, 7, 3, 8, 8, 8, 8])"
    by code_simp+
  show ?thesis
    using student_equals_naive [OF a(1,2), of 4 3 "[9, 9, 9, 9]" "[Op_read 5, Op_filesize, Op_seek 1, Op_writec 7, Op_readc, Op_write [8, 8, 8, 8]]"
      "''a''" "''in''" "\<lparr>read_calls = 0, write_calls = 0, seeks = 0\<rparr>"] v a(3) by auto
qed

end
