(* ===== verification/Io300_Clients.thy ===== *)
theory Io300_Clients
  imports Io300_Api
begin

text \<open>
  The programs of \<open>fileio/test_programs\<close>, written against the operation table of the file interface.
  A program takes the outcomes of its calls of \<open>io300_open\<close> and \<open>malloc\<close> and returns its exit status
  with the bytes of the files it closed, in the order of closing. They are proved for every
  implementation that meets the contract, and so for both.
\<close>

type_synonym outcome = "int \<times> u8 list list"

text \<open>Closing files in order and returning a status.\<close>

primrec close_all :: "'s file_ops \<Rightarrow> int \<Rightarrow> 's list \<Rightarrow> outcome comp" where
  "close_all ops status [] = retIO (status, [])"
| "close_all ops status (s # ss) =
     bindIO (op_close ops s) (\<lambda>(r, bs). bindIO (close_all ops status ss) (\<lambda>(st, bss). retIO (st, bs # bss)))"

text \<open>\<open>i++\<close> on a variable of type \<open>int\<close>.\<close>

definition int_succ :: "int \<Rightarrow> int comp" where
  "int_succ i = (if i = INT_MAX then Some (Inl Signed_overflow) else retIO (i + 1))"

text \<open>The remainder of C, with the sign of the dividend.\<close>

definition c_mod :: "int \<Rightarrow> int \<Rightarrow> int" where
  "c_mod a b = (if a < 0 then - ((- a) mod \<bar>b\<bar>) else a mod \<bar>b\<bar>)"

section \<open>byte_cat and diabolical_byte_cat\<close>

primrec byte_cat_loop :: "'s file_ops \<Rightarrow> nat \<Rightarrow> int \<Rightarrow> 's \<Rightarrow> 's \<Rightarrow> (int \<times> 's \<times> 's) comp" where
  "byte_cat_loop ops 0 i fin fout = retIO (0, fin, fout)"
| "byte_cat_loop ops (Suc n) i fin fout =
     bindIO (op_readc ops fin) (\<lambda>(ch, fin1).
     if ch = - 1 then retIO (1, fin1, fout)
     else bindIO (op_writec ops fout ch) (\<lambda>(r, fout1).
       if r = - 1 then retIO (1, fin1, fout1)
       else bindIO (int_succ i) (\<lambda>i'. byte_cat_loop ops n i' fin1 fout1)))"

definition byte_cat_main :: "'s file_ops \<Rightarrow> nat \<Rightarrow> 's option \<Rightarrow> 's option \<Rightarrow> outcome comp" where
  "byte_cat_main ops argc in_file out_file =
     (if argc \<noteq> 3 then retIO (1, [])
      else case in_file of None \<Rightarrow> retIO (1, [])
      | Some fin \<Rightarrow> case out_file of None \<Rightarrow> close_all ops 1 [fin]
      | Some fout \<Rightarrow>
          bindIO (op_filesize ops fin) (\<lambda>(filesize, fin1).
          if filesize \<le> 0 then close_all ops 1 [fin1, fout]
          else bindIO (byte_cat_loop ops (nat filesize) 0 fin1 fout) (\<lambda>(status, fin2, fout2).
            close_all ops status [fin2, fout2])))"

text \<open>Ten pairs of superfluous seeks; the first component tells whether one of them failed.\<close>

primrec diabolical_seeks :: "'s file_ops \<Rightarrow> int \<Rightarrow> nat \<Rightarrow> 's \<Rightarrow> (bool \<times> 's) comp" where
  "diabolical_seeks ops filesize 0 fin = retIO (False, fin)"
| "diabolical_seeks ops filesize (Suc j) fin =
     bindIO (op_seek ops fin 0) (\<lambda>(r, fin1).
     if r = - 1 then retIO (True, fin1)
     else bindIO (op_seek ops fin1 (filesize - 1)) (\<lambda>(r, fin2).
       if r = - 1 then retIO (True, fin2) else diabolical_seeks ops filesize j fin2))"

primrec diabolical_loop :: "'s file_ops \<Rightarrow> int \<Rightarrow> nat \<Rightarrow> int \<Rightarrow> 's \<Rightarrow> 's \<Rightarrow> (int \<times> 's \<times> 's) comp" where
  "diabolical_loop ops filesize 0 i fin fout = retIO (0, fin, fout)"
| "diabolical_loop ops filesize (Suc n) i fin fout =
     bindIO (op_readc ops fin) (\<lambda>(ch, fin1).
     if ch = - 1 then retIO (1, fin1, fout)
     else bindIO (diabolical_seeks ops filesize 10 fin1) (\<lambda>(failed, fin2).
       if failed then retIO (1, fin2, fout)
       else bindIO (int_succ i) (\<lambda>i'. bindIO (op_seek ops fin2 i') (\<lambda>(r, fin3).
         if r = - 1 then retIO (1, fin3, fout)
         else bindIO (op_writec ops fout ch) (\<lambda>(r, fout1).
           if r = - 1 then retIO (1, fin3, fout1) else diabolical_loop ops filesize n i' fin3 fout1)))))"

definition diabolical_main :: "'s file_ops \<Rightarrow> nat \<Rightarrow> 's option \<Rightarrow> 's option \<Rightarrow> outcome comp" where
  "diabolical_main ops argc in_file out_file =
     (if argc \<noteq> 3 then retIO (1, [])
      else case in_file of None \<Rightarrow> retIO (1, [])
      | Some fin \<Rightarrow> case out_file of None \<Rightarrow> close_all ops 1 [fin]
      | Some fout \<Rightarrow>
          bindIO (op_filesize ops fin) (\<lambda>(filesize, fin1).
          if filesize \<le> 0 then close_all ops 1 [fin1, fout]
          else bindIO (diabolical_loop ops filesize (nat filesize) 0 fin1 fout) (\<lambda>(status, fin2, fout2).
            close_all ops status [fin2, fout2])))"

section \<open>rot13\<close>

definition rot13 :: "u8 \<Rightarrow> u8" where
  "rot13 ch =
     (if ch \<ge> 65 \<and> ch \<le> 90 then word_of_int (65 + ((uint ch - 65) + 13) mod 26)
      else if ch \<ge> 97 \<and> ch \<le> 122 then word_of_int (97 + ((uint ch - 97) + 13) mod 26)
      else ch)"

primrec rot13_loop :: "'s file_ops \<Rightarrow> nat \<Rightarrow> int \<Rightarrow> 's \<Rightarrow> (int \<times> 's) comp" where
  "rot13_loop ops 0 i f = retIO (0, f)"
| "rot13_loop ops (Suc n) i f =
     bindIO (op_seek ops f i) (\<lambda>(r, f1).
     if r = - 1 then retIO (1, f1)
     else bindIO (op_readc ops f1) (\<lambda>(ch, f2).
       if ch = - 1 then retIO (1, f2)
       else bindIO (op_seek ops f2 i) (\<lambda>(r, f3).
         if r = - 1 then retIO (1, f3)
         else bindIO (op_writec ops f3 (uint (rot13 (word_of_int ch)))) (\<lambda>(r, f4).
           if r = - 1 then retIO (1, f4)
           else bindIO (int_succ i) (\<lambda>i'. rot13_loop ops n i' f4)))))"

definition rot13_main :: "'s file_ops \<Rightarrow> nat \<Rightarrow> 's option \<Rightarrow> outcome comp" where
  "rot13_main ops argc in_file =
     (if argc \<noteq> 2 then retIO (1, [])
      else case in_file of None \<Rightarrow> retIO (1, [])
      | Some f \<Rightarrow>
          bindIO (op_filesize ops f) (\<lambda>(filesize, f1).
          if filesize = - 1 then close_all ops 1 [f1]
          else bindIO (rot13_loop ops (nat filesize) 0 f1) (\<lambda>(status, f2). close_all ops status [f2])))"

section \<open>reverse_byte_cat\<close>

text \<open>\<open>n\<close> is \<open>i + 1\<close>: the loop runs down from \<open>filesize - 1\<close>, converted to \<open>int\<close>.\<close>

primrec reverse_byte_loop :: "'s file_ops \<Rightarrow> nat \<Rightarrow> 's \<Rightarrow> 's \<Rightarrow> (int \<times> 's \<times> 's) comp" where
  "reverse_byte_loop ops 0 fin fout = retIO (0, fin, fout)"
| "reverse_byte_loop ops (Suc n) fin fout =
     bindIO (op_seek ops fin (int n)) (\<lambda>(r, fin1).
     if r = - 1 then retIO (1, fin1, fout)
     else bindIO (op_readc ops fin1) (\<lambda>(ch, fin2).
       if ch = - 1 then retIO (1, fin2, fout)
       else bindIO (op_writec ops fout ch) (\<lambda>(r, fout1).
         if r = - 1 then retIO (1, fin2, fout1) else reverse_byte_loop ops n fin2 fout1)))"

definition reverse_byte_cat_main :: "'s file_ops \<Rightarrow> nat \<Rightarrow> 's option \<Rightarrow> 's option \<Rightarrow> outcome comp" where
  "reverse_byte_cat_main ops argc in_file out_file =
     (if argc \<noteq> 3 then retIO (1, [])
      else case in_file of None \<Rightarrow> retIO (1, [])
      | Some fin \<Rightarrow> case out_file of None \<Rightarrow> close_all ops 1 [fin]
      | Some fout \<Rightarrow>
          bindIO (op_filesize ops fin) (\<lambda>(filesize, fin1).
          if filesize \<le> 0 then retIO (1, [])
          else bindIO (reverse_byte_loop ops (nat (to_int32 (filesize - 1) + 1)) fin1 fout)
            (\<lambda>(status, fin2, fout2). close_all ops status [fin2, fout2])))"

section \<open>block_cat, random_block_cat and reverse_block_cat\<close>

text \<open>
  The loop of \<open>block_cat\<close> and of \<open>random_block_cat\<close>; \<open>sizes k\<close> is the size of the \<open>k\<close>-th request. An
  \<open>int\<close> that is passed as a \<open>size_t\<close> is taken modulo \<open>2 ^ 64\<close>.
\<close>

definition to_size :: "int \<Rightarrow> nat" where
  "to_size n = nat (n mod 2 ^ 64)"

partial_function (option) block_loop ::
    "'s file_ops \<Rightarrow> (nat \<Rightarrow> nat) \<Rightarrow> nat \<Rightarrow> int \<Rightarrow> 's \<Rightarrow> 's \<Rightarrow> (int \<times> 's \<times> 's) comp" where
  "block_loop ops sizes k status fin fout =
     bindIO (op_read ops fin (sizes k)) (\<lambda>(r, bs, fin1).
     if r = 0 \<or> r = - 1 then Some (Inr (status, fin1, fout))
     else bindIO (op_write ops fout (take (nat r) bs)) (\<lambda>(w, fout1).
       block_loop ops sizes (Suc k) (if w = - 1 then 1 else status) fin1 fout1))"

definition block_cat_main ::
    "'s file_ops \<Rightarrow> nat \<Rightarrow> int \<Rightarrow> 's option \<Rightarrow> 's option \<Rightarrow> bool \<Rightarrow> outcome comp" where
  "block_cat_main ops argc buffer_size in_file out_file allocated =
     (if argc \<noteq> 4 then retIO (1, [])
      else case in_file of None \<Rightarrow> retIO (1, [])
      | Some fin \<Rightarrow> case out_file of None \<Rightarrow> close_all ops 1 [fin]
      | Some fout \<Rightarrow>
          if \<not> allocated then close_all ops 1 [fin, fout]
          else bindIO (block_loop ops (\<lambda>_. to_size buffer_size) 0 0 fin fout) (\<lambda>(status, fin2, fout2).
            close_all ops status [fin2, fout2]))"

text \<open>\<open>rands k\<close> is the result of the \<open>k\<close>-th call of the C library's \<open>rand\<close> after \<open>srand (11)\<close>.\<close>

definition random_block_cat_main ::
    "'s file_ops \<Rightarrow> (nat \<Rightarrow> nat) \<Rightarrow> nat \<Rightarrow> 's option \<Rightarrow> 's option \<Rightarrow> bool \<Rightarrow> outcome comp" where
  "random_block_cat_main ops rands argc in_file out_file allocated =
     (if argc \<noteq> 3 then retIO (1, [])
      else case in_file of None \<Rightarrow> retIO (1, [])
      | Some fin \<Rightarrow> case out_file of None \<Rightarrow> close_all ops 1 [fin]
      | Some fout \<Rightarrow>
          if \<not> allocated then close_all ops 1 [fin, fout]
          else bindIO (op_filesize ops fin) (\<lambda>(filesize, fin1).
            if filesize \<le> 0 then close_all ops 1 [fin1, fout]
            else bindIO (block_loop ops (\<lambda>k. rands k mod 30 + 1) 0 0 fin1 fout) (\<lambda>(status, fin2, fout2).
              close_all ops status [fin2, fout2])))"

text \<open>The blocks are visited from the last one to the first, down from the offset \<open>i\<close>.\<close>

partial_function (option) reverse_block_loop ::
    "'s file_ops \<Rightarrow> int \<Rightarrow> int \<Rightarrow> 's \<Rightarrow> 's \<Rightarrow> (int \<times> 's \<times> 's) comp" where
  "reverse_block_loop ops b i fin fout =
     (if i < 0 then Some (Inr (0, fin, fout))
      else bindIO (op_seek ops fin i) (\<lambda>(r, fin1).
        if r = - 1 then Some (Inr (1, fin1, fout))
        else bindIO (op_read ops fin1 (to_size b)) (\<lambda>(r, bs, fin2).
          if to_int32 r = - 1 then Some (Inr (0, fin2, fout))
          else bindIO (op_write ops fout (rev (take (nat (to_int32 r)) bs))) (\<lambda>(w, fout1).
            if w = - 1 then Some (Inr (1, fin2, fout1))
            else if i - b > INT_MAX then Some (Inl Signed_overflow)
            else reverse_block_loop ops b (i - b) fin2 fout1))))"

definition reverse_block_cat_main ::
    "'s file_ops \<Rightarrow> nat \<Rightarrow> int \<Rightarrow> 's option \<Rightarrow> 's option \<Rightarrow> bool \<Rightarrow> bool \<Rightarrow> outcome comp" where
  "reverse_block_cat_main ops argc buffer_size in_file out_file allocated_in allocated_out =
     (if argc \<noteq> 4 then retIO (1, [])
      else if buffer_size = 0 then retIO (1, [])
      else case in_file of None \<Rightarrow> retIO (1, [])
      | Some fin \<Rightarrow> case out_file of None \<Rightarrow> close_all ops 1 [fin]
      | Some fout \<Rightarrow>
          bindIO (op_filesize ops fin) (\<lambda>(filesize, fin1).
          if filesize \<le> 0 then close_all ops 1 [fin1, fout]
          else if \<not> allocated_in then close_all ops 1 [fin1, fout]
          else if \<not> allocated_out then close_all ops 1 [fin1, fout]
          else bindIO (reverse_block_loop ops buffer_size
                (to_int32 (filesize - c_mod filesize buffer_size)) fin1 fout)
            (\<lambda>(status, fin2, fout2). close_all ops status [fin2, fout2])))"

section \<open>stride_cat\<close>

text \<open>Sizes are 64-bit unsigned; \<open>io300_seek\<close> takes the position as a signed \<open>off_t\<close>.\<close>

partial_function (option) stride_loop ::
    "'s file_ops \<Rightarrow> u64 \<Rightarrow> u64 \<Rightarrow> u64 \<Rightarrow> u64 \<Rightarrow> u64 \<Rightarrow> 's \<Rightarrow> 's \<Rightarrow> (int \<times> 's \<times> 's) comp" where
  "stride_loop ops input_size stride block_size pos written fin fout =
     (if written < input_size then
        bindIO (op_read ops fin (unat block_size)) (\<lambda>(amount, bs, fin1).
        if amount \<le> 0 then Some (Inr (0, fin1, fout))
        else bindIO (op_write ops fout (take (nat amount) bs)) (\<lambda>(w, fout1).
          let pos1 = pos + stride in
          if pos1 \<ge> input_size \<and> stride = 0 then Some (Inl Div_zero)
          else let pos2 = (if pos1 \<ge> input_size then pos1 mod stride + block_size else pos1);
                   block_size' = (if pos1 \<ge> input_size \<and> pos2 + block_size > stride then stride - pos2 else block_size)
               in bindIO (op_seek ops fin1 (sint pos2)) (\<lambda>(r, fin2).
                  if r = - 1 then Some (Inr (1, fin2, fout1))
                  else stride_loop ops input_size stride block_size' pos2 (written + word_of_int amount) fin2 fout1)))
      else Some (Inr (0, fin, fout)))"

definition stride_cat_main ::
    "'s file_ops \<Rightarrow> nat \<Rightarrow> int \<Rightarrow> int \<Rightarrow> 's option \<Rightarrow> 's option \<Rightarrow> outcome comp" where
  "stride_cat_main ops argc block_size stride in_file out_file =
     (if argc \<noteq> 5 then retIO (1, [])
      else case in_file of None \<Rightarrow> Some (Inl Assert_fail)
      | Some fin \<Rightarrow>
          bindIO (op_filesize ops fin) (\<lambda>(input_size, fin1).
          if input_size < 0 then retIO (1, [])
          else bindIO (op_seek ops fin1 0) (\<lambda>(r, fin2).
            if r < 0 then retIO (1, [])
            else case out_file of None \<Rightarrow> Some (Inl Assert_fail)
              | Some fout \<Rightarrow>
                bindIO (stride_loop ops (word_of_int input_size) (word_of_int stride) (word_of_int block_size) 0 0 fin2 fout)
                  (\<lambda>(status, fin3, fout3). close_all ops status [fin3, fout3]))))"

section \<open>Correctness against the contract\<close>

lemma int_succ_small: "i < INT_MAX \<Longrightarrow> int_succ i = retIO (i + 1)"
  by (simp add: int_succ_def)

lemma to_int32_small: "0 \<le> i \<Longrightarrow> i \<le> INT_MAX \<Longrightarrow> to_int32 i = i"
  by (simp add: to_int32_def sint_uint uint_word_of_int signed_take_bit_int_eq_self)

lemma segment_Suc: "p < length C \<Longrightarrow> segment C p (Suc n) = C ! p # segment C (Suc p) n"
  by (simp add: segment_def Cons_nth_drop_Suc [symmetric])

lemma overlay_Cons: "p \<le> length C \<Longrightarrow> overlay (overlay C p [b]) (Suc p) bs = overlay C p (b # bs)"
  using overlay_append [of p C "[b]" bs] by simp

lemma uint_not_minus_one: "uint (b :: u8) \<noteq> - 1"
  using uint_ge_0 [of b] by linarith

context file_api
begin

lemma close_two: "rep a g C p \<Longrightarrow> rep b g' D q \<Longrightarrow> close_all ops status [a, b] = retIO (status, [C, D])"
  by (simp add: close_ok)

text \<open>Reading one byte of the input and writing it to the output.\<close>

lemma copy_byte:
  assumes "rep fin False C p" "rep fout g D q" "p < length C"
  obtains fin1 fout1 g1 where "op_readc ops fin = retIO (uint (C ! p), fin1)" "rep fin1 False C (Suc p)"
    "op_writec ops fout (uint (C ! p)) = retIO (uint (C ! p), fout1)" "rep fout1 g1 (overlay D q [C ! p]) (Suc q)"
  using readc_ok [OF assms(1)] writec_ok [OF assms(2), of "uint (C ! p)"] assms(3) by auto

lemma byte_cat_loop_ok:
  assumes "rep fin False C p" "rep fout g D q" "p + n \<le> length C" "i + int n \<le> INT_MAX"
  shows "\<exists>fin' fout' g'. byte_cat_loop ops n i fin fout = retIO (0, fin', fout') \<and> rep fin' False C (p + n)
           \<and> rep fout' g' (overlay D q (segment C p n)) (q + n)"
  using assms
proof (induction n arbitrary: i fin fout p q g D)
  case 0
  then show ?case by (auto simp: segment_def)
next
  case (Suc n)
  obtain fin1 fout1 g1 where c: "op_readc ops fin = retIO (uint (C ! p), fin1)" "rep fin1 False C (Suc p)"
    "op_writec ops fout (uint (C ! p)) = retIO (uint (C ! p), fout1)" "rep fout1 g1 (overlay D q [C ! p]) (Suc q)"
    using copy_byte [OF Suc.prems(1,2)] Suc.prems(3) by auto
  have run: "byte_cat_loop ops (Suc n) i fin fout = byte_cat_loop ops n (i + 1) fin1 fout1"
    using c Suc.prems(4) uint_not_minus_one [of "C ! p"] by (simp add: int_succ_small)
  obtain fin' fout' g' where "byte_cat_loop ops n (i + 1) fin1 fout1 = retIO (0, fin', fout')" "rep fin' False C (Suc p + n)"
      "rep fout' g' (overlay (overlay D q [C ! p]) (Suc q) (segment C (Suc p) n)) (Suc q + n)"
    using Suc.IH [OF c(2,4), of "i + 1"] Suc.prems(3,4) by auto
  then show ?case using run Suc.prems(3) overlay_Cons [OF pos_ok [OF Suc.prems(2)]]
    by (auto simp: segment_Suc)
qed

lemma byte_cat_ok:
  assumes "rep fin False C 0" "rep fout False D 0" "0 < length C" "int (length C) \<le> INT_MAX"
  shows "byte_cat_main ops 3 (Some fin) (Some fout) = retIO (0, [C, overlay D 0 C])"
proof -
  obtain fin1 where f: "op_filesize ops fin = retIO (int (length C), fin1)" "rep fin1 False C 0"
    using filesize_ok [OF assms(1)] by blast
  obtain fin' fout' g' where "byte_cat_loop ops (length C) 0 fin1 fout = retIO (0, fin', fout')"
      "rep fin' False C (0 + length C)" "rep fout' g' (overlay D 0 (segment C 0 (length C))) (0 + length C)"
    using byte_cat_loop_ok [OF f(2) assms(2), of "length C" 0] assms(4) by auto
  then show ?thesis using f(1) assms(3) close_two by (simp add: byte_cat_main_def segment_def)
qed

lemma seeks_ok:
  assumes "rep s g C p" "0 < length C" "int (length C) \<le> INT_MAX"
  shows "\<exists>s' q. diabolical_seeks ops (int (length C)) j s = retIO (False, s') \<and> rep s' g C q"
  using assms(1)
proof (induction j arbitrary: s p)
  case 0
  then show ?case by auto
next
  case (Suc j)
  obtain s1 where s1: "op_seek ops s (int 0) = retIO (0, s1)" "rep s1 g C 0"
    using seek_ok [OF Suc.prems, of 0] by (auto simp: to_int32_small)
  have e: "int (length C - 1) = int (length C) - 1" "int (length C) - 1 \<noteq> - 1" using assms(2) by linarith+
  have t: "to_int32 (int (length C) - 1) = int (length C) - 1" using assms(2,3) by (intro to_int32_small) linarith+
  obtain s2 where s2: "op_seek ops s1 (int (length C) - 1) = retIO (int (length C) - 1, s2)" "rep s2 g C (length C - 1)"
    using seek_ok [OF s1(2), of "length C - 1"] unfolding e t by auto
  show ?case using s1 s2(1) e(2) Suc.IH [OF s2(2)] by simp
qed

lemma diabolical_loop_ok:
  assumes "rep fin False C p" "rep fout g D q" "p + n = length C" "0 < length C" "int (length C) \<le> INT_MAX"
  shows "\<exists>fin' fout' g' p'. diabolical_loop ops (int (length C)) n (int p) fin fout = retIO (0, fin', fout')
           \<and> rep fin' False C p' \<and> rep fout' g' (overlay D q (segment C p n)) (q + n)"
  using assms(1-3)
proof (induction n arbitrary: fin fout p q g D)
  case 0
  then show ?case by (auto simp: segment_def)
next
  case (Suc n)
  obtain fin1 fout1 g1 where c: "op_readc ops fin = retIO (uint (C ! p), fin1)" "rep fin1 False C (Suc p)"
    "op_writec ops fout (uint (C ! p)) = retIO (uint (C ! p), fout1)" "rep fout1 g1 (overlay D q [C ! p]) (Suc q)"
    using copy_byte [OF Suc.prems(1,2)] Suc.prems(3) by auto
  obtain fin2 p2 where s: "diabolical_seeks ops (int (length C)) 10 fin1 = retIO (False, fin2)" "rep fin2 False C p2"
    using seeks_ok [OF c(2) assms(4,5)] by blast
  obtain fin3 where k: "op_seek ops fin2 (int (Suc p)) = retIO (int (Suc p), fin3)" "rep fin3 False C (Suc p)"
    using seek_ok [OF s(2), of "Suc p"] Suc.prems(3) assms(5) by (auto simp: to_int32_small)
  have i: "int_succ (int p) = retIO (int (Suc p))" using Suc.prems(3) assms(5) by (simp add: int_succ_small)
  have run: "diabolical_loop ops (int (length C)) (Suc n) (int p) fin fout
      = diabolical_loop ops (int (length C)) n (int (Suc p)) fin3 fout1"
    using c s k i uint_not_minus_one [of "C ! p"] by simp
  obtain fin' fout' g' p' where "diabolical_loop ops (int (length C)) n (int (Suc p)) fin3 fout1 = retIO (0, fin', fout')"
      "rep fin' False C p'" "rep fout' g' (overlay (overlay D q [C ! p]) (Suc q) (segment C (Suc p) n)) (Suc q + n)"
    using Suc.IH [OF k(2) c(4)] Suc.prems(3) by auto
  then show ?case using run Suc.prems(3) overlay_Cons [OF pos_ok [OF Suc.prems(2)]]
    by (auto simp: segment_Suc)
qed

lemma diabolical_ok:
  assumes "rep fin False C 0" "rep fout False D 0" "0 < length C" "int (length C) \<le> INT_MAX"
  shows "diabolical_main ops 3 (Some fin) (Some fout) = retIO (0, [C, overlay D 0 C])"
proof -
  obtain fin1 where f: "op_filesize ops fin = retIO (int (length C), fin1)" "rep fin1 False C 0"
    using filesize_ok [OF assms(1)] by blast
  obtain fin' fout' g' p' where "diabolical_loop ops (int (length C)) (length C) (int 0) fin1 fout = retIO (0, fin', fout')"
      "rep fin' False C p'" "rep fout' g' (overlay D 0 (segment C 0 (length C))) (0 + length C)"
    using diabolical_loop_ok [OF f(2) assms(2), of "length C"] assms(3,4) by auto
  then show ?thesis using f(1) assms(3) close_two by (simp add: diabolical_main_def segment_def)
qed

text \<open>\<open>rot13\<close> rewrites the file in place: each byte is overwritten, so the file never grows.\<close>

lemma rot13_loop_ok:
  assumes "rep s False (map rot13 A @ B) p" "int (length A + length B) \<le> INT_MAX"
  shows "\<exists>s' p'. rot13_loop ops (length B) (int (length A)) s = retIO (0, s') \<and> rep s' False (map rot13 A @ map rot13 B) p'"
  using assms
proof (induction B arbitrary: A s p)
  case Nil
  then show ?case by auto
next
  case (Cons b B)
  let ?C = "map rot13 A @ b # B" and ?i = "length A"
  obtain s1 where s1: "op_seek ops s (int ?i) = retIO (int ?i, s1)" "rep s1 False ?C ?i"
    using seek_ok [OF Cons.prems(1), of ?i] Cons.prems(2) by (auto simp: to_int32_small)
  obtain s2 where s2: "op_readc ops s1 = retIO (uint b, s2)" "rep s2 False ?C (?i + 1)"
    using readc_ok [OF s1(2)] by (auto simp: nth_append)
  obtain s3 where s3: "op_seek ops s2 (int ?i) = retIO (int ?i, s3)" "rep s3 False ?C ?i"
    using seek_ok [OF s2(2), of ?i] Cons.prems(2) by (auto simp: to_int32_small)
  obtain s4 where s4: "op_writec ops s3 (uint (rot13 b)) = retIO (uint (rot13 b), s4)"
      "rep s4 False (overlay ?C ?i [rot13 b]) (?i + 1)"
    using writec_ok [OF s3(2), of "uint (rot13 b)"] by auto
  have eq: "overlay ?C ?i [rot13 b] = map rot13 (A @ [b]) @ B" by (simp add: overlay_inside)
  have "rot13_loop ops (length (b # B)) (int ?i) s = rot13_loop ops (length B) (int (length (A @ [b]))) s4"
    using s1 s2 s3 s4(1) uint_not_minus_one Cons.prems(2) by (simp add: int_succ_small add.commute)
  with Cons.IH [of s4 "A @ [b]", OF s4(2) [unfolded eq]] Cons.prems(2) show ?case by simp
qed

lemma rot13_ok:
  assumes "rep s False C 0" "int (length C) \<le> INT_MAX"
  shows "rot13_main ops 2 (Some s) = retIO (0, [map rot13 C])"
proof -
  obtain s1 where f: "op_filesize ops s = retIO (int (length C), s1)" "rep s1 False C 0"
    using filesize_ok [OF assms(1)] by blast
  obtain s' p' where "rot13_loop ops (length C) 0 s1 = retIO (0, s')" "rep s' False (map rot13 C) p'"
    using rot13_loop_ok [of s1 "[]" C 0] f(2) assms(2) by auto
  then show ?thesis using f(1) close_ok by (simp add: rot13_main_def)
qed

lemma reverse_byte_loop_ok:
  assumes "rep fin False C p" "rep fout g D q" "n \<le> length C" "int (length C) \<le> INT_MAX"
  shows "\<exists>fin' fout' p' g'. reverse_byte_loop ops n fin fout = retIO (0, fin', fout') \<and> rep fin' False C p'
           \<and> rep fout' g' (overlay D q (rev (take n C))) (q + n)"
  using assms(1-3)
proof (induction n arbitrary: fin fout p q g D)
  case 0
  then show ?case by auto
next
  case (Suc n)
  obtain fin0 where k: "op_seek ops fin (int n) = retIO (int n, fin0)" "rep fin0 False C n"
    using seek_ok [OF Suc.prems(1), of n] Suc.prems(3) assms(4) by (auto simp: to_int32_small)
  obtain fin1 fout1 g1 where c: "op_readc ops fin0 = retIO (uint (C ! n), fin1)" "rep fin1 False C (Suc n)"
    "op_writec ops fout (uint (C ! n)) = retIO (uint (C ! n), fout1)" "rep fout1 g1 (overlay D q [C ! n]) (Suc q)"
    using copy_byte [OF k(2) Suc.prems(2)] Suc.prems(3) by auto
  have run: "reverse_byte_loop ops (Suc n) fin fout = reverse_byte_loop ops n fin1 fout1"
    using k c uint_not_minus_one [of "C ! n"] by simp
  obtain fin' fout' p' g' where "reverse_byte_loop ops n fin1 fout1 = retIO (0, fin', fout')" "rep fin' False C p'"
      "rep fout' g' (overlay (overlay D q [C ! n]) (Suc q) (rev (take n C))) (Suc q + n)"
    using Suc.IH [OF c(2,4)] Suc.prems(3) by auto
  moreover have "rev (take (Suc n) C) = C ! n # rev (take n C)" using Suc.prems(3) by (simp add: take_Suc_conv_app_nth)
  ultimately show ?case using run overlay_Cons [OF pos_ok [OF Suc.prems(2)]] by auto
qed

lemma reverse_byte_cat_ok:
  assumes "rep fin False C 0" "rep fout False D 0" "0 < length C" "int (length C) \<le> INT_MAX"
  shows "reverse_byte_cat_main ops 3 (Some fin) (Some fout) = retIO (0, [C, overlay D 0 (rev C)])"
proof -
  obtain fin1 where f: "op_filesize ops fin = retIO (int (length C), fin1)" "rep fin1 False C 0"
    using filesize_ok [OF assms(1)] by blast
  obtain fin' fout' p' g' where "reverse_byte_loop ops (length C) fin1 fout = retIO (0, fin', fout')"
      "rep fin' False C p'" "rep fout' g' (overlay D 0 (rev C)) (length C)"
    using reverse_byte_loop_ok [OF f(2) assms(2), of "length C"] assms(4) by auto
  moreover have "to_int32 (int (length C) - 1) = int (length C) - 1" using assms(3,4) by (intro to_int32_small) auto
  ultimately show ?thesis using f(1) assms(3) close_two by (simp add: reverse_byte_cat_main_def)
qed

lemma block_loop_ok:
  assumes "rep fin False C p" "rep fout g D q" "\<And>k. 0 < sizes k"
  shows "\<exists>fin' fout' g'. block_loop ops sizes k status fin fout = retIO (status, fin', fout') \<and> rep fin' False C (length C)
           \<and> rep fout' g' (overlay D q (drop p C)) (q + (length C - p))"
  using assms(1,2)
proof (induction "length C - p" arbitrary: k fin fout p q g D rule: less_induct)
  case less
  have p: "p \<le> length C" by (rule pos_ok [OF less.prems(1)])
  let ?b = "segment C p (sizes k)"
  obtain fin1 where r: "op_read ops fin (sizes k) = retIO (int (length ?b), ?b, fin1)" "rep fin1 False C (p + length ?b)"
    using read_ok [OF less.prems(1), of "sizes k"] by blast
  show ?case
  proof (cases "p = length C")
    case True
    then have "block_loop ops sizes k status fin fout = retIO (status, fin1, fout)"
      using r by (subst block_loop.simps) (simp add: segment_def)
    then show ?thesis using True r(2) less.prems(2) by (auto simp: segment_def)
  next
    case False
    then have b: "0 < length ?b" using p assms(3) [of k] by simp
    obtain fout1 g1 where w: "op_write ops fout ?b = retIO (int (length ?b), fout1)"
        "rep fout1 g1 (overlay D q ?b) (q + length ?b)"
      using write_ok [OF less.prems(2), of ?b] by blast
    have run: "block_loop ops sizes k status fin fout = block_loop ops sizes (Suc k) status fin1 fout1"
      using r(1) w(1) b by (subst block_loop.simps) auto
    have le: "p + length ?b \<le> length C" using p by simp
    then have lt: "length C - (p + length ?b) < length C - p" using b by linarith
    obtain fin' fout' g' where IH: "block_loop ops sizes (Suc k) status fin1 fout1 = retIO (status, fin', fout')"
        "rep fin' False C (length C)"
        "rep fout' g' (overlay (overlay D q ?b) (q + length ?b) (drop (p + length ?b) C)) (q + length ?b + (length C - (p + length ?b)))"
      using less.hyps [OF _ r(2) w(2), of "Suc k"] lt by blast
    have "?b @ drop (p + length ?b) C = drop p C"
      using append_take_drop_id [of "sizes k" "drop p C"] by (simp add: segment_def min_def add.commute)
    then have "overlay (overlay D q ?b) (q + length ?b) (drop (p + length ?b) C) = overlay D q (drop p C)"
      using overlay_append [OF pos_ok [OF less.prems(2)], of ?b "drop (p + length ?b) C"] by simp
    moreover have "q + length ?b + (length C - (p + length ?b)) = q + (length C - p)" using le by linarith
    ultimately show ?thesis using IH run by metis
  qed
qed

lemma block_cat_ok:
  assumes "rep fin False C 0" "rep fout False D 0" "0 < b" "b \<le> INT_MAX"
  shows "block_cat_main ops 4 b (Some fin) (Some fout) True = retIO (0, [C, overlay D 0 C])"
proof -
  have "0 < to_size b" using assms(3,4) by (simp add: to_size_def)
  then obtain fin' fout' g' where "block_loop ops (\<lambda>_. to_size b) 0 0 fin fout = retIO (0, fin', fout')"
      "rep fin' False C (length C)" "rep fout' g' (overlay D 0 C) (length C)"
    using block_loop_ok [OF assms(1,2), of "\<lambda>_. to_size b" 0 0] by auto
  then show ?thesis using close_two by (simp add: block_cat_main_def)
qed

lemma random_block_cat_ok:
  assumes "rep fin False C 0" "rep fout False D 0" "0 < length C"
  shows "random_block_cat_main ops rands 3 (Some fin) (Some fout) True = retIO (0, [C, overlay D 0 C])"
proof -
  obtain fin1 where f: "op_filesize ops fin = retIO (int (length C), fin1)" "rep fin1 False C 0"
    using filesize_ok [OF assms(1)] by blast
  obtain fin' fout' g' where "block_loop ops (\<lambda>k. rands k mod 30 + 1) 0 0 fin1 fout = retIO (0, fin', fout')"
      "rep fin' False C (length C)" "rep fout' g' (overlay D 0 C) (length C)"
    using block_loop_ok [OF f(2) assms(2), of "\<lambda>k. rands k mod 30 + 1" 0 0] by auto
  then show ?thesis using f(1) assms(3) close_two by (simp add: random_block_cat_main_def)
qed

lemma reverse_block_loop_ok:
  assumes "rep fin False C p" "rep fout g D q" "m * b \<le> length C" "0 < b" "int b \<le> INT_MAX" "int (length C) \<le> INT_MAX"
  shows "\<exists>fin' fout' p' g'. reverse_block_loop ops (int b) (int (m * b)) fin fout = retIO (0, fin', fout')
           \<and> rep fin' False C p' \<and> rep fout' g' (overlay D q (rev (take (Suc m * b) C))) (q + length (take (Suc m * b) C))"
  using assms(1-3)
proof (induction m arbitrary: fin fout p q g D)
  case (0 fin fout p q g D)
  note prems = 0
  obtain fin0 where k: "op_seek ops fin (int 0) = retIO (int 0, fin0)" "rep fin0 False C 0"
    using seek_ok [OF prems(1), of 0] by (auto simp: to_int32_small)
  let ?b = "segment C 0 b"
  obtain fin1 where r: "op_read ops fin0 b = retIO (int (length ?b), ?b, fin1)" "rep fin1 False C (0 + length ?b)"
    using read_ok [OF k(2), of b] by blast
  obtain fout1 g1 where w: "op_write ops fout (rev ?b) = retIO (int (length ?b), fout1)"
      "rep fout1 g1 (overlay D q (rev ?b)) (q + length ?b)"
    using write_ok [OF prems(2), of "rev ?b"] by auto
  have t: "to_int32 (int (length ?b)) = int (length ?b)" using assms(6) by (intro to_int32_small) auto
  have "reverse_block_loop ops (int b) (int (0 * b)) fin fout = retIO (0, fin1, fout1)"
    using k r w t assms(4,5) by (subst reverse_block_loop.simps)
      (simp add: to_size_def, subst reverse_block_loop.simps, simp)
  moreover have "?b = take b C" by (simp add: segment_def)
  ultimately show ?case using r(2) w(2) by auto
next
  case (Suc m fin fout p q g D)
  let ?i = "Suc m * b" let ?b = "segment C ?i b"
  have ti: "to_int32 (int ?i) = int ?i" using Suc.prems(3) assms(6) by (intro to_int32_small) linarith+
  obtain fin0 where k: "op_seek ops fin (int ?i) = retIO (int ?i, fin0)" "rep fin0 False C ?i"
    using seek_ok [OF Suc.prems(1,3)] unfolding ti by blast
  obtain fin1 where r: "op_read ops fin0 b = retIO (int (length ?b), ?b, fin1)" "rep fin1 False C (?i + length ?b)"
    using read_ok [OF k(2), of b] by blast
  obtain fout1 g1 where w: "op_write ops fout (rev ?b) = retIO (int (length ?b), fout1)"
      "rep fout1 g1 (overlay D q (rev ?b)) (q + length ?b)"
    using write_ok [OF Suc.prems(2), of "rev ?b"] by auto
  have t: "to_int32 (int (length ?b)) = int (length ?b)" using assms(6) by (intro to_int32_small) auto
  have next_i: "int ?i - int b = int (m * b)" by (simp add: algebra_simps)
  have le: "m * b \<le> length C" using Suc.prems(3) by simp
  have small: "int (m * b) \<le> INT_MAX" using le assms(6) by linarith
  have run: "reverse_block_loop ops (int b) (int ?i) fin fout = reverse_block_loop ops (int b) (int (m * b)) fin1 fout1"
    using k r w t next_i small assms(4,5) by (subst reverse_block_loop.simps) (simp add: to_size_def del: of_nat_mult of_nat_Suc mult_Suc)
  obtain fin' fout' p' g' where IH: "reverse_block_loop ops (int b) (int (m * b)) fin1 fout1 = retIO (0, fin', fout')"
      "rep fin' False C p'" "rep fout' g' (overlay (overlay D q (rev ?b)) (q + length ?b) (rev (take ?i C))) (q + length ?b + length (take ?i C))"
    using Suc.IH [OF r(2) w(2) le] by blast
  have tk: "take (Suc (Suc m) * b) C = take ?i C @ ?b"
    unfolding segment_def using take_add [of ?i b C] by (simp add: algebra_simps)
  have "overlay (overlay D q (rev ?b)) (q + length ?b) (rev (take ?i C)) = overlay D q (rev (take (Suc (Suc m) * b) C))"
    unfolding tk using overlay_append [OF pos_ok [OF Suc.prems(2)], of "rev ?b" "rev (take ?i C)"] by simp
  moreover have "q + length ?b + length (take ?i C) = q + length (take (Suc (Suc m) * b) C)" unfolding tk by simp
  ultimately show ?case using IH run by metis
qed

lemma reverse_block_cat_ok:
  assumes "rep fin False C 0" "rep fout False D 0" "0 < length C" "int (length C) \<le> INT_MAX" "0 < b" "int b \<le> INT_MAX"
  shows "reverse_block_cat_main ops 4 (int b) (Some fin) (Some fout) True True = retIO (0, [C, overlay D 0 (rev C)])"
proof -
  obtain fin1 where f: "op_filesize ops fin = retIO (int (length C), fin1)" "rep fin1 False C 0"
    using filesize_ok [OF assms(1)] by blast
  let ?m = "length C div b"
  have i: "int (length C) - c_mod (int (length C)) (int b) = int (?m * b)"
    by (simp add: c_mod_def minus_mod_eq_div_mult zdiv_int)
  have le: "?m * b \<le> length C" by simp
  have "length C \<le> Suc ?m * b"
    using div_mult_mod_eq [of "length C" b] mod_less_divisor [OF assms(5), of "length C"] unfolding mult_Suc by linarith
  then have tk: "take (Suc ?m * b) C = C" by simp
  have t: "to_int32 (int (?m * b)) = int (?m * b)" using le assms(4) by (intro to_int32_small) linarith+
  obtain fin' fout' p' g' where "reverse_block_loop ops (int b) (int (?m * b)) fin1 fout = retIO (0, fin', fout')"
      "rep fin' False C p'" "rep fout' g' (overlay D 0 (rev C)) (0 + length C)"
    using reverse_block_loop_ok [OF f(2) assms(2) le assms(5,6,4)] unfolding tk by blast
  then show ?thesis using f(1) assms(3,5) close_two i t
    by (simp add: reverse_block_cat_main_def del: of_nat_mult)
qed

end

section \<open>Properties\<close>

text \<open>\<open>s\<close> is what \<open>io300_open\<close> of the caching implementation returns for the descriptor \<open>d\<close>.\<close>

definition opened :: "nat \<Rightarrow> fdesc \<Rightarrow> io300_file \<times> fdesc \<Rightarrow> bool" where
  "opened CS d s \<longleftrightarrow> reliable d \<and> 0 < CS
     \<and> (\<exists>path desc n junk bs. 0 \<le> n \<and> length bs = CS
         \<and> io300_open CS (Some path) desc (Some (n, d)) (Some junk) (Some bs) = Inr (Some s))"

lemma opened_rep:
  assumes "opened CS d s"
  shows "student_rep CS s False (contents d) 0"
proof -
  obtain path desc n junk bs where o: "reliable d" "0 < CS" "0 \<le> n" "length bs = CS"
      "io300_open CS (Some path) desc (Some (n, d)) (Some junk) (Some bs) = Inr (Some s)"
    using assms unfolding opened_def by blast
  obtain f d' where "io300_open CS (Some path) desc (Some (n, d)) (Some junk) (Some bs) = Inr (Some (f, d'))"
      "file_rep CS f d' False (contents d) 0"
    using open_rep [OF o(1,3,2,4)] by blast
  then show ?thesis using o(5) by (simp add: student_repI)
qed

lemma sample_opened: "\<exists>s. opened 4 (sample_fdesc bs) s"
proof -
  have r: "reliable (sample_fdesc bs)" by (simp add: sample_fdesc_def reliable_def)
  obtain f d where "io300_open 4 (Some ''f'') [] (Some (3, sample_fdesc bs))
      (Some \<lparr>read_calls = 0, write_calls = 0, seeks = 0\<rparr>) (Some [0, 0, 0, 0]) = Inr (Some (f, d))"
    by (rule open_rep [OF r, where n = 3 and CS = 4 and bs = "[0, 0, 0, 0]" and path = "''f''" and desc = "[]"
      and junk = "\<lparr>read_calls = 0, write_calls = 0, seeks = 0\<rparr>"]) simp_all
  then have "\<exists>path desc n junk bs'. 0 \<le> n \<and> length bs' = 4
      \<and> io300_open 4 (Some path) desc (Some (n, sample_fdesc bs)) (Some junk) (Some bs') = Inr (Some (f, d))"
    by (intro exI [of _ "''f''"] exI [of _ "[]"] exI [of _ "3 :: int"] exI [of _ "[0, 0, 0, 0]"] exI conjI) simp_all
  then have "opened 4 (sample_fdesc bs) (f, d)" using r unfolding opened_def by simp
  then show ?thesis ..
qed

text \<open>C28: With the caching implementation, the copying programs \<open>byte_cat\<close>, \<open>diabolical_byte_cat\<close>,
  \<open>block_cat\<close> with any positive buffer size and \<open>random_block_cat\<close> with any random numbers end with
  status 0, leave the input file as it was and overwrite the output file from its start with the
  bytes of the input file.\<close>

theorem student_copies:
  assumes "opened CS d fin" "opened CS e fout" "contents d \<noteq> []" "int (length (contents d)) \<le> INT_MAX"
    and "res = Some (Inr (0, [contents d, overlay (contents e) 0 (contents d)]))"
  shows "byte_cat_main (student_ops CS) 3 (Some fin) (Some fout) = res
    \<and> diabolical_main (student_ops CS) 3 (Some fin) (Some fout) = res
    \<and> random_block_cat_main (student_ops CS) rands 3 (Some fin) (Some fout) True = res
    \<and> (0 < b \<and> b \<le> INT_MAX \<longrightarrow> block_cat_main (student_ops CS) 4 b (Some fin) (Some fout) True = res)"
proof -
  note r = opened_rep [OF assms(1)] opened_rep [OF assms(2)]
  have l: "0 < length (contents d)" using assms(3) by simp
  show ?thesis unfolding assms(5)
    using st.byte_cat_ok [OF r l assms(4)] st.diabolical_ok [OF r l assms(4)] st.random_block_cat_ok [OF r l]
      st.block_cat_ok [OF r] by blast
qed

theorem student_copies_witness:
  "\<exists>fin fout. block_cat_main (student_ops 4) 4 3 (Some fin) (Some fout) True
      = Some (Inr (0, [[1, 2, 3, 4, 5, 6, 7], [1, 2, 3, 4, 5, 6, 7]]))"
proof -
  obtain fin where i: "opened 4 (sample_fdesc [1, 2, 3, 4, 5, 6, 7]) fin" using sample_opened by blast
  obtain fout where o: "opened 4 (sample_fdesc []) fout" using sample_opened by blast
  have "contents (sample_fdesc [1, 2, 3, 4, 5, 6, 7]) \<noteq> []" "int (length (contents (sample_fdesc [1, 2, 3, 4, 5, 6, 7]))) \<le> INT_MAX"
    by (simp_all add: sample_fdesc_def)
  from student_copies [OF i o this refl, of "\<lambda>_. 0" 3]
  have "block_cat_main (student_ops 4) 4 3 (Some fin) (Some fout) True
      = Some (Inr (0, [[1, 2, 3, 4, 5, 6, 7], [1, 2, 3, 4, 5, 6, 7]]))" by (simp add: sample_fdesc_def overlay_def)
  then show ?thesis by (intro exI)
qed

text \<open>C29: With the caching implementation, \<open>reverse_byte_cat\<close>, and \<open>reverse_block_cat\<close> with any positive
  buffer size, end with status 0 and write the bytes of the input file in reverse order over the
  start of the output file.\<close>

theorem student_reverses:
  assumes "opened CS d fin" "opened CS e fout" "contents d \<noteq> []" "int (length (contents d)) \<le> INT_MAX" "0 < b" "int b \<le> INT_MAX"
    and "res = Some (Inr (0, [contents d, overlay (contents e) 0 (rev (contents d))]))"
  shows "reverse_byte_cat_main (student_ops CS) 3 (Some fin) (Some fout) = res
    \<and> reverse_block_cat_main (student_ops CS) 4 (int b) (Some fin) (Some fout) True True = res"
proof -
  note r = opened_rep [OF assms(1)] opened_rep [OF assms(2)]
  have l: "0 < length (contents d)" using assms(3) by simp
  show ?thesis unfolding assms(7)
    using st.reverse_byte_cat_ok [OF r l assms(4)] st.reverse_block_cat_ok [OF r l assms(4-6)] by blast
qed

theorem student_reverses_witness:
  "\<exists>fin fout. reverse_block_cat_main (student_ops 4) 4 3 (Some fin) (Some fout) True True
      = Some (Inr (0, [[1, 2, 3, 4, 5], [5, 4, 3, 2, 1, 9]]))"
proof -
  obtain fin where i: "opened 4 (sample_fdesc [1, 2, 3, 4, 5]) fin" using sample_opened by blast
  obtain fout where o: "opened 4 (sample_fdesc [9, 9, 9, 9, 9, 9]) fout" using sample_opened by blast
  have "contents (sample_fdesc [1, 2, 3, 4, 5]) \<noteq> []" "int (length (contents (sample_fdesc [1, 2, 3, 4, 5]))) \<le> INT_MAX"
    by (simp_all add: sample_fdesc_def)
  from student_reverses [OF i o this, of 3]
  have "reverse_block_cat_main (student_ops 4) 4 3 (Some fin) (Some fout) True True
      = Some (Inr (0, [[1, 2, 3, 4, 5], [5, 4, 3, 2, 1, 9]]))" by (simp add: sample_fdesc_def overlay_def)
  then show ?thesis by (intro exI)
qed

lemma rot_letters:
  fixes b x :: int
  assumes "0 \<le> b" "b \<le> 200" "b \<le> x" "x \<le> b + 25"
  defines "y \<equiv> b + ((x - b) + 13) mod 26"
  shows "uint (word_of_int y :: u8) = y" "b \<le> y" "y \<le> b + 25" "b + ((y - b) + 13) mod 26 = x"
proof -
  show y: "b \<le> y" "y \<le> b + 25" using pos_mod_bound [of 26 "(x - b) + 13"] pos_mod_sign [of 26 "(x - b) + 13"]
    by (simp_all add: y_def)
  show "uint (word_of_int y :: u8) = y" using y assms(1,2) by (simp add: uint_word_of_int)
  have "((y - b) + 13) mod 26 = (x - b) mod 26" by (simp add: y_def mod_simps)
  then show "b + ((y - b) + 13) mod 26 = x" using assms(3,4) by simp
qed

lemma rot13_involutive: "rot13 (rot13 ch) = ch"
proof -
  have le: "a \<le> c \<longleftrightarrow> uint a \<le> uint c" for a c :: u8 by (simp add: word_le_def)
  consider (up) "65 \<le> uint ch" "uint ch \<le> 90" | (low) "97 \<le> uint ch" "uint ch \<le> 122"
    | (other) "\<not> (65 \<le> uint ch \<and> uint ch \<le> 90)" "\<not> (97 \<le> uint ch \<and> uint ch \<le> 122)" by linarith
  then show ?thesis
  proof cases
    case up
    with rot_letters [of 65 "uint ch"] show ?thesis by (simp add: rot13_def le)
  next
    case low
    have "\<not> 7 + (uint ch - 84) mod 26 \<le> 0" using pos_mod_sign [of 26 "uint ch - 84"] by linarith
    with low rot_letters [of 97 "uint ch"] show ?thesis by (simp add: rot13_def le)
  next
    case other
    then have "rot13 ch = ch" unfolding rot13_def le by auto
    then show ?thesis by simp
  qed
qed

text \<open>C30: With the caching implementation, \<open>rot13\<close> ends with status 0 and replaces every byte of the
  file by its image under the cipher; running it on the resulting file gives the original bytes
  back.\<close>

theorem student_rot13:
  assumes "opened CS d s" "opened CS e s'" "contents e = map rot13 (contents d)" "int (length (contents d)) \<le> INT_MAX"
  shows "rot13_main (student_ops CS) 2 (Some s) = Some (Inr (0, [map rot13 (contents d)]))
    \<and> rot13_main (student_ops CS) 2 (Some s') = Some (Inr (0, [contents d]))"
proof -
  have "map rot13 (contents e) = contents d" by (simp add: assms(3) rot13_involutive o_def)
  then show ?thesis
    using st.rot13_ok [OF opened_rep [OF assms(1)] assms(4)] st.rot13_ok [OF opened_rep [OF assms(2)]] assms(3,4) by simp
qed

theorem student_rot13_witness:
  "\<exists>s. rot13_main (student_ops 4) 2 (Some s) = Some (Inr (0, [[85, 114, 121, 121, 98, 33]]))"
proof -
  obtain s where s: "opened 4 (sample_fdesc [72, 101, 108, 108, 111, 33]) s" using sample_opened by blast
  obtain s' where s': "opened 4 (sample_fdesc (map rot13 [72, 101, 108, 108, 111, 33])) s'" using sample_opened by blast
  have v: "map rot13 [72, 101, 108, 108, 111, 33] = [85, 114, 121, 121, 98, 33]" by code_simp
  have "rot13_main (student_ops 4) 2 (Some s) = Some (Inr (0, [map rot13 [72, 101, 108, 108, 111, 33]]))"
    using student_rot13 [OF s s'] by (simp add: sample_fdesc_def)
  then show ?thesis unfolding v by blast
qed

section \<open>Where the caching implementation departs from the interface\<close>

text \<open>An empty file, as it is after opening.\<close>

definition empty_file :: "io300_file \<times> fdesc" where
  "empty_file =
     (\<lparr>fd = 3, cache = [0, 0, 0, 0], dirty = 0, head = 0, cache_start = 0, cache_end = 0, file_size = 0,
       direction = 1, description = [], stats = \<lparr>read_calls = 0, write_calls = 0, seeks = 0\<rparr>\<rparr>,
      sample_fdesc [])"

lemma empty_file_opened: "opened 4 (sample_fdesc []) (fst empty_file, tick (tick (sample_fdesc [])))"
proof -
  have "io300_open 4 (Some ''f'') [] (Some (3, sample_fdesc []))
      (Some \<lparr>read_calls = 0, write_calls = 0, seeks = 0\<rparr>) (Some [0, 0, 0, 0])
      = Inr (Some (fst empty_file, tick (tick (sample_fdesc []))))"
    by (simp add: io300_open_def io300_filesize_def io300_fetch_def check_invariants_def sys_fstat_size_def sys_pread_def
        sample_fdesc_def failing_def fetch_range_def empty_file_def segment_def)
  moreover have "reliable (sample_fdesc [])" by (simp add: sample_fdesc_def reliable_def)
  ultimately show ?thesis unfolding opened_def
    by (intro conjI exI [of _ "''f''"] exI [of _ "[]"] exI [of _ "3 :: int"] exI [of _ "[0, 0, 0, 0]"] exI) simp_all
qed

text \<open>C31: An explicit \<open>io300_flush\<close> brings the file on disk up to date: it returns 0, the file then holds the bytes that were written,
  and the cache is clean. It leaves a cache that the next operation accepts exactly if the head was at the end of the cache;
  otherwise every later operation fails the assertion on the bounds of the cache.\<close>

theorem flush_writes_back:
  assumes "file_rep CS f d g C p"
  shows "\<exists>f' d'. io300_flush CS f d = Inr (0, f', d') \<and> contents d' = C \<and> dirty f' = 0 \<and> head f' = int p
    \<and> check_invariants CS f' = (if head f = cache_end f then Inr () else Inl Assert_fail)
    \<and> (head f \<noteq> cache_end f \<longrightarrow>
         io300_readc CS f' d' = Inl Assert_fail \<and> io300_writec CS f' d' ch = Inl Assert_fail
         \<and> io300_read CS f' d' sz = Inl Assert_fail \<and> io300_write CS f' d' buff = Some (Inl Assert_fail)
         \<and> io300_seek CS f' d' pos = Inl Assert_fail \<and> io300_filesize CS f' d' = Inl Assert_fail
         \<and> io300_flush CS f' d' = Inl Assert_fail \<and> io300_close CS f' d' = Inl Assert_fail)"
proof -
  obtain s e where r: "0 < CS" "0 \<le> fd f" "cache_start f = int s" "head f = int p" "cache_end f = int e" "s \<le> p" "p \<le> e"
    using assms by (rule file_repE) auto
  let ?f = "f\<lparr>cache_start := int p, cache_end := int (e + CS), dirty := 0\<rparr>" and ?d = "(tick d)\<lparr>contents := C\<rparr>"
  have c: "check_invariants CS ?f = (if head f = cache_end f then Inr () else Inl Assert_fail)"
    using r by (auto simp: check_invariants_def)
  have "io300_readc CS ?f ?d = Inl Assert_fail \<and> io300_writec CS ?f ?d ch = Inl Assert_fail
      \<and> io300_read CS ?f ?d sz = Inl Assert_fail \<and> io300_write CS ?f ?d buff = Some (Inl Assert_fail)
      \<and> io300_seek CS ?f ?d pos = Inl Assert_fail \<and> io300_filesize CS ?f ?d = Inl Assert_fail
      \<and> io300_flush CS ?f ?d = Inl Assert_fail \<and> io300_close CS ?f ?d = Inl Assert_fail" if "head f \<noteq> cache_end f"
    unfolding io300_readc_def io300_writec_def io300_read_def io300_write_def io300_seek_def io300_filesize_def io300_flush_def io300_close_def
    using c that by simp
  then show ?thesis using flush_rep [OF assms r(5)] c r(4) by (intro exI [of _ ?f] exI [of _ ?d]) simp
qed

theorem flush_writes_back_witness:
  "\<exists>f d f' d'. io300_writec 4 (fst empty_file) (tick (tick (sample_fdesc []))) 65 = Inr (65, f, d) \<and> io300_flush 4 f d = Inr (0, f', d')
     \<and> contents d' = [65] \<and> io300_writec 4 f' d' 66 = Inl Assert_fail"
proof -
  let ?d = "tick (tick (sample_fdesc []))"
  have "file_rep 4 (fst empty_file) ?d False [] 0" using opened_rep [OF empty_file_opened] by (simp add: student_rep_def sample_fdesc_def)
  then obtain f d where w: "io300_writec 4 (fst empty_file) ?d 65 = Inr (65, f, d)" "file_rep 4 f d True [65] 1"
    by (rule writec_rep [where ch = 65]) (auto simp: overlay_def)
  have "io300_writec 4 (fst empty_file) ?d 65 = Inr (65, f, d) \<longrightarrow> head f \<noteq> cache_end f"
    by (auto simp: io300_writec_def io300_filesize_def io300_flush_def check_invariants_def sys_fstat_size_def sys_pwrite_def
        sample_fdesc_def failing_def empty_file_def cache_copy_in_def)
  then have "head f \<noteq> cache_end f" using w(1) by simp
  with flush_writes_back [OF w(2), of 66] w(1) show ?thesis by blast
qed

text \<open>After the bytes 65 and 66 have been written to a new file and the caller has gone back to its
  start, \<open>io300_readc\<close> returns the first byte and then reports the end of the file, although the file
  holds both: the size that the head is compared with is the one at opening time.\<close>

lemma read_back_lost:
  "bindE (io300_writec 4 (fst empty_file) (snd empty_file) 65) (\<lambda>(_, f, d). bindE (io300_writec 4 f d 66) (\<lambda>(_, f, d).
   bindE (io300_seek 4 f d 0) (\<lambda>(_, f, d). bindE (io300_readc 4 f d) (\<lambda>(a, f, d). bindE (io300_readc 4 f d) (\<lambda>(b, f, d).
   Inr (a, b, contents d)))))) = Inr (65, - 1, [65, 66])"
  by code_simp

text \<open>\<open>io300_fetch\<close> ignores a failed flush: the bytes written so far are replaced by those of the file.\<close>

lemma fetch_drops_unwritten:
  assumes "fails d n" "\<not> fails d (Suc n)" "calls d = n" "check_invariants CS f = Inr ()" "dirty f \<noteq> 0"
    "head f = cache_end f" "direction f = 1" "0 \<le> head f"
  shows "\<exists>d'. io300_fetch CS f d = Inr (0, f\<lparr>cache := segment (contents d) (nat (head f)) CS
           @ drop (length (segment (contents d) (nat (head f)) CS)) (cache f), cache_start := head f,
           cache_end := head f + int (length (segment (contents d) (nat (head f)) CS))\<rparr>, d') \<and> contents d' = contents d"
  using assms
  by (auto simp: io300_fetch_def io300_flush_def check_invariants_def bindE_Inr_iff sys_pwrite_def sys_pread_def
      failing_def tick_def fetch_range_def)

end
