(* ===== verification/Spec2Isabelle.thy ===== *)
theory Spec2Isabelle
  imports Boot_Sample Boot_Loader Vmiter_Range Io300_Clients
begin

text \<open>
  Verification of WeensyOS (\<open>src/weensyos\<close>), a small operating system kernel for one x86-64 processor with
  its boot loader and library, and of the file library \<open>io300\<close> (\<open>src/fileio\<close>).

  \<^bold>\<open>The program.\<close> The boot loader (\<open>boot.cc\<close>) reads the kernel from the disk. \<open>kernel\<close> (\<open>kernel.cc\<close>) sets up the
  hardware, its page table and the first processes, whose programs are images in kernel memory, and resumes
  process 1. From then on the kernel is entered through \<open>syscall\<close> and \<open>exception\<close>, which answer a request,
  schedule, or stop. Physical pages come from \<open>kalloc\<close>, which counts references; page tables are read and
  written through the iterators \<open>vmiter\<close> and \<open>ptiter\<close> only; \<open>fork\<close> shares read-only pages and copies the others.
  Every entry also draws the memory viewer on the console. The library \<open>lib.cc\<close> gives strings, numbers
  and formatted printing to all of them. Independently, \<open>student.c\<close> caches a file behind the interface \<open>io300.h\<close>,
  \<open>naive.c\<close> does not, and small programs use either.

  \<^bold>\<open>Conventions.\<close> Machine integers are words of their width. Memory is a function from 64-bit addresses to
  bytes; structures that the code casts to are read from it byte by byte. A failed assertion, a panic of the page-table code,
  an access outside an array, a signed overflow and a variadic argument that the calling convention leaves undefined (\<open>Printf\<close>) are
  values of type \<open>fault\<close>: \<open>Inl\<close> of a sum. Indices that are in range by their type or by the branch they stand in are not checked again (the key
  maps of \<open>Keyboard\<close>). A loop that may run for ever is a
  \<open>partial_function (option)\<close>, and \<open>None\<close> means that it does; there is no fuel in the development.
  A \<open>run\<close> of the kernel ends with a value, with \<open>Inl\<close> of a reason (\<open>Resume\<close> of a process, power off, reboot, a fault) and the machine, or not at all.
  Theorems state that operations return wherever they do. Parameters of the model are the addresses that the linker chooses (\<open>link\<close>, \<open>programs\<close>), the
  answers of devices as a function of all that was sent to them (\<open>io\<close>), constructors that the compiler
  generates, and failures of POSIX calls (\<open>fdesc\<close>). Constants are abbreviations with the names of the source.

  \<^bold>\<open>Theories, in the order of their imports.\<close>

  \<^item> \<open>Prelude\<close>: word types, faults, the two binds \<open>bindE\<close> and \<open>bindIO\<close>, facts on words.
  \<^item> \<open>Lib_Num\<close>, \<open>Lib_Mem\<close>, \<open>Lib_Str\<close> (\<open>lib.hh\<close>, \<open>lib.cc\<close>): rounding, bit indices, character classes, random numbers; \<open>memcpy\<close>
    to \<open>strchr\<close>, each loop with a closed description of its result; \<open>strtoul\<close>, \<open>strtol\<close>.
  \<^item> \<open>Printf\<close>, \<open>Console\<close>, \<open>Log\<close>: \<open>printer::vprintf\<close> as a function of the \<open>putc\<close> of a printer. The locale \<open>printer\<close>
    asks that \<open>putc\<close> keeps an invariant and is interpreted for \<open>vsnprintf\<close>, the console and the log, which gives memory safety of all
    three. \<open>Log\<close> also has the binary search of the symbol table.
  \<^item> \<open>X86\<close>, \<open>Kalloc\<close>, \<open>Vmiter\<close>, \<open>Page_Forest\<close>, \<open>Vmiter_Map\<close>, \<open>Vmiter_Range\<close>, \<open>Ptiter\<close>: the processor's translation \<open>translate\<close>, the page
    allocator, both iterators. \<open>forest\<close> says that no page-table page is reached in two ways; the locale
    \<open>page_allocator\<close> is what \<open>try_map\<close> relies on and is interpreted for \<open>kalloc\<close>. An iterator reports the translation, \<open>try_map\<close> changes exactly one
    translation, range checks equal a check of each address, and \<open>ptiter\<close> visits every page-table page once.
  \<^item> \<open>Addr_Space\<close>, \<open>Kernel\<close>, \<open>Mem_Inv\<close>, \<open>Pfree\<close>, \<open>Kept\<close>, \<open>Fork\<close>, \<open>Fork_Spec\<close>, \<open>Sys_Calls\<close>: address spaces as partial functions (\<open>user_load\<close>, \<open>space\<close>) from addresses
    to bytes of memory or places of the screen, process descriptors and the system calls on memory. The invariant \<open>sys_inv\<close>: page tables form a forest, users reach the console and
    allocatable pages only, a writable page has one owner, reference counts cover all references, kernel memory is mapped one to one. Each
    call refines an operation on address spaces and keeps the invariant, also when memory runs out.
  \<^item> \<open>Devices\<close>, \<open>Hardware\<close>, \<open>Keyboard\<close>: port traces, PCI, interrupt controllers, descriptors, the keyboard's
    state machine.
  \<^item> \<open>Machine\<close>, \<open>Memviewer\<close>, \<open>Handlers\<close>: the record of the whole machine, failing and rebooting, the memory viewer, and the entry points.
  \<^item> \<open>Display\<close>, \<open>Memviewer_Safe\<close>, \<open>System\<close>, \<open>Kernel_Safe\<close>, \<open>Sample_State\<close>, \<open>Execution\<close>: the invariant \<open>minv\<close> of the machine between two entries, that every entry keeps it,
    and the step relation \<open>step\<close> in which user processes store anywhere they may, call with any
    registers and are interrupted at any time.
  \<^item> \<open>Loader\<close>, \<open>Boot\<close>, \<open>Low_Tables\<close>, \<open>Boot_Table\<close>, \<open>Setup_Space\<close>, \<open>Setup_Load\<close>, \<open>Boot_Spec\<close>, \<open>Boot_Run\<close>, \<open>Boot_Sample\<close>: images, the start of the kernel, the finished
    page table, what \<open>process_setup\<close> leaves in a new address space, and the whole of \<open>kernel\<close> up to the first process.
  \<^item> \<open>Boot_Loader\<close> (\<open>boot.cc\<close>): loading the kernel from a disk. The controller is a parameter; \<open>ata_disk\<close> is what the ATA standard promises of it as long
    as the host keeps to the protocol, which the loader has to.
  \<^item> \<open>Posix_File\<close>, \<open>Io300\<close>, \<open>Io300_Refine\<close>, \<open>Io300_Ops\<close>, \<open>Io300_Api\<close>, \<open>Io300_Clients\<close> (\<open>src/fileio\<close>): both implementations, the representation \<open>file_rep\<close> of a byte
    sequence with a position, the locale \<open>file_api\<close> with an interpretation for each implementation, and the client programs, proved once against the locale.

  \<^bold>\<open>Properties.\<close> This theory holds those of the whole system: from power-on the kernel reaches its first process with all programs loaded
  (\<open>kernel_boots\<close>), the invariant holds in every reachable state (\<open>reachable_invariant\<close>), processes are protected from each other
  and the kernel from them (\<open>process_isolation\<close>, \<open>booted_system_protected\<close>), entries into the kernel never
  fault (\<open>kernel_never_faults\<close>) and end in the ways one expects (\<open>syscall_outcome\<close>, \<open>exception_outcome\<close>, \<open>schedule_round_robin\<close>). The properties of
  single components stand at the end of their theories. A hypothesis of a property holds for the concrete state of its witness.

  \<^bold>\<open>Bounds.\<close> Results on executions leave out two calls that the code does not survive: a \<open>fork\<close> when a reference count
  of 8 bits is used up, and the system call number \<open>0x8000000000000000\<close>, whose negation overflows when it is printed (\<open>call_ok\<close>).
  The results on the start of the kernel ask for images in kernel memory with segments that share no page and end below \<open>0x200000\<close>, and for
  63 free pages below the kernel to be enough (\<open>boot_starts\<close>); that of \<open>process_setup\<close> alone asks for free pages that are consecutive, since the code copies
  a segment as if its pages were. The boot loader is to load segments into physical memory that it does not use itself. The result on \<open>student.c\<close> is for calls
  that do not fail or write short, and for sequences without an explicit \<open>flush\<close> (\<open>flush_writes_back\<close>) that do not seek past the end or read after
  extending the file, where the code is wrong (\<open>read_back_lost\<close>).

  \<^bold>\<open>Not modelled.\<close> Assembly (\<open>bootentry.S\<close>, \<open>k-exception.S\<close>): the saved registers are arguments of the entry
  points. The accessed and dirty bits that the processor sets in page tables, and the caching of translations. The console page is
  the device \<open>con\<close> and not part of the bytes of memory: an address space tells which place of the screen is mapped there, not what it shows. The user programs \<open>p-*.cc\<close> and their library: executions cover all programs.
  Helpers for assertions that no code uses, runtime functions that only generated code calls, the tools that run on the host to build the disk, \<open>stdio.c\<close>, which
  passes every call on to the C stream library, and the test driver \<open>io300_test.c\<close>.
\<close>

section \<open>The system\<close>

text \<open>C4: From a state that satisfies the invariant, every state that an execution reaches satisfies it:
  the page tables of the processes form a forest that maps kernel memory one to one, users reach the
  console and their own pages only, writable pages belong to one process, reference counts cover all
  references, the kernel's page table and the page of the memory viewer are untouched, and the current
  process is runnable.\<close>

theorem reachable_invariant:
  assumes "ready l m" "(step l)\<^sup>*\<^sup>* m m'"
  shows "minv l m' \<and> state (ptable (kern m') (current (kern m'))) = P_RUNNABLE"
  using steps_ready [OF assms(2,1)] by (simp add: ready_def)

theorem reachable_invariant_witness:
  "\<exists>bs. step sample_link sample_machine (set_bytes bs sample_machine) \<and> minv sample_link (set_bytes bs sample_machine)"
proof -
  obtain bs where bs: "user_store (kbytes sample_machine) 0x1000 0x100010 7 = Some bs" using sample_store by blast
  have "pagetable (ptable (kern sample_machine) (current (kern sample_machine))) = 0x1000"
    using sample_procs sample_current(1) by (simp add: sample_machine_def)
  then have s: "step sample_link sample_machine (set_bytes bs sample_machine)"
    using bs step.store [of sample_machine "0x100010" 7 bs sample_link] by simp
  then have "(step sample_link)\<^sup>*\<^sup>* sample_machine (set_bytes bs sample_machine)" by blast
  from reachable_invariant [OF sample_ready this] s show ?thesis by blast
qed

text \<open>C5: In every reachable state, whatever registers the process presents, neither a system call nor an exception ends in one of the
  faults of the model: a failed assertion, a panic of the page-table code, an access outside an array, a signed overflow, or a read of
  an argument that the calling convention does not define. For system calls this leaves out a \<open>fork\<close> with a used-up reference
  count and the system call number \<open>0x8000000000000000\<close> (\<open>call_ok\<close>); exceptions are not restricted.\<close>

theorem kernel_never_faults:
  assumes "ready l m" "(step l)\<^sup>*\<^sup>* m m'"
  shows "(call_ok m' r \<longrightarrow> syscall l r m' \<noteq> Some (Inl (Fault f, m''))) \<and> exception l r cr2 m' \<noteq> Some (Inl (Fault f, m''))"
proof -
  have rd: "ready l m'" by (rule steps_ready [OF assms(2,1)])
  show ?thesis
    using syscall_handled [OF rd, of r] exception_resumed [OF rd, of r cr2]
    by (auto simp: call_ok_def handled_def resumed_def spins_def stopped_def user_stop_def)
qed

theorem kernel_never_faults_witness:
  "\<forall>f m''. syscall sample_link ((regs (ptable sample_system 1))\<lparr>reg_rax := 4, reg_rdi := 0x100001\<rparr>) sample_machine
     \<noteq> Some (Inl (Fault f, m''))
     \<and> exception sample_link ((regs (ptable sample_system 1))\<lparr>reg_intno := INT_PF\<rparr>) 0x300000 sample_machine \<noteq> Some (Inl (Fault f, m''))"
proof -
  have c: "call_ok sample_machine ((regs (ptable sample_system 1))\<lparr>reg_rax := 4, reg_rdi := 0x100001\<rparr>)" by (simp add: call_ok_def)
  have s: "(step sample_link)\<^sup>*\<^sup>* sample_machine sample_machine" by blast
  show ?thesis using kernel_never_faults [OF sample_ready s] c by blast
qed

text \<open>C6: A system call of a process in a well-formed system has one of these outcomes: the user switches
  the machine off or restarts it; the kernel resumes a process; or it returns a value to the caller. In
  the last two the invariant holds and the process that runs is runnable. The kernel runs on without
  end only after a call that panics or has an unknown number, or when the last runnable process exits.\<close>

theorem syscall_outcome:
  assumes "ready l m" "call_ok m r"
  shows "(\<exists>h m'. syscall l r m = Some (Inl (h, m')) \<and> (h = Powered_off \<or> (\<exists>arg. h = Soft_reboot arg)))
    \<or> (\<exists>j m'. syscall l r m = Some (Inl (Resume j, m')) \<and> ready l m' \<and> current (kern m') = j)
    \<or> (\<exists>v m'. syscall l r m = Some (Inr (v, m')) \<and> ready l m' \<and> current (kern m') = current (kern m))
    \<or> syscall l r m = None \<and> (reg_rax r = SYSCALL_EXIT
         \<and> (\<forall>j < NPROC. j \<noteq> current (kern m) \<longrightarrow> state (ptable (kern m) j) \<noteq> P_RUNNABLE) \<or> reg_rax r \<notin> {1, 2, 4, 5, 6})"
  using syscall_handled [OF assms(1), of r] assms(2)
  unfolding call_ok_def handled_def spins_def stopped_def user_stop_def alone_def by blast

theorem syscall_outcome_witness:
  "syscall sample_link ((regs (ptable sample_system 1))\<lparr>reg_rax := 1\<rparr>) sample_machine \<noteq> None"
proof -
  have "call_ok sample_machine ((regs (ptable sample_system 1))\<lparr>reg_rax := 1\<rparr>)" by (simp add: call_ok_def)
  from syscall_outcome [OF sample_ready this] show ?thesis by auto
qed

text \<open>C7: An exception ends likewise; if it is the timer interrupt, or a page fault of the process while
  another process is runnable, then the kernel does not run on without end.\<close>

theorem exception_outcome:
  assumes "ready l m"
  shows "(\<exists>h m'. exception l r cr2 m = Some (Inl (h, m')) \<and> (h = Powered_off \<or> (\<exists>arg. h = Soft_reboot arg)))
    \<or> (\<exists>j m'. exception l r cr2 m = Some (Inl (Resume j, m')) \<and> ready l m' \<and> current (kern m') = j)
    \<or> exception l r cr2 m = None \<and> reg_intno r \<noteq> INT_IRQ + IRQ_TIMER
       \<and> (reg_intno r = INT_PF \<and> reg_errcode r AND PFERR_USER \<noteq> 0 \<longrightarrow>
          (\<forall>j < NPROC. j \<noteq> current (kern m) \<longrightarrow> state (ptable (kern m) j) \<noteq> P_RUNNABLE))"
  using exception_resumed [OF assms, of r cr2]
  unfolding resumed_def spins_def stopped_def user_stop_def alone_def user_event_def by auto

theorem exception_outcome_witness:
  "exception sample_link ((regs (ptable sample_system 1))\<lparr>reg_intno := INT_IRQ\<rparr>) 0 sample_machine \<noteq> None"
  using exception_outcome [OF sample_ready, of "(regs (ptable sample_system 1))\<lparr>reg_intno := INT_IRQ\<rparr>" 0] by auto

text \<open>C1: A process that does not run does not change: as long as other processes run, whatever they store,
  call or are interrupted for, its descriptor with its saved registers stays as it is, and so does its address space: at every
  address it can read the same byte of memory as before, or, on its console page, the same place of the screen. The screen
  itself is shared by all processes and the kernel, and what it shows does change. The steps of an execution leave
  out the two calls of \<open>call_ok\<close>: a \<open>fork\<close> with a used-up reference count and the system call number \<open>0x8000000000000000\<close>.\<close>

theorem process_isolation:
  assumes "ready l m" "j \<in> live (kern m)" "(\<lambda>a b. step l a b \<and> current (kern a) \<noteq> j)\<^sup>*\<^sup>* m m'"
  shows "ptable (kern m') j = ptable (kern m) j \<and> (\<forall>va. space (kern m') j va = space (kern m) j va)"
proof -
  have "ready l m' \<and> j \<in> live (kern m') \<and> ptable (kern m') j = ptable (kern m) j
      \<and> (\<forall>va. space (kern m') j va = space (kern m) j va)"
    using assms(3)
  proof (induction rule: rtranclp_induct)
    case base
    then show ?case using assms(1,2) by simp
  next
    case (step a b)
    then have "ready l b" "isolated a b" using step_ready by blast+
    then show ?case using step by (auto simp: isolated_def live_def)
  qed
  then show ?thesis by blast
qed

theorem process_isolation_witness:
  "\<exists>bs. (step sample_link)\<^sup>*\<^sup>* sample_machine (set_bytes bs sample_machine) \<and> bs 0x5010 = 7
     \<and> (\<forall>va. space (kern (set_bytes bs sample_machine)) 2 va = space (kern sample_machine) 2 va)"
proof -
  obtain bs where bs: "user_store (kbytes sample_machine) 0x1000 0x100010 7 = Some bs" "bs 0x5010 = 7" using sample_store by blast
  have c: "current (kern sample_machine) = 1" "pagetable (ptable (kern sample_machine) 1) = 0x1000"
    using sample_procs sample_current(1) by (simp_all add: sample_machine_def)
  have s: "step sample_link sample_machine (set_bytes bs sample_machine)"
    using bs(1) c step.store [of sample_machine "0x100010" 7 bs sample_link] by simp
  then have "(\<lambda>a b. step sample_link a b \<and> current (kern a) \<noteq> 2)\<^sup>*\<^sup>* sample_machine (set_bytes bs sample_machine)"
    using c by (intro r_into_rtranclp) simp
  moreover have "2 \<in> live (kern sample_machine)" by (simp add: sample_machine_def sample_roots)
  ultimately show ?thesis using process_isolation [OF sample_ready] s bs(2) by blast
qed

text \<open>C8: The scheduler is a round robin: if some process is runnable, then it resumes the first one that
  comes after the current process in the cyclic order of the process table, unless the user stops the
  machine first; no process table entry and no memory that a process can read changes. If none is
  runnable, no process is resumed.\<close>

theorem schedule_round_robin:
  assumes "minv l m"
  shows "if \<exists>j < NPROC. state (ptable (kern m) j) = P_RUNNABLE
    then \<exists>d \<le> NPROC. 1 \<le> d \<and> state (ptable (kern m) ((current (kern m) + d) mod NPROC)) = P_RUNNABLE
      \<and> (\<forall>e. 1 \<le> e \<and> e < d \<longrightarrow> state (ptable (kern m) ((current (kern m) + e) mod NPROC)) \<noteq> P_RUNNABLE)
      \<and> (stopped (schedule l m)
         \<or> (\<exists>m'. schedule l m = Some (Inl (Resume ((current (kern m) + d) mod NPROC), m')) \<and> minv l m'
              \<and> ptable (kern m') = ptable (kern m) \<and> current (kern m') = (current (kern m) + d) mod NPROC
              \<and> (\<forall>i \<in> live (kern m). \<forall>va. space (kern m') i va = space (kern m) i va)))
    else schedule l m = None \<or> stopped (schedule l m)"
proof (cases "\<exists>j < NPROC. state (ptable (kern m) j) = P_RUNNABLE")
  case True
  then obtain d where d: "d \<le> NPROC" "first_runnable (ptable (kern m)) (current (kern m)) d"
    using first_runnable_ex minvD(7) [OF assms] by blast
  from schedule_loop_runs [OF assms d(2), of 1] have "stopped (schedule l m) \<or> resumes l m ((current (kern m) + d) mod NPROC) (schedule l m)"
    unfolding schedule_start [OF assms] .
  then show ?thesis using True d unfolding first_runnable_def resumes_def by auto
next
  case False
  then have "spins (schedule l m)" unfolding schedule_start [OF assms] by (intro schedule_loop_idle [OF assms]) auto
  then show ?thesis using False unfolding spins_def by (simp only: if_False)
qed

theorem schedule_round_robin_witness:
  "stopped (schedule sample_link sample_machine) \<or> (\<exists>j m'. schedule sample_link sample_machine = Some (Inl (Resume j, m')))"
proof -
  have "minv sample_link sample_machine" using sample_ready by (simp add: ready_def)
  note s = schedule_round_robin [OF this]
  have "\<exists>j < NPROC. state (ptable (kern sample_machine) j) = P_RUNNABLE"
    by (rule exI [of _ 1]) (simp add: sample_machine_def sample_procs)
  then show ?thesis using s by (simp only: if_True) blast
qed

text \<open>C9: In a well-formed system the memory viewer ends, draws inside the console, changes no process descriptor and nothing in the
  address space of a process but what the screen shows, and finds no error: for no physical address does it report that a reserved page, a
  page of kernel data or a page that the kernel has allocated for itself is mapped for users.\<close>

theorem memshow_finds_no_error:
  assumes "minv l m"
  shows "\<exists>m'. memshow l m = retIO m' \<and> minv l m' \<and> ptable (kern m') = ptable (kern m)
    \<and> (\<forall>i \<in> live (kern m). \<forall>va. space (kern m') i va = space (kern m) i va)
    \<and> (\<forall>pa. \<exists>ch. symbol_at l pa m' = retIO (ch, m'))"
proof -
  from memshow_ok [OF assms] obtain m' where
    m': "memshow l m = retIO m'" "minv l m'" "unseen m m'" "marks_clean (l_kernel_end l) (mu_marks m')" by metis
  then show ?thesis using symbol_at_clean [OF m'(4)] by (auto simp: unseen_def)
qed

theorem memshow_finds_no_error_witness:
  "\<exists>m' ch. memshow sample_link sample_machine = retIO m' \<and> symbol_at sample_link 0x5000 m' = retIO (ch, m')"
proof -
  have "minv sample_link sample_machine" using sample_ready by (simp add: ready_def)
  from memshow_finds_no_error [OF this] show ?thesis by blast
qed

section \<open>Start\<close>

text \<open>C3: On a machine with a local interrupt controller and with well-formed images in kernel memory, \<open>kernel\<close> starts the
  program that the command names, or the four allocators if it names none, and nothing else: it returns to
  process 1 in a state that satisfies the invariant of the system, and every started process finds its
  program's segments at their addresses, the rest of each segment cleared, a stack page, and the entry point of the
  image in its instruction pointer.\<close>

theorem kernel_boots:
  assumes "layout_ok l" "powered_on m" "list_all quiet_constructor ctors" "boot_starts l pg (kbytes m) command xs"
  shows "\<exists>m'. kernel_start l pg ctors command m = Some (Inl (Resume 1, m')) \<and> ready l m' \<and> live (kern m') = fst ` set xs
    \<and> current (kern m') = 1 \<and> (\<forall>x \<in> set xs. runs_image (kbytes m) (snd (snd x)) (kern m') (fst x))"
  by (rule booted [OF assms])

theorem kernel_boots_witness:
  "(\<exists>m'. kernel_start sample_link sample_programs [] 0 boot_machine = Some (Inl (Resume 1, m')) \<and> live (kern m') = {1, 2, 3, 4})
   \<and> (\<exists>m'. kernel_start sample_link sample_programs [] 0x45100 boot_machine = Some (Inl (Resume 1, m')) \<and> live (kern m') = {1}
      \<and> runs_image sample_image 0x45000 (kern m') 1)"
proof
  show "\<exists>m'. kernel_start sample_link sample_programs [] 0 boot_machine = Some (Inl (Resume 1, m')) \<and> live (kern m') = {1, 2, 3, 4}"
    using kernel_boots [OF sample_layout boot_machine_on, of "[]" sample_programs 0] sample_starts(1) by fastforce
  show "\<exists>m'. kernel_start sample_link sample_programs [] 0x45100 boot_machine = Some (Inl (Resume 1, m')) \<and> live (kern m') = {1}
      \<and> runs_image sample_image 0x45000 (kern m') 1"
    using kernel_boots [OF sample_layout boot_machine_on, of "[]" sample_programs "0x45100"] sample_starts(2) by fastforce
qed

text \<open>C2: In every state that an execution reaches from the start of the kernel, a page that a process can access is the
  console or a page above \<open>PROC_START_ADDR\<close> in its address space that the allocator hands out; it is no page-table
  page, and if the process can write to it then no other process can access it.\<close>

theorem booted_system_protected:
  assumes "layout_ok l" "powered_on m" "list_all quiet_constructor ctors" "boot_starts l pg (kbytes m) command xs"
    and "kernel_start l pg ctors command m = Some (Inl (Resume 1, m1))" "(step l)\<^sup>*\<^sup>* m1 m2"
    and "i \<in> live (kern m2)" "user_map (kbytes m2) (pagetable (ptable (kern m2) i)) va q w" "q \<noteq> CONSOLE_ADDR"
  shows "allocatable_physical_address (l_kernel_end l) q \<and> PROC_START_ADDR \<le> va
    \<and> q \<notin> tables (kbytes m2) (insert (l_pagetable l) (proc_roots (kern m2)))
    \<and> (w \<longrightarrow> (\<forall>j \<in> live (kern m2). \<forall>va' w'. user_map (kbytes m2) (pagetable (ptable (kern m2) j)) va' q w' \<longrightarrow> j = i))"
proof -
  have "ready l m1" using booted [OF assms(1-4)] assms(5) by auto
  then have "ready l m2" by (rule steps_ready [OF assms(6)])
  then have sys: "sys_inv (l_kernel_end l) (l_pagetable l) (kern m2)" by (simp add: ready_def minv_def)
  note v = sys_invD [OF sys]
  let ?r = "\<lambda>i. pagetable (ptable (kern m2) i)"
  have um: "user_map (kbytes m2) (?r j) va' q False" if "user_map (kbytes m2) (?r j) va' q w'" for j va' w'
    using that user_map_mono by (cases w') auto
  have as: "as_inv (avail (l_kernel_end l)) (l_pagetable l) (proc_roots (kern m2)) (phys (kern m2))"
      and mo: "maps_ok (l_kernel_end l) (kbytes m2) (?r i)" using v(1) v(4) [OF assms(7)] by (simp_all add: mem_inv_def)
  have "user_va va \<and> allocatable_physical_address (l_kernel_end l) q" using mo um [OF assms(8)] assms(9) by (auto simp: maps_ok_def)
  moreover have "q \<notin> tables (kbytes m2) (insert (l_pagetable l) (proc_roots (kern m2)))"
    using as v(4) [OF assms(7)] um [OF assms(8)] unfolding as_inv_def frames_ok_def by blast
  moreover have "j = i" if "w" "j \<in> live (kern m2)" "user_map (kbytes m2) (?r j) va' q w'" for j va' w'
  proof -
    have "?r i = ?r j" using as that v(4) [OF assms(7)] v(4) [OF that(2)] assms(8,9) um [OF that(3)] unfolding as_inv_def exclusive_def by metis
    then show ?thesis using v(2) assms(7) that(2) by (auto simp: inj_on_def)
  qed
  ultimately show ?thesis by (auto simp: user_va_def)
qed

theorem booted_system_protected_witness:
  "\<exists>m1 q. kernel_start sample_link sample_programs [] 0x45100 boot_machine = Some (Inl (Resume 1, m1))
     \<and> user_map (kbytes m1) (pagetable (ptable (kern m1) 1)) 0x2FF000 q True
     \<and> (q = CONSOLE_ADDR \<or> allocatable_physical_address 0x50000 q)"
proof -
  have "list_all quiet_constructor []" by simp
  note h = sample_layout boot_machine_on this sample_starts(2) [folded boot_machine_simps(1)]
  from booted [OF h] obtain m1 where m1: "kernel_start sample_link sample_programs [] 0x45100 boot_machine = Some (Inl (Resume 1, m1))"
      "live (kern m1) = {1}" "runs_image sample_image 0x45000 (kern m1) 1" by auto
  from m1(3) have "\<forall>v. MEMSIZE_VIRTUAL - PAGESIZE \<le> v \<and> v < MEMSIZE_VIRTUAL \<longrightarrow>
      (\<exists>q. user_map (kbytes m1) (pagetable (ptable (kern m1) 1)) v q True)" unfolding runs_image_def by blast
  from this [rule_format, of "0x2FF000"] obtain q where q: "user_map (kbytes m1) (pagetable (ptable (kern m1) 1)) 0x2FF000 q True" by auto
  have "1 \<in> live (kern m1)" using m1(2) by simp
  from booted_system_protected [OF h m1(1) rtranclp.rtrancl_refl this q] q m1(1) show ?thesis by auto
qed

text \<open>C10: In a system that satisfies the invariant, whose kernel page table is the one that \<open>kernel\<close> builds and whose lowest free pages are
  the consecutive pages \<open>n\<close> to \<open>N - 1\<close>, as they are during the start of the kernel, \<open>process_setup\<close> loads a well-formed program that these
  pages suffice for into an unused process slot: it returns, keeps the invariant, changes no other process, and the process finds its
  segments, its stack and its entry point. (That the free pages are consecutive is needed: the code copies a segment of several
  pages to consecutive physical addresses.)\<close>

theorem process_setup_loads:
  assumes "ke \<le> KERNEL_STACK_TOP" "sys_inv ke kpt k" "ktables kpt kernel_entries (bytes (phys k))" "free_run ke n N (phys k)"
    and "i \<notin> live k" "i < NPROC" "program_ok ke kpt pg (bytes (phys k)) name elf"
    "n + 6 + program_size (bytes (phys k)) elf \<le> N"
  shows "\<exists>k'. process_setup ke kpt pg i name k = retIO k' \<and> sys_inv ke kpt k' \<and> live k' = insert i (live k)
    \<and> runs_image (bytes (phys k)) elf k' i
    \<and> (\<forall>j \<in> live k. ptable k' j = ptable k j \<and> (\<forall>va. space k' j va = space k j va))"
proof -
  have "boot_inv ke kpt n N k" using assms(1-4) by (simp add: boot_inv_def)
  from process_setup_run [OF this assms(5-8)] obtain k' n' where k': "process_setup ke kpt pg i name k = retIO k'" "boot_inv ke kpt n' N k'"
      "set_up ke kpt (bytes (phys k)) elf i k k'" by blast
  have "ptable k' j = ptable k j" if "j \<in> live k" for j using k'(3) that assms(5) unfolding set_up_def by metis
  then show ?thesis using k' by (intro exI [of _ k']) (auto simp: set_up_def boot_inv_def)
qed

theorem process_setup_loads_witness:
  "\<exists>k'. process_setup 0x50000 0x40000 sample_programs 1 0x450C0 empty_kernel = retIO k'
     \<and> runs_image (bytes (phys empty_kernel)) 0x45000 k' 1"
proof -
  have "ri_name (ramimages sample_programs ! 0) = 0x450C0" by (simp add: sample_programs_def)
  then have ok: "program_ok 0x50000 0x40000 sample_programs sample_image 0x450C0 0x45000" using sample_program_ok [of 0] by simp
  note ps = program_same [OF ok empty_kernel_inv(2)]
  have "1 + 6 + program_size (bytes (phys empty_kernel)) 0x45000 \<le> 64" using ps(5) sample_size by simp
  moreover have "0x50000 \<le> (KERNEL_STACK_TOP :: u64)" "sys_inv 0x50000 0x40000 empty_kernel"
      "ktables 0x40000 kernel_entries (bytes (phys empty_kernel))" "free_run 0x50000 1 64 (phys empty_kernel)"
    using empty_kernel_inv(1) by (simp_all add: boot_inv_def)
  ultimately show ?thesis using process_setup_loads [of "0x50000" "0x40000" empty_kernel 1 64 1, OF _ _ _ _ _ _ ps(1)] empty_kernel_inv(3) by auto
qed

text \<open>C11: \<open>init_kernel_memory\<close> leaves the first page inaccessible. After the loop of \<open>kernel\<close>, the kernel's page table translates every
  address from the second page to \<open>MEMSIZE_PHYSICAL\<close> to itself, and it gives users access to the console and to the memory from
  \<open>PROC_START_ADDR\<close> on only. The rest of kernel memory is unchanged. (The loop of \<open>kernel\<close> maps the first page again, against its
  comment: \<open>null_page_mapped\<close>.)\<close>

theorem kernel_page_table:
  assumes "layout_ok l"
  shows "\<exists>m1 it s. init_kernel_memory l m = retIO m1 \<and> vmiter_init (kbytes m1) (l_pagetable l) 0 = Inr it
    \<and> kernel_map_loop (l_kernel_end l) it (phys (kern m1)) = Inr s
    \<and> (\<forall>va. va < PAGESIZE \<longrightarrow> translate (kbytes m1) (l_pagetable l) va = None)
    \<and> (\<forall>va. PAGESIZE \<le> va \<and> va < MEMSIZE_PHYSICAL \<longrightarrow> (\<exists>perm. translate (bytes s) (l_pagetable l) va = Some (va, perm)
         \<and> (is_user perm \<longleftrightarrow> page_base va = CONSOLE_ADDR \<or> PROC_START_ADDR \<le> va)))
    \<and> (\<forall>va pa perm. va < PAGESIZE \<or> MEMSIZE_PHYSICAL \<le> va \<longrightarrow> translate (bytes s) (l_pagetable l) va = Some (pa, perm) \<longrightarrow> \<not> is_user perm)
    \<and> image_same_at l (kbytes m) (bytes s)"
proof -
  from kernel_memory_set_up [OF assms, of m] obtain m1 it s where
      s: "init_kernel_memory l m = retIO m1" "vmiter_init (kbytes m1) (l_pagetable l) 0 = Inr it"
      "kernel_map_loop (l_kernel_end l) it (phys (kern m1)) = Inr s" "image_same_at l (kbytes m) (bytes s)"
      "\<forall>va. va < PAGESIZE \<longrightarrow> translate (kbytes m1) (l_pagetable l) va = None \<and> translate (bytes s) (l_pagetable l) va = Some (va, PTE_P OR PTE_W)"
      "\<forall>va. va < MEMSIZE_PHYSICAL \<longrightarrow> (\<exists>perm. translate (bytes s) (l_pagetable l) va = Some (va, perm)
         \<and> (is_user perm \<longleftrightarrow> page_base va = CONSOLE_ADDR \<or> PROC_START_ADDR \<le> va))"
      "\<forall>va pa perm. MEMSIZE_PHYSICAL \<le> va \<longrightarrow> translate (bytes s) (l_pagetable l) va = Some (pa, perm) \<longrightarrow> \<not> is_user perm" by blast
  have "\<not> is_user (PTE_P OR PTE_W)" using and_three_five by (simp add: is_user_def)
  then have "\<not> is_user perm" if "va < PAGESIZE \<or> MEMSIZE_PHYSICAL \<le> va" "translate (bytes s) (l_pagetable l) va = Some (pa, perm)" for va pa perm
    using that s(5,7) by fastforce
  then show ?thesis using s by blast
qed

theorem kernel_page_table_witness:
  "\<exists>m1 it s. init_kernel_memory sample_link boot_machine = retIO m1 \<and> vmiter_init (kbytes m1) 0x40000 0 = Inr it
     \<and> kernel_map_loop 0x50000 it (phys (kern m1)) = Inr s \<and> (\<exists>perm. translate (bytes s) 0x40000 0x45000 = Some (0x45000, perm) \<and> \<not> is_user perm)"
proof -
  from kernel_page_table [OF sample_layout, of boot_machine] obtain m1 it s where
      s: "init_kernel_memory sample_link boot_machine = retIO m1" "vmiter_init (kbytes m1) 0x40000 0 = Inr it"
      "kernel_map_loop 0x50000 it (phys (kern m1)) = Inr s"
      "\<forall>va. PAGESIZE \<le> va \<and> va < MEMSIZE_PHYSICAL \<longrightarrow> (\<exists>perm. translate (bytes s) 0x40000 va = Some (va, perm) \<and> (is_user perm \<longleftrightarrow> page_base va = CONSOLE_ADDR \<or> PROC_START_ADDR \<le> va))"
    by auto
  have "page_base 0x45000 = 0x45000" by (simp add: page_base_def)
  then have "\<exists>perm. translate (bytes s) 0x40000 0x45000 = Some (0x45000, perm) \<and> \<not> is_user perm" using s(4) [rule_format, of "0x45000"] by simp
  then show ?thesis using s(1-3) by blast
qed

section \<open>Range checks\<close>

text \<open>C20: Both forms of \<open>vmiter::low_perm\<close>, which go through a range of low addresses from one page-table entry to the next, end and
  answer what a check of every single address would answer: whether the processor's translation grants the permissions \<open>p\<close>
  at each address of the range, wherever the iterator was before.\<close>

theorem low_perm_checks_range:
  assumes "iter_ok m pt" "page_aligned pt" "p AND PTE_P = PTE_P" "p AND 0xFFF = p" "firstva \<le> lastva" "lastva \<le> VA_LOWEND"
  shows "(\<exists>it'. vm_low_perm m (fresh_iter m pt va) firstva lastva p
      = retIO (\<forall>v. firstva \<le> v \<and> v < lastva \<longrightarrow> (\<exists>pa perm. translate m pt v = Some (pa, perm) \<and> perm AND p = p), it'))
    \<and> (\<exists>it'. vm_low_perm_size m (fresh_iter m pt va) firstva (lastva - firstva) p
      = retIO (\<forall>v. firstva \<le> v \<and> v < lastva \<longrightarrow> (\<exists>pa perm. translate m pt v = Some (pa, perm) \<and> perm AND p = p), it'))"
proof -
  have f: "firstva \<le> VA_LOWEND" using assms(5,6) by (rule order_trans)
  then have "lastva - firstva \<le> VA_LOWEND - firstva"
    using assms(5,6) by (simp add: word_le_nat_alt unat_sub)
  then show ?thesis using f vm_low_perm_correct [OF assms] vm_low_perm_size_eq [of firstva m "fresh_iter m pt va" "lastva - firstva" p] by simp
qed

theorem low_perm_checks_range_witness:
  "(\<exists>it'. vm_low_perm sample_bytes (fresh_iter sample_bytes 0x40000 0) 0x40100 0x42000 3 = retIO (True, it'))
   \<and> (\<exists>it'. vm_low_perm sample_bytes (fresh_iter sample_bytes 0x40000 0) 0x40100 0x42000 7 = retIO (False, it'))"
proof -
  have io: "iter_ok sample_bytes 0x40000" "page_aligned 0x40000" using sample_kpt_ok by (simp_all add: kpt_ok_def page_aligned_def)
  have t: "translate sample_bytes 0x40000 v = Some (v, 3)" if "0x40100 \<le> v \<and> v < 0x42000" for v
  proof -
    have "unat v div 4096 < 66" using that by (intro less_mult_imp_div_less) (simp add: word_less_nat_alt)
    moreover have "unat v < 0x200000" using that by (simp add: word_less_nat_alt)
    ultimately show ?thesis by (simp add: sample_kpt_translate)
  qed
  then have a: "(\<forall>v. 0x40100 \<le> v \<and> v < 0x42000 \<longrightarrow> (\<exists>pa perm. translate sample_bytes 0x40000 v = Some (pa, perm) \<and> perm AND 3 = 3)) = True"
    by simp
  have "\<not> (\<exists>pa perm. translate sample_bytes 0x40000 0x40100 = Some (pa, perm) \<and> perm AND 7 = 7)" using t [of "0x40100"] by simp
  then have b: "(\<forall>v. 0x40100 \<le> v \<and> v < 0x42000 \<longrightarrow> (\<exists>pa perm. translate sample_bytes 0x40000 v = Some (pa, perm) \<and> perm AND 7 = 7)) = False"
    by (auto intro!: exI [of _ "0x40100"])
  show ?thesis
    using low_perm_checks_range [OF io, of 3 "0x40100" "0x42000" 0, unfolded a] low_perm_checks_range [OF io, of 7 "0x40100" "0x42000" 0, unfolded b]
    by simp
qed

text \<open>C40: A soft reboot gives the data segment of the kernel the bytes it had when the kernel started, whatever has been
  stored there since, and clears the rest of the kernel's static data; other memory is unchanged.\<close>

theorem reboot_restores_data:
  assumes "layout_ok l"
    and "\<And>a. SYMTAB_ADDR - (l_edata l - l_data_start l) \<le> a \<Longrightarrow> a < SYMTAB_ADDR \<Longrightarrow> b' a = stash_kernel_data l False b a"
  shows "stash_kernel_data l True b' a =
    (if l_data_start l \<le> a \<and> a < l_edata l then b a else if l_edata l \<le> a \<and> a < l_kernel_end l then 0 else b' a)"
  by (rule stash_restored [OF assms])

theorem reboot_restores_data_witness:
  "stash_kernel_data sample_link True ((stash_kernel_data sample_link False sample_image)(0x45001 := 99)) 0x45001 = 69"
proof -
  have "((stash_kernel_data sample_link False sample_image)(0x45001 := 99)) a = stash_kernel_data sample_link False sample_image a"
    if "SYMTAB_ADDR - (l_edata sample_link - l_data_start sample_link) \<le> a" for a
    using that by (auto simp: sample_link_def)
  from reboot_restores_data [OF sample_layout this, of "0x45001"] show ?thesis
    by (simp add: sample_link_def sample_image_def sample_elf_def fun_upd_def)
qed

end
